(* ===== verification/CPrelude.thy ===== *)
theory CPrelude
  imports Main "HOL-Library.Word"
begin

text \<open>
  Shared vocabulary of the development: machine integers, C faults as values, C strings and the
  functions of the C library that the launcher calls (\<open>strchr\<close>, \<open>strncmp\<close>, \<open>strncpy\<close>,
  \<open>snprintf\<close> with \<open>%s\<close>, \<open>%d\<close> and \<open>%X\<close>, \<open>atoi\<close>, \<open>strtoul\<close>, the \<open>ctype\<close> predicates).

  A C string is the list of its characters before the terminating NUL; \<open>cstring\<close> says that no
  NUL is among them.  A fixed array that a library call fills and terminates is the prefix that
  fits.  Behaviour that C leaves undefined (a NULL or an out-of-range access, a freed cell, a string that is read
  without a terminator) is a value of \<open>c_fault\<close>, so that every theorem about a result also says
  that no such access happened.
\<close>

unbundle bit_operations_syntax

type_synonym u8 = "8 word"
type_synonym u16 = "16 word"
type_synonym u32 = "32 word"
type_synonym u64 = "64 word"

text \<open>The named collections the component proofs draw on.\<close>

named_theorems clib "facts about the C library functions"
named_theorems wf_intros "operations preserve the well-formedness of their component"

section \<open>Faults\<close>

datatype c_fault = NullDeref | OutOfBounds | Unterminated | Dangling

type_synonym 'a cres = "c_fault + 'a"

definition c_bind :: "'a cres \<Rightarrow> ('a \<Rightarrow> 'b cres) \<Rightarrow> 'b cres" where
  "c_bind m f = (case m of Inl e \<Rightarrow> Inl e | Inr x \<Rightarrow> f x)"

definition poke :: "'a list \<Rightarrow> nat \<Rightarrow> 'a \<Rightarrow> 'a list cres" where
  "poke xs i v = (if i < length xs then Inr (xs[i := v]) else Inl OutOfBounds)"

definition peek :: "'a list \<Rightarrow> nat \<Rightarrow> 'a cres" where
  "peek xs i = (if i < length xs then Inr (xs ! i) else Inl OutOfBounds)"

text \<open>\<open>memcpy\<close> into and out of an array.\<close>

definition mem_write :: "'a list \<Rightarrow> nat \<Rightarrow> 'a list \<Rightarrow> 'a list cres" where
  "mem_write m p bs =
     (if p + length bs \<le> length m then Inr (take p m @ bs @ drop (p + length bs) m) else Inl OutOfBounds)"

definition mem_read :: "'a list \<Rightarrow> nat \<Rightarrow> nat \<Rightarrow> 'a list cres" where
  "mem_read m p n = (if p + n \<le> length m then Inr (take n (drop p m)) else Inl OutOfBounds)"

section \<open>C strings\<close>

abbreviation NUL :: char where "NUL \<equiv> CHR 0x00"
abbreviation LF :: char where "LF \<equiv> CHR 0x0A"
abbreviation CR :: char where "CR \<equiv> CHR 0x0D"
abbreviation TAB :: char where "TAB \<equiv> CHR 0x09"
abbreviation BACKSLASH :: char where "BACKSLASH \<equiv> CHR 0x5C"

definition cstring :: "string \<Rightarrow> bool" where
  "cstring s \<longleftrightarrow> NUL \<notin> set s"

text \<open>The string that starts at an address of a buffer: everything up to the first NUL.\<close>

definition cstr_at :: "string \<Rightarrow> nat \<Rightarrow> string" where
  "cstr_at buf p = takeWhile (\<lambda>c. c \<noteq> NUL) (drop p buf)"

text \<open>\<open>strchr\<close>: the offset of the first occurrence, counted from the start of the string.\<close>

fun strchr :: "string \<Rightarrow> char \<Rightarrow> nat option" where
  "strchr [] c = None"
| "strchr (x # xs) c = (if x = c then Some 0 else map_option Suc (strchr xs c))"

text \<open>\<open>strncmp (a, b, n) == 0\<close> on two C strings.\<close>

definition strncmp_eq :: "nat \<Rightarrow> string \<Rightarrow> string \<Rightarrow> bool" where
  "strncmp_eq n a b \<longleftrightarrow> take n a = take n b"

text \<open>\<open>strncpy (dst, src, n); dst[n - 1] = 0\<close> and \<open>snprintf (dst, n, ...)\<close>: the prefix that fits.\<close>

definition strncpy_z :: "nat \<Rightarrow> string \<Rightarrow> string" where
  "strncpy_z n s = take (n - 1) s"

definition snprintf :: "nat \<Rightarrow> string \<Rightarrow> string" where
  "snprintf n s = take (n - 1) s"

section \<open>Character classes and numbers\<close>

definition code :: "char \<Rightarrow> nat" where
  "code c = of_char c"

definition isspace :: "char \<Rightarrow> bool" where
  "isspace c \<longleftrightarrow> code c = 32 \<or> 9 \<le> code c \<and> code c \<le> 13"

definition isdigit :: "char \<Rightarrow> bool" where
  "isdigit c \<longleftrightarrow> 48 \<le> code c \<and> code c \<le> 57"

definition isxdigit :: "char \<Rightarrow> bool" where
  "isxdigit c \<longleftrightarrow> isdigit c \<or> 65 \<le> code c \<and> code c \<le> 70 \<or> 97 \<le> code c \<and> code c \<le> 102"

definition isgraph :: "char \<Rightarrow> bool" where
  "isgraph c \<longleftrightarrow> 33 \<le> code c \<and> code c \<le> 126"

definition tolower :: "char \<Rightarrow> char" where
  "tolower c = (if 65 \<le> code c \<and> code c \<le> 90 then char_of (code c + 32) else c)"

definition strcasecmp_eq :: "string \<Rightarrow> string \<Rightarrow> bool" where
  "strcasecmp_eq a b \<longleftrightarrow> map tolower a = map tolower b"

definition strncasecmp_eq :: "nat \<Rightarrow> string \<Rightarrow> string \<Rightarrow> bool" where
  "strncasecmp_eq n a b \<longleftrightarrow> map tolower (take n a) = map tolower (take n b)"

text \<open>\<open>%d\<close>.\<close>

fun show_nat :: "nat \<Rightarrow> string" where
  "show_nat n = (if n < 10 then [char_of (48 + n)] else show_nat (n div 10) @ [char_of (48 + n mod 10)])"

declare show_nat.simps [simp del]

definition show_int :: "int \<Rightarrow> string" where
  "show_int i = (if i < 0 then CHR ''-'' # show_nat (nat (- i)) else show_nat (nat i))"

text \<open>\<open>atoi\<close>: white space, an optional sign, then digits up to the first other character; the value
  saturates at the bounds of a 32-bit \<open>long\<close>, as the library's \<open>strtol\<close> does.\<close>

fun atoi_digits :: "nat \<Rightarrow> string \<Rightarrow> nat" where
  "atoi_digits acc [] = acc"
| "atoi_digits acc (c # cs) =
     (if isdigit c then atoi_digits (10 * acc + (code c - 48)) cs else acc)"

definition atoi :: "string \<Rightarrow> int" where
  "atoi s = (let t = dropWhile isspace s in
     case t of [] \<Rightarrow> 0
     | c # u \<Rightarrow>
         if c = CHR ''-'' then max (- (2 ^ 31)) (- int (atoi_digits 0 u))
         else if c = CHR ''+'' then min (2 ^ 31 - 1) (int (atoi_digits 0 u))
         else min (2 ^ 31 - 1) (int (atoi_digits 0 t)))"

text \<open>\<open>strtoul\<close> to base 10, saturating at the largest 32-bit number.\<close>

definition strtoul10 :: "string \<Rightarrow> nat" where
  "strtoul10 s =
     (let t = dropWhile isspace s
      in if take 1 t = ''-'' then unat (- word_of_nat (min (2 ^ 32 - 1) (atoi_digits 0 (drop 1 t))) :: u32)
         else min (2 ^ 32 - 1) (atoi_digits 0 (if take 1 t = ''+'' then drop 1 t else t)))"

definition int32 :: "int \<Rightarrow> bool" where
  "int32 i \<longleftrightarrow> - (2 ^ 31) \<le> i \<and> i < 2 ^ 31"

section \<open>Facts about the library functions\<close>

lemma c_bind_Inr [simp]: "c_bind (Inr x) f = f x"
  and c_bind_Inl [simp]: "c_bind (Inl e) f = Inl e"
  by (simp_all add: c_bind_def)

lemma c_bind_eq_Inr: "c_bind m f = Inr y \<longleftrightarrow> (\<exists>x. m = Inr x \<and> f x = Inr y)"
  by (cases m) auto

lemma poke_Inr [simp]: "i < length xs \<Longrightarrow> poke xs i v = Inr (xs[i := v])"
  by (simp add: poke_def)

lemma peek_Inr [simp]: "i < length xs \<Longrightarrow> peek xs i = Inr (xs ! i)"
  by (simp add: peek_def)

lemma mem_read_Inr [simp]: "p + n \<le> length m \<Longrightarrow> mem_read m p n = Inr (take n (drop p m))"
  by (simp add: mem_read_def)

lemma mem_write_Inr:
  "p + length bs \<le> length m \<Longrightarrow> \<exists>m'. mem_write m p bs = Inr m' \<and> length m' = length m \<and>
     (\<forall>k < length m. m' ! k = (if p \<le> k \<and> k < p + length bs then bs ! (k - p) else m ! k))"
  by (auto simp: mem_write_def nth_append)

lemma u32_unat_less: "unat (x :: u32) < 2 ^ 32"
  by (rule order.strict_trans2 [OF unsigned_less]) simp

lemma u32_unat_add: "unat x + unat y < 2 ^ 32 \<Longrightarrow> unat (x + y :: u32) = unat x + unat y"
  by (subst unat_add_lem [symmetric]) simp

lemma u32_unat_mult: "unat x * unat y < 2 ^ 32 \<Longrightarrow> unat (x * y :: u32) = unat x * unat y"
  by (subst unat_mult_lem [symmetric]) simp

lemma cstring_simps [simp]:
  "cstring []" "cstring (c # s) \<longleftrightarrow> c \<noteq> NUL \<and> cstring s"
  "cstring (s @ t) \<longleftrightarrow> cstring s \<and> cstring t"
  by (auto simp: cstring_def)

lemma cstring_take: "cstring s \<Longrightarrow> cstring (take n s)"
  by (auto simp: cstring_def dest: in_set_takeD)

lemma cstring_drop: "cstring s \<Longrightarrow> cstring (drop n s)"
  by (auto simp: cstring_def dest: in_set_dropD)

lemma strchr_None_iff: "strchr s c = None \<longleftrightarrow> c \<notin> set s"
  by (induction s) auto

lemma strchr_append:
  "c \<notin> set s \<Longrightarrow> strchr (s @ c # t) c = Some (length s)"
  by (induction s) auto

lemma strchr_None [clib]: "c \<notin> set s \<Longrightarrow> strchr s c = None"
  by (simp add: strchr_None_iff)

lemma strchr_Some_split:
  "strchr s c = Some n \<Longrightarrow> \<exists>a b. s = a @ c # b \<and> c \<notin> set a \<and> length a = n"
proof (induction s arbitrary: n)
  case Nil
  then show ?case by simp
next
  case (Cons x s)
  show ?case
  proof (cases "x = c")
    case True
    with Cons.prems have "x # s = [] @ c # s \<and> c \<notin> set [] \<and> length [] = n" by simp
    then show ?thesis by blast
  next
    case False
    with Cons.prems obtain m where "strchr s c = Some m" and n: "n = Suc m" by auto
    with Cons.IH obtain a b where "s = a @ c # b" "c \<notin> set a" "length a = m" by blast
    with False n have "x # s = (x # a) @ c # b \<and> c \<notin> set (x # a) \<and> length (x # a) = n" by simp
    then show ?thesis by blast
  qed
qed

lemma strncpy_z_id [clib]: "length s < n \<Longrightarrow> strncpy_z n s = s"
  by (simp add: strncpy_z_def)

lemma snprintf_id [clib]: "length s < n \<Longrightarrow> snprintf n s = s"
  by (simp add: snprintf_def)

lemma length_strncpy_z: "0 < n \<Longrightarrow> length (strncpy_z n s) < n"
  by (simp add: strncpy_z_def)

lemma length_snprintf: "0 < n \<Longrightarrow> length (snprintf n s) < n"
  by (simp add: snprintf_def)

lemma cstring_strncpy_z: "cstring s \<Longrightarrow> cstring (strncpy_z n s)"
  by (simp add: strncpy_z_def cstring_take)

lemma cstring_snprintf: "cstring s \<Longrightarrow> cstring (snprintf n s)"
  by (simp add: snprintf_def cstring_take)

lemma strncmp_eq_iff: "length a < n \<Longrightarrow> strncmp_eq n a b \<longleftrightarrow> a = b"
proof -
  assume a: "length a < n"
  have "take n b = a \<Longrightarrow> b = a"
    using a by (metis length_take min_less_iff_conj nat_neq_iff take_all_iff leI)
  with a show ?thesis by (auto simp: strncmp_eq_def)
qed

subsection \<open>Decimal numbers\<close>

lemma code_char_of [simp]: "n < 256 \<Longrightarrow> code (char_of n) = n"
  by (simp add: code_def)

lemma show_nat_nonempty [simp]: "show_nat n \<noteq> []"
  by (subst show_nat.simps) simp

lemma show_nat_digits: "\<forall>c \<in> set (show_nat n). isdigit c"
proof (induction n rule: show_nat.induct)
  case (1 n)
  show ?case
  proof (cases "n < 10")
    case True
    then show ?thesis by (subst show_nat.simps) (simp add: isdigit_def)
  next
    case False
    then have "\<forall>c \<in> set (show_nat (n div 10)). isdigit c" by (rule "1.IH")
    moreover have "n mod 10 < 10" by simp
    then have "isdigit (char_of (48 + n mod 10))" by (simp add: isdigit_def)
    ultimately show ?thesis using False by (subst show_nat.simps) auto
  qed
qed

lemma atoi_digits_append:
  "\<forall>c \<in> set s. isdigit c \<Longrightarrow> atoi_digits acc (s @ t) = atoi_digits (atoi_digits acc s) t"
  by (induction s arbitrary: acc) auto

lemma atoi_digits_show_nat: "atoi_digits 0 (show_nat n) = n"
proof (induction n rule: show_nat.induct)
  case (1 n)
  show ?case
  proof (cases "n < 10")
    case True
    then show ?thesis by (subst show_nat.simps) (simp add: isdigit_def)
  next
    case False
    then have IH: "atoi_digits 0 (show_nat (n div 10)) = n div 10" by (rule "1.IH")
    have d: "n mod 10 < 10" by simp
    have "atoi_digits 0 (show_nat n)
        = atoi_digits (n div 10) [char_of (48 + n mod 10)]"
      using False by (subst show_nat.simps) (simp add: atoi_digits_append show_nat_digits IH)
    also have "\<dots> = n" using d by (auto simp: isdigit_def)
    finally show ?thesis .
  qed
qed

lemma show_nat_hd: "\<exists>c s. show_nat n = c # s \<and> isdigit c"
  using show_nat_digits [of n] by (cases "show_nat n") auto

lemma isdigit_not_sign: "isdigit c \<Longrightarrow> \<not> isspace c \<and> c \<noteq> CHR ''-'' \<and> c \<noteq> CHR ''+''"
  by (auto simp: isdigit_def isspace_def code_def)

lemma atoi_show_int: "int32 i \<Longrightarrow> atoi (show_int i) = i"
proof (cases "i < 0")
  case True
  assume r: "int32 i"
  have "\<not> isspace (CHR ''-'')" by (simp add: isspace_def code_def)
  with True r show ?thesis
    by (simp add: show_int_def atoi_def atoi_digits_show_nat int32_def)
next
  case False
  assume r: "int32 i"
  obtain c s where cs: "show_nat (nat i) = c # s" "isdigit c" using show_nat_hd by blast
  then have "dropWhile isspace (show_nat (nat i)) = c # s" "c \<noteq> CHR ''-''" "c \<noteq> CHR ''+''"
    using isdigit_not_sign by auto
  moreover have "atoi_digits 0 (c # s) = nat i" using atoi_digits_show_nat [of "nat i"] cs by simp
  ultimately show ?thesis using False r
    by (simp add: show_int_def atoi_def Let_def int32_def)
qed

lemma length_show_nat: "n < 10 ^ k \<Longrightarrow> 0 < k \<Longrightarrow> length (show_nat n) \<le> k"
proof (induction k arbitrary: n)
  case 0
  then show ?case by simp
next
  case (Suc k)
  show ?case
  proof (cases "n < 10")
    case True
    then show ?thesis by (subst show_nat.simps) simp
  next
    case False
    with Suc.prems have k: "0 < k" by (cases k) auto
    have "n div 10 < 10 ^ k" using Suc.prems(1) by (simp add: div_less_iff_less_mult mult.commute)
    with k have "length (show_nat (n div 10)) \<le> k" by (rule Suc.IH [rotated]) 
    with False show ?thesis by (subst show_nat.simps) simp
  qed
qed

lemma length_show_int: "int32 i \<Longrightarrow> length (show_int i) \<le> 11"
proof -
  assume "int32 i"
  then have "nat (- i) < 10 ^ 10" "nat i < 10 ^ 10" by (auto simp: int32_def)
  then show ?thesis
    using length_show_nat [of "nat (- i)" 10] length_show_nat [of "nat i" 10]
    by (simp add: show_int_def)
qed

lemma isdigit_not_NUL: "isdigit c \<Longrightarrow> c \<noteq> NUL"
  by (auto simp: isdigit_def code_def)

lemma cstring_show_int: "cstring (show_int i)"
  using show_nat_digits by (auto simp: show_int_def cstring_def dest: isdigit_not_NUL)

lemma strtoul10_show_nat: "n < 2 ^ 32 \<Longrightarrow> strtoul10 (show_nat n) = n"
proof -
  assume n: "n < 2 ^ 32"
  obtain c s where s: "show_nat n = c # s" "isdigit c" using show_nat_hd by blast
  then have "dropWhile isspace (show_nat n) = show_nat n" "take 1 (show_nat n) \<noteq> ''-''" "take 1 (show_nat n) \<noteq> ''+''"
    using isdigit_not_sign by auto
  with n show ?thesis by (simp add: strtoul10_def atoi_digits_show_nat)
qed

end
