(* ===== verification/FileBuffer.thy ===== *)
theory FileBuffer
  imports CPrelude
begin

text \<open>
  The buffered text files of \<open>src/util.c\<close>: \<open>openFileBuffer\<close>, \<open>openFileBufferBuffer\<close>,
  \<open>readFileBuffer\<close>, \<open>writeFileBuffer\<close> and \<open>closeFileBuffer\<close>.  Configuration files, language files
  and theme files are all read line by line through this window of \<open>size\<close> bytes.

  A descriptor is its unread bytes (\<open>fb_in\<close>) and the bytes written through it (\<open>fb_out\<close>);
  \<open>fb_fd\<close> is \<open>fd >= 0\<close>.  \<open>read\<close> returns as many bytes as were asked for unless the file ends,
  which is what the code's end-of-file test relies on.  \<open>fb_lastPtr\<close> is an offset into the buffer,
  \<open>None\<close> for NULL.  The specification of the reader is \<open>text_lines\<close>: the lines of the text,
  without their line ends, without comment lines.
\<close>

section \<open>Model\<close>

datatype open_mode = O_RDONLY | O_WRITE

record file_buffer =
  fb_fd :: bool
  fb_in :: string
  fb_out :: string
  fb_mode :: open_mode
  fb_buffer :: string
  fb_size :: nat
  fb_available :: nat
  fb_lastPtr :: "nat option"
  fb_allocResult :: bool

definition utf8_bom :: string where
  "utf8_bom = [CHR 0xEF, CHR 0xBB, CHR 0xBF]"

definition skip_bom :: "string \<Rightarrow> string" where
  "skip_bom txt = (if take 3 txt = utf8_bom then drop 3 txt else txt)"

text \<open>The fresh buffer holds whatever the heap held, \<open>mem\<close>.  The file's content is \<open>None\<close> when
  \<open>openFile\<close> failed.\<close>

definition openFileBuffer ::
  "(nat \<Rightarrow> char) \<Rightarrow> string option \<Rightarrow> open_mode \<Rightarrow> bool \<Rightarrow> nat \<Rightarrow> file_buffer option" where
  "openFileBuffer mem content mode allocResult sz =
     (case content of None \<Rightarrow> None
      | Some txt \<Rightarrow> Some \<lparr>
          fb_fd = True,
          fb_in = (if mode = O_RDONLY then skip_bom txt else txt),
          fb_out = [],
          fb_mode = mode,
          fb_buffer = map mem [0..<sz],
          fb_size = sz,
          fb_available = 0,
          fb_lastPtr = (if mode = O_RDONLY then None else Some 0),
          fb_allocResult = allocResult\<rparr>)"

definition openFileBufferBuffer :: "bool \<Rightarrow> string \<Rightarrow> file_buffer" where
  "openFileBufferBuffer allocResult buffer = \<lparr>
     fb_fd = False, fb_in = [], fb_out = [], fb_mode = O_RDONLY,
     fb_buffer = buffer @ [NUL], fb_size = length buffer, fb_available = length buffer,
     fb_lastPtr = Some 0, fb_allocResult = allocResult\<rparr>"

text \<open>One pass through the loop body of \<open>readFileBuffer\<close> ends the call without a line, with a line
  (and whether it was copied to fresh memory), or goes round again; \<open>lineSize\<close> and \<open>posLF\<close> live
  across passes.\<close>

datatype rfb_out =
    RfbEnd file_buffer
  | RfbLine string bool file_buffer
  | RfbContinue nat "nat option" file_buffer

definition rfb_shift :: "nat \<Rightarrow> file_buffer \<Rightarrow> file_buffer cres" where
  "rfb_shift lineSize fb =
     (if lineSize = 0 then Inr fb
      else case fb_lastPtr fb of
        None \<Rightarrow> Inl NullDeref
      | Some p \<Rightarrow>
          if p + lineSize \<le> length (fb_buffer fb)
          then Inr (fb\<lparr>fb_buffer := take lineSize (drop p (fb_buffer fb)) @ drop lineSize (fb_buffer fb)\<rparr>)
          else Inl OutOfBounds)"

definition rfb_refill :: "nat \<Rightarrow> file_buffer \<Rightarrow> (nat \<times> nat option \<times> file_buffer) cres" where
  "rfb_refill lineSize fb =
     (if fb_fd fb then
        if fb_size fb < lineSize + 1 \<or> length (fb_buffer fb) < fb_size fb then Inl OutOfBounds
        else
          let len = fb_size fb - lineSize - 1;
              data = take len (fb_in fb);
              buf = take lineSize (fb_buffer fb) @ data @ NUL #
                    drop (lineSize + length data + 1) (fb_buffer fb);
              posLF = map_option (\<lambda>n. lineSize + n) (strchr (cstr_at buf lineSize) LF);
              lineSize' = lineSize + length data
          in Inr (lineSize', posLF,
                  fb\<lparr>fb_in := drop len (fb_in fb), fb_buffer := buf,
                     fb_fd := (fb_size fb = lineSize' + 1)\<rparr>)
      else Inr (lineSize, None, fb))"

definition rfb_load :: "nat \<Rightarrow> nat option \<Rightarrow> file_buffer \<Rightarrow> (nat \<times> nat option \<times> file_buffer) cres" where
  "rfb_load lineSize0 posLF0 fb =
     c_bind (case fb_lastPtr fb of
               None \<Rightarrow> Inr (lineSize0, posLF0)
             | Some p \<Rightarrow>
                 if fb_available fb < p then Inl OutOfBounds
                 else Inr (fb_available fb - p,
                           map_option (\<lambda>n. p + n) (strchr (cstr_at (fb_buffer fb) p) LF)))
       (\<lambda>(lineSize, posLF).
          if posLF = None then
            c_bind (rfb_shift lineSize fb) (\<lambda>fb1.
              c_bind (rfb_refill lineSize fb1) (\<lambda>(ls, pos, fb2).
                Inr (ls, pos, fb2\<lparr>fb_lastPtr := Some 0, fb_available := ls\<rparr>)))
          else Inr (lineSize, posLF, fb))"

definition rfb_emit :: "nat \<Rightarrow> nat option \<Rightarrow> file_buffer \<Rightarrow> rfb_out cres" where
  "rfb_emit lineSize posLF fb =
     (case fb_lastPtr fb of
        None \<Rightarrow> Inl NullDeref
      | Some p \<Rightarrow>
          let ls1 = (case posLF of Some q \<Rightarrow> q - p | None \<Rightarrow> lineSize) in
          c_bind (if ls1 = 0 then Inr 0
                  else c_bind (peek (fb_buffer fb) (p + ls1 - 1))
                         (\<lambda>c. Inr (if c = CR then ls1 - 1 else ls1)))
            (\<lambda>ls. c_bind (poke (fb_buffer fb) (p + ls) NUL)
              (\<lambda>buf.
                 let fb' = fb\<lparr>fb_buffer := buf, fb_lastPtr := map_option Suc posLF\<rparr> in
                 if ls = 0 \<and> fb_available fb = 0 \<and> \<not> fb_fd fb
                 then Inr (RfbEnd (fb\<lparr>fb_buffer := buf\<rparr>))
                 else if buf ! p = CHR ''#'' then Inr (RfbContinue ls posLF fb')
                 else Inr (RfbLine (cstr_at buf p) (fb_allocResult fb \<and> ls \<noteq> 0) fb'))))"

definition rfb_iter :: "nat \<Rightarrow> nat option \<Rightarrow> file_buffer \<Rightarrow> rfb_out cres" where
  "rfb_iter lineSize posLF fb =
     c_bind (rfb_load lineSize posLF fb) (\<lambda>(ls, pos, fb'). rfb_emit ls pos fb')"

partial_function (option) rfb_loop ::
  "nat \<Rightarrow> nat option \<Rightarrow> file_buffer \<Rightarrow> (rfb_out cres) option" where
  "rfb_loop lineSize posLF fb =
     (case rfb_iter lineSize posLF fb of
        Inl e \<Rightarrow> Some (Inl e)
      | Inr out \<Rightarrow>
          (case out of
             RfbContinue ls pos fb' \<Rightarrow> rfb_loop ls pos fb'
           | RfbEnd fb' \<Rightarrow> Some (Inr (RfbEnd fb'))
           | RfbLine l own fb' \<Rightarrow> Some (Inr (RfbLine l own fb'))))"

definition readFileBuffer :: "file_buffer \<Rightarrow> (rfb_out cres) option" where
  "readFileBuffer fb = rfb_loop 0 None fb"

definition writeFileBuffer :: "file_buffer \<Rightarrow> string \<Rightarrow> file_buffer cres" where
  "writeFileBuffer fb inBuf =
     (let n = length inBuf;
          fb1 = (if fb_available fb \<noteq> 0 \<and> fb_size fb < fb_available fb + n
                 then fb\<lparr>fb_out := fb_out fb @ take (fb_available fb) (fb_buffer fb),
                         fb_lastPtr := Some 0, fb_available := 0\<rparr>
                 else fb)
      in if fb_size fb1 < n then Inr (fb1\<lparr>fb_out := fb_out fb1 @ inBuf\<rparr>)
         else case fb_lastPtr fb1 of
           None \<Rightarrow> Inl NullDeref
         | Some p \<Rightarrow>
             if p + n \<le> length (fb_buffer fb1)
             then Inr (fb1\<lparr>fb_buffer := take p (fb_buffer fb1) @ inBuf @ drop (p + n) (fb_buffer fb1),
                           fb_lastPtr := Some (p + n),
                           fb_available := fb_available fb1 + n\<rparr>)
             else Inl OutOfBounds)"

text \<open>\<open>closeFileBuffer\<close> releases the buffer; what is left of it is what reached the file.\<close>

definition closeFileBuffer :: "file_buffer \<Rightarrow> string" where
  "closeFileBuffer fb =
     (if fb_fd fb \<and> fb_mode fb \<noteq> O_RDONLY \<and> fb_available fb \<noteq> 0
      then fb_out fb @ take (fb_available fb) (fb_buffer fb)
      else fb_out fb)"

section \<open>Specification\<close>

fun split_lf :: "string \<Rightarrow> string list" where
  "split_lf [] = []"
| "split_lf (c # cs) =
     (if c = LF then [] # split_lf cs
      else case split_lf cs of [] \<Rightarrow> [[c]] | l # ls \<Rightarrow> (c # l) # ls)"

definition strip_cr :: "string \<Rightarrow> string" where
  "strip_cr l = (if l \<noteq> [] \<and> last l = CR then butlast l else l)"

definition is_comment :: "string \<Rightarrow> bool" where
  "is_comment l \<longleftrightarrow> take 1 l = ''#''"

definition text_lines :: "string \<Rightarrow> string list" where
  "text_lines txt = filter (\<lambda>l. \<not> is_comment l) (map strip_cr (split_lf txt))"

text \<open>A text the reader handles in a window of \<open>sz\<close> bytes: it holds no NUL, every line and its
  line end fit the window, and no unterminated comment ends the file.\<close>

definition readable :: "nat \<Rightarrow> string \<Rightarrow> bool" where
  "readable sz txt \<longleftrightarrow>
     cstring txt \<and> (\<forall>l \<in> set (split_lf txt). length l + 2 \<le> sz) \<and>
     (txt \<noteq> [] \<longrightarrow> last txt \<noteq> LF \<longrightarrow> \<not> is_comment (last (split_lf txt)))"

text \<open>What a reader has still to deliver, and the reader's invariant.\<close>

definition window :: "file_buffer \<Rightarrow> string" where
  "window fb = (case fb_lastPtr fb of None \<Rightarrow> []
     | Some p \<Rightarrow> take (fb_available fb - p) (drop p (fb_buffer fb)))"

definition pending :: "file_buffer \<Rightarrow> string" where
  "pending fb = window fb @ fb_in fb"

definition rfb_ok :: "file_buffer \<Rightarrow> bool" where
  "rfb_ok fb \<longleftrightarrow>
     0 < length (fb_buffer fb) \<and> fb_size fb \<le> length (fb_buffer fb) \<and> cstring (pending fb) \<and>
     (\<not> fb_fd fb \<longrightarrow> fb_in fb = []) \<and> (fb_fd fb \<longrightarrow> 2 \<le> fb_size fb) \<and>
     (case fb_lastPtr fb of None \<Rightarrow> True
      | Some p \<Rightarrow> p \<le> fb_available fb \<and> fb_available fb < length (fb_buffer fb) \<and>
          fb_buffer fb ! fb_available fb = NUL \<and> (fb_fd fb \<longrightarrow> fb_available fb < fb_size fb))"

definition wfb_ok :: "file_buffer \<Rightarrow> bool" where
  "wfb_ok fb \<longleftrightarrow>
     fb_fd fb \<and> fb_mode fb = O_WRITE \<and> length (fb_buffer fb) = fb_size fb \<and>
     fb_available fb \<le> fb_size fb \<and> fb_lastPtr fb = Some (fb_available fb)"

text \<open>\<open>loaded\<close>: the state after the first half of a pass; \<open>delivers\<close>: what one call owes its caller.\<close>

definition loaded :: "nat \<Rightarrow> nat option \<Rightarrow> file_buffer \<Rightarrow> bool" where
  "loaded ls pos fb \<longleftrightarrow> (\<exists>p. fb_lastPtr fb = Some p \<and> p \<le> fb_available fb \<and>
     fb_available fb < length (fb_buffer fb) \<and> fb_size fb \<le> length (fb_buffer fb) \<and>
     cstring (pending fb) \<and> (\<not> fb_fd fb \<longrightarrow> fb_in fb = []) \<and>
     (fb_fd fb \<longrightarrow> fb_available fb < fb_size fb \<and> 2 \<le> fb_size fb) \<and>
     pos = map_option (\<lambda>n. p + n) (strchr (window fb) LF) \<and>
     (pos \<noteq> None \<longrightarrow> fb_buffer fb ! fb_available fb = NUL) \<and>
     (pos = None \<longrightarrow> p = 0 \<and> ls = fb_available fb \<and> (fb_fd fb \<longrightarrow> fb_available fb + 1 = fb_size fb)))"

definition delivers :: "nat \<Rightarrow> file_buffer \<Rightarrow> (rfb_out cres) option \<Rightarrow> bool" where
  "delivers sz fb res \<longleftrightarrow>
     (case text_lines (pending fb) of
        [] \<Rightarrow> (\<exists>fb'. res = Some (Inr (RfbEnd fb')))
      | l # ls \<Rightarrow> (\<exists>fb'. res = Some (Inr (RfbLine l (fb_allocResult fb \<and> l \<noteq> []) fb')) \<and>
          rfb_ok fb' \<and> (fb_fd fb' \<longrightarrow> sz \<le> fb_size fb') \<and> readable sz (pending fb') \<and>
          text_lines (pending fb') = ls \<and> fb_allocResult fb' = fb_allocResult fb))"

text \<open>The caller's loop: \<open>while (readFileBuffer (fb, &line)) body\<close>.\<close>

fun c_fold :: "('s \<Rightarrow> 'a \<Rightarrow> 's cres) \<Rightarrow> 's \<Rightarrow> 'a list \<Rightarrow> 's cres" where
  "c_fold f s [] = Inr s"
| "c_fold f s (x # xs) = c_bind (f s x) (\<lambda>s'. c_fold f s' xs)"

partial_function (option) read_loop ::
  "('s \<Rightarrow> string \<Rightarrow> 's cres) \<Rightarrow> 's \<Rightarrow> file_buffer \<Rightarrow> ('s cres) option" where
  "read_loop body s fb =
     Option.bind (readFileBuffer fb) (\<lambda>res.
       case res of
         Inl e \<Rightarrow> Some (Inl e)
       | Inr out \<Rightarrow>
           (case out of
              RfbLine l own fb' \<Rightarrow>
                (case body s l of Inl e \<Rightarrow> Some (Inl e) | Inr s' \<Rightarrow> read_loop body s' fb')
            | RfbEnd fb' \<Rightarrow> Some (Inr s)
            | RfbContinue n pos fb' \<Rightarrow> Some (Inr s)))"

section \<open>The reader delivers the lines of its text\<close>

lemma split_lf_append: "LF \<notin> set l \<Longrightarrow> split_lf (l @ LF # r) = l # split_lf r"
  by (induction l) auto

lemma split_lf_single: "LF \<notin> set l \<Longrightarrow> l \<noteq> [] \<Longrightarrow> split_lf l = [l]"
proof (induction l)
  case (Cons c l)
  then show ?case by (cases "l = []") auto
qed simp

lemma split_lf_eq_Nil [simp]: "split_lf t = [] \<longleftrightarrow> t = []"
  by (cases t) (auto split: list.splits)

lemma drop_nth_split: "p + n < length buf \<Longrightarrow>
    drop p buf = take n (drop p buf) @ buf ! (p + n) # drop (Suc n) (drop p buf)"
  using id_take_nth_drop [of n "drop p buf"] by simp

lemma takeWhile_cstring: "cstring s \<Longrightarrow> takeWhile (\<lambda>c. c \<noteq> NUL) (s @ NUL # r) = s"
  by (induction s) auto

lemma cstr_at_append: "length pre = p \<Longrightarrow> cstring s \<Longrightarrow> cstr_at (pre @ s @ NUL # r) p = s"
  by (simp add: cstr_at_def takeWhile_cstring)

lemma cstr_at_segment:
  assumes "cstring (take n (drop p buf))" "p + n < length buf" "buf ! (p + n) = NUL"
  shows "cstr_at buf p = take n (drop p buf)"
  using takeWhile_cstring [OF assms(1)] drop_nth_split [OF assms(2)] assms(3)
  by (simp add: cstr_at_def) metis

lemma strchr_append_right:
  "c \<notin> set w \<Longrightarrow> strchr (w @ d) c = map_option (\<lambda>n. length w + n) (strchr d c)"
  by (cases "strchr d c"; induction w) auto

lemma map_option_plus_0 [simp]: "map_option ((+) (0::nat)) x = x"
  by (cases x) auto

text \<open>The refill: the kept window \<open>w\<close> has no line end.\<close>

lemma rfb_refill_ok:
  assumes ok: "rfb_ok fb" and w: "w = window fb" "LF \<notin> set w" "n = length w"
    and b: "b = (fb\<lparr>fb_buffer := w @ drop n (fb_buffer fb)\<rparr>)" and len: "n < length (fb_buffer fb)"
    and len2: "fb_fd fb \<Longrightarrow> n < fb_size fb"
  shows "\<exists>ls pos fb'. rfb_refill n b = Inr (ls, pos, fb') \<and>
    loaded ls pos (fb'\<lparr>fb_lastPtr := Some 0, fb_available := ls\<rparr>) \<and>
    pending (fb'\<lparr>fb_lastPtr := Some 0, fb_available := ls\<rparr>) = pending fb \<and>
    fb_size fb' = fb_size fb \<and> fb_allocResult fb' = fb_allocResult fb \<and> (fb_fd fb' \<longrightarrow> fb_fd fb)"
proof (cases "fb_fd fb")
  case False
  with ok have "fb_in fb = []" by (simp add: rfb_ok_def)
  with False ok w b len show ?thesis
    by (auto simp: rfb_refill_def loaded_def pending_def window_def rfb_ok_def strchr_None)
next
  case True
  define k where "k = fb_size fb - n - 1"
  define d where "d = take k (fb_in fb)"
  have size: "fb_size fb \<le> length (fb_buffer fb)" and cs: "cstring w" "cstring (fb_in fb)"
    using ok w by (auto simp: rfb_ok_def pending_def)
  have cd: "cstring d" using cs by (simp add: d_def cstring_take)
  have ld: "n + length d < fb_size fb" using len2 [OF True] by (simp add: d_def k_def)
  let ?buf = "w @ d @ NUL # drop (n + length d + 1) (fb_buffer fb)"
  have pos: "strchr (cstr_at ?buf n) LF = strchr d LF"
    using cstr_at_append [of w n d] w cd by simp
  have kd: "fb_size fb - n - 1 = k" "take k (fb_in fb) = d" "min (length (fb_in fb)) k = length d"
    by (simp_all add: k_def d_def)
  have eq: "rfb_refill n b = Inr (n + length d, map_option ((+) n) (strchr d LF),
      b\<lparr>fb_in := drop k (fb_in fb), fb_buffer := ?buf, fb_fd := (fb_size fb = n + length d + 1)\<rparr>)"
    using True len len2 [OF True] size w(3) b pos kd
    by (simp add: rfb_refill_def Let_def ac_simps)
  have rest: "fb_size fb \<noteq> n + length d + 1 \<Longrightarrow> drop k (fb_in fb) = []"
    using len2 [OF True] by (auto simp: d_def k_def)
  have lb: "length ?buf = length (fb_buffer fb)" using ld size w by simp
  have cat: "d @ drop k (fb_in fb) = fb_in fb" by (simp add: d_def)
  define f where "f = b\<lparr>fb_in := drop k (fb_in fb), fb_buffer := ?buf,
      fb_fd := (fb_size fb = n + length d + 1)\<rparr>\<lparr>fb_lastPtr := Some 0, fb_available := n + length d\<rparr>"
  have wf: "window f = w @ d" using w(3) by (simp add: f_def window_def)
  have pf: "pending f = pending fb" using cat w(1) wf by (simp add: pending_def f_def)
  have nul: "?buf ! (n + length d) = NUL" using w(3) by (simp add: nth_append)
  have "loaded (n + length d) (map_option ((+) n) (strchr d LF)) f"
    unfolding loaded_def pf wf using True ok ld size lb rest w(2,3) nul b
    by (auto simp: f_def rfb_ok_def strchr_append_right)
  then show ?thesis
    unfolding eq using pf b True by (simp add: f_def)
qed

lemma rfb_load_ok:
  assumes ok: "rfb_ok fb" and start: "fb_lastPtr fb = None \<Longrightarrow> ls0 = 0 \<and> pos0 = None"
  shows "\<exists>ls pos fb'. rfb_load ls0 pos0 fb = Inr (ls, pos, fb') \<and> loaded ls pos fb' \<and>
    pending fb' = pending fb \<and> fb_size fb' = fb_size fb \<and> fb_allocResult fb' = fb_allocResult fb \<and>
    (fb_fd fb' \<longrightarrow> fb_fd fb)"
proof (cases "fb_lastPtr fb")
  case None
  have n: "0 < length (fb_buffer fb)" "fb_fd fb \<Longrightarrow> 0 < fb_size fb" using ok by (auto simp: rfb_ok_def)
  have w: "window fb = []" using None by (simp add: window_def)
  obtain ls pos fb' where "rfb_refill 0 fb = Inr (ls, pos, fb')"
    "loaded ls pos (fb'\<lparr>fb_lastPtr := Some 0, fb_available := ls\<rparr>)"
    "pending (fb'\<lparr>fb_lastPtr := Some 0, fb_available := ls\<rparr>) = pending fb" "fb_size fb' = fb_size fb"
      "fb_allocResult fb' = fb_allocResult fb" "fb_fd fb' \<longrightarrow> fb_fd fb"
    using rfb_refill_ok [OF ok, of "[]" 0 fb] n w by auto
  with None start show ?thesis by (simp add: rfb_load_def rfb_shift_def)
next
  case (Some p)
  have p: "p \<le> fb_available fb" "fb_available fb < length (fb_buffer fb)"
    "fb_buffer fb ! fb_available fb = NUL" "fb_fd fb \<Longrightarrow> fb_available fb < fb_size fb"
    using ok Some by (auto simp: rfb_ok_def)
  define w where "w = window fb"
  have w: "w = take (fb_available fb - p) (drop p (fb_buffer fb))" and cw: "cstring w"
    using ok Some by (auto simp: w_def window_def rfb_ok_def pending_def)
  have lw: "length w = fb_available fb - p" using w p by simp
  have cstr: "cstr_at (fb_buffer fb) p = w"
    using cstr_at_segment [of "fb_available fb - p" p "fb_buffer fb"] w cw p by simp
  show ?thesis
  proof (cases "LF \<in> set w")
    case True
    then have "strchr w LF \<noteq> None" by (simp add: strchr_None_iff)
    with Some p cstr ok True show ?thesis
      by (auto simp: rfb_load_def loaded_def rfb_ok_def w_def [symmetric])
  next
    case False
    define b where "b = fb\<lparr>fb_buffer := w @ drop (length w) (fb_buffer fb)\<rparr>"
    have len: "length w < length (fb_buffer fb)" and len2: "fb_fd fb \<Longrightarrow> length w < fb_size fb"
      using p(1,2) lw p(4) by linarith+
    have "rfb_shift (length w) fb = Inr b"
      using Some p lw w by (auto simp: rfb_shift_def b_def)
    moreover obtain ls pos fb' where "rfb_refill (length w) b = Inr (ls, pos, fb')"
      "loaded ls pos (fb'\<lparr>fb_lastPtr := Some 0, fb_available := ls\<rparr>)"
      "pending (fb'\<lparr>fb_lastPtr := Some 0, fb_available := ls\<rparr>) = pending fb" "fb_size fb' = fb_size fb"
      "fb_allocResult fb' = fb_allocResult fb" "fb_fd fb' \<longrightarrow> fb_fd fb"
      using rfb_refill_ok [OF ok w_def False refl b_def len len2] by auto
    ultimately show ?thesis using Some p cstr False lw
      by (simp add: rfb_load_def strchr_None not_less [symmetric])
  qed
qed

lemma strip_cr_cases: "strip_cr l = l \<or> l = strip_cr l @ [CR]"
  by (cases l rule: rev_cases) (auto simp: strip_cr_def)

lemma length_strip_cr: "length (strip_cr l) = (if l \<noteq> [] \<and> last l = CR then length l - 1 else length l)"
  by (simp add: strip_cr_def)

lemma is_comment_strip_cr: "is_comment (strip_cr l) \<Longrightarrow> is_comment l"
  using strip_cr_cases [of l] by (cases "strip_cr l") (auto simp: is_comment_def)

lemma poke_line:
  assumes B: "B = pre @ l' @ c # X" and p: "length pre = p" and cs: "cstring l'"
  shows "poke B (p + length l') NUL = Inr (pre @ l' @ NUL # X)"
    and "cstr_at (pre @ l' @ NUL # X) p = l'"
    and "(pre @ l' @ NUL # X) ! p = CHR ''#'' \<longleftrightarrow> is_comment l'"
proof -
  show "poke B (p + length l') NUL = Inr (pre @ l' @ NUL # X)"
    using B p by (simp add: poke_def list_update_append)
  show "cstr_at (pre @ l' @ NUL # X) p = l'" using p cs by (rule cstr_at_append)
  show "(pre @ l' @ NUL # X) ! p = CHR ''#'' \<longleftrightarrow> is_comment l'"
    using p by (cases l') (auto simp: is_comment_def nth_append)
qed

lemma peek_last:
  assumes "B = pre @ l @ X" "length pre = p" "l \<noteq> []"
  shows "peek B (p + length l - 1) = Inr (last l)"
  using assms by (cases l rule: rev_cases) (auto simp: peek_def nth_append)


lemma rfb_emit_line:
  assumes ld: "loaded ls pos fb" and w: "window fb = l @ LF # r" "LF \<notin> set l"
  shows "\<exists>fb'. rfb_emit ls pos fb =
      Inr (if is_comment (strip_cr l) then RfbContinue (length (strip_cr l)) pos fb'
           else RfbLine (strip_cr l) (fb_allocResult fb \<and> strip_cr l \<noteq> []) fb') \<and>
    rfb_ok fb' \<and> pending fb' = r @ fb_in fb \<and> fb_lastPtr fb' \<noteq> None \<and>
    fb_size fb' = fb_size fb \<and> fb_allocResult fb' = fb_allocResult fb \<and> fb_fd fb' = fb_fd fb"
proof -
  obtain p where p: "fb_lastPtr fb = Some p" "p \<le> fb_available fb"
      "fb_available fb < length (fb_buffer fb)" "fb_size fb \<le> length (fb_buffer fb)"
      "cstring (pending fb)" "\<not> fb_fd fb \<longrightarrow> fb_in fb = []"
      "fb_fd fb \<longrightarrow> fb_available fb < fb_size fb \<and> 2 \<le> fb_size fb"
    and pos: "pos = map_option (\<lambda>n. p + n) (strchr (window fb) LF)"
    and nul: "pos \<noteq> None \<longrightarrow> fb_buffer fb ! fb_available fb = NUL"
    using ld by (auto simp: loaded_def)
  have pos': "pos = Some (p + length l)" using pos w by (simp add: strchr_append)
  have win: "window fb = take (fb_available fb - p) (drop p (fb_buffer fb))"
    using p by (simp add: window_def)
  define pre where "pre = take p (fb_buffer fb)"
  define post where "post = drop (Suc (fb_available fb)) (fb_buffer fb)"
  have lp: "length pre = p" using p by (simp add: pre_def)
  have "drop p (fb_buffer fb) = window fb @ NUL # post"
    using drop_nth_split [of p "fb_available fb - p" "fb_buffer fb"] p nul pos' win
    by (simp add: post_def)
  then have B: "fb_buffer fb = pre @ l @ LF # r @ NUL # post"
    using append_take_drop_id [of p "fb_buffer fb"] w by (simp add: pre_def)
  have av: "fb_available fb = p + length l + 1 + length r"
    using w win p lp by (metis B add.assoc diff_add_inverse2 length_append length_take
        length_drop le_add_diff_inverse min.absorb2 less_imp_le_nat diff_le_mono length_Cons Suc_eq_plus1 add.commute plus_1_eq_Suc)
  let ?l = "strip_cr l"
  have cs: "cstring l" "cstring r" "cstring (fb_in fb)" using p w by (auto simp: pending_def)
  obtain c X where cX: "fb_buffer fb = pre @ ?l @ c # X"
      and X: "drop (length l + 1) (?l @ NUL # X) = r @ NUL # post"
    using strip_cr_cases [of l]
  proof
    assume "?l = l"
    with B that [of LF "r @ NUL # post"] show thesis by simp
  next
    assume l: "l = ?l @ [CR]"
    then have "fb_buffer fb = pre @ ?l @ CR # LF # r @ NUL # post" using B by (metis append_Cons append_Nil append_assoc)
    moreover have "length l = Suc (length ?l)" using l by (metis length_append_singleton)
    ultimately show thesis using that [of CR "LF # r @ NUL # post"] by simp
  qed
  have csl: "cstring ?l" using cs strip_cr_cases [of l] by (metis cstring_simps(3))
  note pk = poke_line [OF cX lp csl]
  define fb' where "fb' = fb\<lparr>fb_buffer := pre @ ?l @ NUL # X, fb_lastPtr := Some (Suc (p + length l))\<rparr>"
  have strip: "(if length l = 0 then Inr 0 else c_bind (peek (fb_buffer fb) (p + length l - 1))
      (\<lambda>c. Inr (if c = CR then length l - 1 else length l))) = (Inr (length ?l) :: nat cres)"
    using peek_last [OF B lp] by (auto simp: length_strip_cr)
  have emit: "rfb_emit ls pos fb =
      Inr (if is_comment ?l then RfbContinue (length ?l) pos fb'
           else RfbLine ?l (fb_allocResult fb \<and> ?l \<noteq> []) fb')"
    using p(1) strip pk av by (simp add: rfb_emit_def pos' fb'_def Let_def)
  have dr: "drop (Suc (p + length l)) (pre @ ?l @ NUL # X) = r @ NUL # post"
    using X lp by simp
  have win': "window fb' = r" using dr av by (simp add: fb'_def window_def)
  have len: "length (pre @ ?l @ NUL # X) = length (fb_buffer fb)" using cX by simp
  have "(pre @ ?l @ NUL # X) ! fb_available fb = drop (Suc (p + length l)) (pre @ ?l @ NUL # X) ! length r"
    using av len p by (subst nth_drop) auto
  then have "(pre @ ?l @ NUL # X) ! fb_available fb = NUL" using dr by simp
  then have ok: "rfb_ok fb'"
    using p av len cs win' by (simp add: rfb_ok_def pending_def) (auto simp: fb'_def)
  have "pending fb' = r @ fb_in fb" "fb_lastPtr fb' \<noteq> None" "fb_size fb' = fb_size fb"
       "fb_allocResult fb' = fb_allocResult fb" "fb_fd fb' = fb_fd fb"
    using win' by (simp_all add: pending_def) (simp_all add: fb'_def)
  with emit ok show ?thesis by blast
qed


lemma rfb_emit_rest:
  assumes ld: "loaded ls pos fb" and w: "LF \<notin> set (window fb)"
  defines "w' \<equiv> strip_cr (window fb)"
  shows "\<exists>fb'. rfb_emit ls pos fb =
      Inr (if window fb = [] \<and> \<not> fb_fd fb then RfbEnd fb'
           else if is_comment w' then RfbContinue (length w') None fb'
           else RfbLine w' (fb_allocResult fb \<and> w' \<noteq> []) fb') \<and>
    rfb_ok fb' \<and> pending fb' = fb_in fb \<and>
    fb_size fb' = fb_size fb \<and> fb_allocResult fb' = fb_allocResult fb \<and> fb_fd fb' = fb_fd fb"
proof -
  have pos: "pos = None" using ld w by (auto simp: loaded_def strchr_None)
  with ld have p: "fb_lastPtr fb = Some 0" "ls = fb_available fb"
      "fb_available fb < length (fb_buffer fb)" "fb_size fb \<le> length (fb_buffer fb)"
      "cstring (pending fb)" "\<not> fb_fd fb \<longrightarrow> fb_in fb = []"
      "fb_fd fb \<longrightarrow> fb_available fb < fb_size fb \<and> 2 \<le> fb_size fb"
    by (auto simp: loaded_def)
  define l where "l = window fb"
  have win: "l = take (fb_available fb) (fb_buffer fb)" using p by (simp add: l_def window_def)
  have ls: "ls = length l" using win p by simp
  have la: "fb_available fb = length l" using ls p by simp
  have B: "fb_buffer fb = [] @ l @ drop (length l) (fb_buffer fb)"
    using win ls p append_take_drop_id [of "fb_available fb" "fb_buffer fb"] by simp
  have cs: "cstring l" "cstring (fb_in fb)" using p by (auto simp: pending_def l_def)
  have D: "drop (length l) (fb_buffer fb) \<noteq> []" using p ls by simp
  obtain c X where cX: "fb_buffer fb = [] @ w' @ c # X"
    using strip_cr_cases [of l]
  proof
    assume "strip_cr l = l"
    with B D that show thesis by (metis list.exhaust w'_def l_def)
  next
    assume "l = strip_cr l @ [CR]"
    with B that show thesis by (metis append_Cons append_Nil append_assoc w'_def l_def)
  qed
  have csl: "cstring w'" using cs strip_cr_cases [of l] unfolding w'_def l_def by (metis cstring_simps(3))
  note pk = poke_line [OF cX list.size(3) csl, simplified]
  have strip: "(if length l = 0 then Inr 0 else c_bind (peek (fb_buffer fb) (length l - 1))
      (\<lambda>c. Inr (if c = CR then length l - 1 else length l))) = (Inr (length w') :: nat cres)"
    using peek_last [OF B list.size(3)] by (auto simp: length_strip_cr w'_def l_def)
  define fb1 where "fb1 = fb\<lparr>fb_buffer := w' @ NUL # X, fb_lastPtr := None\<rparr>"
  define fb2 where "fb2 = fb\<lparr>fb_buffer := w' @ NUL # X\<rparr>"
  have len: "length (w' @ NUL # X) = length (fb_buffer fb)" using cX by simp
  have ok: "rfb_ok fb1" "pending fb1 = fb_in fb"
    using p cs len by (auto simp: fb1_def rfb_ok_def pending_def window_def)
  show ?thesis
  proof (cases "l = [] \<and> \<not> fb_fd fb")
    case True
    then have w': "w' = []" by (simp add: w'_def l_def strip_cr_def)
    have "rfb_emit ls pos fb = Inr (RfbEnd fb2)"
      using p(1,2) strip pk True ls w' by (simp add: rfb_emit_def pos fb2_def)
    moreover have "rfb_ok fb2" "pending fb2 = fb_in fb"
      using p cs len True ls w' by (auto simp: fb2_def rfb_ok_def pending_def window_def)
    ultimately show ?thesis using True by (auto simp: l_def fb2_def)
  next
    case False
    then have "\<not> (w' = [] \<and> fb_available fb = 0 \<and> \<not> fb_fd fb)" using p(2) ls by (metis length_0_conv)
    then have "rfb_emit ls pos fb = Inr (if is_comment w' then RfbContinue (length w') None fb1
         else RfbLine w' (fb_allocResult fb \<and> w' \<noteq> []) fb1)"
      using p(1) strip pk by (auto simp: rfb_emit_def pos fb1_def Let_def ls la)
    with False ok show ?thesis by (auto simp: l_def fb1_def)
  qed
qed


lemma text_lines_line: "LF \<notin> set l \<Longrightarrow> text_lines (l @ LF # r) =
    (if is_comment (strip_cr l) then text_lines r else strip_cr l # text_lines r)"
  by (simp add: text_lines_def split_lf_append)

lemma readable_line:
  assumes "readable sz (l @ LF # r)" "LF \<notin> set l"
  shows "readable sz r" "length l + 2 \<le> sz"
  using assms by (auto simp: readable_def split_lf_append)

lemma readable_last:
  assumes "readable sz t" "LF \<notin> set t" "t \<noteq> []"
  shows "text_lines t = [strip_cr t]" "length t + 2 \<le> sz" "\<not> is_comment (strip_cr t)"
proof -
  have "last t \<noteq> LF" using assms(2,3) by (metis last_in_set)
  with assms show "text_lines t = [strip_cr t]" "length t + 2 \<le> sz" "\<not> is_comment (strip_cr t)"
    using is_comment_strip_cr [of t]
    by (auto simp: readable_def split_lf_single text_lines_def)
qed

text \<open>A full window without a line end contradicts readability.\<close>

lemma readable_window:
  assumes "readable sz (w @ rest)" "LF \<notin> set w" "w \<noteq> []"
  shows "length w + 2 \<le> sz"
proof (cases "LF \<in> set (w @ rest)")
  case False
  with assms readable_last(2) [of sz "w @ rest"] show ?thesis by simp
next
  case True
  then obtain l r where lr: "w @ rest = l @ LF # r" "LF \<notin> set l" using split_list_first by metis
  with assms(1) have "length l + 2 \<le> sz" using readable_line(2) by metis
  moreover have "length w \<le> length l"
  proof (rule ccontr)
    assume "\<not> ?thesis"
    then have "w ! length l = LF" using arg_cong [OF lr(1), of "\<lambda>xs. xs ! length l"]
      by (simp add: nth_append)
    with assms(2) \<open>\<not> ?thesis\<close> show False by (metis not_le nth_mem)
  qed
  ultimately show ?thesis by simp
qed

lemma rfb_loop_delivers:
  assumes "rfb_ok fb" and "fb_lastPtr fb = None \<Longrightarrow> ls0 = 0 \<and> pos0 = None"
    and "fb_fd fb \<Longrightarrow> sz \<le> fb_size fb" and "readable sz (pending fb)"
  shows "delivers sz fb (rfb_loop ls0 pos0 fb)"
  using assms
proof (induction "length (pending fb)" arbitrary: fb ls0 pos0 rule: less_induct)
  case less
  obtain ls pos fb1 where load: "rfb_load ls0 pos0 fb = Inr (ls, pos, fb1)" and ld: "loaded ls pos fb1"
    and pend: "pending fb1 = pending fb" and same: "fb_size fb1 = fb_size fb"
      "fb_allocResult fb1 = fb_allocResult fb" "fb_fd fb1 \<Longrightarrow> fb_fd fb"
    using rfb_load_ok [OF less.prems(1,2)] by blast
  show ?case
  proof (cases "LF \<in> set (window fb1)")
    case True
    then obtain l r where w: "window fb1 = l @ LF # r" "LF \<notin> set l" using split_list_first by metis
    have t: "pending fb = l @ LF # r @ fb_in fb1" using w pend by (simp add: pending_def)
    obtain fb' where e: "rfb_emit ls pos fb1 =
          Inr (if is_comment (strip_cr l) then RfbContinue (length (strip_cr l)) pos fb'
               else RfbLine (strip_cr l) (fb_allocResult fb1 \<and> strip_cr l \<noteq> []) fb')"
      and f: "rfb_ok fb'" "pending fb' = r @ fb_in fb1" "fb_lastPtr fb' \<noteq> None"
        "fb_size fb' = fb_size fb1" "fb_allocResult fb' = fb_allocResult fb1" "fb_fd fb' = fb_fd fb1"
      using rfb_emit_line [OF ld w] by blast
    have r: "readable sz (pending fb')" "fb_fd fb' \<Longrightarrow> sz \<le> fb_size fb'"
      using less.prems(3,4) f same w t readable_line(1) [of sz l "r @ fb_in fb1"] by auto
    have step: "rfb_loop ls0 pos0 fb = (if is_comment (strip_cr l) then rfb_loop (length (strip_cr l)) pos fb'
        else Some (Inr (RfbLine (strip_cr l) (fb_allocResult fb1 \<and> strip_cr l \<noteq> []) fb')))"
      using load e by (subst rfb_loop.simps) (simp add: rfb_iter_def)
    show ?thesis
    proof (cases "is_comment (strip_cr l)")
      case True
      have "delivers sz fb' (rfb_loop (length (strip_cr l)) pos fb')"
        using less.hyps [of fb'] f r t by simp
      then show ?thesis using True step f same t w
        by (simp add: delivers_def text_lines_line split: list.splits)
    next
      case False
      then show ?thesis using step f same t w r by (auto simp: delivers_def text_lines_line)
    qed
  next
    case False
    have notfull: "\<not> fb_fd fb1"
    proof
      assume fd: "fb_fd fb1"
      have pos: "pos = None" using ld False by (auto simp: loaded_def strchr_None)
      then have full: "length (window fb1) + 1 = fb_size fb1" "2 \<le> fb_size fb1"
        using ld fd by (auto simp: loaded_def window_def)
      then have "window fb1 \<noteq> []" by auto
      then have "length (window fb1) + 2 \<le> sz"
        using readable_window [of sz "window fb1" "fb_in fb1"] False less.prems(4) pend
        by (simp add: pending_def)
      with full same less.prems(3) fd show False by auto
    qed
    then have "fb_in fb1 = []" using ld by (auto simp: loaded_def)
    then have t: "pending fb = window fb1" using pend by (simp add: pending_def)
    obtain fb' where e: "rfb_emit ls pos fb1 =
          Inr (if window fb1 = [] \<and> \<not> fb_fd fb1 then RfbEnd fb'
               else if is_comment (strip_cr (window fb1)) then RfbContinue (length (strip_cr (window fb1))) None fb'
               else RfbLine (strip_cr (window fb1)) (fb_allocResult fb1 \<and> strip_cr (window fb1) \<noteq> []) fb')"
      and f: "rfb_ok fb'" "pending fb' = fb_in fb1" "fb_allocResult fb' = fb_allocResult fb1" "fb_fd fb' = fb_fd fb1"
      using rfb_emit_rest [OF ld False] by blast
    show ?thesis
    proof (cases "window fb1 = []")
      case True
      then show ?thesis using load e notfull t
        by (subst rfb_loop.simps) (simp add: rfb_iter_def delivers_def text_lines_def)
    next
      case ne: False
      note rl = readable_last [of sz "pending fb", OF less.prems(4)]
      show ?thesis using load e notfull t rl False ne f same \<open>fb_in fb1 = []\<close>
        by (subst rfb_loop.simps) (simp add: rfb_iter_def delivers_def text_lines_def readable_def)
    qed
  qed
qed

lemma readFileBuffer_delivers:
  assumes "rfb_ok fb" and "fb_fd fb \<Longrightarrow> sz \<le> fb_size fb" and "readable sz (pending fb)"
  shows "delivers sz fb (readFileBuffer fb)"
  unfolding readFileBuffer_def using assms by (intro rfb_loop_delivers) auto


lemma closeFileBuffer_eq: "wfb_ok fb \<Longrightarrow> closeFileBuffer fb = fb_out fb @ take (fb_available fb) (fb_buffer fb)"
  by (auto simp: closeFileBuffer_def wfb_ok_def)

lemma writeFileBuffer_ok:
  assumes "wfb_ok fb"
  shows "\<exists>fb'. writeFileBuffer fb s = Inr fb' \<and> wfb_ok fb' \<and>
    closeFileBuffer fb' = closeFileBuffer fb @ s"
proof -
  define fb1 where "fb1 = (if fb_available fb \<noteq> 0 \<and> fb_size fb < fb_available fb + length s
                 then fb\<lparr>fb_out := fb_out fb @ take (fb_available fb) (fb_buffer fb),
                         fb_lastPtr := Some 0, fb_available := 0\<rparr>
                 else fb)"
  have ok1: "wfb_ok fb1" and c1: "closeFileBuffer fb1 = closeFileBuffer fb"
    using assms by (auto simp: fb1_def wfb_ok_def closeFileBuffer_def)
  have fit: "fb_available fb1 = 0 \<or> fb_available fb1 + length s \<le> fb_size fb1"
    by (auto simp: fb1_def)
  have eq: "writeFileBuffer fb s =
     (if fb_size fb1 < length s then Inr (fb1\<lparr>fb_out := fb_out fb1 @ s\<rparr>)
      else case fb_lastPtr fb1 of None \<Rightarrow> Inl NullDeref
         | Some p \<Rightarrow>
             if p + length s \<le> length (fb_buffer fb1)
             then Inr (fb1\<lparr>fb_buffer := take p (fb_buffer fb1) @ s @ drop (p + length s) (fb_buffer fb1),
                           fb_lastPtr := Some (p + length s),
                           fb_available := fb_available fb1 + length s\<rparr>)
             else Inl OutOfBounds)"
    by (simp only: writeFileBuffer_def Let_def fb1_def)
  show ?thesis
  proof (cases "fb_size fb1 < length s")
    case True
    with fit have "fb_available fb1 = 0" by simp
    with True ok1 c1 show ?thesis unfolding eq by (auto simp: wfb_ok_def closeFileBuffer_def)
  next
    case False
    with fit have "fb_available fb1 + length s \<le> fb_size fb1" by auto
    moreover define fb2 where "fb2 = fb1\<lparr>
        fb_buffer := take (fb_available fb1) (fb_buffer fb1) @ s @ drop (fb_available fb1 + length s) (fb_buffer fb1),
        fb_lastPtr := Some (fb_available fb1 + length s), fb_available := fb_available fb1 + length s\<rparr>"
    ultimately have ok2: "wfb_ok fb2" "writeFileBuffer fb s = Inr fb2"
      unfolding eq using False ok1 by (auto simp: wfb_ok_def)
    have "closeFileBuffer fb2 = closeFileBuffer fb1 @ s"
      using ok1 by (simp add: closeFileBuffer_eq [OF ok2(1)] closeFileBuffer_eq [OF ok1])
        (simp add: fb2_def wfb_ok_def)
    with ok2 c1 show ?thesis by auto
  qed
qed

text \<open>Both ways to open a reader start it at the beginning of the text.\<close>

lemma openFileBuffer_reader:
  assumes "openFileBuffer mem (Some txt) O_RDONLY alloc sz = Some fb" "2 \<le> sz" "cstring (skip_bom txt)"
  shows "rfb_ok fb" "pending fb = skip_bom txt" "fb_size fb = sz" "fb_fd fb" "fb_allocResult fb = alloc"
  using assms by (auto simp: openFileBuffer_def rfb_ok_def pending_def window_def)

lemma openFileBufferBuffer_reader:
  assumes "cstring txt"
  shows "rfb_ok (openFileBufferBuffer alloc txt)" "pending (openFileBufferBuffer alloc txt) = txt"
    "\<not> fb_fd (openFileBufferBuffer alloc txt)"
  using assms by (auto simp: openFileBufferBuffer_def rfb_ok_def pending_def window_def)

lemma openFileBuffer_writer:
  "\<exists>fb. openFileBuffer mem (Some txt) O_WRITE alloc sz = Some fb \<and> wfb_ok fb \<and> closeFileBuffer fb = []"
  by (auto simp: openFileBuffer_def wfb_ok_def closeFileBuffer_def)

text \<open>A comment that ends the file without a line end is where the reader goes wrong: the second
  pass moves \<open>lineSize\<close> bytes from a NULL \<open>lastPtr\<close>.\<close>

lemma rfb_comment_eof:
  assumes ok: "rfb_ok fb" and t: "pending fb = t" "LF \<notin> set t" "is_comment (strip_cr t)"
    and fit: "fb_fd fb \<Longrightarrow> length t + 2 \<le> fb_size fb"
    and start: "fb_lastPtr fb = None \<Longrightarrow> ls0 = 0 \<and> pos0 = None"
  shows "rfb_loop ls0 pos0 fb = Some (Inl NullDeref)"
proof -
  obtain ls pos fb1 where load: "rfb_load ls0 pos0 fb = Inr (ls, pos, fb1)" and ld: "loaded ls pos fb1"
    and pend: "pending fb1 = pending fb" and same: "fb_size fb1 = fb_size fb" "fb_fd fb1 \<Longrightarrow> fb_fd fb"
    using rfb_load_ok [OF ok start] by blast
  have nl: "LF \<notin> set (window fb1)" using pend t by (auto simp: pending_def)
  then have pos: "pos = None" using ld by (auto simp: loaded_def strchr_None)
  have fd: "\<not> fb_fd fb1"
  proof
    assume fd: "fb_fd fb1"
    then have "length (window fb1) + 1 = fb_size fb1" using ld pos by (auto simp: loaded_def window_def)
    moreover have "length (window fb1) \<le> length t" using pend t(1) by (metis pending_def length_append le_add1)
    ultimately show False using fit same fd by simp
  qed
  then have w: "window fb1 = t" using ld pend t(1) by (auto simp: loaded_def pending_def)
  have ne: "strip_cr t \<noteq> []" using t(3) by (auto simp: is_comment_def)
  then have tne: "t \<noteq> []" by (auto simp: strip_cr_def)
  obtain fb' where e: "rfb_emit ls pos fb1 = Inr (RfbContinue (length (strip_cr t)) None fb')"
    using rfb_emit_rest [OF ld nl] w t(3) tne by auto
  then have "fb_lastPtr fb' = None"
    by (auto simp: rfb_emit_def Let_def pos c_bind_eq_Inr split: option.splits if_splits)
  then have "rfb_load (length (strip_cr t)) None fb' = Inl NullDeref"
    using ne by (simp add: rfb_load_def rfb_shift_def)
  then have "rfb_loop (length (strip_cr t)) None fb' = Some (Inl NullDeref)"
    by (subst rfb_loop.simps) (simp add: rfb_iter_def)
  then show ?thesis using load e by (subst rfb_loop.simps) (simp add: rfb_iter_def)
qed


lemma read_loop_fold:
  assumes "rfb_ok fb" and "fb_fd fb \<Longrightarrow> sz \<le> fb_size fb" and "readable sz (pending fb)"
  shows "read_loop body s fb = Some (c_fold body s (text_lines (pending fb)))"
  using assms
proof (induction "text_lines (pending fb)" arbitrary: fb s)
  case Nil
  from readFileBuffer_delivers [OF Nil.prems] Nil.hyps
  obtain fb' where "readFileBuffer fb = Some (Inr (RfbEnd fb'))"
    by (auto simp: delivers_def split: list.splits)
  with Nil.hyps show ?case by (subst read_loop.simps) (simp add: Nil.hyps [symmetric])
next
  case (Cons l ls)
  from readFileBuffer_delivers [OF Cons.prems] Cons.hyps(2)
  obtain own fb' where r: "readFileBuffer fb = Some (Inr (RfbLine l own fb'))" "rfb_ok fb'"
      "fb_fd fb' \<Longrightarrow> sz \<le> fb_size fb'" "readable sz (pending fb')" "ls = text_lines (pending fb')"
    by (auto simp: delivers_def split: list.splits)
  show ?case
  proof (cases "body s l")
    case (Inl e)
    with r(1) show ?thesis by (subst read_loop.simps) (simp add: Cons.hyps(2) [symmetric])
  next
    case (Inr s')
    with r(1) Cons.hyps(1) [OF r(5) r(2-4)] r(5) show ?thesis
      by (subst read_loop.simps) (simp add: Cons.hyps(2) [symmetric])
  qed
qed

lemma c_fold_collect: "c_fold (\<lambda>ls l. Inr (ls @ [l])) acc xs = Inr (acc @ xs)"
  by (induction xs arbitrary: acc) auto

lemma c_fold_write:
  "wfb_ok fb \<Longrightarrow> \<exists>fb'. c_fold writeFileBuffer fb chunks = Inr fb' \<and> wfb_ok fb' \<and>
     closeFileBuffer fb' = closeFileBuffer fb @ concat chunks"
proof (induction chunks arbitrary: fb)
  case (Cons c cs)
  obtain fb1 where "writeFileBuffer fb c = Inr fb1" "wfb_ok fb1" "closeFileBuffer fb1 = closeFileBuffer fb @ c"
    using writeFileBuffer_ok [OF Cons.prems] by blast
  with Cons.IH show ?case by fastforce
qed simp

section \<open>Properties\<close>

text \<open>A text file whose lines fit the window is delivered line by line, exactly: the calls to
  \<open>readFileBuffer\<close> return the lines of the text after an optional byte order mark, without the LF or
  CR LF at their end, without the comment lines, in order, and then report the end.  The loop ends and
  stays inside its buffer wherever the window falls on the text.\<close>

theorem readFileBuffer_lines:
  assumes "openFileBuffer mem (Some content) O_RDONLY alloc sz = Some fb" "2 \<le> sz"
    and "readable sz (skip_bom content)"
  shows "read_loop (\<lambda>ls l. Inr (ls @ [l])) [] fb = Some (Inr (text_lines (skip_bom content)))"
proof -
  have "cstring (skip_bom content)" using assms(3) by (simp add: readable_def)
  note r = openFileBuffer_reader [OF assms(1,2) this]
  show ?thesis
    using read_loop_fold [OF r(1), of sz "\<lambda>ls l. Inr (ls @ [l])" "[]"] r assms(3)
      c_fold_collect [of "[]" "text_lines (skip_bom content)"]
    by simp
qed

theorem readFileBuffer_lines_witness:
  "read_loop (\<lambda>ls l. Inr (ls @ [l])) []
     (the (openFileBuffer (\<lambda>_. NUL) (Some (''a=1'' @ [CR, LF] @ ''#no'' @ [LF] @ ''b'')) O_RDONLY False 6))
   = Some (Inr (text_lines (skip_bom (''a=1'' @ [CR, LF] @ ''#no'' @ [LF] @ ''b''))))"
  by (rule readFileBuffer_lines [where mem = "\<lambda>_. NUL" and alloc = False and sz = 6])
    (simp_all add: openFileBuffer_def readable_def skip_bom_def utf8_bom_def is_comment_def)

text \<open>Whatever the sizes of the pieces handed to \<open>writeFileBuffer\<close> and of its buffer, the file
  holds after \<open>closeFileBuffer\<close> exactly their concatenation, and no write leaves the buffer.\<close>

theorem writeFileBuffer_concat:
  assumes "openFileBuffer mem (Some content) O_WRITE alloc sz = Some fb"
  shows "\<exists>fb'. c_fold writeFileBuffer fb chunks = Inr fb' \<and> closeFileBuffer fb' = concat chunks"
proof -
  have "wfb_ok fb" "closeFileBuffer fb = []" using assms openFileBuffer_writer by (metis option.inject)+
  with c_fold_write [of fb chunks] show ?thesis by auto
qed

theorem writeFileBuffer_concat_witness:
  "\<exists>fb'. c_fold writeFileBuffer (the (openFileBuffer (\<lambda>_. NUL) (Some []) O_WRITE False 4)) [''abc'', ''de'', ''fghijk''] = Inr fb' \<and>
     closeFileBuffer fb' = concat [''abc'', ''de'', ''fghijk'']"
  by (rule writeFileBuffer_concat [where mem = "\<lambda>_. NUL" and alloc = False and content = "[]" and sz = 4]) (simp add: openFileBuffer_def)

text \<open>A file whose remaining text is a comment without a line end makes the reader dereference
  NULL: the comment branch clears \<open>lastPtr\<close> but keeps \<open>lineSize\<close>, and the next pass moves \<open>lineSize\<close>
  bytes from \<open>lastPtr\<close>.\<close>

theorem readFileBuffer_comment_at_eof:
  assumes "openFileBuffer mem (Some content) O_RDONLY alloc sz = Some fb"
    and "cstring (skip_bom content)" "LF \<notin> set (skip_bom content)" "is_comment (strip_cr (skip_bom content))"
    and "length (skip_bom content) + 2 \<le> sz"
  shows "readFileBuffer fb = Some (Inl NullDeref)"
proof -
  have "2 \<le> sz" using assms(5) by simp
  note r = openFileBuffer_reader [OF assms(1) this assms(2)]
  show ?thesis unfolding readFileBuffer_def
    using r assms(3-5) by (intro rfb_comment_eof) auto
qed

theorem readFileBuffer_comment_at_eof_witness:
  "readFileBuffer (the (openFileBuffer (\<lambda>_. NUL) (Some ''# end'') O_RDONLY False 4096)) = Some (Inl NullDeref)"
  by (rule readFileBuffer_comment_at_eof [where mem = "\<lambda>_. NUL" and alloc = False and content = "''# end''" and sz = 4096])
    (simp_all add: openFileBuffer_def skip_bom_def utf8_bom_def is_comment_def strip_cr_def)

end
