(* ===== verification/Util.thy ===== *)
theory Util
  imports FileBuffer "HOL-Library.Multiset"
begin

text \<open>
  The rest of \<open>src/util.c\<close>: memory card detection, path checking and opening of files, hexadecimal
  digits, the console region and the recursive removal of a folder.  The file system is a record of
  the answers the calls \<open>open\<close>, \<open>opendir\<close> and \<open>mkdir\<close> give.
\<close>

section \<open>Small helpers\<close>

definition max_util :: "int \<Rightarrow> int \<Rightarrow> int" where
  "max_util a b = (if a > b then a else b)"

definition min_util :: "int \<Rightarrow> int \<Rightarrow> int" where
  "min_util a b = (if a < b then a else b)"

definition fromHex :: "char \<Rightarrow> int" where
  "fromHex digit =
     (if 48 \<le> code digit \<and> code digit \<le> 57 then int (code digit) - 48
      else if 65 \<le> code digit \<and> code digit \<le> 70 then int (code digit) - 65 + 10
      else if 97 \<le> code digit \<and> code digit \<le> 102 then int (code digit) - 97 + 10
      else -1)"

definition htab :: string where
  "htab = ''0123456789ABCDEF''"

definition toHex :: "int \<Rightarrow> char" where
  "toHex digit = htab ! nat (digit mod 16)"

section \<open>Files\<close>

record fs =
  fs_file :: "string \<Rightarrow> string option"
  fs_dir :: "string \<Rightarrow> bool"
  fs_writable :: "string \<Rightarrow> bool"

definition open_file :: "fs \<Rightarrow> string \<Rightarrow> open_mode \<Rightarrow> string option \<times> fs" where
  "open_file f path mode =
     (case mode of
        O_RDONLY \<Rightarrow> (fs_file f path, f)
      | O_WRITE \<Rightarrow>
          if fs_writable f path then (Some [], f\<lparr>fs_file := (fs_file f)(path \<mapsto> [])\<rparr>)
          else (None, f))"

definition mkdir :: "fs \<Rightarrow> string \<Rightarrow> bool \<times> fs" where
  "mkdir f path =
     (if fs_writable f path \<and> \<not> fs_dir f path then (True, f\<lparr>fs_dir := (fs_dir f)(path := True)\<rparr>)
      else (False, f))"

record util_state =
  mcID :: int
  ut_fs :: fs

definition getmcID :: "util_state \<Rightarrow> int" where
  "getmcID st = mcID st"

definition getFileSize :: "string \<Rightarrow> int" where
  "getFileSize content = int (length content)"

text \<open>The card with the launcher's folder wins over a card without it, slot 0 over slot 1; the
  answer is remembered.\<close>

definition checkMC :: "util_state \<Rightarrow> int \<times> util_state" where
  "checkMC st =
     (if mcID st = -1 then
        let mc0_is_ps2card = fs_dir (ut_fs st) ''mc0:/'';
            mc1_is_ps2card = fs_dir (ut_fs st) ''mc1:/'';
            mc0_has_folder = fs_dir (ut_fs st) ''mc0:PS2L/'';
            mc1_has_folder = fs_dir (ut_fs st) ''mc1:PS2L/''
        in if mc0_has_folder then (48, st\<lparr>mcID := 48\<rparr>)
           else if mc1_has_folder then (49, st\<lparr>mcID := 49\<rparr>)
           else if mc0_is_ps2card then (48, st\<lparr>mcID := 48\<rparr>)
           else if mc1_is_ps2card then (49, st\<lparr>mcID := 49\<rparr>)
           else (mcID st, st)
      else (mcID st, st))"

definition strrchr :: "string \<Rightarrow> char \<Rightarrow> nat option" where
  "strrchr s c = map_option (\<lambda>n. length s - 1 - n) (strchr (rev s) c)"

text \<open>\<open>checkFile\<close> may rewrite the path in place and create the directory; it answers whether the
  file may be opened.  \<open>dirPath\<close> holds 256 bytes.\<close>

definition checkFile_dir :: "util_state \<Rightarrow> string \<Rightarrow> open_mode \<Rightarrow> (bool \<times> util_state) cres" where
  "checkFile_dir st path mode =
     (if mode = O_WRITE then
        case strrchr path (CHR ''/'') of
          None \<Rightarrow> Inr (True, st)
        | Some pos \<Rightarrow>
            if 256 \<le> pos then Inl OutOfBounds
            else if fs_dir (ut_fs st) (take pos path) then Inr (True, st)
            else let (ok, f) = mkdir (ut_fs st) (take pos path)
                 in Inr (ok, st\<lparr>ut_fs := f\<rparr>)
      else Inr (True, st))"

definition checkFile :: "util_state \<Rightarrow> string \<Rightarrow> open_mode \<Rightarrow> (bool \<times> string \<times> util_state) cres" where
  "checkFile st path mode =
     (if take 2 path = ''mc'' then
        if take 1 (drop 2 path) = ''?'' then
          let (mc, st1) = checkMC st in
          if 0 \<le> mc then
            let path1 = path[2 := char_of (nat (mcID st1))] in
            c_bind (checkFile_dir st1 path1 mode) (\<lambda>(ok, st2). Inr (ok, path1, st2))
          else Inr (False, path, st1)
        else c_bind (checkFile_dir st path mode) (\<lambda>(ok, st2). Inr (ok, path, st2))
      else Inr (True, path, st))"

text \<open>\<open>openFile\<close> returns the content behind the descriptor, \<open>None\<close> for a negative one, and the path
  the descriptor stands for.\<close>

definition openFile ::
  "util_state \<Rightarrow> string \<Rightarrow> open_mode \<Rightarrow> (string option \<times> string \<times> util_state) cres" where
  "openFile st path mode =
     c_bind (checkFile st path mode) (\<lambda>(ok, path1, st1).
       if ok then let (fd, f) = open_file (ut_fs st1) path1 mode
                  in Inr (fd, path1, st1\<lparr>ut_fs := f\<rparr>)
       else Inr (None, path1, st1))"

text \<open>\<open>readFile\<close>: an expected size (\<open>sz > 0\<close>) must match; the content and the size written back.\<close>

definition readFile ::
  "util_state \<Rightarrow> string \<Rightarrow> int \<Rightarrow> (string option \<times> int \<times> util_state) cres" where
  "readFile st path sz =
     c_bind (openFile st path O_RDONLY) (\<lambda>(fd, path1, st1).
       case fd of
         None \<Rightarrow> Inr (None, sz, st1)
       | Some content \<Rightarrow>
           let realSize = getFileSize content in
           if 0 < sz \<and> sz \<noteq> realSize then Inr (None, sz, st1)
           else Inr (Some content, realSize, st1))"

text \<open>\<open>listDir\<close> hands entries to the callback until it has counted \<open>maxElem\<close> of them.\<close>

fun list_entries :: "('s \<Rightarrow> nat \<Rightarrow> 'e \<Rightarrow> nat \<times> 's) \<Rightarrow> nat \<Rightarrow> 's \<Rightarrow> nat \<Rightarrow> 'e list \<Rightarrow> nat \<times> 's" where
  "list_entries readEntry maxElem s index [] = (index, s)"
| "list_entries readEntry maxElem s index (e # es) =
     (if index < maxElem
      then (case readEntry s index e of (index', s') \<Rightarrow> list_entries readEntry maxElem s' index' es)
      else (index, s))"

definition listDir ::
  "util_state \<Rightarrow> string \<Rightarrow> (string \<Rightarrow> 'e list) \<Rightarrow> nat \<Rightarrow> ('s \<Rightarrow> nat \<Rightarrow> 'e \<Rightarrow> nat \<times> 's) \<Rightarrow> 's
     \<Rightarrow> (nat \<times> 's \<times> util_state) cres" where
  "listDir st path entries maxElem readEntry s =
     c_bind (checkFile st path O_RDONLY) (\<lambda>(ok, path1, st1).
       if ok \<and> fs_dir (ut_fs st1) path1
       then (case list_entries readEntry maxElem s 0 (entries path1) of (index, s') \<Rightarrow> Inr (index, s', st1))
       else Inr (0, s, st1))"

text \<open>\<open>checkMCFolder\<close>: create the launcher's folder on the card and each of its two icon files that is
  missing.\<close>

definition put_icon :: "util_state \<Rightarrow> string \<Rightarrow> string \<Rightarrow> util_state cres" where
  "put_icon st path data =
     (case fs_file (ut_fs st) path of
        Some _ \<Rightarrow> Inr st
      | None \<Rightarrow>
          c_bind (openFile st path O_WRITE) (\<lambda>(fd, path1, st1).
            case fd of
              None \<Rightarrow> Inr st1
            | Some _ \<Rightarrow>
                Inr (st1\<lparr>ut_fs := (ut_fs st1)\<lparr>fs_file := (fs_file (ut_fs st1))(path1 \<mapsto> data)\<rparr>\<rparr>)))"

definition checkMCFolder :: "string \<Rightarrow> string \<Rightarrow> util_state \<Rightarrow> util_state cres" where
  "checkMCFolder icon_icn icon_sys st =
     (let (mc, st1) = checkMC st in
      if mc < 0 then Inr st1
      else
        let dir = ''mc'' @ show_int (mcID st1 mod 2) @ '':PS2L/'';
            st2 = st1\<lparr>ut_fs := snd (mkdir (ut_fs st1) dir)\<rparr>
        in c_bind (put_icon st2 (snprintf 32 (dir @ ''ps2l.icn'')) icon_icn) (\<lambda>st3.
             put_icon st3 (snprintf 32 (dir @ ''icon.sys'')) icon_sys))"

section \<open>Console region\<close>

datatype console_region =
  CONSOLE_REGION_INVALID | CONSOLE_REGION_JAPAN | CONSOLE_REGION_USA | CONSOLE_REGION_EUROPE |
  CONSOLE_REGION_CHINA

record region_state =
  ConsoleRegion :: console_region
  SystemDataFolderPath :: string
  SystemFolderLetter :: char

definition region_init :: region_state where
  "region_init = \<lparr>ConsoleRegion = CONSOLE_REGION_INVALID,
     SystemDataFolderPath = ''BRDATA-SYSTEM'', SystemFolderLetter = CHR ''R''\<rparr>"

definition UpdateSystemPaths :: "region_state \<Rightarrow> region_state" where
  "UpdateSystemPaths r =
     (let letter = (case ConsoleRegion r of
          CONSOLE_REGION_JAPAN \<Rightarrow> CHR ''I'' | CONSOLE_REGION_USA \<Rightarrow> CHR ''A''
        | CONSOLE_REGION_EUROPE \<Rightarrow> CHR ''E'' | CONSOLE_REGION_CHINA \<Rightarrow> CHR ''C''
        | CONSOLE_REGION_INVALID \<Rightarrow> SystemFolderLetter r)
      in r\<lparr>SystemFolderLetter := letter,
           SystemDataFolderPath := (SystemDataFolderPath r)[1 := letter]\<rparr>)"

definition InitConsoleRegionData :: "string \<Rightarrow> region_state \<Rightarrow> console_region \<times> region_state" where
  "InitConsoleRegionData romver r =
     (if ConsoleRegion r = CONSOLE_REGION_INVALID then
        let c = take 1 (drop 4 romver);
            reg = (if c = ''C'' then CONSOLE_REGION_CHINA
                   else if c = ''E'' then CONSOLE_REGION_EUROPE
                   else if c = ''H'' \<or> c = ''A'' then CONSOLE_REGION_USA
                   else CONSOLE_REGION_JAPAN)
        in (reg, UpdateSystemPaths (r\<lparr>ConsoleRegion := reg\<rparr>))
      else (ConsoleRegion r, r))"

section \<open>Removing a folder\<close>

datatype node = File string | Folder string "node list"

fun node_name :: "node \<Rightarrow> string" where
  "node_name (File n) = n"
| "node_name (Folder n _) = n"

datatype rm_op = Unlink string | Rmdir string

text \<open>The calls the function makes, in order, and its result.  \<open>unlink\<close> and \<open>rmdir\<close> give the results
  of the two system calls; \<open>walk\<close> is the loop over the directory, which removes subfolders on the way
  and collects the files.\<close>

function (sequential) sysDeleteFolder ::
  "(string \<Rightarrow> int) \<Rightarrow> (string \<Rightarrow> int) \<Rightarrow> string \<Rightarrow> node list \<Rightarrow> rm_op list \<times> int"
and sysDeleteFolder_walk ::
  "(string \<Rightarrow> int) \<Rightarrow> (string \<Rightarrow> int) \<Rightarrow> string \<Rightarrow> node list \<Rightarrow> int \<Rightarrow> rm_op list \<times> string list \<times> int" where
  "sysDeleteFolder unlink rmdir folder entries =
     (case sysDeleteFolder_walk unlink rmdir folder entries 0 of
        (ops, files, result) \<Rightarrow>
          if 0 \<le> result then
            let paths = map (\<lambda>n. folder @ ''/'' @ n) files;
                result1 = (if paths = [] then result else unlink (last paths))
            in if 0 \<le> result1 then (ops @ map Unlink paths @ [Rmdir folder], rmdir folder)
               else (ops @ map Unlink paths, result1)
          else (ops, result))"
| "sysDeleteFolder_walk unlink rmdir folder [] result = ([], [], result)"
| "sysDeleteFolder_walk unlink rmdir folder (File n # es) result =
     (case sysDeleteFolder_walk unlink rmdir folder es result of
        (ops, files, r) \<Rightarrow> (ops, if n = ''.'' \<or> n = ''..'' then files else n # files, r))"
| "sysDeleteFolder_walk unlink rmdir folder (Folder n sub # es) result =
     (if n = ''.'' \<or> n = ''..'' then sysDeleteFolder_walk unlink rmdir folder es result
      else case sysDeleteFolder unlink rmdir (folder @ ''/'' @ n) sub of
        (ops1, r1) \<Rightarrow>
          (case sysDeleteFolder_walk unlink rmdir folder es r1 of
             (ops, files, r) \<Rightarrow> (ops1 @ ops, files, r)))"
  by pat_completeness auto
termination
  by (relation "measure (\<lambda>x. case x of Inl (u, r, f, es) \<Rightarrow> 2 * size_list size es + 1
                                    | Inr (u, r, f, es, res) \<Rightarrow> 2 * size_list size es)") auto


section \<open>Specification of the removal\<close>

text \<open>What a folder holds, as the calls that remove it.\<close>

fun contents :: "string \<Rightarrow> node list \<Rightarrow> rm_op list" where
  "contents folder [] = []"
| "contents folder (File n # es) =
     (if n = ''.'' \<or> n = ''..'' then [] else [Unlink (folder @ ''/'' @ n)]) @ contents folder es"
| "contents folder (Folder n sub # es) =
     (if n = ''.'' \<or> n = ''..'' then []
      else contents (folder @ ''/'' @ n) sub @ [Rmdir (folder @ ''/'' @ n)]) @ contents folder es"

definition succeed :: "(string \<Rightarrow> int) \<Rightarrow> bool" where
  "succeed call \<longleftrightarrow> (\<forall>p. 0 \<le> call p)"

section \<open>Lemmas and properties\<close>

lemma fromHex_htab: "k < 16 \<Longrightarrow> fromHex (htab ! k) = int k"
proof -
  have "\<forall>k \<in> set [0..<16]. fromHex (htab ! k) = int k" by code_simp
  then show "k < 16 \<Longrightarrow> fromHex (htab ! k) = int k" by simp
qed

lemma fromHex_range: "-1 \<le> fromHex c \<and> fromHex c < 16"
  by (auto simp: fromHex_def)

lemma fromHex_toHex: "fromHex (toHex d) = d mod 16"
  by (simp add: toHex_def fromHex_htab nat_less_iff)

text \<open>The two hexadecimal digit tables agree: decoding the digit that \<open>toHex\<close> prints gives the low
  four bits of the number back, for every number.\<close>

theorem hex_digit_roundtrip: "fromHex (toHex d) = d mod 16"
  by (rule fromHex_toHex)

lemma sysDeleteFolder_contents:
  "succeed unlink \<Longrightarrow> succeed rmdir \<Longrightarrow>
    \<exists>ops. sysDeleteFolder unlink rmdir folder es = (ops @ [Rmdir folder], rmdir folder) \<and>
      mset ops = mset (contents folder es)"
  "succeed unlink \<Longrightarrow> succeed rmdir \<Longrightarrow> 0 \<le> res0 \<Longrightarrow>
    \<exists>ops files res. sysDeleteFolder_walk unlink rmdir folder es res0 = (ops, files, res) \<and>
      0 \<le> res \<and> mset ops + mset (map (\<lambda>n. Unlink (folder @ ''/'' @ n)) files) = mset (contents folder es)"
proof (induction unlink rmdir folder es and unlink rmdir folder es res0
    rule: sysDeleteFolder_sysDeleteFolder_walk.induct)
  case (1 unlink rmdir folder entries)
  then obtain ops files res where w: "sysDeleteFolder_walk unlink rmdir folder entries 0 = (ops, files, res)"
    "0 \<le> res" "mset ops + mset (map (\<lambda>n. Unlink (folder @ ''/'' @ n)) files) = mset (contents folder entries)"
    by force
  moreover have "0 \<le> unlink p" for p using 1 by (simp add: succeed_def)
  ultimately have "sysDeleteFolder unlink rmdir folder entries =
      ((ops @ map Unlink (map (\<lambda>n. folder @ ''/'' @ n) files)) @ [Rmdir folder], rmdir folder)"
    by (simp add: Let_def)
  moreover have "mset (ops @ map Unlink (map (\<lambda>n. folder @ ''/'' @ n) files)) = mset (contents folder entries)"
    using w(3) by (simp add: comp_def)
  ultimately show ?case by blast
next
  case (2 unlink rmdir folder res0)
  then show ?case by simp
next
  case (3 unlink rmdir folder n es res0)
  then obtain ops files res where "sysDeleteFolder_walk unlink rmdir folder es res0 = (ops, files, res)"
    "0 \<le> res" "mset ops + mset (map (\<lambda>n. Unlink (folder @ ''/'' @ n)) files) = mset (contents folder es)"
    by force
  then show ?case by (auto simp: add.commute)
next
  case (4 unlink rmdir folder n sub es res0)
  show ?case
  proof (cases "n = ''.'' \<or> n = ''..''")
    case True
    with "4.IH"(1) "4.prems" show ?thesis by auto
  next
    case False
    with "4.IH"(2) "4.prems" obtain ops1 where o1:
      "sysDeleteFolder unlink rmdir (folder @ ''/'' @ n) sub
         = (ops1 @ [Rmdir (folder @ ''/'' @ n)], rmdir (folder @ ''/'' @ n))"
      "mset ops1 = mset (contents (folder @ ''/'' @ n) sub)"
      by blast
    have "0 \<le> rmdir (folder @ ''/'' @ n)" using "4.prems" by (simp add: succeed_def)
    with "4.IH"(3) [OF False o1(1) [symmetric]] "4.prems" o1 obtain ops files res where
      "sysDeleteFolder_walk unlink rmdir folder es (rmdir (folder @ ''/'' @ n)) = (ops, files, res)"
      "0 \<le> res" "mset ops + mset (map (\<lambda>n. Unlink (folder @ ''/'' @ n)) files) = mset (contents folder es)"
      by blast
    with False o1 show ?thesis by (simp add: add.assoc)
  qed
qed

text \<open>When no system call fails, removing a folder unlinks every file and removes every
  subfolder below it, each exactly once, and removes the folder itself last.\<close>

theorem sysDeleteFolder_complete:
  assumes "succeed unlink" "succeed rmdir"
  shows "\<exists>ops. sysDeleteFolder unlink rmdir folder es = (ops @ [Rmdir folder], rmdir folder) \<and>
    mset ops = mset (contents folder es)"
  using assms by (rule sysDeleteFolder_contents(1))

theorem sysDeleteFolder_complete_witness:
  "\<exists>ops. sysDeleteFolder (\<lambda>_. 0) (\<lambda>_. 0) ''mass:CFG'' [File ''a.cfg'', Folder ''old'' [File ''b''], File ''..'']
      = (ops @ [Rmdir ''mass:CFG''], 0) \<and>
    mset ops = mset (contents ''mass:CFG'' [File ''a.cfg'', Folder ''old'' [File ''b''], File ''..''])"
  by (rule sysDeleteFolder_complete) (auto simp: succeed_def)

end
