(* ===== verification/Config.thy ===== *)
theory Config
  imports Util
begin

text \<open>
  The configuration store of \<open>src/config.c\<close> (and \<open>include/config.h\<close>): sets of key/value pairs, their
  textual form and the five configuration files of the launcher.

  A set is the list of its items from \<open>head\<close> to \<open>tail\<close>; the pointers that link them are not modelled.  Keys and values are the strings in the fixed arrays of an item.  Functions that
  return 0 or 1 return a truth value here; an output parameter is a further result.
\<close>

section \<open>Data\<close>

abbreviation CONFIG_KEY_NAME_LEN :: nat where "CONFIG_KEY_NAME_LEN \<equiv> 32"
abbreviation CONFIG_KEY_VALUE_LEN :: nat where "CONFIG_KEY_VALUE_LEN \<equiv> 256"

record config_value =
  cv_key :: string
  cv_val :: string

record config_set =
  cs_type :: int
  cs_items :: "config_value list"
  cs_filename :: "string option"
  cs_modified :: bool
  cs_uid :: u32

section \<open>Parsing helpers\<close>

fun strToColor_loop :: "string \<Rightarrow> nat \<Rightarrow> nat \<Rightarrow> u8 list \<Rightarrow> u8 list cres" where
  "strToColor_loop [] cnt n color = Inr color"
| "strToColor_loop (c # cs) cnt n color =
     (let fh = fromHex c in
      if 0 \<le> fh then
        c_bind (peek color n) (\<lambda>old.
          let color' = color[n := old * 16 + of_int fh] in
          if cnt = 1 then strToColor_loop cs 0 (n + 1) color'
          else strToColor_loop cs (cnt + 1) n color')
      else Inr color)"

definition strToColor :: "string \<Rightarrow> (bool \<times> u8 list) cres" where
  "strToColor s =
     (case s of
        [] \<Rightarrow> Inr (False, [0, 0, 0])
      | c # cs \<Rightarrow>
          if c \<noteq> CHR ''#'' then Inr (False, [0, 0, 0])
          else c_bind (strToColor_loop cs 0 0 [0, 0, 0]) (\<lambda>color. Inr (True, color)))"

definition isWS :: "char \<Rightarrow> bool" where
  "isWS c \<longleftrightarrow> c = CHR '' '' \<or> c = TAB"

text \<open>The two arrays come zeroed from the caller; what is copied is at most their size, without a
  terminator when they are full.\<close>

definition splitAssignment :: "string \<Rightarrow> nat \<Rightarrow> nat \<Rightarrow> (string \<times> string) option" where
  "splitAssignment line keymax valmax =
     (let l = dropWhile isWS line in
      case strchr l (CHR ''='') of
        None \<Rightarrow> None
      | Some eqpos \<Rightarrow> Some (take (min keymax eqpos) l, take (min valmax (length l - (eqpos + 1))) (drop (eqpos + 1) l)))"

text \<open>\<open>prefix\<close> is an array of \<open>CONFIG_KEY_NAME_LEN\<close> bytes.\<close>

definition parsePrefix :: "string \<Rightarrow> (string option) cres" where
  "parsePrefix line =
     (case strchr line (CHR '':'') of
        None \<Rightarrow> Inr None
      | Some colpos \<Rightarrow>
          if colpos = 0 then Inr None
          else if colpos < CONFIG_KEY_NAME_LEN then Inr (Some (take colpos line))
          else Inl OutOfBounds)"

definition configKeyValidate :: "string \<Rightarrow> bool" where
  "configKeyValidate key \<longleftrightarrow> key \<noteq> [] \<and> CHR ''='' \<notin> set key"

section \<open>Items\<close>

definition allocConfigItem :: "string \<Rightarrow> string \<Rightarrow> config_value" where
  "allocConfigItem key v =
     \<lparr>cv_key = strncpy_z CONFIG_KEY_NAME_LEN key, cv_val = strncpy_z CONFIG_KEY_VALUE_LEN v\<rparr>"

definition addConfigValue :: "config_set \<Rightarrow> string \<Rightarrow> string \<Rightarrow> config_set" where
  "addConfigValue cs key v = cs\<lparr>cs_items := cs_items cs @ [allocConfigItem key v]\<rparr>"

fun getConfigItemForName :: "config_value list \<Rightarrow> string \<Rightarrow> nat option" where
  "getConfigItemForName [] name = None"
| "getConfigItemForName (it # its) name =
     (if strncmp_eq CONFIG_KEY_NAME_LEN (cv_key it) name then Some 0
      else map_option Suc (getConfigItemForName its name))"

definition configSetStr :: "config_set \<Rightarrow> string \<Rightarrow> string \<Rightarrow> bool \<times> config_set" where
  "configSetStr cs key v =
     (if \<not> configKeyValidate key then (False, cs)
      else case getConfigItemForName (cs_items cs) key of
        Some i \<Rightarrow>
          let it = cs_items cs ! i in
          if \<not> strncmp_eq CONFIG_KEY_VALUE_LEN (cv_val it) v then
            (True, cs\<lparr>cs_items := (cs_items cs)[i := it\<lparr>cv_val := strncpy_z CONFIG_KEY_VALUE_LEN v\<rparr>],
                      cs_modified := (if take 1 (cv_key it) \<noteq> ''#'' then True else cs_modified cs)\<rparr>)
          else (True, cs)
      | None \<Rightarrow>
          (True, (addConfigValue cs key v)
             \<lparr>cs_modified := (if take 1 key \<noteq> ''#'' then True else cs_modified cs)\<rparr>))"

definition configGetStr :: "config_set \<Rightarrow> string \<Rightarrow> string option" where
  "configGetStr cs key =
     (if \<not> configKeyValidate key then None
      else map_option (\<lambda>i. cv_val (cs_items cs ! i)) (getConfigItemForName (cs_items cs) key))"

definition configGetStrCopy :: "config_set \<Rightarrow> string \<Rightarrow> nat \<Rightarrow> (bool \<times> string) cres" where
  "configGetStrCopy cs key len =
     (if len = 0 then Inl OutOfBounds
      else case configGetStr cs key of
        Some v \<Rightarrow> Inr (True, strncpy_z len v)
      | None \<Rightarrow> Inr (False, []))"

definition configSetInt :: "config_set \<Rightarrow> string \<Rightarrow> int \<Rightarrow> bool \<times> config_set" where
  "configSetInt cs key i = configSetStr cs key (snprintf 12 (show_int i))"

definition configGetInt :: "config_set \<Rightarrow> string \<Rightarrow> int option" where
  "configGetInt cs key = map_option atoi (configGetStr cs key)"

text \<open>A variable passed to \<open>configGetInt\<close> keeps its value when the key is missing.\<close>

definition get_int_or :: "config_set \<Rightarrow> string \<Rightarrow> int \<Rightarrow> int" where
  "get_int_or cs key old = (case configGetInt cs key of Some v \<Rightarrow> v | None \<Rightarrow> old)"

text \<open>\<open>%02X\<close>\<close>

definition show_hex2 :: "u8 \<Rightarrow> string" where
  "show_hex2 b = [toHex (uint b div 16), toHex (uint b mod 16)]"

definition configSetColor :: "config_set \<Rightarrow> string \<Rightarrow> u8 \<times> u8 \<times> u8 \<Rightarrow> bool \<times> config_set" where
  "configSetColor cs key color =
     (case color of (r, g, b) \<Rightarrow>
        configSetStr cs key (snprintf 8 (''#'' @ show_hex2 r @ show_hex2 g @ show_hex2 b)))"

definition configGetColor :: "config_set \<Rightarrow> string \<Rightarrow> u8 list \<Rightarrow> (bool \<times> u8 list) cres" where
  "configGetColor cs key color =
     (case configGetStr cs key of
        Some v \<Rightarrow> c_bind (strToColor v) (\<lambda>(_, color'). Inr (True, color'))
      | None \<Rightarrow> Inr (False, color))"

text \<open>Every item whose key matches is removed.\<close>

definition configRemoveKey :: "config_set \<Rightarrow> string \<Rightarrow> bool \<times> config_set" where
  "configRemoveKey cs key =
     (if \<not> configKeyValidate key then (False, cs)
      else
        let hit = (\<lambda>it. strncmp_eq CONFIG_KEY_NAME_LEN (cv_key it) key) in
        (True, cs\<lparr>cs_items := filter (\<lambda>it. \<not> hit it) (cs_items cs),
                  cs_modified := (if list_ex hit (cs_items cs) \<and> take 1 key \<noteq> ''#'' then True
                                  else cs_modified cs)\<rparr>))"

definition configMerge :: "config_set \<Rightarrow> config_set \<Rightarrow> config_set" where
  "configMerge dest source =
     foldl (\<lambda>cs it. snd (configSetStr cs (cv_key it) (cv_val it))) dest (cs_items source)"

definition configClear :: "config_set \<Rightarrow> config_set" where
  "configClear cs = cs\<lparr>cs_items := [], cs_modified := True\<rparr>"

section \<open>Disc identifier\<close>

fun next_hex :: "string \<Rightarrow> (int \<times> string) option" where
  "next_hex [] = None"
| "next_hex (c # cs) = (if fromHex c < 0 then next_hex cs else Some (fromHex c, cs))"

lemma next_hex_length: "next_hex s = Some (d, t) \<Longrightarrow> length t < length s"
  by (induction s) (auto split: if_splits)

text \<open>\<open>cdst\<close> is the byte being filled, \<open>p\<close> the number of digits consumed.\<close>

function discID_loop :: "string \<Rightarrow> nat \<Rightarrow> nat \<Rightarrow> u8 list \<Rightarrow> u8 list cres" where
  "discID_loop gid p cdst dst =
     (if gid \<noteq> [] \<and> p < 10 then
        (case next_hex gid of
           None \<Rightarrow> Inr dst
         | Some (dv, gid') \<Rightarrow>
             c_bind (peek dst cdst) (\<lambda>old.
               discID_loop gid' (p + 1) (if even (p + 1) then cdst + 1 else cdst)
                 (dst[cdst := old * 16 + of_int dv])))
      else Inr dst)"
  by pat_completeness auto
termination
  by (relation "measure (\<lambda>(gid, p, cdst, dst). length gid)") (auto dest: next_hex_length)

declare discID_loop.simps [simp del]

definition CONFIG_ITEM_DNAS :: string where
  "CONFIG_ITEM_DNAS = ''$DNAS''"

definition configGetDiscIDBinary :: "config_set \<Rightarrow> u8 list cres" where
  "configGetDiscIDBinary cs =
     (case configGetStr cs CONFIG_ITEM_DNAS of
        Some gid \<Rightarrow> discID_loop gid 0 0 (replicate 5 0)
      | None \<Rightarrow> Inr (replicate 5 0))"

section \<open>The textual form\<close>

text \<open>One line of a file: the state is the prefix in force and the set.\<close>

definition config_line :: "string \<times> config_set \<Rightarrow> string \<Rightarrow> (string \<times> config_set) cres" where
  "config_line s line =
     (case s of (pre, cs) \<Rightarrow>
        (case splitAssignment line CONFIG_KEY_NAME_LEN CONFIG_KEY_VALUE_LEN of
           Some (key, v) \<Rightarrow>
             if CONFIG_KEY_NAME_LEN \<le> length key then Inl Unterminated
             else
               let pre' = (if \<not> isWS (hd line) then [] else pre) in
               if pre' \<noteq> [] then
                 Inr (pre', snd (configSetStr cs (snprintf CONFIG_KEY_NAME_LEN (pre' @ ''_'' @ key)) v))
               else Inr (pre', snd (configSetStr cs key v))
         | None \<Rightarrow>
             c_bind (parsePrefix line) (\<lambda>p.
               Inr (case p of Some pre' \<Rightarrow> (pre', cs) | None \<Rightarrow> (pre, cs)))))"

definition configReadFileBuffer :: "file_buffer \<Rightarrow> config_set \<Rightarrow> ((bool \<times> config_set) cres) option" where
  "configReadFileBuffer fb cs =
     map_option (\<lambda>r. c_bind r (\<lambda>(_, cs'). Inr (True, cs'\<lparr>cs_modified := False\<rparr>)))
       (read_loop config_line ([], cs) fb)"

definition configReadBuffer :: "config_set \<Rightarrow> string \<Rightarrow> ((bool \<times> config_set) cres) option" where
  "configReadBuffer cs buffer = configReadFileBuffer (openFileBufferBuffer False buffer) cs"

text \<open>\<open>mem\<close> is the content of fresh heap memory.\<close>

definition configRead ::
  "(nat \<Rightarrow> char) \<Rightarrow> util_state \<Rightarrow> config_set \<Rightarrow> ((bool \<times> config_set \<times> util_state) cres) option" where
  "configRead mem st cs =
     (case cs_filename cs of
        None \<Rightarrow> Some (Inl NullDeref)
      | Some path \<Rightarrow>
          (case openFile st path O_RDONLY of
             Inl e \<Rightarrow> Some (Inl e)
           | Inr (fd, path1, st1) \<Rightarrow>
               (case openFileBuffer mem fd O_RDONLY False 4096 of
                  None \<Rightarrow> Some (Inr (False, cs\<lparr>cs_filename := Some path1, cs_modified := False\<rparr>, st1))
                | Some fb \<Rightarrow>
                    map_option (\<lambda>r. c_bind r (\<lambda>(ret, cs'). Inr (ret, cs', st1)))
                      (configReadFileBuffer fb (cs\<lparr>cs_filename := Some path1\<rparr>)))))"

definition config_text_line :: "config_value \<Rightarrow> string" where
  "config_text_line it = snprintf 512 (cv_key it @ ''='' @ cv_val it @ [CR, LF])"

definition config_write_item :: "file_buffer \<Rightarrow> config_value \<Rightarrow> file_buffer cres" where
  "config_write_item fb it =
     (if cv_key it \<noteq> [] \<and> take 1 (cv_key it) \<noteq> ''#'' then writeFileBuffer fb (config_text_line it)
      else Inr fb)"

definition configWrite ::
  "(nat \<Rightarrow> char) \<Rightarrow> util_state \<Rightarrow> config_set \<Rightarrow> (bool \<times> config_set \<times> util_state) cres" where
  "configWrite mem st cs =
     (if cs_modified cs then
        case cs_filename cs of
          None \<Rightarrow> Inl NullDeref
        | Some path \<Rightarrow>
            c_bind (openFile st path O_WRITE) (\<lambda>(fd, path1, st1).
              let cs1 = cs\<lparr>cs_filename := Some path1\<rparr> in
              case openFileBuffer mem fd O_WRITE False 4096 of
                None \<Rightarrow> Inr (False, cs1, st1)
              | Some fb \<Rightarrow>
                  c_bind (c_fold config_write_item fb (cs_items cs1)) (\<lambda>fb'.
                    Inr (True, cs1\<lparr>cs_modified := False\<rparr>,
                         st1\<lparr>ut_fs := (ut_fs st1)\<lparr>fs_file :=
                                 (fs_file (ut_fs st1))(path1 \<mapsto> closeFileBuffer fb')\<rparr>\<rparr>)))
      else Inr (True, cs, st))"

section \<open>Virtual memory card settings\<close>

definition CONFIG_ITEM_VMC :: string where
  "CONFIG_ITEM_VMC = ''$VMC''"

definition vmc_key :: "int \<Rightarrow> string" where
  "vmc_key slot = snprintf CONFIG_KEY_NAME_LEN (CONFIG_ITEM_VMC @ ''_'' @ show_int slot)"

definition configGetVMC :: "config_set \<Rightarrow> nat \<Rightarrow> int \<Rightarrow> string cres" where
  "configGetVMC cs len slot = c_bind (configGetStrCopy cs (vmc_key slot) len) (\<lambda>(_, v). Inr v)"

definition configRemoveVMC :: "config_set \<Rightarrow> int \<Rightarrow> config_set" where
  "configRemoveVMC cs slot = snd (configRemoveKey cs (vmc_key slot))"

definition configSetVMC :: "config_set \<Rightarrow> string \<Rightarrow> int \<Rightarrow> config_set" where
  "configSetVMC cs vmc slot =
     (if vmc = [] then configRemoveVMC cs slot
      else snd (configSetStr cs (vmc_key slot) vmc))"

section \<open>The launcher's configuration files\<close>

definition CONFIG_OPL :: int where "CONFIG_OPL = 1"
definition CONFIG_LAST :: int where "CONFIG_LAST = 2"
definition CONFIG_APPS :: int where "CONFIG_APPS = 4"
definition CONFIG_NETWORK :: int where "CONFIG_NETWORK = 8"
definition CONFIG_GAME :: int where "CONFIG_GAME = 16"

definition configFilenames :: "string list" where
  "configFilenames = [''conf_opl.cfg'', ''conf_last.cfg'', ''conf_apps.cfg'', ''conf_network.cfg'', ''conf_game.cfg'']"

record config_state =
  configFiles :: "config_set list"
  currentUID :: u32
  legacyNetConfigPath :: string
  cfgDevice :: string

definition configAlloc :: "config_state \<Rightarrow> int \<Rightarrow> string option \<Rightarrow> config_set \<times> config_state" where
  "configAlloc s t fileName =
     (let uid = currentUID s + 1 in
      (\<lparr>cs_type = t, cs_items = [], cs_filename = fileName, cs_modified = False, cs_uid = uid\<rparr>,
       s\<lparr>currentUID := uid\<rparr>))"

definition configMove :: "config_set \<Rightarrow> string \<Rightarrow> config_set" where
  "configMove cs fileName = cs\<lparr>cs_filename := Some fileName\<rparr>"

definition configPrepareNotifications :: "config_state \<Rightarrow> string \<Rightarrow> config_state" where
  "configPrepareNotifications s pre =
     (let dev = snprintf 8 pre in
      s\<lparr>cfgDevice := (case strchr dev (CHR '':'') of Some colpos \<Rightarrow> take (colpos + 1) dev | None \<Rightarrow> dev)\<rparr>)"

definition configGetDir :: "int \<Rightarrow> config_state \<Rightarrow> string \<times> config_state" where
  "configGetDir mc s =
     (let dev = (if take 2 (cfgDevice s) = ''mc'' then
                   take 2 (cfgDevice s) @ char_of (nat (mc mod 256)) # drop 3 (cfgDevice s)
                 else cfgDevice s)
      in (dev, s\<lparr>cfgDevice := dev\<rparr>))"

fun configInit_files :: "config_state \<Rightarrow> string \<Rightarrow> nat \<Rightarrow> string list \<Rightarrow> config_set list \<times> config_state" where
  "configInit_files s pre i [] = ([], s)"
| "configInit_files s pre i (name # names) =
     (let (cs, s1) = configAlloc s (2 ^ i) (Some (snprintf 256 (pre @ ''/'' @ name)));
          (rest, s2) = configInit_files s1 pre (i + 1) names
      in (cs # rest, s2))"

definition configInit :: "string \<Rightarrow> string option \<Rightarrow> config_state \<Rightarrow> config_state" where
  "configInit gBaseMCDir arg s =
     (let s1 = (case arg of Some p \<Rightarrow> s\<lparr>legacyNetConfigPath := snprintf 256 (p @ ''/IPCONFIG.DAT'')\<rparr> | None \<Rightarrow> s);
          pre = (case arg of Some p \<Rightarrow> p | None \<Rightarrow> gBaseMCDir);
          (files, s2) = configInit_files s1 pre 0 configFilenames
      in configPrepareNotifications (s2\<lparr>configFiles := files\<rparr>) pre)"

definition configSetMove :: "string \<Rightarrow> string option \<Rightarrow> config_state \<Rightarrow> config_state" where
  "configSetMove gBaseMCDir arg s =
     (let s1 = (case arg of Some p \<Rightarrow> s\<lparr>legacyNetConfigPath := snprintf 256 (p @ ''/IPCONFIG.DAT'')\<rparr> | None \<Rightarrow> s);
          pre = (case arg of Some p \<Rightarrow> p | None \<Rightarrow> gBaseMCDir);
          files = map2 (\<lambda>cs name. configMove cs (snprintf 256 (pre @ ''/'' @ name))) (configFiles s1) configFilenames
      in configPrepareNotifications (s1\<lparr>configFiles := files\<rparr>) pre)"

definition configEnd :: "config_state \<Rightarrow> config_state" where
  "configEnd s = s\<lparr>configFiles := map (\<lambda>cs. (configClear cs)\<lparr>cs_filename := None\<rparr>) (configFiles s)\<rparr>"

definition configGetByType :: "config_state \<Rightarrow> int \<Rightarrow> config_set option" where
  "configGetByType s t = find (\<lambda>cs. cs_type cs = t) (configFiles s)"

text \<open>The type bits of a call select the files; the result is the union of the types that were read.\<close>

fun configReadMulti_files ::
  "(nat \<Rightarrow> char) \<Rightarrow> int \<Rightarrow> util_state \<Rightarrow> config_set list
     \<Rightarrow> ((int \<times> config_set list \<times> util_state) cres) option" where
  "configReadMulti_files mem types st [] = Some (Inr (0, [], st))"
| "configReadMulti_files mem types st (cs # rest) =
     (if cs_type cs AND types \<noteq> 0 then
        Option.bind (configRead mem st (configClear cs)) (\<lambda>r.
          case r of
            Inl e \<Rightarrow> Some (Inl e)
          | Inr (ok, cs', st1) \<Rightarrow>
              map_option (\<lambda>r'. c_bind r' (\<lambda>(result, rest', st2).
                  Inr (if ok then cs_type cs OR result else result, cs' # rest', st2)))
                (configReadMulti_files mem types st1 rest))
      else map_option (\<lambda>r'. c_bind r' (\<lambda>(result, rest', st2). Inr (result, cs # rest', st2)))
             (configReadMulti_files mem types st rest))"

fun configWriteMulti_files ::
  "(nat \<Rightarrow> char) \<Rightarrow> int \<Rightarrow> util_state \<Rightarrow> config_set list \<Rightarrow> (int \<times> config_set list \<times> util_state) cres" where
  "configWriteMulti_files mem types st [] = Inr (0, [], st)"
| "configWriteMulti_files mem types st (cs # rest) =
     (if cs_type cs AND types \<noteq> 0 then
        c_bind (configWrite mem st cs) (\<lambda>(ok, cs', st1).
          c_bind (configWriteMulti_files mem types st1 rest) (\<lambda>(result, rest', st2).
            Inr ((if ok then 1 else 0) + result, cs' # rest', st2)))
      else c_bind (configWriteMulti_files mem types st rest) (\<lambda>(result, rest', st2).
             Inr (result, cs # rest', st2)))"

definition configWriteMulti ::
  "(nat \<Rightarrow> char) \<Rightarrow> int \<Rightarrow> util_state \<Rightarrow> config_state \<Rightarrow> (int \<times> config_state \<times> util_state) cres" where
  "configWriteMulti mem types st s =
     c_bind (configWriteMulti_files mem types st (configFiles s)) (\<lambda>(result, files, st1).
       Inr (result, s\<lparr>configFiles := files\<rparr>, st1))"

section \<open>The legacy network file\<close>

text \<open>\<open>sscanf\<close> on the directives the code uses: \<open>%d\<close>, a literal character, and a space for any amount
  of white space; the numbers assigned before the first directive that fails.\<close>

datatype scan_item = ScanInt | ScanChar char | ScanSpace

definition scan_int :: "string \<Rightarrow> (int \<times> string) option" where
  "scan_int s =
     (let t = dropWhile isspace s;
          u = (case t of [] \<Rightarrow> [] | c # cs \<Rightarrow> if c = CHR ''-'' \<or> c = CHR ''+'' then cs else t)
      in if takeWhile isdigit u = [] then None else Some (atoi t, dropWhile isdigit u))"

fun sscanf :: "scan_item list \<Rightarrow> string \<Rightarrow> int list" where
  "sscanf [] s = []"
| "sscanf (ScanInt # fs) s = (case scan_int s of None \<Rightarrow> [] | Some (i, t) \<Rightarrow> i # sscanf fs t)"
| "sscanf (ScanChar c # fs) s = (case s of [] \<Rightarrow> [] | x # t \<Rightarrow> if x = c then sscanf fs t else [])"
| "sscanf (ScanSpace # fs) s = sscanf fs (dropWhile isspace s)"

definition scan_ip :: "scan_item list" where
  "scan_ip = [ScanInt, ScanChar (CHR ''.''), ScanInt, ScanChar (CHR ''.''), ScanInt, ScanChar (CHR ''.''), ScanInt]"

definition ip_text :: "int list \<Rightarrow> string" where
  "ip_text ip = snprintf 16 (show_int (ip ! 0) @ ''.'' @ show_int (ip ! 1) @ ''.'' @ show_int (ip ! 2) @ ''.'' @ show_int (ip ! 3))"

text \<open>\<open>net\<close> holds the twelve numbers of \<open>ps2_ip\<close>, \<open>ps2_netmask\<close> and \<open>ps2_gateway\<close>; \<open>stack\<close> is the
  content of the local array of 256 bytes before the file is read into it.\<close>

definition configReadLegacyIP ::
  "string \<Rightarrow> util_state \<Rightarrow> int list \<Rightarrow> config_state \<Rightarrow> (bool \<times> int list \<times> config_state \<times> util_state) cres" where
  "configReadLegacyIP stack st net s =
     c_bind (openFile st (legacyNetConfigPath s) O_RDONLY) (\<lambda>(fd, path1, st1).
       let s1 = s\<lparr>legacyNetConfigPath := path1\<rparr> in
       case fd of
         None \<Rightarrow> Inr (False, net, s1, st1)
       | Some content \<Rightarrow>
           if 256 < length content then Inl OutOfBounds
           else
             let ipconfig = cstr_at (content @ drop (length content) stack) 0 in
             if 256 \<le> length ipconfig then Inl Unterminated
             else
               let got = sscanf (scan_ip @ ScanSpace # scan_ip @ ScanSpace # scan_ip) ipconfig;
                   net' = got @ drop (length got) net;
                   c0 = configFiles s1 ! 3;
                   c1 = snd (configSetStr c0 ''ps2_ip_addr'' (ip_text (take 4 net')));
                   c2 = snd (configSetStr c1 ''ps2_netmask'' (ip_text (take 4 (drop 4 net'))));
                   c3 = snd (configSetStr c2 ''ps2_gateway'' (ip_text (drop 8 net')));
                   c4 = snd (configSetStr c3 ''ps2_dns'' (ip_text (drop 8 net')))
               in Inr (True, net', s1\<lparr>configFiles := (configFiles s1)[3 := c4]\<rparr>, st1))"

definition configReadMulti ::
  "(nat \<Rightarrow> char) \<Rightarrow> string \<Rightarrow> int \<Rightarrow> util_state \<Rightarrow> int list \<Rightarrow> config_state
     \<Rightarrow> ((int \<times> int list \<times> config_state \<times> util_state) cres) option" where
  "configReadMulti mem stack types st net s =
     map_option (\<lambda>r. c_bind r (\<lambda>(result, files, st1).
         let s1 = s\<lparr>configFiles := files\<rparr> in
         if types AND CONFIG_NETWORK \<noteq> 0 \<and> result AND CONFIG_NETWORK = 0 then
           c_bind (configReadLegacyIP stack st1 net s1) (\<lambda>(ok, net', s2, st2).
             Inr (if ok then result OR CONFIG_NETWORK else result, net', s2, st2))
         else Inr (result, net, s1, st1)))
       (configReadMulti_files mem types st (configFiles s))"

section \<open>Specification: a finite map\<close>

definition config_map :: "config_set \<Rightarrow> string \<Rightarrow> string option" where
  "config_map cs = map_of (map (\<lambda>it. (cv_key it, cv_val it)) (cs_items cs))"

definition item_ok :: "config_value \<Rightarrow> bool" where
  "item_ok it \<longleftrightarrow> configKeyValidate (cv_key it) \<and>
     length (cv_key it) < CONFIG_KEY_NAME_LEN \<and> length (cv_val it) < CONFIG_KEY_VALUE_LEN"

definition config_ok :: "config_set \<Rightarrow> bool" where
  "config_ok cs \<longleftrightarrow> (\<forall>it \<in> set (cs_items cs). item_ok it) \<and> distinct (map cv_key (cs_items cs))"

text \<open>The keys callers may use: non-empty, without an equals sign, short enough for the array.\<close>

definition key_ok :: "string \<Rightarrow> bool" where
  "key_ok key \<longleftrightarrow> configKeyValidate key \<and> length key < CONFIG_KEY_NAME_LEN"

abbreviation trunc_value :: "string \<Rightarrow> string" where
  "trunc_value \<equiv> strncpy_z CONFIG_KEY_VALUE_LEN"

text \<open>The digits among the characters of a disc identifier, and the loop over them.\<close>

definition hex_digits :: "string \<Rightarrow> int list" where
  "hex_digits s = filter (\<lambda>d. 0 \<le> d) (map fromHex s)"

fun discID_digits :: "int list \<Rightarrow> nat \<Rightarrow> nat \<Rightarrow> u8 list \<Rightarrow> u8 list cres" where
  "discID_digits [] p cdst dst = Inr dst"
| "discID_digits (d # ds) p cdst dst =
     (if p < 10 then
        c_bind (peek dst cdst) (\<lambda>old.
          discID_digits ds (p + 1) (if even (p + 1) then cdst + 1 else cdst) (dst[cdst := old * 16 + of_int d]))
      else Inr dst)"

definition persistent :: "config_value \<Rightarrow> bool" where
  "persistent it \<longleftrightarrow> cv_key it \<noteq> [] \<and> take 1 (cv_key it) \<noteq> ''#''"

text \<open>An item whose text a reader takes back as it is: no line end or NUL inside, and a key that does
  not start with white space or with the first byte of a byte order mark.\<close>

definition text_ok :: "config_value \<Rightarrow> bool" where
  "text_ok it \<longleftrightarrow> item_ok it \<and> cstring (cv_key it) \<and> cstring (cv_val it) \<and>
     LF \<notin> set (cv_key it) \<and> LF \<notin> set (cv_val it) \<and>
     \<not> isWS (hd (cv_key it)) \<and> hd (cv_key it) \<noteq> CHR 0xEF"

definition item_text :: "config_value \<Rightarrow> string" where
  "item_text it = cv_key it @ ''='' @ cv_val it"

definition mc_ok :: "util_state \<Rightarrow> bool" where
  "mc_ok st \<longleftrightarrow> mcID st \<in> {-1, 48, 49}"

section \<open>Lookup, insertion, removal\<close>

lemma getConfigItem_Some:
  assumes "\<forall>it \<in> set its. item_ok it" "getConfigItemForName its k = Some i"
  shows "i < length its" "cv_key (its ! i) = k"
proof -
  have "i < length its \<and> cv_key (its ! i) = k"
    using assms
  proof (induction its arbitrary: i)
    case (Cons it its)
    then show ?case by (auto simp: item_ok_def strncmp_eq_iff split: if_splits)
  qed simp
  then show "i < length its" "cv_key (its ! i) = k" by auto
qed

lemma getConfigItem_None:
  "\<forall>it \<in> set its. item_ok it \<Longrightarrow> getConfigItemForName its k = None \<longleftrightarrow> k \<notin> cv_key ` set its"
  by (induction its) (auto simp: item_ok_def strncmp_eq_iff)

lemma map_of_items:
  "distinct (map cv_key its) \<Longrightarrow> i < length its \<Longrightarrow>
     map_of (map (\<lambda>it. (cv_key it, cv_val it)) its) (cv_key (its ! i)) = Some (cv_val (its ! i))"
  by (intro map_of_is_SomeI) (auto simp: comp_def)

lemma map_of_items_None:
  "map_of (map (\<lambda>it. (cv_key it, cv_val it)) its) k = None \<longleftrightarrow> k \<notin> cv_key ` set its"
  by (induction its) auto

lemma map_of_snoc: "map_of xs k = None \<Longrightarrow> map_of (xs @ [(k, v)]) = (map_of xs)(k \<mapsto> v)"
  by (induction xs) (auto split: if_splits)

lemma configGetStr_map: "config_ok cs \<Longrightarrow> configGetStr cs k = config_map cs k"
proof -
  assume ok: "config_ok cs"
  then have its: "\<forall>it \<in> set (cs_items cs). item_ok it" and d: "distinct (map cv_key (cs_items cs))"
    by (auto simp: config_ok_def)
  show ?thesis
  proof (cases "getConfigItemForName (cs_items cs) k")
    case None
    then have "k \<notin> cv_key ` set (cs_items cs)" using its getConfigItem_None by blast
    then have "config_map cs k = None" by (simp add: config_map_def map_of_items_None)
    then show ?thesis using None by (simp add: configGetStr_def)
  next
    case (Some i)
    note i = getConfigItem_Some [OF its Some]
    then have "configKeyValidate k" using its by (auto simp: item_ok_def)
    moreover have "config_map cs k = Some (cv_val (cs_items cs ! i))"
      using map_of_items [OF d i(1)] i(2) by (simp add: config_map_def)
    ultimately show ?thesis using Some by (simp add: configGetStr_def)
  qed
qed

lemma map_of_items_update:
  assumes "distinct (map cv_key its)" "i < length its"
  shows "map_of (map (\<lambda>it. (cv_key it, cv_val it)) (its[i := (its ! i)\<lparr>cv_val := v\<rparr>])) =
    (map_of (map (\<lambda>it. (cv_key it, cv_val it)) its))(cv_key (its ! i) \<mapsto> v)"
  using assms
proof (induction its arbitrary: i)
  case (Cons it its)
  show ?case
  proof (cases i)
    case (Suc j)
    with Cons.prems have "its ! j \<in> set its" "cv_key it \<notin> cv_key ` set its" by auto
    then have "cv_key (its ! j) \<noteq> cv_key it" by (metis imageI)
    with Suc Cons show ?thesis by (auto simp: fun_upd_twist)
  qed (simp add: fun_eq_iff)
qed simp

lemma configSetStr_refines:
  assumes ok: "config_ok cs" and k: "key_ok k"
  shows "fst (configSetStr cs k v)" "config_ok (snd (configSetStr cs k v))"
    "config_map (snd (configSetStr cs k v)) = (config_map cs)(k \<mapsto> trunc_value v)"
proof -
  have its: "\<forall>it \<in> set (cs_items cs). item_ok it" and d: "distinct (map cv_key (cs_items cs))"
    using ok by (auto simp: config_ok_def)
  have "fst (configSetStr cs k v) \<and> config_ok (snd (configSetStr cs k v)) \<and>
    config_map (snd (configSetStr cs k v)) = (config_map cs)(k \<mapsto> trunc_value v)"
  proof (cases "getConfigItemForName (cs_items cs) k")
    case None
    then have new: "k \<notin> cv_key ` set (cs_items cs)" using its getConfigItem_None by blast
    have it: "item_ok (allocConfigItem k v)" "cv_key (allocConfigItem k v) = k"
      "cv_val (allocConfigItem k v) = trunc_value v"
      using k by (auto simp: allocConfigItem_def item_ok_def key_ok_def strncpy_z_id length_strncpy_z)
    moreover have "map_of (map (\<lambda>it. (cv_key it, cv_val it)) (cs_items cs)) k = None"
      using new by (simp add: map_of_items_None)
    ultimately show ?thesis using None new its d k
      by (simp add: configSetStr_def addConfigValue_def config_ok_def config_map_def key_ok_def
          map_of_snoc del: map_of_append)
  next
    case (Some i)
    note i = getConfigItem_Some [OF its Some]
    let ?it = "cs_items cs ! i"
    have io: "item_ok ?it" using its i by simp
    show ?thesis
    proof (cases "strncmp_eq CONFIG_KEY_VALUE_LEN (cv_val ?it) v")
      case True
      then have "cv_val ?it = v" using io by (simp add: item_ok_def strncmp_eq_iff)
      then have "config_map cs k = Some (trunc_value v)"
        using map_of_items [OF d i(1)] i(2) io by (simp add: config_map_def item_ok_def strncpy_z_id)
      then have "(config_map cs)(k \<mapsto> trunc_value v) = config_map cs" by (simp add: fun_upd_idem)
      with True Some k ok show ?thesis by (simp add: configSetStr_def key_ok_def)
    next
      case False
      have upd: "map cv_key ((cs_items cs)[i := ?it\<lparr>cv_val := w\<rparr>]) = map cv_key (cs_items cs)" for w
        using i(1) by (simp add: map_update list_update_same_conv)
      have "item_ok (?it\<lparr>cv_val := trunc_value v\<rparr>)" using io by (simp add: item_ok_def length_strncpy_z)
      moreover have "set ((cs_items cs)[i := ?it\<lparr>cv_val := trunc_value v\<rparr>])
          \<subseteq> insert (?it\<lparr>cv_val := trunc_value v\<rparr>) (set (cs_items cs))"
        by (rule set_update_subset_insert)
      ultimately have "\<forall>it \<in> set ((cs_items cs)[i := ?it\<lparr>cv_val := trunc_value v\<rparr>]). item_ok it"
        using its by blast
      moreover define cs' where "cs' = snd (configSetStr cs k v)"
      moreover have set: "configSetStr cs k v = (True, cs')"
        "cs_items cs' = (cs_items cs)[i := ?it\<lparr>cv_val := trunc_value v\<rparr>]"
        using False Some k unfolding cs'_def by (simp_all add: configSetStr_def key_ok_def Let_def)
      ultimately have "config_ok cs'" using d upd by (simp add: config_ok_def)
      moreover have "config_map cs' = (config_map cs)(k \<mapsto> trunc_value v)"
        unfolding config_map_def set(2) using map_of_items_update [OF d i(1)] i(2) by simp
      ultimately show ?thesis using set(1) by simp
    qed
  qed
  then show "fst (configSetStr cs k v)" "config_ok (snd (configSetStr cs k v))"
    "config_map (snd (configSetStr cs k v)) = (config_map cs)(k \<mapsto> trunc_value v)" by auto
qed

lemma configRemoveKey_refines:
  assumes ok: "config_ok cs" and k: "configKeyValidate k"
  shows "fst (configRemoveKey cs k)" "config_ok (snd (configRemoveKey cs k))"
    "config_map (snd (configRemoveKey cs k)) = (config_map cs)(k := None)"
proof -
  have its: "\<forall>it \<in> set (cs_items cs). item_ok it" and d: "distinct (map cv_key (cs_items cs))"
    using ok by (auto simp: config_ok_def)
  have f: "filter (\<lambda>it. \<not> strncmp_eq CONFIG_KEY_NAME_LEN (cv_key it) k) (cs_items cs)
      = filter (\<lambda>it. cv_key it \<noteq> k) (cs_items cs)"
    using its by (intro filter_cong) (auto simp: item_ok_def strncmp_eq_iff)
  have m: "map_of (map (\<lambda>it. (cv_key it, cv_val it)) (filter (\<lambda>it. cv_key it \<noteq> k) l))
      = (map_of (map (\<lambda>it. (cv_key it, cv_val it)) l))(k := None)" for l
    by (induction l) (auto simp: fun_upd_twist)
  show "fst (configRemoveKey cs k)" using k by (simp add: configRemoveKey_def Let_def)
  show "config_ok (snd (configRemoveKey cs k))"
    using k its d by (simp add: configRemoveKey_def Let_def config_ok_def f distinct_map_filter)
  show "config_map (snd (configRemoveKey cs k)) = (config_map cs)(k := None)"
    using k m by (simp add: configRemoveKey_def Let_def config_map_def f)
qed

section \<open>The interface of the store\<close>

text \<open>What the clients of the configuration (cheats, memory cards, per-game settings) rely on.\<close>

locale key_value_store =
  fixes put :: "'c \<Rightarrow> string \<Rightarrow> string \<Rightarrow> 'c"
    and get :: "'c \<Rightarrow> string \<Rightarrow> string option"
    and del :: "'c \<Rightarrow> string \<Rightarrow> 'c"
    and wf :: "'c \<Rightarrow> bool"
    and valid :: "string \<Rightarrow> bool"
    and fit :: "string \<Rightarrow> string"
  assumes wf_put: "wf c \<Longrightarrow> valid k \<Longrightarrow> wf (put c k v)"
    and wf_del: "wf c \<Longrightarrow> valid k \<Longrightarrow> wf (del c k)"
    and get_put: "wf c \<Longrightarrow> valid k \<Longrightarrow> get (put c k v) k' = (if k' = k then Some (fit v) else get c k')"
    and get_del: "wf c \<Longrightarrow> valid k \<Longrightarrow> get (del c k) k' = (if k' = k then None else get c k')"
begin

lemma put_put: "wf c \<Longrightarrow> valid k \<Longrightarrow> get (put (put c k v) k w) k' = get (put c k w) k'"
  by (simp add: get_put wf_put)

lemma del_put: "wf c \<Longrightarrow> valid k \<Longrightarrow> get (del (put c k v) k) k' = get (del c k) k'"
  by (simp add: get_put get_del wf_put)

text \<open>Storing a list of pairs in order: well-formed, and the last pair for a key wins.\<close>

lemma wf_puts:
  "wf c \<Longrightarrow> \<forall>(k, v) \<in> set kvs. valid k \<Longrightarrow> wf (foldl (\<lambda>c (k, v). put c k v) c kvs)"
  by (induction kvs arbitrary: c) (auto simp: wf_put)

lemma get_puts:
  "wf c \<Longrightarrow> \<forall>(k, v) \<in> set kvs. valid k \<Longrightarrow>
     get (foldl (\<lambda>c (k, v). put c k v) c kvs) k =
       (case map_of (rev kvs) k of Some v \<Rightarrow> Some (fit v) | None \<Rightarrow> get c k)"
  by (induction kvs arbitrary: c)
    (auto simp: wf_put get_put map_add_def split: option.splits if_splits)

end

interpretation cfg: key_value_store
  "\<lambda>cs k v. snd (configSetStr cs k v)" configGetStr "\<lambda>cs k. snd (configRemoveKey cs k)"
  config_ok key_ok trunc_value
proof unfold_locales
  fix cs k v assume "config_ok cs" "key_ok k"
  then show "config_ok (snd (configSetStr cs k v))" by (rule configSetStr_refines)
next
  fix cs k assume "config_ok cs" "key_ok k"
  then show "config_ok (snd (configRemoveKey cs k))"
    by (auto simp: key_ok_def intro: configRemoveKey_refines)
next
  fix cs k v k' assume a: "config_ok cs" "key_ok k"
  show "configGetStr (snd (configSetStr cs k v)) k' = (if k' = k then Some (trunc_value v) else configGetStr cs k')"
    using configSetStr_refines(2,3) [OF a] a by (simp add: configGetStr_map)
next
  fix cs k k' assume a: "config_ok cs" "key_ok k"
  then have "configKeyValidate k" by (simp add: key_ok_def)
  then show "configGetStr (snd (configRemoveKey cs k)) k' = (if k' = k then None else configGetStr cs k')"
    using configRemoveKey_refines(2,3) [OF a(1)] a by (simp add: configGetStr_map)
qed

section \<open>Integers, colours, disc identifiers\<close>

lemma configSetInt_get:
  assumes "config_ok cs" "key_ok k" "int32 i"
  shows "configGetInt (snd (configSetInt cs k i)) k = Some i"
proof -
  have "length (show_int i) < 12" using length_show_int [OF assms(3)] by simp
  with assms show ?thesis
    by (simp add: configGetInt_def configSetInt_def cfg.get_put snprintf_id strncpy_z_id atoi_show_int)
qed

lemma u8_nibbles: "of_int (uint b div 16) * 16 + of_int (uint b mod 16) = (b :: u8)"
proof -
  have "of_int (uint b div 16) * 16 + of_int (uint b mod 16) = (of_int (uint b div 16 * 16 + uint b mod 16) :: u8)"
    by (simp only: of_int_add of_int_mult of_int_numeral)
  also have "\<dots> = b" by simp
  finally show ?thesis .
qed

lemma uint_u8_bound: "0 \<le> uint (b :: u8)" "uint (b :: u8) < 256"
  using uint_lt2p [of b] by simp_all

lemma fromHex_show_hex2:
  "fromHex (toHex (uint (b :: u8) div 16)) = uint b div 16"
  "fromHex (toHex (uint (b :: u8) mod 16)) = uint b mod 16"
proof -
  have "uint b div 16 < 16" using uint_u8_bound [of b] by (simp add: div_less_iff_less_mult)
  moreover have "0 \<le> uint b div 16" by (simp add: pos_imp_zdiv_nonneg_iff)
  ultimately show "fromHex (toHex (uint b div 16)) = uint b div 16" by (simp add: fromHex_toHex)
  show "fromHex (toHex (uint b mod 16)) = uint b mod 16" by (simp add: fromHex_toHex)
qed

lemma strToColor_show:
  "strToColor (''#'' @ show_hex2 r @ show_hex2 g @ show_hex2 b) = Inr (True, [r, g, b])"
  using uint_u8_bound
  by (simp add: strToColor_def show_hex2_def fromHex_show_hex2 u8_nibbles [simplified] Let_def
      pos_imp_zdiv_nonneg_iff)

lemma configSetColor_get:
  assumes "config_ok cs" "key_ok k"
  shows "configGetColor (snd (configSetColor cs k (r, g, b))) k c = Inr (True, [r, g, b])"
proof -
  have "length (''#'' @ show_hex2 r @ show_hex2 g @ show_hex2 b) = 7" by (simp add: show_hex2_def)
  with assms strToColor_show show ?thesis
    by (simp add: configGetColor_def configSetColor_def cfg.get_put snprintf_id strncpy_z_id)
qed

text \<open>The loop over the characters is a loop over the hexadecimal digits among them.\<close>

lemma next_hex_digits:
  "next_hex s = None \<Longrightarrow> hex_digits s = []"
  "next_hex s = Some (d, t) \<Longrightarrow> hex_digits s = d # hex_digits t"
  by (induction s) (auto simp: hex_digits_def split: if_splits)

lemma discID_loop_digits: "discID_loop gid p cdst dst = discID_digits (hex_digits gid) p cdst dst"
proof (induction gid p cdst dst rule: discID_loop.induct)
  case (1 gid p cdst dst)
  show ?case
  proof (cases "gid \<noteq> [] \<and> p < 10")
    case False
    then show ?thesis
      by (subst discID_loop.simps) (cases "hex_digits gid"; auto simp: hex_digits_def)
  next
    case True
    show ?thesis
    proof (cases "next_hex gid")
      case None
      with True next_hex_digits show ?thesis by (subst discID_loop.simps) simp
    next
      case (Some x)
      obtain d t where x: "x = (d, t)" by (cases x)
      have IH: "peek dst cdst = Inr old \<Longrightarrow>
         discID_loop t (p + 1) (if even (p + 1) then cdst + 1 else cdst) (dst[cdst := old * 16 + of_int d])
         = discID_digits (hex_digits t) (p + 1) (if even (p + 1) then cdst + 1 else cdst) (dst[cdst := old * 16 + of_int d])" for old
        using "1.IH" [OF True Some] x by simp
      have h: "hex_digits gid = d # hex_digits t" using Some x next_hex_digits(2) by simp
      show ?thesis
      proof (cases "peek dst cdst")
        case (Inl e)
        with True Some x h show ?thesis by (subst discID_loop.simps) simp
      next
        case (Inr old)
        with True Some x h IH [OF Inr] show ?thesis by (subst discID_loop.simps) simp
      qed
    qed
  qed
qed

lemma discID_digits_safe:
  "length dst = 5 \<Longrightarrow> cdst = p div 2 \<Longrightarrow> \<exists>dst'. discID_digits ds p cdst dst = Inr dst' \<and> length dst' = 5"
proof (induction ds p cdst dst rule: discID_digits.induct)
  case (2 d ds p cdst dst)
  show ?case
  proof (cases "p < 10")
    case True
    with "2.prems" have "cdst < length dst" by simp
    then have "discID_digits (d # ds) p cdst dst =
        discID_digits ds (p + 1) (if even (p + 1) then cdst + 1 else cdst) (dst[cdst := dst ! cdst * 16 + of_int d])"
      using True by simp
    moreover have "(if even (p + 1) then cdst + 1 else cdst) = (p + 1) div 2" using "2.prems" by auto
    moreover have "length (dst[cdst := dst ! cdst * 16 + of_int d]) = 5" using "2.prems" by simp
    ultimately show ?thesis using "2.IH" [OF True, of "dst ! cdst"] by presburger
  qed (use "2.prems" in simp)
qed simp

section \<open>Writing and reading back\<close>

lemma config_text_line_eq: "item_ok it \<Longrightarrow> config_text_line it = item_text it @ [CR, LF]"
  by (simp add: config_text_line_def item_ok_def snprintf_id item_text_def)

lemma config_write_items:
  assumes "wfb_ok fb" "\<forall>it \<in> set its. item_ok it"
  shows "\<exists>fb'. c_fold config_write_item fb its = Inr fb' \<and> wfb_ok fb' \<and>
    closeFileBuffer fb' = closeFileBuffer fb @ concat (map (\<lambda>it. item_text it @ [CR, LF]) (filter persistent its))"
  using assms
proof (induction its arbitrary: fb)
  case (Cons it its)
  obtain fb1 where fb1: "config_write_item fb it = Inr fb1" "wfb_ok fb1"
    "closeFileBuffer fb1 = closeFileBuffer fb @ (if persistent it then item_text it @ [CR, LF] else [])"
  proof (cases "persistent it")
    case True
    with writeFileBuffer_ok [OF Cons.prems(1), of "config_text_line it"] Cons.prems that show thesis
      by (auto simp: config_write_item_def persistent_def config_text_line_eq)
  next
    case False
    with Cons.prems that [of fb] show thesis by (auto simp: config_write_item_def persistent_def)
  qed
  then show ?case using Cons.IH [OF fb1(2)] Cons.prems by auto
qed simp

text \<open>The lines of the written text are the items.\<close>

lemma item_text_no_LF: "text_ok it \<Longrightarrow> LF \<notin> set (item_text it @ [CR])"
  by (auto simp: text_ok_def item_text_def)

lemma text_ok_hd:
  assumes "text_ok it" "persistent it"
  shows "\<exists>c s. cv_key it = c # s \<and> c \<noteq> CHR ''#'' \<and> \<not> isWS c \<and> c \<noteq> CHR 0xEF"
  using assms by (cases "cv_key it") (auto simp: text_ok_def persistent_def)

lemma split_lf_items:
  "\<forall>it \<in> set its. text_ok it \<Longrightarrow>
     split_lf (concat (map (\<lambda>it. item_text it @ [CR, LF]) its)) = map (\<lambda>it. item_text it @ [CR]) its"
proof (induction its)
  case (Cons it its)
  then have "split_lf ((item_text it @ [CR]) @ LF # concat (map (\<lambda>it. item_text it @ [CR, LF]) its))
      = (item_text it @ [CR]) # map (\<lambda>it. item_text it @ [CR]) its"
    using item_text_no_LF [of it] by (subst split_lf_append) auto
  then show ?case by simp
qed simp

lemma text_lines_items:
  assumes "\<forall>it \<in> set its. text_ok it \<and> persistent it"
  shows "text_lines (concat (map (\<lambda>it. item_text it @ [CR, LF]) its)) = map item_text its"
proof -
  have "\<not> is_comment (item_text it)" if "it \<in> set its" for it
    using assms that text_ok_hd [of it] by (auto simp: is_comment_def item_text_def)
  then have "filter (\<lambda>l. \<not> is_comment l) (map item_text its) = map item_text its"
    by (induction its) auto
  moreover have "split_lf (concat (map (\<lambda>it. item_text it @ [CR, LF]) its)) = map (\<lambda>it. item_text it @ [CR]) its"
    using assms by (intro split_lf_items) auto
  ultimately show ?thesis by (simp add: text_lines_def comp_def strip_cr_def)
qed

lemma readable_items:
  assumes "\<forall>it \<in> set its. text_ok it"
  shows "readable 4096 (concat (map (\<lambda>it. item_text it @ [CR, LF]) its))"
proof -
  let ?t = "concat (map (\<lambda>it. item_text it @ [CR, LF]) its)"
  have "cstring ?t" using assms by (auto simp: cstring_def text_ok_def item_text_def)
  moreover have "\<forall>l \<in> set (split_lf ?t). length l + 2 \<le> 4096"
    unfolding split_lf_items [OF assms] using assms by (auto simp: text_ok_def item_ok_def item_text_def)
  moreover have "?t \<noteq> [] \<Longrightarrow> last ?t = LF"
    by (cases its rule: rev_cases) auto
  ultimately show ?thesis by (auto simp: readable_def)
qed

lemma config_line_item:
  assumes "text_ok it" "persistent it" "config_ok cs" "cv_key it \<notin> cv_key ` set (cs_items cs)"
  shows "config_line ([], cs) (item_text it) = Inr ([], snd (configSetStr cs (cv_key it) (cv_val it)))"
    and "cs_items (snd (configSetStr cs (cv_key it) (cv_val it))) = cs_items cs @ [it]"
proof -
  have ok: "item_ok it" "key_ok (cv_key it)" using assms(1) by (auto simp: text_ok_def item_ok_def key_ok_def)
  obtain c s where cs: "cv_key it = c # s" "\<not> isWS c" using text_ok_hd [OF assms(1,2)] by blast
  have eq: "CHR ''='' \<notin> set (cv_key it)" using ok by (simp add: item_ok_def configKeyValidate_def)
  have dw: "dropWhile isWS (item_text it) = item_text it" "hd (item_text it) = c"
    using cs by (simp_all add: item_text_def)
  have "strchr (item_text it) (CHR ''='') = Some (length (cv_key it))"
    using strchr_append [OF eq] by (simp add: item_text_def)
  then have "splitAssignment (item_text it) CONFIG_KEY_NAME_LEN CONFIG_KEY_VALUE_LEN = Some (cv_key it, cv_val it)"
    using dw ok by (simp add: splitAssignment_def item_ok_def min_def item_text_def)
  then show "config_line ([], cs) (item_text it) = Inr ([], snd (configSetStr cs (cv_key it) (cv_val it)))"
    using ok dw cs by (simp add: config_line_def item_ok_def)
  have "getConfigItemForName (cs_items cs) (cv_key it) = None"
    using assms(3,4) getConfigItem_None by (auto simp: config_ok_def)
  then show "cs_items (snd (configSetStr cs (cv_key it) (cv_val it))) = cs_items cs @ [it]"
    using ok by (simp add: configSetStr_def key_ok_def addConfigValue_def allocConfigItem_def item_ok_def strncpy_z_id)
qed

lemma configSetStr_frame:
  "cs_type (snd (configSetStr cs k v)) = cs_type cs" "cs_filename (snd (configSetStr cs k v)) = cs_filename cs"
  "cs_uid (snd (configSetStr cs k v)) = cs_uid cs"
  by (auto simp: configSetStr_def addConfigValue_def Let_def split: option.splits)

lemma c_fold_items:
  assumes "\<forall>it \<in> set its. text_ok it \<and> persistent it" "config_ok cs" "distinct (map cv_key its)"
    "cv_key ` set its \<inter> cv_key ` set (cs_items cs) = {}"
  shows "\<exists>cs'. c_fold config_line ([], cs) (map item_text its) = Inr ([], cs') \<and>
    cs_items cs' = cs_items cs @ its \<and> cs_type cs' = cs_type cs \<and> cs_filename cs' = cs_filename cs \<and> cs_uid cs' = cs_uid cs"
  using assms
proof (induction its arbitrary: cs)
  case (Cons it its)
  let ?cs = "snd (configSetStr cs (cv_key it) (cv_val it))"
  have new: "cv_key it \<notin> cv_key ` set (cs_items cs)" using Cons.prems(4) by auto
  have it: "text_ok it" "persistent it" using Cons.prems(1) by auto
  note l = config_line_item [OF it Cons.prems(2) new]
  have ok: "config_ok ?cs"
    using it(1) Cons.prems(2) by (intro configSetStr_refines(2)) (auto simp: text_ok_def item_ok_def key_ok_def)
  have "\<exists>cs'. c_fold config_line ([], ?cs) (map item_text its) = Inr ([], cs') \<and>
      cs_items cs' = cs_items ?cs @ its \<and> cs_type cs' = cs_type ?cs \<and> cs_filename cs' = cs_filename ?cs \<and> cs_uid cs' = cs_uid ?cs"
    using Cons.prems ok l(2) by (intro Cons.IH) auto
  then show ?case using l by (auto simp: configSetStr_frame)
qed simp

lemma openFile_reopen:
  assumes "openFile st path O_WRITE = Inr (Some old, path1, st1)" "mc_ok st"
  shows "fs_file (ut_fs st1) path1 = Some []" "checkFile st2 path1 O_RDONLY = Inr (True, path1, st2)"
proof -
  from assms(1) obtain st0 where c: "checkFile st path O_WRITE = Inr (True, path1, st0)"
    and o: "open_file (ut_fs st0) path1 O_WRITE = (Some old, ut_fs st1)"
    by (auto simp: openFile_def c_bind_eq_Inr split: if_splits prod.splits)
  from o have "ut_fs st1 = (ut_fs st0)\<lparr>fs_file := (fs_file (ut_fs st0))(path1 \<mapsto> [])\<rparr>"
    by (simp add: open_file_def split: if_splits)
  then show "fs_file (ut_fs st1) path1 = Some []" by simp
  have "take 2 path1 = ''mc'' \<longrightarrow> take 1 (drop 2 path1) \<noteq> ''?''"
  proof (cases "take 2 path = ''mc'' \<and> take 1 (drop 2 path) = ''?''")
    case True
    then have "path = take 2 path @ take 1 (drop 2 path) @ drop 1 (drop 2 path)"
      by (metis append_take_drop_id)
    with True obtain r where p: "path = ''mc?'' @ r" by auto
    have "fst (checkMC st) < 0 \<or> mcID (snd (checkMC st)) \<in> {48, 49}"
      using assms(2) by (auto simp: checkMC_def mc_ok_def Let_def)
    moreover have "char_of (48 :: nat) = CHR ''0''" "char_of (49 :: nat) = CHR ''1''"
      by (simp_all add: char_of_def bit_Suc_0_iff)
    ultimately show ?thesis using c p
      by (auto simp: checkFile_def c_bind_eq_Inr Let_def split: if_splits prod.splits)
  next
    case False
    with c show ?thesis by (auto simp: checkFile_def c_bind_eq_Inr split: if_splits)
  qed
  then show "checkFile st2 path1 O_RDONLY = Inr (True, path1, st2)"
    by (auto simp: checkFile_def checkFile_dir_def)
qed


lemma config_write_read:
  assumes ok: "config_ok cs" and tx: "\<forall>it \<in> set (filter persistent (cs_items cs)). text_ok it"
    and m: "cs_modified cs" and f: "cs_filename cs = Some path" and mc: "mc_ok st"
    and op: "openFile st path O_WRITE = Inr (Some old, path1, st1)"
  defines "st2 \<equiv> st1\<lparr>ut_fs := (ut_fs st1)\<lparr>fs_file := (fs_file (ut_fs st1))
      (path1 \<mapsto> concat (map (\<lambda>it. item_text it @ [CR, LF]) (filter persistent (cs_items cs))))\<rparr>\<rparr>"
  shows "configWrite mem st cs = Inr (True, cs\<lparr>cs_filename := Some path1, cs_modified := False\<rparr>, st2)"
    and "configRead mem' st2 (cs\<lparr>cs_items := [], cs_filename := Some path1\<rparr>) =
      Some (Inr (True, cs\<lparr>cs_items := filter persistent (cs_items cs), cs_filename := Some path1,
                          cs_modified := False\<rparr>, st2))"
proof -
  let ?ps = "filter persistent (cs_items cs)"
  let ?t = "concat (map (\<lambda>it. item_text it @ [CR, LF]) ?ps)"
  have its: "\<forall>it \<in> set (cs_items cs). item_ok it" and d: "distinct (map cv_key (cs_items cs))"
    using ok by (auto simp: config_ok_def)
  obtain fb where fb: "openFileBuffer mem (Some old) O_WRITE False 4096 = Some fb" "wfb_ok fb" "closeFileBuffer fb = []"
    using openFileBuffer_writer by blast
  obtain fb' where "c_fold config_write_item fb (cs_items cs) = Inr fb'" "closeFileBuffer fb' = ?t"
    using config_write_items [OF fb(2) its] fb(3) by auto
  with m f op fb show "configWrite mem st cs = Inr (True, cs\<lparr>cs_filename := Some path1, cs_modified := False\<rparr>, st2)"
    by (simp add: configWrite_def st2_def)
  have "openFile st2 path1 O_RDONLY = Inr (Some ?t, path1, st2)"
    using openFile_reopen(2) [OF op mc] by (simp add: openFile_def open_file_def st2_def)
  moreover obtain gb where gb: "openFileBuffer mem' (Some ?t) O_RDONLY False 4096 = Some gb"
    by (simp add: openFileBuffer_def)
  have "skip_bom ?t = ?t"
  proof (cases ?ps)
    case (Cons it its)
    then have "text_ok it" "persistent it" using tx by (auto simp: filter_eq_Cons_iff)
    with Cons show ?thesis using text_ok_hd [of it] by (auto simp: skip_bom_def utf8_bom_def item_text_def)
  qed (simp add: skip_bom_def utf8_bom_def)
  then have r: "rfb_ok gb" "pending gb = ?t" "fb_size gb = 4096"
    using openFileBuffer_reader [OF gb] readable_items [OF tx] by (auto simp: readable_def)
  have "read_loop config_line s gb = Some (c_fold config_line s (map item_text ?ps))" for s
    using read_loop_fold [OF r(1), of 4096] r readable_items [OF tx] text_lines_items [of ?ps] tx by simp
  moreover obtain cs' where "c_fold config_line ([], cs\<lparr>cs_items := [], cs_filename := Some path1\<rparr>) (map item_text ?ps) = Inr ([], cs')"
    "cs_items cs' = ?ps" "cs_type cs' = cs_type cs" "cs_filename cs' = Some path1" "cs_uid cs' = cs_uid cs"
    using c_fold_items [of ?ps "cs\<lparr>cs_items := [], cs_filename := Some path1\<rparr>"] tx d
    by (auto simp: config_ok_def distinct_map_filter)
  ultimately show "configRead mem' st2 (cs\<lparr>cs_items := [], cs_filename := Some path1\<rparr>) =
      Some (Inr (True, cs\<lparr>cs_items := filter persistent (cs_items cs), cs_filename := Some path1,
                          cs_modified := False\<rparr>, st2))"
    using gb by (simp add: configRead_def configReadFileBuffer_def)
qed


section \<open>Memory card slots, long keys\<close>

lemma show_int_inj: "int32 i \<Longrightarrow> int32 j \<Longrightarrow> show_int i = show_int j \<Longrightarrow> i = j"
  by (metis atoi_show_int)

lemma vmc_key_eq: "int32 slot \<Longrightarrow> vmc_key slot = ''$VMC_'' @ show_int slot"
  using length_show_int [of slot] by (simp add: vmc_key_def CONFIG_ITEM_VMC_def snprintf_id)

lemma show_int_chars: "c \<in> set (show_int i) \<Longrightarrow> isdigit c \<or> c = CHR ''-''"
  using show_nat_digits by (auto simp: show_int_def split: if_splits)

lemma vmc_key_ok: "int32 slot \<Longrightarrow> key_ok (vmc_key slot)"
proof -
  assume r: "int32 slot"
  have "CHR ''='' \<notin> set (show_int slot)"
    using show_int_chars by (fastforce simp: isdigit_def code_def)
  with r length_show_int [OF r] show ?thesis
    by (simp add: vmc_key_eq key_ok_def configKeyValidate_def)
qed

lemma configSetStr_long_key:
  assumes "config_ok cs" "configKeyValidate k" "CONFIG_KEY_NAME_LEN \<le> length k"
  shows "cs_items (snd (configSetStr cs k v)) = cs_items cs @ [allocConfigItem k v]"
    "configGetStr (snd (configSetStr cs k v)) k = None"
proof -
  have none: "getConfigItemForName its k = None" if "\<forall>it \<in> set its. length (cv_key it) < CONFIG_KEY_NAME_LEN" for its
    using that assms(3) by (induction its) (auto simp: strncmp_eq_iff)
  have its: "\<forall>it \<in> set (cs_items cs). length (cv_key it) < CONFIG_KEY_NAME_LEN"
    using assms(1) by (auto simp: config_ok_def item_ok_def)
  show eq: "cs_items (snd (configSetStr cs k v)) = cs_items cs @ [allocConfigItem k v]"
    using assms(2) none [OF its] by (simp add: configSetStr_def addConfigValue_def)
  have "getConfigItemForName (cs_items cs @ [allocConfigItem k v]) k = None"
    using its by (intro none) (auto simp: allocConfigItem_def length_strncpy_z)
  with eq assms(2) show "configGetStr (snd (configSetStr cs k v)) k = None"
    by (simp add: configGetStr_def)
qed

section \<open>Properties\<close>

text \<open>C2: a modified, well-formed configuration set whose file can be opened for writing, with no memory
  card or one of the two chosen, that is written to its file and read back into an empty set gives
  the same items again, in order, except those whose key starts with a hash sign, which are never
  written.  The items that are written have keys and values without line ends and NULs, and keys that
  start neither with white space nor with the first byte of a byte order mark; an open file takes every
  write.  The two runs go through the 4096-byte windows of the buffered writer and reader and
  through the path rewriting for memory cards; neither touches memory outside its buffer, and both
  end.\<close>

theorem config_file_roundtrip:
  assumes "config_ok cs" and "\<forall>it \<in> set (filter persistent (cs_items cs)). text_ok it"
    and "cs_modified cs" and "cs_filename cs = Some path" and "mc_ok st"
    and "openFile st path O_WRITE = Inr (Some old, path1, st1)"
  shows "\<exists>st2. configWrite mem st cs = Inr (True, cs\<lparr>cs_filename := Some path1, cs_modified := False\<rparr>, st2) \<and>
    configRead mem' st2 (cs\<lparr>cs_items := [], cs_filename := Some path1\<rparr>) =
      Some (Inr (True, cs\<lparr>cs_items := filter persistent (cs_items cs), cs_filename := Some path1,
                          cs_modified := False\<rparr>, st2))"
  using config_write_read [OF assms] by blast

theorem config_file_roundtrip_witness:
  "let cs = \<lparr>cs_type = 1, cs_items = [\<lparr>cv_key = ''theme'', cv_val = ''Aqua''\<rparr>, \<lparr>cv_key = ''#Name'', cv_val = ''x''\<rparr>],
             cs_filename = Some ''mc?:PS2L/conf_opl.cfg'', cs_modified = True, cs_uid = 1\<rparr>;
       st = \<lparr>mcID = -1, ut_fs = \<lparr>fs_file = Map.empty, fs_dir = (\<lambda>d. d = ''mc1:/''), fs_writable = (\<lambda>_. True)\<rparr>\<rparr>;
       p = ''mc1:PS2L/conf_opl.cfg''
   in \<exists>st2. configWrite (\<lambda>_. NUL) st cs = Inr (True, cs\<lparr>cs_filename := Some p, cs_modified := False\<rparr>, st2) \<and>
    configRead (\<lambda>_. NUL) st2 (cs\<lparr>cs_items := [], cs_filename := Some p\<rparr>) =
      Some (Inr (True, cs\<lparr>cs_items := [\<lparr>cv_key = ''theme'', cv_val = ''Aqua''\<rparr>], cs_filename := Some p,
                          cs_modified := False\<rparr>, st2))"
proof -
  let ?cs = "\<lparr>cs_type = 1, cs_items = [\<lparr>cv_key = ''theme'', cv_val = ''Aqua''\<rparr>, \<lparr>cv_key = ''#Name'', cv_val = ''x''\<rparr>],
             cs_filename = Some ''mc?:PS2L/conf_opl.cfg'', cs_modified = True, cs_uid = 1\<rparr>"
  let ?st = "\<lparr>mcID = -1, ut_fs = \<lparr>fs_file = Map.empty, fs_dir = (\<lambda>d. d = ''mc1:/''), fs_writable = (\<lambda>_. True)\<rparr>\<rparr>"
  let ?p = "''mc1:PS2L/conf_opl.cfg''"
  have c49: "char_of (49 :: nat) = CHR ''1''" by (simp add: char_of_def bit_Suc_0_iff)
  have "\<exists>st1. openFile ?st ''mc?:PS2L/conf_opl.cfg'' O_WRITE = Inr (Some [], ?p, st1)"
    by (simp add: openFile_def checkFile_def checkMC_def checkFile_dir_def strrchr_def mkdir_def open_file_def c49)
  then obtain st1 where op: "openFile ?st ''mc?:PS2L/conf_opl.cfg'' O_WRITE = Inr (Some [], ?p, st1)" by blast
  have ok: "config_ok ?cs" "\<forall>it \<in> set (filter persistent (cs_items ?cs)). text_ok it"
    by (auto simp: config_ok_def item_ok_def configKeyValidate_def text_ok_def persistent_def isWS_def)
  have f: "filter persistent (cs_items ?cs) = [\<lparr>cv_key = ''theme'', cv_val = ''Aqua''\<rparr>]"
    by (simp add: persistent_def)
  show ?thesis
    using config_file_roundtrip [OF ok _ _ _ op, of "\<lambda>_. NUL" "\<lambda>_. NUL"] f by (simp add: mc_ok_def)
qed

text \<open>C27: for keys that fit the key array, the configuration set refines a finite map: setting a key
  binds it to the value cut to the value array and leaves every other key alone, removing it unbinds
  it, and both keep the set well formed (valid distinct keys, bounded strings).\<close>

theorem config_refines_map:
  assumes "config_ok cs" "key_ok k"
  shows "config_ok (snd (configSetStr cs k v)) \<and> config_ok (snd (configRemoveKey cs k)) \<and>
    config_map (snd (configSetStr cs k v)) = (config_map cs)(k \<mapsto> trunc_value v) \<and>
    config_map (snd (configRemoveKey cs k)) = (config_map cs)(k := None) \<and>
    configGetStr cs = config_map cs"
  using assms configSetStr_refines [OF assms, of v] configRemoveKey_refines [OF assms(1), of k]
  by (auto simp: key_ok_def configGetStr_map)

theorem config_refines_map_witness:
  "let cs = \<lparr>cs_type = 0, cs_items = [\<lparr>cv_key = ''a'', cv_val = ''1''\<rparr>], cs_filename = None, cs_modified = False, cs_uid = 0\<rparr>
   in config_map (snd (configSetStr cs ''a'' ''2'')) = (config_map cs)(''a'' \<mapsto> ''2'')"
proof -
  let ?cs = "\<lparr>cs_type = 0, cs_items = [\<lparr>cv_key = ''a'', cv_val = ''1''\<rparr>], cs_filename = None, cs_modified = False, cs_uid = 0\<rparr>"
  have "config_ok ?cs" "key_ok ''a''"
    by (simp_all add: config_ok_def item_ok_def configKeyValidate_def key_ok_def)
  from config_refines_map [OF this, of "''2''"] show ?thesis by (simp add: strncpy_z_def)
qed

text \<open>Merging one set into another gives the union of the two maps, the source winning.\<close>

theorem configMerge_lookup:
  assumes "config_ok dest" "config_ok source"
  shows "configGetStr (configMerge dest source) k =
    (case configGetStr source k of Some v \<Rightarrow> Some v | None \<Rightarrow> configGetStr dest k)"
proof -
  let ?kvs = "map (\<lambda>it. (cv_key it, cv_val it)) (cs_items source)"
  have its: "\<forall>it \<in> set (cs_items source). item_ok it" and d: "distinct (map fst ?kvs)"
    using assms(2) by (auto simp: config_ok_def comp_def)
  have "configMerge dest source = foldl (\<lambda>c (k, v). snd (configSetStr c k v)) dest ?kvs"
    by (simp add: configMerge_def foldl_map)
  then have "configGetStr (configMerge dest source) k =
      (case map_of (rev ?kvs) k of Some v \<Rightarrow> Some (trunc_value v) | None \<Rightarrow> configGetStr dest k)"
    using cfg.get_puts [OF assms(1), of ?kvs k] its by (auto simp: item_ok_def key_ok_def)
  moreover have "map_of (rev ?kvs) = map_of ?kvs"
    using d by (subst map_of_inject_set) (simp_all add: rev_map [symmetric])
  moreover have "map_of ?kvs k = configGetStr source k"
    using assms(2) by (simp add: configGetStr_map config_map_def)
  moreover have "trunc_value v = v" if "map_of ?kvs k = Some v" for v
    using that its by (auto dest!: map_of_SomeD simp: item_ok_def strncpy_z_id)
  ultimately show ?thesis by (auto split: option.splits)
qed

theorem configMerge_lookup_witness:
  "let d = \<lparr>cs_type = 0, cs_items = [\<lparr>cv_key = ''a'', cv_val = ''1''\<rparr>], cs_filename = None, cs_modified = False, cs_uid = 0\<rparr>;
       s = d\<lparr>cs_items := [\<lparr>cv_key = ''a'', cv_val = ''2''\<rparr>]\<rparr>
   in configGetStr (configMerge d s) ''a'' = Some ''2''"
proof -
  let ?d = "\<lparr>cs_type = 0, cs_items = [\<lparr>cv_key = ''a'', cv_val = ''1''\<rparr>], cs_filename = None, cs_modified = False, cs_uid = 0\<rparr>"
  let ?s = "?d\<lparr>cs_items := [\<lparr>cv_key = ''a'', cv_val = ''2''\<rparr>]\<rparr>"
  have "config_ok ?d" "config_ok ?s" by (simp_all add: config_ok_def item_ok_def configKeyValidate_def)
  from configMerge_lookup [OF this, of "''a''"] show ?thesis
    by (simp add: configGetStr_def configKeyValidate_def strncmp_eq_def)
qed

text \<open>A 32-bit integer, and a colour, that are stored under a key come back unchanged through the
  decimal and the hexadecimal notation, the bounded print buffers and the bounded value array.\<close>

theorem config_int_color_roundtrip:
  assumes "config_ok cs" "key_ok k" "int32 i"
  shows "configGetInt (snd (configSetInt cs k i)) k = Some i \<and>
    configGetColor (snd (configSetColor cs k (r, g, b))) k c = Inr (True, [r, g, b])"
  using assms by (simp add: configSetInt_get configSetColor_get)

theorem config_int_color_roundtrip_witness:
  "let cs = \<lparr>cs_type = 0, cs_items = [], cs_filename = None, cs_modified = False, cs_uid = 0\<rparr>
   in configGetInt (snd (configSetInt cs ''xoff'' (-2147483648))) ''xoff'' = Some (-2147483648) \<and>
     configGetColor (snd (configSetColor cs ''xoff'' (255, 0, 171))) ''xoff'' [] = Inr (True, [255, 0, 171])"
  unfolding Let_def
  by (rule config_int_color_roundtrip) (simp_all add: config_ok_def key_ok_def configKeyValidate_def int32_def)

lemma discID_length: "\<exists>dst. configGetDiscIDBinary cs = Inr dst \<and> length dst = 5"
  using discID_digits_safe [of "replicate 5 0" 0 0]
  by (auto simp: configGetDiscIDBinary_def discID_loop_digits split: option.splits)

text \<open>The binary disc identifier is always five bytes and never written outside its buffer,
  whatever the stored text; and a text whose hexadecimal digits are those of five bytes, with any other
  characters between them, yields these bytes.\<close>

theorem discID_safe_and_exact:
  "(\<exists>dst. configGetDiscIDBinary cs = Inr dst \<and> length dst = 5) \<and>
   (configGetStr cs CONFIG_ITEM_DNAS = Some gid \<longrightarrow>
      hex_digits gid = hex_digits (concat (map show_hex2 [b0, b1, b2, b3, b4])) \<longrightarrow>
      configGetDiscIDBinary cs = Inr [b0, b1, b2, b3, b4])"
proof
  show "\<exists>dst. configGetDiscIDBinary cs = Inr dst \<and> length dst = 5" by (rule discID_length)
  have nib: "hex_digits (show_hex2 b @ s) = uint b div 16 # uint b mod 16 # hex_digits s" for b s
    by (simp add: hex_digits_def show_hex2_def fromHex_show_hex2 pos_imp_zdiv_nonneg_iff)
  have "hex_digits (concat (map show_hex2 [b0, b1, b2, b3, b4])) =
      [uint b0 div 16, uint b0 mod 16, uint b1 div 16, uint b1 mod 16, uint b2 div 16, uint b2 mod 16,
       uint b3 div 16, uint b3 mod 16, uint b4 div 16, uint b4 mod 16]"
    by (simp add: nib) (simp add: hex_digits_def show_hex2_def fromHex_show_hex2 pos_imp_zdiv_nonneg_iff)
  moreover have "replicate 5 (0 :: u8) = [0, 0, 0, 0, 0]" by (simp add: numeral_eq_Suc)
  ultimately show "configGetStr cs CONFIG_ITEM_DNAS = Some gid \<longrightarrow>
      hex_digits gid = hex_digits (concat (map show_hex2 [b0, b1, b2, b3, b4])) \<longrightarrow>
      configGetDiscIDBinary cs = Inr [b0, b1, b2, b3, b4]"
    by (simp add: configGetDiscIDBinary_def discID_loop_digits u8_nibbles [simplified])
qed

theorem discID_safe_and_exact_witness:
  "configGetDiscIDBinary \<lparr>cs_type = 0, cs_items = [\<lparr>cv_key = ''$DNAS'', cv_val = ''00 01 02 AB FF''\<rparr>],
      cs_filename = None, cs_modified = False, cs_uid = 0\<rparr> = Inr [0, 1, 2, 0xAB, 0xFF]"
proof -
  let ?cs = "\<lparr>cs_type = 0, cs_items = [\<lparr>cv_key = ''$DNAS'', cv_val = ''00 01 02 AB FF''\<rparr>],
      cs_filename = None, cs_modified = False, cs_uid = 0\<rparr>"
  have g: "configGetStr ?cs CONFIG_ITEM_DNAS = Some ''00 01 02 AB FF''"
    by (simp add: configGetStr_def configKeyValidate_def strncmp_eq_def CONFIG_ITEM_DNAS_def)
  have h: "hex_digits ''00 01 02 AB FF'' = hex_digits (concat (map show_hex2 [0, 1, 2, 0xAB, 0xFF]))"
    by code_simp
  show ?thesis using discID_safe_and_exact g h by blast
qed

text \<open>The virtual memory card of one slot is stored and read back, cut to the caller's buffer, and
  storing it leaves the other slot's card alone.\<close>

theorem configVMC_slots:
  assumes "config_ok cs" "int32 slot" "int32 other" "other \<noteq> slot" "0 < len"
  shows "configGetVMC (configSetVMC cs vmc slot) len slot = Inr (strncpy_z len (trunc_value vmc)) \<and>
    configGetVMC (configSetVMC cs vmc slot) len other = configGetVMC cs len other"
proof -
  have ne: "vmc_key other \<noteq> vmc_key slot"
    using assms show_int_inj [of other slot] by (auto simp: vmc_key_eq)
  note k = vmc_key_ok [OF assms(2)]
  show ?thesis
    using assms(1,5) ne k
    by (simp add: configGetVMC_def configGetStrCopy_def configSetVMC_def configRemoveVMC_def cfg.get_put cfg.get_del)
      (simp add: strncpy_z_def)
qed

theorem configVMC_slots_witness:
  "let cs = \<lparr>cs_type = 0, cs_items = [], cs_filename = None, cs_modified = False, cs_uid = 0\<rparr>
   in configGetVMC (configSetVMC cs ''card'' 0) 32 0 = Inr (strncpy_z 32 (trunc_value ''card'')) \<and>
      configGetVMC (configSetVMC cs ''card'' 0) 32 1 = configGetVMC cs 32 1"
  unfolding Let_def by (rule configVMC_slots) (simp_all add: config_ok_def int32_def)

text \<open>A valid key of 32 characters or more is accepted, but the value stored under it can never be
  read back under that key, and every further store adds another item with the cut key.\<close>

theorem configSetStr_long_key_lost:
  assumes "config_ok cs" "configKeyValidate k" "CONFIG_KEY_NAME_LEN \<le> length k"
  shows "fst (configSetStr cs k v) \<and> configGetStr (snd (configSetStr cs k v)) k = None \<and>
    length (cs_items (snd (configSetStr cs k v))) = length (cs_items cs) + 1"
proof -
  have "fst (configSetStr cs k v)" using assms(2) by (simp add: configSetStr_def Let_def split: option.splits)
  with configSetStr_long_key [OF assms] show ?thesis by simp
qed

theorem configSetStr_long_key_lost_witness:
  "let cs = \<lparr>cs_type = 0, cs_items = [], cs_filename = None, cs_modified = False, cs_uid = 0\<rparr>;
       k = replicate 40 (CHR ''k'')
   in configGetStr (snd (configSetStr cs k ''v'')) k = None"
  unfolding Let_def
  by (rule configSetStr_long_key_lost [THEN conjunct2, THEN conjunct1])
    (simp_all add: config_ok_def configKeyValidate_def)

text \<open>A line of a configuration file with 32 or more characters before the equals sign fills the
  key array completely; the key handed on is not terminated.\<close>

theorem config_line_long_key_unterminated:
  assumes "line = key @ ''='' @ v" "CHR ''='' \<notin> set key" "\<not> isWS (hd key)" "CONFIG_KEY_NAME_LEN \<le> length key"
  shows "config_line (pre, cs) line = Inl Unterminated"
proof -
  have ne: "key \<noteq> []" using assms(4) by auto
  then have "dropWhile isWS line = line" using assms(1,3) by (cases key) auto
  moreover have "strchr line (CHR ''='') = Some (length key)"
    using strchr_append [OF assms(2)] assms(1) by simp
  ultimately show ?thesis using assms(1,4) by (simp add: config_line_def splitAssignment_def)
qed

theorem config_line_long_key_unterminated_witness:
  "config_line ([], \<lparr>cs_type = 0, cs_items = [], cs_filename = None, cs_modified = False, cs_uid = 0\<rparr>)
     (replicate 32 (CHR ''k'') @ ''='' @ ''v'') = Inl Unterminated"
  by (rule config_line_long_key_unterminated [OF refl]) (simp_all add: isWS_def)

end
