(* ===== verification/Linked_List.thy ===== *)
theory Linked_List
  imports CPrelude
begin

text \<open>
  Singly linked lists in a heap.  The heap is a map from addresses to cells; freeing a cell removes
  it, so that a later access is the fault \<open>Dangling\<close>.  A pointer is an \<open>addr option\<close>, \<open>None\<close> being
  NULL.  \<open>seg h nx p as q\<close> says that following \<open>nx\<close> from \<open>p\<close> visits the cells \<open>as\<close> and arrives at
  \<open>q\<close>; a list that ends in NULL is \<open>chain\<close>.
\<close>

type_synonym addr = nat

type_synonym 'c heap = "addr \<rightharpoonup> 'c"

fun seg :: "'c heap \<Rightarrow> ('c \<Rightarrow> addr option) \<Rightarrow> addr option \<Rightarrow> addr list \<Rightarrow> addr option \<Rightarrow> bool" where
  "seg h nx p [] q \<longleftrightarrow> p = q"
| "seg h nx p (a # as) q \<longleftrightarrow>
     p = Some a \<and> (case h a of None \<Rightarrow> False | Some c \<Rightarrow> seg h nx (nx c) as q)"

definition chain :: "'c heap \<Rightarrow> ('c \<Rightarrow> addr option) \<Rightarrow> addr option \<Rightarrow> addr list \<Rightarrow> bool" where
  "chain h nx p as \<longleftrightarrow> seg h nx p as None"

definition load :: "'c heap \<Rightarrow> addr option \<Rightarrow> 'c cres" where
  "load h p = (case p of None \<Rightarrow> Inl NullDeref
                       | Some a \<Rightarrow> (case h a of None \<Rightarrow> Inl Dangling | Some c \<Rightarrow> Inr c))"

lemma load_Inr [simp]: "h a = Some c \<Longrightarrow> load h (Some a) = Inr c"
  by (simp add: load_def)

lemma seg_append: "seg h nx p (as @ bs) q \<longleftrightarrow> (\<exists>r. seg h nx p as r \<and> seg h nx r bs q)"
  by (induction as arbitrary: p) (auto split: option.splits)

lemma seg_Some: "a \<in> set as \<Longrightarrow> seg h nx p as q \<Longrightarrow> \<exists>c. h a = Some c"
  by (induction as arbitrary: p) (auto split: option.splits)

lemma seg_fun_upd [simp]: "a \<notin> set as \<Longrightarrow> seg (h(a := x)) nx p as q \<longleftrightarrow> seg h nx p as q"
  by (induction as arbitrary: p) (auto split: option.splits)

lemma seg_det: "seg h nx p as None \<Longrightarrow> seg h nx p bs None \<Longrightarrow> as = bs"
proof (induction as arbitrary: p bs)
  case Nil
  then show ?case by (cases bs) auto
next
  case (Cons a as)
  then show ?case by (cases bs) (auto split: option.splits)
qed

lemma seg_distinct: "seg h nx p as None \<Longrightarrow> distinct as"
proof (induction as arbitrary: p)
  case (Cons a as)
  then obtain c where c: "h a = Some c" "seg h nx (nx c) as None" by (auto split: option.splits)
  have "a \<notin> set as"
  proof
    assume "a \<in> set as"
    then obtain xs ys where s: "as = xs @ a # ys" by (meson split_list)
    with c have "seg h nx (nx c) ys None" by (auto simp: seg_append)
    then have "as = ys" using c seg_det by blast
    with s show False by simp
  qed
  with Cons.IH c show ?case by simp
qed simp

lemma chain_distinct: "chain h nx p as \<Longrightarrow> distinct as"
  by (simp add: chain_def seg_distinct)

lemma chain_empty: "chain h nx None as \<longleftrightarrow> as = []"
  by (cases as) (auto simp: chain_def)

lemma chain_Some: "chain h nx (Some a) as \<longleftrightarrow>
    (\<exists>c bs. as = a # bs \<and> h a = Some c \<and> chain h nx (nx c) bs)"
  by (cases as) (auto simp: chain_def split: option.splits)

lemma chain_Cons: "chain h nx p (a # as) \<longleftrightarrow> p = Some a \<and> (\<exists>c. h a = Some c \<and> chain h nx (nx c) as)"
  by (auto simp: chain_def split: option.splits)

lemma chain_Nil [simp]: "chain h nx p [] \<longleftrightarrow> p = None"
  by (simp add: chain_def)

text \<open>Hanging a new cell behind the last one.\<close>

lemma chain_snoc:
  assumes "chain h nx p (as @ [l])" "h l = Some c" "h a = None" "nx c' = Some a" "nx d = None"
  shows "chain (h(l \<mapsto> c', a \<mapsto> d)) nx p (as @ [l, a])"
proof -
  have s: "seg h nx p as (Some l)" using assms(1) by (auto simp: chain_def seg_append)
  have "a \<notin> set (as @ [l])" using assms(1,3) seg_Some unfolding chain_def by fastforce
  moreover have "l \<notin> set as" using chain_distinct [OF assms(1)] by simp
  ultimately show ?thesis using s assms by (auto simp: chain_def seg_append)
qed

text \<open>Taking the first cell off.\<close>

lemma chain_tl_free:
  assumes "chain h nx p (a # as)" "h a = Some c"
  shows "chain (h(a := None)) nx (nx c) as"
  using assms chain_distinct [OF assms(1)] by (auto simp: chain_Cons) (simp add: chain_def)

text \<open>Taking a cell out of the middle: its predecessor now points behind it.\<close>

lemma seg_unlink:
  assumes "seg h nx p (as @ [l]) (Some a)" "seg h nx (Some a) (a # bs) None"
    "h l = Some cl" "h a = Some ca" "nx cl' = nx ca" "distinct (as @ l # a # bs)"
  shows "seg (h(l \<mapsto> cl', a := None)) nx p (as @ l # bs) None"
proof -
  have "seg h nx p as (Some l)" using assms(1) by (auto simp: seg_append)
  moreover have "seg h nx (nx ca) bs None" using assms(2,4) by auto
  ultimately show ?thesis using assms by (auto simp: seg_append)
qed

end
