(* ===== verification/IoMan.thy ===== *)
theory IoMan
  imports Linked_List
begin

text \<open>
  The I/O manager, \<open>src/ioman.c\<close>: handlers are registered for request types, clients append
  requests to a linked list and a worker thread takes them off the front and runs their handlers.

  The list is the C one: cells in a heap, \<open>gReqList\<close> the first and \<open>gReqEnd\<close> the last; \<open>malloc\<close>'s
  answer is an argument of the operation that calls it.  The semaphores are counters; an operation
  that waits on a semaphore is the code up to that wait and a step that is enabled when the counter
  is positive.  Loops over the list are \<open>partial_function\<close>s, and the lemmas prove that they return.
\<close>

section \<open>State\<close>

abbreviation IO_OK :: int where "IO_OK \<equiv> 0"
abbreviation IO_ERR_TOO_MANY_HANDLERS :: int where "IO_ERR_TOO_MANY_HANDLERS \<equiv> -2"
abbreviation IO_ERR_DUPLICIT_HANDLER :: int where "IO_ERR_DUPLICIT_HANDLER \<equiv> -3"
abbreviation IO_ERR_INVALID_HANDLER :: int where "IO_ERR_INVALID_HANDLER \<equiv> -4"
abbreviation IO_ERR_IO_BLOCKED :: int where "IO_ERR_IO_BLOCKED \<equiv> -5"
abbreviation MAX_IO_HANDLERS :: nat where "MAX_IO_HANDLERS \<equiv> 64"
abbreviation IO_CUSTOM_SIMPLEACTION :: int where "IO_CUSTOM_SIMPLEACTION \<equiv> 1"
abbreviation IO_MENU_UPDATE_DEFFERED :: int where "IO_MENU_UPDATE_DEFFERED \<equiv> 2"
abbreviation IO_COMPAT_UPDATE_DEFFERED :: int where "IO_COMPAT_UPDATE_DEFFERED \<equiv> 4"

record io_request =
  rq_type :: int
  rq_data :: nat
  rq_next :: "addr option"

record io_handler =
  ih_type :: int
  ih_handler :: nat

record io_state =
  io_heap :: "io_request heap"
  gReqList :: "addr option"
  gReqEnd :: "addr option"
  gRequestHandlers :: "io_handler list"
  gProcSema :: nat
  gEndSema :: nat
  gIOTerminate :: bool
  isIOBlocked :: bool
  isIORunning :: bool
  io_wakeups :: nat

section \<open>Operations\<close>

subsection \<open>Handlers\<close>

text \<open>The part of \<open>ioRegisterHandler\<close> after \<open>WaitSema (gProcSemaId)\<close>, which has taken the
  semaphore; the error paths return without giving it back.\<close>

definition ioRegisterHandler :: "io_state \<Rightarrow> int \<Rightarrow> nat option \<Rightarrow> int \<times> io_state" where
  "ioRegisterHandler s ty handler =
     (case handler of
        None \<Rightarrow> (IO_ERR_INVALID_HANDLER, s)
      | Some h \<Rightarrow>
          if MAX_IO_HANDLERS \<le> length (gRequestHandlers s) then (IO_ERR_TOO_MANY_HANDLERS, s)
          else if list_ex (\<lambda>g. ih_type g = ty) (gRequestHandlers s) then (IO_ERR_DUPLICIT_HANDLER, s)
          else (IO_OK, s\<lparr>gRequestHandlers := gRequestHandlers s @ [\<lparr>ih_type = ty, ih_handler = h\<rparr>],
                         gProcSema := gProcSema s + 1\<rparr>))"

fun find_handler :: "io_handler list \<Rightarrow> int \<Rightarrow> nat option" where
  "find_handler [] ty = None"
| "find_handler (g # gs) ty = (if ih_type g = ty then Some (ih_handler g) else find_handler gs ty)"

definition ioGetHandler :: "io_state \<Rightarrow> int \<Rightarrow> nat option" where
  "ioGetHandler s ty = find_handler (gRequestHandlers s) ty"

text \<open>The handler call that \<open>ioProcessRequest\<close> makes for a request: the handler and its argument.\<close>

definition ioProcessRequest :: "io_state \<Rightarrow> addr option \<Rightarrow> ((nat \<times> nat) option) cres" where
  "ioProcessRequest s req =
     (case req of
        None \<Rightarrow> Inr None
      | Some _ \<Rightarrow>
          c_bind (load (io_heap s) req) (\<lambda>r.
            Inr (map_option (\<lambda>h. (h, rq_data r)) (ioGetHandler s (rq_type r)))))"

subsection \<open>Adding a request\<close>

text \<open>The scan for a deferred update of the same kind that is already queued.\<close>

partial_function (option) find_request ::
  "io_request heap \<Rightarrow> int \<Rightarrow> nat \<Rightarrow> addr option \<Rightarrow> (bool cres) option" where
  "find_request h ty data cur =
     (case cur of
        None \<Rightarrow> Some (Inr False)
      | Some a \<Rightarrow>
          (case load h cur of
             Inl e \<Rightarrow> Some (Inl e)
           | Inr r \<Rightarrow> if rq_type r = ty \<and> rq_data r = data then Some (Inr True)
                     else find_request h ty data (rq_next r)))"

text \<open>Linking the cell that \<open>malloc\<close> returned behind the last one and filling it.\<close>

definition link_request :: "addr option \<Rightarrow> io_state \<Rightarrow> int \<Rightarrow> nat \<Rightarrow> io_state cres" where
  "link_request new s ty data =
     (case gReqEnd s of
        None \<Rightarrow>
          (case new of
             None \<Rightarrow> Inl NullDeref
           | Some a \<Rightarrow> Inr (s\<lparr>gReqList := Some a, gReqEnd := Some a,
                io_heap := (io_heap s)(a \<mapsto> \<lparr>rq_type = ty, rq_data = data, rq_next = None\<rparr>)\<rparr>))
      | Some e \<Rightarrow>
          c_bind (load (io_heap s) (Some e)) (\<lambda>last.
            case new of
              None \<Rightarrow> Inl NullDeref
            | Some a \<Rightarrow> Inr (s\<lparr>gReqEnd := Some a,
                 io_heap := (io_heap s)(e \<mapsto> last\<lparr>rq_next := Some a\<rparr>,
                                        a \<mapsto> \<lparr>rq_type = ty, rq_data = data, rq_next = None\<rparr>)\<rparr>)))"

text \<open>The guards of \<open>ioPutRequest\<close> before it waits for the queue end.\<close>

definition ioPutRequest_check :: "io_state \<Rightarrow> int \<Rightarrow> int" where
  "ioPutRequest_check s ty =
     (if isIOBlocked s then IO_ERR_IO_BLOCKED
      else if ioGetHandler s ty = None then IO_ERR_INVALID_HANDLER
      else IO_OK)"

definition is_deferred :: "int \<Rightarrow> bool" where
  "is_deferred ty \<longleftrightarrow> ty = IO_MENU_UPDATE_DEFFERED \<or> ty = IO_COMPAT_UPDATE_DEFFERED"

text \<open>The critical section: between taking and giving back the queue end, then the wake-up.  The
  second component says whether the request was queued or found to be there already.\<close>

definition ioPutRequest_locked ::
  "addr option \<Rightarrow> io_state \<Rightarrow> int \<Rightarrow> nat \<Rightarrow> ((io_state \<times> bool) cres) option" where
  "ioPutRequest_locked new s ty data =
     (case (if is_deferred ty then find_request (io_heap s) ty data (gReqList s) else Some (Inr False)) of
        None \<Rightarrow> None
      | Some dup \<Rightarrow> Some (c_bind dup (\<lambda>d.
          if d then Inr (s, False)
          else c_bind (link_request new s ty data) (\<lambda>s'.
                 Inr (s'\<lparr>io_wakeups := io_wakeups s' + 1\<rparr>, True)))))"

subsection \<open>Removing requests\<close>

text \<open>The loop of \<open>ioRemoveRequests\<close>: \<open>prev\<close> is the cell kept before \<open>req\<close>.\<close>

definition remove_one :: "io_state \<Rightarrow> addr option \<Rightarrow> addr \<Rightarrow> io_request \<Rightarrow> io_state cres" where
  "remove_one s prev a r =
     c_bind (case prev of
               None \<Rightarrow> Inr s
             | Some l \<Rightarrow> c_bind (load (io_heap s) prev) (\<lambda>c.
                 Inr (s\<lparr>io_heap := (io_heap s)(l \<mapsto> c\<lparr>rq_next := rq_next r\<rparr>)\<rparr>)))
       (\<lambda>s1. Inr (s1\<lparr>gReqList := (if gReqList s1 = Some a then rq_next r else gReqList s1),
                     gReqEnd := (if gReqEnd s1 = Some a then prev else gReqEnd s1),
                     io_heap := (io_heap s1)(a := None)\<rparr>))"

partial_function (option) remove_loop ::
  "int \<Rightarrow> io_state \<Rightarrow> addr option \<Rightarrow> addr option \<Rightarrow> int \<Rightarrow> ((int \<times> io_state) cres) option" where
  "remove_loop ty s prev req count =
     (case req of
        None \<Rightarrow> Some (Inr (count, s))
      | Some a \<Rightarrow>
          (case load (io_heap s) req of
             Inl e \<Rightarrow> Some (Inl e)
           | Inr r \<Rightarrow>
               if rq_type r = ty then
                 (case remove_one s prev a r of
                    Inl e \<Rightarrow> Some (Inl e)
                  | Inr s1 \<Rightarrow> remove_loop ty s1 prev (rq_next r) (count + 1))
               else remove_loop ty s req (rq_next r) count))"

text \<open>\<open>ioRemoveRequests\<close> with both semaphores taken.\<close>

definition ioRemoveRequests_locked :: "io_state \<Rightarrow> int \<Rightarrow> ((int \<times> io_state) cres) option" where
  "ioRemoveRequests_locked s ty = remove_loop ty s None (gReqList s) 0"

subsection \<open>Counting, blocking, starting and ending\<close>

text \<open>\<open>ioGetPendingRequestCount\<close> reads \<open>gReqList\<close> before it waits for the semaphore; \<open>req\<close> is what
  it read.\<close>

partial_function (option) count_loop :: "io_request heap \<Rightarrow> addr option \<Rightarrow> int \<Rightarrow> (int cres) option" where
  "count_loop h req count =
     (case req of
        None \<Rightarrow> Some (Inr count)
      | Some a \<Rightarrow>
          (case load h req of
             Inl e \<Rightarrow> Some (Inl e)
           | Inr r \<Rightarrow> count_loop h (rq_next r) (count + 1)))"

definition ioGetPendingRequestCount_locked :: "io_state \<Rightarrow> addr option \<Rightarrow> (int cres) option" where
  "ioGetPendingRequestCount_locked s req = count_loop (io_heap s) req 0"

definition ioHasPendingRequests :: "io_state \<Rightarrow> bool" where
  "ioHasPendingRequests s \<longleftrightarrow> gReqList s \<noteq> None"

text \<open>\<open>ioBlockOps\<close> up to the loop that waits for the queue to drain; whether it enters that loop.\<close>

definition ioBlockOps :: "bool \<Rightarrow> io_state \<Rightarrow> bool \<times> io_state" where
  "ioBlockOps block s =
     (if block \<and> \<not> isIOBlocked s then (True, s\<lparr>isIOBlocked := True\<rparr>)
      else if \<not> block \<and> isIOBlocked s then (False, s\<lparr>isIOBlocked := False\<rparr>)
      else (False, s))"

definition ioEnd :: "io_state \<Rightarrow> io_state" where
  "ioEnd s = s\<lparr>gIOTerminate := True, io_wakeups := io_wakeups s + 1\<rparr>"

text \<open>\<open>ioInit\<close>: the flags and the queue are reset, the semaphores created with one unit, and the
  handler of simple actions registered.\<close>

definition ioInit :: "nat \<Rightarrow> io_state \<Rightarrow> io_state" where
  "ioInit simple_action s =
     (let s0 = s\<lparr>gIOTerminate := False, gRequestHandlers := [], gReqList := None, gReqEnd := None,
                gProcSema := 1, gEndSema := 1\<rparr>;
          s1 = snd (ioRegisterHandler (s0\<lparr>gProcSema := gProcSema s0 - 1\<rparr>) IO_CUSTOM_SIMPLEACTION (Some simple_action))
      in s1\<lparr>isIORunning := True\<rparr>)"

subsection \<open>The worker's pieces\<close>

text \<open>With the queue end taken: unlink and free the request that was processed.\<close>

definition finish_request :: "io_state \<Rightarrow> addr \<Rightarrow> io_state cres" where
  "finish_request s a =
     c_bind (load (io_heap s) (Some a)) (\<lambda>r.
       let s1 = s\<lparr>gReqList := rq_next r, io_heap := (io_heap s)(a := None)\<rparr>
       in Inr (if gReqList s1 = None then s1\<lparr>gReqEnd := None\<rparr> else s1))"

text \<open>The loop after the termination flag: free what is still queued.\<close>

partial_function (option) free_pending :: "io_state \<Rightarrow> (io_state cres) option" where
  "free_pending s =
     (case gReqList s of
        None \<Rightarrow> Some (Inr s)
      | Some a \<Rightarrow>
          (case load (io_heap s) (Some a) of
             Inl e \<Rightarrow> Some (Inl e)
           | Inr r \<Rightarrow> free_pending (s\<lparr>gReqList := rq_next r, io_heap := (io_heap s)(a := None)\<rparr>)))"

declare find_request.simps [code] remove_loop.simps [code] count_loop.simps [code] free_pending.simps [code]

section \<open>Invariant and abstraction\<close>

text \<open>The cells of the queue are the chain from \<open>gReqList\<close>, \<open>gReqEnd\<close> is its last cell, and nothing
  else is allocated: no request is leaked and none is freed while it is linked.\<close>

definition io_inv :: "io_state \<Rightarrow> addr list \<Rightarrow> bool" where
  "io_inv s as \<longleftrightarrow> chain (io_heap s) rq_next (gReqList s) as \<and>
     gReqEnd s = (if as = [] then None else Some (last as)) \<and> dom (io_heap s) = set as"

definition reqs :: "io_request heap \<Rightarrow> addr list \<Rightarrow> (int \<times> nat) list" where
  "reqs h as = map (\<lambda>a. (rq_type (the (h a)), rq_data (the (h a)))) as"

definition io_queue :: "io_state \<Rightarrow> (int \<times> nat) list \<Rightarrow> bool" where
  "io_queue s q \<longleftrightarrow> (\<exists>as. io_inv s as \<and> q = reqs (io_heap s) as)"

text \<open>Two states that differ in the queue only.\<close>

definition same_ctl :: "io_state \<Rightarrow> io_state \<Rightarrow> bool" where
  "same_ctl s s' \<longleftrightarrow> gRequestHandlers s' = gRequestHandlers s \<and> gProcSema s' = gProcSema s \<and>
     gEndSema s' = gEndSema s \<and> gIOTerminate s' = gIOTerminate s \<and> isIOBlocked s' = isIOBlocked s \<and>
     isIORunning s' = isIORunning s \<and> io_wakeups s' = io_wakeups s"

section \<open>Lemmas on the queue\<close>

lemma reqs_simps [simp]:
  "reqs h [] = []" "reqs h (a # as) = (rq_type (the (h a)), rq_data (the (h a))) # reqs h as"
  "reqs h (as @ bs) = reqs h as @ reqs h bs"
  by (simp_all add: reqs_def)

lemma reqs_fun_upd [simp]: "a \<notin> set as \<Longrightarrow> reqs (h(a := x)) as = reqs h as"
  by (induction as) auto

lemma reqs_next [simp]: "h a = Some r \<Longrightarrow> reqs (h(a \<mapsto> r\<lparr>rq_next := n\<rparr>)) as = reqs h as"
  by (induction as) auto

lemma io_inv_distinct: "io_inv s as \<Longrightarrow> distinct as"
  unfolding io_inv_def using chain_distinct by blast

lemma find_request_chain:
  "chain h rq_next p as \<Longrightarrow> find_request h ty d p = Some (Inr ((ty, d) \<in> set (reqs h as)))"
proof (induction as arbitrary: p)
  case Nil
  then show ?case by (subst find_request.simps) simp
next
  case (Cons a as)
  then obtain r where "p = Some a" "h a = Some r" "chain h rq_next (rq_next r) as" by (auto simp: chain_Cons)
  with Cons.IH show ?case by (subst find_request.simps) auto
qed

lemma count_loop_chain:
  "chain h rq_next p as \<Longrightarrow> count_loop h p n = Some (Inr (n + int (length as)))"
proof (induction as arbitrary: p n)
  case Nil
  then show ?case by (subst count_loop.simps) simp
next
  case (Cons a as)
  then obtain r where "p = Some a" "h a = Some r" "chain h rq_next (rq_next r) as" by (auto simp: chain_Cons)
  with Cons.IH [of "rq_next r" "n + 1"] show ?case by (subst count_loop.simps) simp
qed

lemma link_request_ok:
  assumes "io_inv s as" "io_heap s a = None"
  shows "\<exists>s'. link_request (Some a) s ty d = Inr s' \<and> io_inv s' (as @ [a]) \<and> same_ctl s s' \<and>
    reqs (io_heap s') (as @ [a]) = reqs (io_heap s) as @ [(ty, d)]"
proof (cases "as = []")
  case True
  with assms show ?thesis by (simp add: link_request_def io_inv_def chain_Cons same_ctl_def)
next
  case False
  then obtain bs l where as: "as = bs @ [l]" by (metis append_butlast_last_id)
  have na: "a \<notin> set as" using assms by (auto simp: io_inv_def)
  obtain c where c: "io_heap s l = Some c" using assms(1) as by (auto simp: io_inv_def)
  let ?h = "(io_heap s)(l \<mapsto> c\<lparr>rq_next := Some a\<rparr>, a \<mapsto> \<lparr>rq_type = ty, rq_data = d, rq_next = None\<rparr>)"
  have "chain ?h rq_next (gReqList s) (bs @ [l, a])"
    using assms as c by (intro chain_snoc) (auto simp: io_inv_def)
  moreover have "dom ?h = set (as @ [a])" using assms(1) as by (auto simp: io_inv_def)
  moreover have "reqs ?h as = reqs (io_heap s) as" using na c by simp
  ultimately show ?thesis using assms c as na
    by (simp add: link_request_def io_inv_def same_ctl_def)
qed

lemma finish_request_ok:
  assumes "io_inv s (a # as)"
  shows "\<exists>s'. finish_request s a = Inr s' \<and> io_inv s' as \<and> same_ctl s s' \<and>
    reqs (io_heap s') as = tl (reqs (io_heap s) (a # as))"
proof -
  from assms obtain r where r: "io_heap s a = Some r" by (auto simp: io_inv_def chain_Cons)
  have c: "chain ((io_heap s)(a := None)) rq_next (rq_next r) as"
    using assms r by (intro chain_tl_free) (auto simp: io_inv_def)
  note d = io_inv_distinct [OF assms]
  have "rq_next r = None \<longleftrightarrow> as = []"
    using c by (cases as) (auto simp: chain_Cons chain_empty)
  with assms r c d show ?thesis
    by (auto simp: finish_request_def io_inv_def same_ctl_def Let_def)
qed

lemma free_pending_ok:
  "chain (io_heap s) rq_next (gReqList s) as \<Longrightarrow> dom (io_heap s) = set as \<Longrightarrow>
    \<exists>s'. free_pending s = Some (Inr s') \<and> io_heap s' = Map.empty \<and> gReqList s' = None"
proof (induction as arbitrary: s)
  case Nil
  then show ?case by (subst free_pending.simps) auto
next
  case (Cons a as)
  from Cons.prems(1) obtain r where r: "gReqList s = Some a" "io_heap s a = Some r" by (auto simp: chain_Cons)
  have "chain ((io_heap s)(a := None)) rq_next (rq_next r) as" using Cons.prems(1) r by (intro chain_tl_free) auto
  moreover have "dom ((io_heap s)(a := None)) = set as"
    using Cons.prems chain_distinct [OF Cons.prems(1)] by auto
  ultimately have "\<exists>s'. free_pending (s\<lparr>gReqList := rq_next r, io_heap := (io_heap s)(a := None)\<rparr>) = Some (Inr s') \<and>
      io_heap s' = Map.empty \<and> gReqList s' = None"
    by (intro Cons.IH) (simp_all add: fun_upd_def)
  with r show ?case by (subst free_pending.simps) simp
qed

text \<open>The removal loop, with the cells \<open>ks\<close> already kept.\<close>

lemma io_inv_split:
  "io_inv s (ks @ a # bs) \<Longrightarrow> \<exists>r. io_heap s a = Some r \<and> chain (io_heap s) rq_next (rq_next r) bs \<and>
     seg (io_heap s) rq_next (gReqList s) ks (Some a)"
  by (auto simp: io_inv_def chain_def seg_append split: option.splits)

lemma remove_one_ok:
  assumes "io_inv s (ks @ a # bs)" "io_heap s a = Some r"
    and prev: "prev = (if ks = [] then None else Some (last ks))"
  shows "\<exists>s'. remove_one s prev a r = Inr s' \<and> io_inv s' (ks @ bs) \<and> same_ctl s s' \<and>
    reqs (io_heap s') (ks @ bs) = reqs (io_heap s) (ks @ bs)"
proof -
  note d = io_inv_distinct [OF assms(1)]
  have n: "chain (io_heap s) rq_next (rq_next r) bs" and p: "seg (io_heap s) rq_next (gReqList s) ks (Some a)"
    using io_inv_split [OF assms(1)] assms(2) by auto
  have dom: "dom (io_heap s) = set (ks @ a # bs)" using assms(1) by (simp add: io_inv_def)
  have la: "bs \<noteq> [] \<Longrightarrow> last bs \<noteq> a" using d by (metis distinct.simps(2) distinct_append last_in_set)
  show ?thesis
  proof (cases "ks = []")
    case True
    with assms d n dom la show ?thesis
      by (auto simp: remove_one_def io_inv_def same_ctl_def chain_def)
  next
    case False
    then obtain js l where ks: "ks = js @ [l]" by (metis append_butlast_last_id)
    obtain c where c: "io_heap s l = Some c" using dom ks by auto
    let ?h = "(io_heap s)(l \<mapsto> c\<lparr>rq_next := rq_next r\<rparr>, a := None)"
    have "seg ?h rq_next (gReqList s) (js @ l # bs) None"
      using p n ks c assms(2) d by (intro seg_unlink [of _ _ _ _ _ _ _ c r]) (auto simp: chain_def)
    moreover have "dom ?h = set (ks @ bs)" using dom d ks by auto
    moreover have "reqs ?h (ks @ bs) = reqs (io_heap s) (ks @ bs)"
      using d c by (subst reqs_fun_upd) auto
    moreover have "gReqList s \<noteq> Some a" using p ks d by (cases js) auto
    moreover have "gReqEnd s = Some (last (a # bs))" using assms(1) by (simp add: io_inv_def)
    ultimately show ?thesis using prev ks c la
      by (auto simp: remove_one_def io_inv_def same_ctl_def chain_def)
  qed
qed

lemma same_ctl_trans: "same_ctl s s1 \<Longrightarrow> same_ctl s1 s2 \<Longrightarrow> same_ctl s s2"
  and same_ctl_refl [simp]: "same_ctl s s"
  by (simp_all add: same_ctl_def)

lemma remove_loop_ok:
  "io_inv s (ks @ bs) \<Longrightarrow> prev = (if ks = [] then None else Some (last ks)) \<Longrightarrow>
   req = (if bs = [] then None else Some (hd bs)) \<Longrightarrow>
   \<exists>s' as'. remove_loop ty s prev req n =
       Some (Inr (n + int (length (filter (\<lambda>q. fst q = ty) (reqs (io_heap s) bs))), s')) \<and>
     io_inv s' as' \<and> same_ctl s s' \<and>
     reqs (io_heap s') as' = reqs (io_heap s) ks @ filter (\<lambda>q. fst q \<noteq> ty) (reqs (io_heap s) bs)"
proof (induction bs arbitrary: s ks prev req n)
  case Nil
  then show ?case by (subst remove_loop.simps) auto
next
  case (Cons a bs)
  obtain r where r: "io_heap s a = Some r" "chain (io_heap s) rq_next (rq_next r) bs"
    using io_inv_split [OF Cons.prems(1)] by auto
  have nx: "rq_next r = (if bs = [] then None else Some (hd bs))"
    using r(2) by (cases bs) (auto simp: chain_Cons)
  show ?case
  proof (cases "rq_type r = ty")
    case True
    obtain s1 where s1: "remove_one s prev a r = Inr s1" "io_inv s1 (ks @ bs)" "same_ctl s s1"
        "reqs (io_heap s1) (ks @ bs) = reqs (io_heap s) (ks @ bs)"
      using remove_one_ok [OF Cons.prems(1) r(1) Cons.prems(2)] by blast
    from s1(4) have "reqs (io_heap s1) ks = reqs (io_heap s) ks" "reqs (io_heap s1) bs = reqs (io_heap s) bs"
      by (simp_all add: reqs_def)
    moreover note Cons.IH [OF s1(2) Cons.prems(2) nx, of "n + 1"] 
    ultimately show ?thesis using s1 r True Cons.prems(3) same_ctl_trans [OF s1(3)]
      by (subst remove_loop.simps) (auto simp: algebra_simps)
  next
    case False
    have "io_inv s ((ks @ [a]) @ bs)" using Cons.prems(1) by simp
    note Cons.IH [OF this _ nx, of "Some a" n]
    with False r Cons.prems(3) show ?thesis by (subst remove_loop.simps) auto
  qed
qed

section \<open>The operations on the abstract queue\<close>

lemma io_inv_ctl [simp]:
  "io_inv (s\<lparr>gProcSema := n\<rparr>) as = io_inv s as" "io_inv (s\<lparr>gEndSema := n\<rparr>) as = io_inv s as"
  "io_inv (s\<lparr>gRequestHandlers := hs\<rparr>) as = io_inv s as" "io_inv (s\<lparr>gIOTerminate := b\<rparr>) as = io_inv s as"
  "io_inv (s\<lparr>isIOBlocked := b\<rparr>) as = io_inv s as" "io_inv (s\<lparr>io_wakeups := n\<rparr>) as = io_inv s as"
  "io_inv (s\<lparr>isIORunning := b\<rparr>) as = io_inv s as"
  by (simp_all add: io_inv_def)

lemma io_queue_ctl [simp]:
  "io_queue (s\<lparr>gProcSema := n\<rparr>) q = io_queue s q" "io_queue (s\<lparr>gEndSema := n\<rparr>) q = io_queue s q"
  "io_queue (s\<lparr>gRequestHandlers := hs\<rparr>) q = io_queue s q" "io_queue (s\<lparr>gIOTerminate := b\<rparr>) q = io_queue s q"
  "io_queue (s\<lparr>isIOBlocked := b\<rparr>) q = io_queue s q" "io_queue (s\<lparr>io_wakeups := n\<rparr>) q = io_queue s q"
  "io_queue (s\<lparr>isIORunning := b\<rparr>) q = io_queue s q"
  by (simp_all add: io_queue_def)

lemma io_queue_det: "io_queue s q \<Longrightarrow> io_queue s q' \<Longrightarrow> q = q'"
  unfolding io_queue_def io_inv_def chain_def using seg_det by metis

lemma io_queue_empty: "io_queue s q \<Longrightarrow> gReqList s = None \<longleftrightarrow> q = []"
  by (auto simp: io_queue_def io_inv_def chain_empty reqs_def)

lemma io_queue_head:
  "io_queue s q \<Longrightarrow> gReqList s = Some a \<Longrightarrow> \<exists>r q'. io_heap s a = Some r \<and> q = (rq_type r, rq_data r) # q'"
  by (auto simp: io_queue_def io_inv_def chain_Some)

lemma put_queue:
  assumes "io_queue s q" "io_heap s a = None"
  shows "\<exists>s' queued. ioPutRequest_locked (Some a) s ty d = Some (Inr (s', queued)) \<and>
    queued = (\<not> (is_deferred ty \<and> (ty, d) \<in> set q)) \<and>
    io_queue s' (if queued then q @ [(ty, d)] else q) \<and>
    (if queued then same_ctl (s\<lparr>io_wakeups := io_wakeups s + 1\<rparr>) s' else s' = s) \<and>
    (gReqList s \<noteq> None \<longrightarrow> gReqList s' = gReqList s)"
proof -
  from assms(1) obtain as where as: "io_inv s as" "q = reqs (io_heap s) as" by (auto simp: io_queue_def)
  then have f: "find_request (io_heap s) ty d (gReqList s) = Some (Inr ((ty, d) \<in> set q))"
    using find_request_chain by (auto simp: io_inv_def)
  obtain s1 where s1: "link_request (Some a) s ty d = Inr s1" "io_inv s1 (as @ [a])" "same_ctl s s1"
      "reqs (io_heap s1) (as @ [a]) = q @ [(ty, d)]"
    using link_request_ok [OF as(1) assms(2)] as(2) by blast
  have q: "io_queue s1 (q @ [(ty, d)])" using s1(2,4) by (metis io_queue_def)
  have "gReqList s1 = gReqList s" if "gReqList s \<noteq> None"
  proof -
    from that as(1) have "as \<noteq> []" by (auto simp: io_inv_def)
    with as(1) s1(1) show ?thesis
      by (auto simp: link_request_def io_inv_def c_bind_eq_Inr)
  qed
  with f q s1 assms(1) show ?thesis by (auto simp: ioPutRequest_locked_def same_ctl_def)
qed

text \<open>When \<open>malloc\<close> returns NULL, a request that is not there already is written through that pointer.\<close>

lemma put_no_memory:
  assumes "io_queue s q"
  shows "ioPutRequest_locked None s ty d = Some (if is_deferred ty \<and> (ty, d) \<in> set q then Inr (s, False) else Inl NullDeref)"
proof -
  from assms obtain as where as: "io_inv s as" "q = reqs (io_heap s) as" by (auto simp: io_queue_def)
  then have f: "find_request (io_heap s) ty d (gReqList s) = Some (Inr ((ty, d) \<in> set q))"
    using find_request_chain by (auto simp: io_inv_def)
  have "gReqEnd s = Some e \<Longrightarrow> \<exists>r. io_heap s e = Some r" for e using as(1) by (auto simp: io_inv_def split: if_splits)
  then have "link_request None s ty d = Inl NullDeref" by (cases "gReqEnd s") (auto simp: link_request_def load_def)
  with f show ?thesis by (simp add: ioPutRequest_locked_def)
qed

lemma remove_queue:
  assumes "io_queue s q"
  shows "\<exists>s'. ioRemoveRequests_locked s ty = Some (Inr (int (length (filter (\<lambda>r. fst r = ty) q)), s')) \<and>
    io_queue s' (filter (\<lambda>r. fst r \<noteq> ty) q) \<and> same_ctl s s'"
proof -
  from assms obtain as where as: "io_inv s ([] @ as)" "q = reqs (io_heap s) as" by (auto simp: io_queue_def)
  have "gReqList s = (if as = [] then None else Some (hd as))"
    using as(1) by (cases as) (auto simp: io_inv_def chain_Cons)
  from remove_loop_ok [OF as(1) _ this, of None ty 0] as(2) show ?thesis
    by (fastforce simp: ioRemoveRequests_locked_def io_queue_def)
qed

lemma finish_queue:
  assumes "io_queue s q" "gReqList s = Some a"
  shows "\<exists>s'. finish_request s a = Inr s' \<and> io_queue s' (tl q) \<and> same_ctl s s'"
proof -
  from assms obtain as where as: "io_inv s (a # as)" "q = reqs (io_heap s) (a # as)"
    by (auto simp: io_queue_def io_inv_def chain_Some)
  from finish_request_ok [OF as(1)] obtain s' where s': "finish_request s a = Inr s'" "io_inv s' as" "same_ctl s s'"
      "reqs (io_heap s') as = tl q" unfolding as(2) by blast
  then have "io_queue s' (tl q)" by (metis io_queue_def)
  with s' show ?thesis by blast
qed

lemma free_queue: "io_queue s q \<Longrightarrow> \<exists>s'. free_pending s = Some (Inr s') \<and> io_heap s' = Map.empty"
  unfolding io_queue_def io_inv_def using free_pending_ok by blast

lemma process_queue:
  assumes "io_queue s q" "gReqList s = Some a"
  shows "\<exists>call. ioProcessRequest s (Some a) = Inr call \<and> map_option fst call = ioGetHandler s (fst (hd q))"
  using io_queue_head [OF assms] by (auto simp: ioProcessRequest_def option.map_comp o_def option.map_ident)

lemma ioGetHandler_same_ctl: "same_ctl s s' \<Longrightarrow> ioGetHandler s' = ioGetHandler s"
  by (auto simp: same_ctl_def ioGetHandler_def)

lemma find_handler_append: "find_handler gs ty = Some h \<Longrightarrow> find_handler (gs @ gs') ty = Some h"
  by (induction gs) auto

lemma ioRegisterHandler_keeps:
  assumes "ioGetHandler s t \<noteq> None"
  shows "ioGetHandler (snd (ioRegisterHandler s ty h)) t \<noteq> None"
  using assms find_handler_append
  by (fastforce simp: ioRegisterHandler_def ioGetHandler_def split: option.splits)

end
