(* ===== verification/Refinement.thy ===== *)
theory Refinement
  imports CPrelude
begin

text \<open>
  Runs of an executable transition function and their refinement of a specification automaton.
  \<open>step s act\<close> is the transition the scheduling choice \<open>act\<close> makes in state \<open>s\<close>: the events it shows
  and the next state, or \<open>None\<close> when the choice is not enabled.  \<open>spec q ev\<close> is the specification's
  transition for an event, \<open>None\<close> when it forbids the event.
\<close>

inductive runs :: "('s \<Rightarrow> 'act \<Rightarrow> ('ev list \<times> 's) option) \<Rightarrow> 's \<Rightarrow> 'ev list \<Rightarrow> 's \<Rightarrow> bool"
  for step s0 where
  run_init: "runs step s0 [] s0"
| run_step: "runs step s0 tr s \<Longrightarrow> step s act = Some (evs, s') \<Longrightarrow> runs step s0 (tr @ evs) s'"

fun run_acts :: "('s \<Rightarrow> 'act \<Rightarrow> ('ev list \<times> 's) option) \<Rightarrow> 's \<Rightarrow> 'act list \<Rightarrow> ('ev list \<times> 's) option" where
  "run_acts step s [] = Some ([], s)"
| "run_acts step s (act # acts) =
     (case step s act of
        None \<Rightarrow> None
      | Some (evs, s') \<Rightarrow>
          (case run_acts step s' acts of None \<Rightarrow> None | Some (tr, s'') \<Rightarrow> Some (evs @ tr, s'')))"

fun spec_trace :: "('q \<Rightarrow> 'ev \<Rightarrow> 'q option) \<Rightarrow> 'q \<Rightarrow> 'ev list \<Rightarrow> 'q option" where
  "spec_trace spec q [] = Some q"
| "spec_trace spec q (e # es) = (case spec q e of None \<Rightarrow> None | Some q' \<Rightarrow> spec_trace spec q' es)"

lemma spec_trace_append:
  "spec_trace spec q (es @ fs) = (case spec_trace spec q es of None \<Rightarrow> None | Some q' \<Rightarrow> spec_trace spec q' fs)"
  by (induction es arbitrary: q) (auto split: option.splits)

lemma runs_acts:
  "runs step s0 tr s \<Longrightarrow> run_acts step s acts = Some (tr', s') \<Longrightarrow> runs step s0 (tr @ tr') s'"
proof (induction acts arbitrary: tr s tr')
  case (Cons act acts)
  then obtain evs s1 tr1 where s: "step s act = Some (evs, s1)" "run_acts step s1 acts = Some (tr1, s')"
    and "tr' = evs @ tr1" by (auto split: option.splits prod.splits)
  with Cons.IH [OF run_step [OF Cons.prems(1) s(1)]] show ?case by simp
qed (simp)

lemma run_actsD: "run_acts step s acts = Some (tr, s') \<Longrightarrow> runs step s tr s'"
  using runs_acts [OF run_init] by fastforce

text \<open>A simulation relation: every enabled transition is one of the specification's.\<close>

locale trace_refinement =
  fixes step :: "'s \<Rightarrow> 'act \<Rightarrow> ('ev list \<times> 's) option"
    and spec :: "'q \<Rightarrow> 'ev \<Rightarrow> 'q option"
    and sim :: "'s \<Rightarrow> 'q \<Rightarrow> bool"
  assumes step_sim:
    "sim s q \<Longrightarrow> step s act = Some (evs, s') \<Longrightarrow> \<exists>q'. spec_trace spec q evs = Some q' \<and> sim s' q'"
begin

lemma run_sim: "runs step s0 tr s \<Longrightarrow> sim s0 q0 \<Longrightarrow> \<exists>q. spec_trace spec q0 tr = Some q \<and> sim s q"
proof (induction rule: runs.induct)
  case run_init
  then show ?case by simp
next
  case (run_step tr s act evs s')
  then show ?case using step_sim by (fastforce simp: spec_trace_append)
qed

text \<open>Whatever the specification keeps on its traces, the system keeps on its runs.\<close>

lemma run_invariant:
  assumes "runs step s0 tr s" "sim s0 q0"
    and keeps: "\<And>q e q'. P q \<Longrightarrow> spec q e = Some q' \<Longrightarrow> P q'" and "P q0"
  shows "\<exists>q. sim s q \<and> P q"
proof -
  have tr: "spec_trace spec q es = Some q' \<Longrightarrow> P q \<Longrightarrow> P q'" for q es q'
  proof (induction es arbitrary: q)
    case (Cons e es)
    then show ?case using keeps by (fastforce split: option.splits)
  qed simp
  from run_sim [OF assms(1,2)] tr \<open>P q0\<close> show ?thesis by blast
qed

end

end
