(* ===== verification/IoSystem.thy ===== *)
theory IoSystem
  imports IoMan Refinement
begin

text \<open>
  The I/O manager as a concurrent system: the worker thread of \<open>src/ioman.c\<close> and any number of
  client threads that call its functions.  A step runs one thread from one semaphore operation to the
  next, which is where the EE kernel, which does not slice time, may switch threads; a scheduling
  choice is an \<open>io_action\<close>, so that a run is a list of actions and can be evaluated.  A thread that
  has taken a semaphore is at a program point of its own, hence mutual exclusion is a theorem about
  the counters and not built in.  The model of a run ends when the worker has left its thread
  function and deleted the semaphores.
\<close>

section \<open>Threads\<close>

text \<open>Program points of \<open>ioWorkerThread\<close>: the head of the outer loop, \<open>SleepThread\<close>, the wait for
  \<open>gProcSemaId\<close>, the head of the inner loop, the handler call with the following wait for
  \<open>gEndSemaId\<close>, the unlinking, the code behind the loop and the end.\<close>

datatype worker_pc = WTop | WSleep | WLock | WLoop | WCall addr | WUnlink addr | WExit | WDone

text \<open>What a client thread does: nothing, waiting in \<open>ioRegisterHandler\<close>, waiting and inside the
  critical section of \<open>ioPutRequest\<close>, waiting for the first and for the second semaphore and inside
  the critical section of \<open>ioRemoveRequests\<close>, waiting in \<open>ioGetPendingRequestCount\<close> with the pointer
  it has read, spinning in \<open>ioBlockOps\<close>, and stopped where it has written through NULL.\<close>

datatype client_pc =
  CIdle | CReg int "nat option" | CPut int nat | CPutIn int nat | CRem int | CRemEnd int | CRemIn int |
  CCount "addr option" | CDrain | CFaulted

datatype io_call = Register int "nat option" | Put int nat | Remove int | Count | Block bool | End

datatype io_action = Worker | Call nat io_call | Go nat "addr option"

datatype io_event =
  EvAccept "int \<times> nat" | EvDup "int \<times> nat" | EvRemove int int | EvDispatch "int \<times> nat" "nat option" |
  EvFinish | EvCount int | EvCountFault c_fault | EvDrained | EvNoMemory |
  EvFault c_fault

record io_sys =
  sys_io :: io_state
  sys_worker :: worker_pc
  sys_client :: "nat \<Rightarrow> client_pc"

text \<open>A step of the worker; \<open>None\<close> when it is blocked.\<close>

definition ioWorkerThread :: "io_sys \<Rightarrow> (io_event list \<times> io_sys) option" where
  "ioWorkerThread \<sigma> =
     (let s = sys_io \<sigma>;
          goto = (\<lambda>pc s'. Some ([], \<sigma>\<lparr>sys_worker := pc, sys_io := s'\<rparr>))
      in case sys_worker \<sigma> of
        WTop \<Rightarrow> if gIOTerminate s then goto WExit s else goto WSleep s
      | WSleep \<Rightarrow>
          if io_wakeups s = 0 then None
          else goto (if gIOTerminate s then WExit else WLock) (s\<lparr>io_wakeups := io_wakeups s - 1\<rparr>)
      | WLock \<Rightarrow>
          if gProcSema s = 0 then None else goto WLoop (s\<lparr>gProcSema := gProcSema s - 1\<rparr>)
      | WLoop \<Rightarrow>
          (case gReqList s of
             None \<Rightarrow> goto WTop (s\<lparr>gProcSema := gProcSema s + 1\<rparr>)
           | Some a \<Rightarrow>
               if gIOTerminate s then goto WTop (s\<lparr>gProcSema := gProcSema s + 1\<rparr>)
               else (case ioProcessRequest s (Some a) of
                       Inl e \<Rightarrow> Some ([EvFault e], \<sigma>)
                     | Inr call \<Rightarrow>
                         let r = the (io_heap s a)
                         in Some ([EvDispatch (rq_type r, rq_data r) (map_option fst call)],
                                  \<sigma>\<lparr>sys_worker := WCall a\<rparr>)))
      | WCall a \<Rightarrow>
          if gEndSema s = 0 then None else goto (WUnlink a) (s\<lparr>gEndSema := gEndSema s - 1\<rparr>)
      | WUnlink a \<Rightarrow>
          (case finish_request s a of
             Inl e \<Rightarrow> Some ([EvFault e], \<sigma>)
           | Inr s' \<Rightarrow> Some ([EvFinish], \<sigma>\<lparr>sys_worker := WLoop, sys_io := s'\<lparr>gEndSema := gEndSema s' + 1\<rparr>\<rparr>))
      | WExit \<Rightarrow>
          (case free_pending s of
             None \<Rightarrow> None
           | Some (Inl e) \<Rightarrow> Some ([EvFault e], \<sigma>)
           | Some (Inr s') \<Rightarrow> goto WDone (s'\<lparr>isIORunning := False\<rparr>))
      | WDone \<Rightarrow> None)"

text \<open>A client's call up to its first wait.\<close>

definition client_call :: "io_sys \<Rightarrow> nat \<Rightarrow> io_call \<Rightarrow> (io_event list \<times> io_sys) option" where
  "client_call \<sigma> c call =
     (let s = sys_io \<sigma>;
          goto = (\<lambda>pc s'. Some ([], \<sigma>\<lparr>sys_client := (sys_client \<sigma>)(c := pc), sys_io := s'\<rparr>))
      in if sys_client \<sigma> c \<noteq> CIdle then None
         else case call of
           Register ty h \<Rightarrow> goto (CReg ty h) s
         | Put ty d \<Rightarrow> if ioPutRequest_check s ty = IO_OK then goto (CPut ty d) s else goto CIdle s
         | Remove ty \<Rightarrow> goto (CRem ty) s
         | Count \<Rightarrow> goto (CCount (gReqList s)) s
         | Block b \<Rightarrow> (case ioBlockOps b s of (drain, s') \<Rightarrow> goto (if drain then CDrain else CIdle) s')
         | End \<Rightarrow> goto CIdle (ioEnd s))"

text \<open>A client's code from one wait to the next; \<open>new\<close> is what \<open>malloc\<close> returns, an
  address that is not in use or NULL, which the code does not check for.\<close>

definition client_go :: "io_sys \<Rightarrow> nat \<Rightarrow> addr option \<Rightarrow> (io_event list \<times> io_sys) option" where
  "client_go \<sigma> c new =
     (let s = sys_io \<sigma>;
          out = (\<lambda>evs pc s'. Some (evs, \<sigma>\<lparr>sys_client := (sys_client \<sigma>)(c := pc), sys_io := s'\<rparr>));
          fault = (\<lambda>e. Some ([EvFault e], \<sigma>))
      in case sys_client \<sigma> c of
        CIdle \<Rightarrow> None
      | CReg ty h \<Rightarrow>
          if gProcSema s = 0 then None
          else out [] CIdle (snd (ioRegisterHandler (s\<lparr>gProcSema := gProcSema s - 1\<rparr>) ty h))
      | CPut ty d \<Rightarrow>
          if gEndSema s = 0 then None else out [] (CPutIn ty d) (s\<lparr>gEndSema := gEndSema s - 1\<rparr>)
      | CPutIn ty d \<Rightarrow>
          if (case new of None \<Rightarrow> False | Some a \<Rightarrow> io_heap s a \<noteq> None) then None
          else (case ioPutRequest_locked new s ty d of
             None \<Rightarrow> None
           | Some (Inl e) \<Rightarrow> if new = None then out [EvNoMemory] CFaulted s else fault e
           | Some (Inr (s', queued)) \<Rightarrow>
               out [if queued then EvAccept (ty, d) else EvDup (ty, d)] CIdle (s'\<lparr>gEndSema := gEndSema s' + 1\<rparr>))
      | CRem ty \<Rightarrow>
          if gProcSema s = 0 then None else out [] (CRemEnd ty) (s\<lparr>gProcSema := gProcSema s - 1\<rparr>)
      | CRemEnd ty \<Rightarrow>
          if gEndSema s = 0 then None else out [] (CRemIn ty) (s\<lparr>gEndSema := gEndSema s - 1\<rparr>)
      | CRemIn ty \<Rightarrow>
          (case ioRemoveRequests_locked s ty of
             None \<Rightarrow> None
           | Some (Inl e) \<Rightarrow> fault e
           | Some (Inr (n, s')) \<Rightarrow>
               out [EvRemove ty n] CIdle (s'\<lparr>gEndSema := gEndSema s' + 1, gProcSema := gProcSema s' + 1\<rparr>))
      | CCount p \<Rightarrow>
          if gProcSema s = 0 then None
          else (case ioGetPendingRequestCount_locked s p of
             None \<Rightarrow> None
           | Some (Inl e) \<Rightarrow> out [EvCountFault e] CIdle s
           | Some (Inr n) \<Rightarrow> out [EvCount n] CIdle s)
      | CDrain \<Rightarrow> if ioHasPendingRequests s then None else out [EvDrained] CIdle s
      | CFaulted \<Rightarrow> None)"

definition io_next :: "io_sys \<Rightarrow> io_action \<Rightarrow> (io_event list \<times> io_sys) option" where
  "io_next \<sigma> act =
     (if sys_worker \<sigma> = WDone then None
      else case act of
        Worker \<Rightarrow> ioWorkerThread \<sigma>
      | Call c call \<Rightarrow> client_call \<sigma> c call
      | Go c new \<Rightarrow> client_go \<sigma> c new)"

text \<open>The system that \<open>ioInit\<close> starts.\<close>

definition io_start :: "nat \<Rightarrow> io_state \<Rightarrow> io_sys" where
  "io_start h s = \<lparr>sys_io = ioInit h s, sys_worker = WTop, sys_client = (\<lambda>_. CIdle)\<rparr>"

section \<open>Specification\<close>

text \<open>A queue with a flag for the request at its front being served.  \<open>None\<close>: the trace is not one of
  the specification.\<close>

fun spec_event :: "(int \<times> nat) list \<times> bool \<Rightarrow> io_event \<Rightarrow> ((int \<times> nat) list \<times> bool) option" where
  "spec_event (q, busy) (EvAccept r) = Some (q @ [r], busy)"
| "spec_event (q, busy) (EvDup r) = (if is_deferred (fst r) \<and> r \<in> set q then Some (q, busy) else None)"
| "spec_event (q, busy) (EvRemove ty n) =
     (if \<not> busy \<and> n = int (length (filter (\<lambda>r. fst r = ty) q))
      then Some (filter (\<lambda>r. fst r \<noteq> ty) q, busy) else None)"
| "spec_event (q, busy) (EvDispatch r h) =
     (case q of [] \<Rightarrow> None | r' # _ \<Rightarrow> if \<not> busy \<and> r' = r \<and> h \<noteq> None then Some (q, True) else None)"
| "spec_event (q, busy) EvFinish =
     (case q of [] \<Rightarrow> None | _ # q' \<Rightarrow> if busy then Some (q', False) else None)"
| "spec_event (q, busy) (EvCount n) = Some (q, busy)"
| "spec_event (q, busy) (EvCountFault e) = Some (q, busy)"
| "spec_event (q, busy) EvDrained = (if q = [] then Some (q, busy) else None)"
| "spec_event (q, busy) EvNoMemory = Some (q, busy)"
| "spec_event (q, busy) (EvFault e) = None"

section \<open>Simulation\<close>

text \<open>Who holds the semaphores.\<close>

fun worker_proc :: "worker_pc \<Rightarrow> bool" where
  "worker_proc WLoop = True" | "worker_proc (WCall a) = True" | "worker_proc (WUnlink a) = True"
| "worker_proc _ = False"

fun worker_end :: "worker_pc \<Rightarrow> bool" where
  "worker_end (WUnlink a) = True" | "worker_end _ = False"

fun client_proc :: "client_pc \<Rightarrow> bool" where
  "client_proc (CRemEnd ty) = True" | "client_proc (CRemIn ty) = True" | "client_proc _ = False"

fun client_end :: "client_pc \<Rightarrow> bool" where
  "client_end (CPutIn ty d) = True" | "client_end (CRemIn ty) = True" | "client_end CFaulted = True" | "client_end _ = False"

fun worker_busy :: "worker_pc \<Rightarrow> addr option" where
  "worker_busy (WCall a) = Some a" | "worker_busy (WUnlink a) = Some a" | "worker_busy _ = None"

fun client_put :: "client_pc \<Rightarrow> int option" where
  "client_put (CPut ty d) = Some ty" | "client_put (CPutIn ty d) = Some ty" | "client_put _ = None"

text \<open>At most one thread holds a semaphore, and none while a unit of it is left.\<close>

definition excl :: "nat \<Rightarrow> bool \<Rightarrow> (nat \<Rightarrow> bool) \<Rightarrow> bool" where
  "excl v w cl \<longleftrightarrow> v \<le> 1 \<and> (v = 1 \<longrightarrow> \<not> w \<and> (\<forall>c. \<not> cl c)) \<and> (w \<longrightarrow> (\<forall>c. \<not> cl c)) \<and>
     (\<forall>c d. c \<noteq> d \<longrightarrow> \<not> (cl c \<and> cl d))"

definition io_sim :: "io_sys \<Rightarrow> (int \<times> nat) list \<times> bool \<Rightarrow> bool" where
  "io_sim \<sigma> st \<longleftrightarrow>
     (sys_worker \<sigma> \<noteq> WDone \<longrightarrow>
       (let s = sys_io \<sigma>; (q, busy) = st in
        io_queue s q \<and>
        (\<forall>r \<in> set q. ioGetHandler s (fst r) \<noteq> None) \<and>
        (\<forall>c ty. client_put (sys_client \<sigma> c) = Some ty \<longrightarrow> ioGetHandler s ty \<noteq> None) \<and>
        excl (gProcSema s) (worker_proc (sys_worker \<sigma>)) (client_proc \<circ> sys_client \<sigma>) \<and>
        excl (gEndSema s) (worker_end (sys_worker \<sigma>)) (client_end \<circ> sys_client \<sigma>) \<and>
        (busy \<longleftrightarrow> worker_busy (sys_worker \<sigma>) \<noteq> None) \<and>
        (\<forall>a. worker_busy (sys_worker \<sigma>) = Some a \<longrightarrow> gReqList s = Some a)))"

subsection \<open>Semaphores\<close>

lemma excl_take: "excl v w cl \<Longrightarrow> 0 < v \<Longrightarrow> excl (v - Suc 0) w (cl(c := True))"
  and excl_give: "excl v w cl \<Longrightarrow> cl c \<Longrightarrow> excl (Suc v) w (cl(c := False))"
  and excl_take_worker: "excl v w cl \<Longrightarrow> 0 < v \<Longrightarrow> excl (v - Suc 0) True cl"
  and excl_give_worker: "excl v True cl \<Longrightarrow> excl (Suc v) False cl"
  and excl_lose: "excl v w cl \<Longrightarrow> excl (v - Suc 0) w cl"
  by (auto simp: excl_def)

lemma excl_same: "cl c = b \<Longrightarrow> excl v w (cl(c := b)) = excl v w cl"
  by (simp add: fun_upd_idem)

lemmas excl_rules = excl_take excl_give excl_take_worker excl_give_worker excl_same

lemma ioGetHandler_ctl [simp]:
  "ioGetHandler (s\<lparr>gProcSema := n\<rparr>) ty = ioGetHandler s ty" "ioGetHandler (s\<lparr>gEndSema := n\<rparr>) ty = ioGetHandler s ty"
  "ioGetHandler (s\<lparr>gIOTerminate := b\<rparr>) ty = ioGetHandler s ty" "ioGetHandler (s\<lparr>isIOBlocked := b\<rparr>) ty = ioGetHandler s ty"
  "ioGetHandler (s\<lparr>io_wakeups := n\<rparr>) ty = ioGetHandler s ty" "ioGetHandler (s\<lparr>isIORunning := b\<rparr>) ty = ioGetHandler s ty"
  by (simp_all add: ioGetHandler_def)

lemma client_put_upd:
  "client_put (((sys_client \<sigma>)(c := pc)) d) = Some ty \<Longrightarrow> client_put pc = None \<or> client_put pc = client_put (sys_client \<sigma> c) \<Longrightarrow>
   client_put (sys_client \<sigma> d) = Some ty"
  by (auto split: if_splits)

subsection \<open>Every step is a step of the specification\<close>

lemma worker_sim:
  assumes R: "io_sim \<sigma> (q, busy)" and st: "ioWorkerThread \<sigma> = Some (evs, \<sigma>')"
  shows "\<exists>st'. spec_trace spec_event (q, busy) evs = Some st' \<and> io_sim \<sigma>' st'"
proof -
  let ?s = "sys_io \<sigma>"
  have nd: "sys_worker \<sigma> \<noteq> WDone" using st by (auto simp: ioWorkerThread_def)
  have q: "io_queue ?s q" using R nd by (simp add: io_sim_def Let_def)
  show ?thesis
  proof (cases "sys_worker \<sigma>")
    case WLoop
    show ?thesis
    proof (cases "gReqList ?s = None \<or> gIOTerminate ?s")
      case True
      with R st WLoop show ?thesis
        by (auto simp: ioWorkerThread_def io_sim_def Let_def excl_rules split: option.splits)
    next
      case False
      then obtain a where a: "gReqList ?s = Some a" by auto
      obtain call where call: "ioProcessRequest ?s (Some a) = Inr call"
          "map_option fst call = ioGetHandler ?s (fst (hd q))"
        using process_queue [OF q a] by blast
      obtain r q' where r: "io_heap ?s a = Some r" "q = (rq_type r, rq_data r) # q'"
        using io_queue_head [OF q a] by blast
      with R st WLoop a False call show ?thesis
        by (auto simp: ioWorkerThread_def io_sim_def Let_def excl_rules)
    qed
  next
    case (WUnlink a)
    then have a: "gReqList ?s = Some a" using R by (simp add: io_sim_def Let_def)
    obtain s' where s': "finish_request ?s a = Inr s'" "io_queue s' (tl q)" "same_ctl ?s s'"
      using finish_queue [OF q a] by blast
    have "q \<noteq> []" using a io_queue_empty [OF q] by simp
    then obtain r q' where "q = r # q'" by (cases q) auto
    with R st WUnlink s' show ?thesis
      by (auto simp: ioWorkerThread_def io_sim_def Let_def ioGetHandler_same_ctl)
        (auto simp: same_ctl_def excl_rules)
  next
    case WExit
    with free_queue [OF q] st show ?thesis
      by (auto simp: ioWorkerThread_def io_sim_def Let_def)
  qed (use R st nd in \<open>auto simp: ioWorkerThread_def io_sim_def Let_def excl_rules split: if_splits\<close>)
qed

lemma call_sim:
  assumes R: "io_sim \<sigma> (q, busy)" and st: "client_call \<sigma> c call = Some (evs, \<sigma>')"
  shows "\<exists>st'. spec_trace spec_event (q, busy) evs = Some st' \<and> io_sim \<sigma>' st'"
proof -
  have idle: "sys_client \<sigma> c = CIdle" using st by (auto simp: client_call_def Let_def split: if_splits)
  show ?thesis
  proof (cases call)
    case (Put ty d)
    with R st idle show ?thesis
      by (auto simp: client_call_def io_sim_def Let_def fun_upd_comp excl_same ioPutRequest_check_def
          split: if_splits)
  qed (use R st idle in \<open>auto simp: client_call_def io_sim_def Let_def fun_upd_comp excl_same ioBlockOps_def ioEnd_def
        split: if_splits prod.splits\<close>)
qed

lemma register_sema: "gProcSema (snd (ioRegisterHandler s ty h)) \<in> {gProcSema s, Suc (gProcSema s)}"
  and register_queue: "io_queue (snd (ioRegisterHandler s ty h)) q = io_queue s q"
  and register_same: "gReqList (snd (ioRegisterHandler s ty h)) = gReqList s" "gEndSema (snd (ioRegisterHandler s ty h)) = gEndSema s"
  by (auto simp: ioRegisterHandler_def split: option.splits)

lemma go_sim:
  assumes R: "io_sim \<sigma> (q, busy)" and nd: "sys_worker \<sigma> \<noteq> WDone"
    and st: "client_go \<sigma> c new = Some (evs, \<sigma>')"
  shows "\<exists>st'. spec_trace spec_event (q, busy) evs = Some st' \<and> io_sim \<sigma>' st'"
proof -
  let ?s = "sys_io \<sigma>"
  have q: "io_queue ?s q" using R nd by (simp add: io_sim_def Let_def)
  have x: "excl (gProcSema ?s) (worker_proc (sys_worker \<sigma>)) (client_proc \<circ> sys_client \<sigma>)"
      "excl (gEndSema ?s) (worker_end (sys_worker \<sigma>)) (client_end \<circ> sys_client \<sigma>)"
    using R nd by (simp_all add: io_sim_def Let_def)
  have hdl: "ioGetHandler ?s t \<noteq> None" if "client_put (sys_client \<sigma> c) = Some t" for t
    using R nd that by (auto simp: io_sim_def Let_def)
  note defs = client_go_def io_sim_def Let_def fun_upd_comp
  show ?thesis
  proof (cases "sys_client \<sigma> c")
    case (CReg ty h)
    let ?t = "snd (ioRegisterHandler (?s\<lparr>gProcSema := gProcSema ?s - 1\<rparr>) ty h)"
    have g: "gProcSema ?s \<noteq> 0" and \<sigma>': "\<sigma>' = \<sigma>\<lparr>sys_client := (sys_client \<sigma>)(c := CIdle), sys_io := ?t\<rparr>" "evs = []"
      using st CReg by (auto simp: client_go_def Let_def split: if_splits)
    have h: "ioGetHandler ?s t \<noteq> None \<Longrightarrow> ioGetHandler ?t t \<noteq> None" for t
      using ioRegisterHandler_keeps by (metis ioGetHandler_ctl(1))
    have "gProcSema ?t \<in> {gProcSema ?s - 1, gProcSema ?s}"
      using register_sema [of "?s\<lparr>gProcSema := gProcSema ?s - 1\<rparr>" ty h] g by auto
    with x(1) have "excl (gProcSema ?t) (worker_proc (sys_worker \<sigma>)) (client_proc \<circ> sys_client \<sigma>)"
      using excl_lose by auto
    with R nd q h CReg show ?thesis
      unfolding \<sigma>' by (auto simp: io_sim_def Let_def fun_upd_comp register_queue register_same excl_same simp del: not_None_eq)
  next
    case (CPutIn ty d)
    show ?thesis
    proof (cases new)
      case None
      have e: "excl (Suc (gEndSema ?s)) (worker_end (sys_worker \<sigma>)) ((client_end \<circ> sys_client \<sigma>)(c := False))"
        using R nd CPutIn by (intro excl_give) (auto simp: io_sim_def Let_def)
      show ?thesis
        using st R nd CPutIn e put_no_memory [OF q, of ty d] unfolding None
        by (auto simp: defs excl_same split: if_splits)
    next
    case (Some a0)
    with st CPutIn obtain a where a: "new = Some a" "io_heap ?s a = None"
      by (auto simp: defs split: if_splits)
    obtain s' queued where s': "ioPutRequest_locked (Some a) ?s ty d = Some (Inr (s', queued))"
        "queued = (\<not> (is_deferred ty \<and> (ty, d) \<in> set q))" "io_queue s' (if queued then q @ [(ty, d)] else q)"
        "if queued then same_ctl (?s\<lparr>io_wakeups := io_wakeups ?s + 1\<rparr>) s' else s' = ?s"
        "gReqList ?s \<noteq> None \<longrightarrow> gReqList s' = gReqList ?s"
      using put_queue [OF q a(2)] by blast
    have eq: "ioGetHandler s' t = ioGetHandler ?s t" "gProcSema s' = gProcSema ?s" "gEndSema s' = gEndSema ?s" for t
      using s'(4) by (auto simp: same_ctl_def ioGetHandler_def split: if_splits)
    have hd: "ioGetHandler ?s ty \<noteq> None" by (rule hdl) (simp add: CPutIn)
    have e: "excl (Suc (gEndSema ?s)) (worker_end (sys_worker \<sigma>)) ((client_end \<circ> sys_client \<sigma>)(c := False))"
      using R nd CPutIn by (intro excl_give) (auto simp: io_sim_def Let_def)
    from st CPutIn a s'(1) have \<sigma>': "\<sigma>' = \<sigma>\<lparr>sys_client := (sys_client \<sigma>)(c := CIdle), sys_io := s'\<lparr>gEndSema := gEndSema s' + 1\<rparr>\<rparr>"
        "evs = [if queued then EvAccept (ty, d) else EvDup (ty, d)]"
      by (auto simp: client_go_def Let_def)
    show ?thesis
      unfolding \<sigma>' using R nd s'(2,3,5) hd e eq CPutIn
      by (auto simp: io_sim_def Let_def fun_upd_comp excl_same)
    qed
  next
    case (CRemIn ty)
    obtain s' where s': "ioRemoveRequests_locked ?s ty = Some (Inr (int (length (filter (\<lambda>r. fst r = ty) q)), s'))"
        "io_queue s' (filter (\<lambda>r. fst r \<noteq> ty) q)" "same_ctl ?s s'"
      using remove_queue [OF q] by blast
    have "(client_proc \<circ> sys_client \<sigma>) c" using CRemIn by simp
    then have "\<not> worker_proc (sys_worker \<sigma>)" using x(1) unfolding excl_def by blast
    then have nb: "worker_busy (sys_worker \<sigma>) = None" by (cases "sys_worker \<sigma>") auto
    have eq: "ioGetHandler s' = ioGetHandler ?s" using s'(3) by (rule ioGetHandler_same_ctl)
    from s'(3) have eq2: "gProcSema s' = gProcSema ?s" "gEndSema s' = gEndSema ?s"
      by (simp_all add: same_ctl_def)
    have e: "excl (Suc (gEndSema ?s)) (worker_end (sys_worker \<sigma>)) ((client_end \<circ> sys_client \<sigma>)(c := False))"
        "excl (Suc (gProcSema ?s)) (worker_proc (sys_worker \<sigma>)) ((client_proc \<circ> sys_client \<sigma>)(c := False))"
      by (rule excl_give, rule x, simp add: CRemIn)+
    from st CRemIn s'(1) have \<sigma>': "\<sigma>' = \<sigma>\<lparr>sys_client := (sys_client \<sigma>)(c := CIdle),
          sys_io := s'\<lparr>gEndSema := gEndSema s' + 1, gProcSema := gProcSema s' + 1\<rparr>\<rparr>"
        "evs = [EvRemove ty (int (length (filter (\<lambda>r. fst r = ty) q)))]"
      by (simp_all add: client_go_def Let_def)
    have "\<not> busy" using R nd nb by (simp add: io_sim_def Let_def)
    then show ?thesis unfolding \<sigma>' using R nd s'(2) nb e eq eq2
      by (simp add: io_sim_def Let_def fun_upd_comp)
  next
    case (CCount p)
    with R nd st show ?thesis
      by (auto simp: defs excl_same split: if_splits option.splits sum.splits)
  next
    case CDrain
    with R nd st io_queue_empty [OF q] show ?thesis
      by (auto simp: defs excl_same ioHasPendingRequests_def split: if_splits)
  next
    case CIdle
    with st show ?thesis by (simp add: client_go_def Let_def)
  next
    case CFaulted
    with st show ?thesis by (simp add: client_go_def Let_def)
  next
    case (CPut ty d)
    with st have g: "0 < gEndSema ?s" and \<sigma>': "\<sigma>' = \<sigma>\<lparr>sys_client := (sys_client \<sigma>)(c := CPutIn ty d),
          sys_io := ?s\<lparr>gEndSema := gEndSema ?s - 1\<rparr>\<rparr>" "evs = []"
      by (auto simp: client_go_def Let_def split: if_splits)
    from x(2) g have "excl (gEndSema ?s - Suc 0) (worker_end (sys_worker \<sigma>)) ((client_end \<circ> sys_client \<sigma>)(c := True))"
      by (rule excl_take)
    moreover have "ioGetHandler ?s ty \<noteq> None" by (rule hdl) (simp add: CPut)
    ultimately show ?thesis unfolding \<sigma>' using R nd CPut
      by (simp add: io_sim_def Let_def fun_upd_comp excl_same)
  next
    case (CRem ty)
    with st have g: "0 < gProcSema ?s" and \<sigma>': "\<sigma>' = \<sigma>\<lparr>sys_client := (sys_client \<sigma>)(c := CRemEnd ty),
          sys_io := ?s\<lparr>gProcSema := gProcSema ?s - 1\<rparr>\<rparr>" "evs = []"
      by (auto simp: client_go_def Let_def split: if_splits)
    from x(1) g have "excl (gProcSema ?s - Suc 0) (worker_proc (sys_worker \<sigma>)) ((client_proc \<circ> sys_client \<sigma>)(c := True))"
      by (rule excl_take)
    then show ?thesis unfolding \<sigma>' using R nd CRem
      by (simp add: io_sim_def Let_def fun_upd_comp excl_same)
  next
    case (CRemEnd ty)
    with st have g: "0 < gEndSema ?s" and \<sigma>': "\<sigma>' = \<sigma>\<lparr>sys_client := (sys_client \<sigma>)(c := CRemIn ty),
          sys_io := ?s\<lparr>gEndSema := gEndSema ?s - 1\<rparr>\<rparr>" "evs = []"
      by (auto simp: client_go_def Let_def split: if_splits)
    from x(2) g have "excl (gEndSema ?s - Suc 0) (worker_end (sys_worker \<sigma>)) ((client_end \<circ> sys_client \<sigma>)(c := True))"
      by (rule excl_take)
    then show ?thesis unfolding \<sigma>' using R nd CRemEnd
      by (simp add: io_sim_def Let_def fun_upd_comp excl_same)
  qed
qed

interpretation io: trace_refinement io_next spec_event io_sim
proof
  fix \<sigma> \<sigma>' :: io_sys and st :: "(int \<times> nat) list \<times> bool" and act evs
  assume R: "io_sim \<sigma> st" and n: "io_next \<sigma> act = Some (evs, \<sigma>')"
  obtain q busy where [simp]: "st = (q, busy)" by (cases st)
  have nd: "sys_worker \<sigma> \<noteq> WDone" using n by (auto simp: io_next_def)
  with R n show "\<exists>q'. spec_trace spec_event st evs = Some q' \<and> io_sim \<sigma>' q'"
    using worker_sim call_sim go_sim by (cases act) (auto simp: io_next_def)
qed

lemma io_start_sim: "io_heap s = Map.empty \<Longrightarrow> io_sim (io_start h s) ([], False)"
  by (auto simp: io_sim_def io_start_def ioInit_def ioRegisterHandler_def Let_def io_queue_def io_inv_def excl_def)

section \<open>Consequences\<close>

definition accepted :: "io_event list \<Rightarrow> (int \<times> nat) list" where
  "accepted tr = concat (map (\<lambda>e. case e of EvAccept r \<Rightarrow> [r] | _ \<Rightarrow> []) tr)"

definition dispatched :: "io_event list \<Rightarrow> (int \<times> nat) list" where
  "dispatched tr = concat (map (\<lambda>e. case e of EvDispatch r h \<Rightarrow> [r] | _ \<Rightarrow> []) tr)"

fun waiting :: "(int \<times> nat) list \<times> bool \<Rightarrow> (int \<times> nat) list" where
  "waiting (q, busy) = (if busy then tl q else q)"

lemma accepted_simps [simp]:
  "accepted [] = []" "accepted (e # tr) = (case e of EvAccept r \<Rightarrow> [r] | _ \<Rightarrow> []) @ accepted tr"
  "dispatched [] = []" "dispatched (e # tr) = (case e of EvDispatch r h \<Rightarrow> [r] | _ \<Rightarrow> []) @ dispatched tr"
  by (simp_all add: accepted_def dispatched_def)

lemma spec_event_waiting:
  assumes "spec_event (q, busy) e = Some (q', busy')" "busy \<Longrightarrow> q \<noteq> []" "\<nexists>ty n. e = EvRemove ty n"
  shows "waiting (q, busy) @ accepted [e] = dispatched [e] @ waiting (q', busy')" "busy' \<Longrightarrow> q' \<noteq> []"
  using assms by (cases e; auto split: list.splits if_splits)+

lemma spec_trace_fifo:
  "spec_trace spec_event (q, busy) tr = Some (q', busy') \<Longrightarrow> (busy \<Longrightarrow> q \<noteq> []) \<Longrightarrow>
   (\<forall>ty n. EvRemove ty n \<notin> set tr) \<Longrightarrow>
   waiting (q, busy) @ accepted tr = dispatched tr @ waiting (q', busy')"
proof (induction tr arbitrary: q busy)
  case (Cons e tr)
  then obtain q1 busy1 where e: "spec_event (q, busy) e = Some (q1, busy1)"
      "spec_trace spec_event (q1, busy1) tr = Some (q', busy')" by (auto split: option.splits)
  note w = spec_event_waiting [OF e(1) Cons.prems(2)]
  have "\<nexists>ty n. e = EvRemove ty n" using Cons.prems(3) by auto
  with w Cons.IH [OF e(2)] Cons.prems(3)
  have "waiting (q, busy) @ accepted [e] = dispatched [e] @ waiting (q1, busy1)"
    "waiting (q1, busy1) @ accepted tr = dispatched tr @ waiting (q', busy')" by auto
  then show ?case by (metis accepted_simps(1-4) append_assoc append_Nil2)
qed simp

text \<open>The worker alone: how it serves the queue.\<close>

lemma worker_serves:
  assumes "io_sim \<sigma> (q, False)" "sys_worker \<sigma> = WLoop" "\<not> gIOTerminate (sys_io \<sigma>)" "gEndSema (sys_io \<sigma>) = 1"
  shows "\<exists>\<sigma>' tr. run_acts io_next \<sigma> (replicate (3 * length q + 1) Worker) = Some (tr, \<sigma>') \<and>
     dispatched tr = q \<and> sys_worker \<sigma>' = WTop \<and> gReqList (sys_io \<sigma>') = None"
  using assms
proof (induction q arbitrary: \<sigma>)
  case Nil
  then have "gReqList (sys_io \<sigma>) = None" using io_queue_empty by (auto simp: io_sim_def Let_def)
  with Nil.prems show ?case by (simp add: io_next_def ioWorkerThread_def Let_def)
next
  case (Cons r q)
  let ?s = "sys_io \<sigma>"
  have q: "io_queue ?s (r # q)" using Cons.prems by (simp add: io_sim_def Let_def)
  then obtain a where a: "gReqList ?s = Some a" using io_queue_empty [OF q] by auto
  obtain c where c: "io_heap ?s a = Some c" "r = (rq_type c, rq_data c)" using io_queue_head [OF q a] by auto
  obtain call where call: "ioProcessRequest ?s (Some a) = Inr call" using process_queue [OF q a] by blast
  define \<sigma>1 where "\<sigma>1 = \<sigma>\<lparr>sys_worker := WCall a\<rparr>"
  define \<sigma>2 where "\<sigma>2 = \<sigma>1\<lparr>sys_worker := WUnlink a, sys_io := ?s\<lparr>gEndSema := 0\<rparr>\<rparr>"
  have n1: "io_next \<sigma> Worker = Some ([EvDispatch r (map_option fst call)], \<sigma>1)"
    using Cons.prems a call c by (simp add: io_next_def ioWorkerThread_def Let_def \<sigma>1_def)
  have n2: "io_next \<sigma>1 Worker = Some ([], \<sigma>2)"
    using Cons.prems by (simp add: io_next_def ioWorkerThread_def Let_def \<sigma>1_def \<sigma>2_def)
  obtain s' where s': "finish_request (?s\<lparr>gEndSema := 0\<rparr>) a = Inr s'" "same_ctl (?s\<lparr>gEndSema := 0\<rparr>) s'"
    using finish_queue [of "?s\<lparr>gEndSema := 0\<rparr>" "r # q" a] q a by auto
  define \<sigma>3 where "\<sigma>3 = \<sigma>2\<lparr>sys_worker := WLoop, sys_io := s'\<lparr>gEndSema := 1\<rparr>\<rparr>"
  have n3: "io_next \<sigma>2 Worker = Some ([EvFinish], \<sigma>3)"
    using s' by (simp add: io_next_def ioWorkerThread_def Let_def \<sigma>2_def \<sigma>3_def same_ctl_def)
  have "run_acts io_next \<sigma> [Worker, Worker, Worker] = Some ([EvDispatch r (map_option fst call), EvFinish], \<sigma>3)"
    using n1 n2 n3 by simp
  then have "runs io_next \<sigma> [EvDispatch r (map_option fst call), EvFinish] \<sigma>3" by (rule run_actsD)
  then obtain st where "spec_trace spec_event (r # q, False) [EvDispatch r (map_option fst call), EvFinish] = Some st"
      "io_sim \<sigma>3 st"
    using io.run_sim [OF _ Cons.prems(1)] by fastforce
  then have "io_sim \<sigma>3 (q, False)" by (auto split: if_splits)
  moreover have "sys_worker \<sigma>3 = WLoop" "\<not> gIOTerminate (sys_io \<sigma>3)" "gEndSema (sys_io \<sigma>3) = 1"
    using Cons.prems(3) s'(2) by (simp_all add: \<sigma>3_def same_ctl_def)
  ultimately obtain \<sigma>' tr where "run_acts io_next \<sigma>3 (replicate (3 * length q + 1) Worker) = Some (tr, \<sigma>')"
      "dispatched tr = q" "sys_worker \<sigma>' = WTop" "gReqList (sys_io \<sigma>') = None"
    using Cons.IH [of \<sigma>3] by blast
  moreover have "replicate (3 * length (r # q) + 1) Worker = [Worker, Worker, Worker] @ replicate (3 * length q + 1) Worker"
    by (simp add: eval_nat_numeral)
  ultimately show ?case using n1 n2 n3 by simp
qed

text \<open>A unit of \<open>gProcSemaId\<close> that nobody holds and nobody can give back.\<close>

definition proc_lost :: "io_sys \<Rightarrow> bool" where
  "proc_lost \<sigma> \<longleftrightarrow> sys_worker \<sigma> = WDone \<or>
     gProcSema (sys_io \<sigma>) = 0 \<and> \<not> worker_proc (sys_worker \<sigma>) \<and> (\<forall>c. \<not> client_proc (sys_client \<sigma> c))"

lemma proc_lost_step:
  assumes "proc_lost \<sigma>" "io_next \<sigma> act = Some (evs, \<sigma>')"
  shows "proc_lost \<sigma>'" "dispatched evs = []"
proof -
  have "sys_worker \<sigma> \<noteq> WDone" using assms(2) by (auto simp: io_next_def)
  with assms(1) have l: "gProcSema (sys_io \<sigma>) = 0" "\<not> worker_proc (sys_worker \<sigma>)"
      "\<forall>c. \<not> client_proc (sys_client \<sigma> c)" by (auto simp: proc_lost_def)
  note d = io_next_def ioWorkerThread_def client_call_def client_go_def proc_lost_def Let_def
  have "proc_lost \<sigma>' \<and> dispatched evs = []"
  proof (cases act)
    case Worker
    with assms(2) l show ?thesis
    proof (cases "sys_worker \<sigma>")
      case WExit
      with assms(2) l Worker show ?thesis
        by (cases "free_pending (sys_io \<sigma>)") (auto simp: d split: sum.splits)
    qed (auto simp: d split: if_splits)
  next
    case (Call c call)
    with assms(2) l show ?thesis
      by (cases call) (auto simp: d ioBlockOps_def ioEnd_def split: if_splits)
  next
    case (Go c new)
    with assms(2) l show ?thesis
    proof (cases "sys_client \<sigma> c")
      case (CPutIn ty data)
      with Go assms(2) l obtain s' queued where
        "ioPutRequest_locked new (sys_io \<sigma>) ty data = Some (Inr (s', queued)) \<or>
          (\<exists>e. evs = [EvFault e] \<and> \<sigma>' = \<sigma>) \<or> evs = [EvNoMemory] \<and> \<sigma>' = \<sigma>\<lparr>sys_client := (sys_client \<sigma>)(c := CFaulted)\<rparr>"
        by (auto simp: d split: if_splits option.splits sum.splits)
      with CPutIn Go assms(2) l show ?thesis
        by (auto simp: d ioPutRequest_locked_def link_request_def c_bind_eq_Inr
            split: if_splits option.splits sum.splits)
    next
      case (CRemIn ty)
      with l(3) show ?thesis by (auto dest!: spec [of _ c])
    next
      case (CRemEnd ty)
      with l(3) show ?thesis by (auto dest!: spec [of _ c])
    qed (auto simp: d split: if_splits)
  qed
  then show "proc_lost \<sigma>'" "dispatched evs = []" by auto
qed

lemma proc_lost_run: "runs io_next \<sigma> tr \<sigma>' \<Longrightarrow> proc_lost \<sigma> \<Longrightarrow> proc_lost \<sigma>' \<and> dispatched tr = []"
  by (induction rule: runs.induct) (auto simp: dispatched_def dest: proc_lost_step [unfolded dispatched_def])

text \<open>Nothing is accepted while I/O is blocked and no thread is already past the check.\<close>

definition io_quiet :: "io_sys \<Rightarrow> bool" where
  "io_quiet \<sigma> \<longleftrightarrow> sys_worker \<sigma> = WDone \<or>
     isIOBlocked (sys_io \<sigma>) \<and> (\<forall>c. client_put (sys_client \<sigma> c) = None)"

lemma io_quiet_step:
  assumes "io_sim \<sigma> st" "io_quiet \<sigma>" "io_next \<sigma> act = Some (evs, \<sigma>')" "\<nexists>c. act = Call c (Block False)"
  shows "io_quiet \<sigma>' \<and> accepted evs = []"
proof -
  have nd: "sys_worker \<sigma> \<noteq> WDone" using assms(3) by (auto simp: io_next_def)
  with assms(2) have l: "isIOBlocked (sys_io \<sigma>)" "\<forall>c. client_put (sys_client \<sigma> c) = None"
    by (auto simp: io_quiet_def)
  obtain q busy where q: "io_queue (sys_io \<sigma>) q" using assms(1) nd by (auto simp: io_sim_def Let_def split: prod.splits)
  note d = io_next_def ioWorkerThread_def client_call_def client_go_def io_quiet_def Let_def
  show ?thesis
  proof (cases act)
    case Worker
    with assms(3) nd have w: "ioWorkerThread \<sigma> = Some (evs, \<sigma>')" by (simp add: io_next_def)
    then show ?thesis
    proof (cases "sys_worker \<sigma>")
      case (WUnlink a)
      with w l show ?thesis
        by (auto simp: ioWorkerThread_def io_quiet_def Let_def finish_request_def c_bind_def split: sum.splits)
    next
      case WLoop
      with w l show ?thesis
        by (auto simp: ioWorkerThread_def io_quiet_def Let_def split: if_splits option.splits sum.splits)
    next
      case WExit
      with w l show ?thesis
        by (auto simp: ioWorkerThread_def io_quiet_def Let_def split: option.splits sum.splits)
    qed (use l in \<open>auto simp: ioWorkerThread_def io_quiet_def Let_def split: if_splits\<close>)
  next
    case (Call c call)
    with assms(3,4) l nd show ?thesis
      by (cases call) (auto simp: d ioBlockOps_def ioEnd_def ioPutRequest_check_def split: if_splits)
  next
    case (Go c new)
    with assms(3) l nd show ?thesis
    proof (cases "sys_client \<sigma> c")
      case (CReg ty h)
      with Go assms(3) l nd show ?thesis
        by (auto simp: d ioRegisterHandler_def split: if_splits option.splits)
    next
      case (CRemIn ty)
      from remove_queue [OF q, of ty] obtain n s' where "ioRemoveRequests_locked (sys_io \<sigma>) ty = Some (Inr (n, s'))"
        "same_ctl (sys_io \<sigma>) s'" by auto
      with CRemIn Go assms(3) l nd show ?thesis by (auto simp: d same_ctl_def)
    next
      case (CPut ty d)
      with l(2) show ?thesis by (auto dest!: spec [of _ c])
    next
      case (CPutIn ty d)
      with l(2) show ?thesis by (auto dest!: spec [of _ c])
    qed (auto simp: d split: if_splits option.splits sum.splits)
  qed
qed

lemma io_quiet_run:
  "run_acts io_next \<sigma> acts = Some (tr, \<sigma>') \<Longrightarrow> io_sim \<sigma> st \<Longrightarrow> io_quiet \<sigma> \<Longrightarrow>
   \<forall>c. Call c (Block False) \<notin> set acts \<Longrightarrow> accepted tr = []"
proof (induction acts arbitrary: \<sigma> st tr)
  case (Cons act acts)
  then obtain evs \<sigma>1 tr1 where n: "io_next \<sigma> act = Some (evs, \<sigma>1)" "run_acts io_next \<sigma>1 acts = Some (tr1, \<sigma>')"
    and tr: "tr = evs @ tr1" by (auto split: option.splits prod.splits)
  from io.step_sim [OF Cons.prems(2) n(1)] obtain st1 where "io_sim \<sigma>1 st1" by blast
  moreover have "io_quiet \<sigma>1 \<and> accepted evs = []"
    using Cons.prems by (intro io_quiet_step [OF Cons.prems(2,3) n(1)]) auto
  ultimately have "accepted tr1 = []" using Cons.IH [OF n(2)] Cons.prems(4) by auto
  with \<open>io_quiet \<sigma>1 \<and> accepted evs = []\<close> tr show ?case by (simp add: accepted_def)
qed simp

definition io_blank :: io_state where
  "io_blank = \<lparr>io_heap = Map.empty, gReqList = None, gReqEnd = None, gRequestHandlers = [], gProcSema = 0,
     gEndSema = 0, gIOTerminate = False, isIOBlocked = False, isIORunning = False, io_wakeups = 0\<rparr>"

section \<open>Properties\<close>



text \<open>Requests are served in the order in which they were accepted, each exactly once: as long as
  nobody removes requests, the accepted requests are the served ones followed by those still waiting,
  which are the ones in the linked list except the one being served.\<close>

theorem io_served_in_order:
  assumes "io_heap s = Map.empty" and "runs io_next (io_start h s) tr \<sigma>"
    and "\<forall>ty n. EvRemove ty n \<notin> set tr" and "sys_worker \<sigma> \<noteq> WDone"
  shows "\<exists>q. io_queue (sys_io \<sigma>) q \<and>
    accepted tr = dispatched tr @ (if worker_busy (sys_worker \<sigma>) = None then q else tl q)"
proof -
  from io.run_sim [OF assms(2) io_start_sim [OF assms(1)]]
  obtain q busy where q: "spec_trace spec_event ([], False) tr = Some (q, busy)" "io_sim \<sigma> (q, busy)" by auto
  from spec_trace_fifo [OF q(1) _ assms(3)] q(2) assms(4) show ?thesis
    by (intro exI [of _ q]) (auto simp: io_sim_def Let_def)
qed

theorem io_served_in_order_witness:
  "\<exists>tr \<sigma>. runs io_next (io_start 7 io_blank) tr \<sigma> \<and> accepted tr = [(1, 5), (1, 6)] \<and> dispatched tr = [(1, 5)] \<and>
     (\<exists>q. io_queue (sys_io \<sigma>) q \<and>
        accepted tr = dispatched tr @ (if worker_busy (sys_worker \<sigma>) = None then q else tl q))"
proof -
  let ?acts = "[Call 0 (Put 1 5), Go 0 None, Go 0 (Some 100), Worker, Worker, Worker, Worker,
    Call 1 (Put 1 6), Go 1 None, Go 1 (Some 101)]"
  let ?r = "run_acts io_next (io_start 7 io_blank) ?acts"
  let ?tr = "[EvAccept (1, 5), EvDispatch (1, 5) (Some 7), EvAccept (1, 6)]"
  have e: "map_option (\<lambda>(tr, \<sigma>). (tr, sys_worker \<sigma>)) ?r = Some (?tr, WCall 100)" by code_simp
  then obtain \<sigma> where r: "?r = Some (?tr, \<sigma>)" "sys_worker \<sigma> = WCall 100" by auto
  note run = run_actsD [OF r(1)]
  have "io_heap io_blank = Map.empty" by (simp add: io_blank_def)
  from io_served_in_order [OF this run] r(2)
  have "\<exists>q. io_queue (sys_io \<sigma>) q \<and> accepted ?tr = dispatched ?tr @ (if worker_busy (sys_worker \<sigma>) = None then q else tl q)"
    by simp
  moreover have "accepted ?tr = [(1, 5), (1, 6)]" "dispatched ?tr = [(1, 5)]" by simp_all
  ultimately show ?thesis using run by blast
qed

text \<open>C31: the worker makes progress: from the head of its inner loop, with no termination request and
  the queue end free, it serves the whole queue in order and leaves the loop, in three steps per
  request and one to find the queue empty.\<close>

theorem io_worker_serves_queue:
  assumes "io_heap s = Map.empty" and "runs io_next (io_start h s) tr0 \<sigma>"
    and "sys_worker \<sigma> = WLoop" and "\<not> gIOTerminate (sys_io \<sigma>)" and "gEndSema (sys_io \<sigma>) = 1"
  shows "\<exists>q tr \<sigma>'. io_queue (sys_io \<sigma>) q \<and>
    run_acts io_next \<sigma> (replicate (3 * length q + 1) Worker) = Some (tr, \<sigma>') \<and>
    dispatched tr = q \<and> sys_worker \<sigma>' = WTop \<and> gReqList (sys_io \<sigma>') = None"
proof -
  from io.run_sim [OF assms(2) io_start_sim [OF assms(1)]]
  obtain q busy where q: "io_sim \<sigma> (q, busy)" by auto
  with assms(3) have "\<not> busy" "io_queue (sys_io \<sigma>) q" by (auto simp: io_sim_def Let_def)
  with worker_serves [of \<sigma> q] q assms(3-5) show ?thesis by auto
qed

theorem io_worker_serves_queue_witness:
  "\<exists>\<sigma>. sys_worker \<sigma> = WLoop \<and> (\<exists>q tr \<sigma>'. io_queue (sys_io \<sigma>) q \<and>
     run_acts io_next \<sigma> (replicate (3 * length q + 1) Worker) = Some (tr, \<sigma>') \<and>
     dispatched tr = q \<and> sys_worker \<sigma>' = WTop \<and> gReqList (sys_io \<sigma>') = None)"
proof -
  let ?r = "run_acts io_next (io_start 7 io_blank)
    [Call 0 (Put 1 5), Go 0 None, Go 0 (Some 100), Worker, Worker, Worker]"
  have e: "map_option (\<lambda>(tr, \<sigma>). (tr, sys_worker \<sigma>, gIOTerminate (sys_io \<sigma>), gEndSema (sys_io \<sigma>))) ?r =
      Some ([EvAccept (1, 5)], WLoop, False, 1)" by code_simp
  then obtain \<sigma> where r: "?r = Some ([EvAccept (1, 5)], \<sigma>)"
      and s: "sys_worker \<sigma> = WLoop" "\<not> gIOTerminate (sys_io \<sigma>)" "gEndSema (sys_io \<sigma>) = 1" by auto
  have "io_heap io_blank = Map.empty" by (simp add: io_blank_def)
  from io_worker_serves_queue [OF this run_actsD [OF r] s] s(1) show ?thesis by blast
qed

text \<open>C35: a registration that fails (no handler, table full, or a handler for the type exists) keeps the
  processing semaphore: from then on, whatever the threads do, the worker never serves another
  request.\<close>

theorem ioRegisterHandler_error_stalls:
  assumes "io_heap s = Map.empty" and "runs io_next (io_start h s) tr0 \<sigma>"
    and "sys_client \<sigma> c = CReg ty hlr" and "fst (ioRegisterHandler (sys_io \<sigma>) ty hlr) \<noteq> IO_OK"
    and "io_next \<sigma> (Go c new) = Some (evs, \<sigma>1)" and "runs io_next \<sigma>1 tr \<sigma>2"
  shows "dispatched tr = []"
proof -
  from io.run_sim [OF assms(2) io_start_sim [OF assms(1)]] obtain q busy where q: "io_sim \<sigma> (q, busy)" by auto
  have g: "sys_worker \<sigma> \<noteq> WDone" "gProcSema (sys_io \<sigma>) \<noteq> 0"
    and \<sigma>1: "\<sigma>1 = \<sigma>\<lparr>sys_client := (sys_client \<sigma>)(c := CIdle),
       sys_io := snd (ioRegisterHandler ((sys_io \<sigma>)\<lparr>gProcSema := gProcSema (sys_io \<sigma>) - 1\<rparr>) ty hlr)\<rparr>"
    using assms(3,5) by (auto simp: io_next_def client_go_def Let_def split: if_splits)
  have x: "excl (gProcSema (sys_io \<sigma>)) (worker_proc (sys_worker \<sigma>)) (client_proc \<circ> sys_client \<sigma>)"
    using q g by (simp add: io_sim_def Let_def)
  with g(2) have "gProcSema (sys_io \<sigma>) = 1" by (simp add: excl_def)
  with x \<sigma>1 assms(4) have "proc_lost \<sigma>1"
    by (auto simp: proc_lost_def excl_def ioRegisterHandler_def split: option.splits if_splits)
  with proc_lost_run [OF assms(6)] show ?thesis by simp
qed

theorem ioRegisterHandler_error_stalls_witness:
  "\<exists>\<sigma>1. (\<exists>\<sigma> evs. sys_client \<sigma> 0 = CReg 1 (Some 9) \<and> io_next \<sigma> (Go 0 None) = Some (evs, \<sigma>1)) \<and>
     (\<forall>tr \<sigma>2. runs io_next \<sigma>1 tr \<sigma>2 \<longrightarrow> dispatched tr = [])"
proof -
  let ?r = "run_acts io_next (io_start 7 io_blank) [Call 0 (Register 1 (Some 9))]"
  have e: "map_option (\<lambda>(tr, \<sigma>). (tr, sys_client \<sigma> 0, fst (ioRegisterHandler (sys_io \<sigma>) 1 (Some 9)),
      map_option fst (io_next \<sigma> (Go 0 None)))) ?r = Some ([], CReg 1 (Some 9), IO_ERR_DUPLICIT_HANDLER, Some [])"
    by code_simp
  then obtain \<sigma> \<sigma>1 where r: "?r = Some ([], \<sigma>)" and s: "sys_client \<sigma> 0 = CReg 1 (Some 9)"
    "fst (ioRegisterHandler (sys_io \<sigma>) 1 (Some 9)) \<noteq> IO_OK" "io_next \<sigma> (Go 0 None) = Some ([], \<sigma>1)" by auto
  have "io_heap io_blank = Map.empty" by (simp add: io_blank_def)
  from ioRegisterHandler_error_stalls [OF this run_actsD [OF r] s] s(1,3) show ?thesis by blast
qed

text \<open>C34: \<open>ioGetPendingRequestCount\<close> reads the head of the list before it waits for the semaphore: there
  is a run in which the worker frees that cell meanwhile and the count then reads freed memory.\<close>

theorem ioGetPendingRequestCount_use_after_free:
  "\<exists>tr \<sigma>. runs io_next (io_start h io_blank) tr \<sigma> \<and> EvCountFault Dangling \<in> set tr"
proof -
  let ?acts = "[Call 0 (Put 1 5), Go 0 None, Go 0 (Some 100), Worker, Worker, Worker, Worker,
    Call 1 Count, Worker, Worker, Worker, Go 1 None]"
  have "map_option fst (run_acts io_next (io_start h io_blank) ?acts) =
      Some [EvAccept (1, 5), EvDispatch (1, 5) (Some h), EvFinish, EvCountFault Dangling]" by code_simp
  then obtain \<sigma> where "run_acts io_next (io_start h io_blank) ?acts =
      Some ([EvAccept (1, 5), EvDispatch (1, 5) (Some h), EvFinish, EvCountFault Dangling], \<sigma>)" by auto
  from run_actsD [OF this] show ?thesis by fastforce
qed

text \<open>A request for which there is no memory is written through NULL.\<close>

lemma ioPutRequest_no_memory:
  "\<exists>tr \<sigma>. runs io_next (io_start h io_blank) tr \<sigma> \<and> tr = [EvNoMemory] \<and> sys_client \<sigma> 0 = CFaulted"
proof -
  let ?r = "run_acts io_next (io_start h io_blank) [Call 0 (Put 1 5), Go 0 None, Go 0 None]"
  have "map_option (\<lambda>(tr, \<sigma>). (tr, sys_client \<sigma> 0)) ?r = Some ([EvNoMemory], CFaulted)" by code_simp
  then obtain \<sigma> where r: "?r = Some ([EvNoMemory], \<sigma>)" "sys_client \<sigma> 0 = CFaulted" by auto
  from run_actsD [OF r(1)] r(2) show ?thesis by blast
qed

text \<open>After \<open>ioBlockOps\<close> has set the flag and as long as nobody clears it, no request is accepted,
  provided no thread is between the flag check of \<open>ioPutRequest\<close> and its critical section.\<close>

theorem ioBlockOps_blocks:
  assumes "io_heap s = Map.empty" and "runs io_next (io_start h s) tr0 \<sigma>" and "isIOBlocked (sys_io \<sigma>)"
    and "\<forall>c. client_put (sys_client \<sigma> c) = None" and "\<forall>c. Call c (Block False) \<notin> set acts"
    and "run_acts io_next \<sigma> acts = Some (tr, \<sigma>')"
  shows "accepted tr = []"
proof -
  from io.run_sim [OF assms(2) io_start_sim [OF assms(1)]] obtain st where "io_sim \<sigma> st" by auto
  with io_quiet_run [OF assms(6) this _ assms(5)] assms(3,4) show ?thesis by (simp add: io_quiet_def)
qed

theorem ioBlockOps_blocks_witness:
  "\<exists>\<sigma> tr \<sigma>'. isIOBlocked (sys_io \<sigma>) \<and> run_acts io_next \<sigma> [Call 2 (Put 1 6), Worker] = Some (tr, \<sigma>') \<and> accepted tr = []"
proof -
  let ?r = "run_acts io_next (io_start 7 io_blank) [Call 0 (Block True)]"
  let ?\<sigma> = "\<lparr>sys_io = (ioInit 7 io_blank)\<lparr>isIOBlocked := True\<rparr>, sys_worker = WTop, sys_client = (\<lambda>_. CIdle)(0 := CDrain)\<rparr>"
  have r: "?r = Some ([], ?\<sigma>)"
    by (simp add: io_start_def io_next_def client_call_def Let_def ioBlockOps_def ioInit_def io_blank_def ioRegisterHandler_def)
  have e: "map_option fst (run_acts io_next ?\<sigma> [Call 2 (Put 1 6), Worker]) = Some []" by code_simp
  then obtain \<sigma>' where r': "run_acts io_next ?\<sigma> [Call 2 (Put 1 6), Worker] = Some ([], \<sigma>')" by auto
  have b: "io_heap io_blank = Map.empty" by (simp add: io_blank_def)
  have "accepted [] = []"
    by (rule ioBlockOps_blocks [OF b run_actsD [OF r] _ _ _ r']) simp_all
  then show ?thesis using r' by (intro exI [of _ ?\<sigma>] exI [of _ "[]"] exI [of _ \<sigma>']) simp
qed

text \<open>Without that proviso it fails: a thread that has passed the check before the flag was set has
  its request queued after \<open>ioBlockOps\<close> has returned from waiting for the queue to drain.\<close>

theorem ioBlockOps_race:
  "\<exists>\<sigma>. runs io_next (io_start h io_blank) [EvDrained, EvAccept (1, 5)] \<sigma> \<and> isIOBlocked (sys_io \<sigma>)"
proof -
  let ?acts = "[Call 0 (Put 1 5), Call 1 (Block True), Go 1 None, Go 0 None, Go 0 (Some 1)]"
  have "map_option (\<lambda>(tr, \<sigma>). (tr, isIOBlocked (sys_io \<sigma>))) (run_acts io_next (io_start h io_blank) ?acts) =
      Some ([EvDrained, EvAccept (1, 5)], True)" by code_simp
  then obtain \<sigma> where "run_acts io_next (io_start h io_blank) ?acts = Some ([EvDrained, EvAccept (1, 5)], \<sigma>)"
    "isIOBlocked (sys_io \<sigma>)" by auto
  with run_actsD [OF this(1)] show ?thesis by blast
qed

end
