(* ===== verification/Atlas.thy ===== *)
theory Atlas
  imports CPrelude
begin

text \<open>
  The texture atlas, \<open>src/atlas.c\<close>: a binary tree of rectangles from which space for glyphs is cut,
  and the copying of their pixels into the surface.  Coordinates and sizes are 32-bit words (the C
  code mixes \<open>int\<close> and \<open>size_t\<close>, so its sums and comparisons are unsigned).  The two leaves of a node
  are allocated together, hence the option of a pair.  The size of the surface in bytes is what
  \<open>gsKit_texture_size\<close> returns, a parameter.
\<close>

section \<open>Rectangles\<close>

datatype atlas_allocation =
  Alloc (al_x: u32) (al_y: u32) (al_w: u32) (al_h: u32)
        (al_leaves: "(atlas_allocation \<times> atlas_allocation) option")

definition allocNew :: "u32 \<Rightarrow> u32 \<Rightarrow> u32 \<Rightarrow> u32 \<Rightarrow> atlas_allocation" where
  "allocNew x y width height = Alloc x y width height None"

definition ALLOC_FITS :: "u32 \<Rightarrow> u32 \<Rightarrow> u32 \<Rightarrow> u32 \<Rightarrow> bool" where
  "ALLOC_FITS w h width height \<longleftrightarrow> width \<le> w \<and> height \<le> h"

text \<open>The tree after the call and the position of the node the C function returns a pointer to.\<close>

fun allocPlace :: "atlas_allocation \<Rightarrow> u32 \<Rightarrow> u32 \<Rightarrow> (atlas_allocation \<times> u32 \<times> u32) option" where
  "allocPlace (Alloc x y w h None) width height =
     (if \<not> ALLOC_FITS w h width height then None
      else
        let dx = w - width; dy = h - height
        in Some
          (if dx < dy
           then Alloc x y w h (Some (allocNew (x + width) y dx height, allocNew x (y + height) w dy))
           else Alloc x y w h (Some (allocNew x (y + height) width dy, allocNew (x + width) y dx h)),
           x, y))"
| "allocPlace (Alloc x y w h (Some (leaf1, leaf2))) width height =
     (if \<not> ALLOC_FITS w h width height then None
      else case allocPlace leaf1 width height of
        Some (leaf1', p) \<Rightarrow> Some (Alloc x y w h (Some (leaf1', leaf2)), p)
      | None \<Rightarrow>
          (case allocPlace leaf2 width height of
             Some (leaf2', p) \<Rightarrow> Some (Alloc x y w h (Some (leaf1, leaf2')), p)
           | None \<Rightarrow> None))"

section \<open>The surface\<close>

datatype gs_psm = GS_PSM_CT32 | GS_PSM_CT24 | GS_PSM_CT16 | GS_PSM_CT16S | GS_PSM_T8 | GS_PSM_other

fun pixelSize :: "gs_psm \<Rightarrow> u32" where
  "pixelSize GS_PSM_CT32 = 4"
| "pixelSize GS_PSM_CT24 = 4"
| "pixelSize GS_PSM_CT16 = 2"
| "pixelSize GS_PSM_CT16S = 2"
| "pixelSize GS_PSM_T8 = 1"
| "pixelSize GS_PSM_other = 0"

record atlas =
  at_allocation :: atlas_allocation
  at_psm :: gs_psm
  at_mem :: "u8 list"

definition atlasNew :: "(u32 \<Rightarrow> u32 \<Rightarrow> gs_psm \<Rightarrow> nat) \<Rightarrow> u32 \<Rightarrow> u32 \<Rightarrow> gs_psm \<Rightarrow> atlas" where
  "atlasNew gsKit_texture_size width height psm =
     \<lparr>at_allocation = allocNew 0 0 width height, at_psm = psm,
      at_mem = replicate (gsKit_texture_size width height psm) 0\<rparr>"

text \<open>The loop over the rows of the pixmap: \<open>data\<close> and \<open>src\<close> advance by a row each.\<close>

fun copy_rows :: "u8 list \<Rightarrow> nat \<Rightarrow> nat \<Rightarrow> u8 list \<Rightarrow> nat \<Rightarrow> nat \<Rightarrow> nat \<Rightarrow> u8 list cres" where
  "copy_rows mem data stride surface src rowsize 0 = Inr mem"
| "copy_rows mem data stride surface src rowsize (Suc rows) =
     c_bind (mem_read surface src rowsize) (\<lambda>row.
       c_bind (mem_write mem data row) (\<lambda>mem'.
         copy_rows mem' (data + stride) stride surface (src + rowsize) rowsize rows))"

definition atlasCopyData :: "atlas \<Rightarrow> u32 \<times> u32 \<Rightarrow> u32 \<Rightarrow> u32 \<Rightarrow> u8 list \<Rightarrow> atlas cres" where
  "atlasCopyData atlas al width height surface =
     (let ps = pixelSize (at_psm atlas); w = al_w (at_allocation atlas)
      in if ps = 0 then Inr atlas
         else c_bind (copy_rows (at_mem atlas) (unat (ps * (snd al * w + fst al))) (unat (ps * w))
                        surface 0 (unat (width * ps)) (unat height))
                (\<lambda>mem. Inr (atlas\<lparr>at_mem := mem\<rparr>)))"

text \<open>One pixel more in each direction is reserved than is filled.\<close>

definition atlasPlace :: "atlas \<Rightarrow> u32 \<Rightarrow> u32 \<Rightarrow> u8 list option \<Rightarrow> ((u32 \<times> u32) option \<times> atlas) cres" where
  "atlasPlace atlas width height surface =
     (case surface of
        None \<Rightarrow> Inr (None, atlas)
      | Some pix \<Rightarrow>
          (case allocPlace (at_allocation atlas) (width + 1) (height + 1) of
             None \<Rightarrow> Inr (None, atlas)
           | Some (tree, al) \<Rightarrow>
               c_bind (atlasCopyData (atlas\<lparr>at_allocation := tree\<rparr>) al width height pix) (\<lambda>atlas'.
                 Inr (Some al, atlas'))))"

section \<open>Specification\<close>

definition rect :: "u32 \<Rightarrow> u32 \<Rightarrow> u32 \<Rightarrow> u32 \<Rightarrow> (nat \<times> nat) set" where
  "rect x y w h = {(i, j). unat x \<le> i \<and> i < unat x + unat w \<and> unat y \<le> j \<and> j < unat y + unat h}"

text \<open>The pixels that are still free, and the free rectangles.\<close>

fun cells :: "atlas_allocation \<Rightarrow> (nat \<times> nat) set" where
  "cells (Alloc x y w h None) = rect x y w h"
| "cells (Alloc x y w h (Some (l1, l2))) = cells l1 \<union> cells l2"

fun free_sizes :: "atlas_allocation \<Rightarrow> (u32 \<times> u32) list" where
  "free_sizes (Alloc x y w h None) = [(w, h)]"
| "free_sizes (Alloc x y w h (Some (l1, l2))) = free_sizes l1 @ free_sizes l2"

abbreviation COORD_MAX :: nat where "COORD_MAX \<equiv> 2 ^ 31"

fun alloc_ok :: "atlas_allocation \<Rightarrow> bool" where
  "alloc_ok (Alloc x y w h None) \<longleftrightarrow> unat x + unat w < COORD_MAX \<and> unat y + unat h < COORD_MAX"
| "alloc_ok (Alloc x y w h (Some (l1, l2))) \<longleftrightarrow>
     unat x + unat w < COORD_MAX \<and> unat y + unat h < COORD_MAX \<and>
     alloc_ok l1 \<and> alloc_ok l2 \<and> cells l1 \<inter> cells l2 = {} \<and>
     al_w l1 \<le> w \<and> al_h l1 \<le> h \<and> al_w l2 \<le> w \<and> al_h l2 \<le> h"

text \<open>A pixel of the surface, and a pixmap that is shown at a position.\<close>

definition pixel :: "nat \<Rightarrow> nat \<Rightarrow> u8 list \<Rightarrow> nat \<Rightarrow> nat \<Rightarrow> u8 list" where
  "pixel ps w mem i j = take ps (drop (ps * (j * w + i)) mem)"

abbreviation psize :: "atlas \<Rightarrow> nat" where "psize a \<equiv> unat (pixelSize (at_psm a))"
abbreviation awidth :: "atlas \<Rightarrow> nat" where "awidth a \<equiv> unat (al_w (at_allocation a))"
abbreviation aheight :: "atlas \<Rightarrow> nat" where "aheight a \<equiv> unat (al_h (at_allocation a))"

definition shows_at :: "atlas \<Rightarrow> u32 \<times> u32 \<Rightarrow> u32 \<Rightarrow> u32 \<Rightarrow> u8 list \<Rightarrow> bool" where
  "shows_at a p width height pix \<longleftrightarrow>
     (\<forall>j < unat height. \<forall>i < unat width.
        pixel (psize a) (awidth a) (at_mem a) (unat (fst p) + i) (unat (snd p) + j) =
        pixel (psize a) (unat width) pix i j)"

definition atlas_ok :: "atlas \<Rightarrow> bool" where
  "atlas_ok a \<longleftrightarrow> alloc_ok (at_allocation a) \<and> 0 < psize a \<and>
     cells (at_allocation a) \<subseteq> {0..<awidth a} \<times> {0..<aheight a} \<and>
     psize a * (awidth a * aheight a) \<le> length (at_mem a) \<and> psize a * (awidth a * aheight a) < COORD_MAX"

definition pixmap_ok :: "atlas \<Rightarrow> u32 \<Rightarrow> u32 \<Rightarrow> u8 list \<Rightarrow> bool" where
  "pixmap_ok a width height pix \<longleftrightarrow> unat width < COORD_MAX \<and> unat height < COORD_MAX \<and>
     psize a * (unat width * unat height) \<le> length pix"

text \<open>Placing a list of pixmaps, one after the other.\<close>

fun place_all :: "atlas \<Rightarrow> (u32 \<times> u32 \<times> u8 list) list \<Rightarrow> ((u32 \<times> u32) option list \<times> atlas) cres" where
  "place_all a [] = Inr ([], a)"
| "place_all a ((w, h, pix) # ims) =
     c_bind (atlasPlace a w h (Some pix)) (\<lambda>(p, a1).
       c_bind (place_all a1 ims) (\<lambda>(ps, a2). Inr (p # ps, a2)))"

fun areas :: "(u32 \<times> u32 \<times> u8 list) list \<Rightarrow> (u32 \<times> u32) option list \<Rightarrow> (nat \<times> nat) set list" where
  "areas ((w, h, pix) # ims) (Some (x, y) # ps) = rect x y w h # areas ims ps"
| "areas (im # ims) (None # ps) = areas ims ps"
| "areas _ _ = []"

section \<open>Allocation\<close>

lemma unat_add: "unat x + unat y < COORD_MAX \<Longrightarrow> unat (x + y :: u32) = unat x + unat y"
  by (subst unat_add_lem [symmetric]) simp

lemma alloc_geometry: "al_x t = x \<and> al_y t = y \<and> al_w t = w \<and> al_h t = h \<longleftrightarrow> (\<exists>l. t = Alloc x y w h l)"
  by (cases t) auto

lemma allocPlace_shape:
  "allocPlace t width height = Some (t', p) \<Longrightarrow>
   al_x t' = al_x t \<and> al_y t' = al_y t \<and> al_w t' = al_w t \<and> al_h t' = al_h t"
  by (induction t width height arbitrary: t' p rule: allocPlace.induct)
    (auto simp: Let_def split: if_splits option.splits)

lemma split_cells:
  assumes "unat x + unat w < COORD_MAX" "unat y + unat h < COORD_MAX" "width \<le> w" "height \<le> h"
  shows "rect (x + width) y (w - width) height \<union> rect x (y + height) w (h - height) = rect x y w h - rect x y width height"
    "rect x (y + height) width (h - height) \<union> rect (x + width) y (w - width) h = rect x y w h - rect x y width height"
    "rect (x + width) y (w - width) height \<inter> rect x (y + height) w (h - height) = {}"
    "rect x (y + height) width (h - height) \<inter> rect (x + width) y (w - width) h = {}"
proof -
  have le: "unat width \<le> unat w" "unat height \<le> unat h" using assms(3,4) by (simp_all add: word_le_nat_alt)
  then have a: "unat (x + width) = unat x + unat width" "unat (y + height) = unat y + unat height"
    using assms(1,2) by (auto intro!: unat_add)
  have s: "unat (w - width) = unat w - unat width" "unat (h - height) = unat h - unat height"
    using assms(3,4) by (simp_all add: unat_sub)
  show "rect (x + width) y (w - width) height \<union> rect x (y + height) w (h - height) = rect x y w h - rect x y width height"
    "rect x (y + height) width (h - height) \<union> rect (x + width) y (w - width) h = rect x y w h - rect x y width height"
    "rect (x + width) y (w - width) height \<inter> rect x (y + height) w (h - height) = {}"
    "rect x (y + height) width (h - height) \<inter> rect (x + width) y (w - width) h = {}"
    unfolding rect_def a s using le by auto
qed

lemma allocPlace_cells:
  "allocPlace t width height = Some (t', x, y) \<Longrightarrow> alloc_ok t \<Longrightarrow>
   alloc_ok t' \<and> rect x y width height \<subseteq> cells t \<and> cells t' = cells t - rect x y width height"
proof (induction t width height arbitrary: t' x y rule: allocPlace.induct)
  case (1 x0 y0 w h width height)
  then have f: "width \<le> w" "height \<le> h" by (auto simp: ALLOC_FITS_def split: if_splits)
  have le: "unat width \<le> unat w" "unat height \<le> unat h" using f by (simp_all add: word_le_nat_alt)
  have b: "unat x0 + unat w < COORD_MAX" "unat y0 + unat h < COORD_MAX" using 1 by simp_all
  have a: "unat (x0 + width) = unat x0 + unat width" "unat (y0 + height) = unat y0 + unat height"
    using b le by (auto intro!: unat_add)
  have s: "unat (w - width) = unat w - unat width" "unat (h - height) = unat h - unat height"
    using f by (simp_all add: unat_sub)
  have "w - width \<le> w" "h - height \<le> h" using s by (simp_all add: word_le_nat_alt)
  moreover have "rect x0 y0 width height \<subseteq> rect x0 y0 w h" using le by (auto simp: rect_def)
  ultimately show ?case using 1 f b le a s split_cells [OF b f]
    by (auto simp: Let_def allocNew_def split: if_splits)
next
  case (2 x0 y0 w h l1 l2 width height)
  show ?case
  proof (cases "allocPlace l1 width height")
    case None
    with 2 obtain l2' where l2': "allocPlace l2 width height = Some (l2', x, y)" "t' = Alloc x0 y0 w h (Some (l1, l2'))"
      and f: "ALLOC_FITS w h width height"
      by (auto split: if_splits option.splits)
    with 2 None have "alloc_ok l2' \<and> rect x y width height \<subseteq> cells l2 \<and> cells l2' = cells l2 - rect x y width height"
      by simp
    with 2(4) l2' allocPlace_shape [OF l2'(1)] show ?thesis by auto
  next
    case (Some r)
    with 2 obtain l1' where l1': "allocPlace l1 width height = Some (l1', x, y)" "t' = Alloc x0 y0 w h (Some (l1', l2))"
      and f: "ALLOC_FITS w h width height"
      by (cases r) (auto split: if_splits)
    with 2 have "alloc_ok l1' \<and> rect x y width height \<subseteq> cells l1 \<and> cells l1' = cells l1 - rect x y width height"
      by simp
    with 2(4) l1' allocPlace_shape [OF l1'(1)] show ?thesis by auto
  qed
qed

lemma free_sizes_le: "alloc_ok t \<Longrightarrow> s \<in> set (free_sizes t) \<Longrightarrow> fst s \<le> al_w t \<and> snd s \<le> al_h t"
proof (induction t rule: free_sizes.induct)
  case (2 x y w h l1 l2)
  then have "fst s \<le> al_w l1 \<and> snd s \<le> al_h l1 \<or> fst s \<le> al_w l2 \<and> snd s \<le> al_h l2" by auto
  moreover have "al_w l1 \<le> w" "al_h l1 \<le> h" "al_w l2 \<le> w" "al_h l2 \<le> h" using 2(3) by simp_all
  ultimately show ?case by (auto dest: order_trans)
qed simp

lemma allocPlace_None_iff:
  "alloc_ok t \<Longrightarrow> allocPlace t width height = None \<longleftrightarrow>
   (\<forall>s \<in> set (free_sizes t). \<not> (width \<le> fst s \<and> height \<le> snd s))"
proof (induction t width height rule: allocPlace.induct)
  case (1 x y w h width height)
  then show ?case by (simp add: ALLOC_FITS_def Let_def)
next
  case (2 x y w h l1 l2 width height)
  show ?case
  proof (cases "ALLOC_FITS w h width height")
    case True
    with 2 show ?thesis by (cases "allocPlace l1 width height") (auto split: option.splits)
  next
    case False
    have "\<not> (width \<le> fst s \<and> height \<le> snd s)" if "s \<in> set (free_sizes (Alloc x y w h (Some (l1, l2))))" for s
      using free_sizes_le [OF 2(3) that] False by (auto simp: ALLOC_FITS_def dest: order_trans)
    with False show ?thesis by (simp add: ball_Un)
  qed
qed

section \<open>Copying\<close>

lemma copy_rows_ok:
  assumes "rowsize \<le> stride" "src + rows * rowsize \<le> length surface"
    "\<forall>r < rows. data + r * stride + rowsize \<le> length mem"
  shows "\<exists>mem'. copy_rows mem data stride surface src rowsize rows = Inr mem' \<and> length mem' = length mem \<and>
    (\<forall>r < rows. \<forall>c < rowsize. mem' ! (data + r * stride + c) = surface ! (src + r * rowsize + c)) \<and>
    (\<forall>k < length mem. (\<forall>r < rows. \<not> (data + r * stride \<le> k \<and> k < data + r * stride + rowsize)) \<longrightarrow> mem' ! k = mem ! k)"
  using assms(2,3)
proof (induction rows arbitrary: mem data src)
  case (Suc rows)
  have rd: "mem_read surface src rowsize = Inr (take rowsize (drop src surface))" using Suc.prems(1) by simp
  let ?row = "take rowsize (drop src surface)"
  have len: "length ?row = rowsize" using Suc.prems(1) by simp
  have "data + rowsize \<le> length mem" using Suc.prems(2) [rule_format, of 0] by simp
  then obtain m1 where m1: "mem_write mem data ?row = Inr m1" "length m1 = length mem"
      "\<forall>k < length mem. m1 ! k = (if data \<le> k \<and> k < data + rowsize then ?row ! (k - data) else mem ! k)"
    using mem_write_Inr [of data ?row mem] len by auto
  have "src + rowsize + rows * rowsize \<le> length surface" using Suc.prems(1) by simp
  moreover have "data + stride + r * stride + rowsize \<le> length m1" if "r < rows" for r
    using Suc.prems(2) [rule_format, of "Suc r"] that m1(2) by (simp add: algebra_simps)
  ultimately obtain m2 where m2: "copy_rows m1 (data + stride) stride surface (src + rowsize) rowsize rows = Inr m2"
      "length m2 = length m1"
      "\<forall>r < rows. \<forall>c < rowsize. m2 ! (data + stride + r * stride + c) = surface ! (src + rowsize + r * rowsize + c)"
      "\<forall>k < length m1. (\<forall>r < rows. \<not> (data + stride + r * stride \<le> k \<and> k < data + stride + r * stride + rowsize)) \<longrightarrow> m2 ! k = m1 ! k"
    using Suc.IH [of "src + rowsize" "data + stride" m1] by blast
  have "m2 ! (data + r * stride + c) = surface ! (src + r * rowsize + c)" if "r < Suc rows" "c < rowsize" for r c
  proof (cases r)
    case 0
    have "data + c < length m1" using Suc.prems(2) [rule_format, of 0] that(2) m1(2) by simp
    then have "m2 ! (data + c) = m1 ! (data + c)" using m2(4) that(2) assms(1) by simp
    then show ?thesis using 0 that m1 Suc.prems(1) \<open>data + c < length m1\<close> by simp
  next
    case (Suc r')
    then show ?thesis using m2(3) that by (simp add: algebra_simps)
  qed
  moreover have "m2 ! k = mem ! k" if k: "k < length mem"
      "\<forall>r < Suc rows. \<not> (data + r * stride \<le> k \<and> k < data + r * stride + rowsize)" for k
  proof -
    have "\<not> (data + stride + r * stride \<le> k \<and> k < data + stride + r * stride + rowsize)" if "r < rows" for r
      using k(2) [rule_format, of "Suc r"] that by (simp add: algebra_simps)
    then have "m2 ! k = m1 ! k" using m2(4) k(1) m1(2) by simp
    also have "\<dots> = mem ! k" using m1(3) k(1) k(2) [rule_format, of 0] by auto
    finally show ?thesis .
  qed
  ultimately show ?case using rd m1(1,2) m2(1,2) by simp
qed simp

text \<open>Two pixels with the same byte in them are the same pixel.\<close>

lemma byte_position:
  assumes "ps * (r * W + x) \<le> ps * (j * W + i) + b" "ps * (j * W + i) + b < ps * (r * W + x) + ps * w"
    and "b < ps" "i < W" "x + w \<le> W"
  shows "j = r \<and> x \<le> i \<and> i < (x + w :: nat)"
proof -
  have ps: "0 < ps" using assms(3) by simp
  have "(ps * (j * W + i) + b) div ps = j * W + i" using assms(3) by simp
  moreover have "ps * (r * W + x) div ps = r * W + x" using ps by simp
  ultimately have lo: "r * W + x \<le> j * W + i" using assms(1) div_le_mono by metis
  have "ps * (j * W + i) < ps * (r * W + x + w)" using assms(2) by (simp add: distrib_left)
  then have hi: "j * W + i < r * W + x + w" using ps by simp
  have "(j * W + i) div W = j" using assms(4) by simp
  moreover have "r * W \<le> j * W + i" "j * W + i < r * W + W" using lo hi assms(5) by simp_all
  then have "(j * W + i) div W = r"
    by (metis add.commute div_nat_eqI mult.commute mult_Suc)
  ultimately have "j = r" by simp
  with lo hi show ?thesis by simp
qed

lemma pixel_nth:
  "ps * (j * w + i) + ps \<le> length m \<Longrightarrow> ps * (j * w + i) + ps \<le> length m' \<Longrightarrow>
   (\<forall>b < ps. m' ! (ps * (j * w + i) + b) = m ! (ps * (j * w + i) + b)) \<Longrightarrow> pixel ps w m' i j = pixel ps w m i j"
  by (intro nth_equalityI) (auto simp: pixel_def)

lemma pixel_bound:
  assumes "i < w" "j < h" "ps * (w * h) \<le> n"
  shows "ps * (j * w + i) + ps \<le> (n :: nat)"
proof -
  have "j * w + i + 1 \<le> Suc j * w" using assms(1) by simp
  also have "\<dots> \<le> w * h" using assms(2) by (metis Suc_leI mult.commute mult_le_mono1)
  finally have "ps * (j * w + i + 1) \<le> ps * (w * h)" by (rule mult_le_mono2)
  with assms(3) show ?thesis by (simp add: distrib_left)
qed

lemma unat_mult: "unat x * unat y < COORD_MAX \<Longrightarrow> unat (x * y :: u32) = unat x * unat y"
  by (subst unat_mult_lem [symmetric]) simp

lemma surface_offset:
  assumes "x < W" "y < H" "ps * (W * H) < n" "0 < ps"
  shows "ps * (y * W + x) < n" "y * W + x < n" "y * W < n" "ps * W < (n :: nat)"
proof -
  have "y * W + x < Suc y * W" using assms(1) by simp
  also have "\<dots> \<le> W * H" using assms(2) by (metis Suc_leI mult.commute mult_le_mono1)
  finally have l: "y * W + x < W * H" .
  have g: "W * H \<le> ps * (W * H)" "y * W + x \<le> ps * (y * W + x)" using assms(4) by simp_all
  have "ps * (y * W + x) < ps * (W * H)" using l assms(4) by simp
  then show "ps * (y * W + x) < n" "y * W + x < n" "y * W < n" using g assms(3) l by linarith+
  have "W \<le> W * H" using assms(2) by simp
  then show "ps * W < n" using assms(3) by (meson le_less_trans mult_le_mono2)
qed

text \<open>The row copy, pixel by pixel: \<open>X\<close>, \<open>Y\<close>, \<open>w\<close>, \<open>h\<close> are the place of the pixmap in the surface.\<close>

lemma copy_pixels:
  assumes ps: "0 < ps" and mem: "ps * (W * H) \<le> length mem" and fits: "X + w \<le> W" "Y + h \<le> H"
    and pix: "ps * (w * h) \<le> length pix"
  shows "\<exists>mem'. copy_rows mem (ps * (Y * W + X)) (ps * W) pix 0 (w * ps) h = Inr mem' \<and> length mem' = length mem \<and>
    (\<forall>j < h. \<forall>i < w. \<forall>c < ps. mem' ! (ps * ((Y + j) * W + (X + i)) + c) = pix ! (ps * (j * w + i) + c)) \<and>
    (\<forall>i < W. \<forall>j < H. \<forall>c < ps. \<not> (X \<le> i \<and> i < X + w \<and> Y \<le> j \<and> j < Y + h) \<longrightarrow>
       mem' ! (ps * (j * W + i) + c) = mem ! (ps * (j * W + i) + c))"
proof -
  have ws: "w * ps \<le> ps * W" using fits(1) by (simp add: mult.commute)
  have "ps * (Y * W + X) + r * (ps * W) + w * ps \<le> length mem" if "r < h" for r
  proof -
    have "(Y + r) * W + X + w \<le> Suc (Y + r) * W" using fits(1) by simp
    also have "\<dots> \<le> H * W" using that fits(2) by (intro mult_le_mono1) simp
    finally have "ps * ((Y + r) * W + X + w) \<le> ps * (H * W)" by (rule mult_le_mono2)
    with mem show ?thesis by (simp add: algebra_simps)
  qed
  then obtain m where m: "copy_rows mem (ps * (Y * W + X)) (ps * W) pix 0 (w * ps) h = Inr m" "length m = length mem"
      "\<forall>r < h. \<forall>c < w * ps. m ! (ps * (Y * W + X) + r * (ps * W) + c) = pix ! (0 + r * (w * ps) + c)"
      "\<forall>k < length mem. (\<forall>r < h. \<not> (ps * (Y * W + X) + r * (ps * W) \<le> k \<and> k < ps * (Y * W + X) + r * (ps * W) + w * ps))
         \<longrightarrow> m ! k = mem ! k"
    using copy_rows_ok [OF ws, of 0 h pix "ps * (Y * W + X)" mem] pix by (auto simp: algebra_simps)
  have "m ! (ps * ((Y + j) * W + (X + i)) + c) = pix ! (ps * (j * w + i) + c)" if "j < h" "i < w" "c < ps" for i j c
  proof -
    have "ps * i + c < ps * Suc i" using that by simp
    also have "\<dots> \<le> ps * w" using that by (intro mult_le_mono2) simp
    finally have "ps * i + c < w * ps" by (simp add: mult.commute)
    then show ?thesis using m(3) [rule_format, OF that(1), of "ps * i + c"] by (simp add: algebra_simps)
  qed
  moreover have "m ! (ps * (j * W + i) + c) = mem ! (ps * (j * W + i) + c)"
    if ij: "i < W" "j < H" "c < ps" "\<not> (X \<le> i \<and> i < X + w \<and> Y \<le> j \<and> j < Y + h)" for i j c
  proof -
    have "ps * (j * W + i) + ps \<le> length mem" using pixel_bound ij(1,2) mem by blast
    moreover have "\<not> (ps * (Y * W + X) + r * (ps * W) \<le> ps * (j * W + i) + c \<and>
             ps * (j * W + i) + c < ps * (Y * W + X) + r * (ps * W) + w * ps)" if r: "r < h" for r
      using byte_position [of ps "Y + r" W X j i c w] ij fits(1) r by (auto simp: algebra_simps)
    ultimately show ?thesis using m(4) ij(3) by simp
  qed
  ultimately show ?thesis using m(1,2) by blast
qed

text \<open>The offsets the C code computes in 32 bits are the exact ones.\<close>

lemma copy_offsets:
  assumes "0 < unat ps" "unat ps * (unat W * H) < COORD_MAX" "unat x + unat width < unat W" "unat y < H"
  shows "unat (ps * (y * W + x)) = unat ps * (unat y * unat W + unat x)" "unat (ps * W) = unat ps * unat W"
    "unat (width * ps :: u32) = unat width * unat ps"
proof -
  have o: "unat ps * (unat y * unat W + unat x) < COORD_MAX" "unat y * unat W + unat x < COORD_MAX"
      "unat y * unat W < COORD_MAX" "unat ps * unat W < COORD_MAX"
    using surface_offset [of "unat x" "unat W" "unat y" H "unat ps" COORD_MAX] assms by simp_all
  have "unat (y * W + x) = unat y * unat W + unat x" using o(2,3) by (simp add: unat_add unat_mult)
  then show "unat (ps * (y * W + x)) = unat ps * (unat y * unat W + unat x)" using o(1) by (simp add: unat_mult)
  show "unat (ps * W) = unat ps * unat W" using o(4) by (rule unat_mult)
  have "unat width * unat ps \<le> unat ps * unat W" using assms(3) by (simp add: mult.commute)
  from le_less_trans [OF this o(4)] show "unat (width * ps) = unat width * unat ps" by (rule unat_mult)
qed

lemma atlasCopyData_ok:
  assumes ps: "0 < psize a" and mem: "psize a * (awidth a * aheight a) \<le> length (at_mem a)"
      "psize a * (awidth a * aheight a) < COORD_MAX"
    and fits: "unat x + unat width < awidth a" "unat y + unat height < aheight a"
    and pix: "psize a * (unat width * unat height) \<le> length pix"
  shows "\<exists>mem'. atlasCopyData a (x, y) width height pix = Inr (a\<lparr>at_mem := mem'\<rparr>) \<and> length mem' = length (at_mem a) \<and>
    shows_at (a\<lparr>at_mem := mem'\<rparr>) (x, y) width height pix \<and>
    (\<forall>i < awidth a. \<forall>j < aheight a. (i, j) \<notin> rect x y width height \<longrightarrow>
       pixel (psize a) (awidth a) mem' i j = pixel (psize a) (awidth a) (at_mem a) i j)"
proof -
  let ?X = "unat x" and ?Y = "unat y" and ?w = "unat width" and ?h = "unat height" and ?ps = "psize a"
  let ?W = "awidth a" and ?H = "aheight a"
  obtain m where m: "copy_rows (at_mem a) (?ps * (?Y * ?W + ?X)) (?ps * ?W) pix 0 (?w * ?ps) ?h = Inr m" "length m = length (at_mem a)"
      "\<forall>j < ?h. \<forall>i < ?w. \<forall>c < ?ps. m ! (?ps * ((?Y + j) * ?W + (?X + i)) + c) = pix ! (?ps * (j * ?w + i) + c)"
      "\<forall>i < ?W. \<forall>j < ?H. \<forall>c < ?ps. \<not> (?X \<le> i \<and> i < ?X + ?w \<and> ?Y \<le> j \<and> j < ?Y + ?h) \<longrightarrow>
         m ! (?ps * (j * ?W + i) + c) = at_mem a ! (?ps * (j * ?W + i) + c)"
    using copy_pixels [OF ps mem(1), of ?X ?w ?Y ?h pix] fits pix by auto
  have "pixel ?ps ?W m (?X + i) (?Y + j) = pixel ?ps ?w pix i j" if "j < ?h" "i < ?w" for i j
    using pixel_bound [of "?X + i" ?W "?Y + j" ?H ?ps "length m"] pixel_bound [of i ?w j ?h ?ps "length pix"]
      that fits mem(1) pix m(2,3) by (intro nth_equalityI) (auto simp: pixel_def)
  moreover have "pixel ?ps ?W m i j = pixel ?ps ?W (at_mem a) i j" if "i < ?W" "j < ?H" "(i, j) \<notin> rect x y width height" for i j
    using pixel_bound [OF that(1,2) mem(1)] m(2,4) that by (intro pixel_nth) (auto simp: rect_def)
  moreover have "pixelSize (at_psm a) \<noteq> 0" using ps by auto
  moreover note copy_offsets [OF ps mem(2) fits(1), of y]
  ultimately show ?thesis using m(1,2) fits(2)
    by (intro exI [of _ m]) (simp add: atlasCopyData_def Let_def shows_at_def)
qed

section \<open>Placing pixmaps\<close>

definition same_surface :: "atlas \<Rightarrow> atlas \<Rightarrow> bool" where
  "same_surface a a' \<longleftrightarrow> at_psm a' = at_psm a \<and> al_w (at_allocation a') = al_w (at_allocation a) \<and>
     al_h (at_allocation a') = al_h (at_allocation a)"

definition keeps_pixels :: "atlas \<Rightarrow> atlas \<Rightarrow> bool" where
  "keeps_pixels a a' \<longleftrightarrow> (\<forall>i < awidth a. \<forall>j < aheight a. (i, j) \<notin> cells (at_allocation a) \<longrightarrow>
     pixel (psize a) (awidth a) (at_mem a') i j = pixel (psize a) (awidth a) (at_mem a) i j)"

lemma atlasPlace_ok:
  assumes ok: "atlas_ok a" and pm: "pixmap_ok a width height pix"
  shows "atlasPlace a width height (Some pix) = Inr (None, a) \<or>
    (\<exists>x y a'. atlasPlace a width height (Some pix) = Inr (Some (x, y), a') \<and> atlas_ok a' \<and> same_surface a a' \<and>
       rect x y width height \<subseteq> cells (at_allocation a) - cells (at_allocation a') \<and>
       cells (at_allocation a') \<subseteq> cells (at_allocation a) \<and>
       shows_at a' (x, y) width height pix \<and> keeps_pixels a a')"
proof (cases "allocPlace (at_allocation a) (width + 1) (height + 1)")
  case None
  then show ?thesis by (simp add: atlasPlace_def)
next
  case (Some r)
  then obtain t x y where t: "allocPlace (at_allocation a) (width + 1) (height + 1) = Some (t, x, y)" by (cases r) auto
  have ok': "alloc_ok (at_allocation a)" using ok by (simp add: atlas_ok_def)
  note c = allocPlace_cells [OF t ok'] and sh = allocPlace_shape [OF t]
  have u: "unat (width + 1) = unat width + 1" "unat (height + 1) = unat height + 1"
    using pm by (auto simp: pixmap_ok_def intro!: unat_add_lem [THEN iffD1, of _ 1, simplified])
  have sub: "rect x y width height \<subseteq> rect x y (width + 1) (height + 1)" using u by (auto simp: rect_def)
  have "(unat x + unat width, unat y + unat height) \<in> rect x y (width + 1) (height + 1)" using u by (simp add: rect_def)
  with c ok have fits: "unat x + unat width < awidth a" "unat y + unat height < aheight a"
    by (fastforce simp: atlas_ok_def)+
  let ?a = "a\<lparr>at_allocation := t\<rparr>"
  obtain m where m: "atlasCopyData ?a (x, y) width height pix = Inr (?a\<lparr>at_mem := m\<rparr>)" "length m = length (at_mem a)"
      "shows_at (?a\<lparr>at_mem := m\<rparr>) (x, y) width height pix"
      "\<forall>i < awidth a. \<forall>j < aheight a. (i, j) \<notin> rect x y width height \<longrightarrow>
         pixel (psize a) (awidth a) m i j = pixel (psize a) (awidth a) (at_mem a) i j"
    using atlasCopyData_ok [of ?a x width y height pix] fits ok pm sh by (auto simp: atlas_ok_def pixmap_ok_def)
  have "atlas_ok (?a\<lparr>at_mem := m\<rparr>)" using ok c sh m(2) by (auto simp: atlas_ok_def)
  moreover have "keeps_pixels a (?a\<lparr>at_mem := m\<rparr>)" using m(4) c sub by (fastforce simp: keeps_pixels_def)
  ultimately show ?thesis using t m(1,3) c sub sh by (auto simp: atlasPlace_def same_surface_def)
qed

lemma shows_at_kept:
  assumes "shows_at a p w h pix" "keeps_pixels a a'" "same_surface a a'"
    "rect (fst p) (snd p) w h \<inter> cells (at_allocation a) = {}" "rect (fst p) (snd p) w h \<subseteq> {0..<awidth a} \<times> {0..<aheight a}"
  shows "shows_at a' p w h pix"
proof -
  have "pixel (psize a) (awidth a) (at_mem a') (unat (fst p) + i) (unat (snd p) + j) =
      pixel (psize a) (awidth a) (at_mem a) (unat (fst p) + i) (unat (snd p) + j)"
    if "i < unat w" "j < unat h" for i j
  proof -
    have "(unat (fst p) + i, unat (snd p) + j) \<in> rect (fst p) (snd p) w h" using that by (simp add: rect_def)
    with assms(4,5) have "(unat (fst p) + i, unat (snd p) + j) \<in> {0..<awidth a} \<times> {0..<aheight a}"
        "(unat (fst p) + i, unat (snd p) + j) \<notin> cells (at_allocation a)" by blast+
    with assms(2) show ?thesis by (simp add: keeps_pixels_def)
  qed
  with assms(1,3) show ?thesis by (simp add: shows_at_def same_surface_def)
qed

lemma keeps_pixels_trans:
  assumes "keeps_pixels a b" "keeps_pixels b c" "same_surface a b" "cells (at_allocation b) \<subseteq> cells (at_allocation a)"
  shows "keeps_pixels a c"
  unfolding keeps_pixels_def
proof (intro allI impI)
  fix i j assume ij: "i < awidth a" "j < aheight a" "(i, j) \<notin> cells (at_allocation a)"
  with assms(4) have "(i, j) \<notin> cells (at_allocation b)" by blast
  with ij assms(1-3) show "pixel (psize a) (awidth a) (at_mem c) i j = pixel (psize a) (awidth a) (at_mem a) i j"
    by (simp add: keeps_pixels_def same_surface_def)
qed

lemma place_all_ok:
  "atlas_ok a \<Longrightarrow> \<forall>(w, h, pix) \<in> set ims. pixmap_ok a w h pix \<Longrightarrow>
   \<exists>ps a'. place_all a ims = Inr (ps, a') \<and> length ps = length ims \<and> atlas_ok a' \<and> same_surface a a' \<and> keeps_pixels a a' \<and>
     cells (at_allocation a') \<subseteq> cells (at_allocation a) \<and>
     (\<forall>A \<in> set (areas ims ps). A \<subseteq> cells (at_allocation a)) \<and> sorted_wrt (\<lambda>A B. A \<inter> B = {}) (areas ims ps) \<and>
     (\<forall>k < length ims. \<forall>p w h pix. ims ! k = (w, h, pix) \<longrightarrow> ps ! k = Some p \<longrightarrow> shows_at a' p w h pix)"
proof (induction ims arbitrary: a)
  case Nil
  then show ?case by (simp add: same_surface_def keeps_pixels_def)
next
  case (Cons im ims)
  obtain w h pix where [simp]: "im = (w, h, pix)" by (cases im)
  have pm: "pixmap_ok a w h pix" using Cons.prems(2) by simp
  consider (full) "atlasPlace a w h (Some pix) = Inr (None, a)"
    | (placed) x y a1 where "atlasPlace a w h (Some pix) = Inr (Some (x, y), a1)" "atlas_ok a1" "same_surface a a1"
        "rect x y w h \<subseteq> cells (at_allocation a) - cells (at_allocation a1)"
        "cells (at_allocation a1) \<subseteq> cells (at_allocation a)" "shows_at a1 (x, y) w h pix" "keeps_pixels a a1"
    using atlasPlace_ok [OF Cons.prems(1) pm] by blast
  then show ?case
  proof cases
    case full
    have "\<forall>(w, h, pix) \<in> set ims. pixmap_ok a w h pix" using Cons.prems(2) by simp
    from Cons.IH [OF Cons.prems(1) this] obtain ps a2 where r: "place_all a ims = Inr (ps, a2)" "length ps = length ims"
        "atlas_ok a2" "same_surface a a2" "keeps_pixels a a2" "cells (at_allocation a2) \<subseteq> cells (at_allocation a)"
        "\<forall>A \<in> set (areas ims ps). A \<subseteq> cells (at_allocation a)" "sorted_wrt (\<lambda>A B. A \<inter> B = {}) (areas ims ps)"
        "\<forall>k < length ims. \<forall>p w h pix. ims ! k = (w, h, pix) \<longrightarrow> ps ! k = Some p \<longrightarrow> shows_at a2 p w h pix" by blast
    with full show ?thesis
      by (intro exI [of _ "None # ps"] exI [of _ a2]) (simp add: nth_Cons split: nat.splits)
  next
    case placed
    have "\<forall>(w, h, pix) \<in> set ims. pixmap_ok a1 w h pix"
      using Cons.prems(2) placed(3) by (auto simp: pixmap_ok_def same_surface_def)
    from Cons.IH [OF placed(2) this] obtain ps a2 where r: "place_all a1 ims = Inr (ps, a2)" "length ps = length ims"
        "atlas_ok a2" "same_surface a1 a2" "keeps_pixels a1 a2" "cells (at_allocation a2) \<subseteq> cells (at_allocation a1)"
        "\<forall>A \<in> set (areas ims ps). A \<subseteq> cells (at_allocation a1)" "sorted_wrt (\<lambda>A B. A \<inter> B = {}) (areas ims ps)"
        "\<forall>k < length ims. \<forall>p w h pix. ims ! k = (w, h, pix) \<longrightarrow> ps ! k = Some p \<longrightarrow> shows_at a2 p w h pix" by blast
    have "rect x y w h \<subseteq> {0..<awidth a1} \<times> {0..<aheight a1}"
      using placed(3,4) Cons.prems(1) by (auto simp: atlas_ok_def same_surface_def)
    moreover have "rect x y w h \<inter> cells (at_allocation a1) = {}" using placed(4) by blast
    ultimately have "shows_at a2 (x, y) w h pix"
      by (intro shows_at_kept [OF placed(6) r(5,4)]) simp_all
    moreover have "same_surface a a2" using placed(3) r(4) by (simp add: same_surface_def)
    moreover have "keeps_pixels a a2" using keeps_pixels_trans placed r by blast
    moreover have "\<forall>A \<in> set (areas ims ps). rect x y w h \<inter> A = {}" "\<forall>A \<in> set (areas ims ps). A \<subseteq> cells (at_allocation a)"
      using r(7) placed(4,5) by blast+
    moreover have "rect x y w h \<subseteq> cells (at_allocation a)" "cells (at_allocation a2) \<subseteq> cells (at_allocation a)"
      using placed(4,5) r(6) by blast+
    ultimately show ?thesis using placed(1) r(1-3,8,9)
      by (intro exI [of _ "Some (x, y) # ps"] exI [of _ a2]) (simp add: nth_Cons split: nat.splits)
  qed
qed

lemma atlasNew_ok:
  assumes "unat width < COORD_MAX" "unat height < COORD_MAX" "pixelSize psm \<noteq> 0"
    and "unat (pixelSize psm) * (unat width * unat height) < COORD_MAX"
    and "unat (pixelSize psm) * (unat width * unat height) \<le> texture_size width height psm"
  shows "atlas_ok (atlasNew texture_size width height psm)"
  using assms by (auto simp: atlas_ok_def atlasNew_def allocNew_def rect_def unat_gt_0)

section \<open>Properties\<close>

text \<open>C14: placing a rectangle takes it out of the free space and out of nothing else: the new rectangle
  was free, and afterwards exactly the other pixels are free.  The tree stays well formed, so its free
  rectangles never overlap.\<close>

theorem allocPlace_partition:
  assumes "alloc_ok t" and "allocPlace t width height = Some (t', x, y)"
  shows "alloc_ok t' \<and> rect x y width height \<subseteq> cells t \<and> cells t' = cells t - rect x y width height"
  using allocPlace_cells [OF assms(2,1)] .

theorem allocPlace_partition_witness:
  "\<exists>t'. allocPlace (allocNew 0 0 8 8) 3 2 = Some (t', 0, 0) \<and>
     alloc_ok t' \<and> rect 0 0 3 2 \<subseteq> cells (allocNew 0 0 8 8) \<and> cells t' = cells (allocNew 0 0 8 8) - rect 0 0 3 2"
proof -
  have ok: "alloc_ok (allocNew 0 0 8 8)" by (simp add: allocNew_def)
  have "map_option snd (allocPlace (allocNew 0 0 8 8) 3 2) = Some (0, 0)"
    by (simp add: allocNew_def ALLOC_FITS_def Let_def)
  then obtain t' where t': "allocPlace (allocNew 0 0 8 8) 3 2 = Some (t', 0, 0)" by auto
  from allocPlace_partition [OF ok t'] t' show ?thesis by blast
qed

text \<open>A request is refused only when no free rectangle of the tree is large enough: the size checks
  at the inner nodes never cut off a subtree that could serve it.\<close>

theorem allocPlace_complete:
  assumes "alloc_ok t"
  shows "allocPlace t width height = None \<longleftrightarrow> (\<forall>s \<in> set (free_sizes t). \<not> (width \<le> fst s \<and> height \<le> snd s))"
  using allocPlace_None_iff [OF assms] .

theorem allocPlace_complete_witness:
  "allocPlace (allocNew 0 0 8 8) 3 9 = None \<longleftrightarrow> (\<forall>s \<in> set (free_sizes (allocNew 0 0 8 8)). \<not> (3 \<le> fst s \<and> 9 \<le> snd s))"
  by (rule allocPlace_complete) (simp add: allocNew_def)

text \<open>C33: a sequence of pixmaps placed into a new atlas never writes outside the surface, and at the end
  every pixmap that got a place is shown there unchanged, at places that lie in the surface and do not
  overlap: later placements never damage earlier ones.  The surface must hold the pixels of its size
  (what \<open>gsKit_texture_size\<close> promises), and each pixmap the pixels of its own.\<close>

theorem atlas_images_intact:
  assumes "unat width < COORD_MAX" "unat height < COORD_MAX" "pixelSize psm \<noteq> 0"
    and "unat (pixelSize psm) * (unat width * unat height) < COORD_MAX"
    and "unat (pixelSize psm) * (unat width * unat height) \<le> texture_size width height psm"
    and "\<forall>(w, h, pix) \<in> set ims. pixmap_ok (atlasNew texture_size width height psm) w h pix"
  shows "\<exists>ps a. place_all (atlasNew texture_size width height psm) ims = Inr (ps, a) \<and> length ps = length ims \<and>
    (\<forall>k < length ims. \<forall>p w h pix. ims ! k = (w, h, pix) \<longrightarrow> ps ! k = Some p \<longrightarrow> shows_at a p w h pix) \<and>
    (\<forall>A \<in> set (areas ims ps). A \<subseteq> {0..<unat width} \<times> {0..<unat height}) \<and>
    sorted_wrt (\<lambda>A B. A \<inter> B = {}) (areas ims ps)"
proof -
  have "cells (at_allocation (atlasNew texture_size width height psm)) = {0..<unat width} \<times> {0..<unat height}"
    by (auto simp: atlasNew_def allocNew_def rect_def)
  moreover have "atlas_ok (atlasNew texture_size width height psm)" using assms(1-5) by (rule atlasNew_ok)
  ultimately show ?thesis using place_all_ok [OF _ assms(6)] by fastforce
qed

definition texture_bytes :: "u32 \<Rightarrow> u32 \<Rightarrow> gs_psm \<Rightarrow> nat" where
  "texture_bytes w h psm = unat (pixelSize psm) * (unat w * unat h)"

theorem atlas_images_intact_witness:
  "let ims = [(2, 1, [7, 8]), (1, 2, [5, 6])] in
   \<exists>ps a. place_all (atlasNew texture_bytes 8 8 GS_PSM_T8) ims = Inr (ps, a) \<and> length ps = length ims \<and>
    (\<forall>k < length ims. \<forall>p w h pix. ims ! k = (w, h, pix) \<longrightarrow> ps ! k = Some p \<longrightarrow> shows_at a p w h pix) \<and>
    (\<forall>A \<in> set (areas ims ps). A \<subseteq> {0..<unat (8 :: u32)} \<times> {0..<unat (8 :: u32)}) \<and>
    sorted_wrt (\<lambda>A B. A \<inter> B = {}) (areas ims ps)"
  unfolding Let_def
  by (rule atlas_images_intact) (simp_all add: texture_bytes_def pixmap_ok_def atlasNew_def)

end
