(* ===== verification/TexCache.thy ===== *)
theory TexCache
  imports Refinement
begin

text \<open>
  The texture cache, \<open>src/texcache.c\<close>: a fixed number of entries, filled by requests that the I/O
  worker serves later.  A client keeps a handle, the pair \<open>cacheId\<close>, \<open>UID\<close> that \<open>cacheGetTexture\<close>
  updates through pointers.  A texture is the name of the image loaded into it, \<open>None\<close> when
  \<open>Mem\<close> is NULL; a pending request is identified by the \<open>UID\<close> it carries, which is what the pointer
  \<open>qr\<close> of its entry stands for.  The item list's \<open>itemGetImage\<close> is the result of a load action, and
  the acceptance of a request by \<open>ioPutRequest\<close> part of the action that asks for it.
\<close>

section \<open>State and operations\<close>

record cache_entry =
  ce_texture :: "string option"
  ce_qr :: "int option"
  ce_lastUsed :: int
  ce_UID :: int

text \<open>The identifiers are C integers that are counted up by one for every load; the overflow after \<open>2 ^ 31\<close> loads is not modelled.\<close>

record image_cache =
  ic_nextUID :: int
  ic_content :: "cache_entry list"

record load_image_request =
  li_entry :: nat
  li_cacheUID :: int
  li_value :: string

definition cacheClearItem :: "cache_entry \<Rightarrow> cache_entry" where
  "cacheClearItem item = \<lparr>ce_texture = None, ce_qr = None, ce_lastUsed = -1, ce_UID = 0\<rparr>"

definition cacheInitCache :: "cache_entry list \<Rightarrow> image_cache" where
  "cacheInitCache raw = \<lparr>ic_nextUID = 1, ic_content = map cacheClearItem raw\<rparr>"

definition cacheDestroyCache :: "image_cache \<Rightarrow> cache_entry list" where
  "cacheDestroyCache cache = map cacheClearItem (ic_content cache)"

text \<open>The handler of \<open>IO_CACHE_LOAD_ART\<close> requests: \<open>loaded\<close> is whether \<open>itemGetImage\<close> succeeded.\<close>

definition cacheLoadImage :: "int \<Rightarrow> bool \<Rightarrow> image_cache \<Rightarrow> load_image_request \<Rightarrow> image_cache cres" where
  "cacheLoadImage guiFrameId loaded cache req =
     c_bind (peek (ic_content cache) (li_entry req)) (\<lambda>e.
       if li_cacheUID req \<noteq> ce_UID e then Inr cache
       else
         let e1 = e\<lparr>ce_texture := None\<rparr>;
             e2 = (if loaded then e1\<lparr>ce_texture := Some (li_value req), ce_lastUsed := guiFrameId\<rparr>
                   else e1\<lparr>ce_lastUsed := 0\<rparr>)
         in Inr (cache\<lparr>ic_content := (ic_content cache)[li_entry req := e2\<lparr>ce_qr := None\<rparr>]\<rparr>))"

text \<open>The search for the least recently used entry: \<open>i\<close> counts the entries, \<open>rtime\<close> is the time to
  beat.\<close>

fun find_oldest :: "cache_entry list \<Rightarrow> nat \<Rightarrow> int \<Rightarrow> nat option \<Rightarrow> nat option" where
  "find_oldest [] i rtime best = best"
| "find_oldest (e # es) i rtime best =
     (if ce_qr e = None \<and> ce_lastUsed e < rtime then find_oldest es (i + 1) (ce_lastUsed e) (Some i)
      else find_oldest es (i + 1) rtime best)"

text \<open>What the call returns and leaves behind: the texture (\<open>None\<close> for NULL), the handle, the cache and
  the request it hands to the I/O manager.\<close>

record get_out =
  go_texture :: "string option"
  go_cacheId :: int
  go_UID :: int
  go_cache :: image_cache
  go_req :: "load_image_request option"

definition cache_miss :: "int \<Rightarrow> bool \<Rightarrow> image_cache \<Rightarrow> int \<Rightarrow> int \<Rightarrow> string \<Rightarrow> get_out" where
  "cache_miss guiFrameId delayed cache cacheId UID val =
     (if delayed then \<lparr>go_texture = None, go_cacheId = cacheId, go_UID = UID, go_cache = cache, go_req = None\<rparr>
      else case find_oldest (ic_content cache) 0 guiFrameId None of
        None \<Rightarrow> \<lparr>go_texture = None, go_cacheId = cacheId, go_UID = UID, go_cache = cache, go_req = None\<rparr>
      | Some i \<Rightarrow>
          let u = ic_nextUID cache;
              e = (cacheClearItem (ic_content cache ! i))\<lparr>ce_qr := Some u, ce_UID := u\<rparr>
          in \<lparr>go_texture = None, go_cacheId = int i, go_UID = u,
              go_cache = cache\<lparr>ic_content := (ic_content cache)[i := e], ic_nextUID := u + 1\<rparr>,
              go_req = Some \<lparr>li_entry = i, li_cacheUID = u, li_value = val\<rparr>\<rparr>)"

definition cacheGetTexture ::
  "int \<Rightarrow> int \<Rightarrow> int \<Rightarrow> image_cache \<Rightarrow> int \<Rightarrow> int \<Rightarrow> string \<Rightarrow> get_out cres" where
  "cacheGetTexture guiFrameId guiInactiveFrames delay cache cacheId UID val =
     (let keep = (\<lambda>tex cid c. \<lparr>go_texture = tex, go_cacheId = cid, go_UID = UID, go_cache = c, go_req = None\<rparr>);
          miss = cache_miss guiFrameId (guiInactiveFrames < delay) cache
      in if cacheId = -2 then Inr (keep None cacheId cache)
         else if cacheId = -1 then Inr (miss (-1) UID val)
         else c_bind (if cacheId < 0 then Inl OutOfBounds else peek (ic_content cache) (nat cacheId)) (\<lambda>e.
           if ce_UID e = UID then
             if ce_qr e \<noteq> None then Inr (keep None cacheId cache)
             else if ce_lastUsed e = 0 then Inr (keep None (-2) cache)
             else Inr (keep (ce_texture e) cacheId
                    (cache\<lparr>ic_content := (ic_content cache)[nat cacheId := e\<lparr>ce_lastUsed := guiFrameId\<rparr>]\<rparr>))
           else Inr (miss (-1) UID val)))"

section \<open>The cache in use\<close>

text \<open>Clients \<open>h\<close> that each ask for one image \<open>img h\<close>, the queue of the I/O manager, and the frame
  counter of the user interface.\<close>

record tc_sys =
  tc_cache :: image_cache
  tc_pending :: "load_image_request list"
  tc_handle :: "nat \<Rightarrow> int \<times> int"
  tc_frame :: int

text \<open>A client asks (with the inactivity and delay counters of the moment, and whether \<open>ioPutRequest\<close>
  takes a request), the I/O worker serves the oldest request, the next frame begins.\<close>

datatype tc_action = Get nat int int bool | Load bool | NextFrame

datatype tc_event = EvTexture nat "string option" | EvStale | EvTexFault c_fault

definition tc_next :: "(nat \<Rightarrow> string) \<Rightarrow> tc_sys \<Rightarrow> tc_action \<Rightarrow> (tc_event list \<times> tc_sys) option" where
  "tc_next img \<sigma> act =
     (case act of
        Get h inactive delay accepted \<Rightarrow>
          (case cacheGetTexture (tc_frame \<sigma>) inactive delay (tc_cache \<sigma>) (fst (tc_handle \<sigma> h)) (snd (tc_handle \<sigma> h)) (img h) of
             Inl e \<Rightarrow> Some ([EvTexFault e], \<sigma>)
           | Inr r \<Rightarrow>
               Some (case go_texture r of None \<Rightarrow> [] | Some t \<Rightarrow> [EvTexture h (Some t)],
                     \<sigma>\<lparr>tc_cache := go_cache r,
                       tc_handle := (tc_handle \<sigma>)(h := (go_cacheId r, go_UID r)),
                       tc_pending := tc_pending \<sigma> @ (case go_req r of None \<Rightarrow> [] | Some q \<Rightarrow> if accepted then [q] else [])\<rparr>))
      | Load loaded \<Rightarrow>
          (case tc_pending \<sigma> of
             [] \<Rightarrow> None
           | q # qs \<Rightarrow>
               (case cacheLoadImage (tc_frame \<sigma>) loaded (tc_cache \<sigma>) q of
                  Inl e \<Rightarrow> Some ([EvTexFault e], \<sigma>)
                | Inr c \<Rightarrow> Some (if li_cacheUID q \<noteq> ce_UID (ic_content (tc_cache \<sigma>) ! li_entry q) then [EvStale] else [],
                                 \<sigma>\<lparr>tc_cache := c, tc_pending := qs\<rparr>)))
      | NextFrame \<Rightarrow> Some ([], \<sigma>\<lparr>tc_frame := tc_frame \<sigma> + 1\<rparr>))"

definition tc_start :: "nat \<Rightarrow> tc_sys" where
  "tc_start n = \<lparr>tc_cache = cacheInitCache (replicate n \<lparr>ce_texture = None, ce_qr = None, ce_lastUsed = 0, ce_UID = 0\<rparr>),
     tc_pending = [], tc_handle = (\<lambda>_. (-1, -1)), tc_frame = 1\<rparr>"

section \<open>Specification\<close>

text \<open>A client is only ever shown its own image, and no load is dropped as stale.\<close>

fun tc_spec :: "(nat \<Rightarrow> string) \<Rightarrow> unit \<Rightarrow> tc_event \<Rightarrow> unit option" where
  "tc_spec img u (EvTexture h t) = (if t = Some (img h) then Some u else None)"
| "tc_spec img u EvStale = None"
| "tc_spec img u (EvTexFault e) = None"

text \<open>An entry and the requests for it.\<close>

definition entry_ok :: "int \<Rightarrow> cache_entry \<Rightarrow> bool" where
  "entry_ok nextUID e \<longleftrightarrow> 0 \<le> ce_UID e \<and> ce_UID e < nextUID \<and>
     (ce_qr e = None \<longrightarrow> ce_UID e \<noteq> 0 \<longrightarrow> ce_lastUsed e \<noteq> 0 \<longrightarrow> ce_texture e \<noteq> None)"

definition pend_ok :: "cache_entry list \<Rightarrow> load_image_request list \<Rightarrow> bool" where
  "pend_ok es qs \<longleftrightarrow> distinct (map li_entry qs) \<and>
     (\<forall>q \<in> set qs. li_entry q < length es \<and> ce_UID (es ! li_entry q) = li_cacheUID q \<and>
        ce_qr (es ! li_entry q) = Some (li_cacheUID q))"

definition handle_ok ::
  "cache_entry list \<Rightarrow> int \<Rightarrow> load_image_request list \<Rightarrow> string \<Rightarrow> int \<times> int \<Rightarrow> bool" where
  "handle_ok es nx qs v p \<longleftrightarrow> fst p = -1 \<or> fst p = -2 \<or>
     0 \<le> fst p \<and> nat (fst p) < length es \<and> 0 < snd p \<and> snd p < nx \<and>
     (ce_UID (es ! nat (fst p)) = snd p \<longrightarrow>
        (\<forall>t. ce_texture (es ! nat (fst p)) = Some t \<longrightarrow> t = v) \<and>
        (\<forall>q \<in> set qs. li_entry q = nat (fst p) \<longrightarrow> li_value q = v))"

definition cache_inv ::
  "(nat \<Rightarrow> string) \<Rightarrow> image_cache \<Rightarrow> load_image_request list \<Rightarrow> (nat \<Rightarrow> int \<times> int) \<Rightarrow> bool" where
  "cache_inv img c qs hs \<longleftrightarrow> 0 < ic_nextUID c \<and> (\<forall>e \<in> set (ic_content c). entry_ok (ic_nextUID c) e) \<and>
     pend_ok (ic_content c) qs \<and> (\<forall>h. handle_ok (ic_content c) (ic_nextUID c) qs (img h) (hs h))"

definition tc_inv :: "(nat \<Rightarrow> string) \<Rightarrow> tc_sys \<Rightarrow> unit \<Rightarrow> bool" where
  "tc_inv img \<sigma> u \<longleftrightarrow> 0 < tc_frame \<sigma> \<and> cache_inv img (tc_cache \<sigma>) (tc_pending \<sigma>) (tc_handle \<sigma>)"

section \<open>Lemmas\<close>

lemma find_oldest_spec:
  assumes "\<forall>b. best = Some b \<longrightarrow> b < i"
  shows "case find_oldest es i rtime best of
      None \<Rightarrow> best = None \<and> (\<forall>e \<in> set es. ce_qr e = None \<longrightarrow> rtime \<le> ce_lastUsed e)
    | Some k \<Rightarrow> if k < i then best = Some k \<and> (\<forall>e \<in> set es. ce_qr e = None \<longrightarrow> rtime \<le> ce_lastUsed e)
                else k < i + length es \<and> ce_qr (es ! (k - i)) = None \<and> ce_lastUsed (es ! (k - i)) < rtime \<and>
                  (\<forall>e \<in> set es. ce_qr e = None \<longrightarrow> ce_lastUsed (es ! (k - i)) \<le> ce_lastUsed e)"
  using assms
proof (induction es arbitrary: i rtime best)
  case (Cons e es)
  show ?case
  proof (cases "ce_qr e = None \<and> ce_lastUsed e < rtime")
    case True
    from Cons.IH [of "Some i" "i + 1" "ce_lastUsed e"] True show ?thesis
      by (auto simp: nth_Cons' less_Suc_eq split: option.splits if_splits)
  next
    case False
    have "\<forall>b. best = Some b \<longrightarrow> b < i + 1" using Cons.prems by auto
    from Cons.IH [OF this, of rtime] False Cons.prems show ?thesis
      by (auto simp: nth_Cons' less_Suc_eq split: option.splits if_splits)
  qed
qed (auto split: option.splits)

lemmas find_oldest_start = find_oldest_spec [where best = None and i = 0, simplified]

lemma find_oldest_Some:
  "find_oldest es 0 rtime None = Some k \<Longrightarrow> k < length es \<and> ce_qr (es ! k) = None \<and> ce_lastUsed (es ! k) < rtime \<and>
     (\<forall>e \<in> set es. ce_qr e = None \<longrightarrow> ce_lastUsed (es ! k) \<le> ce_lastUsed e)"
  using find_oldest_start [where es = es and rtime = rtime] by simp

lemma nth_list_update_if: "i < length xs \<Longrightarrow> (xs[i := x]) ! j = (if i = j then x else xs ! j)"
  by simp

text \<open>A hit renews the time stamp of its entry.\<close>

lemma cache_inv_touch:
  assumes inv: "cache_inv img c qs hs" and i: "i < length (ic_content c)" and l: "ce_lastUsed (ic_content c ! i) \<noteq> 0"
  shows "cache_inv img (c\<lparr>ic_content := (ic_content c)[i := (ic_content c ! i)\<lparr>ce_lastUsed := frame\<rparr>]\<rparr>) qs hs"
proof -
  let ?es = "(ic_content c)[i := (ic_content c ! i)\<lparr>ce_lastUsed := frame\<rparr>]"
  have same: "ce_UID (?es ! j) = ce_UID (ic_content c ! j)" "ce_qr (?es ! j) = ce_qr (ic_content c ! j)"
      "ce_texture (?es ! j) = ce_texture (ic_content c ! j)" for j
    using i by (simp_all add: nth_list_update_if)
  have "entry_ok (ic_nextUID c) (ic_content c ! i)" using inv i by (simp add: cache_inv_def)
  then have "entry_ok (ic_nextUID c) ((ic_content c ! i)\<lparr>ce_lastUsed := frame\<rparr>)" using l by (simp add: entry_ok_def)
  then have "\<forall>e \<in> set ?es. entry_ok (ic_nextUID c) e"
    using inv set_update_subset_insert [of "ic_content c" i] by (fastforce simp: cache_inv_def)
  then show ?thesis using inv by (simp add: cache_inv_def pend_ok_def handle_ok_def same)
qed

text \<open>A miss gives the victim a fresh \<open>UID\<close>; nothing was pending for it.\<close>

lemma cache_inv_miss:
  fixes c :: image_cache
  defines "u \<equiv> ic_nextUID c"
  assumes inv: "cache_inv img c qs hs" and i: "i < length (ic_content c)" and free: "ce_qr (ic_content c ! i) = None"
    and new: "new = [] \<or> new = [\<lparr>li_entry = i, li_cacheUID = u, li_value = img h\<rparr>]"
  shows "cache_inv img (c\<lparr>ic_content := (ic_content c)[i := (cacheClearItem (ic_content c ! i))\<lparr>ce_qr := Some u, ce_UID := u\<rparr>],
      ic_nextUID := u + 1\<rparr>) (qs @ new) (hs(h := (int i, u)))"
proof -
  let ?e = "(cacheClearItem (ic_content c ! i))\<lparr>ce_qr := Some u, ce_UID := u\<rparr>"
  let ?es = "(ic_content c)[i := ?e]"
  have u: "0 < u" using inv by (simp add: cache_inv_def u_def)
  have fr: "\<forall>q \<in> set qs. li_entry q \<noteq> i" using inv free by (auto simp: cache_inv_def pend_ok_def)
  have "\<forall>e \<in> set (ic_content c). entry_ok (u + 1) e" using inv by (auto simp: cache_inv_def entry_ok_def u_def)
  moreover have "entry_ok (u + 1) ?e" using u by (simp add: entry_ok_def cacheClearItem_def)
  ultimately have "\<forall>e \<in> set ?es. entry_ok (u + 1) e"
    using set_update_subset_insert [of "ic_content c" i ?e] by blast
  moreover have "pend_ok ?es (qs @ new)"
    using inv new i fr by (auto simp: cache_inv_def pend_ok_def cacheClearItem_def)
  moreover have "handle_ok ?es (u + 1) (qs @ new) (img g) ((hs(h := (int i, u))) g)" for g
  proof (cases "g = h")
    case True
    have "\<forall>q \<in> set (qs @ new). li_entry q = i \<longrightarrow> li_value q = img h"
      by (rule disjE [OF new]) (simp_all add: fr)
    with True show ?thesis using i u by (simp add: handle_ok_def cacheClearItem_def)
  next
    case False
    have "handle_ok (ic_content c) u qs (img g) (hs g)" using inv by (simp add: cache_inv_def u_def)
    with False new i show ?thesis by (auto simp: handle_ok_def nth_list_update_if)
  qed
  ultimately show ?thesis using u by (simp add: cache_inv_def)
qed

text \<open>A load fills the entry that waits for it.\<close>

lemma cache_inv_load:
  assumes inv: "cache_inv img c (q # qs) hs" and "0 < frame"
  shows "\<exists>c'. cacheLoadImage frame loaded c q = Inr c' \<and> cache_inv img c' qs hs \<and>
    li_cacheUID q = ce_UID (ic_content c ! li_entry q)"
proof -
  let ?i = "li_entry q" and ?es = "ic_content c"
  have q: "?i < length ?es" "ce_UID (?es ! ?i) = li_cacheUID q" "\<forall>p \<in> set qs. li_entry p \<noteq> ?i"
    using inv by (simp_all add: cache_inv_def pend_ok_def rev_image_eqI) (metis image_eqI)
  define e where "e = (if loaded then (?es ! ?i)\<lparr>ce_texture := Some (li_value q), ce_lastUsed := frame, ce_qr := None\<rparr>
     else (?es ! ?i)\<lparr>ce_texture := None, ce_lastUsed := 0, ce_qr := None\<rparr>)"
  have eq: "cacheLoadImage frame loaded c q = Inr (c\<lparr>ic_content := ?es[?i := e]\<rparr>)"
    using q by (simp add: cacheLoadImage_def e_def Let_def)
  have "entry_ok (ic_nextUID c) (?es ! ?i)" using inv q(1) by (simp add: cache_inv_def)
  then have "entry_ok (ic_nextUID c) e" by (simp add: entry_ok_def e_def)
  then have "\<forall>x \<in> set (?es[?i := e]). entry_ok (ic_nextUID c) x"
    using inv set_update_subset_insert [of ?es ?i e] by (fastforce simp: cache_inv_def)
  moreover have "pend_ok (?es[?i := e]) qs" using inv q by (auto simp: cache_inv_def pend_ok_def)
  moreover have "handle_ok (?es[?i := e]) (ic_nextUID c) qs (img h) (hs h)" for h
  proof -
    have "handle_ok ?es (ic_nextUID c) (q # qs) (img h) (hs h)" using inv by (simp add: cache_inv_def)
    then show ?thesis using q by (auto simp: handle_ok_def nth_list_update_if e_def)
  qed
  ultimately have "cache_inv img (c\<lparr>ic_content := ?es[?i := e]\<rparr>) qs hs" using inv by (simp add: cache_inv_def)
  with eq q(2) show ?thesis by simp
qed

text \<open>What a call leaves behind keeps the invariant, whether or not its request is accepted.\<close>

definition out_ok :: "(nat \<Rightarrow> string) \<Rightarrow> load_image_request list \<Rightarrow> (nat \<Rightarrow> int \<times> int) \<Rightarrow> nat \<Rightarrow> get_out \<Rightarrow> bool" where
  "out_ok img qs hs h r \<longleftrightarrow> (go_texture r = None \<or> go_texture r = Some (img h)) \<and>
     (\<forall>accepted. cache_inv img (go_cache r) (qs @ (case go_req r of None \<Rightarrow> [] | Some q \<Rightarrow> if accepted then [q] else []))
        (hs(h := (go_cacheId r, go_UID r))))"

lemma handle_reset:
  "cache_inv img c qs hs \<Longrightarrow> x = -1 \<or> x = -2 \<Longrightarrow> cache_inv img c qs (hs(h := (x, y)))"
  by (auto simp: cache_inv_def handle_ok_def)

lemma cache_miss_out:
  assumes c: "cache_inv img c qs hs"
  shows "out_ok img qs hs h (cache_miss frame delayed c (-1) uid (img h))"
proof (cases "delayed \<or> find_oldest (ic_content c) 0 frame None = None")
  case True
  then show ?thesis using handle_reset [OF c] by (auto simp: out_ok_def cache_miss_def)
next
  case False
  then obtain i where i: "find_oldest (ic_content c) 0 frame None = Some i" by auto
  have "cache_inv img (c\<lparr>ic_content := (ic_content c)[i := (cacheClearItem (ic_content c ! i))\<lparr>ce_qr := Some (ic_nextUID c), ce_UID := ic_nextUID c\<rparr>],
      ic_nextUID := ic_nextUID c + 1\<rparr>) (qs @ (if accepted then [\<lparr>li_entry = i, li_cacheUID = ic_nextUID c, li_value = img h\<rparr>] else []))
      (hs(h := (int i, ic_nextUID c)))" for accepted
    using find_oldest_Some [OF i] by (intro cache_inv_miss [OF c]) auto
  then show ?thesis using False i by (simp add: out_ok_def cache_miss_def Let_def)
qed

lemma cacheGetTexture_out:
  assumes c: "cache_inv img c qs hs" and p: "hs h = (cid, uid)"
  shows "\<exists>r. cacheGetTexture frame inactive delay c cid uid (img h) = Inr r \<and> out_ok img qs hs h r"
proof (cases "cid = -1 \<or> cid = -2")
  case True
  then show ?thesis using handle_reset [OF c] cache_miss_out [OF c]
    by (auto simp: cacheGetTexture_def Let_def out_ok_def)
next
  case False
  have "handle_ok (ic_content c) (ic_nextUID c) qs (img h) (hs h)" using c by (simp add: cache_inv_def)
  with False p have i: "0 \<le> cid" "nat cid < length (ic_content c)" "0 < uid"
      "ce_UID (ic_content c ! nat cid) = uid \<longrightarrow> (\<forall>t. ce_texture (ic_content c ! nat cid) = Some t \<longrightarrow> t = img h)"
    by (auto simp: handle_ok_def)
  have e: "entry_ok (ic_nextUID c) (ic_content c ! nat cid)" using c i(2) by (simp add: cache_inv_def)
  have id: "hs(h := (cid, uid)) = hs" using p by (simp add: fun_upd_idem)
  show ?thesis
  proof (cases "ce_UID (ic_content c ! nat cid) = uid")
    case True
    then show ?thesis using False i e c handle_reset [OF c, of "-2" h] cache_inv_touch [OF c i(2)]
      by (auto simp: cacheGetTexture_def Let_def id entry_ok_def out_ok_def)
  next
    case False
    then show ?thesis using \<open>\<not> (cid = -1 \<or> cid = -2)\<close> i cache_miss_out [OF c]
      by (simp add: cacheGetTexture_def Let_def)
  qed
qed

lemma tc_step_inv:
  assumes inv: "tc_inv img \<sigma> u" and n: "tc_next img \<sigma> act = Some (evs, \<sigma>')"
  shows "spec_trace (tc_spec img) u evs = Some u \<and> tc_inv img \<sigma>' u"
proof (cases act)
  case (Get h inactive delay accepted)
  obtain cid uid where h: "tc_handle \<sigma> h = (cid, uid)" by (cases "tc_handle \<sigma> h")
  have "cache_inv img (tc_cache \<sigma>) (tc_pending \<sigma>) (tc_handle \<sigma>)" using inv by (simp add: tc_inv_def)
  from cacheGetTexture_out [OF this h] obtain r where
    "cacheGetTexture (tc_frame \<sigma>) inactive delay (tc_cache \<sigma>) cid uid (img h) = Inr r"
    "out_ok img (tc_pending \<sigma>) (tc_handle \<sigma>) h r" by blast
  then show ?thesis using inv n Get h
    by (auto simp: tc_next_def tc_inv_def out_ok_def)
next
  case (Load loaded)
  with n obtain q qs where q: "tc_pending \<sigma> = q # qs" by (auto simp: tc_next_def split: list.splits)
  with inv have "cache_inv img (tc_cache \<sigma>) (q # qs) (tc_handle \<sigma>)" "0 < tc_frame \<sigma>" by (simp_all add: tc_inv_def)
  from cache_inv_load [OF this, of loaded] obtain c' where
    "cacheLoadImage (tc_frame \<sigma>) loaded (tc_cache \<sigma>) q = Inr c'" "cache_inv img c' qs (tc_handle \<sigma>)"
    "li_cacheUID q = ce_UID (ic_content (tc_cache \<sigma>) ! li_entry q)" by blast
  with Load n q inv show ?thesis by (auto simp: tc_next_def tc_inv_def)
next
  case NextFrame
  with inv n show ?thesis by (auto simp: tc_next_def tc_inv_def)
qed

interpretation tc: trace_refinement "tc_next img" "tc_spec img" "tc_inv img" for img
  by unfold_locales (use tc_step_inv in blast)

lemma tc_start_inv: "tc_inv img (tc_start n) u"
  by (auto simp: tc_inv_def tc_start_def cacheInitCache_def cacheClearItem_def cache_inv_def entry_ok_def
      pend_ok_def handle_ok_def)

lemma tc_spec_texture:
  "spec_trace (tc_spec img) u tr = Some u' \<Longrightarrow> EvTexture h t \<in> set tr \<Longrightarrow> t = Some (img h)"
  by (induction tr arbitrary: u) (auto split: option.splits if_splits)

lemma tc_spec_faultless:
  "spec_trace (tc_spec img) u tr = Some u' \<Longrightarrow> EvStale \<notin> set tr \<and> (\<forall>e. EvTexFault e \<notin> set tr)"
  by (induction tr arbitrary: u) (auto split: option.splits if_splits)

text \<open>An entry whose request the I/O manager refused.\<close>

definition lost_entry :: "tc_sys \<Rightarrow> nat \<Rightarrow> cache_entry \<Rightarrow> bool" where
  "lost_entry \<sigma> i e \<longleftrightarrow> i < length (ic_content (tc_cache \<sigma>)) \<and> ic_content (tc_cache \<sigma>) ! i = e \<and>
     ce_qr e \<noteq> None \<and> (\<forall>q \<in> set (tc_pending \<sigma>). li_entry q \<noteq> i)"

lemma lost_entry_step:
  assumes l: "lost_entry \<sigma> i e" and n: "tc_next img \<sigma> act = Some (evs, \<sigma>')"
  shows "lost_entry \<sigma>' i e"
proof (cases act)
  case (Get h inactive delay accepted)
  have "find_oldest (ic_content (tc_cache \<sigma>)) 0 (tc_frame \<sigma>) None \<noteq> Some i"
    using l find_oldest_Some by (fastforce simp: lost_entry_def)
  with Get l n show ?thesis
    by (fastforce simp: tc_next_def lost_entry_def cacheGetTexture_def cache_miss_def Let_def c_bind_def peek_def nth_list_update
        split: if_splits option.splits)
next
  case (Load loaded)
  with l n show ?thesis
    by (auto simp: tc_next_def lost_entry_def cacheLoadImage_def Let_def c_bind_def peek_def
        split: if_splits option.splits list.splits)
next
  case NextFrame
  with l n show ?thesis by (auto simp: tc_next_def lost_entry_def)
qed

lemma lost_entry_run: "runs (tc_next img) \<sigma> tr \<sigma>' \<Longrightarrow> lost_entry \<sigma> i e \<Longrightarrow> lost_entry \<sigma>' i e"
  by (induction rule: runs.induct) (auto intro: lost_entry_step)

section \<open>Properties\<close>

text \<open>C19: a client of the texture cache is only ever handed the image it asked for, in every run of
  lookups, loads and frames on a cache of any size, whichever requests the I/O manager refuses and
  whichever loads fail; no access leaves the array of entries, and no load ever finds its entry
  reused, so the check for that in \<open>cacheLoadImage\<close> never fires.\<close>

theorem texcache_own_image:
  assumes "runs (tc_next img) (tc_start n) tr \<sigma>"
  shows "(\<forall>h t. EvTexture h t \<in> set tr \<longrightarrow> t = Some (img h)) \<and> EvStale \<notin> set tr \<and> (\<forall>e. EvTexFault e \<notin> set tr)"
proof -
  from tc.run_sim [OF assms tc_start_inv] obtain u where "spec_trace (tc_spec img) () tr = Some u" by blast
  with tc_spec_texture tc_spec_faultless show ?thesis by blast
qed

theorem texcache_own_image_witness:
  "\<exists>tr \<sigma>. runs (tc_next (\<lambda>h. if h = 0 then ''A'' else ''B'')) (tc_start 1) tr \<sigma> \<and> EvTexture 0 (Some ''A'') \<in> set tr \<and>
     (\<forall>h t. EvTexture h t \<in> set tr \<longrightarrow> t = Some (if h = 0 then ''A'' else ''B'')) \<and> EvStale \<notin> set tr \<and>
     (\<forall>e. EvTexFault e \<notin> set tr)"
proof -
  let ?img = "\<lambda>h. if h = 0 then ''A'' else ''B''"
  let ?acts = "[Get 0 10 5 True, Load True, Get 0 10 5 True, NextFrame, Get 1 10 5 True, Load True, Get 1 10 5 True, Get 0 10 5 True]"
  have "map_option fst (run_acts (tc_next ?img) (tc_start 1) ?acts) = Some [EvTexture 0 (Some ''A''), EvTexture 1 (Some ''B'')]"
    by code_simp
  then obtain \<sigma> where "run_acts (tc_next ?img) (tc_start 1) ?acts = Some ([EvTexture 0 (Some ''A''), EvTexture 1 (Some ''B'')], \<sigma>)"
    by auto
  note r = run_actsD [OF this]
  from texcache_own_image [OF r] r show ?thesis by (intro exI conjI) (assumption, simp, blast+)
qed

text \<open>A miss evicts an entry that is least recently used among those without a pending request, and
  never one used in the current frame: what is on the screen stays.\<close>

theorem texcache_evicts_oldest:
  assumes "go_req (cache_miss guiFrameId delayed cache cacheId UID val) = Some req"
  shows "\<not> delayed \<and> li_entry req < length (ic_content cache) \<and>
    ce_qr (ic_content cache ! li_entry req) = None \<and> ce_lastUsed (ic_content cache ! li_entry req) < guiFrameId \<and>
    (\<forall>e \<in> set (ic_content cache). ce_qr e = None \<longrightarrow> ce_lastUsed (ic_content cache ! li_entry req) \<le> ce_lastUsed e)"
  using assms find_oldest_Some by (fastforce simp: cache_miss_def Let_def split: if_splits option.splits)

theorem texcache_evicts_oldest_witness:
  "let c = \<lparr>ic_nextUID = 4, ic_content = [\<lparr>ce_texture = Some ''A'', ce_qr = None, ce_lastUsed = 7, ce_UID = 1\<rparr>,
       \<lparr>ce_texture = None, ce_qr = Some 3, ce_lastUsed = 2, ce_UID = 3\<rparr>,
       \<lparr>ce_texture = Some ''B'', ce_qr = None, ce_lastUsed = 5, ce_UID = 2\<rparr>]\<rparr>;
       req = \<lparr>li_entry = 2, li_cacheUID = 4, li_value = ''C''\<rparr>
   in \<not> False \<and> li_entry req < length (ic_content c) \<and> ce_qr (ic_content c ! li_entry req) = None \<and>
      ce_lastUsed (ic_content c ! li_entry req) < 9 \<and>
      (\<forall>e \<in> set (ic_content c). ce_qr e = None \<longrightarrow> ce_lastUsed (ic_content c ! li_entry req) \<le> ce_lastUsed e)"
  unfolding Let_def
  by (rule texcache_evicts_oldest [where cacheId = "-1" and UID = 0 and val = "''C''"])
    (simp add: cache_miss_def Let_def)

text \<open>When the I/O manager refuses the request of a miss, the entry chosen for it keeps its pending
  mark for good: in every continuation of the run that entry stays as it is, so the cache has lost it.\<close>

theorem texcache_refused_entry_lost:
  assumes "tc_inv img \<sigma> ()" and "tc_next img \<sigma> (Get h inactive delay False) = Some (evs, \<sigma>1)"
    and "cacheGetTexture (tc_frame \<sigma>) inactive delay (tc_cache \<sigma>) (fst (tc_handle \<sigma> h)) (snd (tc_handle \<sigma> h)) (img h) = Inr r"
    and "go_req r = Some req" and "runs (tc_next img) \<sigma>1 tr \<sigma>2"
  shows "ic_content (tc_cache \<sigma>2) ! li_entry req = ic_content (tc_cache \<sigma>1) ! li_entry req \<and>
    ce_qr (ic_content (tc_cache \<sigma>2) ! li_entry req) \<noteq> None"
proof -
  obtain delayed cid where m: "r = cache_miss (tc_frame \<sigma>) delayed (tc_cache \<sigma>) cid (snd (tc_handle \<sigma> h)) (img h)"
    using assms(3,4) by (auto simp: cacheGetTexture_def Let_def c_bind_def split: if_splits sum.splits)
  from m assms(4) obtain i where i: "find_oldest (ic_content (tc_cache \<sigma>)) 0 (tc_frame \<sigma>) None = Some i" "li_entry req = i"
      "ce_qr (ic_content (go_cache r) ! i) \<noteq> None" "length (ic_content (go_cache r)) = length (ic_content (tc_cache \<sigma>))"
    using find_oldest_Some by (fastforce simp: cache_miss_def Let_def split: if_splits option.splits)
  have \<sigma>1: "tc_cache \<sigma>1 = go_cache r" "tc_pending \<sigma>1 = tc_pending \<sigma>" using assms(2-4) by (auto simp: tc_next_def)
  have "\<forall>q \<in> set (tc_pending \<sigma>). li_entry q \<noteq> i"
    using assms(1) find_oldest_Some [OF i(1)] by (auto simp: tc_inv_def cache_inv_def pend_ok_def)
  then have "lost_entry \<sigma>1 i (ic_content (tc_cache \<sigma>1) ! i)"
    using i \<sigma>1 find_oldest_Some [OF i(1)] by (simp add: lost_entry_def)
  from lost_entry_run [OF assms(5) this] i(2) show ?thesis by (simp add: lost_entry_def)
qed

theorem texcache_refused_entry_lost_witness:
  "\<exists>\<sigma>1. \<forall>tr \<sigma>2. runs (tc_next (\<lambda>_. ''A'')) \<sigma>1 tr \<sigma>2 \<longrightarrow>
     ic_content (tc_cache \<sigma>2) ! 0 = ic_content (tc_cache \<sigma>1) ! 0 \<and> ce_qr (ic_content (tc_cache \<sigma>2) ! 0) \<noteq> None"
proof -
  let ?img = "\<lambda>_. ''A''"
  let ?get = "cacheGetTexture (tc_frame (tc_start 1)) 9 5 (tc_cache (tc_start 1)) (fst (tc_handle (tc_start 1) 0)) (snd (tc_handle (tc_start 1) 0)) ''A''"
  have "(case ?get of Inl _ \<Rightarrow> None | Inr r \<Rightarrow> go_req r) = Some \<lparr>li_entry = 0, li_cacheUID = 1, li_value = ''A''\<rparr>"
    by code_simp
  then obtain r where r: "?get = Inr r" "go_req r = Some \<lparr>li_entry = 0, li_cacheUID = 1, li_value = ''A''\<rparr>"
    by (auto split: sum.splits)
  then obtain evs \<sigma>1 where n: "tc_next ?img (tc_start 1) (Get 0 9 5 False) = Some (evs, \<sigma>1)"
    by (simp add: tc_next_def)
  from texcache_refused_entry_lost [OF tc_start_inv n r] show ?thesis by auto
qed

end
