(* ===== verification/Ps2Cnf.thy ===== *)
theory Ps2Cnf
  imports CPrelude
begin

text \<open>
  The parser of \<open>SYSTEM.CNF\<close>, \<open>src/ps2cnf.c\<close>.  A pointer into the text is the rest of the text from
  there to \<open>cnf_end\<close>, where the terminating NUL stands; the answers of \<open>CNFGetToken\<close> are a pointer,
  NULL (no match) or \<open>-1\<close> (unexpected end of file).
\<close>

abbreviation CNF_LEN_MAX :: nat where "CNF_LEN_MAX \<equiv> 1024"
abbreviation CNF_PATH_LEN_MAX :: nat where "CNF_PATH_LEN_MAX \<equiv> 64"
abbreviation ENOENT :: int where "ENOENT \<equiv> 2"
abbreviation EIO :: int where "EIO \<equiv> 5"

section \<open>Operations\<close>

datatype cnf_ptr = CnfNull | CnfEof | CnfPtr string

fun match_key :: "string \<Rightarrow> string \<Rightarrow> cnf_ptr" where
  "match_key cnf [] = CnfPtr cnf"
| "match_key [] (k # ks) = CnfEof"
| "match_key (c # cnf) (k # ks) =
     (if c = NUL then CnfEof else if c \<noteq> k then CnfNull else match_key cnf ks)"

definition CNFGetToken :: "string \<Rightarrow> string \<Rightarrow> cnf_ptr" where
  "CNFGetToken cnf key = match_key (dropWhile isspace cnf) key"

fun CNFAdvanceLine :: "string \<Rightarrow> string option" where
  "CNFAdvanceLine [] = None"
| "CNFAdvanceLine (c # start) =
     (if c = LF then if start \<noteq> [] then Some start else None else CNFAdvanceLine start)"

text \<open>The copying loop: at most \<open>n\<close> more passes, \<open>key\<close> the characters stored so far.  The result says
  whether a NUL was stored behind them.\<close>

fun getkey_loop :: "nat \<Rightarrow> string \<Rightarrow> string \<Rightarrow> string \<times> bool" where
  "getkey_loop 0 line key = (key, False)"
| "getkey_loop (Suc n) line key =
     (case line of
        [] \<Rightarrow> (key, False)
      | c # line' \<Rightarrow>
          if c = NUL then (key, False)
          else if isgraph c then getkey_loop n line' (key @ [c])
          else if isspace c then (key, True)
          else getkey_loop n line key)"

text \<open>\<open>bootfile\<close> is the caller's array; \<open>None\<close> stands for the answer \<open>-1\<close>.\<close>

definition CNFGetKey :: "cnf_ptr \<Rightarrow> string \<Rightarrow> (string option) cres" where
  "CNFGetKey line bootfile =
     (case line of
        CnfPtr text \<Rightarrow>
          (let start = dropWhile isspace text
           in if start = [] \<or> hd start = NUL then Inr None
              else
                let (key, term) = getkey_loop CNF_PATH_LEN_MAX start [];
                    bytes = key @ (if term then [NUL] else [])
                in c_bind (mem_write bootfile 0 bytes) (\<lambda>b. Inr (Some b)))
      | _ \<Rightarrow> Inl NullDeref)"

lemma CNFAdvanceLine_shorter: "CNFAdvanceLine cnf = Some rest \<Longrightarrow> length rest < length cnf"
  by (induction cnf) (auto split: if_splits)

text \<open>The search for the line with the key.\<close>

function find_line :: "string \<Rightarrow> string \<Rightarrow> cnf_ptr" where
  "find_line cnf_start key =
     (case CNFGetToken cnf_start key of
        CnfNull \<Rightarrow> (case CNFAdvanceLine cnf_start of None \<Rightarrow> CnfNull | Some rest \<Rightarrow> find_line rest key)
      | p \<Rightarrow> p)"
  by pat_completeness auto
termination
  by (relation "measure (\<lambda>(cnf, key). length cnf)") (auto dest: CNFAdvanceLine_shorter)

declare find_line.simps [simp del]

text \<open>\<open>file\<close> is \<open>None\<close> when the file does not open; else its content, whose length \<open>ftell\<close> answers, and
  the number of bytes the medium delivers before a read error.\<close>

definition ps2cnfGetBootFile :: "(string \<times> nat) option \<Rightarrow> string \<Rightarrow> (int \<times> string) cres" where
  "ps2cnfGetBootFile file bootfile =
     (case file of
        None \<Rightarrow> Inr (ENOENT, bootfile)
      | Some (content, readable) \<Rightarrow>
          (let size = (if CNF_LEN_MAX \<le> length content then CNF_LEN_MAX - 1 else length content);
               system_cnf = take (min size readable) content
           in if length system_cnf \<noteq> size then Inr (EIO, bootfile)
              else case find_line system_cnf ''BOOT2'' of
                CnfNull \<Rightarrow> Inr (-1, bootfile)
              | CnfEof \<Rightarrow> Inr (-1, bootfile)
              | CnfPtr rest \<Rightarrow>
                  (case CNFGetToken rest ''='' of
                     CnfEof \<Rightarrow> Inr (-1, bootfile)
                   | pChar \<Rightarrow>
                       c_bind (CNFGetKey pChar bootfile) (\<lambda>r.
                         case r of None \<Rightarrow> Inr (-1, bootfile) | Some b \<Rightarrow> Inr (0, b)))))"

section \<open>Lemmas\<close>

lemma dropWhile_spaces: "\<forall>c \<in> set s. isspace c \<Longrightarrow> dropWhile isspace (s @ t) = dropWhile isspace t"
  by (induction s) auto

lemma isspace_LF: "isspace LF"
  by (simp add: isspace_def code_def)

lemma not_isspace: "isgraph c \<Longrightarrow> \<not> isspace c" "isspace c \<Longrightarrow> c \<noteq> NUL" "isgraph c \<Longrightarrow> c \<noteq> NUL"
  by (auto simp: isgraph_def isspace_def code_def)

lemma match_key_self: "NUL \<notin> set key \<Longrightarrow> match_key (key @ rest) key = CnfPtr rest"
  by (induction key) auto

text \<open>A line that does not start with the key is no match, unless the text ends inside it.\<close>

lemma match_key_other:
  "\<not> (\<exists>r. l = key @ r) \<Longrightarrow> NUL \<notin> set l \<Longrightarrow> LF \<notin> set key \<Longrightarrow> match_key (l @ LF # rest) key = CnfNull"
proof (induction key arbitrary: l)
  case (Cons k ks)
  show ?case
  proof (cases l)
    case Nil
    with Cons.prems(3) show ?thesis by auto
  next
    case (Cons c cs)
    with Cons.IH [of cs] Cons.prems show ?thesis by auto
  qed
qed simp

lemma CNFAdvanceLine_line:
  "LF \<notin> set l \<Longrightarrow> rest \<noteq> [] \<Longrightarrow> CNFAdvanceLine (l @ LF # rest) = Some rest"
  by (induction l) auto

text \<open>A line of a configuration that the search for a key passes over.\<close>

definition skipped_line :: "string \<Rightarrow> string \<Rightarrow> bool" where
  "skipped_line key l \<longleftrightarrow> LF \<notin> set l \<and> NUL \<notin> set l \<and>
     ((\<forall>c \<in> set l. isspace c) \<or> (\<nexists>s r. l = s @ key @ r \<and> (\<forall>c \<in> set s. isspace c)))"

lemma skipped_line_head:
  assumes "LF \<notin> set l" "NUL \<notin> set l" "l = c # cs" "\<not> isspace c" "c \<noteq> k"
  shows "skipped_line (k # ks) l"
proof -
  have "\<not> (l = s @ (k # ks) @ r \<and> (\<forall>c \<in> set s. isspace c))" for s r
    using assms(3-5) by (cases s) auto
  with assms(1,2) show ?thesis by (auto simp: skipped_line_def)
qed

lemma find_line_here:
  assumes "CNFGetToken cnf key = CnfPtr p"
  shows "find_line cnf key = CnfPtr p"
  using assms by (subst find_line.simps) simp

lemma skip_one:
  assumes "skipped_line key l" "LF \<notin> set key" "rest \<noteq> []" "find_line rest key = CnfPtr p"
    "CNFGetToken rest key = CnfPtr p \<or> CNFGetToken rest key = CnfNull"
  shows "find_line (l @ LF # rest) key = CnfPtr p"
    "CNFGetToken (l @ LF # rest) key = CnfPtr p \<or> CNFGetToken (l @ LF # rest) key = CnfNull"
proof -
  have adv: "CNFAdvanceLine (l @ LF # rest) = Some rest"
    using assms(1,3) by (intro CNFAdvanceLine_line) (auto simp: skipped_line_def)
  show "CNFGetToken (l @ LF # rest) key = CnfPtr p \<or> CNFGetToken (l @ LF # rest) key = CnfNull"
  proof (cases "\<forall>c \<in> set l. isspace c")
    case True
    then have "CNFGetToken (l @ LF # rest) key = CNFGetToken rest key"
      by (simp add: CNFGetToken_def dropWhile_spaces isspace_LF)
    with assms(5) show ?thesis by simp
  next
    case False
    obtain s r where l: "l = s @ r" "\<forall>c \<in> set s. isspace c" "dropWhile isspace l = r" "r \<noteq> []"
      using False by (metis dropWhile_eq_Nil_conv set_takeWhileD takeWhile_dropWhile_id)
    have "\<not> (\<exists>t. r = key @ t)" using assms(1) False l(1,2) by (auto simp: skipped_line_def)
    then have "match_key (r @ LF # rest) key = CnfNull"
      using assms(1,2) l(1) by (intro match_key_other) (auto simp: skipped_line_def)
    moreover have "dropWhile isspace (l @ LF # rest) = r @ LF # rest"
      using l(3,4) by (metis dropWhile_append3 dropWhile_eq_Cons_conv dropWhile_append1 dropWhile_eq_Nil_conv dropWhile_append2 list.exhaust set_ConsD append_Cons dropWhile_append)
    ultimately show ?thesis by (simp add: CNFGetToken_def)
  qed
  with adv assms(4) show "find_line (l @ LF # rest) key = CnfPtr p"
    by (subst find_line.simps) auto
qed

lemma find_line_lines:
  assumes "\<forall>l \<in> set ls. skipped_line key l" "LF \<notin> set key" "rest \<noteq> []" "CNFGetToken rest key = CnfPtr p"
  shows "find_line (concat (map (\<lambda>l. l @ [LF]) ls) @ rest) key = CnfPtr p"
proof -
  have "find_line (concat (map (\<lambda>l. l @ [LF]) ls) @ rest) key = CnfPtr p \<and>
      (CNFGetToken (concat (map (\<lambda>l. l @ [LF]) ls) @ rest) key = CnfPtr p \<or>
       CNFGetToken (concat (map (\<lambda>l. l @ [LF]) ls) @ rest) key = CnfNull)"
    using assms(1)
  proof (induction ls)
    case Nil
    then show ?case using assms(4) find_line_here by simp
  next
    case (Cons l ls)
    then show ?case using skip_one [of key l "concat (map (\<lambda>l. l @ [LF]) ls) @ rest" p] assms(2,3) by simp
  qed
  then show ?thesis by simp
qed

lemma getkey_loop_path:
  "\<forall>c \<in> set p. isgraph c \<Longrightarrow> length p < n \<Longrightarrow> rest = [] \<or> hd rest = NUL \<or> isspace (hd rest) \<Longrightarrow>
   getkey_loop n (p @ rest) key = (key @ p, rest \<noteq> [] \<and> hd rest \<noteq> NUL)"
proof (induction p arbitrary: n key)
  case Nil
  then obtain m where "n = Suc m" by (cases n) auto
  with Nil show ?case by (cases rest) (auto dest: not_isspace)
next
  case (Cons c p)
  then obtain m where n: "n = Suc m" by (cases n) auto
  with Cons show ?case by (simp add: not_isspace)
qed

lemma getkey_loop_long: "\<forall>c \<in> set p. isgraph c \<Longrightarrow> n \<le> length p \<Longrightarrow> getkey_loop n (p @ rest) key = (key @ take n p, False)"
proof (induction p arbitrary: n key)
  case (Cons c p)
  then show ?case by (cases n) (auto simp: not_isspace)
qed simp

lemma key_start:
  assumes "\<forall>c \<in> set s. isspace c" "p \<noteq> []" "\<forall>c \<in> set p. isgraph c"
  shows "dropWhile isspace (s @ p @ rest) = p @ rest"
proof -
  obtain c q where "p = c # q" using assms(2) by (cases p) auto
  with assms show ?thesis by (simp add: dropWhile_spaces not_isspace)
qed

lemma CNFGetToken_spaces:
  assumes "\<forall>c \<in> set s. isspace c" "key = k # ks" "\<not> isspace k" "NUL \<notin> set key"
  shows "CNFGetToken (s @ key @ rest) key = CnfPtr rest"
  using assms match_key_self [of key rest] by (simp add: CNFGetToken_def dropWhile_spaces)

text \<open>A configuration with its \<open>BOOT2\<close> line behind lines that the search passes over.\<close>

definition cnf_text :: "string list \<Rightarrow> string \<Rightarrow> string \<Rightarrow> string" where
  "cnf_text ls s0 tail = concat (map (\<lambda>l. l @ [LF]) ls) @ s0 @ ''BOOT2'' @ tail"

lemma find_boot2:
  assumes "\<forall>l \<in> set ls. skipped_line ''BOOT2'' l" "\<forall>c \<in> set s0. isspace c"
  shows "find_line (cnf_text ls s0 tail) ''BOOT2'' = CnfPtr tail"
proof -
  have "\<not> isspace (CHR ''B'')" by (simp add: isspace_def code_def)
  with assms(2) have "CNFGetToken (s0 @ ''BOOT2'' @ tail) ''BOOT2'' = CnfPtr tail"
    by (intro CNFGetToken_spaces) auto
  with assms(1) show ?thesis
    unfolding cnf_text_def by (intro find_line_lines) auto
qed

lemma boot_value:
  assumes "\<forall>l \<in> set ls. skipped_line ''BOOT2'' l" "\<forall>c \<in> set (s0 @ s1). isspace c"
    and "length (cnf_text ls s0 (s1 @ ''='' @ val)) < CNF_LEN_MAX" "length (cnf_text ls s0 (s1 @ ''='' @ val)) \<le> readable"
  shows "ps2cnfGetBootFile (Some (cnf_text ls s0 (s1 @ ''='' @ val), readable)) bootfile =
    c_bind (CNFGetKey (CnfPtr val) bootfile) (\<lambda>r. case r of None \<Rightarrow> Inr (-1, bootfile) | Some b \<Rightarrow> Inr (0, b))"
proof -
  have "\<not> isspace (CHR ''='')" by (simp add: isspace_def code_def)
  then have "CNFGetToken (s1 @ ''='' @ val) ''='' = CnfPtr val"
    using assms(2) by (intro CNFGetToken_spaces) auto
  with find_boot2 [of ls s0 "s1 @ ''='' @ val"] assms show ?thesis
    by (simp add: ps2cnfGetBootFile_def)
qed

lemma boot_path:
  assumes "\<forall>l \<in> set ls. skipped_line ''BOOT2'' l" and "\<forall>c \<in> set (s0 @ s1 @ s2). isspace c"
    and "p \<noteq> []" "\<forall>c \<in> set p. isgraph c" "length p < CNF_PATH_LEN_MAX" and "rest = [] \<or> isspace (hd rest)"
    and "length (cnf_text ls s0 (s1 @ ''='' @ s2 @ p @ rest)) < CNF_LEN_MAX"
      "length (cnf_text ls s0 (s1 @ ''='' @ s2 @ p @ rest)) \<le> readable"
    and "length bootfile = CNF_PATH_LEN_MAX"
  shows "ps2cnfGetBootFile (Some (cnf_text ls s0 (s1 @ ''='' @ s2 @ p @ rest), readable)) bootfile =
    Inr (0, p @ (if rest = [] then drop (length p) bootfile else NUL # drop (length p + 1) bootfile))"
proof -
  have ks: "dropWhile isspace (s2 @ p @ rest) = p @ rest" using assms(2-4) by (intro key_start) auto
  have nn: "hd (p @ rest) \<noteq> NUL" using assms(3,4) not_isspace(3) by (cases p) auto
  have "rest \<noteq> [] \<Longrightarrow> hd rest \<noteq> NUL" using assms(6) not_isspace(2) by blast
  then have "getkey_loop CNF_PATH_LEN_MAX (p @ rest) [] = (p, rest \<noteq> [])"
    using getkey_loop_path [OF assms(4,5), of rest "[]"] assms(6) by auto
  with nn have "CNFGetKey (CnfPtr (s2 @ p @ rest)) bootfile =
      Inr (Some (p @ (if rest = [] then drop (length p) bootfile else NUL # drop (length p + 1) bootfile)))"
    using assms(3,5,9) ks by (simp add: CNFGetKey_def mem_write_def)
  with boot_value [of ls s0 s1 "s2 @ p @ rest"] assms(1,2,7,8) show ?thesis by (simp add: ball_Un)
qed

section \<open>Properties\<close>

text \<open>C30: the boot path of a \<open>SYSTEM.CNF\<close> below 1024 bytes that is read whole is found: behind any
  number of lines that are blank or start with something else, a line \<open>BOOT2 = path\<close>, with any white
  space around its parts, stores the path of 1 to 63 printable characters at the start of the
  caller's 64 bytes, whatever they held.  When white space follows the path, a NUL is stored behind it
  and the string in the array is the path; when the path ends the file, no NUL is stored and the bytes
  behind the path stay as they were.  When fewer bytes can be read than the file has, the answer is
  \<open>EIO\<close> and the array is not touched.\<close>

theorem ps2cnf_boot_path:
  assumes "\<forall>l \<in> set ls. skipped_line ''BOOT2'' l" and "\<forall>c \<in> set (s0 @ s1 @ s2). isspace c"
    and "p \<noteq> []" "\<forall>c \<in> set p. isgraph c" "length p < CNF_PATH_LEN_MAX" and "rest = [] \<or> isspace (hd rest)"
    and "file = cnf_text ls s0 (s1 @ ''='' @ s2 @ p @ rest)" "length file < CNF_LEN_MAX"
    and "length bootfile = CNF_PATH_LEN_MAX"
  shows "ps2cnfGetBootFile (Some (file, readable)) bootfile =
      (if readable < length file then Inr (EIO, bootfile)
       else if rest = [] then Inr (0, p @ drop (length p) bootfile)
       else Inr (0, p @ NUL # drop (length p + 1) bootfile)) \<and>
    takeWhile (\<lambda>c. c \<noteq> NUL) (p @ NUL # drop (length p + 1) bootfile) = p"
proof -
  have "takeWhile (\<lambda>c. c \<noteq> NUL) (p @ NUL # drop (length p + 1) bootfile) = p"
    using assms(4) not_isspace(3) by (subst takeWhile_append2) auto
  moreover have "readable < length file \<Longrightarrow> ps2cnfGetBootFile (Some (file, readable)) bootfile = Inr (EIO, bootfile)"
    using assms(8) by (simp add: ps2cnfGetBootFile_def)
  ultimately show ?thesis using boot_path [OF assms(1-6), of readable bootfile] assms(7-9) by auto
qed

theorem ps2cnf_boot_path_witness:
  "ps2cnfGetBootFile (Some (cnf_text [''VER = 1.00'', '' ''] '' '' ('' '' @ ''='' @ '' '' @ ''cdrom0:A'' @ [CR, LF]), 1000))
     (replicate CNF_PATH_LEN_MAX (CHR ''x'')) = Inr (0, ''cdrom0:A'' @ NUL # replicate 55 (CHR ''x'')) \<and>
   ps2cnfGetBootFile (Some (cnf_text [''VER = 1.00'', '' ''] '' '' ('' '' @ ''='' @ '' '' @ ''cdrom0:A'' @ []), 1000))
     (replicate CNF_PATH_LEN_MAX (CHR ''x'')) = Inr (0, ''cdrom0:A'' @ replicate 56 (CHR ''x''))"
proof -
  have v: "skipped_line ''BOOT2'' ''VER = 1.00''"
    by (rule skipped_line_head [of _ "CHR ''V''" "''ER = 1.00''"]) (simp_all add: isspace_def code_def)
  have v': "skipped_line ''BOOT2'' '' ''" by (simp add: skipped_line_def isspace_def code_def)
  note path = ps2cnf_boot_path [of "[''VER = 1.00'', '' '']" "'' ''" "'' ''" "'' ''" "''cdrom0:A''" _ _
      "replicate CNF_PATH_LEN_MAX (CHR ''x'')" 1000, OF _ _ _ _ _ _ refl]
  show ?thesis
    using path [of "[CR, LF]"] path [of "[]"] v v'
    by (simp add: isspace_def isgraph_def code_def cnf_text_def del: replicate.simps)
qed

text \<open>When the text behind \<open>BOOT2\<close> is not an equals sign (as in a line with a longer key), the parser
  dereferences NULL: the failed match of the equals sign is not told apart from a pointer.\<close>

theorem ps2cnf_other_key_crashes:
  assumes "\<forall>l \<in> set ls. skipped_line ''BOOT2'' l" and "\<forall>c \<in> set (s0 @ s1). isspace c"
    and "\<not> isspace c" "c \<noteq> NUL" "c \<noteq> CHR ''=''" and "length (cnf_text ls s0 (s1 @ c # rest)) < CNF_LEN_MAX"
    and "length (cnf_text ls s0 (s1 @ c # rest)) \<le> readable"
  shows "ps2cnfGetBootFile (Some (cnf_text ls s0 (s1 @ c # rest), readable)) bootfile = Inl NullDeref"
proof -
  have "CNFGetToken (s1 @ c # rest) ''='' = CnfNull"
    using assms(2-5) by (simp add: CNFGetToken_def dropWhile_spaces)
  with find_boot2 [of ls s0 "s1 @ c # rest"] assms show ?thesis
    by (simp add: ps2cnfGetBootFile_def CNFGetKey_def)
qed

theorem ps2cnf_other_key_crashes_witness:
  "ps2cnfGetBootFile (Some (cnf_text [] [] ([] @ CHR ''X'' # '' = cdrom0:A;1''), 1000)) (replicate CNF_PATH_LEN_MAX NUL) = Inl NullDeref"
  by (rule ps2cnf_other_key_crashes) (simp_all add: cnf_text_def isspace_def code_def)

text \<open>A boot path of 64 or more printable characters fills the caller's array without a terminating
  NUL.\<close>

theorem ps2cnf_long_path_unterminated:
  assumes "\<forall>l \<in> set ls. skipped_line ''BOOT2'' l" and "\<forall>c \<in> set (s0 @ s1 @ s2). isspace c"
    and "\<forall>c \<in> set p. isgraph c" "CNF_PATH_LEN_MAX \<le> length p"
    and "length (cnf_text ls s0 (s1 @ ''='' @ s2 @ p @ rest)) < CNF_LEN_MAX"
      "length (cnf_text ls s0 (s1 @ ''='' @ s2 @ p @ rest)) \<le> readable"
    and "length bootfile = CNF_PATH_LEN_MAX"
  shows "ps2cnfGetBootFile (Some (cnf_text ls s0 (s1 @ ''='' @ s2 @ p @ rest), readable)) bootfile = Inr (0, take CNF_PATH_LEN_MAX p) \<and>
    NUL \<notin> set (take CNF_PATH_LEN_MAX p)"
proof -
  have p: "p \<noteq> []" using assms(4) by auto
  have ks: "dropWhile isspace (s2 @ p @ rest) = p @ rest" using assms(2,3) p by (intro key_start) auto
  have "hd (p @ rest) \<noteq> NUL" using p assms(3) not_isspace(3) by (cases p) auto
  moreover have "getkey_loop CNF_PATH_LEN_MAX (p @ rest) [] = (take CNF_PATH_LEN_MAX p, False)"
    using getkey_loop_long [OF assms(3,4), of rest "[]"] by simp
  ultimately have "CNFGetKey (CnfPtr (s2 @ p @ rest)) bootfile = Inr (Some (take CNF_PATH_LEN_MAX p))"
    using p assms(4,7) ks by (simp add: CNFGetKey_def mem_write_def)
  moreover have "NUL \<notin> set (take CNF_PATH_LEN_MAX p)" using assms(3) not_isspace(3) in_set_takeD by fastforce
  ultimately show ?thesis using boot_value [of ls s0 s1 "s2 @ p @ rest"] assms(1,2,5,6) by (simp add: ball_Un)
qed

theorem ps2cnf_long_path_unterminated_witness:
  "ps2cnfGetBootFile (Some (cnf_text [] [] ([] @ ''='' @ [] @ replicate 70 (CHR ''a'') @ []), 1000)) (replicate CNF_PATH_LEN_MAX NUL) =
     Inr (0, take CNF_PATH_LEN_MAX (replicate 70 (CHR ''a''))) \<and> NUL \<notin> set (take CNF_PATH_LEN_MAX (replicate 70 (CHR ''a'')))"
  by (rule ps2cnf_long_path_unterminated) (simp_all add: cnf_text_def isgraph_def code_def)

end
