(* ===== verification/Zso.thy ===== *)
theory Zso
  imports CPrelude
begin

text \<open>
  Compressed disc images: the reader \<open>modules/isofs/zso.c\<close> and its raw access in \<open>src/zso.c\<close>.  The
  reader is written against \<open>read_raw_data\<close>, which each front end implements; here it is a parameter
  with a locale for its contract, interpreted by the launcher's implementation for the hard disk and
  for files.  \<open>LZ4_decompress_fast\<close> is third-party code and a parameter too.  The disk is a function
  from sector numbers to sectors of 512 bytes, an image the list of its bytes.
\<close>

section \<open>Raw access\<close>

text \<open>\<open>lseek\<close> on a file: the position after the call.  \<open>INT_MAX / 2048\<close> is 1048575.\<close>

abbreviation SEEK_MAX :: u32 where "SEEK_MAX \<equiv> 1048575"

function longLseek_loop :: "u32 \<Rightarrow> nat \<Rightarrow> nat" where
  "longLseek_loop remaining pos =
     (if 0 < remaining then
        let toSeek = (if SEEK_MAX < remaining then SEEK_MAX else remaining)
        in longLseek_loop (remaining - toSeek) (pos + unat (toSeek * 2048))
      else pos)"
  by pat_completeness auto
termination
proof (relation "measure (\<lambda>(r, p). unat r)")
  fix remaining toSeek :: u32 and pos :: nat
  assume r: "0 < remaining" and t: "toSeek = (if SEEK_MAX < remaining then SEEK_MAX else remaining)"
  have "toSeek \<le> remaining" "0 < toSeek" using r t by auto
  then have "unat toSeek \<le> unat remaining" "0 < unat toSeek" by (auto simp: word_le_nat_alt word_less_nat_alt)
  then show "((remaining - toSeek, pos + unat (toSeek * 2048)), remaining, pos) \<in> measure (\<lambda>(r, p). unat r)"
    using \<open>toSeek \<le> remaining\<close> by (simp add: unat_sub)
qed simp

declare longLseek_loop.simps [simp del]

definition longLseek :: "u32 \<Rightarrow> nat" where
  "longLseek lba =
     (if SEEK_MAX < lba then longLseek_loop (lba - SEEK_MAX) (unat (SEEK_MAX * 2048))
      else unat (lba * 2048))"

text \<open>The bytes that \<open>ReadHDDSectors\<close> puts into the buffer.\<close>

definition ReadHDDSectors :: "(u32 \<Rightarrow> u8 list) \<Rightarrow> u32 \<Rightarrow> u32 \<Rightarrow> u32 \<Rightarrow> u8 list" where
  "ReadHDDSectors hdd probed_lba lba nsectors =
     (let lsn = probed_lba + lba * 4
      in concat (map (\<lambda>k. hdd (lsn + of_nat k)) [0..<unat (nsectors * 4)]))"

text \<open>The three parts of an unaligned read: the rest of the first sector, whole sectors, the start of
  the last one.  Each part is the bytes stored at \<open>addr\<close>, with the size and sector that remain.\<close>

definition raw_head :: "(u32 \<Rightarrow> u8 list) \<Rightarrow> u32 \<Rightarrow> u32 \<Rightarrow> u32 \<Rightarrow> u32 \<Rightarrow> u8 list \<times> u32 \<times> u32" where
  "raw_head hdd plba lba pos sz =
     (if pos \<noteq> 0 then
        let r = min sz (2048 - pos)
        in (take (unat r) (drop (unat pos) (ReadHDDSectors hdd plba lba 1)), sz - r, lba + 1)
      else ([], sz, lba))"

definition raw_middle :: "(u32 \<Rightarrow> u8 list) \<Rightarrow> u32 \<Rightarrow> u32 \<Rightarrow> u32 \<Rightarrow> u8 list \<times> u32 \<times> u32" where
  "raw_middle hdd plba lba sz =
     (let n_blocks = sz div 2048 + (if sz mod 2048 \<noteq> 0 then 1 else 0)
      in if 1 < n_blocks
         then (ReadHDDSectors hdd plba lba (n_blocks - 1), sz - 2048 * (n_blocks - 1), lba + (n_blocks - 1))
         else ([], sz, lba))"

definition raw_tail :: "(u32 \<Rightarrow> u8 list) \<Rightarrow> u32 \<Rightarrow> u32 \<Rightarrow> u32 \<Rightarrow> u8 list" where
  "raw_tail hdd plba lba sz =
     (if sz \<noteq> 0 then take (unat sz) (ReadHDDSectors hdd plba lba 1) else [])"

definition raw_lba :: "u32 \<Rightarrow> u32 \<Rightarrow> u32" where
  "raw_lba offset shift = offset div (drop_bit (unat shift) 2048)"

definition raw_pos :: "u32 \<Rightarrow> u32 \<Rightarrow> u32" where
  "raw_pos offset shift = push_bit (unat shift) offset AND 2047"

definition read_raw_hdd :: "(u32 \<Rightarrow> u8 list) \<Rightarrow> u32 \<Rightarrow> u32 \<Rightarrow> u32 \<Rightarrow> u32 \<Rightarrow> u8 list" where
  "read_raw_hdd hdd plba sz offset shift =
     (case raw_head hdd plba (raw_lba offset shift) (raw_pos offset shift) sz of
        (head, sz1, lba1) \<Rightarrow>
          (case raw_middle hdd plba lba1 sz1 of
             (middle, sz2, lba2) \<Rightarrow> head @ middle @ raw_tail hdd plba lba2 sz2))"

text \<open>A file: seek, then read what is there.\<close>

definition read_raw_file :: "u8 list \<Rightarrow> u32 \<Rightarrow> u32 \<Rightarrow> u32 \<Rightarrow> u8 list" where
  "read_raw_file content sz offset shift =
     take (unat sz) (drop (longLseek (raw_lba offset shift) + unat (raw_pos offset shift)) content)"

section \<open>The reader\<close>

abbreviation ZISO_IDX_MAX_ENTRIES :: nat where "ZISO_IDX_MAX_ENTRIES \<equiv> 257"
abbreviation ZISO_HEADER_SIZE :: nat where "ZISO_HEADER_SIZE \<equiv> 24"

text \<open>A little-endian word in memory.\<close>

definition le32 :: "u8 list \<Rightarrow> nat \<Rightarrow> u32" where
  "le32 m p = ucast (m ! p) OR push_bit 8 (ucast (m ! (p + 1))) OR push_bit 16 (ucast (m ! (p + 2))) OR
     push_bit 24 (ucast (m ! (p + 3)))"

definition le_bytes :: "u32 \<Rightarrow> u8 list" where
  "le_bytes w = [ucast w, ucast (drop_bit 8 w), ucast (drop_bit 16 w), ucast (drop_bit 24 w)]"

record ziso =
  ziso_idx_cache :: "u8 list"
  ziso_idx_start_block :: "u32 option"
  ziso_align :: u32
  ziso_total_block :: u32

text \<open>The start block is negative (\<open>None\<close>) until the first index read.  The total number of blocks is
  the 64-bit size shifted right by 11, computed from its two halves.\<close>

definition ziso_init :: "u8 \<Rightarrow> u32 \<Rightarrow> u32 \<Rightarrow> u8 list \<Rightarrow> ziso" where
  "ziso_init align total_lo total_hi cache =
     \<lparr>ziso_idx_cache = cache, ziso_idx_start_block = None, ziso_align = ucast align,
      ziso_total_block = drop_bit 11 total_lo OR push_bit 21 (total_hi AND 0x7ff)\<rparr>"

definition mask31 :: "u32 \<Rightarrow> u32" where
  "mask31 x = x AND 0x7FFFFFFF"

definition idx_entry :: "u8 list \<Rightarrow> nat \<Rightarrow> u32 cres" where
  "idx_entry cache k = (if 4 * k + 4 \<le> length cache then Inr (le32 cache (4 * k)) else Inl OutOfBounds)"

text \<open>Overwrite the start of the cache with what was read.\<close>

definition fill_cache :: "u8 list \<Rightarrow> u8 list \<Rightarrow> u8 list" where
  "fill_cache cache bytes = bytes @ drop (length bytes) cache"

definition refresh_index :: "(u32 \<Rightarrow> u32 \<Rightarrow> u32 \<Rightarrow> u8 list) \<Rightarrow> ziso \<Rightarrow> u32 \<Rightarrow> u32 \<Rightarrow> ziso" where
  "refresh_index raw z lsn count =
     (if (case ziso_idx_start_block z of
            None \<Rightarrow> True
          | Some b \<Rightarrow> lsn < b \<or> b + of_nat ZISO_IDX_MAX_ENTRIES - 1 \<le> lsn + count)
      then z\<lparr>ziso_idx_cache := fill_cache (ziso_idx_cache z)
               (raw (of_nat (4 * ZISO_IDX_MAX_ENTRIES)) (lsn * 4 + of_nat ZISO_HEADER_SIZE) 0),
             ziso_idx_start_block := Some lsn\<rparr>
      else z)"

text \<open>\<open>memcpy\<close> inside one buffer, as the copy of one byte after the other from the lowest address on.
  The C library defines its result only when source and destination are apart; here the block that is
  moved may overlap its destination, and the result is the one of an ascending copy.\<close>

fun memcpy_up :: "u8 list \<Rightarrow> nat \<Rightarrow> nat \<Rightarrow> nat \<Rightarrow> u8 list cres" where
  "memcpy_up buf dst src 0 = Inr buf"
| "memcpy_up buf dst src (Suc n) =
     c_bind (mem_read buf src 1) (\<lambda>b.
     c_bind (mem_write buf dst b) (\<lambda>buf'.
       memcpy_up buf' (dst + 1) (src + 1) n))"

text \<open>The loop over the sectors: \<open>k\<close> is \<open>cur_block - ziso_idx_start_block\<close>, \<open>c\<close> the offset of the
  compressed data in the buffer, \<open>a\<close> that of the next sector.\<close>

fun ziso_blocks ::
  "(u8 list \<Rightarrow> u8 list) \<Rightarrow> u8 list \<Rightarrow> u32 \<Rightarrow> nat \<Rightarrow> nat \<Rightarrow> nat \<Rightarrow> u8 list \<Rightarrow> nat \<Rightarrow> u8 list cres" where
  "ziso_blocks lz4 cache align k c a buf 0 = Inr buf"
| "ziso_blocks lz4 cache align k c a buf (Suc n) =
     c_bind (idx_entry cache k) (\<lambda>e0.
     c_bind (idx_entry cache (k + 1)) (\<lambda>e1.
       let topbit = e0 AND 0x80000000;
           b_size = push_bit (unat align) (mask31 e1 - mask31 e0);
           r = unat (min b_size 2048)
       in c_bind
            (if topbit = 0 then c_bind (mem_read buf c r) (\<lambda>ziso_tmp_buf. mem_write buf a (lz4 ziso_tmp_buf))
             else memcpy_up buf a c r) (\<lambda>buf'.
          ziso_blocks lz4 cache align (k + 1) (c + unat b_size) (a + 2048) buf' n)))"

definition ziso_read_sector ::
  "(u32 \<Rightarrow> u32 \<Rightarrow> u32 \<Rightarrow> u8 list) \<Rightarrow> (u8 list \<Rightarrow> u8 list) \<Rightarrow> ziso \<Rightarrow> u8 list \<Rightarrow> u32 \<Rightarrow> u32 \<Rightarrow> (u32 \<times> u8 list \<times> ziso) cres" where
  "ziso_read_sector raw lz4 z addr lsn count0 =
     (if ziso_total_block z \<le> lsn then Inr (0, addr, z)
      else
        let count = (if ziso_total_block z < lsn + count0 then ziso_total_block z - lsn else count0);
            z1 = refresh_index raw z lsn count;
            k = unat (lsn - the (ziso_idx_start_block z1))
        in c_bind (idx_entry (ziso_idx_cache z1) k) (\<lambda>e0.
           c_bind (idx_entry (ziso_idx_cache z1) (unat (lsn + count - the (ziso_idx_start_block z1)))) (\<lambda>e1.
             let o_start = mask31 e0; o_end = mask31 e1;
                 compressed_size = push_bit (unat (ziso_align z1)) (o_end - o_start);
                 c_buff = unat count * 2048 - unat compressed_size
             in if unat count * 2048 < unat compressed_size then Inl OutOfBounds
                else c_bind (mem_write addr c_buff (raw compressed_size o_start (ziso_align z1))) (\<lambda>buf.
                     c_bind (ziso_blocks lz4 (ziso_idx_cache z1) (ziso_align z1) k c_buff 0 buf (unat count)) (\<lambda>buf'.
                       Inr (count, buf', z1))))))"

lemma le32_le_bytes [simp]: "le32 (le_bytes w) 0 = w"
proof -
  have "le32 (le_bytes w) 0 = ucast (ucast w :: u8) OR push_bit 8 (ucast (ucast (drop_bit 8 w) :: u8)) OR
      push_bit 16 (ucast (ucast (drop_bit 16 w) :: u8)) OR push_bit 24 (ucast (ucast (drop_bit 24 w) :: u8))"
    by (simp add: le32_def le_bytes_def)
  also have "\<dots> = w" (is "?b = w")
  proof (rule bit_word_eqI)
    fix n assume "n < LENGTH(32)"
    then show "bit ?b n \<longleftrightarrow> bit w n" by (cases "n < 8"; cases "n < 16"; cases "n < 24"; simp add: bit_simps; arith?)
  qed
  finally show ?thesis .
qed

section \<open>Raw access is exact\<close>

lemma unat_inverse: "of_nat (unat w) = (w :: u32)"
  by simp

text \<open>The bytes \<open>a\<close> to \<open>a + n\<close> of a sequence.\<close>

definition cut :: "(nat \<Rightarrow> 'a) \<Rightarrow> nat \<Rightarrow> nat \<Rightarrow> 'a list" where
  "cut f a n = map f [a..<a + n]"

lemma cut_0 [simp]: "cut f a 0 = []"
  by (simp add: cut_def)

lemma length_cut [simp]: "length (cut f a n) = n"
  by (simp add: cut_def)

lemma cut_append: "cut f a m @ cut f (a + m) n = cut f a (m + n)"
  using upt_add_eq_append [of a "a + m" n] by (simp add: cut_def add.assoc)

lemma take_cut: "m \<le> n \<Longrightarrow> take m (cut f a n) = cut f a m"
  by (simp add: cut_def take_map take_upt)

lemma drop_cut: "m \<le> n \<Longrightarrow> drop m (cut f a n) = cut f (a + m) (n - m)"
  by (simp add: cut_def drop_map)

lemma nth_cut [simp]: "i < n \<Longrightarrow> cut f a n ! i = f (a + i)"
  by (simp add: cut_def)

lemma longLseek_loop_eq: "longLseek_loop r pos = pos + 2048 * unat r"
proof (induction r pos rule: longLseek_loop.induct)
  case (1 r pos)
  show ?case
  proof (cases "0 < r")
    case True
    define t where "t = (if SEEK_MAX < r then SEEK_MAX else r)"
    have t: "t \<le> SEEK_MAX" "t \<le> r" by (auto simp: t_def)
    then have le: "unat t \<le> 1048575" "unat t \<le> unat r" by (simp_all add: word_le_nat_alt)
    have "unat (t * 2048) = unat t * 2048" using le(1) u32_unat_mult [of t 2048] by simp
    moreover have "longLseek_loop r pos = longLseek_loop (r - t) (pos + unat (t * 2048))"
      using True by (subst longLseek_loop.simps) (simp add: t_def Let_def)
    moreover have "longLseek_loop (r - t) (pos + unat (t * 2048)) = pos + unat (t * 2048) + 2048 * unat (r - t)"
      using 1 [OF True t_def] by simp
    moreover have "unat (r - t) = unat r - unat t" using t(2) by (rule unat_sub)
    ultimately show ?thesis using le(2) by simp
  next
    case False
    then show ?thesis by (subst longLseek_loop.simps) (simp add: word_gt_0)
  qed
qed

lemma longLseek_eq: "longLseek lba = 2048 * unat lba"
proof (cases "SEEK_MAX < lba")
  case True
  then have "unat (lba - SEEK_MAX) = unat lba - 1048575" "1048575 < unat lba"
    using unat_sub [of SEEK_MAX lba] by (simp_all add: word_less_nat_alt word_le_nat_alt)
  with True show ?thesis by (simp add: longLseek_def longLseek_loop_eq)
next
  case False
  then have "unat lba \<le> 1048575" by (simp add: word_less_nat_alt)
  then have "unat (lba * 2048) = unat lba * 2048" using u32_unat_mult [of lba 2048] by simp
  with False show ?thesis by (simp add: longLseek_def)
qed

text \<open>The sector and the position in it are the quotient and the remainder of the shifted offset.\<close>

lemma raw_split:
  assumes "unat shift \<le> 11"
  shows "2048 * unat (raw_lba offset shift) + unat (raw_pos offset shift) = unat offset * 2 ^ unat shift"
    "unat (raw_pos offset shift) < 2048"
proof -
  let ?s = "unat shift"
  have p: "2 ^ ?s * 2 ^ (11 - ?s) = (2048 :: nat)" using assms by (simp flip: power_add)
  then have d: "2048 div 2 ^ ?s = (2 :: nat) ^ (11 - ?s)"
    by (metis nonzero_mult_div_cancel_left power_not_zero zero_neq_numeral)
  have lba: "unat (raw_lba offset shift) = unat offset div 2 ^ (11 - ?s)"
    by (simp only: raw_lba_def unat_div_distrib unat_drop_bit_eq) (simp add: drop_bit_eq_div d)
  have "raw_pos offset shift = take_bit 11 (push_bit ?s offset)"
    by (simp add: raw_pos_def take_bit_eq_mask mask_eq_exp_minus_1)
  then have "unat (raw_pos offset shift) = unat (push_bit ?s offset) mod 2048"
    by (simp add: take_bit_eq_mod unat_mod_distrib)
  also have "unat (push_bit ?s offset) = (unat offset * 2 ^ ?s) mod 2 ^ 32"
    by (simp only: unsigned_push_bit_eq) (simp add: take_bit_eq_mod push_bit_eq_mult)
  also have "\<dots> mod 2048 = (unat offset * 2 ^ ?s) mod 2048"
    by (rule mod_mod_cancel) simp
  finally have pos: "unat (raw_pos offset shift) = (unat offset * 2 ^ ?s) mod 2048" .
  have "(unat offset * 2 ^ ?s) div 2048 = unat offset div 2 ^ (11 - ?s)"
    using p by (metis div_mult_mult2 mult.commute power_not_zero zero_neq_numeral)
  with lba pos show "2048 * unat (raw_lba offset shift) + unat (raw_pos offset shift) = unat offset * 2 ^ ?s"
    using mult_div_mod_eq [of 2048 "unat offset * 2 ^ ?s"] by simp
  show "unat (raw_pos offset shift) < 2048" using pos by simp
qed

definition hdd_byte :: "(u32 \<Rightarrow> u8 list) \<Rightarrow> u32 \<Rightarrow> nat \<Rightarrow> u8" where
  "hdd_byte hdd plba i = hdd (plba + of_nat (i div 512)) ! (i mod 512)"

definition sectors_ok :: "(u32 \<Rightarrow> u8 list) \<Rightarrow> bool" where
  "sectors_ok hdd \<longleftrightarrow> (\<forall>s. length (hdd s) = 512)"

lemma hdd_sectors:
  assumes "sectors_ok hdd"
  shows "concat (map (\<lambda>k. hdd (plba + of_nat L * 4 + of_nat k)) [0..<m]) = cut (hdd_byte hdd plba) (2048 * L) (512 * m)"
proof (induction m)
  case (Suc m)
  have len: "length (hdd x) = 512" for x using assms by (simp add: sectors_ok_def)
  have "hdd (plba + of_nat L * 4 + of_nat m) = cut (hdd_byte hdd plba) (2048 * L + 512 * m) 512"
  proof (rule nth_equalityI)
    fix i assume "i < length (hdd (plba + of_nat L * 4 + of_nat m))"
    then have i: "i < 512" by (simp add: len)
    have "2048 * L + 512 * m + i = i + 512 * (L * 4 + m)" by simp
    then have "(2048 * L + 512 * m + i) div 512 = L * 4 + m" "(2048 * L + 512 * m + i) mod 512 = i"
      using i by (simp_all only: div_mult_self2 mod_mult_self2) simp_all
    then show "hdd (plba + of_nat L * 4 + of_nat m) ! i = cut (hdd_byte hdd plba) (2048 * L + 512 * m) 512 ! i"
      using i by (simp add: hdd_byte_def add.assoc)
  qed (simp add: len)
  with Suc show ?case using cut_append [of "hdd_byte hdd plba" "2048 * L" "512 * m" 512] by (simp add: add.commute)
qed (simp add: cut_def)

lemma ReadHDDSectors_cut:
  assumes "sectors_ok hdd" "4 * unat n < 2 ^ 32"
  shows "ReadHDDSectors hdd plba (of_nat L) n = cut (hdd_byte hdd plba) (2048 * L) (2048 * unat n)"
proof -
  have "unat (n * 4) = unat n * 4" using assms(2) u32_unat_mult [of n 4] by simp
  then show ?thesis using hdd_sectors [OF assms(1), of plba L "unat n * 4"]
    by (simp add: ReadHDDSectors_def Let_def)
qed

lemma raw_head_cut:
  assumes "sectors_ok hdd" "unat pos < 2048"
  shows "\<exists>n m L'. raw_head hdd plba (of_nat L) pos sz = (cut (hdd_byte hdd plba) (2048 * L + unat pos) n, of_nat m, of_nat L') \<and>
    n + m = unat sz \<and> (m = 0 \<or> 2048 * L + unat pos + n = 2048 * L')"
proof (cases "pos = 0")
  case True
  then show ?thesis
    by - (rule exI [of _ 0], rule exI [of _ "unat sz"], rule exI [of _ L], simp add: raw_head_def cut_def)
next
  case False
  have "unat (2048 - pos) = 2048 - unat pos"
    using assms(2) unat_sub [of pos 2048] by (simp add: word_le_nat_alt)
  define r where "r = min sz (2048 - pos)"
  have r: "unat r = min (unat sz) (2048 - unat pos)"
    unfolding r_def using \<open>unat (2048 - pos) = _\<close> by (simp add: min_def word_le_nat_alt)
  have "r \<le> sz" by (simp add: r_def)
  have sec: "ReadHDDSectors hdd plba (of_nat L) 1 = cut (hdd_byte hdd plba) (2048 * L) 2048"
    using ReadHDDSectors_cut [OF assms(1), of 1 plba L] by simp
  have "take (unat r) (drop (unat pos) (ReadHDDSectors hdd plba (of_nat L) 1)) = cut (hdd_byte hdd plba) (2048 * L + unat pos) (unat r)"
    unfolding sec using assms(2) r by (simp add: drop_cut take_cut)
  moreover have "sz - r = of_nat (unat sz - unat r)" using \<open>r \<le> sz\<close> by (metis unat_sub unat_inverse)
  moreover have "unat sz - unat r = 0 \<or> unat pos + unat r = 2048" "unat r \<le> unat sz" using r assms(2) by auto
  ultimately show ?thesis using False
    by - (rule exI [of _ "unat r"], rule exI [of _ "unat sz - unat r"], rule exI [of _ "L + 1"], auto simp: raw_head_def r_def [symmetric] Let_def add.commute)
qed

lemma raw_middle_cut:
  assumes "sectors_ok hdd"
  shows "\<exists>n L' m. raw_middle hdd plba (of_nat L) sz = (cut (hdd_byte hdd plba) (2048 * L) n, m, of_nat L') \<and>
    n + unat m = unat sz \<and> unat m \<le> 2048 \<and> 2048 * L' = 2048 * L + n"
proof -
  define b where "b = sz div 2048 + (if sz mod 2048 \<noteq> 0 then 1 else 0)"
  have sz: "unat sz = 2048 * (unat sz div 2048) + unat sz mod 2048" by simp
  have d: "unat (sz div 2048) = unat sz div 2048" "unat (sz mod 2048) = unat sz mod 2048"
    by (simp_all add: unat_div_distrib unat_mod_distrib)
  have lt: "unat sz < 2 ^ 32" by (rule u32_unat_less)
  have z: "sz mod 2048 = 0 \<longleftrightarrow> unat sz mod 2048 = 0" using d(2) by (metis unat_0 unat_eq_zero)
  have b: "unat b = unat sz div 2048 + (if unat sz mod 2048 = 0 then 0 else 1)"
    unfolding b_def using d z lt u32_unat_add [of "sz div 2048" 1] by auto
  show ?thesis
  proof (cases "1 < b")
    case True
    then have b1: "unat (b - 1) = unat b - 1" "1 < unat b" using unat_sub [of 1 b] by (auto simp: word_less_nat_alt word_le_nat_alt)
    have "2048 * (unat b - 1) \<le> unat sz" using b b1(2) sz by (auto split: if_splits)
    then have m: "unat (2048 * (b - 1)) = 2048 * (unat b - 1)" using u32_unat_mult [of 2048 "b - 1"] b1 lt by simp
    then have "unat (sz - 2048 * (b - 1)) = unat sz - 2048 * (unat b - 1)"
      using unat_sub [of "2048 * (b - 1)" sz] \<open>2048 * (unat b - 1) \<le> unat sz\<close> by (simp add: word_le_nat_alt)
    moreover have "unat sz - 2048 * (unat b - 1) \<le> 2048" using b b1(2) sz by (auto split: if_splits)
    moreover have "ReadHDDSectors hdd plba (of_nat L) (b - 1) = cut (hdd_byte hdd plba) (2048 * L) (2048 * (unat b - 1))"
      using ReadHDDSectors_cut [OF assms, of "b - 1" plba L] b1 b lt by (auto split: if_splits)
    moreover have "of_nat L + (b - 1) = (of_nat (L + (unat b - 1)) :: u32)" using b1(1) by (metis of_nat_add unat_inverse)
    ultimately show ?thesis using True \<open>2048 * (unat b - 1) \<le> unat sz\<close>
      by - (rule exI [of _ "2048 * (unat b - 1)"], rule exI [of _ "L + (unat b - 1)"], rule exI [of _ "sz - 2048 * (b - 1)"],
        simp add: raw_middle_def Let_def b_def [symmetric] algebra_simps)
  next
    case False
    then have "unat b \<le> 1" by (simp add: word_less_nat_alt)
    then have "unat sz \<le> 2048" using b sz by (auto split: if_splits)
    with False show ?thesis
      by - (rule exI [of _ 0], rule exI [of _ L], rule exI [of _ sz], simp add: raw_middle_def Let_def b_def [symmetric] cut_def)
  qed
qed

lemma read_raw_hdd_cut:
  assumes "sectors_ok hdd" "unat shift \<le> 11"
  shows "read_raw_hdd hdd plba sz offset shift = cut (hdd_byte hdd plba) (unat offset * 2 ^ unat shift) (unat sz)"
proof -
  let ?f = "hdd_byte hdd plba" and ?L = "unat (raw_lba offset shift)" and ?p = "raw_pos offset shift"
  note rs = raw_split [OF assms(2), of offset]
  obtain n m L1 where h: "raw_head hdd plba (raw_lba offset shift) ?p sz = (cut ?f (2048 * ?L + unat ?p) n, of_nat m, of_nat L1)"
      "n + m = unat sz" "m = 0 \<or> 2048 * ?L + unat ?p + n = 2048 * L1"
    using raw_head_cut [OF assms(1) rs(2), of plba ?L sz] unfolding unat_inverse by blast
  have um: "unat (of_nat m :: u32) = m" using h(2) u32_unat_less [of sz] by (simp add: unsigned_of_nat take_bit_eq_mod)
  obtain n2 L2 m2 where mid: "raw_middle hdd plba (of_nat L1) (of_nat m) = (cut ?f (2048 * L1) n2, m2, of_nat L2)"
      "n2 + unat m2 = m" "unat m2 \<le> 2048" "2048 * L2 = 2048 * L1 + n2"
    using raw_middle_cut [OF assms(1), of plba L1 "of_nat m"] um by auto
  have "raw_tail hdd plba (of_nat L2) m2 = cut ?f (2048 * L2) (unat m2)"
    using ReadHDDSectors_cut [OF assms(1), of 1 plba L2] mid(3) by (auto simp: raw_tail_def take_cut)
  then have "cut ?f (2048 * L1) n2 @ raw_tail hdd plba (of_nat L2) m2 = cut ?f (2048 * L1) m"
    using mid(2,4) cut_append [of ?f "2048 * L1" n2 "unat m2"] by simp
  then have "read_raw_hdd hdd plba sz offset shift = cut ?f (2048 * ?L + unat ?p) n @ cut ?f (2048 * L1) m"
    using h(1) mid(1) by (simp add: read_raw_hdd_def)
  also have "\<dots> = cut ?f (2048 * ?L + unat ?p) (unat sz)"
    using h(2,3) cut_append [of ?f "2048 * ?L + unat ?p" n m] by (auto simp: cut_def)
  finally show ?thesis using rs(1) by simp
qed

section \<open>The contract of the raw access\<close>

text \<open>What the reader relies on: wherever the image has bytes, a read delivers them.\<close>

locale raw_reader =
  fixes raw :: "u32 \<Rightarrow> u32 \<Rightarrow> u32 \<Rightarrow> u8 list" and img :: "u8 list"
  assumes raw_length: "unat shift \<le> 11 \<Longrightarrow> length (raw sz offset shift) \<le> unat sz"
    and raw_bytes: "unat shift \<le> 11 \<Longrightarrow> i < unat sz \<Longrightarrow> unat offset * 2 ^ unat shift + i < length img \<Longrightarrow>
      i < length (raw sz offset shift) \<and> raw sz offset shift ! i = img ! (unat offset * 2 ^ unat shift + i)"
begin

text \<open>A read inside the image is exact.\<close>

lemma raw_inside:
  assumes "unat shift \<le> 11" "unat offset * 2 ^ unat shift + unat sz \<le> length img"
  shows "raw sz offset shift = take (unat sz) (drop (unat offset * 2 ^ unat shift) img)"
proof -
  have b: "i < length (raw sz offset shift) \<and> raw sz offset shift ! i = img ! (unat offset * 2 ^ unat shift + i)"
    if "i < unat sz" for i
    using raw_bytes assms that by simp
  then have "unat sz \<le> length (raw sz offset shift)" by (metis linorder_not_le order_refl)
  with raw_length [OF assms(1)] have "length (raw sz offset shift) = unat sz" by (simp add: le_antisym)
  then show ?thesis using b assms(2) by (intro nth_equalityI) auto
qed

end

text \<open>The partition's bytes, as far as the image reaches.\<close>

definition hdd_image :: "(u32 \<Rightarrow> u8 list) \<Rightarrow> u32 \<Rightarrow> nat \<Rightarrow> u8 list" where
  "hdd_image hdd plba n = cut (hdd_byte hdd plba) 0 n"

text \<open>Every disk is of this form: sectors of 512 bytes.\<close>

definition pad_sector :: "u8 list \<Rightarrow> u8 list" where
  "pad_sector s = take 512 (s @ replicate 512 0)"

lemma pad_sectors_ok: "sectors_ok (\<lambda>s. pad_sector (disk s))"
  by (auto simp: sectors_ok_def pad_sector_def)

interpretation hdd: raw_reader "read_raw_hdd (\<lambda>s. pad_sector (disk s)) plba" "hdd_image (\<lambda>s. pad_sector (disk s)) plba n"
  for disk plba n
  by unfold_locales (simp_all add: read_raw_hdd_cut pad_sectors_ok hdd_image_def)

interpretation zfile: raw_reader "read_raw_file content" content
  for content
  using raw_split by unfold_locales (auto simp: read_raw_file_def longLseek_eq)

section \<open>Well-formed compressed images\<close>

definition idx_at :: "u8 list \<Rightarrow> nat \<Rightarrow> u32" where
  "idx_at img k = le32 img (ZISO_HEADER_SIZE + 4 * k)"

definition off :: "u8 list \<Rightarrow> nat \<Rightarrow> nat" where
  "off img k = unat (mask31 (idx_at img k))"

definition is_compressed :: "u8 list \<Rightarrow> nat \<Rightarrow> bool" where
  "is_compressed img k \<longleftrightarrow> idx_at img k AND 0x80000000 = 0"

definition block :: "u8 list \<Rightarrow> nat \<Rightarrow> nat \<Rightarrow> u8 list" where
  "block img al k = take ((off img (k + 1) - off img k) * 2 ^ al) (drop (off img k * 2 ^ al) img)"

definition sector :: "(u8 list \<Rightarrow> u8 list) \<Rightarrow> u8 list \<Rightarrow> nat \<Rightarrow> nat \<Rightarrow> u8 list" where
  "sector lz4 img al k = (if is_compressed img k then lz4 (block img al k) else block img al k)"

text \<open>Blocks follow each other, none takes more room than a sector, raw blocks are whole sectors and
  compressed ones expand to whole sectors.\<close>

definition block_ok :: "(u8 list \<Rightarrow> u8 list) \<Rightarrow> u8 list \<Rightarrow> nat \<Rightarrow> nat \<Rightarrow> bool" where
  "block_ok lz4 img al k \<longleftrightarrow> off img k \<le> off img (k + 1) \<and>
     (off img (k + 1) - off img k) * 2 ^ al \<le> 2048 \<and> off img (k + 1) * 2 ^ al \<le> length img \<and>
     length (sector lz4 img al k) = 2048"

definition zso_ok :: "(u8 list \<Rightarrow> u8 list) \<Rightarrow> u8 list \<Rightarrow> nat \<Rightarrow> nat \<Rightarrow> bool" where
  "zso_ok lz4 img al nblk \<longleftrightarrow> al \<le> 11 \<and> nblk < 2 ^ 29 \<and>
     ZISO_HEADER_SIZE + 4 * (nblk + 1) \<le> length img \<and> (\<forall>k < nblk. block_ok lz4 img al k)"

text \<open>The index cache holds entries of the image.\<close>

definition cache_ok :: "u8 list \<Rightarrow> nat \<Rightarrow> ziso \<Rightarrow> bool" where
  "cache_ok img nblk z \<longleftrightarrow> length (ziso_idx_cache z) = 4 * ZISO_IDX_MAX_ENTRIES \<and>
     (\<forall>b. ziso_idx_start_block z = Some b \<longrightarrow> unat b < nblk \<and>
        (\<forall>j < ZISO_IDX_MAX_ENTRIES. unat b + j \<le> nblk \<longrightarrow> le32 (ziso_idx_cache z) (4 * j) = idx_at img (unat b + j)))"

section \<open>Reading sectors\<close>

lemma push_bit_diff:
  assumes "unat x \<le> unat y" "(unat y - unat x) * 2 ^ s < 2 ^ 32"
  shows "unat (push_bit s (y - x :: u32)) = (unat y - unat x) * 2 ^ s"
proof -
  have "unat (y - x) = unat y - unat x" using assms(1) by (intro unat_sub) (simp add: word_le_nat_alt)
  then show ?thesis using assms(2)
    by (simp only: unsigned_push_bit_eq) (simp add: take_bit_eq_mod push_bit_eq_mult)
qed

lemma blocks_span:
  assumes "\<forall>k. m \<le> k \<and> k < m + n \<longrightarrow> block_ok lz4 img al k"
  shows "off img m \<le> off img (m + n)" "(off img (m + n) - off img m) * 2 ^ al \<le> n * 2048"
    "0 < n \<Longrightarrow> off img (m + n) * 2 ^ al \<le> length img"
proof -
  have "off img m \<le> off img (m + n) \<and> (off img (m + n) - off img m) * 2 ^ al \<le> n * 2048"
    using assms
  proof (induction n)
    case (Suc n)
    then have b: "block_ok lz4 img al (m + n)" and
      ih: "off img m \<le> off img (m + n)" "(off img (m + n) - off img m) * 2 ^ al \<le> n * 2048" by auto
    then have "off img (m + n) \<le> off img (m + Suc n)" "(off img (m + Suc n) - off img (m + n)) * 2 ^ al \<le> 2048"
      by (simp_all add: block_ok_def)
    moreover have "off img (m + Suc n) - off img m =
        (off img (m + n) - off img m) + (off img (m + Suc n) - off img (m + n))"
      using calculation ih(1) by simp
    ultimately have "(off img (m + Suc n) - off img m) * 2 ^ al =
        (off img (m + n) - off img m) * 2 ^ al + (off img (m + Suc n) - off img (m + n)) * 2 ^ al"
      by (simp only: distrib_right)
    with ih \<open>off img (m + n) \<le> off img (m + Suc n)\<close> \<open>(off img (m + Suc n) - off img (m + n)) * 2 ^ al \<le> 2048\<close>
    show ?case by (simp del: add_Suc_right)
  qed simp
  then show "off img m \<le> off img (m + n)" "(off img (m + n) - off img m) * 2 ^ al \<le> n * 2048" by auto
  assume "0 < n"
  then obtain l where "n = Suc l" by (cases n) auto
  with assms show "off img (m + n) * 2 ^ al \<le> length img" by (auto simp: block_ok_def)
qed

text \<open>The loop in place: the compressed data at the end of the buffer is consumed before the sectors
  grow over it.\<close>

text \<open>An ascending copy to a lower address moves the bytes, overlapping or not.\<close>

lemma memcpy_up_moves:
  "dst \<le> src \<Longrightarrow> src + n \<le> length buf \<Longrightarrow>
   memcpy_up buf dst src n = Inr (take dst buf @ take n (drop src buf) @ drop (dst + n) buf)"
proof (induction n arbitrary: buf dst src)
  case (Suc n)
  let ?buf = "buf[dst := buf ! src]"
  have rd: "take 1 (drop src buf) = [buf ! src]" using Suc.prems(2) by (simp add: take_Suc_conv_app_nth)
  have up: "take dst buf @ buf ! src # drop (Suc dst) buf = ?buf"
    using Suc.prems by (simp add: upd_conv_take_nth_drop)
  have "memcpy_up buf dst src (Suc n) = memcpy_up ?buf (dst + 1) (src + 1) n"
    using Suc.prems rd up by (simp add: mem_write_def)
  also have "\<dots> = Inr (take (dst + 1) ?buf @ take n (drop (src + 1) ?buf) @ drop (dst + 1 + n) ?buf)"
    using Suc.prems by (intro Suc.IH) simp_all
  also have "take (dst + 1) ?buf = take dst buf @ [buf ! src]"
    using Suc.prems by (simp add: take_Suc_conv_app_nth)
  also have "drop (src + 1) ?buf = drop (src + 1) buf" using Suc.prems by simp
  also have "drop (dst + 1 + n) ?buf = drop (dst + Suc n) buf" by simp
  finally show ?case using Suc.prems by (simp add: take_Suc_conv_app_nth Cons_nth_drop_Suc [symmetric])
qed simp

lemma ziso_blocks_ok:
  assumes "\<forall>j \<le> n. idx_entry cache (k + j) = Inr (idx_at img (m + j))"
    and "\<forall>i. m \<le> i \<and> i < m + n \<longrightarrow> block_ok lz4 img (unat align) i"
    and "a + n * 2048 \<le> length buf"
    and "c + (off img (m + n) - off img m) * 2 ^ unat align = a + n * 2048"
    and "take ((off img (m + n) - off img m) * 2 ^ unat align) (drop c buf) =
      take ((off img (m + n) - off img m) * 2 ^ unat align) (drop (off img m * 2 ^ unat align) img)"
  shows "ziso_blocks lz4 cache align k c a buf n =
    Inr (take a buf @ concat (map (sector lz4 img (unat align)) [m..<m + n]) @ drop (a + n * 2048) buf)"
  using assms
proof (induction n arbitrary: k c a buf m)
  case (Suc n)
  let ?al = "unat align"
  define s0 where "s0 = (off img (m + 1) - off img m) * 2 ^ ?al"
  define R where "R = (off img (m + Suc n) - off img (m + 1)) * 2 ^ ?al"
  have b: "block_ok lz4 img ?al m" using Suc.prems(2) by simp
  have rest: "\<forall>i. m + 1 \<le> i \<and> i < m + 1 + n \<longrightarrow> block_ok lz4 img ?al i" using Suc.prems(2) by simp
  have le: "off img m \<le> off img (m + 1)" "off img (m + 1) \<le> off img (m + Suc n)" "R \<le> n * 2048" "s0 \<le> 2048"
    using b blocks_span(1,2) [OF rest] by (auto simp: block_ok_def R_def s0_def)
  have tot: "(off img (m + Suc n) - off img m) * 2 ^ ?al = s0 + R"
    using le(1,2) by (simp add: s0_def R_def flip: distrib_right)
  have c: "c + s0 + R = a + Suc n * 2048" "a \<le> c" "a + 2048 \<le> c + s0" using Suc.prems(4) tot le(3,4) by simp_all
  have e: "idx_entry cache k = Inr (idx_at img m)" "idx_entry cache (k + 1) = Inr (idx_at img (m + 1))"
    using Suc.prems(1) [rule_format, of 0] Suc.prems(1) [rule_format, of 1] by simp_all
  have bs: "unat (push_bit ?al (mask31 (idx_at img (m + 1)) - mask31 (idx_at img m))) = s0"
    unfolding s0_def off_def using le(1,4) by (intro push_bit_diff) (auto simp: off_def s0_def)
  then have mn: "unat (min (push_bit ?al (mask31 (idx_at img (m + 1)) - mask31 (idx_at img m))) 2048) = s0"
    using le(4) by (simp add: min_def word_le_nat_alt)
  have win: "take (s0 + R) (drop c buf) = take (s0 + R) (drop (off img m * 2 ^ ?al) img)"
    using Suc.prems(5) tot by simp
  then have blk: "take s0 (drop c buf) = block img ?al m"
    by (metis block_def le_add1 min.absorb1 s0_def take_take)
  have sec: "length (sector lz4 img ?al m) = 2048" using b by (simp add: block_ok_def)
  let ?buf = "take a buf @ sector lz4 img ?al m @ drop (a + 2048) buf"
  have len: "length ?buf = length buf" using sec Suc.prems(3) by simp
  have "drop (c + s0) ?buf = drop (c + s0) buf" using c(3) sec Suc.prems(3) by simp
  moreover have "take R (drop (c + s0) buf) = take R (drop (off img (m + 1) * 2 ^ ?al) img)"
  proof -
    have "drop s0 (take (s0 + R) (drop c buf)) = drop s0 (take (s0 + R) (drop (off img m * 2 ^ ?al) img))" using win by simp
    moreover have "s0 + off img m * 2 ^ ?al = off img (m + 1) * 2 ^ ?al"
      using le(1) by (simp add: s0_def flip: distrib_right)
    ultimately show ?thesis by (simp add: drop_take add.commute)
  qed
  ultimately have ih: "ziso_blocks lz4 cache align (k + 1) (c + s0) (a + 2048) ?buf n =
      Inr (take (a + 2048) ?buf @ concat (map (sector lz4 img ?al) [m + 1..<m + 1 + n]) @ drop (a + 2048 + n * 2048) ?buf)"
    using Suc.prems(1,3) rest len c(1)
    by (intro Suc.IH) (auto simp: R_def)
  have mv: "memcpy_up buf a c s0 = Inr (take a buf @ block img ?al m @ drop (a + s0) buf)"
    using blk c(1,2) Suc.prems(3) by (simp add: memcpy_up_moves)
  have l: "length (block img ?al m) = s0" using blk c(1) Suc.prems(3) by (metis add_le_imp_le_diff length_drop length_take min.absorb2 add.commute le_add1 le_trans)
  have wr: "(if idx_at img m AND 0x80000000 = 0 then
       c_bind (mem_read buf c s0) (\<lambda>ziso_tmp_buf. mem_write buf a (lz4 ziso_tmp_buf)) else memcpy_up buf a c s0) = Inr ?buf"
    using blk c(1) Suc.prems(3) sec mv l by (auto simp: mem_write_def sector_def is_compressed_def)
  have "ziso_blocks lz4 cache align k c a buf (Suc n) = ziso_blocks lz4 cache align (k + 1) (c + s0) (a + 2048) ?buf n"
    by (simp only: ziso_blocks.simps e c_bind_Inr Let_def bs mn wr)
  also have "\<dots> = Inr (take a buf @ concat (map (sector lz4 img ?al) (m # [m + 1..<m + 1 + n])) @ drop (a + Suc n * 2048) buf)"
    unfolding ih using sec Suc.prems(3) by (simp add: ac_simps)
  also have "m # [m + 1..<m + 1 + n] = [m..<m + Suc n]" by (simp add: upt_rec)
  finally show ?case .
qed simp

lemma cache_entry:
  assumes "cache_ok img nblk z" "ziso_idx_start_block z = Some b" "j < ZISO_IDX_MAX_ENTRIES" "unat b + j \<le> nblk"
  shows "idx_entry (ziso_idx_cache z) j = Inr (idx_at img (unat b + j))"
  using assms by (simp add: cache_ok_def idx_entry_def)

context raw_reader
begin

text \<open>After an index read the cache holds the entries from the requested block on.\<close>

lemma fill_cache_ok:
  assumes "cache_ok img nblk z" "unat lsn < nblk" "nblk < 2 ^ 29" "ZISO_HEADER_SIZE + 4 * (nblk + 1) \<le> length img"
  shows "cache_ok img nblk (z\<lparr>ziso_idx_cache := fill_cache (ziso_idx_cache z)
      (raw (of_nat (4 * ZISO_IDX_MAX_ENTRIES)) (lsn * 4 + of_nat ZISO_HEADER_SIZE) 0), ziso_idx_start_block := Some lsn\<rparr>)"
proof -
  let ?r = "raw (of_nat (4 * ZISO_IDX_MAX_ENTRIES)) (lsn * 4 + of_nat ZISO_HEADER_SIZE) 0"
  have l: "length ?r \<le> 1028" using raw_length [of 0 1028] by simp
  have "unat (lsn * 4) = unat lsn * 4" using assms(2,3) u32_unat_mult [of lsn 4] by simp
  then have o: "unat (lsn * 4 + 24) = unat lsn * 4 + 24" using assms(2,3) u32_unat_add [of "lsn * 4" 24] by simp
  have b: "p < length ?r \<and> ?r ! p = img ! (unat lsn * 4 + 24 + p)" if "p < 1028" "unat lsn * 4 + 24 + p < length img" for p
    using raw_bytes [of 0 p 1028 "lsn * 4 + 24"] that o by simp
  have "le32 (fill_cache (ziso_idx_cache z) ?r) (4 * j) = idx_at img (unat lsn + j)" if "j < 257" "unat lsn + j \<le> nblk" for j
  proof -
    have *: "unat lsn * 4 + 24 + (4 * j + q) < length img" "4 * j + q < 1028" if "q < 4" for q
      using that \<open>unat lsn + j \<le> nblk\<close> \<open>j < 257\<close> assms(4) by simp_all
    have "fill_cache (ziso_idx_cache z) ?r ! (4 * j + q) = img ! (24 + 4 * (unat lsn + j) + q)" if "q < 4" for q
      using b [OF *(2) [OF that] *(1) [OF that]] by (simp add: fill_cache_def nth_append algebra_simps)
    from this [of 0] this [of 1] this [of 2] this [of 3] show ?thesis by (simp add: le32_def idx_at_def)
  qed
  then show ?thesis using assms(1,2) l by (simp add: cache_ok_def fill_cache_def)
qed

lemma refresh_ok:
  assumes "cache_ok img nblk z" "unat lsn < nblk" "nblk < 2 ^ 29" "ZISO_HEADER_SIZE + 4 * (nblk + 1) \<le> length img"
    and "unat lsn + unat count \<le> nblk" "unat count \<le> 256"
  obtains b where "ziso_idx_start_block (refresh_index raw z lsn count) = Some b" "cache_ok img nblk (refresh_index raw z lsn count)"
    "unat b \<le> unat lsn" "unat lsn + unat count \<le> unat b + 256"
    "ziso_align (refresh_index raw z lsn count) = ziso_align z" "ziso_total_block (refresh_index raw z lsn count) = ziso_total_block z"
proof (cases "\<exists>b. ziso_idx_start_block z = Some b \<and> \<not> lsn < b \<and> \<not> b + of_nat ZISO_IDX_MAX_ENTRIES - 1 \<le> lsn + count")
  case True
  then obtain b where b: "ziso_idx_start_block z = Some b" "\<not> lsn < b" "\<not> b + 256 \<le> lsn + count"
    by (auto simp: add.commute)
  then have z: "refresh_index raw z lsn count = z" by (simp add: refresh_index_def add.commute)
  have "unat b \<le> unat lsn" using b(2) by (simp add: word_less_nat_alt)
  moreover have "unat b < nblk" using assms(1) b(1) by (simp add: cache_ok_def)
  then have "unat (b + 256) = unat b + 256" using assms(3) u32_unat_add [of b 256] by simp
  moreover have "unat (lsn + count) = unat lsn + unat count" using assms(3,5) u32_unat_add [of lsn count] by simp
  ultimately show ?thesis using that [of b] b z assms(1) by (simp add: word_le_nat_alt)
next
  case False
  then have "refresh_index raw z lsn count = z\<lparr>ziso_idx_cache := fill_cache (ziso_idx_cache z)
      (raw (of_nat (4 * ZISO_IDX_MAX_ENTRIES)) (lsn * 4 + of_nat ZISO_HEADER_SIZE) 0), ziso_idx_start_block := Some lsn\<rparr>"
    by (auto simp: refresh_index_def split: option.splits)
  with that [of lsn] fill_cache_ok [OF assms(1-4)] assms(6) show ?thesis by simp
qed

text \<open>The one read that fetches the compressed data of \<open>n\<close> blocks.\<close>

lemma raw_blocks:
  assumes bl: "\<forall>i. m \<le> i \<and> i < m + n \<longrightarrow> block_ok lz4 img (unat al) i" and al: "unat al \<le> 11" and n: "n \<le> 256"
  defines "sz \<equiv> push_bit (unat al) (mask31 (idx_at img (m + n)) - mask31 (idx_at img m))"
    and "C \<equiv> (off img (m + n) - off img m) * 2 ^ unat al"
  shows "unat sz = C" "C \<le> n * 2048" "raw sz (mask31 (idx_at img m)) al = take C (drop (off img m * 2 ^ unat al) img)"
proof -
  note sp = blocks_span [OF bl]
  show C: "unat sz = C" "C \<le> n * 2048"
    using push_bit_diff [of "mask31 (idx_at img m)" "mask31 (idx_at img (m + n))" "unat al"] sp(1,2) n
    by (auto simp: C_def sz_def off_def)
  show "raw sz (mask31 (idx_at img m)) al = take C (drop (off img m * 2 ^ unat al) img)"
  proof (cases "n = 0")
    case True
    with C show ?thesis using raw_length [OF al, of sz] by simp
  next
    case False
    have "off img m * 2 ^ unat al + C = off img (m + n) * 2 ^ unat al"
      using sp(1) by (simp add: C_def flip: distrib_right)
    with raw_inside [OF al, of "mask31 (idx_at img m)" sz] sp(3) False C show ?thesis by (simp add: off_def)
  qed
qed

lemma ziso_read_ok:
  assumes "zso_ok lz4 img (unat (ziso_align z)) (unat (ziso_total_block z))" "cache_ok img (unat (ziso_total_block z)) z"
    and "lsn < ziso_total_block z" "unat lsn + unat count < 2 ^ 32"
    and n: "n = min (unat count) (unat (ziso_total_block z) - unat lsn)" "n \<le> 256" "n * 2048 \<le> length addr"
  shows "\<exists>z'. ziso_read_sector raw lz4 z addr lsn count =
      Inr (of_nat n, concat (map (sector lz4 img (unat (ziso_align z))) [unat lsn..<unat lsn + n]) @ drop (n * 2048) addr, z') \<and>
    cache_ok img (unat (ziso_total_block z)) z' \<and> ziso_align z' = ziso_align z \<and> ziso_total_block z' = ziso_total_block z"
proof -
  let ?t = "unat (ziso_total_block z)" and ?al = "unat (ziso_align z)" and ?m = "unat lsn"
  have t: "?al \<le> 11" "?t < 2 ^ 29" "ZISO_HEADER_SIZE + 4 * (?t + 1) \<le> length img" "\<forall>k < ?t. block_ok lz4 img ?al k"
    using assms(1) by (simp_all add: zso_ok_def)
  have lt: "?m < ?t" using assms(3) by (simp add: word_less_nat_alt)
  define cnt where "cnt = (if ziso_total_block z < lsn + count then ziso_total_block z - lsn else count)"
  have "unat (lsn + count) = ?m + unat count" "unat (ziso_total_block z - lsn) = ?t - ?m"
    using assms(3,4) by (auto intro!: u32_unat_add unat_sub)
  then have cnt: "unat cnt = n" using lt n(1) by (auto simp: cnt_def word_less_nat_alt min_def)
  have ln: "?m + unat cnt \<le> ?t" "unat cnt \<le> 256" using cnt n(1,2) lt by auto
  define z1 where "z1 = refresh_index raw z lsn cnt"
  obtain b where b: "ziso_idx_start_block z1 = Some b" "cache_ok img ?t z1" "unat b \<le> ?m" "?m + n \<le> unat b + 256"
      "ziso_align z1 = ziso_align z" "ziso_total_block z1 = ziso_total_block z"
    using refresh_ok [OF assms(2) lt t(2,3) ln] cnt unfolding z1_def by metis
  have k: "unat (lsn - b) = ?m - unat b" "unat (lsn + cnt - b) = ?m + n - unat b"
    using unat_sub [of b lsn] unat_sub [of b "lsn + cnt"] u32_unat_add [of lsn cnt] b(3) ln t(2) cnt
    by (simp_all add: word_le_nat_alt)
  have e: "idx_entry (ziso_idx_cache z1) (?m - unat b + j) = Inr (idx_at img (?m + j))" if "j \<le> n" for j
    using cache_entry [OF b(2,1), of "?m - unat b + j"] that b(3,4) ln cnt by simp
  have e2: "idx_entry (ziso_idx_cache z1) (?m - unat b) = Inr (idx_at img ?m)"
      "idx_entry (ziso_idx_cache z1) (?m + n - unat b) = Inr (idx_at img (?m + n))"
    using e [of 0] e [of n] b(3) by simp_all
  have bl: "\<forall>i. ?m \<le> i \<and> i < ?m + n \<longrightarrow> block_ok lz4 img ?al i" using t(4) ln cnt by auto
  define C where "C = (off img (?m + n) - off img ?m) * 2 ^ ?al"
  define buf where "buf = take (n * 2048 - C) addr @ take C (drop (off img ?m * 2 ^ ?al) img) @ drop (n * 2048) addr"
  note rb = raw_blocks [OF bl t(1) n(2), folded C_def]
  have lenC: "length (take C (drop (off img ?m * 2 ^ ?al) img)) = C"
  proof (cases "n = 0")
    case False
    then have "off img ?m * 2 ^ ?al + C \<le> length img"
      using blocks_span [OF bl] by (simp add: C_def flip: distrib_right)
    then show ?thesis by simp
  qed (use rb(2) in simp)
  have wr: "mem_write addr (n * 2048 - C) (take C (drop (off img ?m * 2 ^ ?al) img)) = Inr buf"
    using lenC rb(2) n(3) by (simp add: mem_write_def buf_def)
  have "ziso_blocks lz4 (ziso_idx_cache z1) (ziso_align z) (?m - unat b) (n * 2048 - C) 0 buf n =
      Inr (take 0 buf @ concat (map (sector lz4 img ?al) [?m..<?m + n]) @ drop (0 + n * 2048) buf)"
    using e bl rb(2) n(3) lenC
    by (intro ziso_blocks_ok) (auto simp: buf_def C_def [symmetric])
  moreover have "drop (n * 2048) buf = drop (n * 2048) addr" using lenC rb(2) n(3) by (simp add: buf_def)
  moreover have "cnt = of_nat n" using cnt by (metis unat_inverse)
  moreover have "\<not> ziso_total_block z \<le> lsn" using assms(3) by simp
  ultimately have "ziso_read_sector raw lz4 z addr lsn count =
      Inr (of_nat n, concat (map (sector lz4 img ?al) [?m..<?m + n]) @ drop (n * 2048) addr, z1)"
    unfolding ziso_read_sector_def Let_def cnt_def [symmetric] z1_def [symmetric]
    using b(1,5) k e2 rb cnt wr by simp
  with b show ?thesis by blast
qed

end

lemma ziso_init_cache: "length cache = 4 * ZISO_IDX_MAX_ENTRIES \<Longrightarrow> cache_ok img nblk (ziso_init align lo hi cache)"
  by (simp add: cache_ok_def ziso_init_def)

section \<open>Properties\<close>

text \<open>A raw read from the hard disk delivers exactly the bytes of the partition from the shifted
  offset on, for every size, offset and alignment up to a sector: the split into the rest of a first
  sector, whole sectors and the start of a last one loses and repeats nothing, also where the shifted
  offset does not fit 32 bits.\<close>

theorem read_raw_hdd_exact:
  assumes "sectors_ok hdd" and "unat shift \<le> 11"
  shows "read_raw_hdd hdd plba sz offset shift = map (hdd_byte hdd plba)
    [unat offset * 2 ^ unat shift..<unat offset * 2 ^ unat shift + unat sz]"
  using read_raw_hdd_cut [OF assms] by (simp add: cut_def)

theorem read_raw_hdd_exact_witness:
  "read_raw_hdd (\<lambda>s. replicate 512 (ucast s)) 7 5000 4000000000 3 = map (hdd_byte (\<lambda>s. replicate 512 (ucast s)) 7)
    [unat (4000000000 :: u32) * 2 ^ unat (3 :: u32)..<unat (4000000000 :: u32) * 2 ^ unat (3 :: u32) + unat (5000 :: u32)]"
  by (rule read_raw_hdd_exact) (simp_all add: sectors_ok_def)

text \<open>C28: sectors of a compressed image in a file are read correctly: for a well-formed image, an index
  cache that is empty or holds a part of the index of this image, a first sector inside the image, a
  request that stays below sector \<open>2 ^ 32\<close> and comes to at most 256 sectors once those past the end are cut
  off, and a buffer with room for these, the buffer holds exactly these
  sectors and the answer is their number; the rest of the buffer is untouched, the index cache again
  holds a part of the index, and no access leaves the buffer or the cache although the compressed data
  is unpacked in place.  The decompressor is only assumed to turn each compressed block of the image
  into a sector.  A block stored raw may overlap the sector it is moved to: the copy is taken byte by
  byte in ascending order, which the C library does not promise of \<open>memcpy\<close>.\<close>

theorem ziso_reads_file:
  assumes "zso_ok lz4 content (unat (ziso_align z)) (unat (ziso_total_block z))"
    and "cache_ok content (unat (ziso_total_block z)) z" and "lsn < ziso_total_block z" and "unat lsn + unat count < 2 ^ 32"
    and "n = min (unat count) (unat (ziso_total_block z) - unat lsn)" and "n \<le> 256" and "n * 2048 \<le> length addr"
  shows "\<exists>z'. ziso_read_sector (read_raw_file content) lz4 z addr lsn count =
      Inr (of_nat n, concat (map (sector lz4 content (unat (ziso_align z))) [unat lsn..<unat lsn + n]) @ drop (n * 2048) addr, z') \<and>
    cache_ok content (unat (ziso_total_block z)) z'"
  using zfile.ziso_read_ok [OF assms] by blast

definition tiny_zso :: "u8 list" where
  "tiny_zso = replicate 24 0 @ [0x20, 0, 0, 0x80] @ [0x20, 8, 0, 0] @ replicate 2048 7"

lemma tiny_zso_ok: "zso_ok lz4 tiny_zso 0 1"
proof -
  have i: "idx_at tiny_zso 0 = 0x80000020" "idx_at tiny_zso 1 = 0x820"
    by (simp_all add: idx_at_def le32_def tiny_zso_def nth_append)
  then have o: "off tiny_zso 0 = 32" "off tiny_zso 1 = 2080" "\<not> is_compressed tiny_zso 0"
    by (simp_all add: off_def mask31_def is_compressed_def)
  have "length tiny_zso = 2080" by (simp add: tiny_zso_def)
  with o show ?thesis by (simp add: zso_ok_def block_ok_def sector_def block_def)
qed

theorem ziso_reads_file_witness:
  "\<exists>z'. ziso_read_sector (read_raw_file tiny_zso) id (ziso_init 0 2048 0 (replicate 1028 0)) (replicate 4096 9) 0 2 =
      Inr (of_nat 1, concat (map (sector id tiny_zso (unat (ziso_align (ziso_init 0 2048 0 (replicate 1028 0)))))
        [unat (0 :: u32)..<unat (0 :: u32) + 1]) @ drop (1 * 2048) (replicate 4096 9), z') \<and>
    cache_ok tiny_zso (unat (ziso_total_block (ziso_init 0 2048 0 (replicate 1028 0)))) z'"
proof -
  have z: "ziso_align (ziso_init 0 2048 0 (replicate 1028 0)) = 0" "ziso_total_block (ziso_init 0 2048 0 (replicate 1028 0)) = 1"
    by (simp_all add: ziso_init_def)
  show ?thesis by (rule ziso_reads_file) (simp_all add: z tiny_zso_ok [unfolded One_nat_def] ziso_init_cache)
qed

text \<open>The same for an image in a partition of the hard disk, read sector by sector through the
  launcher's raw access.\<close>

theorem ziso_reads_hdd:
  assumes "zso_ok lz4 (hdd_image (\<lambda>s. pad_sector (disk s)) plba len) (unat (ziso_align z)) (unat (ziso_total_block z))"
    and "cache_ok (hdd_image (\<lambda>s. pad_sector (disk s)) plba len) (unat (ziso_total_block z)) z"
    and "lsn < ziso_total_block z" and "unat lsn + unat count < 2 ^ 32"
    and "n = min (unat count) (unat (ziso_total_block z) - unat lsn)" and "n \<le> 256" and "n * 2048 \<le> length addr"
  shows "\<exists>z'. ziso_read_sector (read_raw_hdd (\<lambda>s. pad_sector (disk s)) plba) lz4 z addr lsn count =
      Inr (of_nat n, concat (map (sector lz4 (hdd_image (\<lambda>s. pad_sector (disk s)) plba len) (unat (ziso_align z)))
        [unat lsn..<unat lsn + n]) @ drop (n * 2048) addr, z') \<and>
    cache_ok (hdd_image (\<lambda>s. pad_sector (disk s)) plba len) (unat (ziso_total_block z)) z'"
  using hdd.ziso_read_ok [OF assms] by blast

definition disk_of :: "u8 list \<Rightarrow> u32 \<Rightarrow> u8 list" where
  "disk_of img s = take 512 (drop (512 * unat s) img)"

lemma disk_of_image:
  assumes "length img < 2 ^ 32"
  shows "hdd_image (\<lambda>s. pad_sector (disk_of img s)) 0 (length img) = img"
proof (rule nth_equalityI)
  fix i assume "i < length (hdd_image (\<lambda>s. pad_sector (disk_of img s)) 0 (length img))"
  then have i: "i < length img" by (simp add: hdd_image_def)
  have "unat (of_nat (i div 512) :: u32) = i div 512"
    using i assms by (simp add: unsigned_of_nat take_bit_eq_mod)
  moreover have "i mod 512 < length (disk_of img (of_nat (i div 512)))"
    using calculation i minus_mult_div_eq_mod [of i 512] by (simp add: disk_of_def)
  ultimately have "pad_sector (disk_of img (of_nat (i div 512))) ! (i mod 512) = img ! i"
    using i by (simp add: pad_sector_def nth_append disk_of_def)
  then show "hdd_image (\<lambda>s. pad_sector (disk_of img s)) 0 (length img) ! i = img ! i"
    using i by (simp add: hdd_image_def hdd_byte_def)
qed (simp add: hdd_image_def)

theorem ziso_reads_hdd_witness:
  "\<exists>z'. ziso_read_sector (read_raw_hdd (\<lambda>s. pad_sector (disk_of tiny_zso s)) 0) id (ziso_init 0 2048 0 (replicate 1028 0)) (replicate 4096 9) 0 2 =
      Inr (of_nat 1, concat (map (sector id (hdd_image (\<lambda>s. pad_sector (disk_of tiny_zso s)) 0 (length tiny_zso))
        (unat (ziso_align (ziso_init 0 2048 0 (replicate 1028 0))))) [unat (0 :: u32)..<unat (0 :: u32) + 1]) @ drop (1 * 2048) (replicate 4096 9), z') \<and>
    cache_ok (hdd_image (\<lambda>s. pad_sector (disk_of tiny_zso s)) 0 (length tiny_zso))
      (unat (ziso_total_block (ziso_init 0 2048 0 (replicate 1028 0)))) z'"
proof -
  have z: "ziso_align (ziso_init 0 2048 0 (replicate 1028 0)) = 0" "ziso_total_block (ziso_init 0 2048 0 (replicate 1028 0)) = 1"
    by (simp_all add: ziso_init_def)
  have "length tiny_zso = 2080" by (simp add: tiny_zso_def)
  then have "hdd_image (\<lambda>s. pad_sector (disk_of tiny_zso s)) 0 (length tiny_zso) = tiny_zso" by (intro disk_of_image) simp
  then show ?thesis by (intro ziso_reads_hdd) (simp_all add: z tiny_zso_ok [unfolded One_nat_def] ziso_init_cache)
qed

end
