(* ===== verification/Logo.thy ===== *)
theory Logo
  imports Util Zso
begin

text \<open>
  The check of the PS2 logo on a disc image, \<open>CheckPS2Logo\<close> of \<open>src/util.c\<close>: the first twelve
  sectors, read from a file, from the hard disk or from a compressed image, are decoded and summed up.
\<close>

section \<open>The PS2 logo\<close>

definition logo_size :: nat where
  "logo_size = 12 * 2048"

definition logo_decode :: "u8 \<Rightarrow> u8 \<Rightarrow> u8" where
  "logo_decode key b = (let x = b XOR key in push_bit 3 x OR drop_bit 5 x)"

definition logo_checksum :: "u8 list \<Rightarrow> u32" where
  "logo_checksum logo = sum_list (map (\<lambda>b. ucast b) logo)"

text \<open>The loop that reads the logo from the hard disk, sector by sector: \<open>k\<close> is the next sector,
  \<open>n\<close> the sectors still to read; a failed read stops it.\<close>

fun hdd_fill ::
  "(u32 \<Rightarrow> u8 list option) \<Rightarrow> u32 \<Rightarrow> nat \<Rightarrow> nat \<Rightarrow> u8 list \<Rightarrow> (bool \<times> u8 list) cres" where
  "hdd_fill hdd lba k 0 logo = Inr (True, logo)"
| "hdd_fill hdd lba k (Suc n) logo =
     (case hdd (lba + of_nat k) of
        None \<Rightarrow> Inr (False, logo)
      | Some sec \<Rightarrow>
          if 512 * (k + 1) \<le> length logo
          then hdd_fill hdd lba (k + 1) n (take (512 * k) logo @ sec @ drop (512 * (k + 1)) logo)
          else Inl OutOfBounds)"

definition logo_verdict :: "console_region \<Rightarrow> u8 list \<Rightarrow> bool" where
  "logo_verdict region logo =
     (case logo of
        [] \<Rightarrow> False
      | key # _ \<Rightarrow>
          key \<noteq> 0 \<and>
          (let sum = logo_checksum (map (logo_decode key) logo)
           in sum = 0x1555AB \<and> region = CONSOLE_REGION_EUROPE \<or>
              sum = 0x120519 \<and> region \<noteq> CONSOLE_REGION_EUROPE))"

text \<open>\<open>file\<close> is the content behind the descriptor, \<open>hdd\<close> what reading a sector gives (\<open>None\<close> on an
  error).  A buffer that starts with the ZSO magic is a compressed image: its header sets up the
  reader, and the twelve sectors are read again through it, over the header in the same buffer.  The
  raw access of that reader ignores read errors; \<open>stale\<close> is what the sector buffer then holds.\<close>

abbreviation ZSO_MAGIC :: u32 where "ZSO_MAGIC \<equiv> 0x4F53495A"

definition logo_raw ::
  "int \<Rightarrow> u32 \<Rightarrow> u8 list \<Rightarrow> (u32 \<Rightarrow> u8 list option) \<Rightarrow> (u32 \<Rightarrow> u8 list) \<Rightarrow> u32 \<Rightarrow> u32 \<Rightarrow> u32 \<Rightarrow> u8 list" where
  "logo_raw fd lba file hdd stale =
     (if 0 < fd then read_raw_file file
      else read_raw_hdd (\<lambda>s. case hdd s of None \<Rightarrow> stale s | Some sec \<Rightarrow> sec) lba)"

definition CheckPS2Logo ::
  "console_region \<Rightarrow> int \<Rightarrow> u32 \<Rightarrow> u8 list \<Rightarrow> (u32 \<Rightarrow> u8 list option) \<Rightarrow> (u32 \<Rightarrow> u8 list) \<Rightarrow>
     (u8 list \<Rightarrow> u8 list) \<Rightarrow> u8 list \<Rightarrow> bool cres" where
  "CheckPS2Logo region fd lba file hdd stale lz4 cache =
     (let zero = replicate logo_size 0;
          (w0, logo0) = (if 0 < fd \<and> lba = 0
             then (logo_size \<le> length file, take logo_size file @ drop (length file) zero)
             else (False, zero))
      in c_bind (if 0 < lba \<and> fd = 0 then hdd_fill hdd lba 0 (12 * 4 + 1) logo0 else Inr (w0, logo0))
           (\<lambda>(w1, logo1).
              c_bind (if le32 logo1 0 = ZSO_MAGIC
                      then c_bind (ziso_read_sector (logo_raw fd lba file hdd stale) lz4
                                     (ziso_init (logo1 ! 21) (le32 logo1 8) (le32 logo1 12) cache) logo1 0 12)
                             (\<lambda>(n, logo, z). Inr (n = 12, logo))
                      else Inr (w1, logo1))
                (\<lambda>(w, logo). Inr (w \<and> logo_verdict region logo))))"

section \<open>Lemmas and properties\<close>

lemma hdd_fill_overflow:
  assumes "\<And>i. i \<le> 48 \<Longrightarrow> \<exists>sec. hdd (lba + of_nat i) = Some sec \<and> length sec = 512"
    and "k + n = 49" "0 < n" "length logo = logo_size"
  shows "hdd_fill hdd lba k n logo = Inl OutOfBounds"
  using assms(2-)
proof (induction n arbitrary: k logo)
  case 0
  then show ?case by simp
next
  case (Suc n)
  obtain sec where sec: "hdd (lba + of_nat k) = Some sec" "length sec = 512"
    using assms(1) [of k] Suc.prems by auto
  show ?case
  proof (cases n)
    case 0
    with Suc.prems sec show ?thesis by (simp add: logo_size_def)
  next
    case (Suc m)
    with Suc.prems have fit: "512 * (k + 1) \<le> length logo" by (simp add: logo_size_def)
    have "hdd_fill hdd lba (k + 1) n (take (512 * k) logo @ sec @ drop (512 * (k + 1)) logo)
        = Inl OutOfBounds"
      using Suc Suc.prems fit sec by (intro Suc.IH) (auto simp: logo_size_def)
    with sec fit show ?thesis by simp
  qed
qed

lemma take_pad: "k < length img \<Longrightarrow> k < logo_size \<Longrightarrow> (take logo_size img @ zs) ! k = img ! k"
  by (simp add: nth_append)

text \<open>The header fields are read from the same bytes of the file.\<close>

lemma le32_pad:
  "k + 4 \<le> length img \<Longrightarrow> k + 4 \<le> logo_size \<Longrightarrow> le32 (take logo_size img @ zs) k = le32 img k"
  by (simp add: le32_def take_pad)

text \<open>On a hard disk whose sectors are readable the logo check always writes past its buffer: the
  loop reads 49 sectors of 512 bytes into an array that holds 48.\<close>

theorem CheckPS2Logo_hdd_overflow:
  assumes "0 < lba" and "\<And>i. i \<le> 48 \<Longrightarrow> \<exists>sec. hdd (lba + of_nat i) = Some sec \<and> length sec = 512"
  shows "CheckPS2Logo region 0 lba file hdd stale lz4 cache = Inl OutOfBounds"
proof -
  have "hdd_fill hdd lba 0 49 (replicate logo_size 0) = Inl OutOfBounds"
    using assms(2) by (intro hdd_fill_overflow) auto
  with assms(1) show ?thesis by (simp add: CheckPS2Logo_def)
qed

theorem CheckPS2Logo_hdd_overflow_witness:
  "CheckPS2Logo CONSOLE_REGION_USA 0 16 [] (\<lambda>_. Some (replicate 512 1)) (\<lambda>_. []) id [] = Inl OutOfBounds"
  by (rule CheckPS2Logo_hdd_overflow) auto

text \<open>The check of a compressed image in a file decides on the first twelve sectors of the image it
  stands for, exactly as for a plain image: a well-formed image of at least twelve sectors is unpacked
  over its own header in the buffer, and the verdict is the one on the unpacked sectors.\<close>

theorem CheckPS2Logo_compressed:
  assumes "0 < fd" and "le32 file 0 = ZSO_MAGIC" and "24 \<le> length file"
    and "z = ziso_init (file ! 21) (le32 file 8) (le32 file 12) cache" and "length cache = 4 * ZISO_IDX_MAX_ENTRIES"
    and "zso_ok lz4 file (unat (ziso_align z)) (unat (ziso_total_block z))" and "12 \<le> unat (ziso_total_block z)"
  shows "CheckPS2Logo region fd 0 file hdd stale lz4 cache =
    Inr (logo_verdict region (concat (map (sector lz4 file (unat (ziso_align z))) [0..<12])))"
proof -
  let ?l = "take logo_size file @ drop (length file) (replicate logo_size 0)"
  have h: "le32 ?l 0 = le32 file 0" "le32 ?l 8 = le32 file 8" "le32 ?l 12 = le32 file 12" "?l ! 21 = file ! 21"
    using assms(3) by (intro le32_pad take_pad; simp add: logo_size_def)+
  have len: "length ?l = logo_size" by simp
  have c: "cache_ok file (unat (ziso_total_block z)) z" unfolding assms(4) using assms(5) by (rule ziso_init_cache)
  have "unat (12 :: u32) = 12" by simp
  have "\<exists>z'. ziso_read_sector (read_raw_file file) lz4 z ?l 0 12 =
      Inr (of_nat 12, concat (map (sector lz4 file (unat (ziso_align z))) [unat (0 :: u32)..<unat (0 :: u32) + 12]) @ drop (12 * 2048) ?l, z') \<and>
      cache_ok file (unat (ziso_total_block z)) z' \<and> ziso_align z' = ziso_align z \<and> ziso_total_block z' = ziso_total_block z"
    using assms(6,7) c len by (intro zfile.ziso_read_ok) (simp_all add: word_less_nat_alt logo_size_def min_def)
  moreover have "drop (12 * 2048) ?l = []" using len by (simp add: logo_size_def)
  ultimately obtain z' where
    "ziso_read_sector (read_raw_file file) lz4 z ?l 0 12 = Inr (12, concat (map (sector lz4 file (unat (ziso_align z))) [0..<12]), z')"
    by auto
  then show ?thesis using assms(1,2) h unfolding assms(4)
    by (simp add: CheckPS2Logo_def Let_def logo_raw_def)
qed

text \<open>A concrete image: the header, an index of twelve raw blocks, and the blocks.\<close>

definition logo_zso_head :: "u8 list" where
  "logo_zso_head = [0x5A, 0x49, 0x53, 0x4F, 24, 0, 0, 0, 0, 0x60, 0, 0] @ [0,0,0,0, 0,0,0,0, 0,0,0,0] @
     concat (map (\<lambda>k. [0x4C, of_nat (8 * k), 0, 0x80]) [0..<13])"

definition logo_zso :: "u8 list" where
  "logo_zso = logo_zso_head @ replicate (12 * 2048) 7"

lemma logo_zso_length: "length logo_zso_head = 76" "length logo_zso = 76 + 12 * 2048"
  by (simp_all add: logo_zso_def logo_zso_head_def upt_rec)

lemma idx_at_append: "24 + 4 * k + 4 \<le> length a \<Longrightarrow> idx_at (a @ b) k = idx_at a k"
  by (simp add: idx_at_def le32_def nth_append)

lemma logo_zso_idx: "k \<le> 12 \<Longrightarrow> idx_at logo_zso k = 0x8000004C + 0x800 * of_nat k"
proof -
  have "\<forall>k \<in> set [0..<13]. idx_at logo_zso_head k = 0x8000004C + 0x800 * of_nat k"
    by (simp add: upt_rec idx_at_def le32_def logo_zso_head_def)
  moreover assume "k \<le> 12"
  ultimately show ?thesis by (simp add: logo_zso_def idx_at_append logo_zso_length)
qed

lemma logo_zso_off: "k \<le> 12 \<Longrightarrow> off logo_zso k = 76 + 2048 * k" "k \<le> 12 \<Longrightarrow> \<not> is_compressed logo_zso k"
proof -
  have "\<forall>k \<in> set [0..<13]. unat (mask31 (0x8000004C + 0x800 * of_nat k)) = 76 + 2048 * k \<and>
      (0x8000004C + 0x800 * of_nat k :: u32) AND 0x80000000 \<noteq> 0"
    by (simp add: upt_rec mask31_def)
  then have "k \<le> 12 \<Longrightarrow> unat (mask31 (0x8000004C + 0x800 * of_nat k)) = 76 + 2048 * k \<and>
      (0x8000004C + 0x800 * of_nat k :: u32) AND 0x80000000 \<noteq> 0" for k by (simp del: of_nat_mult)
  then show "k \<le> 12 \<Longrightarrow> off logo_zso k = 76 + 2048 * k" "k \<le> 12 \<Longrightarrow> \<not> is_compressed logo_zso k"
    by (simp_all add: off_def is_compressed_def logo_zso_idx)
qed

lemma logo_zso_ok: "zso_ok lz4 logo_zso 0 12"
  by (auto simp: zso_ok_def block_ok_def sector_def block_def logo_zso_off logo_zso_length)

lemma logo_zso_header:
  "le32 logo_zso 0 = ZSO_MAGIC" "le32 logo_zso 8 = 24576" "le32 logo_zso 12 = 0" "logo_zso ! 21 = 0"
  by (simp_all add: le32_def logo_zso_def logo_zso_head_def nth_append)

theorem CheckPS2Logo_compressed_witness:
  "CheckPS2Logo CONSOLE_REGION_USA 3 0 logo_zso (\<lambda>_. None) (\<lambda>_. []) id (replicate 1028 0) =
    Inr (logo_verdict CONSOLE_REGION_USA (concat (map (sector id logo_zso
      (unat (ziso_align (ziso_init (logo_zso ! 21) (le32 logo_zso 8) (le32 logo_zso 12) (replicate 1028 0))))) [0..<12])))"
proof -
  have z: "ziso_align (ziso_init 0 24576 0 (replicate 1028 0)) = 0" "ziso_total_block (ziso_init 0 24576 0 (replicate 1028 0)) = 12"
    by (simp_all add: ziso_init_def)
  show ?thesis
    by (rule CheckPS2Logo_compressed [OF _ _ _ refl]) (simp_all add: z logo_zso_header logo_zso_ok logo_zso_length)
qed

end
