(* ===== verification/Crc.thy ===== *)
theory Crc
  imports CPrelude
begin

text \<open>
  The checksum in the file names of split games, \<open>USBA_crc32\<close> of \<open>src/system.c\<close>: the table, filled in
  descending order with an inverted test, and the loop over the characters of the name.  The property
  is the equivalence with the bit-serial polynomial division it stands for.
\<close>

section \<open>The routine\<close>

text \<open>One pass of the inner loop.  \<open>crc\<close> is an \<open>int\<close>: it is negative when bit 31 is set.\<close>

definition crc_shift :: "u32 \<Rightarrow> u32" where
  "crc_shift crc = (if bit crc 31 then push_bit 1 crc else push_bit 1 crc XOR 0x04C11DB7)"

definition crc_entry :: "nat \<Rightarrow> u32" where
  "crc_entry table = (crc_shift ^^ 8) (push_bit 24 (of_nat table))"

definition crctab_fill :: "u32 list \<Rightarrow> u32 list" where
  "crctab_fill crctab = fold (\<lambda>table tab. tab[255 - table := crc_entry table]) [0..<256] crctab"

text \<open>The loop over the string with its terminator.  A \<open>char\<close> is signed, so a character from 128 on
  gives a negative index.\<close>

definition char_value :: "char \<Rightarrow> int" where
  "char_value c = (if code c < 128 then int (code c) else int (code c) - 256)"

fun crc_loop :: "u32 list \<Rightarrow> string \<Rightarrow> nat \<Rightarrow> u32 \<Rightarrow> u32 cres" where
  "crc_loop crctab [] count crc = Inl Unterminated"
| "crc_loop crctab (c # cs) count crc =
     (let i = char_value c XOR uint (drop_bit 24 crc AND 0xFF)
      in if i < 0 then Inl OutOfBounds
         else c_bind (peek crctab (nat i)) (\<lambda>e.
           let crc' = e XOR (push_bit 8 crc AND 0xFFFFFF00)
           in if c \<noteq> NUL \<and> count + 1 \<le> 32 then crc_loop crctab cs (count + 1) crc' else Inr crc'))"

text \<open>After the table is filled \<open>crc\<close> holds the value of the last entry and \<open>count\<close> is 0.\<close>

definition USBA_crc32 :: "string \<Rightarrow> u32 cres" where
  "USBA_crc32 s = crc_loop (crctab_fill (replicate 0x400 0)) (s @ [NUL]) 0 (crc_entry 255)"

section \<open>Polynomial division\<close>

text \<open>The reference: the message bits enter a 32-bit register from the top, most significant bit
  first, and the register is reduced by the polynomial 0x04C11DB7.\<close>

definition poly_step :: "u32 \<Rightarrow> u32" where
  "poly_step r = (if bit r 31 then push_bit 1 r XOR 0x04C11DB7 else push_bit 1 r)"

definition poly_byte :: "u32 \<Rightarrow> char \<Rightarrow> u32" where
  "poly_byte r c = (poly_step ^^ 8) (r XOR push_bit 24 (of_nat (code c)))"

definition poly_crc :: "string \<Rightarrow> u32" where
  "poly_crc s = foldl poly_byte 0 s"

section \<open>Lemmas\<close>

lemma poly_step_xor: "poly_step (a XOR b) = poly_step a XOR poly_step b"
  by (simp add: poly_step_def push_bit_xor bit_xor_iff ac_simps)

lemma poly_steps_xor: "(poly_step ^^ n) (a XOR b) = (poly_step ^^ n) a XOR (poly_step ^^ n) b"
  by (induction n) (simp_all add: poly_step_xor)

text \<open>The inverted test adds the polynomial in every step, a constant in the end.\<close>

lemma crc_shift_poly: "crc_shift r = poly_step r XOR 0x04C11DB7"
  by (simp add: crc_shift_def poly_step_def xor.assoc)

lemma crc_shifts_xor: "(crc_shift ^^ n) a XOR (crc_shift ^^ n) b = (poly_step ^^ n) a XOR (poly_step ^^ n) b"
proof (induction n)
  case (Suc n)
  have "(crc_shift ^^ Suc n) a XOR (crc_shift ^^ Suc n) b =
      poly_step ((crc_shift ^^ n) a XOR (crc_shift ^^ n) b)"
    by (simp add: crc_shift_poly poly_step_xor ac_simps)
  then show ?case by (simp add: Suc poly_step_xor)
qed simp

lemma crc_entry_255: "crc_entry 255 = 0"
proof -
  have "crc_shift 0xFF000000 = 0xFE000000" "crc_shift 0xFE000000 = 0xFC000000" "crc_shift 0xFC000000 = 0xF8000000"
    "crc_shift 0xF8000000 = 0xF0000000" "crc_shift 0xF0000000 = 0xE0000000" "crc_shift 0xE0000000 = 0xC0000000"
    "crc_shift 0xC0000000 = 0x80000000" "crc_shift 0x80000000 = 0"
    by (simp_all add: crc_shift_def)
  moreover have "f (f (f (f (f (f (f (f x))))))) = (f ^^ 8) x" for f :: "u32 \<Rightarrow> u32" and x
    by (simp add: numeral_eq_Suc)
  ultimately have "(crc_shift ^^ 8) 0xFF000000 = 0" by metis
  then show ?thesis by (simp add: crc_entry_def)
qed

lemma sub_255:
  assumes "t < 256"
  shows "255 - t = 255 XOR (t :: nat)"
proof -
  have m: "(255 :: nat) = mask 8" by (simp add: mask_eq_exp_minus_1)
  have "take_bit 8 t = t" using assms by (simp add: take_bit_eq_mod)
  then have b: "bit t n \<Longrightarrow> n < 8" for n by (metis bit_take_bit_iff)
  have "(255 XOR t) AND t = 0" "(255 XOR t) OR t = 255"
    by (rule bit_eqI; auto simp: m bit_simps dest: b)+
  then have "(255 XOR t) + t = 255" by (metis disjunctive_add_eq_or)
  then show ?thesis by simp
qed

lemma crc_entry_poly:
  assumes "t < 256"
  shows "crc_entry t = (poly_step ^^ 8) (push_bit 24 (of_nat (255 - t)))"
proof -
  have m: "255 - t = 255 XOR t" using assms by (rule sub_255)
  have "crc_entry t = crc_entry t XOR crc_entry 255" by (simp add: crc_entry_255)
  also have "\<dots> = (poly_step ^^ 8) (push_bit 24 (of_nat t) XOR push_bit 24 (of_nat 255))"
    unfolding crc_entry_def crc_shifts_xor poly_steps_xor ..
  also have "push_bit 24 (of_nat t) XOR push_bit 24 (of_nat 255) = push_bit 24 (of_nat (255 - t) :: u32)"
    unfolding m by (simp add: push_bit_xor of_nat_xor_eq ac_simps)
  finally show ?thesis .
qed

lemma fold_fill:
  "n \<le> 256 \<Longrightarrow> length xs = 1024 \<Longrightarrow>
   length (fold (\<lambda>t tab. tab[255 - t := f t]) [0..<n] xs) = 1024 \<and>
   (\<forall>i < 1024. fold (\<lambda>t tab. tab[255 - t := f t]) [0..<n] xs ! i =
      (if i \<le> 255 \<and> 255 - i < n then f (255 - i) else xs ! i))"
proof (induction n)
  case (Suc n)
  then show ?case by (auto simp: nth_list_update)
qed simp

lemma crctab_entry:
  assumes "i < 256"
  shows "crctab_fill (replicate 0x400 0) ! i = (poly_step ^^ 8) (push_bit 24 (of_nat i))"
    and "length (crctab_fill (replicate 0x400 0)) = 1024"
proof -
  have "255 - i < 256" by simp
  then show "crctab_fill (replicate 0x400 0) ! i = (poly_step ^^ 8) (push_bit 24 (of_nat i))"
    using fold_fill [of 256 "replicate 0x400 0" crc_entry] crc_entry_poly [of "255 - i"] assms
    by (simp add: crctab_fill_def)
  show "length (crctab_fill (replicate 0x400 0)) = 1024"
    using fold_fill [of 256 "replicate 0x400 0" crc_entry] by (simp add: crctab_fill_def)
qed

text \<open>A register whose top byte is clear is only shifted.\<close>

lemma poly_steps_low: "n \<le> 8 \<Longrightarrow> (poly_step ^^ n) (take_bit 24 x) = push_bit n (take_bit 24 x)"
proof (induction n)
  case (Suc n)
  then have "\<not> bit (push_bit n (take_bit 24 x)) 31" by (auto simp: bit_push_bit_iff bit_take_bit_iff)
  with Suc show ?case by (simp add: poly_step_def)
qed simp

lemma poly_byte_split:
  "poly_byte r c = (poly_step ^^ 8) (push_bit 24 (of_nat (code c) XOR drop_bit 24 r)) XOR push_bit 8 (take_bit 24 r)"
proof -
  have "r XOR push_bit 24 (of_nat (code c)) = push_bit 24 (of_nat (code c) XOR drop_bit 24 r) XOR take_bit 24 r"
    by (rule bit_word_eqI) (auto simp: bit_simps)
  then show ?thesis by (simp add: poly_byte_def poly_steps_xor poly_steps_low)
qed

lemma low_bytes: "push_bit 8 (take_bit 24 r) = push_bit 8 r AND (0xFFFFFF00 :: u32)"
proof -
  have m: "(0xFFFFFF00 :: u32) = NOT (mask 8)" by (simp add: mask_eq_exp_minus_1)
  show ?thesis unfolding m by (rule bit_word_eqI) (auto simp: bit_simps)
qed

lemma poly_byte_table:
  assumes "code c < 128"
  shows "0 \<le> char_value c XOR uint (drop_bit 24 r AND 0xFF)"
    and "nat (char_value c XOR uint (drop_bit 24 r AND 0xFF)) < 256"
    and "crctab_fill (replicate 0x400 0) ! nat (char_value c XOR uint (drop_bit 24 r AND 0xFF)) XOR
      (push_bit 8 r AND 0xFFFFFF00) = poly_byte r c"
proof -
  define w where "w = of_nat (code c) XOR drop_bit 24 r"
  have ff: "(0xFF :: u32) = mask 8" by (simp add: mask_eq_exp_minus_1)
  have d: "drop_bit 24 r AND 0xFF = drop_bit 24 r" unfolding ff by (rule bit_word_eqI) (auto simp: bit_simps dest: bit_imp_le_length)
  have t: "take_bit 8 (code c) = code c" using assms by (simp add: take_bit_eq_mod)
  have "take_bit 8 w = of_nat (take_bit 8 (code c)) XOR take_bit 8 (drop_bit 24 r)"
    by (simp add: w_def take_bit_xor take_bit_of_nat)
  also have "take_bit 8 (drop_bit 24 r) = drop_bit 24 r" using d by (simp add: ff take_bit_eq_mask)
  also have "of_nat (take_bit 8 (code c)) XOR drop_bit 24 r = w" by (simp only: t w_def)
  finally have "take_bit 8 (unat w) = unat w" by (simp flip: unsigned_take_bit_eq)
  then have lt: "unat w < 256" using take_bit_nat_less_exp [of 8 "unat w"] by simp
  have v: "char_value c XOR uint (drop_bit 24 r AND 0xFF) = uint w"
    using assms d by (simp add: w_def char_value_def unsigned_xor_eq unsigned_of_nat take_bit_eq_mod)
  then show "0 \<le> char_value c XOR uint (drop_bit 24 r AND 0xFF)" by simp
  from v lt show "nat (char_value c XOR uint (drop_bit 24 r AND 0xFF)) < 256" by (simp add: nat_uint_eq)
  show "crctab_fill (replicate 0x400 0) ! nat (char_value c XOR uint (drop_bit 24 r AND 0xFF)) XOR
      (push_bit 8 r AND 0xFFFFFF00) = poly_byte r c"
    using lt by (simp add: v nat_uint_eq crctab_entry poly_byte_split w_def [symmetric] flip: low_bytes)
qed

lemma crc_loop_step:
  assumes "code c < 128"
  shows "crc_loop (crctab_fill (replicate 0x400 0)) (c # cs) count crc =
    (if c \<noteq> NUL \<and> count + 1 \<le> 32 then crc_loop (crctab_fill (replicate 0x400 0)) cs (count + 1) (poly_byte crc c)
     else Inr (poly_byte crc c))"
proof -
  note t = poly_byte_table [OF assms, of crc]
  have "\<not> char_value c XOR uint (drop_bit 24 crc AND 0xFF) < 0" using t(1) by linarith
  moreover have "nat (char_value c XOR uint (drop_bit 24 crc AND 0xFF)) < length (crctab_fill (replicate 0x400 0))"
    using t(2) crctab_entry(2) [of 0] by simp
  ultimately show ?thesis
    by (simp only: crc_loop.simps Let_def if_False peek_Inr c_bind_Inr t(3))
qed

lemma crc_loop_poly:
  assumes "\<forall>c \<in> set s. code c < 128" "cstring s" "count \<le> 32"
  shows "crc_loop (crctab_fill (replicate 0x400 0)) (s @ [NUL]) count crc = Inr (foldl poly_byte crc (take (33 - count) (s @ [NUL])))"
  using assms
proof (induction s arbitrary: count crc)
  case Nil
  have "code NUL < 128" by (simp add: code_def)
  moreover have "take (33 - count) [NUL] = [NUL]" using Nil.prems(3) by simp
  ultimately show ?case by (simp add: crc_loop_step del: crc_loop.simps)
next
  case (Cons c s)
  have "33 - count = Suc (32 - count)" using Cons.prems(3) by simp
  then have "take (33 - count) (c # s @ [NUL]) = c # take (32 - count) (s @ [NUL])" by (simp only: take_Suc_Cons)
  moreover have "count = 32 \<Longrightarrow> take (32 - count) (s @ [NUL]) = []" by simp
  ultimately show ?case using Cons.prems Cons.IH [of "count + 1"]
    by (simp add: crc_loop_step del: crc_loop.simps)
qed

section \<open>Property\<close>

text \<open>C26: the table-driven checksum of a game name is the bit-serial CRC-32 of the name and its terminator,
  cut off after 33 characters, for every name of 7-bit characters: the table that is built with an
  inverted test and stored backwards is the standard one, the register starts at zero, and no access
  leaves the table.\<close>

theorem USBA_crc32_is_crc:
  assumes "\<forall>c \<in> set s. code c < 128" and "cstring s"
  shows "USBA_crc32 s = Inr (poly_crc (take 33 (s @ [NUL])))"
  using crc_loop_poly [OF assms, of 0] by (simp add: USBA_crc32_def poly_crc_def crc_entry_255)

theorem USBA_crc32_is_crc_witness: "USBA_crc32 ''Game'' = Inr (poly_crc (''Game'' @ [NUL]))"
  using USBA_crc32_is_crc [of "''Game''"] by (simp add: code_def)

text \<open>A character outside 7-bit ASCII indexes the table below its start.\<close>

lemma USBA_crc32_high_char:
  assumes "128 \<le> code c"
  shows "USBA_crc32 (c # s) = Inl OutOfBounds"
proof -
  have "code c < 256" by (simp add: code_def)
  with assms have "char_value c XOR uint (drop_bit 24 (crc_entry 255) AND 0xFF) < 0"
    by (simp add: char_value_def)
  then show ?thesis by (simp add: USBA_crc32_def Let_def)
qed

end
