(* ===== verification/GameList.thy ===== *)
theory GameList
  imports Config Ps2Cnf Zso Crc
begin

text \<open>
  The list of games of \<open>src/supportbase.c\<close>: the names of disc images, the cache \<open>games.bin\<close>, the scan of
  the two image folders, the list \<open>ul.cfg\<close> of split games, and the paths, removal and renaming of the
  games.  A fixed \<open>char\<close> array is the list of all its bytes; reading it as a string needs a NUL in it.
  The directory, the mounted image and what reaches a file are answers of the environment.
\<close>

section \<open>Game records\<close>

abbreviation UL_GAME_NAME_MAX :: nat where "UL_GAME_NAME_MAX \<equiv> 32"
abbreviation ISO_GAME_NAME_MAX :: nat where "ISO_GAME_NAME_MAX \<equiv> 160"
abbreviation ISO_GAME_EXTENSION_MAX :: nat where "ISO_GAME_EXTENSION_MAX \<equiv> 4"
abbreviation GAME_STARTUP_MAX :: nat where "GAME_STARTUP_MAX \<equiv> 12"
abbreviation ISO_GAME_FNAME_MAX :: nat where "ISO_GAME_FNAME_MAX \<equiv> ISO_GAME_NAME_MAX + ISO_GAME_EXTENSION_MAX"

abbreviation GAME_FORMAT_USBLD :: u8 where "GAME_FORMAT_USBLD \<equiv> 0"
abbreviation GAME_FORMAT_OLD_ISO :: u8 where "GAME_FORMAT_OLD_ISO \<equiv> 1"
abbreviation GAME_FORMAT_ISO :: u8 where "GAME_FORMAT_ISO \<equiv> 2"

abbreviation SCECdPS2CD :: u8 where "SCECdPS2CD \<equiv> 0x12"
abbreviation SCECdPS2DVD :: u8 where "SCECdPS2DVD \<equiv> 0x14"
abbreviation ENOMEM :: int where "ENOMEM \<equiv> 12"
abbreviation EINVAL :: int where "EINVAL \<equiv> 22"

text \<open>\<open>gi_pad\<close> is the padding the compiler puts before \<open>sizeMB\<close>.\<close>

record base_game_info =
  gi_name :: string
  gi_startup :: string
  gi_extension :: string
  gi_parts :: u8
  gi_media :: u8
  gi_format :: u8
  gi_pad :: string
  gi_sizeMB :: u32

definition zero_game :: base_game_info where
  "zero_game = \<lparr>gi_name = replicate (ISO_GAME_NAME_MAX + 1) NUL, gi_startup = replicate (GAME_STARTUP_MAX + 1) NUL,
     gi_extension = replicate (ISO_GAME_EXTENSION_MAX + 1) NUL, gi_parts = 0, gi_media = 0, gi_format = 0,
     gi_pad = replicate 2 NUL, gi_sizeMB = 0\<rparr>"

definition game_wf :: "base_game_info \<Rightarrow> bool" where
  "game_wf g \<longleftrightarrow> length (gi_name g) = ISO_GAME_NAME_MAX + 1 \<and> length (gi_startup g) = GAME_STARTUP_MAX + 1 \<and>
     length (gi_extension g) = ISO_GAME_EXTENSION_MAX + 1 \<and> length (gi_pad g) = 2"

definition cstr_arr :: "string \<Rightarrow> string cres" where
  "cstr_arr a = (if NUL \<in> set a then Inr (takeWhile (\<lambda>c. c \<noteq> NUL) a) else Inl Unterminated)"

text \<open>\<open>strncpy (a, s, n); a[n] = 0\<close>.\<close>

definition put_str :: "string \<Rightarrow> string \<Rightarrow> nat \<Rightarrow> string cres" where
  "put_str a s n = c_bind (mem_write a 0 (take n (s @ replicate n NUL))) (\<lambda>b. poke b n NUL)"

text \<open>The bytes of a record in memory, as the cache file holds them.\<close>

definition byte_char :: "u8 \<Rightarrow> char" where
  "byte_char b = char_of (unat b)"

definition char_byte :: "char \<Rightarrow> u8" where
  "char_byte c = of_nat (code c)"

abbreviation GAME_INFO_SIZE :: nat where "GAME_INFO_SIZE \<equiv> 188"

definition game_bytes :: "base_game_info \<Rightarrow> string" where
  "game_bytes g = gi_name g @ gi_startup g @ gi_extension g @
     map byte_char [gi_parts g, gi_media g, gi_format g] @ gi_pad g @ map byte_char (le_bytes (gi_sizeMB g))"

definition game_of_bytes :: "string \<Rightarrow> base_game_info" where
  "game_of_bytes b = \<lparr>gi_name = take 161 b, gi_startup = take 13 (drop 161 b), gi_extension = take 5 (drop 174 b),
     gi_parts = char_byte (b ! 179), gi_media = char_byte (b ! 180), gi_format = char_byte (b ! 181),
     gi_pad = take 2 (drop 182 b), gi_sizeMB = le32 (map char_byte (drop 184 b)) 0\<rparr>"

section \<open>The environment\<close>

text \<open>\<open>env_fwrite path c\<close> is what reaches the file when \<open>c\<close> is written to it, \<open>env_mount\<close> the answer of
  the mount call and \<open>SYSTEM.CNF\<close> of the mounted image, \<open>env_node k\<close> whether the list node for the
  \<open>k\<close>-th game found can be allocated, \<open>env_alloc n\<close> whether a block of \<open>n\<close> bytes can.\<close>

record sb_env =
  env_dir :: "string \<Rightarrow> string list option"
  env_mount :: "string \<Rightarrow> int \<times> (string \<times> nat) option"
  env_fread :: "string \<Rightarrow> bool"
  env_fwrite :: "string \<Rightarrow> string \<Rightarrow> string"
  env_node :: "nat \<Rightarrow> bool"
  env_alloc :: "nat \<Rightarrow> bool"

definition sbIsSameSize :: "util_state \<Rightarrow> string \<Rightarrow> int \<Rightarrow> (bool \<times> util_state) cres" where
  "sbIsSameSize st pre prevSize =
     c_bind (openFile st (snprintf 256 (pre @ ''ul.cfg'')) O_RDONLY) (\<lambda>(fd, path, st1).
       let sz = (case fd of Some content \<Rightarrow> getFileSize content | None \<Rightarrow> -1)
       in Inr (sz = prevSize, st1))"

section \<open>Names of images\<close>

text \<open>A name shorter than four characters is read before its start.\<close>

definition isValidIsoName :: "string \<Rightarrow> (u8 \<times> nat) cres" where
  "isValidIsoName name =
     (let sz = length name in
      if sz < 4 then Inl OutOfBounds
      else if strcasecmp_eq (drop (sz - 4) name) ''.iso'' \<or> strcasecmp_eq (drop (sz - 4) name) ''.zso'' then
        if 17 \<le> sz \<and> name ! 4 = CHR ''_'' \<and> name ! 8 = CHR ''.'' \<and> name ! 11 = CHR ''.'' then
          Inr (GAME_FORMAT_OLD_ISO, sz - 16)
        else if 5 \<le> sz then Inr (GAME_FORMAT_ISO, sz - 4)
        else Inr (0, 0)
      else Inr (0, 0))"

text \<open>The name of the executable in the boot path: behind the device and its backslashes, up to the
  version.  \<open>cnf\<close> is the content of \<open>SYSTEM.CNF\<close> with the number of bytes that can be read; the result is the status and the string stored.\<close>

definition GetStartupExecName :: "(string \<times> nat) option \<Rightarrow> nat \<Rightarrow> (int \<times> string) cres" where
  "GetStartupExecName cnf maxlength =
     c_bind (ps2cnfGetBootFile cnf (replicate CNF_PATH_LEN_MAX NUL)) (\<lambda>(ret, boot).
       if ret = 0 then
         case dropWhile (\<lambda>c. c \<noteq> CHR '':'' \<and> c \<noteq> NUL) boot of
           [] \<Rightarrow> Inl Unterminated
         | c # key \<Rightarrow>
             if c = NUL then Inr (-1, [])
             else
               let start = dropWhile (\<lambda>c. c = BACKSLASH) key;
                   name = takeWhile (\<lambda>c. c \<noteq> CHR '';'' \<and> c \<noteq> NUL) start
               in if length name = length start then Inl Unterminated
                  else let len = min (length name) maxlength
                       in if len = 0 then Inr (-1, []) else Inr (0, take len name)
       else Inr (ret, []))"

section \<open>The cache of the game list\<close>

definition cache_filename :: "string \<Rightarrow> string cres" where
  "cache_filename path =
     (let f = path @ ''/games.bin'' in if length f < 256 then Inr f else Inl OutOfBounds)"

definition loadISOGameListCache :: "sb_env \<Rightarrow> fs \<Rightarrow> string \<Rightarrow> (int \<times> base_game_info list) cres" where
  "loadISOGameListCache env f path =
     c_bind (cache_filename path) (\<lambda>filename.
       case fs_file f filename of
         None \<Rightarrow> Inr (ENOENT, [])
       | Some content \<Rightarrow>
           let cnt = length content div GAME_INFO_SIZE
           in if 0 < cnt then
                if env_alloc env (cnt * GAME_INFO_SIZE) then
                  if env_fread env filename then
                    Inr (0, map (\<lambda>i. game_of_bytes (take GAME_INFO_SIZE (drop (GAME_INFO_SIZE * i) content))) [0..<cnt])
                  else Inr (EIO, [])
                else Inr (ENOMEM, [])
              else Inr (-1, []))"

text \<open>The same file: \<open>strncmp\<close> over the whole arrays.\<close>

definition same_file :: "base_game_info \<Rightarrow> base_game_info \<Rightarrow> bool" where
  "same_file c g \<longleftrightarrow>
     takeWhile (\<lambda>x. x \<noteq> NUL) (gi_name c) = takeWhile (\<lambda>x. x \<noteq> NUL) (gi_name g) \<and>
     takeWhile (\<lambda>x. x \<noteq> NUL) (gi_extension c) = takeWhile (\<lambda>x. x \<noteq> NUL) (gi_extension g)"

definition list_modified :: "base_game_info list option \<Rightarrow> base_game_info list \<Rightarrow> nat \<Rightarrow> bool" where
  "list_modified cache glist cnt =
     (case cache of
        Some cs \<Rightarrow>
          if glist \<noteq> [] \<and> 0 < cnt then
            (\<exists>g \<in> set (take cnt glist). \<forall>c \<in> set cs. \<not> same_file c g) \<or> cnt \<noteq> length cs
          else False
      | None \<Rightarrow> glist \<noteq> [] \<and> 0 < cnt)"

definition updateISOGameList ::
  "sb_env \<Rightarrow> fs \<Rightarrow> string \<Rightarrow> base_game_info list option \<Rightarrow> base_game_info list \<Rightarrow> nat \<Rightarrow> (int \<times> fs) cres" where
  "updateISOGameList env f path cache glist cnt =
     (if list_modified cache glist cnt then
        c_bind (cache_filename path) (\<lambda>filename.
          if glist \<noteq> [] \<and> 0 < cnt then
            if env_alloc env (GAME_INFO_SIZE * cnt) then
              (case open_file f filename O_WRITE of
                 (None, f1) \<Rightarrow> Inr (EIO, f1)
               | (Some _, f1) \<Rightarrow>
                   let data = concat (map game_bytes (take cnt glist)); out = env_fwrite env filename data
                   in if out = data then Inr (0, f1\<lparr>fs_file := (fs_file f1)(filename \<mapsto> data)\<rparr>)
                      else Inr (EIO, f1\<lparr>fs_file := (fs_file f1)(filename := None)\<rparr>))
            else Inr (ENOMEM, f)
          else Inr (0, f\<lparr>fs_file := (fs_file f)(filename := None)\<rparr>))
      else Inr (0, f))"

fun queryISOGameListCache :: "base_game_info list \<Rightarrow> string \<Rightarrow> (base_game_info option) cres" where
  "queryISOGameListCache [] filename = Inr None"
| "queryISOGameListCache (g # gs) filename =
     c_bind (cstr_arr (gi_name g)) (\<lambda>n. c_bind (cstr_arr (gi_extension g)) (\<lambda>e.
       if filename = snprintf (ISO_GAME_FNAME_MAX + 1) (n @ e) then Inr (Some g)
       else queryISOGameListCache gs filename))"

section \<open>The scan of a folder\<close>

text \<open>The entry for a file: \<open>start\<close> is where the title starts in the file name.  \<open>None\<close> when the image
  cannot be mounted or names no executable.\<close>

definition name_game :: "base_game_info \<Rightarrow> string \<Rightarrow> nat \<Rightarrow> nat \<Rightarrow> base_game_info cres" where
  "name_game g d_name start NameLen =
     c_bind (put_str (gi_name g) (drop start d_name) NameLen) (\<lambda>n.
       c_bind (put_str (gi_extension g) (drop (start + NameLen) d_name) ISO_GAME_EXTENSION_MAX) (\<lambda>e.
         Inr (g\<lparr>gi_name := n, gi_extension := e\<rparr>)))"

definition scan_game ::
  "sb_env \<Rightarrow> bool \<Rightarrow> base_game_info list option \<Rightarrow> string \<Rightarrow> string \<Rightarrow> u8 \<Rightarrow> nat \<Rightarrow> (base_game_info option) cres" where
  "scan_game env isSMBPath cache fullpath d_name format NameLen =
     (if format = GAME_FORMAT_OLD_ISO then
        c_bind (name_game zero_game d_name GAME_STARTUP_MAX NameLen) (\<lambda>g.
          c_bind (put_str (gi_startup g) d_name (GAME_STARTUP_MAX - 1)) (\<lambda>s. Inr (Some (g\<lparr>gi_startup := s\<rparr>))))
      else
        c_bind (case cache of Some cs \<Rightarrow> queryISOGameListCache cs d_name | None \<Rightarrow> Inr None) (\<lambda>cached.
          case cached of
            Some g \<Rightarrow> Inr (Some g)
          | None \<Rightarrow>
              if isSMBPath then
                c_bind (put_str (gi_startup zero_game) d_name (GAME_STARTUP_MAX - 1)) (\<lambda>s.
                  c_bind (name_game (zero_game\<lparr>gi_startup := s\<rparr>) d_name 0 NameLen) (\<lambda>g. Inr (Some g)))
              else
                let (MountFD, cnf) = env_mount env fullpath
                in if MountFD < 0 then Inr None
                   else c_bind (GetStartupExecName cnf (GAME_STARTUP_MAX - 1)) (\<lambda>(ret, startup).
                     if ret \<noteq> 0 then Inr None
                     else c_bind (mem_write (gi_startup zero_game) 0 (startup @ [NUL])) (\<lambda>s.
                       c_bind (name_game (zero_game\<lparr>gi_startup := s\<rparr>) d_name 0 NameLen) (\<lambda>g. Inr (Some g))))))"

fun scan_loop ::
  "sb_env \<Rightarrow> bool \<Rightarrow> base_game_info list option \<Rightarrow> string \<Rightarrow> u8 \<Rightarrow> string list \<Rightarrow> nat \<Rightarrow> base_game_info list
     \<Rightarrow> (nat \<times> base_game_info list) cres" where
  "scan_loop env isSMBPath cache path t [] cnt glist = Inr (cnt, glist)"
| "scan_loop env isSMBPath cache path t (d_name # ds) cnt glist =
     c_bind (isValidIsoName d_name) (\<lambda>(format, NameLen).
       if format = 0 \<or> ISO_GAME_NAME_MAX < NameLen then scan_loop env isSMBPath cache path t ds cnt glist
       else if 256 \<le> length path + 1 + length d_name then Inl OutOfBounds
       else if \<not> env_node env cnt then Inr (cnt, glist)
       else c_bind (scan_game env isSMBPath cache (path @ ''/'' @ d_name) d_name format NameLen) (\<lambda>r.
         case r of
           None \<Rightarrow> scan_loop env isSMBPath cache path t ds cnt glist
         | Some g \<Rightarrow>
             scan_loop env isSMBPath cache path t ds (cnt + 1)
               (g\<lparr>gi_parts := 1, gi_media := t, gi_format := format, gi_sizeMB := 0\<rparr> # glist)))"

definition scanForISO ::
  "sb_env \<Rightarrow> fs \<Rightarrow> string \<Rightarrow> u8 \<Rightarrow> base_game_info list \<Rightarrow> (nat \<times> base_game_info list \<times> fs) cres" where
  "scanForISO env f path t glist =
     c_bind (loadISOGameListCache env f path) (\<lambda>(r, games).
       let cache = (if r = 0 then Some games else None);
           isSMBPath = strncasecmp_eq 3 path ''smb''
       in c_bind (case env_dir env path of
                    None \<Rightarrow> Inr (0, glist)
                  | Some ds \<Rightarrow> scan_loop env isSMBPath cache path t ds 0 glist) (\<lambda>(cnt, glist1).
            c_bind (updateISOGameList env f path cache glist1 cnt) (\<lambda>(_, f1). Inr (cnt, glist1, f1))))"

section \<open>The list of split games\<close>

abbreviation UL_ENTRY_SIZE :: nat where "UL_ENTRY_SIZE \<equiv> 64"

text \<open>An entry of \<open>ul.cfg\<close> is name (32), \<open>"ul."\<close> (3), startup (12), parts, media and 15 more bytes.\<close>

definition ul_game :: "string \<Rightarrow> base_game_info \<Rightarrow> base_game_info" where
  "ul_game e g = g\<lparr>gi_name := take 32 e @ NUL # drop 33 (gi_name g),
     gi_startup := take 12 (drop 35 e) @ NUL # drop 13 (gi_startup g),
     gi_extension := NUL # drop 1 (gi_extension g),
     gi_parts := char_byte (e ! 47), gi_media := char_byte (e ! 48), gi_format := GAME_FORMAT_USBLD, gi_sizeMB := 0\<rparr>"

text \<open>\<open>rest\<close> is what the descriptor still delivers, \<open>e\<close> the entry buffer: a short read leaves its tail.\<close>

fun ul_loop :: "string \<Rightarrow> nat \<Rightarrow> string \<Rightarrow> nat \<Rightarrow> base_game_info list \<Rightarrow> (nat \<times> base_game_info list) cres" where
  "ul_loop rest sz e i newList =
     (if 0 < sz then
        let got = take UL_ENTRY_SIZE rest; e' = got @ drop (length got) e
        in if i < length newList
           then ul_loop (drop UL_ENTRY_SIZE rest) (sz - UL_ENTRY_SIZE) e' (i + 1) (newList[i := ul_game e' (newList ! i)])
           else Inl OutOfBounds
      else Inr (i, newList))"

declare ul_loop.simps [simp del]

fun copy_games :: "nat \<Rightarrow> nat \<Rightarrow> base_game_info list \<Rightarrow> base_game_info list \<Rightarrow> base_game_info list" where
  "copy_games i cnt [] newList = newList"
| "copy_games i cnt (g # gs) newList =
     (if i < cnt then copy_games (i + 1) cnt gs (newList[i := g]) else newList)"

record read_out =
  ro_count :: nat
  ro_list :: "base_game_info list option"
  ro_fsize :: int

text \<open>\<open>junk\<close> is what the entry buffer and a fresh array hold before they are written.\<close>

definition sbReadList ::
  "sb_env \<Rightarrow> string \<times> base_game_info \<Rightarrow> util_state \<Rightarrow> string \<Rightarrow> int \<Rightarrow> (read_out \<times> util_state) cres" where
  "sbReadList env junk st pre fsize =
     c_bind (scanForISO env (ut_fs st) (snprintf 256 (pre @ ''CD'')) SCECdPS2CD []) (\<lambda>(n1, l1, f1).
       c_bind (scanForISO env f1 (snprintf 256 (pre @ ''DVD'')) SCECdPS2DVD l1) (\<lambda>(n2, glist, f2).
         c_bind (openFile (st\<lparr>ut_fs := f2\<rparr>) (snprintf 256 (pre @ ''ul.cfg'')) O_RDONLY) (\<lambda>(fd1, _, st1).
           c_bind (case fd1 of
                     None \<Rightarrow> openFile st1 (snprintf 256 (pre @ ''UL/ul.cfg'')) O_RDONLY
                   | Some c \<Rightarrow> Inr (Some c, [], st1)) (\<lambda>(fd, _, st2).
             let iso = n1 + n2
             in c_bind (case fd of
                    Some content \<Rightarrow>
                      let cnt = iso + length content div UL_ENTRY_SIZE
                      in if 0 < cnt \<and> env_alloc env (GAME_INFO_SIZE * cnt) then
                           c_bind (ul_loop content (length content) (fst junk) 0 (replicate cnt zero_game)) (\<lambda>(i, l).
                             Inr (cnt, Some (i, l), int (length content)))
                         else Inr (cnt, None, int (length content))
                  | None \<Rightarrow>
                      if 0 < iso \<and> env_alloc env (GAME_INFO_SIZE * iso)
                      then Inr (iso, Some (0, replicate iso (snd junk)), fsize)
                      else Inr (iso, None, fsize)) (\<lambda>(cnt, newList, fsize1).
                  case newList of
                    Some (i, l) \<Rightarrow>
                      Inr (\<lparr>ro_count = cnt, ro_list = Some (copy_games i cnt glist l), ro_fsize = fsize1\<rparr>, st2)
                  | None \<Rightarrow> Inr (\<lparr>ro_count = 0, ro_list = None, ro_fsize = -1\<rparr>, st2))))))"

definition ul_entry :: "base_game_info \<Rightarrow> string" where
  "ul_entry g = take 32 (gi_name g) @ ''ul.'' @ take 12 (gi_startup g) @ [byte_char (gi_parts g), byte_char (gi_media g)] @
     replicate 4 NUL @ [CHR 0x08] @ replicate 10 NUL"

text \<open>The entries that are kept; position \<open>excludeID\<close> is left out (\<open>-1\<close> leaves out none).\<close>

definition ul_kept :: "base_game_info list \<Rightarrow> int \<Rightarrow> base_game_info list" where
  "ul_kept gs excludeID =
     map snd (filter (\<lambda>(i, g). gi_format g = GAME_FORMAT_USBLD \<and> int i \<noteq> excludeID) (enumerate 0 gs))"

definition sbRebuildULCfg :: "sb_env \<Rightarrow> fs \<Rightarrow> base_game_info list \<Rightarrow> string \<Rightarrow> int \<Rightarrow> fs" where
  "sbRebuildULCfg env f gs pre excludeID =
     (let path = snprintf 256 (pre @ ''ul.cfg'')
      in case open_file f path O_WRITE of
           (None, f1) \<Rightarrow> f1
         | (Some _, f1) \<Rightarrow>
             f1\<lparr>fs_file := (fs_file f1)(path \<mapsto> env_fwrite env path (concat (map ul_entry (ul_kept gs excludeID))))\<rparr>)"

section \<open>Paths, removal, renaming\<close>

definition hex_char :: "char \<Rightarrow> nat \<Rightarrow> char" where
  "hex_char a d = (if d < 10 then char_of (48 + d) else char_of (code a + d - 10))"

text \<open>\<open>%08X\<close>, and \<open>%02x\<close> of a part number below 256.\<close>

definition show_08X :: "u32 \<Rightarrow> string" where
  "show_08X w = map (\<lambda>i. hex_char (CHR ''A'') (unat (drop_bit (4 * i) w) mod 16)) [7, 6, 5, 4, 3, 2, 1, 0]"

definition show_02x :: "nat \<Rightarrow> string" where
  "show_02x n = [hex_char (CHR ''a'') (n div 16), hex_char (CHR ''a'') (n mod 16)]"

definition media_folder :: "u8 \<Rightarrow> string" where
  "media_folder m = (if m = SCECdPS2CD then ''CD'' else ''DVD'')"

text \<open>\<open>path\<close> keeps its content for a format it does not know.\<close>

definition sbCreatePath_name ::
  "base_game_info \<Rightarrow> string \<Rightarrow> string \<Rightarrow> string \<Rightarrow> nat \<Rightarrow> string \<Rightarrow> string cres" where
  "sbCreatePath_name g path pre sep part game_name =
     (if gi_format g = GAME_FORMAT_USBLD then
        c_bind (USBA_crc32 game_name) (\<lambda>crc. c_bind (cstr_arr (gi_startup g)) (\<lambda>s.
          Inr (snprintf 256 (pre @ ''ul.'' @ show_08X crc @ ''.'' @ s @ ''.'' @ show_02x part))))
      else if gi_format g = GAME_FORMAT_ISO then
        c_bind (cstr_arr (gi_extension g)) (\<lambda>e.
          Inr (snprintf 256 (pre @ media_folder (gi_media g) @ sep @ game_name @ e)))
      else if gi_format g = GAME_FORMAT_OLD_ISO then
        c_bind (cstr_arr (gi_startup g)) (\<lambda>s. c_bind (cstr_arr (gi_extension g)) (\<lambda>e.
          Inr (snprintf 256 (pre @ media_folder (gi_media g) @ sep @ s @ ''.'' @ game_name @ e))))
      else Inr path)"

definition sbCreatePath :: "base_game_info \<Rightarrow> string \<Rightarrow> string \<Rightarrow> string \<Rightarrow> nat \<Rightarrow> string cres" where
  "sbCreatePath g path pre sep part =
     c_bind (cstr_arr (gi_name g)) (\<lambda>n. sbCreatePath_name g path pre sep part n)"

text \<open>\<open>unlink\<close> and \<open>rename\<close>: a missing file is left alone.\<close>

definition fs_unlink :: "string \<Rightarrow> fs \<Rightarrow> fs" where
  "fs_unlink path f = f\<lparr>fs_file := (fs_file f)(path := None)\<rparr>"

definition fs_rename :: "string \<Rightarrow> string \<Rightarrow> fs \<Rightarrow> fs" where
  "fs_rename a b f = (case fs_file f a of None \<Rightarrow> f
     | Some c \<Rightarrow> f\<lparr>fs_file := (fs_file f)(a := None, b \<mapsto> c)\<rparr>)"

fun delete_parts :: "base_game_info \<Rightarrow> string \<Rightarrow> string \<Rightarrow> string \<Rightarrow> nat list \<Rightarrow> fs \<Rightarrow> fs cres" where
  "delete_parts g path pre sep [] f = Inr f"
| "delete_parts g path pre sep (p # ps) f =
     c_bind (sbCreatePath g path pre sep p) (\<lambda>path1. delete_parts g path1 pre sep ps (fs_unlink path1 f))"

text \<open>\<open>junk\<close> is what the path array on the stack holds.\<close>

definition sbDelete ::
  "sb_env \<Rightarrow> string \<Rightarrow> fs \<Rightarrow> base_game_info list \<Rightarrow> string \<Rightarrow> string \<Rightarrow> nat \<Rightarrow> fs cres" where
  "sbDelete env junk f gs pre sep i =
     c_bind (peek gs i) (\<lambda>g.
       c_bind (delete_parts g junk pre sep [0..<unat (gi_parts g)] f) (\<lambda>f1.
         Inr (if gi_format g = GAME_FORMAT_USBLD then sbRebuildULCfg env f1 gs pre (int i) else f1)))"

fun rename_parts ::
  "base_game_info \<Rightarrow> string \<Rightarrow> string \<Rightarrow> string \<Rightarrow> string \<Rightarrow> string \<Rightarrow> nat list \<Rightarrow> fs \<Rightarrow> fs cres" where
  "rename_parts g old new pre sep newname [] f = Inr f"
| "rename_parts g old new pre sep newname (p # ps) f =
     c_bind (cstr_arr (gi_name g)) (\<lambda>n.
       c_bind (sbCreatePath_name g old pre sep p n) (\<lambda>old1.
         c_bind (sbCreatePath_name g new pre sep p newname) (\<lambda>new1.
           rename_parts g old1 new1 pre sep newname ps (fs_rename old1 new1 f))))"

text \<open>\<open>newname\<close> is the caller's array: the first 32 of its bytes become the name.\<close>

definition sbRename ::
  "sb_env \<Rightarrow> string \<times> string \<Rightarrow> fs \<Rightarrow> base_game_info list \<Rightarrow> string \<Rightarrow> string \<Rightarrow> nat \<Rightarrow> string \<Rightarrow> (fs \<times> base_game_info list) cres" where
  "sbRename env junk f gs pre sep i newname =
     c_bind (peek gs i) (\<lambda>g. c_bind (if gi_parts g = 0 then Inr [] else cstr_arr newname) (\<lambda>new.
       c_bind (rename_parts g (fst junk) (snd junk) pre sep new [0..<unat (gi_parts g)] f) (\<lambda>f1.
         if gi_format g = GAME_FORMAT_USBLD then
           c_bind (mem_read newname 0 UL_GAME_NAME_MAX) (\<lambda>n.
             let gs1 = gs[i := g\<lparr>gi_name := n @ NUL # drop (UL_GAME_NAME_MAX + 1) (gi_name g)\<rparr>]
             in Inr (sbRebuildULCfg env f1 gs1 pre (-1), gs1))
         else Inr (f1, gs))))"

definition sbResolveISOStartup ::
  "sb_env \<Rightarrow> base_game_info option \<Rightarrow> string \<Rightarrow> string \<Rightarrow> (int \<times> base_game_info option) cres" where
  "sbResolveISOStartup env game pre sep =
     (case game of
        None \<Rightarrow> Inr (- EINVAL, None)
      | Some g \<Rightarrow>
          c_bind (peek (gi_startup g) 0) (\<lambda>c0.
            if gi_format g \<noteq> GAME_FORMAT_ISO \<or> c0 = NUL then Inr (- EINVAL, Some g)
            else c_bind (cstr_arr (gi_startup g)) (\<lambda>s.
              if length s = GAME_STARTUP_MAX - 1 \<and> s ! 4 = CHR ''_'' \<and> s ! 8 = CHR ''.'' then Inr (0, Some g)
              else
                c_bind (cstr_arr (gi_name g)) (\<lambda>n. c_bind (cstr_arr (gi_extension g)) (\<lambda>e.
                  let (MountFD, cnf) = env_mount env (snprintf 256 (pre @ media_folder (gi_media g) @ sep @ n @ e))
                  in if MountFD < 0 then Inr (MountFD, Some g)
                     else c_bind (GetStartupExecName cnf (GAME_STARTUP_MAX - 1)) (\<lambda>(ret, startup).
                       if ret \<noteq> 0 then Inr (- EIO, Some g)
                       else c_bind (put_str (gi_startup g) startup GAME_STARTUP_MAX) (\<lambda>s'.
                         Inr (0, Some (g\<lparr>gi_startup := s'\<rparr>)))))))))"

section \<open>Lemmas on arrays and bytes\<close>

lemma char_byte_char [simp]: "char_byte (byte_char b) = b"
  by (simp add: char_byte_def byte_char_def unsigned_less [of b, simplified])

lemma game_bytes_roundtrip:
  assumes "game_wf g"
  shows "game_of_bytes (game_bytes g) = g" and "length (game_bytes g) = GAME_INFO_SIZE"
proof -
  show "length (game_bytes g) = GAME_INFO_SIZE" using assms by (simp add: game_bytes_def game_wf_def le_bytes_def)
  have m: "map char_byte (map byte_char bs) = bs" for bs by (simp add: o_def)
  show "game_of_bytes (game_bytes g) = g"
    using assms by (simp add: game_of_bytes_def game_bytes_def game_wf_def nth_append m del: map_map)
qed

lemma cstr_arr_pad: "cstring s \<Longrightarrow> cstr_arr (s @ replicate k NUL @ NUL # y) = Inr s"
proof -
  assume s: "cstring s"
  have "takeWhile (\<lambda>c. c \<noteq> NUL) (replicate k NUL @ NUL # y) = []" by (cases k) simp_all
  moreover have "takeWhile (\<lambda>c. c \<noteq> NUL) (s @ replicate k NUL @ NUL # y) =
      s @ takeWhile (\<lambda>c. c \<noteq> NUL) (replicate k NUL @ NUL # y)"
    using s by (intro takeWhile_append2) (auto simp: cstring_def)
  ultimately show ?thesis by (simp add: cstr_arr_def)
qed

lemma write_terminated:
  assumes "length x = n" "n < length a"
  shows "c_bind (mem_write a 0 x) (\<lambda>b. poke b n NUL) = Inr (x @ NUL # drop (n + 1) a)"
proof -
  have "drop n a = a ! n # drop (n + 1) a" using assms(2) by (simp add: Cons_nth_drop_Suc)
  with assms show ?thesis by (simp add: mem_write_def list_update_append)
qed

lemma put_str_ok:
  assumes "cstring s" "n < length a"
  shows "\<exists>b. put_str a s n = Inr b \<and> length b = length a \<and> cstr_arr b = Inr (take n s)"
proof -
  let ?x = "take n s @ replicate (n - length s) NUL"
  have l: "length ?x = n" by simp
  have t: "take n (s @ replicate n NUL) = ?x" by simp
  have "put_str a s n = Inr (?x @ NUL # drop (n + 1) a)"
    using write_terminated [OF l assms(2)] unfolding put_str_def t .
  moreover have "cstr_arr (?x @ NUL # drop (n + 1) a) = Inr (take n s)"
    using cstr_arr_pad [OF cstring_take [OF assms(1)]] by simp
  ultimately show ?thesis using assms(2) l by (intro exI [of _ "?x @ NUL # drop (n + 1) a"]) simp
qed

lemma name_game_ok:
  assumes "game_wf g" "cstring d" "n \<le> ISO_GAME_NAME_MAX"
  shows "\<exists>a e. name_game g d k n = Inr (g\<lparr>gi_name := a, gi_extension := e\<rparr>) \<and>
    length a = ISO_GAME_NAME_MAX + 1 \<and> length e = ISO_GAME_EXTENSION_MAX + 1 \<and>
    cstr_arr a = Inr (take n (drop k d)) \<and> cstr_arr e = Inr (take 4 (drop (k + n) d))"
proof -
  obtain a where a: "put_str (gi_name g) (drop k d) n = Inr a" "length a = 161" "cstr_arr a = Inr (take n (drop k d))"
    using put_str_ok [of "drop k d" n "gi_name g"] assms by (auto simp: game_wf_def cstring_drop)
  obtain e where "put_str (gi_extension g) (drop (k + n) d) 4 = Inr e" "length e = 5" "cstr_arr e = Inr (take 4 (drop (k + n) d))"
    using put_str_ok [of "drop (k + n) d" 4 "gi_extension g"] assms by (auto simp: game_wf_def cstring_drop)
  with a show ?thesis by (intro exI [of _ a] exI [of _ e]) (simp add: name_game_def)
qed

section \<open>What a scan finds\<close>

text \<open>A game record stands for a file name.\<close>

definition names_file :: "base_game_info \<Rightarrow> string \<Rightarrow> bool" where
  "names_file g d \<longleftrightarrow> game_wf g \<and>
     (\<exists>n e. cstr_arr (gi_name g) = Inr n \<and> cstr_arr (gi_extension g) = Inr e \<and>
       (gi_format g = GAME_FORMAT_ISO \<and> d = n @ e \<or>
        gi_format g = GAME_FORMAT_OLD_ISO \<and> (\<exists>s. cstr_arr (gi_startup g) = Inr s \<and> length s = GAME_STARTUP_MAX - 1 \<and> d = s @ ''.'' @ n @ e)))"

definition cached_ok :: "base_game_info list option \<Rightarrow> bool" where
  "cached_ok cache \<longleftrightarrow> (\<forall>cs. cache = Some cs \<longrightarrow> (\<forall>g \<in> set cs. game_wf g \<and> NUL \<in> set (gi_name g) \<and> NUL \<in> set (gi_extension g)))"

definition stamp :: "u8 \<Rightarrow> u8 \<Rightarrow> base_game_info \<Rightarrow> base_game_info" where
  "stamp t format g = g\<lparr>gi_parts := 1, gi_media := t, gi_format := format, gi_sizeMB := 0\<rparr>"

definition scan_entry ::
  "sb_env \<Rightarrow> bool \<Rightarrow> base_game_info list option \<Rightarrow> string \<Rightarrow> u8 \<Rightarrow> string \<Rightarrow> base_game_info option" where
  "scan_entry env smb cache path t d =
     (case isValidIsoName d of
        Inl e \<Rightarrow> None
      | Inr (format, n) \<Rightarrow>
          if format = 0 \<or> ISO_GAME_NAME_MAX < n then None
          else (case scan_game env smb cache (path @ ''/'' @ d) d format n of
                  Inr (Some g) \<Rightarrow> Some (stamp t format g) | _ \<Rightarrow> None))"

text \<open>The folder can be scanned: the names have an extension's length and fit the path buffer, and the
  configuration files of the images that can be mounted are parsed without a fault.\<close>

definition dir_ok :: "sb_env \<Rightarrow> string \<Rightarrow> string list \<Rightarrow> bool" where
  "dir_ok env path ds \<longleftrightarrow> (\<forall>k. env_node env k) \<and>
     (\<forall>d \<in> set ds. cstring d \<and> 4 \<le> length d \<and> length path + 1 + length d < 256 \<and>
        (\<exists>r. GetStartupExecName (snd (env_mount env (path @ ''/'' @ d))) (GAME_STARTUP_MAX - 1) = Inr r))"

lemma zero_game_wf [simp]: "game_wf zero_game"
  by (simp add: game_wf_def zero_game_def)

lemma cstr_arr_Inr: "NUL \<in> set a \<Longrightarrow> cstr_arr a = Inr (takeWhile (\<lambda>c. c \<noteq> NUL) a)"
  by (simp add: cstr_arr_def)

lemma cstr_arr_length: "cstr_arr a = Inr s \<Longrightarrow> length s < length a \<and> cstring s \<and> NUL \<in> set a"
proof -
  assume "cstr_arr a = Inr s"
  then have n: "NUL \<in> set a" and s: "s = takeWhile (\<lambda>c. c \<noteq> NUL) a" by (auto simp: cstr_arr_def split: if_splits)
  then have "dropWhile (\<lambda>c. c \<noteq> NUL) a \<noteq> []" by (auto simp: dropWhile_eq_Nil_conv)
  then have "0 < length (dropWhile (\<lambda>c. c \<noteq> NUL) a)" by simp
  moreover have "length a = length s + length (dropWhile (\<lambda>c. c \<noteq> NUL) a)"
    by (simp add: s flip: length_append)
  ultimately show ?thesis using n by (auto simp: s cstring_def dest: set_takeWhileD)
qed

lemma find_SomeD: "find P xs = Some x \<Longrightarrow> x \<in> set xs" "find P xs = Some x \<Longrightarrow> P x"
  by (induction xs) (auto split: if_splits)

text \<open>The lookup in a readable cache finds the first entry with the whole file name.\<close>

lemma query_ok:
  assumes "\<forall>g \<in> set cs. game_wf g \<and> NUL \<in> set (gi_name g) \<and> NUL \<in> set (gi_extension g)"
  shows "queryISOGameListCache cs d = Inr (find (\<lambda>g. \<exists>n e. cstr_arr (gi_name g) = Inr n \<and> cstr_arr (gi_extension g) = Inr e \<and> d = n @ e) cs)"
  using assms
proof (induction cs)
  case (Cons g cs)
  then obtain n e where ne: "cstr_arr (gi_name g) = Inr n" "cstr_arr (gi_extension g) = Inr e"
    by (auto simp: cstr_arr_def)
  have "length (n @ e) < ISO_GAME_FNAME_MAX + 1"
    using cstr_arr_length [OF ne(1)] cstr_arr_length [OF ne(2)] Cons.prems by (auto simp: game_wf_def)
  then have "snprintf (ISO_GAME_FNAME_MAX + 1) (n @ e) = n @ e" by (rule snprintf_id)
  with ne Cons show ?case by simp
qed simp

lemma isValidIsoName_cases:
  assumes "isValidIsoName d = Inr (format, n)" "format \<noteq> 0"
  shows "4 < length d" and "format = GAME_FORMAT_ISO \<and> n = length d - 4 \<or>
    format = GAME_FORMAT_OLD_ISO \<and> n = length d - 16 \<and> 17 \<le> length d \<and> d ! 11 = CHR ''.''"
  using assms by (auto simp: isValidIsoName_def Let_def split: if_splits)

lemma GetStartupExecName_short: "GetStartupExecName cnf m = Inr (r, s) \<Longrightarrow> length s \<le> m"
  by (auto simp: GetStartupExecName_def c_bind_def Let_def split: sum.splits if_splits list.splits)

lemma names_file_old:
  assumes "isValidIsoName d = Inr (GAME_FORMAT_OLD_ISO, n)" "cstr_arr a = Inr (take n (drop 12 d))"
    "cstr_arr e = Inr (take 4 (drop (12 + n) d))" "cstr_arr s = Inr (take 11 d)"
    "length a = 161" "length e = 5" "length s = 13"
  shows "names_file (stamp t GAME_FORMAT_OLD_ISO (zero_game\<lparr>gi_name := a, gi_extension := e, gi_startup := s\<rparr>)) d"
proof -
  have d: "17 \<le> length d" "n = length d - 16" "d ! 11 = CHR ''.''" using isValidIsoName_cases(2) [OF assms(1)] by auto
  have "d = take 11 d @ d ! 11 # drop (Suc 11) d" using d(1) by (intro id_take_nth_drop) simp
  then have "d = take 11 d @ d ! 11 # drop 12 d" by simp
  moreover have "drop 12 d = take n (drop 12 d) @ take 4 (drop (12 + n) d)"
    using d append_take_drop_id [of n "drop 12 d"] by (simp add: add.commute)
  ultimately have "d = take 11 d @ ''.'' @ take n (drop 12 d) @ take 4 (drop (12 + n) d)" using d(3) by simp
  then show ?thesis using assms d(1) unfolding names_file_def
    by (simp add: stamp_def game_wf_def zero_game_def)
qed

lemma names_file_new:
  assumes "isValidIsoName d = Inr (GAME_FORMAT_ISO, n)" "game_wf g" "cstr_arr (gi_name g) = Inr a" "cstr_arr (gi_extension g) = Inr e" "d = a @ e"
  shows "names_file (stamp t GAME_FORMAT_ISO g) d"
  using assms by (simp add: names_file_def stamp_def game_wf_def)

lemma name_game_new:
  assumes "isValidIsoName d = Inr (GAME_FORMAT_ISO, n)" "game_wf g" "cstring d" "n \<le> ISO_GAME_NAME_MAX"
  shows "\<exists>g'. name_game g d 0 n = Inr g' \<and> names_file (stamp t GAME_FORMAT_ISO g') d"
proof -
  obtain a e where ae: "name_game g d 0 n = Inr (g\<lparr>gi_name := a, gi_extension := e\<rparr>)" "length a = 161" "length e = 5"
      "cstr_arr a = Inr (take n d)" "cstr_arr e = Inr (take 4 (drop n d))"
    using name_game_ok [OF assms(2-4), of 0] by auto
  have "n = length d - 4" "4 < length d" using isValidIsoName_cases [OF assms(1)] by auto
  then have "d = take n d @ take 4 (drop n d)" by simp
  with ae assms(1,2) have "names_file (stamp t GAME_FORMAT_ISO (g\<lparr>gi_name := a, gi_extension := e\<rparr>)) d"
    by (intro names_file_new [where n = n and a = "take n d" and e = "take 4 (drop n d)"]) (simp_all add: game_wf_def)
  with ae(1) show ?thesis by blast
qed

lemma scan_game_old:
  assumes "isValidIsoName d = Inr (GAME_FORMAT_OLD_ISO, n)" "cstring d" "n \<le> ISO_GAME_NAME_MAX"
  shows "\<exists>g. scan_game env smb cache full d GAME_FORMAT_OLD_ISO n = Inr (Some g) \<and> names_file (stamp t GAME_FORMAT_OLD_ISO g) d"
proof -
  obtain a e where ae: "name_game zero_game d 12 n = Inr (zero_game\<lparr>gi_name := a, gi_extension := e\<rparr>)" "length a = 161" "length e = 5"
      "cstr_arr a = Inr (take n (drop 12 d))" "cstr_arr e = Inr (take 4 (drop (12 + n) d))"
    using name_game_ok [OF zero_game_wf assms(2,3), of 12] by auto
  obtain s where s: "put_str (gi_startup zero_game) d 11 = Inr s" "length s = 13" "cstr_arr s = Inr (take 11 d)"
    using put_str_ok [OF assms(2), of 11 "gi_startup zero_game"] by (auto simp: zero_game_def)
  have "names_file (stamp t GAME_FORMAT_OLD_ISO (zero_game\<lparr>gi_name := a, gi_extension := e, gi_startup := s\<rparr>)) d"
    using assms(1) ae s by (intro names_file_old) auto
  with ae s show ?thesis by (simp add: scan_game_def)
qed

lemma scan_game_new:
  assumes "isValidIsoName d = Inr (GAME_FORMAT_ISO, n)" "cstring d" "n \<le> ISO_GAME_NAME_MAX" "cached_ok cache"
    and cnf: "\<exists>r. GetStartupExecName (snd (env_mount env full)) (GAME_STARTUP_MAX - 1) = Inr r"
  shows "\<exists>r. scan_game env smb cache full d GAME_FORMAT_ISO n = Inr r \<and> (\<forall>g. r = Some g \<longrightarrow> names_file (stamp t GAME_FORMAT_ISO g) d)"
proof -
  define q where "q = (case cache of Some cs \<Rightarrow> find (\<lambda>g. \<exists>n e. cstr_arr (gi_name g) = Inr n \<and> cstr_arr (gi_extension g) = Inr e \<and> d = n @ e) cs | None \<Rightarrow> None)"
  have q: "(case cache of Some cs \<Rightarrow> queryISOGameListCache cs d | None \<Rightarrow> Inr None) = Inr q"
    using assms(4) by (auto simp: q_def cached_ok_def query_ok split: option.splits)
  show ?thesis
  proof (cases q)
    case (Some g)
    then have "game_wf g \<and> (\<exists>n e. cstr_arr (gi_name g) = Inr n \<and> cstr_arr (gi_extension g) = Inr e \<and> d = n @ e)"
      using assms(4) by (auto simp: q_def cached_ok_def find_Some_iff split: option.splits)
    then have "names_file (stamp t GAME_FORMAT_ISO g) d" using names_file_new [OF assms(1)] by blast
    with q Some show ?thesis by (simp add: scan_game_def)
  next
    case None
    have w: "game_wf (zero_game\<lparr>gi_startup := s\<rparr>)" if "length s = 13" for s
      using that by (simp add: game_wf_def zero_game_def)
    obtain s where s: "put_str (gi_startup zero_game) d 11 = Inr s" "length s = 13"
      using put_str_ok [OF assms(2), of 11 "gi_startup zero_game"] by (auto simp: zero_game_def)
    obtain gs where gs: "name_game (zero_game\<lparr>gi_startup := s\<rparr>) d 0 n = Inr gs" "names_file (stamp t GAME_FORMAT_ISO gs) d"
      using name_game_new [OF assms(1) w [OF s(2)] assms(2,3)] by blast
    obtain fd c where m: "env_mount env full = (fd, c)" by fastforce
    from cnf m obtain ret startup where r: "GetStartupExecName c 11 = Inr (ret, startup)" by auto
    then have "length startup \<le> 11" by (rule GetStartupExecName_short)
    then obtain s2 where s2: "mem_write (gi_startup zero_game) 0 (startup @ [NUL]) = Inr s2" "length s2 = 13"
      using mem_write_Inr [of 0 "startup @ [NUL]" "gi_startup zero_game"] by (auto simp: zero_game_def)
    obtain g2 where g2: "name_game (zero_game\<lparr>gi_startup := s2\<rparr>) d 0 n = Inr g2" "names_file (stamp t GAME_FORMAT_ISO g2) d"
      using name_game_new [OF assms(1) w [OF s2(2)] assms(2,3)] by blast
    from q None s gs m r s2 g2 show ?thesis by (simp add: scan_game_def)
  qed
qed

lemma scan_game_ok:
  assumes "isValidIsoName d = Inr (format, n)" "format \<noteq> 0" "n \<le> ISO_GAME_NAME_MAX" "cstring d" "cached_ok cache"
    and "\<exists>r. GetStartupExecName (snd (env_mount env full)) (GAME_STARTUP_MAX - 1) = Inr r"
  shows "\<exists>r. scan_game env smb cache full d format n = Inr r \<and> (\<forall>g. r = Some g \<longrightarrow> names_file (stamp t format g) d)"
proof -
  consider "format = GAME_FORMAT_ISO" | "format = GAME_FORMAT_OLD_ISO" using isValidIsoName_cases(2) [OF assms(1,2)] by blast
  then show ?thesis
  proof cases
    case 1
    with assms scan_game_new show ?thesis by blast
  next
    case 2
    with assms obtain g where "scan_game env smb cache full d format n = Inr (Some g)" "names_file (stamp t format g) d"
      using scan_game_old [of d n] by blast
    then show ?thesis by simp
  qed
qed

lemma scan_loop_ok:
  assumes "dir_ok env path ds" "cached_ok cache"
  shows "scan_loop env smb cache path t ds cnt glist =
    Inr (cnt + length (List.map_filter (scan_entry env smb cache path t) ds),
         rev (List.map_filter (scan_entry env smb cache path t) ds) @ glist)"
  using assms(1)
proof (induction ds arbitrary: cnt glist)
  case (Cons d ds)
  have d: "cstring d" "4 \<le> length d" "length path + 1 + length d < 256" "env_node env cnt"
      "\<exists>r. GetStartupExecName (snd (env_mount env (path @ ''/'' @ d))) (GAME_STARTUP_MAX - 1) = Inr r"
    and tl: "dir_ok env path ds"
    using Cons.prems by (auto simp: dir_ok_def)
  obtain format n where v: "isValidIsoName d = Inr (format, n)" 
  proof -
    have "\<exists>p. isValidIsoName d = Inr p" using d(2) by (simp add: isValidIsoName_def Let_def)
    then show ?thesis using that by auto
  qed
  show ?case
  proof (cases "format = 0 \<or> ISO_GAME_NAME_MAX < n")
    case True
    with v Cons.IH [OF tl] show ?thesis by (simp add: scan_entry_def map_filter_simps)
  next
    case False
    then obtain r where "scan_game env smb cache (path @ ''/'' @ d) d format n = Inr r"
      using scan_game_ok [OF v _ _ d(1) assms(2) d(5)] by fastforce
    with False v d Cons.IH [OF tl] show ?thesis
      by (cases r) (auto simp: scan_entry_def map_filter_simps stamp_def)
  qed
qed (simp add: map_filter_simps)

lemma scan_entry_names:
  assumes "scan_entry env smb cache path t d = Some g" "dir_ok env path ds" "d \<in> set ds" "cached_ok cache"
  shows "names_file g d" "gi_media g = t" "gi_parts g = 1"
proof -
  from assms(1) obtain format n g0 where e: "isValidIsoName d = Inr (format, n)" "format \<noteq> 0" "n \<le> ISO_GAME_NAME_MAX"
      "scan_game env smb cache (path @ ''/'' @ d) d format n = Inr (Some g0)" "g = stamp t format g0"
    by (auto simp: scan_entry_def not_less split: sum.splits prod.splits if_splits option.splits)
  have "cstring d" "\<exists>r. GetStartupExecName (snd (env_mount env (path @ ''/'' @ d))) (GAME_STARTUP_MAX - 1) = Inr r"
    using assms(2,3) by (auto simp: dir_ok_def)
  from scan_game_ok [OF e(1-3) this(1) assms(4) this(2), of smb t] e show "names_file g d" by auto
  show "gi_media g = t" "gi_parts g = 1" by (simp_all add: e(5) stamp_def)
qed

lemma sbCreatePath_file:
  assumes "names_file g d"
  shows "sbCreatePath g path pre sep part = Inr (snprintf 256 (pre @ media_folder (gi_media g) @ sep @ d))"
  using assms by (auto simp: names_file_def sbCreatePath_def sbCreatePath_name_def)

section \<open>The cache does not change what a scan finds\<close>

lemma updateISOGameList_total: "length path + 10 < 256 \<Longrightarrow> \<exists>r. updateISOGameList env f path cache glist cnt = Inr r"
  by (simp add: updateISOGameList_def cache_filename_def Let_def split: prod.split option.split)

lemma concat_chunk:
  assumes "\<forall>x \<in> set xs. length (h x) = k" "i < length xs"
  shows "take k (drop (k * i) (concat (map h xs))) = h (xs ! i)"
  using assms
proof (induction xs arbitrary: i)
  case (Cons x xs)
  then show ?case by (cases i) (simp_all add: drop_append)
qed simp

lemma length_concat_chunks: "\<forall>x \<in> set xs. length (h x) = k \<Longrightarrow> length (concat (map h xs)) = k * length xs"
  by (induction xs) simp_all

lemma load_written:
  assumes "cache_filename path = Inr filename" "fs_file f filename = Some (concat (map game_bytes gs))"
    and "\<forall>g \<in> set gs. game_wf g" "gs \<noteq> []" "\<forall>k. env_alloc env k" "env_fread env filename"
  shows "loadISOGameListCache env f path = Inr (0, gs)"
proof -
  have l: "\<forall>g \<in> set gs. length (game_bytes g) = GAME_INFO_SIZE" using assms(3) game_bytes_roundtrip(2) by blast
  have "length (concat (map game_bytes gs)) div GAME_INFO_SIZE = length gs" using length_concat_chunks [OF l] by simp
  moreover have "map (\<lambda>i. game_of_bytes (take GAME_INFO_SIZE (drop (GAME_INFO_SIZE * i) (concat (map game_bytes gs))))) [0..<length gs] = gs"
    using concat_chunk [OF l] assms(3) game_bytes_roundtrip(1) by (intro nth_equalityI) (simp_all del: upt_Suc)
  ultimately show ?thesis using assms by (simp add: loadISOGameListCache_def)
qed

lemma stamp_idem: "stamp t format (stamp t format g) = stamp t format g"
  by (simp add: stamp_def)

lemma scan_entryE:
  assumes "scan_entry env smb cache path t d = Some g"
  obtains format n g0 where "isValidIsoName d = Inr (format, n)" "format \<noteq> 0" "n \<le> ISO_GAME_NAME_MAX"
      "scan_game env smb cache (path @ ''/'' @ d) d format n = Inr (Some g0)" "g = stamp t format g0"
  using assms by (auto simp: scan_entry_def not_less split: sum.splits prod.splits if_splits option.splits)

text \<open>The titles of old-style names must not be file names of their own: the cache cannot tell them
  apart.\<close>

definition titles_apart :: "string list \<Rightarrow> bool" where
  "titles_apart ds \<longleftrightarrow> (\<forall>d \<in> set ds. \<forall>n. isValidIsoName d = Inr (GAME_FORMAT_OLD_ISO, n) \<longrightarrow> drop GAME_STARTUP_MAX d \<notin> set ds)"

lemma map_filter_cong: "\<forall>x \<in> set xs. h x = k x \<Longrightarrow> List.map_filter h xs = List.map_filter k xs"
  by (induction xs) (simp_all add: map_filter_simps split: option.split)

lemma scan_entry_cached:
  assumes "dir_ok env path ds" "titles_apart ds" "d \<in> set ds"
  shows "scan_entry env smb (Some (rev (List.map_filter (scan_entry env smb None path t) ds))) path t d = scan_entry env smb None path t d"
proof -
  let ?cs = "rev (List.map_filter (scan_entry env smb None path t) ds)"
  let ?P = "\<lambda>g. \<exists>n e. cstr_arr (gi_name g) = Inr n \<and> cstr_arr (gi_extension g) = Inr e \<and> d = n @ e"
  have none: "cached_ok None" by (simp add: cached_ok_def)
  have mem: "\<exists>d' \<in> set ds. scan_entry env smb None path t d' = Some g \<and> names_file g d'" if "g \<in> set ?cs" for g
    using that scan_entry_names(1) [OF _ assms(1) _ none] by (fastforce simp: List.map_filter_def)
  have "\<forall>g \<in> set ?cs. game_wf g \<and> NUL \<in> set (gi_name g) \<and> NUL \<in> set (gi_extension g)"
    using mem by (fastforce simp: names_file_def dest: cstr_arr_length)
  then have q: "queryISOGameListCache ?cs d = Inr (find ?P ?cs)" by (rule query_ok)
  show ?thesis
  proof (cases "\<exists>n. isValidIsoName d = Inr (GAME_FORMAT_ISO, n) \<and> n \<le> ISO_GAME_NAME_MAX")
    case False
    have "scan_game env smb (Some ?cs) full d GAME_FORMAT_OLD_ISO n = scan_game env smb None full d GAME_FORMAT_OLD_ISO n" for full n
      by (simp add: scan_game_def)
    then show ?thesis using False isValidIsoName_cases(2) [of d] by (auto simp: scan_entry_def split: sum.splits prod.splits)
  next
    case True
    then obtain n where n: "isValidIsoName d = Inr (GAME_FORMAT_ISO, n)" "n \<le> ISO_GAME_NAME_MAX" by blast
    show ?thesis
    proof (cases "find ?P ?cs")
      case None
      then show ?thesis using n q by (simp add: scan_entry_def scan_game_def)
    next
      case (Some g)
      note g = find_SomeD [OF Some]
      then obtain d' where d': "d' \<in> set ds" "scan_entry env smb None path t d' = Some g" "names_file g d'" using mem by blast
      obtain format m g0 where e: "isValidIsoName d' = Inr (format, m)" "format \<noteq> 0"
          "scan_game env smb None (path @ ''/'' @ d') d' format m = Inr (Some g0)" "g = stamp t format g0"
        using d'(2) by (rule scan_entryE) blast
      have f: "gi_format g = format" by (simp add: e(4) stamp_def)
      have "format \<noteq> GAME_FORMAT_OLD_ISO"
      proof
        assume o: "format = GAME_FORMAT_OLD_ISO"
        then have "drop GAME_STARTUP_MAX d' = d" using d'(3) g(2) f by (auto simp: names_file_def)
        with o e(1) assms(2,3) d'(1) show False by (auto simp: titles_apart_def)
      qed
      with d'(3) g(2) f have "d' = d" by (auto simp: names_file_def)
      with e n d'(2) q Some show ?thesis by (auto simp: scan_entry_def scan_game_def stamp_def)
    qed
  qed
qed

lemma not_modified: "\<not> list_modified (Some gs) (gs @ rest) (length gs)"
  by (auto simp: list_modified_def same_file_def)

section \<open>Lemmas on the list of split games\<close>

lemma ul_loop_entries:
  assumes "\<forall>e \<in> set es. length e = UL_ENTRY_SIZE" "length e0 = UL_ENTRY_SIZE"
  shows "ul_loop (concat es) (UL_ENTRY_SIZE * length es) e0 (length rd) (rd @ replicate (length es + m) zero_game) =
    Inr (length rd + length es, rd @ map (\<lambda>e. ul_game e zero_game) es @ replicate m zero_game)"
  using assms
proof (induction es arbitrary: rd e0)
  case Nil
  then show ?case by (simp add: ul_loop.simps)
next
  case (Cons e es)
  then have e: "length e = 64" "\<forall>e \<in> set es. length e = 64" by simp_all
  have "ul_loop (concat es) (64 * length es) e (length (rd @ [ul_game e zero_game]))
      ((rd @ [ul_game e zero_game]) @ replicate (length es + m) zero_game) =
      Inr (length (rd @ [ul_game e zero_game]) + length es,
        (rd @ [ul_game e zero_game]) @ map (\<lambda>e. ul_game e zero_game) es @ replicate m zero_game)"
    using Cons.IH [of e "rd @ [ul_game e zero_game]"] e by simp
  with e Cons.prems(2) show ?case by (subst ul_loop.simps) (simp add: Let_def nth_append)
qed

text \<open>Bytes beyond the entries that fit make the loop write behind the array.\<close>

lemma ul_loop_overflow:
  assumes "UL_ENTRY_SIZE * (length l - i) < sz" "i \<le> length l"
  shows "ul_loop rest sz e i l = Inl OutOfBounds"
  using assms
proof (induction "length l - i" arbitrary: i sz rest e l)
  case 0
  then show ?case by (subst ul_loop.simps) (simp add: Let_def)
next
  case (Suc k)
  define l' where "l' = l[i := ul_game (take UL_ENTRY_SIZE rest @ drop (length (take UL_ENTRY_SIZE rest)) e) (l ! i)]"
  have "length l' = length l" by (simp add: l'_def)
  then have "ul_loop (drop UL_ENTRY_SIZE rest) (sz - UL_ENTRY_SIZE) (take UL_ENTRY_SIZE rest @ drop (length (take UL_ENTRY_SIZE rest)) e) (i + 1) l' = Inl OutOfBounds"
    using Suc.hyps(2) Suc.prems by (intro Suc.hyps(1)) auto
  with Suc.hyps(2) Suc.prems show ?case by (subst ul_loop.simps) (simp add: Let_def l'_def)
qed

lemma copy_games_fill: "length gs = m \<Longrightarrow> copy_games (length a) (length a + m) gs (a @ replicate m x) = a @ gs"
proof (induction gs arbitrary: a m)
  case (Cons g gs)
  then obtain k where k: "m = Suc k" "length gs = k" by auto
  from Cons.IH [OF k(2), of "a @ [g]"] k show ?case by simp
qed simp

lemma scan_loop_count:
  "scan_loop env smb cache path t ds cnt glist = Inr (c, l) \<Longrightarrow> length l + cnt = length glist + c"
proof (induction ds arbitrary: cnt glist)
  case (Cons d ds)
  then show ?case
    by (auto simp: c_bind_eq_Inr split: if_splits option.splits) force+
qed simp

lemma scanForISO_count: "scanForISO env f path t glist = Inr (c, l, f1) \<Longrightarrow> length l = length glist + c"
  by (auto simp: scanForISO_def c_bind_eq_Inr Let_def split: option.splits dest!: scan_loop_count)

text \<open>A game as it is read from an entry.\<close>

definition ul_wf :: "base_game_info \<Rightarrow> bool" where
  "ul_wf g \<longleftrightarrow> (\<exists>e. length e = UL_ENTRY_SIZE \<and> g = ul_game e zero_game)"

lemma length_ul_entry: "ul_wf g \<Longrightarrow> length (ul_entry g) = UL_ENTRY_SIZE"
  by (auto simp: ul_wf_def ul_game_def ul_entry_def zero_game_def)

lemma ul_entry_roundtrip:
  assumes "ul_wf g"
  shows "ul_game (ul_entry g) zero_game = g"
proof -
  obtain e where e: "length e = 64" "g = ul_game e zero_game" using assms by (auto simp: ul_wf_def)
  then have "length (take 32 e) = 32" "length (take 12 (drop 35 e)) = 12" by simp_all
  then show ?thesis by (simp add: e(2) ul_game_def ul_entry_def zero_game_def nth_append)
qed

lemma ul_kept_mem: "g \<in> set (ul_kept gs ex) \<Longrightarrow> g \<in> set gs \<and> gi_format g = GAME_FORMAT_USBLD"
  by (auto simp: ul_kept_def enumerate_eq_zip dest: set_zip_rightD)

text \<open>Reading what was written gives the kept games back.\<close>

lemma ul_reread:
  assumes "\<forall>g \<in> set gs. gi_format g = GAME_FORMAT_USBLD \<longrightarrow> ul_wf g" "length e0 = UL_ENTRY_SIZE"
    and "kept = ul_kept gs ex"
  shows "ul_loop (concat (map ul_entry kept)) (length (concat (map ul_entry kept))) e0 0 (replicate (length kept) zero_game) =
    Inr (length kept, kept)"
proof -
  have w: "\<forall>g \<in> set kept. ul_wf g" using assms(1,3) ul_kept_mem by blast
  then have l: "\<forall>e \<in> set (map ul_entry kept). length e = UL_ENTRY_SIZE" using length_ul_entry by auto
  then have "length (concat (map ul_entry kept)) = UL_ENTRY_SIZE * length (map ul_entry kept)"
    using length_concat_chunks [of kept ul_entry] by simp
  moreover have "map (\<lambda>e. ul_game e zero_game) (map ul_entry kept) = kept"
    using w ul_entry_roundtrip by (simp add: map_idI)
  ultimately show ?thesis using ul_loop_entries [OF l assms(2), of "[]" 0] by simp
qed

lemma ul_kept_delete:
  assumes "\<forall>g \<in> set gs. gi_format g = GAME_FORMAT_USBLD" "i < length gs"
  shows "ul_kept gs (int i) = take i gs @ drop (Suc i) gs"
proof -
  have all: "filter (\<lambda>(j, g). gi_format g = GAME_FORMAT_USBLD \<and> int j \<noteq> int i) (enumerate k xs) = enumerate k xs"
    if "\<forall>g \<in> set xs. gi_format g = GAME_FORMAT_USBLD" "i < k \<or> k + length xs \<le> i" for k xs
    using that by (intro filter_True) (auto simp: in_set_enumerate_eq)
  let ?a = "take i gs" and ?b = "drop (Suc i) gs"
  have ab: "\<forall>g \<in> set ?a. gi_format g = GAME_FORMAT_USBLD" "\<forall>g \<in> set ?b. gi_format g = GAME_FORMAT_USBLD"
    using assms(1) by (auto dest: in_set_takeD in_set_dropD)
  have la: "length ?a = i" using assms(2) by simp
  have "ul_kept gs (int i) = ul_kept (?a @ gs ! i # ?b) (int i)"
    using id_take_nth_drop [OF assms(2)] by simp
  also have "\<dots> = map snd (enumerate 0 ?a @ enumerate (Suc i) ?b)"
    using all [OF ab(1), of 0] all [OF ab(2), of "Suc i"] la by (simp add: ul_kept_def enumerate_append_eq)
  finally show ?thesis by simp
qed

lemma sbRebuild_file:
  assumes "fs_writable f (snprintf 256 (pre @ ''ul.cfg''))" "\<forall>p c. env_fwrite env p c = c"
  shows "fs_file (sbRebuildULCfg env f gs pre ex) (snprintf 256 (pre @ ''ul.cfg'')) = Some (concat (map ul_entry (ul_kept gs ex)))"
    and "p \<noteq> snprintf 256 (pre @ ''ul.cfg'') \<Longrightarrow> fs_file (sbRebuildULCfg env f gs pre ex) p = fs_file f p"
  using assms by (simp_all add: sbRebuildULCfg_def Let_def open_file_def)

lemma delete_parts_ok:
  assumes "\<And>p path. sbCreatePath g path pre sep p = Inr (h p)"
  shows "\<exists>f1. delete_parts g path pre sep ps f = Inr f1 \<and> fs_writable f1 = fs_writable f \<and>
    fs_file f1 = (\<lambda>x. if x \<in> h ` set ps then None else fs_file f x)"
proof (induction ps arbitrary: f path)
  case (Cons p ps)
  from Cons.IH [of "h p" "fs_unlink (h p) f"] assms show ?case
    by (auto simp: fs_unlink_def fun_eq_iff)
qed simp

lemma ul_name_ok:
  assumes "ul_wf g"
  shows "\<exists>n s. cstr_arr (gi_name g) = Inr n \<and> cstr_arr (gi_startup g) = Inr s \<and> set n \<subseteq> set (gi_name g) \<and> cstring n"
    and "gi_format g = GAME_FORMAT_USBLD"
proof -
  have "NUL \<in> set (gi_name g)" "NUL \<in> set (gi_startup g)" using assms by (auto simp: ul_wf_def ul_game_def)
  then show "\<exists>n s. cstr_arr (gi_name g) = Inr n \<and> cstr_arr (gi_startup g) = Inr s \<and> set n \<subseteq> set (gi_name g) \<and> cstring n"
    by (auto simp: cstr_arr_def cstring_def dest: set_takeWhileD)
  show "gi_format g = GAME_FORMAT_USBLD" using assms by (auto simp: ul_wf_def ul_game_def)
qed

section \<open>Properties\<close>

text \<open>Every disc image a scan lists is found again: for a folder whose names fit the buffers, with or
  without a cache, the scan succeeds and puts new entries in front of the list, and the path made from
  an entry is the folder and the very name of a file in it, for new and old style names, also for
  entries that come from the cache.\<close>

theorem scanForISO_paths:
  assumes "env_dir env path = Some ds" and "dir_ok env path ds"
    and "loadISOGameListCache env f path = Inr (r, games)" and "cached_ok (if r = 0 then Some games else None)"
  shows "\<exists>new f1. scanForISO env f path t glist = Inr (length new, new @ glist, f1) \<and>
    (\<forall>g \<in> set new. gi_media g = t \<and> (\<exists>d \<in> set ds. \<forall>junk pre sep part.
       sbCreatePath g junk pre sep part = Inr (snprintf 256 (pre @ media_folder t @ sep @ d))))"
proof -
  let ?cache = "if r = 0 then Some games else None"
  define new where "new = rev (List.map_filter (scan_entry env (strncasecmp_eq 3 path ''smb'') ?cache path t) ds)"
  have "length path + 10 < 256"
    using assms(3) by (auto simp: loadISOGameListCache_def cache_filename_def Let_def split: if_splits)
  then obtain x f1 where "updateISOGameList env f path ?cache (new @ glist) (length new) = Inr (x, f1)"
    using updateISOGameList_total by (metis surj_pair)
  then have "scanForISO env f path t glist = Inr (length new, new @ glist, f1)"
    using assms scan_loop_ok [OF assms(2,4)] by (simp add: scanForISO_def Let_def new_def)
  moreover have "gi_media g = t \<and> (\<exists>d \<in> set ds. \<forall>junk pre sep part.
      sbCreatePath g junk pre sep part = Inr (snprintf 256 (pre @ media_folder t @ sep @ d)))" if "g \<in> set new" for g
  proof -
    obtain d where d: "d \<in> set ds" "scan_entry env (strncasecmp_eq 3 path ''smb'') ?cache path t d = Some g"
      using \<open>g \<in> set new\<close> by (auto simp: new_def List.map_filter_def)
    note e = scan_entry_names [OF d(2) assms(2) d(1) assms(4)]
    show ?thesis using sbCreatePath_file [OF e(1)] e(2) d(1) by auto
  qed
  ultimately show ?thesis by blast
qed

text \<open>C3: the cache changes nothing: when a scan without a cache file has found games and could write
  them, the next scan of the same folder, which takes its entries from the cache, lists the same games
  in the same order and leaves the cache file alone, provided no old-style title is itself a file name.\<close>

theorem scanForISO_cache_transparent:
  assumes "env_dir env path = Some ds" and "dir_ok env path ds" and "titles_apart ds"
    and "cache_filename path = Inr filename" and "fs_file f filename = None" and "fs_writable f filename"
    and "\<forall>k. env_alloc env k" and "\<forall>p. env_fread env p" and "\<forall>p c. env_fwrite env p c = c"
    and "scanForISO env f path t glist = Inr (n, l, f1)" and "0 < n"
  shows "scanForISO env f1 path t glist = Inr (n, l, f1)"
proof -
  let ?smb = "strncasecmp_eq 3 path ''smb''"
  define new where "new = rev (List.map_filter (scan_entry env ?smb None path t) ds)"
  have none: "cached_ok None" by (simp add: cached_ok_def)
  have wf: "\<forall>g \<in> set new. game_wf g \<and> NUL \<in> set (gi_name g) \<and> NUL \<in> set (gi_extension g)"
    using scan_entry_names(1) [OF _ assms(2) _ none]
    by (fastforce simp: new_def List.map_filter_def names_file_def dest: cstr_arr_length)
  have load: "loadISOGameListCache env f path = Inr (ENOENT, [])"
    using assms(4,5) by (simp add: loadISOGameListCache_def)
  have nl: "n = length new" "l = new @ glist" and upd: "\<exists>x. updateISOGameList env f path None l n = Inr (x, f1)"
    using assms(1,10) scan_loop_ok [OF assms(2) none, of ?smb t 0 glist] load
    by (auto simp: scanForISO_def Let_def new_def c_bind_eq_Inr)
  have "list_modified None l n" using assms(11) nl by (auto simp: list_modified_def)
  then have f1: "fs_file f1 filename = Some (concat (map game_bytes new))"
    using upd assms(4,6,7,9,11) nl by (auto simp: updateISOGameList_def open_file_def Let_def)
  have "new \<noteq> []" using nl(1) assms(11) by auto
  then have load1: "loadISOGameListCache env f1 path = Inr (0, new)"
    using load_written [OF assms(4) f1] wf assms(7,8) by blast
  have c: "cached_ok (Some new)" using wf by (simp add: cached_ok_def)
  have "List.map_filter (scan_entry env ?smb (Some new) path t) ds = List.map_filter (scan_entry env ?smb None path t) ds"
    using scan_entry_cached [OF assms(2,3), of _ ?smb t] unfolding new_def by (intro map_filter_cong) blast
  then have "scan_loop env ?smb (Some new) path t ds 0 glist = Inr (n, l)"
    using scan_loop_ok [OF assms(2) c, of ?smb t 0 glist] nl by (simp add: new_def)
  moreover have "updateISOGameList env f1 path (Some new) l n = Inr (0, f1)"
    using not_modified [of new glist] nl by (simp add: updateISOGameList_def)
  ultimately show ?thesis using load1 assms(1) by (simp add: scanForISO_def Let_def)
qed

text \<open>A folder with one old-style image, on a device that mounts nothing.\<close>

definition demo_env :: sb_env where
  "demo_env = \<lparr>env_dir = (\<lambda>_. Some [''SLUS_123.45.Game.iso'']), env_mount = (\<lambda>_. (-1, None)), env_fread = (\<lambda>_. True),
     env_fwrite = (\<lambda>_ c. c), env_node = (\<lambda>_. True), env_alloc = (\<lambda>_. True)\<rparr>"

definition demo_fs :: fs where
  "demo_fs = \<lparr>fs_file = (\<lambda>_. None), fs_dir = (\<lambda>_. True), fs_writable = (\<lambda>_. True)\<rparr>"

lemma demo_name: "isValidIsoName ''SLUS_123.45.Game.iso'' = Inr (GAME_FORMAT_OLD_ISO, 4)"
  by (simp add: isValidIsoName_def strcasecmp_eq_def tolower_def code_def)

lemma demo_dir: "dir_ok demo_env ''mass:CD'' [''SLUS_123.45.Game.iso'']" "titles_apart [''SLUS_123.45.Game.iso'']"
  by (simp_all add: dir_ok_def demo_env_def GetStartupExecName_def ps2cnfGetBootFile_def titles_apart_def)

lemma demo_load: "loadISOGameListCache demo_env demo_fs ''mass:CD'' = Inr (ENOENT, [])"
  by (simp add: loadISOGameListCache_def cache_filename_def demo_fs_def)

lemma demo_scan: "\<exists>l f1. scanForISO demo_env demo_fs ''mass:CD'' SCECdPS2CD [] = Inr (1, l, f1)"
proof -
  let ?e = "scan_entry demo_env (strncasecmp_eq 3 ''mass:CD'' ''smb'') None ''mass:CD'' SCECdPS2CD"
  obtain g0 where "scan_game demo_env (strncasecmp_eq 3 ''mass:CD'' ''smb'') None (''mass:CD'' @ ''/'' @ ''SLUS_123.45.Game.iso'')
      ''SLUS_123.45.Game.iso'' GAME_FORMAT_OLD_ISO 4 = Inr (Some g0)"
    using scan_game_old [OF demo_name, of demo_env "strncasecmp_eq 3 ''mass:CD'' ''smb''" None "''mass:CD'' @ ''/'' @ ''SLUS_123.45.Game.iso''"]
    by auto
  then obtain g where "?e ''SLUS_123.45.Game.iso'' = Some g" by (simp add: scan_entry_def demo_name)
  then have s: "scan_loop demo_env (strncasecmp_eq 3 ''mass:CD'' ''smb'') None ''mass:CD'' SCECdPS2CD [''SLUS_123.45.Game.iso''] 0 [] =
      Inr (1, [g])"
    using scan_loop_ok [OF demo_dir(1), of None] by (simp add: cached_ok_def map_filter_simps)
  obtain x f1 where "updateISOGameList demo_env demo_fs ''mass:CD'' None [g] 1 = Inr (x, f1)"
    using updateISOGameList_total [of "''mass:CD''"] by fastforce
  with s demo_load show ?thesis by (auto simp: scanForISO_def Let_def demo_env_def)
qed

theorem scanForISO_paths_witness:
  "\<exists>new f1. scanForISO demo_env demo_fs ''mass:CD'' SCECdPS2CD [] = Inr (length new, new @ [], f1) \<and>
    (\<forall>g \<in> set new. gi_media g = SCECdPS2CD \<and> (\<exists>d \<in> set [''SLUS_123.45.Game.iso'']. \<forall>junk pre sep part.
       sbCreatePath g junk pre sep part = Inr (snprintf 256 (pre @ media_folder SCECdPS2CD @ sep @ d))))"
  by (rule scanForISO_paths [OF _ demo_dir(1) demo_load]) (simp_all add: demo_env_def cached_ok_def)

theorem scanForISO_cache_transparent_witness:
  "\<exists>l f1. scanForISO demo_env demo_fs ''mass:CD'' SCECdPS2CD [] = Inr (1, l, f1) \<and>
     scanForISO demo_env f1 ''mass:CD'' SCECdPS2CD [] = Inr (1, l, f1)"
proof -
  obtain l f1 where s: "scanForISO demo_env demo_fs ''mass:CD'' SCECdPS2CD [] = Inr (1, l, f1)" using demo_scan by blast
  then have "scanForISO demo_env f1 ''mass:CD'' SCECdPS2CD [] = Inr (1, l, f1)"
    by (intro scanForISO_cache_transparent [OF _ demo_dir, where filename = "''mass:CD/games.bin''" and f = demo_fs])
      (simp_all add: demo_env_def demo_fs_def cache_filename_def)
  with s show ?thesis by blast
qed

text \<open>The title of an old-style image hides a new-style image of that name: once both are cached, the
  scan takes the startup name of the old-style image for the other one and does not look into it.\<close>

theorem cache_old_title_hides:
  assumes "cstr_arr (gi_name g) = Inr n" and "cstr_arr (gi_extension g) = Inr e" and "game_wf g" and "gi_format g = GAME_FORMAT_OLD_ISO"
  shows "scan_game env smb (Some (g # cs)) path (n @ e) GAME_FORMAT_ISO k = Inr (Some g)"
proof -
  have "length (n @ e) < ISO_GAME_FNAME_MAX + 1"
    using cstr_arr_length [OF assms(1)] cstr_arr_length [OF assms(2)] assms(3) by (auto simp: game_wf_def)
  then have "snprintf (ISO_GAME_FNAME_MAX + 1) (n @ e) = n @ e" by (rule snprintf_id)
  with assms(1,2) show ?thesis by (simp add: scan_game_def)
qed

definition demo_old :: base_game_info where
  "demo_old = zero_game\<lparr>gi_name := ''Game'' @ replicate 157 NUL, gi_extension := ''.iso'' @ [NUL],
     gi_startup := ''SLUS_123.45'' @ replicate 2 NUL, gi_format := GAME_FORMAT_OLD_ISO\<rparr>"

theorem cache_old_title_hides_witness:
  "scan_game demo_env False (Some (demo_old # [])) ''mass:CD/Game.iso'' (''Game'' @ ''.iso'') GAME_FORMAT_ISO 4 = Inr (Some demo_old)"
  by (rule cache_old_title_hides) (simp_all add: demo_old_def cstr_arr_def game_wf_def zero_game_def)

text \<open>C22: reading the game list gives all games: the entries of \<open>ul.cfg\<close> in their order, then the images
  of the two folders; count, list and remembered size agree, when \<open>ul.cfg\<close> is whole entries.\<close>

theorem sbReadList_complete:
  assumes "scanForISO env (ut_fs st) (snprintf 256 (pre @ ''CD'')) SCECdPS2CD [] = Inr (n1, l1, f1)"
    and "scanForISO env f1 (snprintf 256 (pre @ ''DVD'')) SCECdPS2DVD l1 = Inr (n2, glist, f2)"
    and "openFile (st\<lparr>ut_fs := f2\<rparr>) (snprintf 256 (pre @ ''ul.cfg'')) O_RDONLY = Inr (Some (concat es), path, st1)"
    and "\<forall>e \<in> set es. length e = UL_ENTRY_SIZE" and "length (fst junk) = UL_ENTRY_SIZE"
    and "0 < length es + n1 + n2" and "\<forall>k. env_alloc env k"
  shows "sbReadList env junk st pre fsize = Inr (\<lparr>ro_count = length es + n1 + n2,
    ro_list = Some (map (\<lambda>e. ul_game e zero_game) es @ glist), ro_fsize = int (UL_ENTRY_SIZE * length es)\<rparr>, st1)"
proof -
  have len: "length glist = n1 + n2" using scanForISO_count [OF assms(1)] scanForISO_count [OF assms(2)] by simp
  have c: "length (concat es) = UL_ENTRY_SIZE * length es" using length_concat_chunks [of es id] assms(4) by simp
  have "ul_loop (concat es) (UL_ENTRY_SIZE * length es) (fst junk) 0 (replicate (length es + (n1 + n2)) zero_game) =
      Inr (length es, map (\<lambda>e. ul_game e zero_game) es @ replicate (n1 + n2) zero_game)"
    using ul_loop_entries [OF assms(4,5), of "[]" "n1 + n2"] by simp
  moreover have "copy_games (length es) (length es + (n1 + n2)) glist
      (map (\<lambda>e. ul_game e zero_game) es @ replicate (n1 + n2) zero_game) = map (\<lambda>e. ul_game e zero_game) es @ glist"
    using copy_games_fill [OF len, of "map (\<lambda>e. ul_game e zero_game) es"] by simp
  ultimately show ?thesis using assms(1-3,6,7) c by (simp add: sbReadList_def Let_def ac_simps)
qed

text \<open>A device with no image folders and a given \<open>ul.cfg\<close>.\<close>

definition ul_env :: sb_env where
  "ul_env = demo_env\<lparr>env_dir := (\<lambda>_. None)\<rparr>"

definition ul_state :: "string \<Rightarrow> util_state" where
  "ul_state content = \<lparr>mcID = -1, ut_fs = demo_fs\<lparr>fs_file := [''mass:ul.cfg'' \<mapsto> content]\<rparr>\<rparr>"

lemma ul_env_scan: "snprintf 256 (''mass:'' @ s) \<noteq> [] \<Longrightarrow> length s < 20 \<Longrightarrow> s @ ''/games.bin'' \<noteq> ''ul.cfg'' \<Longrightarrow>
  scanForISO ul_env (ut_fs (ul_state content)) (snprintf 256 (''mass:'' @ s)) t [] = Inr (0, [], ut_fs (ul_state content))"
  by (simp add: scanForISO_def loadISOGameListCache_def cache_filename_def ul_env_def demo_env_def ul_state_def demo_fs_def
      snprintf_id updateISOGameList_def list_modified_def)

lemma ul_env_open:
  "openFile ((ul_state content)\<lparr>ut_fs := ut_fs (ul_state content)\<rparr>) (snprintf 256 (''mass:'' @ ''ul.cfg'')) O_RDONLY =
   Inr (Some content, ''mass:ul.cfg'', ul_state content)"
  by (simp add: openFile_def checkFile_def snprintf_id ul_state_def open_file_def)

theorem sbReadList_complete_witness:
  "sbReadList ul_env (replicate UL_ENTRY_SIZE NUL, zero_game) (ul_state (concat [replicate UL_ENTRY_SIZE (CHR ''A'')])) ''mass:'' 0 =
    Inr (\<lparr>ro_count = length [replicate UL_ENTRY_SIZE (CHR ''A'')] + 0 + 0,
      ro_list = Some (map (\<lambda>e. ul_game e zero_game) [replicate UL_ENTRY_SIZE (CHR ''A'')] @ []),
      ro_fsize = int (UL_ENTRY_SIZE * length [replicate UL_ENTRY_SIZE (CHR ''A'')])\<rparr>, ul_state (concat [replicate UL_ENTRY_SIZE (CHR ''A'')]))"
  by (rule sbReadList_complete [OF ul_env_scan ul_env_scan ul_env_open]) (simp_all add: snprintf_id ul_env_def demo_env_def)

text \<open>A \<open>ul.cfg\<close> with bytes behind its last whole entry and no disc images in the folders makes the
  reader write behind the list it allocated.\<close>

theorem sbReadList_overflow:
  assumes "scanForISO env (ut_fs st) (snprintf 256 (pre @ ''CD'')) SCECdPS2CD [] = Inr (0, l1, f1)"
    and "scanForISO env f1 (snprintf 256 (pre @ ''DVD'')) SCECdPS2DVD l1 = Inr (0, glist, f2)"
    and "openFile (st\<lparr>ut_fs := f2\<rparr>) (snprintf 256 (pre @ ''ul.cfg'')) O_RDONLY = Inr (Some content, path, st1)"
    and "UL_ENTRY_SIZE < length content" and "length content mod UL_ENTRY_SIZE \<noteq> 0" and "\<forall>k. env_alloc env k"
  shows "sbReadList env junk st pre fsize = Inl OutOfBounds"
proof -
  define k where "k = length content div UL_ENTRY_SIZE"
  have "UL_ENTRY_SIZE * k < length content" using assms(5) by (simp add: k_def) (metis div_mult_mod_eq less_add_same_cancel1 mult.commute)
  then have "ul_loop content (length content) (fst junk) 0 (replicate k zero_game) = Inl OutOfBounds"
    by (intro ul_loop_overflow) simp_all
  moreover have "0 < k" using assms(4) by (simp add: k_def div_greater_zero_iff)
  ultimately show ?thesis using assms(1-3,6) by (simp add: sbReadList_def Let_def k_def)
qed

theorem sbReadList_overflow_witness:
  "sbReadList ul_env (replicate UL_ENTRY_SIZE NUL, zero_game) (ul_state (replicate 65 (CHR ''A''))) ''mass:'' 0 = Inl OutOfBounds"
  by (rule sbReadList_overflow [OF ul_env_scan ul_env_scan ul_env_open]) (simp_all add: snprintf_id ul_env_def demo_env_def)

text \<open>C23: deleting a split game removes its parts and its entry and nothing else: on a list of split
  games with plain names, all part files are gone, every other file but \<open>ul.cfg\<close> is untouched, and
  reading the new \<open>ul.cfg\<close> gives the list without the game.\<close>

theorem sbDelete_ul:
  assumes "\<forall>g \<in> set gs. ul_wf g" and "i < length gs" and "\<forall>c \<in> set (gi_name (gs ! i)). code c < 128"
    and "u = snprintf 256 (pre @ ''ul.cfg'')" and "fs_writable f u" and "\<forall>p c. env_fwrite env p c = c" and "length e0 = UL_ENTRY_SIZE"
  shows "\<exists>f' h content. sbDelete env junk f gs pre sep i = Inr f' \<and>
    (\<forall>p < unat (gi_parts (gs ! i)). sbCreatePath (gs ! i) junk pre sep p = Inr (h p)) \<and>
    (\<forall>x. x \<noteq> u \<longrightarrow> fs_file f' x = (if x \<in> h ` {..<unat (gi_parts (gs ! i))} then None else fs_file f x)) \<and>
    fs_file f' u = Some content \<and>
    ul_loop content (length content) e0 0 (replicate (length gs - 1) zero_game) =
      Inr (length gs - 1, take i gs @ drop (Suc i) gs)"
proof -
  let ?g = "gs ! i"
  have g: "ul_wf ?g" using assms(1,2) by simp
  obtain n s where ns: "cstr_arr (gi_name ?g) = Inr n" "cstr_arr (gi_startup ?g) = Inr s" "set n \<subseteq> set (gi_name ?g)" "cstring n"
    using ul_name_ok(1) [OF g] by blast
  have "\<forall>c \<in> set n. code c < 128" using ns(3) assms(3) by blast
  then obtain crc where "USBA_crc32 n = Inr crc" using crc_loop_poly [of n 0] ns(4) by (auto simp: USBA_crc32_def)
  then obtain h where h: "\<And>p path. sbCreatePath ?g path pre sep p = Inr (h p)"
    using ns ul_name_ok(2) [OF g] by (auto simp: sbCreatePath_def sbCreatePath_name_def)
  obtain f1 where f1: "delete_parts ?g junk pre sep [0..<unat (gi_parts ?g)] f = Inr f1" "fs_writable f1 = fs_writable f"
      "fs_file f1 = (\<lambda>x. if x \<in> h ` set [0..<unat (gi_parts ?g)] then None else fs_file f x)"
    using delete_parts_ok [OF h, of junk "[0..<unat (gi_parts ?g)]" f] by blast
  have d: "sbDelete env junk f gs pre sep i = Inr (sbRebuildULCfg env f1 gs pre (int i))"
    using f1(1) assms(2) ul_name_ok(2) [OF g] by (simp add: sbDelete_def)
  have k: "ul_kept gs (int i) = take i gs @ drop (Suc i) gs"
    using ul_kept_delete [OF _ assms(2)] assms(1) ul_name_ok(2) by blast
  note r = sbRebuild_file [where f = f1 and pre = pre and gs = gs and ex = "int i" and env = env, folded assms(4), unfolded k]
  have w: "fs_writable f1 u" using f1(2) assms(5) by simp
  have "ul_loop (concat (map ul_entry (take i gs @ drop (Suc i) gs))) (length (concat (map ul_entry (take i gs @ drop (Suc i) gs)))) e0 0
      (replicate (length (take i gs @ drop (Suc i) gs)) zero_game) = Inr (length (take i gs @ drop (Suc i) gs), take i gs @ drop (Suc i) gs)"
    using assms(1,7) k by (intro ul_reread [where gs = gs and ex = "int i"]) auto
  moreover have "length (take i gs @ drop (Suc i) gs) = length gs - 1" using assms(2) by simp
  ultimately show ?thesis using d h r(1) [OF w assms(6)] r(2) [OF w assms(6)] f1(3)
    by (intro exI [of _ "sbRebuildULCfg env f1 gs pre (int i)"] exI [of _ h] exI [of _ "concat (map ul_entry (take i gs @ drop (Suc i) gs))"])
      (auto simp: lessThan_atLeast0)
qed

theorem sbDelete_ul_witness:
  "\<exists>f' h content. sbDelete ul_env [] demo_fs [ul_game (replicate UL_ENTRY_SIZE (CHR ''A'')) zero_game] ''mass:'' ''/'' 0 = Inr f' \<and>
    (\<forall>p < unat (gi_parts ([ul_game (replicate UL_ENTRY_SIZE (CHR ''A'')) zero_game] ! 0)).
       sbCreatePath ([ul_game (replicate UL_ENTRY_SIZE (CHR ''A'')) zero_game] ! 0) [] ''mass:'' ''/'' p = Inr (h p)) \<and>
    (\<forall>x. x \<noteq> snprintf 256 (''mass:'' @ ''ul.cfg'') \<longrightarrow> fs_file f' x =
       (if x \<in> h ` {..<unat (gi_parts ([ul_game (replicate UL_ENTRY_SIZE (CHR ''A'')) zero_game] ! 0))} then None else fs_file demo_fs x)) \<and>
    fs_file f' (snprintf 256 (''mass:'' @ ''ul.cfg'')) = Some content \<and>
    ul_loop content (length content) (replicate UL_ENTRY_SIZE NUL) 0
      (replicate (length [ul_game (replicate UL_ENTRY_SIZE (CHR ''A'')) zero_game] - 1) zero_game) =
      Inr (length [ul_game (replicate UL_ENTRY_SIZE (CHR ''A'')) zero_game] - 1,
        take 0 [ul_game (replicate UL_ENTRY_SIZE (CHR ''A'')) zero_game] @ drop (Suc 0) [ul_game (replicate UL_ENTRY_SIZE (CHR ''A'')) zero_game])"
proof -
  have "ul_wf (ul_game (replicate UL_ENTRY_SIZE (CHR ''A'')) zero_game)"
    unfolding ul_wf_def by (rule exI [of _ "replicate UL_ENTRY_SIZE (CHR ''A'')"]) simp
  moreover have "\<forall>c \<in> set (gi_name (ul_game (replicate UL_ENTRY_SIZE (CHR ''A'')) zero_game)). code c < 128"
    by (auto simp: ul_game_def zero_game_def code_def)
  ultimately show ?thesis
    by (intro sbDelete_ul) (simp_all add: demo_fs_def ul_env_def demo_env_def)
qed

text \<open>The name of the executable is taken from the boot path of the image: from a line
  \<open>BOOT2 = device:\serial;version\<close> the serial, cut at the length the caller allows, whatever backslashes
  stand before it.\<close>

theorem GetStartupExecName_serial:
  assumes "\<forall>l \<in> set ls. skipped_line ''BOOT2'' l" and "\<forall>c \<in> set (s0 @ s1 @ s2). isspace c"
    and "p = dev @ '':'' @ replicate k BACKSLASH @ serial @ '';'' @ version"
    and "\<forall>c \<in> set p. isgraph c" and "length p < CNF_PATH_LEN_MAX" and "rest = [] \<or> isspace (hd rest)"
    and "length (cnf_text ls s0 (s1 @ ''='' @ s2 @ p @ rest)) < CNF_LEN_MAX"
      "length (cnf_text ls s0 (s1 @ ''='' @ s2 @ p @ rest)) \<le> avail"
    and "CHR '':'' \<notin> set dev" and "CHR '';'' \<notin> set serial" and "serial \<noteq> []" and "hd serial \<noteq> BACKSLASH" and "0 < m"
  shows "GetStartupExecName (Some (cnf_text ls s0 (s1 @ ''='' @ s2 @ p @ rest), avail)) m = Inr (0, take m serial)"
proof -
  define tail where "tail = replicate (CNF_PATH_LEN_MAX - length p) NUL"
  have nul: "\<forall>c \<in> set p. c \<noteq> NUL" using assms(4) not_isspace(3) by blast
  have "NUL # replicate (63 - length p) NUL = tail"
    using assms(5) by (simp add: tail_def flip: replicate_Suc Suc_diff_Suc)
  then have boot: "ps2cnfGetBootFile (Some (cnf_text ls s0 (s1 @ ''='' @ s2 @ p @ rest), avail)) (replicate CNF_PATH_LEN_MAX NUL) =
      Inr (0, p @ tail)"
    using boot_path [OF assms(1,2) _ assms(4-8)] assms(3) by (auto simp: tail_def)
  have "\<forall>c \<in> set dev. c \<noteq> CHR '':'' \<and> c \<noteq> NUL" using assms(3,9) nul by auto
  then have dw: "dropWhile (\<lambda>c. c \<noteq> CHR '':'' \<and> c \<noteq> NUL) (p @ tail) =
      CHR '':'' # replicate k BACKSLASH @ serial @ '';'' @ version @ tail"
    by (simp add: assms(3) dropWhile_append2)
  have bs: "dropWhile (\<lambda>c. c = BACKSLASH) (replicate k BACKSLASH @ serial @ x) = serial @ x" for x
    using assms(11,12) by (induction k) (auto simp: neq_Nil_conv)
  have tw: "takeWhile (\<lambda>c. c \<noteq> CHR '';'' \<and> c \<noteq> NUL) (serial @ '';'' @ x) = serial" for x
    using assms(3,10) nul by (subst takeWhile_append2) auto
  show ?thesis using boot dw bs tw assms(11,13) by (simp add: GetStartupExecName_def Let_def min_def)
qed

theorem GetStartupExecName_serial_witness:
  "GetStartupExecName (Some (cnf_text [''VER = 1.00''] [] ('' '' @ ''='' @ '' '' @ (''cdrom0'' @ '':'' @ replicate 1 BACKSLASH @ ''SLUS_123.45'' @ '';'' @ ''1'') @ [CR, LF]), 1000)) 11 =
    Inr (0, take 11 ''SLUS_123.45'')"
proof -
  have "skipped_line ''BOOT2'' ''VER = 1.00''"
    by (rule skipped_line_head [of _ "CHR ''V''" "''ER = 1.00''"]) (simp_all add: isspace_def code_def)
  then show ?thesis
    by (intro GetStartupExecName_serial [OF _ _ refl]) (simp_all add: isspace_def isgraph_def code_def cnf_text_def)
qed

end
