(* ===== verification/Cheatman.thy ===== *)
theory Cheatman
  imports Config
begin

text \<open>
  The cheat codes of \<open>src/cheatman.c\<close>: the parser of a cheat file, which cheats are switched off and how
  the configuration keeps that, and the flat list of codes handed to the cheat engine.  The arrays have
  their full length; the name of a cheat is the string in its array.
\<close>

section \<open>State\<close>

abbreviation MAX_CODES :: nat where "MAX_CODES \<equiv> 250"
abbreviation MAX_CHEATLIST :: nat where "MAX_CHEATLIST \<equiv> 510"
abbreviation CHEAT_NAME_MAX :: nat where "CHEAT_NAME_MAX \<equiv> 128"
abbreviation SETTINGS_GLOBAL :: int where "SETTINGS_GLOBAL \<equiv> 0"
abbreviation SETTINGS_PERGAME :: int where "SETTINGS_PERGAME \<equiv> 1"

type_synonym cheat_code = "u32 \<times> u32"

record cheat_entry =
  ch_name :: string
  ch_codes :: "cheat_code list"
  ch_enabled :: bool

record cheat_state =
  gCheats :: "cheat_entry list"
  gCheatList :: "u32 list"
  gEnableCheat :: int
  gCheatMode :: int

definition blank_cheat :: cheat_entry where
  "blank_cheat = \<lparr>ch_name = [], ch_codes = replicate MAX_CHEATLIST (0, 0), ch_enabled = False\<rparr>"

section \<open>Queries\<close>

definition master_name :: "string \<Rightarrow> bool" where
  "master_name n \<longleftrightarrow> strncasecmp_eq 8 n ''[Enable]'' \<or> strncasecmp_eq 10 n ''Mastercode''"

definition is_master_cheat :: "cheat_entry list \<Rightarrow> int \<Rightarrow> bool" where
  "is_master_cheat cheats index =
     (if index < 0 \<or> int MAX_CODES \<le> index then False
      else let n = ch_name (cheats ! nat index)
           in if n = [] then False else master_name n)"

definition GetCheatsCount :: "cheat_entry list \<Rightarrow> nat" where
  "GetCheatsCount cheats = length (takeWhile (\<lambda>c. ch_name c \<noteq> []) (take MAX_CODES cheats))"

definition GetCheatsEnabled :: "cheat_state \<Rightarrow> int" where
  "GetCheatsEnabled st = gEnableCheat st"

definition GetCheatMode :: "cheat_state \<Rightarrow> int" where
  "GetCheatMode st = gCheatMode st"

definition GetCheatsList :: "cheat_state \<Rightarrow> u32 list" where
  "GetCheatsList st = gCheatList st"

section \<open>The configuration\<close>

definition hex_of :: "char \<Rightarrow> nat option" where
  "hex_of c = (if 48 \<le> code c \<and> code c \<le> 57 then Some (code c - 48)
     else if 97 \<le> code c \<and> code c \<le> 102 then Some (code c - 97 + 10)
     else if 65 \<le> code c \<and> code c \<le> 70 then Some (code c - 65 + 10) else None)"

definition set_enabled :: "nat \<Rightarrow> bool \<Rightarrow> cheat_entry list \<Rightarrow> cheat_entry list" where
  "set_enabled i b cheats = cheats[i := (cheats ! i)\<lparr>ch_enabled := b\<rparr>]"

text \<open>Cheat \<open>i\<close> is bit \<open>i mod 4\<close> of digit \<open>i div 4\<close>; the loop has \<open>n\<close> passes left.\<close>

fun disabled_loop :: "string \<Rightarrow> nat \<Rightarrow> nat \<Rightarrow> cheat_entry list \<Rightarrow> cheat_entry list" where
  "disabled_loop val i 0 cheats = cheats"
| "disabled_loop val i (Suc n) cheats =
     (case hex_of (val ! (i div 4)) of
        None \<Rightarrow> cheats
      | Some hex \<Rightarrow> disabled_loop val (i + 1) n (set_enabled i (\<not> bit hex (i mod 4)) cheats))"

definition load_cheats_config :: "config_set option \<Rightarrow> cheat_state \<Rightarrow> cheat_state" where
  "load_cheats_config configSet st =
     (let cheats = map (\<lambda>c. c\<lparr>ch_enabled := True\<rparr>) (gCheats st)
      in case configSet of
           None \<Rightarrow> st\<lparr>gCheats := cheats\<rparr>
         | Some cs \<Rightarrow>
             (case configGetStr cs ''$CheatDisabled'' of
                None \<Rightarrow> st\<lparr>gCheats := cheats\<rparr>
              | Some val \<Rightarrow> st\<lparr>gCheats := disabled_loop val 0 (min MAX_CODES (length val * 4)) cheats\<rparr>))"

definition InitCheatsConfig :: "config_state \<Rightarrow> config_set option \<Rightarrow> cheat_state \<Rightarrow> cheat_state" where
  "InitCheatsConfig cfg configSet st0 =
     (let st = st0\<lparr>gEnableCheat := 0, gCheatMode := 0\<rparr>
      in if (\<exists>cs. configSet = Some cs \<and> configGetInt cs ''$CheatsSource'' = Some SETTINGS_PERGAME) then
           load_cheats_config configSet
             (st\<lparr>gEnableCheat := get_int_or (the configSet) ''$EnableCheat'' 0,
                gCheatMode := get_int_or (the configSet) ''$CheatMode'' 0\<rparr>)
         else
           load_cheats_config configSet
             (case configGetByType cfg CONFIG_OPL of
                None \<Rightarrow> st
              | Some g \<Rightarrow> st\<lparr>gEnableCheat := get_int_or g ''$EnableCheat'' 0, gCheatMode := get_int_or g ''$CheatMode'' 0\<rparr>))"

definition hex_digit :: "nat \<Rightarrow> char" where
  "hex_digit v = ''0123456789abcdef'' ! (v mod 16)"

definition digit_value :: "char \<Rightarrow> nat" where
  "digit_value c = (if 48 \<le> code c \<and> code c \<le> 57 then code c - 48
     else if 97 \<le> code c \<and> code c \<le> 102 then code c - 97 + 10 else code c - 65 + 10)"

definition is_off :: "cheat_entry list \<Rightarrow> nat \<Rightarrow> bool" where
  "is_off cheats i \<longleftrightarrow> \<not> ch_enabled (cheats ! i) \<and> \<not> is_master_cheat cheats (int i)"

definition save_step :: "cheat_entry list \<Rightarrow> nat \<Rightarrow> nat \<Rightarrow> bool \<times> string \<Rightarrow> bool \<times> string" where
  "save_step cheats hex_len i s =
     (if is_off cheats i then
        (True, if i div 4 < hex_len
               then (snd s)[i div 4 := hex_digit (digit_value (snd s ! (i div 4)) OR push_bit (i mod 4) 1)] else snd s)
      else s)"

definition save_cheats :: "config_set option \<Rightarrow> cheat_state \<Rightarrow> config_set option" where
  "save_cheats configSet st =
     (let cnt = GetCheatsCount (gCheats st); hex_len = min 64 ((cnt + 3) div 4)
      in case configSet of
           None \<Rightarrow> None
         | Some cs \<Rightarrow>
             if cnt = 0 then Some cs
             else let (any_disabled, hex_str) =
                    fold (save_step (gCheats st) hex_len) [0..<cnt] (False, replicate hex_len (CHR ''0''))
                  in if any_disabled then Some (snd (configSetStr cs ''$CheatDisabled'' hex_str))
                     else Some (snd (configRemoveKey cs ''$CheatDisabled'')))"

section \<open>The list for the engine\<close>

fun put_codes :: "cheat_code list \<Rightarrow> nat \<times> u32 list \<Rightarrow> (nat \<times> u32 list) cres" where
  "put_codes [] s = Inr s"
| "put_codes ((addr, val) # codes) (list_index, l) =
     (if addr = 0 then Inr (list_index, l)
      else if list_index < MAX_CHEATLIST - 2 then
        c_bind (poke l list_index addr) (\<lambda>l1. c_bind (poke l1 (list_index + 1) val) (\<lambda>l2.
          put_codes codes (list_index + 2, l2)))
      else put_codes codes (list_index, l))"

fun put_cheats :: "cheat_entry list \<Rightarrow> nat list \<Rightarrow> nat \<times> u32 list \<Rightarrow> (nat \<times> u32 list) cres" where
  "put_cheats cheats [] s = Inr s"
| "put_cheats cheats (i # is) s =
     (if is_off cheats i then put_cheats cheats is s
      else c_bind (put_codes (ch_codes (cheats ! i)) s) (\<lambda>s1. put_cheats cheats is s1))"

definition set_cheats_list :: "cheat_state \<Rightarrow> cheat_state cres" where
  "set_cheats_list st =
     (let cheat_count = GetCheatsCount (gCheats st); l0 = replicate MAX_CHEATLIST 0
      in if cheat_count = 0 then
           c_bind (poke l0 0 0) (\<lambda>l1. c_bind (poke l1 1 0) (\<lambda>l2. Inr (st\<lparr>gCheatList := l2\<rparr>)))
         else c_bind (put_cheats (gCheats st) [0..<cheat_count] (0, l0)) (\<lambda>(list_index, l).
           c_bind (poke l list_index 0) (\<lambda>l1.
             c_bind (if list_index + 1 < MAX_CHEATLIST then poke l1 (list_index + 1) 0 else Inr l1) (\<lambda>l2.
               Inr (st\<lparr>gCheatList := l2\<rparr>)))))"

section \<open>The cheat file\<close>

fun strstr_slashes :: "string \<Rightarrow> nat option" where
  "strstr_slashes [] = None"
| "strstr_slashes (c # cs) =
     (if c = CHR ''/'' \<and> take 1 cs = ''/'' then Some 0 else map_option Suc (strstr_slashes cs))"

definition strip_line :: "string \<Rightarrow> string" where
  "strip_line line =
     (let a = (case strstr_slashes line of Some i \<Rightarrow> take i line | None \<Rightarrow> line);
          b = takeWhile (\<lambda>c. c \<noteq> CHR ''#'') a;
          c = takeWhile (\<lambda>c. c \<noteq> CR) b
      in rev (dropWhile isspace (rev (dropWhile isspace c))))"

text \<open>The check whether a line is a code: at most sixteen digits are kept.\<close>

fun scan_code :: "string \<Rightarrow> string \<Rightarrow> bool \<times> string" where
  "scan_code [] hex = (True, hex)"
| "scan_code (c # cs) hex =
     (if isxdigit c then scan_code cs (if length hex < 16 then hex @ [c] else hex)
      else if isspace c then scan_code cs hex
      else (False, hex))"

definition strtoul16 :: "string \<Rightarrow> nat" where
  "strtoul16 s = foldl (\<lambda>a c. 16 * a + the (hex_of c)) 0 s"

record load_st =
  ls_cheats :: "cheat_entry list"
  ls_cheat :: "nat option"
  ls_code :: nat

text \<open>\<open>ls_cheat\<close> is \<open>cheat_idx\<close>, \<open>None\<close> for \<open>-1\<close>.\<close>

definition cheat_line :: "string \<Rightarrow> load_st \<Rightarrow> load_st cres" where
  "cheat_line line0 s =
     (let line = strip_line line0
      in if line = [] then Inr s
         else let (is_code, hex) = scan_code line []
              in if is_code \<and> length hex = 16 then
                   let addr = of_nat (strtoul16 (take 8 hex)); val = of_nat (strtoul16 (drop 8 hex))
                   in (case ls_cheat s of
                         Some i \<Rightarrow>
                           if ls_code s < MAX_CHEATLIST then
                             c_bind (peek (ls_cheats s) i) (\<lambda>c. c_bind (poke (ch_codes c) (ls_code s) (addr, val)) (\<lambda>cds.
                               Inr (s\<lparr>ls_cheats := (ls_cheats s)[i := c\<lparr>ch_codes := cds\<rparr>], ls_code := ls_code s + 1\<rparr>)))
                           else Inr s
                       | None \<Rightarrow> Inr s)
                 else
                   let i = (case ls_cheat s of Some i \<Rightarrow> i + 1 | None \<Rightarrow> 0)
                   in if i < MAX_CODES then
                        c_bind (peek (ls_cheats s) i) (\<lambda>c.
                          Inr \<lparr>ls_cheats = (ls_cheats s)[i := c\<lparr>ch_name := take CHEAT_NAME_MAX line, ch_enabled := True\<rparr>],
                               ls_cheat = Some i, ls_code = 0\<rparr>)
                      else Inr s)"

function cheat_lines :: "string \<Rightarrow> load_st \<Rightarrow> load_st cres" where
  "cheat_lines p s =
     (if p = [] then Inr s
      else case strchr p LF of
        Some i \<Rightarrow> c_bind (cheat_line (take i p) s) (\<lambda>s1. cheat_lines (drop (i + 1) p) s1)
      | None \<Rightarrow> cheat_line p s)"
  by pat_completeness auto
termination
  by (relation "measure (\<lambda>(p, s). length p)") auto

declare cheat_lines.simps [simp del]

fun enable_masters :: "nat \<Rightarrow> cheat_entry list \<Rightarrow> cheat_entry list" where
  "enable_masters 0 cheats = cheats"
| "enable_masters (Suc n) cheats =
     (let cheats1 = enable_masters n cheats
      in if is_master_cheat cheats1 (int n) then set_enabled n True cheats1 else cheats1)"

text \<open>\<open>io_ok\<close>: the buffer can be allocated and the read delivers the whole file.  A NUL in the file ends
  the text.\<close>

definition load_cheats ::
  "bool \<Rightarrow> util_state \<Rightarrow> string \<Rightarrow> cheat_state \<Rightarrow> (int \<times> cheat_state \<times> util_state) cres" where
  "load_cheats io_ok ut cheatfile st0 =
     (let st = st0\<lparr>gCheats := replicate MAX_CODES blank_cheat\<rparr>
      in c_bind (openFile ut cheatfile O_RDONLY) (\<lambda>(fd, _, ut1).
           case fd of
             None \<Rightarrow> Inr (-1, st, ut1)
           | Some content \<Rightarrow>
               if content = [] \<or> \<not> io_ok then Inr (-1, st, ut1)
               else c_bind (cheat_lines (takeWhile (\<lambda>c. c \<noteq> NUL) content)
                              \<lparr>ls_cheats = gCheats st, ls_cheat = None, ls_code = 0\<rparr>) (\<lambda>s.
                 case ls_cheat s of
                   None \<Rightarrow> Inr (-1, st\<lparr>gCheats := ls_cheats s\<rparr>, ut1)
                 | Some i \<Rightarrow>
                     Inr (if 0 < gCheatMode st then 1 else 0, st\<lparr>gCheats := enable_masters (i + 1) (ls_cheats s)\<rparr>, ut1))))"

section \<open>The list for the engine: lemmas\<close>

definition flat :: "cheat_code list \<Rightarrow> u32 list" where
  "flat xs = concat (map (\<lambda>(a, v). [a, v]) xs)"

definition engine_list :: "cheat_code list \<Rightarrow> nat \<times> u32 list" where
  "engine_list xs = (2 * length xs, flat xs @ replicate (MAX_CHEATLIST - 2 * length xs) 0)"

text \<open>The codes of a cheat end at the first address 0.\<close>

definition live_codes :: "cheat_entry \<Rightarrow> cheat_code list" where
  "live_codes c = takeWhile (\<lambda>x. fst x \<noteq> 0) (ch_codes c)"

definition active_codes :: "cheat_entry list \<Rightarrow> cheat_code list" where
  "active_codes cheats =
     concat (map (\<lambda>i. live_codes (cheats ! i)) (filter (\<lambda>i. \<not> is_off cheats i) [0..<GetCheatsCount cheats]))"

lemma length_flat: "length (flat xs) = 2 * length xs"
  by (induction xs) (auto simp: flat_def)

lemma flat_snoc: "flat (xs @ [(a, v)]) = flat xs @ [a, v]"
  by (simp add: flat_def)

lemma put_codes_list:
  "length xs \<le> 254 \<Longrightarrow> put_codes codes (engine_list xs) = Inr (engine_list (take 254 (xs @ takeWhile (\<lambda>x. fst x \<noteq> 0) codes)))"
proof (induction codes arbitrary: xs)
  case Nil
  then show ?case by simp
next
  case (Cons x codes)
  obtain a v where x: "x = (a, v)" by fastforce
  show ?case
  proof (cases "length xs < 254 \<and> a \<noteq> 0")
    case True
    then obtain m where m: "MAX_CHEATLIST - 2 * length xs = Suc (Suc m)" "m = MAX_CHEATLIST - 2 * length (xs @ [x])"
      by (auto intro!: that [of "508 - 2 * length xs"])
    then have "put_codes (x # codes) (engine_list xs) = put_codes codes (engine_list (xs @ [x]))"
      using True by (simp add: x engine_list_def length_flat flat_snoc list_update_append)
    with True Cons.IH [of "xs @ [x]"] show ?thesis by (simp add: x)
  next
    case False
    then show ?thesis using Cons.prems Cons.IH [OF Cons.prems] by (auto simp: x engine_list_def take_Cons')
  qed
qed

lemma take_take_append: "take n (take n xs @ ys) = take n (xs @ ys)"
  by (simp add: min_def)

lemma put_cheats_list:
  "length xs \<le> 254 \<Longrightarrow> put_cheats cheats is (engine_list xs) =
     Inr (engine_list (take 254 (xs @ concat (map (\<lambda>i. live_codes (cheats ! i)) (filter (\<lambda>i. \<not> is_off cheats i) is)))))"
proof (induction "is" arbitrary: xs)
  case (Cons i "is")
  show ?case
  proof (cases "is_off cheats i")
    case True
    with Cons show ?thesis by simp
  next
    case False
    have "take 254 (take 254 (xs @ live_codes (cheats ! i)) @ r) = take 254 (xs @ live_codes (cheats ! i) @ r)" for r
      by (simp only: take_take_append append_assoc)
    with False Cons.prems put_codes_list [of xs "ch_codes (cheats ! i)"] Cons.IH [of "take 254 (xs @ live_codes (cheats ! i))"]
    show ?thesis by (simp add: live_codes_def [symmetric] del: take_append)
  qed
qed simp

section \<open>The saved flags: lemmas\<close>

lemma digit_value_hex: "v < 16 \<Longrightarrow> digit_value (hex_digit v) = v" "v < 16 \<Longrightarrow> hex_of (hex_digit v) = Some v"
proof -
  have "\<forall>v \<in> set [0..<16]. digit_value (hex_digit v) = v \<and> hex_of (hex_digit v) = Some v" by code_simp
  then show "v < 16 \<Longrightarrow> digit_value (hex_digit v) = v" "v < 16 \<Longrightarrow> hex_of (hex_digit v) = Some v" by simp_all
qed

text \<open>After \<open>k\<close> cheats digit \<open>d\<close> holds the flags of those among its four cheats.\<close>

definition flags_ok :: "(nat \<Rightarrow> bool) \<Rightarrow> nat \<Rightarrow> nat \<Rightarrow> string \<Rightarrow> bool" where
  "flags_ok P k m s \<longleftrightarrow> length s = m \<and>
     (\<forall>d < m. \<exists>v < 16. s ! d = hex_digit v \<and> (\<forall>b < 4. bit v b \<longleftrightarrow> 4 * d + b < k \<and> P (4 * d + b)))"

lemma flags_ok_0: "flags_ok P 0 m (replicate m (CHR ''0''))"
  unfolding flags_ok_def by (auto intro!: exI [of _ 0] simp: hex_digit_def)

lemma flags_ok_step:
  assumes "flags_ok P k m s" "k div 4 < m"
  shows "flags_ok P (Suc k) m (if P k then s[k div 4 := hex_digit (digit_value (s ! (k div 4)) OR push_bit (k mod 4) 1)] else s)"
proof -
  have k: "4 * d + b < Suc k \<longleftrightarrow> 4 * d + b < k \<or> d = k div 4 \<and> b = k mod 4" if "b < 4" for d b
    using that by (auto simp: less_Suc_eq)
  have other: "\<exists>v < 16. s ! d = hex_digit v \<and> (\<forall>b < 4. bit v b \<longleftrightarrow> 4 * d + b < Suc k \<and> P (4 * d + b))"
    if "d < m" "d \<noteq> k div 4 \<or> \<not> P k" for d
  proof -
    obtain v where "v < 16" "s ! d = hex_digit v" "\<forall>b < 4. bit v b \<longleftrightarrow> 4 * d + b < k \<and> P (4 * d + b)"
      using assms(1) \<open>d < m\<close> unfolding flags_ok_def by blast
    moreover have "4 * (k div 4) + k mod 4 = k" by simp
    ultimately show ?thesis using that(2) k by (intro exI [of _ v]) auto
  qed
  show ?thesis
  proof (cases "P k")
    case False
    then show ?thesis using other assms by (simp add: flags_ok_def)
  next
    case True
    let ?d = "k div 4" and ?w = "push_bit (k mod 4) (1 :: nat)"
    obtain v where v: "v < 16" "s ! ?d = hex_digit v" "\<forall>b < 4. bit v b \<longleftrightarrow> 4 * ?d + b < k \<and> P (4 * ?d + b)"
      using assms unfolding flags_ok_def by blast
    have b16: "x < 16 \<longleftrightarrow> take_bit 4 x = x" for x :: nat by (simp add: take_bit_nat_eq_self_iff)
    have "take_bit 4 ?w = ?w" by (simp add: take_bit_push_bit)
    then have w: "v OR ?w < 16" using v(1) unfolding b16 by (simp add: take_bit_or)
    have bits: "\<forall>b < 4. bit (v OR ?w) b \<longleftrightarrow> 4 * ?d + b < Suc k \<and> P (4 * ?d + b)"
      using v(3) k [of _ ?d] True by (auto simp: bit_or_iff bit_exp_iff)
    have "\<exists>u < 16. s[?d := hex_digit (digit_value (s ! ?d) OR ?w)] ! d = hex_digit u \<and>
        (\<forall>b < 4. bit u b \<longleftrightarrow> 4 * d + b < Suc k \<and> P (4 * d + b))" if "d < m" for d
    proof (cases "d = ?d")
      case True
      with w bits v assms show ?thesis by (intro exI [of _ "v OR ?w"]) (simp add: flags_ok_def digit_value_hex)
    next
      case False
      with other [OF that] show ?thesis by simp
    qed
    with True assms(1) show ?thesis by (simp add: flags_ok_def)
  qed
qed

lemma save_fold:
  assumes "n \<le> 4 * m"
  shows "flags_ok (is_off cheats) n m (snd (fold (save_step cheats m) [0..<n] (False, replicate m (CHR ''0'')))) \<and>
    (fst (fold (save_step cheats m) [0..<n] (False, replicate m (CHR ''0''))) \<longleftrightarrow> (\<exists>i < n. is_off cheats i))"
  using assms
proof (induction n)
  case 0
  then show ?case by (simp add: flags_ok_0)
next
  case (Suc n)
  define s where "s = fold (save_step cheats m) [0..<n] (False, replicate m (CHR ''0''))"
  have m: "n div 4 < m" using Suc.prems by simp
  from Suc have IH: "flags_ok (is_off cheats) n m (snd s)" "fst s \<longleftrightarrow> (\<exists>i < n. is_off cheats i)" by (auto simp: s_def)
  have "fold (save_step cheats m) [0..<Suc n] (False, replicate m (CHR ''0'')) = save_step cheats m n s" by (simp add: s_def)
  moreover have "flags_ok (is_off cheats) (Suc n) m (snd (save_step cheats m n s))"
    using flags_ok_step [OF IH(1) m] m by (cases "is_off cheats n") (simp_all add: save_step_def)
  moreover have "fst (save_step cheats m n s) \<longleftrightarrow> (\<exists>i < Suc n. is_off cheats i)"
    using IH(2) by (auto simp: save_step_def less_Suc_eq)
  ultimately show ?case by simp
qed

lemma disabled_loop_flags:
  assumes "\<forall>j. i \<le> j \<and> j < i + n \<longrightarrow> (\<exists>v. hex_of (val ! (j div 4)) = Some v \<and> (bit v (j mod 4) \<longleftrightarrow> P j))" "i + n \<le> length cheats"
  shows "disabled_loop val i n cheats =
    map (\<lambda>j. if i \<le> j \<and> j < i + n then (cheats ! j)\<lparr>ch_enabled := \<not> P j\<rparr> else cheats ! j) [0..<length cheats]"
  using assms
proof (induction n arbitrary: i cheats)
  case 0
  then show ?case by (intro nth_equalityI) auto
next
  case (Suc n)
  obtain v where v: "hex_of (val ! (i div 4)) = Some v" "bit v (i mod 4) \<longleftrightarrow> P i" using Suc.prems(1) by fastforce
  have "disabled_loop val i (Suc n) cheats = disabled_loop val (i + 1) n (set_enabled i (\<not> P i) cheats)" using v by simp
  also have "\<dots> = map (\<lambda>j. if i + 1 \<le> j \<and> j < i + 1 + n then (set_enabled i (\<not> P i) cheats ! j)\<lparr>ch_enabled := \<not> P j\<rparr>
      else set_enabled i (\<not> P i) cheats ! j) [0..<length (set_enabled i (\<not> P i) cheats)]"
    using Suc.prems by (intro Suc.IH) (simp_all add: set_enabled_def)
  finally show ?case using Suc.prems(2) by (auto simp: set_enabled_def nth_list_update)
qed

section \<open>Parsing: lemmas\<close>

definition load_inv :: "load_st \<Rightarrow> bool" where
  "load_inv s \<longleftrightarrow> length (ls_cheats s) = MAX_CODES \<and>
     (\<forall>c \<in> set (ls_cheats s). length (ch_codes c) = MAX_CHEATLIST \<and> (ch_name c \<noteq> [] \<longrightarrow> ch_enabled c)) \<and>
     (\<forall>i. ls_cheat s = Some i \<longrightarrow> i < MAX_CODES)"

lemma cheat_line_inv:
  assumes "load_inv s"
  shows "\<exists>s'. cheat_line line s = Inr s' \<and> load_inv s'"
proof -
  have mem: "i < MAX_CODES \<Longrightarrow> ls_cheats s ! i \<in> set (ls_cheats s)" for i
    using assms by (simp add: load_inv_def)
  show ?thesis
  proof (cases "strip_line line = [] \<or> (case scan_code (strip_line line) [] of (is_code, hex) \<Rightarrow> is_code \<and> length hex = 16)")
    case True
    show ?thesis
    proof (cases "strip_line line \<noteq> [] \<and> ls_cheat s \<noteq> None \<and> ls_code s < MAX_CHEATLIST")
      case False
      with True assms show ?thesis by (cases "ls_cheat s") (auto simp: cheat_line_def Let_def split: prod.splits)
    next
      case code: True
      then obtain i where i: "ls_cheat s = Some i" "i < MAX_CODES" using assms by (auto simp: load_inv_def)
      with mem assms have c: "length (ch_codes (ls_cheats s ! i)) = MAX_CHEATLIST"
          "ch_name (ls_cheats s ! i) \<noteq> [] \<longrightarrow> ch_enabled (ls_cheats s ! i)" "i < length (ls_cheats s)"
        by (auto simp: load_inv_def)
      with True code i assms show ?thesis
        by (auto simp: cheat_line_def Let_def load_inv_def split: prod.splits dest!: set_update_subset_insert [THEN subsetD])
    qed
  next
    case False
    then obtain ic hex where h: "scan_code (strip_line line) [] = (ic, hex)" "\<not> (ic \<and> length hex = 16)" "strip_line line \<noteq> []"
      by (auto split: prod.splits)
    define i where "i = (case ls_cheat s of Some i \<Rightarrow> i + 1 | None \<Rightarrow> 0)"
    show ?thesis
    proof (cases "i < MAX_CODES")
      case True
      with mem assms have c: "length (ch_codes (ls_cheats s ! i)) = MAX_CHEATLIST" "i < length (ls_cheats s)"
        by (auto simp: load_inv_def)
      from h True c assms show ?thesis
        by (auto simp: cheat_line_def Let_def i_def [symmetric] load_inv_def dest!: set_update_subset_insert [THEN subsetD])
    next
      case False
      with h assms show ?thesis by (auto simp: cheat_line_def Let_def i_def [symmetric])
    qed
  qed
qed

lemma cheat_lines_inv: "load_inv s \<Longrightarrow> \<exists>s'. cheat_lines p s = Inr s' \<and> load_inv s'"
proof (induction p s rule: cheat_lines.induct)
  case (1 p s)
  show ?case
  proof (cases "p = []")
    case True
    with "1.prems" show ?thesis by (simp add: cheat_lines.simps)
  next
    case False
    show ?thesis
    proof (cases "strchr p LF")
      case None
      with False cheat_line_inv [OF "1.prems"] show ?thesis by (simp add: cheat_lines.simps)
    next
      case (Some i)
      obtain s1 where "cheat_line (take i p) s = Inr s1" "load_inv s1" using cheat_line_inv [OF "1.prems"] by blast
      with False Some "1.IH" [OF False Some] show ?thesis by (subst cheat_lines.simps) simp
    qed
  qed
qed

lemma enable_masters_keep:
  assumes "\<forall>c \<in> set cheats. ch_name c \<noteq> [] \<longrightarrow> ch_enabled c" "n \<le> length cheats"
  shows "enable_masters n cheats = cheats"
  using assms(2)
proof (induction n)
  case (Suc n)
  then have "enable_masters n cheats = cheats" and n: "n < length cheats" by simp_all
  moreover have "set_enabled n True cheats = cheats" if "ch_name (cheats ! n) \<noteq> []"
  proof -
    have "(cheats ! n)\<lparr>ch_enabled := True\<rparr> = cheats ! n" using assms(1) that n by simp
    then show ?thesis by (simp add: set_enabled_def)
  qed
  ultimately show ?case by (auto simp: is_master_cheat_def Let_def split: if_splits)
qed simp

subsection \<open>A well-formed cheat file\<close>

type_synonym cheat_text = "string \<times> (string \<times> string) list"

definition digits8 :: "string \<Rightarrow> bool" where
  "digits8 d \<longleftrightarrow> length d = 8 \<and> (\<forall>c \<in> set d. isxdigit c)"

definition title_ok :: "string \<Rightarrow> bool" where
  "title_ok n \<longleftrightarrow> n \<noteq> [] \<and> length n \<le> CHEAT_NAME_MAX \<and> cstring n \<and> LF \<notin> set n \<and> strip_line n = n \<and>
     \<not> (fst (scan_code n []) \<and> length (snd (scan_code n [])) = 16)"

definition cheat_ok :: "cheat_text \<Rightarrow> bool" where
  "cheat_ok c \<longleftrightarrow> title_ok (fst c) \<and> length (snd c) \<le> MAX_CHEATLIST \<and> (\<forall>(a, v) \<in> set (snd c). digits8 a \<and> digits8 v)"

definition code_line :: "string \<times> string \<Rightarrow> string" where
  "code_line x = fst x @ '' '' @ snd x @ [LF]"

definition cheat_block :: "cheat_text \<Rightarrow> string" where
  "cheat_block c = fst c @ [LF] @ concat (map code_line (snd c))"

definition loaded_cheat :: "cheat_text \<Rightarrow> cheat_entry" where
  "loaded_cheat c = \<lparr>ch_name = fst c,
     ch_codes = map (\<lambda>(a, v). (of_nat (strtoul16 a), of_nat (strtoul16 v))) (snd c) @ replicate (MAX_CHEATLIST - length (snd c)) (0, 0),
     ch_enabled = True\<rparr>"

lemma xdigit_plain: "isxdigit c \<Longrightarrow> \<not> isspace c \<and> c \<noteq> NUL \<and> c \<noteq> LF \<and> c \<noteq> CR \<and> c \<noteq> CHR ''#'' \<and> c \<noteq> CHR ''/''"
  by (auto simp: isxdigit_def isdigit_def isspace_def code_def)

lemma strstr_none: "CHR ''/'' \<notin> set s \<Longrightarrow> strstr_slashes s = None"
  by (induction s) auto

lemma scan_code_digits:
  "\<forall>c \<in> set d. isxdigit c \<Longrightarrow> length d + length h \<le> 16 \<Longrightarrow> scan_code (d @ s) h = scan_code s (h @ d)"
  by (induction d arbitrary: h) auto

lemma code_text:
  assumes "digits8 a" "digits8 v"
  shows "strip_line (a @ '' '' @ v) = a @ '' '' @ v" and "scan_code (a @ '' '' @ v) [] = (True, a @ v)"
    and "LF \<notin> set (a @ '' '' @ v)" and "cstring (a @ '' '' @ v)"
proof -
  have p: "\<forall>c \<in> set (a @ '' '' @ v). c \<noteq> NUL \<and> c \<noteq> LF \<and> c \<noteq> CR \<and> c \<noteq> CHR ''#'' \<and> c \<noteq> CHR ''/''"
    using assms xdigit_plain by (auto simp: digits8_def)
  then show "LF \<notin> set (a @ '' '' @ v)" "cstring (a @ '' '' @ v)" by (auto simp: cstring_def)
  obtain x a' where a: "a = x # a'" "isxdigit x" using assms(1) by (cases a) (auto simp: digits8_def)
  obtain v' y where v: "v = v' @ [y]" "isxdigit y" using assms(2) by (cases v rule: rev_cases) (auto simp: digits8_def)
  have "takeWhile (\<lambda>c. c \<noteq> CHR ''#'') (a @ '' '' @ v) = a @ '' '' @ v" "takeWhile (\<lambda>c. c \<noteq> CR) (a @ '' '' @ v) = a @ '' '' @ v"
    using p by (auto simp: takeWhile_eq_all_conv simp del: takeWhile_append)
  moreover have "strstr_slashes (a @ '' '' @ v) = None" using p by (intro strstr_none) blast
  moreover have "dropWhile isspace (a @ '' '' @ v) = a @ '' '' @ v" using a xdigit_plain by simp
  moreover have "dropWhile isspace (rev (a @ '' '' @ v)) = rev (a @ '' '' @ v)" using v xdigit_plain by simp
  ultimately show "strip_line (a @ '' '' @ v) = a @ '' '' @ v" by (simp only: strip_line_def Let_def option.case rev_rev_ident)
  have "\<not> isxdigit (CHR '' '')" "isspace (CHR '' '')" by (simp_all add: isxdigit_def isdigit_def isspace_def code_def)
  then have "scan_code (a @ '' '' @ v) [] = scan_code v a"
    using assms(1) scan_code_digits [of a "[]" "'' '' @ v"] by (simp add: digits8_def)
  then show "scan_code (a @ '' '' @ v) [] = (True, a @ v)"
    using assms scan_code_digits [of v a "[]"] by (simp add: digits8_def)
qed

lemma cheat_lines_first:
  assumes "LF \<notin> set l"
  shows "cheat_lines (l @ [LF] @ rest) s = c_bind (cheat_line l s) (cheat_lines rest)"
  using strchr_append [OF assms, of rest] by (subst cheat_lines.simps) simp

lemma cheat_lines_codes:
  assumes "\<forall>(a, v) \<in> set cds. digits8 a \<and> digits8 v" "length (d @ cds) \<le> MAX_CHEATLIST" "length pre < MAX_CODES"
  shows "cheat_lines (concat (map code_line cds) @ rest)
      \<lparr>ls_cheats = pre @ loaded_cheat (n, d) # post, ls_cheat = Some (length pre), ls_code = length d\<rparr> =
    cheat_lines rest \<lparr>ls_cheats = pre @ loaded_cheat (n, d @ cds) # post, ls_cheat = Some (length pre), ls_code = length (d @ cds)\<rparr>"
  using assms
proof (induction cds arbitrary: d)
  case (Cons x cds)
  obtain a v where x: "x = (a, v)" by fastforce
  with Cons.prems have av: "digits8 a" "digits8 v" by auto
  note t = code_text [OF av]
  have len: "length d < MAX_CHEATLIST" "length a = 8" "length v = 8" using Cons.prems(2) av by (simp_all add: digits8_def)
  have cl: "cheat_line (a @ '' '' @ v) \<lparr>ls_cheats = pre @ loaded_cheat (n, d) # post, ls_cheat = Some (length pre), ls_code = length d\<rparr> =
      Inr \<lparr>ls_cheats = pre @ loaded_cheat (n, d @ [x]) # post, ls_cheat = Some (length pre), ls_code = length (d @ [x])\<rparr>"
  proof -
    obtain m where m: "MAX_CHEATLIST - length d = Suc m" "m = MAX_CHEATLIST - length (d @ [x])"
      using len(1) by (auto intro!: that [of "509 - length d"])
    show ?thesis unfolding cheat_line_def Let_def t(1,2)
      using len m by (simp add: loaded_cheat_def x list_update_append)
  qed
  have "concat (map code_line (x # cds)) @ rest = (a @ '' '' @ v) @ [LF] @ concat (map code_line cds) @ rest"
    by (simp add: code_line_def x)
  note eq = this
  have "cheat_lines (concat (map code_line (x # cds)) @ rest)
      \<lparr>ls_cheats = pre @ loaded_cheat (n, d) # post, ls_cheat = Some (length pre), ls_code = length d\<rparr> =
      cheat_lines (concat (map code_line cds) @ rest)
      \<lparr>ls_cheats = pre @ loaded_cheat (n, d @ [x]) # post, ls_cheat = Some (length pre), ls_code = length (d @ [x])\<rparr>"
    unfolding eq cheat_lines_first [OF t(3)] cl by simp
  also have "\<dots> = cheat_lines rest \<lparr>ls_cheats = pre @ loaded_cheat (n, (d @ [x]) @ cds) # post, ls_cheat = Some (length pre), ls_code = length ((d @ [x]) @ cds)\<rparr>"
    using Cons.prems by (intro Cons.IH) auto
  finally show ?case by simp
qed simp

definition cheats_of :: "cheat_text list \<Rightarrow> cheat_entry list" where
  "cheats_of cs = map loaded_cheat cs @ replicate (MAX_CODES - length cs) blank_cheat"

lemma cheat_lines_file:
  assumes "\<forall>c \<in> set cs. cheat_ok c" "length (d @ cs) \<le> MAX_CODES"
  shows "\<exists>k. cheat_lines (concat (map cheat_block cs))
      \<lparr>ls_cheats = cheats_of d, ls_cheat = (if d = [] then None else Some (length d - 1)), ls_code = j\<rparr> =
    Inr \<lparr>ls_cheats = cheats_of (d @ cs), ls_cheat = (if d @ cs = [] then None else Some (length (d @ cs) - 1)), ls_code = k\<rparr>"
  using assms
proof (induction cs arbitrary: d j)
  case (Cons c cs)
  obtain n cds where c: "c = (n, cds)" by fastforce
  with Cons.prems have ok: "title_ok n" "length cds \<le> MAX_CHEATLIST" "\<forall>(a, v) \<in> set cds. digits8 a \<and> digits8 v"
    by (auto simp: cheat_ok_def)
  define post where "post = replicate (MAX_CODES - length (d @ [c])) blank_cheat"
  have d: "cheats_of d = map loaded_cheat d @ blank_cheat # post" "length d < MAX_CODES"
  proof -
    have "MAX_CODES - length d = Suc (MAX_CODES - length (d @ [c]))" using Cons.prems(2) by simp
    then show "cheats_of d = map loaded_cheat d @ blank_cheat # post" by (simp add: cheats_of_def post_def)
    show "length d < MAX_CODES" using Cons.prems(2) by simp
  qed
  have blank: "blank_cheat\<lparr>ch_name := take CHEAT_NAME_MAX n, ch_enabled := True\<rparr> = loaded_cheat (n, [])"
    using ok(1) by (simp add: blank_cheat_def loaded_cheat_def title_ok_def)
  have "cheat_line n \<lparr>ls_cheats = cheats_of d, ls_cheat = (if d = [] then None else Some (length d - 1)), ls_code = j\<rparr> =
      Inr \<lparr>ls_cheats = map loaded_cheat d @ loaded_cheat (n, []) # post, ls_cheat = Some (length d), ls_code = 0\<rparr>"
    using ok(1) d blank unfolding cheat_line_def Let_def title_ok_def
    by (auto simp: case_prod_beta list_update_append nth_append)
  moreover have "LF \<notin> set n" using ok(1) by (simp add: title_ok_def)
  moreover have "concat (map cheat_block (c # cs)) = n @ [LF] @ concat (map code_line cds) @ concat (map cheat_block cs)"
    by (simp add: cheat_block_def c)
  ultimately have "cheat_lines (concat (map cheat_block (c # cs)))
      \<lparr>ls_cheats = cheats_of d, ls_cheat = (if d = [] then None else Some (length d - 1)), ls_code = j\<rparr> =
      cheat_lines (concat (map code_line cds) @ concat (map cheat_block cs))
      \<lparr>ls_cheats = map loaded_cheat d @ loaded_cheat (n, []) # post, ls_cheat = Some (length d), ls_code = 0\<rparr>"
    using cheat_lines_first by simp
  also have "\<dots> = cheat_lines (concat (map cheat_block cs))
      \<lparr>ls_cheats = map loaded_cheat d @ loaded_cheat (n, cds) # post, ls_cheat = Some (length d), ls_code = length cds\<rparr>"
    using cheat_lines_codes [of cds "[]" "map loaded_cheat d"] ok d(2) by simp
  also have "map loaded_cheat d @ loaded_cheat (n, cds) # post = cheats_of (d @ [c])" by (simp add: cheats_of_def post_def c)
  finally show ?case using Cons.IH [of "d @ [c]" "length cds"] Cons.prems by simp
qed (simp add: cheat_lines.simps)

section \<open>Properties\<close>

lemma set_cheats_list_eq:
  "set_cheats_list st = Inr (st\<lparr>gCheatList := flat (take 254 (active_codes (gCheats st))) @
     replicate (MAX_CHEATLIST - 2 * length (take 254 (active_codes (gCheats st)))) 0\<rparr>)"
proof (cases "GetCheatsCount (gCheats st) = 0")
  case True
  have "(replicate MAX_CHEATLIST 0)[0 := 0, Suc 0 := 0] = replicate MAX_CHEATLIST (0 :: u32)"
    by (intro nth_equalityI) (auto simp: nth_list_update)
  with True show ?thesis by (simp add: set_cheats_list_def flat_def active_codes_def)
next
  case False
  define xs where "xs = take 254 (active_codes (gCheats st))"
  have n: "length xs \<le> 254" by (simp add: xs_def)
  have "put_cheats (gCheats st) [0..<GetCheatsCount (gCheats st)] (0, replicate MAX_CHEATLIST 0) = Inr (engine_list xs)"
    using put_cheats_list [of "[]" "gCheats st"] by (simp add: xs_def engine_list_def flat_def active_codes_def)
  moreover have "(flat xs @ replicate (MAX_CHEATLIST - 2 * length xs) 0)[2 * length xs := 0, 2 * length xs + 1 := 0] =
      flat xs @ replicate (MAX_CHEATLIST - 2 * length xs) 0"
    using n by (intro nth_equalityI) (auto simp: nth_list_update nth_append length_flat)
  ultimately show ?thesis using False n
    by (simp add: set_cheats_list_def engine_list_def length_flat xs_def [symmetric])
qed

text \<open>C20: the list handed to the cheat engine holds exactly the codes of the cheats that are not switched
  off, in order, each cheat up to its first zero address, cut at the 254 codes that fit before the
  terminator, and is zero from there on; no write leaves the array.\<close>

theorem set_cheats_list_codes:
  "set_cheats_list st = Inr (st\<lparr>gCheatList := flat (take 254 (active_codes (gCheats st))) @
     replicate (MAX_CHEATLIST - 2 * length (take 254 (active_codes (gCheats st)))) 0\<rparr>)"
  by (rule set_cheats_list_eq)

text \<open>Which cheats are switched off survives the configuration: after saving, loading the settings
  into the same cheats gives every cheat its flag back; the mandatory master codes and the unused slots
  are on.\<close>

theorem save_load_cheats:
  assumes "config_ok cs" and "length (gCheats st) = MAX_CODES"
    and "save_cheats (Some cs) st = Some cs'" and "0 < GetCheatsCount (gCheats st)"
  shows "gCheats (load_cheats_config (Some cs') st) =
    map (\<lambda>i. (gCheats st ! i)\<lparr>ch_enabled := \<not> (i < GetCheatsCount (gCheats st) \<and> is_off (gCheats st) i)\<rparr>) [0..<MAX_CODES]"
proof -
  define n where "n = GetCheatsCount (gCheats st)"
  define m where "m = (n + 3) div 4"
  have n: "n \<le> MAX_CODES" unfolding n_def GetCheatsCount_def by (rule order_trans [OF length_takeWhile_le]) simp
  then have m: "min 64 ((n + 3) div 4) = m" "m \<le> 63" "n \<le> 4 * m" "0 < m" using assms(4) by (auto simp: m_def n_def [symmetric])
  obtain any hex where f: "fold (save_step (gCheats st) m) [0..<n] (False, replicate m (CHR ''0'')) = (any, hex)" by fastforce
  from save_fold [OF m(3), of "gCheats st"] have fl: "flags_ok (is_off (gCheats st)) n m hex" "any \<longleftrightarrow> (\<exists>i < n. is_off (gCheats st) i)"
    by (simp_all add: f)
  have key: "key_ok ''$CheatDisabled''" by (simp add: key_ok_def configKeyValidate_def)
  let ?on = "map (\<lambda>c. c\<lparr>ch_enabled := True\<rparr>) (gCheats st)"
  show ?thesis
  proof (cases any)
    case True
    have cs': "cs' = snd (configSetStr cs ''$CheatDisabled'' hex)"
      using assms(3,4) True f m by (simp add: save_cheats_def Let_def n_def [symmetric])
    have hl: "length hex = m" using fl(1) by (simp add: flags_ok_def)
    have get: "configGetStr cs' ''$CheatDisabled'' = Some hex"
      using configSetStr_refines [OF assms(1) key, of hex] configGetStr_map hl m(2)
      by (simp add: cs' strncpy_z_id)
    have flag: "\<exists>v. hex_of (hex ! (j div 4)) = Some v \<and> (bit v (j mod 4) \<longleftrightarrow> j < n \<and> is_off (gCheats st) j)" if "j < 4 * m" for j
    proof -
      have "j div 4 < m" using that by simp
      then obtain v where "v < 16" "hex ! (j div 4) = hex_digit v" "\<forall>b < 4. bit v b \<longleftrightarrow> 4 * (j div 4) + b < n \<and> is_off (gCheats st) (4 * (j div 4) + b)"
        using fl(1) unfolding flags_ok_def by blast
      then show ?thesis by (intro exI [of _ v]) (simp add: digit_value_hex)
    qed
    have "gCheats (load_cheats_config (Some cs') st) = disabled_loop hex 0 (min MAX_CODES (m * 4)) ?on"
      using get hl by (simp add: load_cheats_config_def Let_def)
    also have "\<dots> = map (\<lambda>j. if 0 \<le> j \<and> j < 0 + min MAX_CODES (m * 4)
        then (?on ! j)\<lparr>ch_enabled := \<not> (j < n \<and> is_off (gCheats st) j)\<rparr> else ?on ! j) [0..<length ?on]"
      using flag assms(2) by (intro disabled_loop_flags) auto
    finally show ?thesis using assms(2) m(3) n by (auto simp: n_def [symmetric])
  next
    case False
    have "cs' = snd (configRemoveKey cs ''$CheatDisabled'')"
      using assms(3,4) False f m by (simp add: save_cheats_def Let_def n_def [symmetric])
    then have "configGetStr cs' ''$CheatDisabled'' = None"
      using configRemoveKey_refines [OF assms(1), of "''$CheatDisabled''"] key configGetStr_map by (simp add: key_ok_def)
    moreover have "\<forall>i < n. \<not> is_off (gCheats st) i" using False fl(2) by blast
    ultimately show ?thesis using assms(2)
      by (intro nth_equalityI) (auto simp: load_cheats_config_def Let_def n_def [symmetric])
  qed
qed

definition demo_cheats :: cheat_state where
  "demo_cheats = \<lparr>gCheats = blank_cheat\<lparr>ch_name := ''Speed''\<rparr> # replicate 249 blank_cheat, gCheatList = replicate MAX_CHEATLIST 0,
     gEnableCheat = 1, gCheatMode = 0\<rparr>"

definition demo_config :: config_set where
  "demo_config = \<lparr>cs_type = 0, cs_items = [], cs_filename = None, cs_modified = False, cs_uid = 1\<rparr>"

theorem save_load_cheats_witness:
  "\<exists>cs'. save_cheats (Some demo_config) demo_cheats = Some cs' \<and>
    gCheats (load_cheats_config (Some cs') demo_cheats) =
      map (\<lambda>i. (gCheats demo_cheats ! i)\<lparr>ch_enabled := \<not> (i < GetCheatsCount (gCheats demo_cheats) \<and> is_off (gCheats demo_cheats) i)\<rparr>) [0..<MAX_CODES]"
proof -
  have n: "0 < GetCheatsCount (gCheats demo_cheats)" by (simp add: GetCheatsCount_def demo_cheats_def)
  then have "\<exists>cs'. save_cheats (Some demo_config) demo_cheats = Some cs'" by (simp add: save_cheats_def Let_def case_prod_beta)
  then obtain cs' where "save_cheats (Some demo_config) demo_cheats = Some cs'" by blast
  moreover from this n have "gCheats (load_cheats_config (Some cs') demo_cheats) =
      map (\<lambda>i. (gCheats demo_cheats ! i)\<lparr>ch_enabled := \<not> (i < GetCheatsCount (gCheats demo_cheats) \<and> is_off (gCheats demo_cheats) i)\<rparr>) [0..<MAX_CODES]"
    by (intro save_load_cheats [of demo_config]) (simp_all add: demo_config_def config_ok_def demo_cheats_def)
  ultimately show ?thesis by blast
qed

lemma load_cheats_text:
  assumes "\<forall>c \<in> set cs. cheat_ok c" and "cs \<noteq> []" and "length cs \<le> MAX_CODES"
    and "openFile ut path O_RDONLY = Inr (Some (concat (map cheat_block cs)), path1, ut1)"
  shows "load_cheats True ut path st = Inr (if 0 < gCheatMode st then 1 else 0, st\<lparr>gCheats := cheats_of cs\<rparr>, ut1)"
proof -
  have nn: "concat (map cheat_block cs) \<noteq> []" using assms(2) by (cases cs) (auto simp: cheat_block_def)
  have code: "cstring (code_line x)" if "digits8 (fst x)" "digits8 (snd x)" for x
    using code_text(4) [OF that] by (simp add: code_line_def)
  have "cstring (cheat_block c)" if "cheat_ok c" for c
  proof -
    have "\<forall>x \<in> set (snd c). cstring (code_line x)" using that code by (auto simp: cheat_ok_def)
    then have "cstring (concat (map code_line (snd c)))" by (auto simp: cstring_def)
    with that show ?thesis by (simp add: cheat_block_def cheat_ok_def title_ok_def)
  qed
  then have "cstring (concat (map cheat_block cs))" using assms(1) by (auto simp: cstring_def)
  then have tw: "takeWhile (\<lambda>c. c \<noteq> NUL) (concat (map cheat_block cs)) = concat (map cheat_block cs)"
    unfolding takeWhile_eq_all_conv cstring_def by blast
  obtain k where k: "cheat_lines (concat (map cheat_block cs)) \<lparr>ls_cheats = replicate MAX_CODES blank_cheat, ls_cheat = None, ls_code = 0\<rparr> =
      Inr \<lparr>ls_cheats = cheats_of cs, ls_cheat = Some (length cs - 1), ls_code = k\<rparr>"
    using cheat_lines_file [of cs "[]" 0] assms by (auto simp: cheats_of_def)
  have "enable_masters (length cs - 1 + 1) (cheats_of cs) = cheats_of cs"
    using assms(3) by (intro enable_masters_keep) (auto simp: cheats_of_def loaded_cheat_def blank_cheat_def)
  with nn assms(2,4) show ?thesis by (simp add: load_cheats_def Let_def tw k)
qed

text \<open>A well-formed cheat file is loaded as written: the cheats in order, each with its title and its
  codes, all switched on, the rest of the table empty.\<close>

theorem load_cheats_file:
  assumes "\<forall>c \<in> set cs. cheat_ok c" and "cs \<noteq> []" and "length cs \<le> MAX_CODES"
    and "openFile ut path O_RDONLY = Inr (Some (concat (map cheat_block cs)), path1, ut1)"
  shows "load_cheats True ut path st = Inr (if 0 < gCheatMode st then 1 else 0, st\<lparr>gCheats := cheats_of cs\<rparr>, ut1)"
  using assms by (rule load_cheats_text)

definition cheat_file :: "cheat_text list" where
  "cheat_file = [(''Speed'', [(''2012ABCD'', ''00000001'')])]"

definition cheat_disk :: util_state where
  "cheat_disk = \<lparr>mcID = -1, ut_fs = \<lparr>fs_file = [''x.cht'' \<mapsto> concat (map cheat_block cheat_file)], fs_dir = (\<lambda>_. False), fs_writable = (\<lambda>_. False)\<rparr>\<rparr>"

lemma cheat_disk_open: "openFile cheat_disk ''x.cht'' O_RDONLY = Inr (Some (concat (map cheat_block cheat_file)), ''x.cht'', cheat_disk)"
  by (simp add: openFile_def checkFile_def cheat_disk_def open_file_def)

theorem load_cheats_file_witness:
  "load_cheats True cheat_disk ''x.cht'' demo_cheats =
    Inr (if 0 < gCheatMode demo_cheats then 1 else 0, demo_cheats\<lparr>gCheats := cheats_of cheat_file\<rparr>, cheat_disk)"
proof -
  have "\<forall>c \<in> set cheat_file. cheat_ok c"
    by (simp add: cheat_file_def cheat_ok_def title_ok_def digits8_def strip_line_def isspace_def isxdigit_def isdigit_def code_def)
  then show ?thesis by (rule load_cheats_file [OF _ _ _ cheat_disk_open]) (simp_all add: cheat_file_def)
qed

text \<open>The saved flags have no effect at a launch: the settings are read before the cheat file, and
  reading the file clears the table and switches every cheat on, whatever the configuration says.\<close>

theorem saved_flags_ignored:
  assumes "openFile ut path O_RDONLY = Inr (fd, path1, ut1)"
  shows "\<exists>r st'. load_cheats io_ok ut path (InitCheatsConfig cfg configSet st) = Inr (r, st', ut1) \<and>
    (\<forall>i < GetCheatsCount (gCheats st'). \<not> is_off (gCheats st') i)"
proof -
  let ?st = "(InitCheatsConfig cfg configSet st)\<lparr>gCheats := replicate MAX_CODES blank_cheat\<rparr>"
  have on: "\<forall>i < GetCheatsCount l. \<not> is_off l i" if "\<forall>c \<in> set l. ch_name c \<noteq> [] \<longrightarrow> ch_enabled c" "length l = MAX_CODES" for l
  proof (intro allI impI)
    fix i assume i: "i < GetCheatsCount l"
    then have "takeWhile (\<lambda>c. ch_name c \<noteq> []) (take MAX_CODES l) ! i \<in> set (takeWhile (\<lambda>c. ch_name c \<noteq> []) (take MAX_CODES l))"
      unfolding GetCheatsCount_def by (rule nth_mem)
    moreover have "takeWhile (\<lambda>c. ch_name c \<noteq> []) (take MAX_CODES l) ! i = l ! i"
      using i that(2) by (simp add: GetCheatsCount_def takeWhile_nth)
    ultimately show "\<not> is_off l i" using that(1) by (auto simp: is_off_def dest!: set_takeWhileD in_set_takeD)
  qed
  have blank: "\<forall>c \<in> set (replicate MAX_CODES blank_cheat). ch_name c \<noteq> [] \<longrightarrow> ch_enabled c" by (simp add: blank_cheat_def)
  have inv: "load_inv \<lparr>ls_cheats = replicate MAX_CODES blank_cheat, ls_cheat = None, ls_code = 0\<rparr>"
    by (simp add: load_inv_def blank_cheat_def)
  show ?thesis
  proof (cases "\<exists>content. fd = Some content \<and> content \<noteq> [] \<and> io_ok")
    case False
    then have "load_cheats io_ok ut path (InitCheatsConfig cfg configSet st) = Inr (-1, ?st, ut1)"
      using assms by (auto simp: load_cheats_def Let_def split: option.splits)
    with on [OF blank] show ?thesis by simp
  next
    case True
    then obtain content where c: "fd = Some content" "content \<noteq> []" io_ok by blast
    obtain s where s: "cheat_lines (takeWhile (\<lambda>c. c \<noteq> NUL) content) \<lparr>ls_cheats = replicate MAX_CODES blank_cheat, ls_cheat = None, ls_code = 0\<rparr> = Inr s"
      "load_inv s" using cheat_lines_inv [OF inv] by blast
    have e: "\<forall>c \<in> set (ls_cheats s). ch_name c \<noteq> [] \<longrightarrow> ch_enabled c" "length (ls_cheats s) = MAX_CODES"
      using s(2) by (auto simp: load_inv_def)
    have "enable_masters (i + 1) (ls_cheats s) = ls_cheats s" if "ls_cheat s = Some i" for i
      using e s(2) that by (intro enable_masters_keep) (auto simp: load_inv_def)
    with c s assms on [OF e] show ?thesis by (cases "ls_cheat s") (simp_all add: load_cheats_def Let_def)
  qed
qed

theorem saved_flags_ignored_witness:
  "\<exists>r st'. load_cheats True cheat_disk ''x.cht'' (InitCheatsConfig
      \<lparr>configFiles = [], currentUID = 0, legacyNetConfigPath = [], cfgDevice = []\<rparr> (Some demo_config) demo_cheats) = Inr (r, st', cheat_disk) \<and>
    (\<forall>i < GetCheatsCount (gCheats st'). \<not> is_off (gCheats st') i)"
  by (rule saved_flags_ignored [OF cheat_disk_open])

end
