(* ===== verification/Pad.thy ===== *)
theory Pad
  imports CPrelude
begin

text \<open>
  The controllers of \<open>src/pad.c\<close>: starting and initialising the pads, reading them once per frame, merging
  the players, and the keys with their repeat.  What the pad library answers is a record per pad: the
  sequence of states \<open>padGetState\<close> reports, the mode table, and what the reads deliver.
\<close>

section \<open>State\<close>

abbreviation MAX_PADS :: nat where "MAX_PADS \<equiv> 4"
abbreviation PAD_CONTROLLER_COUNT :: nat where "PAD_CONTROLLER_COUNT \<equiv> 4"
abbreviation CLOCKS_PER_MILISEC :: u32 where "CLOCKS_PER_MILISEC \<equiv> 147456"
abbreviation DEFAULT_PAD_DELAY :: int where "DEFAULT_PAD_DELAY \<equiv> 200"

abbreviation PAD_STATE_DISCONN :: int where "PAD_STATE_DISCONN \<equiv> 0"
abbreviation PAD_STATE_FINDCTP1 :: int where "PAD_STATE_FINDCTP1 \<equiv> 2"
abbreviation PAD_STATE_STABLE :: int where "PAD_STATE_STABLE \<equiv> 6"
abbreviation PAD_TYPE_DUALSHOCK :: int where "PAD_TYPE_DUALSHOCK \<equiv> 7"

abbreviation PAD_CONTROLLER_SOURCE_NONE :: int where "PAD_CONTROLLER_SOURCE_NONE \<equiv> 0"
abbreviation PAD_CONTROLLER_SOURCE_PS2 :: int where "PAD_CONTROLLER_SOURCE_PS2 \<equiv> 1"
abbreviation PAD_CONTROLLER_SOURCE_XBOX :: int where "PAD_CONTROLLER_SOURCE_XBOX \<equiv> 3"

abbreviation PAD_LEFT :: u32 where "PAD_LEFT \<equiv> 0x80"
abbreviation PAD_DOWN :: u32 where "PAD_DOWN \<equiv> 0x40"
abbreviation PAD_RIGHT :: u32 where "PAD_RIGHT \<equiv> 0x20"
abbreviation PAD_UP :: u32 where "PAD_UP \<equiv> 0x10"

text \<open>The table from key numbers to button bits; entry 0 is \<open>-1\<close>.\<close>

definition keyToPad :: "u32 list" where
  "keyToPad = [-1, PAD_LEFT, PAD_DOWN, PAD_RIGHT, PAD_UP, 0x8, 0x4, 0x2, 0x1, 0x8000, 0x4000, 0x2000, 0x1000, 0x800, 0x400, 0x200, 0x100]"

record pad_buttons =
  pb_mode :: u8
  pb_btns :: u16
  pb_ljoy_h :: u8
  pb_ljoy_v :: u8

record pad_data =
  pd_port :: nat
  pd_slot :: nat
  pd_state :: int
  pd_paddata :: u32
  pd_oldpaddata :: u32
  pd_buttons :: pad_buttons
  pd_actAlign :: "u8 list"
  pd_actuators :: int

record controller =
  ct_connected :: bool
  ct_source :: int
  ct_buttons :: u32

record pad_state =
  curtime :: u32
  time_since_last :: u32
  pad_data :: "pad_data list"
  controller_state :: "controller list"
  paddata :: u32
  oldpaddata :: u32
  delaycnt :: "int list"
  paddelay :: "int list"
  KeyPressedOnce :: bool
  DisableCron :: bool

text \<open>The answers of the library for one pad: \<open>pl_state k\<close> is the \<open>k\<close>-th state it reports, \<open>pl_read\<close> the
  buttons of \<open>padRead\<close> (\<open>None\<close> when it fails), \<open>pl_bt\<close> and \<open>pl_usb\<close> buttons and stick of an emulated pad
  (\<open>None\<close> when none is running or the read fails).\<close>

record pad_lib =
  pl_open :: bool
  pl_state :: "nat \<Rightarrow> int"
  pl_modes :: int
  pl_mode :: "int \<Rightarrow> int"
  pl_curid :: int
  pl_curexid :: int
  pl_act :: int
  pl_read :: "pad_buttons option"
  pl_bt :: "(u16 \<times> u8 \<times> u8) option"
  pl_usb :: "(u16 \<times> u8 \<times> u8) option"

section \<open>Controllers\<close>

definition no_controller :: controller where
  "no_controller = \<lparr>ct_connected = False, ct_source = PAD_CONTROLLER_SOURCE_NONE, ct_buttons = 0\<rparr>"

definition clearControllerStates :: "controller list" where
  "clearControllerStates = replicate PAD_CONTROLLER_COUNT no_controller"

definition setControllerState :: "int \<Rightarrow> int \<Rightarrow> u32 \<Rightarrow> controller list \<Rightarrow> controller list" where
  "setControllerState player source buttons cs =
     (if player < 0 \<or> int PAD_CONTROLLER_COUNT \<le> player then cs
      else cs[nat player := \<lparr>ct_connected = True, ct_source = source, ct_buttons = buttons\<rparr>])"

definition mergeControllerStates :: "controller list \<Rightarrow> u32 \<Rightarrow> u32" where
  "mergeControllerStates cs p = fold (\<lambda>c p. if ct_connected c then p OR ct_buttons c else p) cs p"

definition padGetControllerState :: "pad_state \<Rightarrow> int \<Rightarrow> controller option" where
  "padGetControllerState s player =
     (if player < 0 \<or> int PAD_CONTROLLER_COUNT \<le> player then None else Some (controller_state s ! nat player))"

section \<open>Starting a pad\<close>

definition pad_ready :: "int \<Rightarrow> bool" where
  "pad_ready st \<longleftrightarrow> st = PAD_STATE_STABLE \<or> st = PAD_STATE_FINDCTP1 \<or> st = PAD_STATE_DISCONN"

text \<open>The busy wait: \<open>k\<close> counts the calls of \<open>padGetState\<close>; \<open>None\<close> when it never ends.\<close>

partial_function (option) waitPadReady :: "(nat \<Rightarrow> int) \<Rightarrow> nat \<Rightarrow> (int \<times> nat) option" where
  "waitPadReady st k = (if pad_ready (st k) then Some (st k, k + 1) else waitPadReady st (k + 1))"

declare waitPadReady.simps [code]

function find_mode :: "(int \<Rightarrow> int) \<Rightarrow> int \<Rightarrow> int \<Rightarrow> int" where
  "find_mode mode modes i =
     (if mode i = PAD_TYPE_DUALSHOCK then i
      else if i + 1 < modes then find_mode mode modes (i + 1) else i + 1)"
  by pat_completeness auto
termination
  by (relation "measure (\<lambda>(mode, modes, i). nat (modes - i))") auto

declare find_mode.simps [simp del]

definition initializePad :: "pad_lib \<Rightarrow> nat \<Rightarrow> pad_data \<Rightarrow> (int \<times> pad_data \<times> nat) option" where
  "initializePad lib k0 pad =
     Option.bind (waitPadReady (pl_state lib) k0) (\<lambda>(st, k1).
       if st = PAD_STATE_DISCONN then Some (1, pad, k1)
       else if pl_modes lib = 0 then Some (1, pad, k1)
       else if pl_modes lib \<le> find_mode (pl_mode lib) (pl_modes lib) 0 then Some (1, pad, k1)
       else if pl_curexid lib = 0 then Some (1, pad, k1)
       else
         Option.bind (waitPadReady (pl_state lib) k1) (\<lambda>(_, k2).
         Option.bind (waitPadReady (pl_state lib) k2) (\<lambda>(_, k3).
         Option.bind (waitPadReady (pl_state lib) k3) (\<lambda>(_, k4).
           let pad1 = pad\<lparr>pd_actuators := pl_act lib\<rparr> in
           Option.bind (if pl_act lib \<noteq> 0
                        then map_option (\<lambda>(_, k5). (pad1\<lparr>pd_actAlign := [0, 1, 0xff, 0xff, 0xff, 0xff]\<rparr>, k5)) (waitPadReady (pl_state lib) k4)
                        else Some (pad1, k4)) (\<lambda>(pad2, k5).
             Option.bind (waitPadReady (pl_state lib) k5) (\<lambda>(_, k6). Some (1, pad2, k6)))))))"

definition updatePadState :: "int \<Rightarrow> pad_data \<Rightarrow> pad_data" where
  "updatePadState st pad = (if pad_ready st then pad\<lparr>pd_state := st\<rparr> else pad)"

definition startPad :: "pad_lib \<Rightarrow> pad_data \<Rightarrow> (int \<times> pad_data) option" where
  "startPad lib pad =
     (if \<not> pl_open lib then Some (0, pad)
      else Option.bind (initializePad lib 0 pad) (\<lambda>(r, pad1, k).
        if r = 0 then Some (0, pad1)
        else Option.bind (waitPadReady (pl_state lib) k) (\<lambda>(st, _). Some (1, updatePadState st pad1))))"

text \<open>The slots of one port and the ports; \<open>Inl\<close> when a pad is put behind the array.\<close>

fun start_slots :: "nat \<Rightarrow> nat \<Rightarrow> pad_lib list \<Rightarrow> nat \<Rightarrow> pad_data list \<Rightarrow> ((nat \<times> pad_data list) cres) option" where
  "start_slots port slot [] n pads = Some (Inr (n, pads))"
| "start_slots port slot (lib # libs) n pads =
     (if n < length pads then
        Option.bind (startPad lib ((pads ! n)\<lparr>pd_port := port, pd_slot := slot, pd_state := PAD_STATE_DISCONN\<rparr>)) (\<lambda>(r, pad).
          start_slots port (slot + 1) libs (if r \<noteq> 0 then n + 1 else n) (pads[n := pad]))
      else Some (Inl OutOfBounds))"

fun start_ports :: "nat \<Rightarrow> pad_lib list list \<Rightarrow> nat \<Rightarrow> pad_data list \<Rightarrow> ((nat \<times> pad_data list) cres) option" where
  "start_ports port [] n pads = Some (Inr (n, pads))"
| "start_ports port (libs # ports) n pads =
     Option.bind (start_slots port 0 libs n pads) (\<lambda>r.
       case r of
         Inl e \<Rightarrow> Some (Inl e)
       | Inr (n1, pads1) \<Rightarrow> if MAX_PADS \<le> n1 then Some (Inr (n1, pads1)) else start_ports (port + 1) ports n1 pads1)"

definition default_delays :: "int list" where
  "default_delays = (replicate 16 DEFAULT_PAD_DELAY)[3 := 80, 1 := 80]"

text \<open>\<open>pads\<close> is the static array.  The pads in use are its first \<open>pad_count\<close> entries.\<close>

definition startPads :: "pad_lib list list \<Rightarrow> pad_data list \<Rightarrow> pad_state \<Rightarrow> ((nat \<times> pad_state) cres) option" where
  "startPads ports pads s =
     map_option (map_sum id (\<lambda>(n, pads1). (n, s\<lparr>pad_data := take n pads1, delaycnt := replicate 16 DEFAULT_PAD_DELAY,
       paddelay := default_delays\<rparr>))) (start_ports 0 ports 0 pads)"

section \<open>Reading a pad\<close>

definition deadzone :: "int \<Rightarrow> int" where
  "deadzone sensitivity = (if sensitivity = 0 then 100 else if sensitivity = 1 then 80 else if sensitivity = 2 then 60 else 80)"

definition readLeftJoy :: "int \<Rightarrow> int \<Rightarrow> pad_buttons \<Rightarrow> u32 \<Rightarrow> u32" where
  "readLeftJoy gXSensitivity gYSensitivity b pdata =
     (if drop_bit 4 (pb_mode b) = 7 then
        let x = deadzone gXSensitivity; y = deadzone gYSensitivity;
            p1 = (if uint (pb_ljoy_h b) < 127 - x then pdata OR PAD_LEFT
                  else if 127 + x < uint (pb_ljoy_h b) then pdata OR PAD_RIGHT else pdata)
        in (if uint (pb_ljoy_v b) < 127 - y then p1 OR PAD_UP
            else if 127 + y < uint (pb_ljoy_v b) then p1 OR PAD_DOWN else p1)
      else pdata)"

definition pressed_buttons :: "u16 \<Rightarrow> u32" where
  "pressed_buttons btns = 0xffff XOR ucast btns"

text \<open>One source of buttons after the other; the accumulator is the buttons, the bits and the number of
  sources read.\<close>

definition read_emulated :: "(u16 \<times> u8 \<times> u8) option \<Rightarrow> pad_buttons \<times> u32 \<times> nat \<Rightarrow> pad_buttons \<times> u32 \<times> nat" where
  "read_emulated src acc =
     (case src of
        None \<Rightarrow> acc
      | Some (btns, h, v) \<Rightarrow>
          (case acc of (b, p, n) \<Rightarrow> (b\<lparr>pb_btns := btns, pb_ljoy_h := h, pb_ljoy_v := v\<rparr>, p OR pressed_buttons btns, n + 1)))"

definition readPad ::
  "int \<Rightarrow> int \<Rightarrow> pad_lib \<Rightarrow> pad_data \<Rightarrow> nat \<Rightarrow> controller list \<Rightarrow> (bool \<times> pad_data \<times> controller list) option" where
  "readPad gX gY lib pad player cs =
     (let oldState = pd_state pad; pad1 = updatePadState (pl_state lib 0) pad
      in Option.bind (if oldState = PAD_STATE_DISCONN \<and> (pd_state pad1 = PAD_STATE_STABLE \<or> pd_state pad1 = PAD_STATE_FINDCTP1)
                      then map_option (\<lambda>(_, p, _). p) (initializePad lib 1 pad1) else Some pad1) (\<lambda>pad2.
           let conn = (pd_state pad2 = PAD_STATE_STABLE \<or> pd_state pad2 = PAD_STATE_FINDCTP1);
               acc1 = (case (conn, pl_read lib) of
                         (True, Some b) \<Rightarrow> (b, pressed_buttons (pb_btns b), 1)
                       | _ \<Rightarrow> (pd_buttons pad2, 0, 0));
               (b, p, n) = read_emulated (pl_usb lib) (read_emulated (pl_bt lib) acc1);
               pad3 = pad2\<lparr>pd_buttons := b\<rparr>
           in if 0 < n then
                let newp = p OR readLeftJoy gX gY b p
                in Some (p \<noteq> 0, pad3\<lparr>pd_oldpaddata := pd_paddata pad3, pd_paddata := newp\<rparr>,
                         setControllerState (int player) PAD_CONTROLLER_SOURCE_PS2 newp cs)
              else Some (False, pad3, cs)))"

section \<open>Keys\<close>

text \<open>\<open>int\<close> arithmetic wraps.\<close>

definition wrap32 :: "int \<Rightarrow> int" where
  "wrap32 x = (x + 2 ^ 31) mod 2 ^ 32 - 2 ^ 31"

definition getKeyDelay :: "pad_state \<Rightarrow> nat \<Rightarrow> bool \<Rightarrow> int" where
  "getKeyDelay s key rep = (let delay = paddelay s ! (key - 1) in if rep then delay else wrap32 (delay * 3))"

text \<open>\<open>getKeyPressed\<close> does not check its argument.\<close>

definition getKeyPressed :: "pad_state \<Rightarrow> int \<Rightarrow> bool cres" where
  "getKeyPressed s key =
     (if key < 0 then Inl OutOfBounds
      else c_bind (peek keyToPad (nat key)) (\<lambda>keyid. Inr (paddata s AND keyid \<noteq> 0)))"

definition valid_key :: "int \<Rightarrow> bool" where
  "valid_key key \<longleftrightarrow> 0 < key \<and> key < 17"

definition getKeyOn :: "pad_state \<Rightarrow> int \<Rightarrow> bool" where
  "getKeyOn s key =
     (if \<not> valid_key key then False
      else let keyid = keyToPad ! nat key in paddata s AND keyid \<noteq> 0 \<and> oldpaddata s AND keyid = 0)"

definition getKeyOff :: "pad_state \<Rightarrow> int \<Rightarrow> bool" where
  "getKeyOff s key =
     (if \<not> valid_key key then False
      else let keyid = keyToPad ! nat key in paddata s AND keyid = 0 \<and> oldpaddata s AND keyid \<noteq> 0)"

definition key_event :: "pad_state \<Rightarrow> nat \<Rightarrow> bool \<Rightarrow> pad_state" where
  "key_event s key rep = s\<lparr>delaycnt := (delaycnt s)[key - 1 := getKeyDelay s key rep], KeyPressedOnce := True, DisableCron := True\<rparr>"

definition getKey :: "pad_state \<Rightarrow> int \<Rightarrow> bool \<times> pad_state" where
  "getKey s key =
     (if \<not> valid_key key then (False, s)
      else if getKeyOn s key then (True, key_event s (nat key) False)
      else if getKeyPressed s key \<noteq> Inr True then (False, s)
      else if delaycnt s ! (nat key - 1) \<le> 0 then (True, key_event s (nat key) True)
      else (False, s))"

definition setButtonDelay :: "pad_state \<Rightarrow> int \<Rightarrow> int \<Rightarrow> pad_state" where
  "setButtonDelay s button btndelay =
     (if \<not> valid_key button then s else s\<lparr>paddelay := (paddelay s)[nat button - 1 := btndelay]\<rparr>)"

definition getButtonDelay :: "pad_state \<Rightarrow> int \<Rightarrow> int" where
  "getButtonDelay s button = (if \<not> valid_key button then 0 else paddelay s ! (nat button - 1))"

definition padStoreSettings :: "pad_state \<Rightarrow> int list" where
  "padStoreSettings s = map (\<lambda>i. paddelay s ! i) [0..<16]"

definition padRestoreSettings :: "int list \<Rightarrow> pad_state \<Rightarrow> pad_state" where
  "padRestoreSettings buffer s = s\<lparr>paddelay := fold (\<lambda>i d. d[i := buffer ! i]) [0..<16] (paddelay s)\<rparr>"

section \<open>A frame\<close>

definition update_time :: "u32 \<Rightarrow> pad_state \<Rightarrow> pad_state" where
  "update_time ticks s =
     (let newtime = ticks div CLOCKS_PER_MILISEC; t = (newtime - curtime s) div 2
      in s\<lparr>time_since_last := (if 250 < t then 250 else t), curtime := newtime\<rparr>)"

fun read_all ::
  "int \<Rightarrow> int \<Rightarrow> nat \<Rightarrow> pad_lib list \<Rightarrow> pad_data list \<Rightarrow> controller list \<Rightarrow> (bool \<times> pad_data list \<times> controller list) option" where
  "read_all gX gY i (lib # libs) (pad # pads) cs =
     Option.bind (readPad gX gY lib pad i cs) (\<lambda>(r, pad1, cs1).
       Option.bind (read_all gX gY (i + 1) libs pads cs1) (\<lambda>(r2, pads2, cs2). Some (r \<or> r2, pad1 # pads2, cs2)))"
| "read_all gX gY i libs pads cs = Some (False, pads, cs)"

text \<open>The bridge of an Xbox controller: the buttons it injects, if any.\<close>

record pad_bridge =
  br_log :: bool
  br_log_data :: u32
  br_nav :: bool
  br_nav_data :: u32

definition bridge_buttons :: "pad_bridge \<Rightarrow> u32 option" where
  "bridge_buttons b =
     (if br_log b \<and> br_log_data b \<noteq> 0 then Some (br_log_data b)
      else if br_nav b \<and> br_nav_data b \<noteq> 0 then Some (br_nav_data b) else None)"

definition count_key :: "pad_state \<Rightarrow> nat \<Rightarrow> int" where
  "count_key s i =
     (if getKeyPressed s (int i + 1) = Inr True then wrap32 (delaycnt s ! i - int (unat (time_since_last s)))
      else getKeyDelay s (i + 1) False)"

definition readPads :: "int \<Rightarrow> int \<Rightarrow> pad_bridge \<Rightarrow> u32 \<Rightarrow> pad_lib list \<Rightarrow> pad_state \<Rightarrow> (bool \<times> pad_state) option" where
  "readPads gX gY br ticks libs s0 =
     (let s1 = update_time ticks (s0\<lparr>oldpaddata := paddata s0, paddata := 0\<rparr>)
      in Option.bind (read_all gX gY 0 libs (pad_data s1) clearControllerStates) (\<lambda>(rslt, pads, cs).
           let cs1 = (case bridge_buttons br of Some b \<Rightarrow> setControllerState 2 PAD_CONTROLLER_SOURCE_XBOX b cs | None \<Rightarrow> cs);
               s2 = s1\<lparr>pad_data := pads, controller_state := cs1, paddata := mergeControllerStates cs1 0\<rparr>
           in Some (rslt, s2\<lparr>delaycnt := map (count_key s2) [0..<16]\<rparr>)))"

text \<open>The check for a controller in a port: twenty attempts; \<open>lib k\<close> is what the library says at attempt
  \<open>k\<close>: the state, the number of modes and the current mode.\<close>

fun dualshock_attempts :: "(nat \<Rightarrow> int \<times> int \<times> int) \<Rightarrow> nat \<Rightarrow> nat \<Rightarrow> bool" where
  "dualshock_attempts lib k 0 = False"
| "dualshock_attempts lib k (Suc n) =
     (case lib k of (st, modes, modeId) \<Rightarrow>
        if st = PAD_STATE_STABLE \<or> st = PAD_STATE_FINDCTP1 then
          if 0 < modes \<or> modeId = PAD_TYPE_DUALSHOCK then True else dualshock_attempts lib (k + 1) n
        else if st = PAD_STATE_DISCONN then False
        else dualshock_attempts lib (k + 1) n)"

definition padIsPhysicalDualShockConnected :: "nat \<Rightarrow> (nat \<Rightarrow> nat \<Rightarrow> int \<times> int \<times> int) \<Rightarrow> int \<Rightarrow> bool" where
  "padIsPhysicalDualShockConnected portMax lib port =
     (if port < 0 \<or> int portMax \<le> port then False else dualshock_attempts (lib (nat port)) 0 20)"

section \<open>Lemmas on starting\<close>

text \<open>The busy wait ends when the library reports a settled state at some later call.\<close>

lemma waitPadReady_returns:
  assumes "pad_ready (st j)" "k \<le> j"
  shows "\<exists>i. waitPadReady st k = Some (st i, i + 1) \<and> pad_ready (st i)"
  using assms(2)
proof (induction k rule: inc_induct)
  case base
  with assms(1) show ?case by (subst waitPadReady.simps) auto
next
  case (step k)
  then show ?case by (subst waitPadReady.simps) auto
qed

definition settles :: "pad_lib \<Rightarrow> bool" where
  "settles lib \<longleftrightarrow> (\<forall>k. \<exists>j \<ge> k. pad_ready (pl_state lib j))"

lemma settles_wait: "settles lib \<Longrightarrow> \<exists>st k'. waitPadReady (pl_state lib) k = Some (st, k')"
  using waitPadReady_returns by (fastforce simp: settles_def)

lemma initializePad_returns:
  assumes "settles lib"
  shows "\<exists>pad' k'. initializePad lib k pad = Some (1, pad', k')"
proof -
  have w: "\<exists>st k'. waitPadReady (pl_state lib) k = Some (st, k')" for k using settles_wait [OF assms] .
  obtain st k1 where 1: "waitPadReady (pl_state lib) k = Some (st, k1)" using w by blast
  obtain s2 k2 where 2: "waitPadReady (pl_state lib) k1 = Some (s2, k2)" using w by blast
  obtain s3 k3 where 3: "waitPadReady (pl_state lib) k2 = Some (s3, k3)" using w by blast
  obtain s4 k4 where 4: "waitPadReady (pl_state lib) k3 = Some (s4, k4)" using w by blast
  obtain s5 k5 where 5: "waitPadReady (pl_state lib) k4 = Some (s5, k5)" using w by blast
  obtain s6 k6 where 6: "waitPadReady (pl_state lib) k5 = Some (s6, k6)" using w by blast
  show ?thesis by (simp add: initializePad_def 1 2 3 4 5 6 Let_def)
qed

lemma startPad_returns:
  assumes "settles lib"
  shows "\<exists>r pad'. startPad lib pad = Some (r, pad') \<and> (r \<noteq> 0 \<longleftrightarrow> pl_open lib)"
proof -
  obtain pad1 k where "initializePad lib 0 pad = Some (1, pad1, k)" using initializePad_returns [OF assms] by blast
  moreover obtain st k' where "waitPadReady (pl_state lib) k = Some (st, k')" using settles_wait [OF assms] by blast
  ultimately show ?thesis by (simp add: startPad_def)
qed

lemma start_slots_count:
  assumes "\<forall>lib \<in> set libs. settles lib" "n + length libs \<le> length pads"
  shows "\<exists>pads'. start_slots port slot libs n pads = Some (Inr (n + length (filter pl_open libs), pads')) \<and> length pads' = length pads"
  using assms
proof (induction libs arbitrary: slot n pads)
  case (Cons lib libs)
  obtain r pad' where "startPad lib ((pads ! n)\<lparr>pd_port := port, pd_slot := slot, pd_state := PAD_STATE_DISCONN\<rparr>) = Some (r, pad')"
      "r \<noteq> 0 \<longleftrightarrow> pl_open lib" using startPad_returns Cons.prems(1) by (metis list.set_intros(1))
  with Cons.prems Cons.IH [of "if r \<noteq> 0 then n + 1 else n" "pads[n := pad']" "slot + 1"] show ?case by auto
qed simp

text \<open>More open slots than the array has room for.\<close>

lemma start_slots_overflow:
  assumes "\<forall>lib \<in> set libs. settles lib \<and> pl_open lib" "length pads < n + length libs" "n \<le> length pads"
  shows "start_slots port slot libs n pads = Some (Inl OutOfBounds)"
  using assms
proof (induction libs arbitrary: slot n pads)
  case (Cons lib libs)
  show ?case
  proof (cases "n < length pads")
    case True
    obtain r pad' where "startPad lib ((pads ! n)\<lparr>pd_port := port, pd_slot := slot, pd_state := PAD_STATE_DISCONN\<rparr>) = Some (r, pad')"
        "r \<noteq> 0" using startPad_returns Cons.prems(1) by (metis list.set_intros(1))
    with Cons.prems True Cons.IH [of "pads[n := pad']" "n + 1" "slot + 1"] show ?thesis by simp
  qed simp
qed simp

section \<open>Lemmas on keys\<close>

lemma wrap32_id: "int32 x \<Longrightarrow> wrap32 x = x"
  by (simp add: wrap32_def int32_def)

lemma keyToPad_valid: "valid_key key \<Longrightarrow> nat key < length keyToPad \<and> nat key - 1 < 16"
  by (auto simp: valid_key_def keyToPad_def)

definition is_pressed :: "pad_state \<Rightarrow> int \<Rightarrow> bool" where
  "is_pressed s key \<longleftrightarrow> paddata s AND keyToPad ! nat key \<noteq> 0"

lemma getKeyPressed_valid: "valid_key key \<Longrightarrow> getKeyPressed s key = Inr (is_pressed s key)"
  using keyToPad_valid by (simp add: getKeyPressed_def is_pressed_def valid_key_def)

definition pad_wf :: "pad_state \<Rightarrow> bool" where
  "pad_wf s \<longleftrightarrow> length (delaycnt s) = 16 \<and> length (paddelay s) = 16"

lemma time_bound: "unat (time_since_last (update_time ticks s)) \<le> 250"
  by (simp add: update_time_def Let_def word_less_nat_alt)

text \<open>The time the code counts for a frame: half of the difference of the two readings, at most 250, also when
  the tick counter wraps.  It is the time base of the specification of key repetition.\<close>

definition frame_time :: "u32 \<Rightarrow> u32 \<Rightarrow> nat" where
  "frame_time cur ticks = min 250 (unat ((ticks div CLOCKS_PER_MILISEC - cur) div 2))"

lemma update_time_frame: "unat (time_since_last (update_time ticks s)) = frame_time (curtime s) ticks"
  by (auto simp: update_time_def Let_def frame_time_def word_less_nat_alt min_def)

text \<open>What a frame does to a key that is held: the time is counted down, the old state is remembered.\<close>

lemma readPads_held:
  assumes "readPads gX gY br ticks libs s = Some (r, s')" "valid_key key" "is_pressed s' key" "pad_wf s"
  shows "delaycnt s' ! (nat key - 1) = wrap32 (delaycnt s ! (nat key - 1) - int (frame_time (curtime s) ticks))"
    and "paddelay s' = paddelay s" and "oldpaddata s' = paddata s" and "curtime s' = ticks div CLOCKS_PER_MILISEC" and "pad_wf s'"
proof -
  let ?s1 = "update_time ticks (s\<lparr>oldpaddata := paddata s, paddata := 0\<rparr>)"
  from assms(1) obtain pads cs where e: "s' = (let s2 = ?s1\<lparr>pad_data := pads, controller_state := cs, paddata := mergeControllerStates cs 0\<rparr>
      in s2\<lparr>delaycnt := map (count_key s2) [0..<16]\<rparr>)"
    by (auto simp: readPads_def Let_def bind_eq_Some_conv)
  define s2 where "s2 = ?s1\<lparr>pad_data := pads, controller_state := cs, paddata := mergeControllerStates cs 0\<rparr>"
  have s': "s' = s2\<lparr>delaycnt := map (count_key s2) [0..<16]\<rparr>" using e by (simp add: s2_def Let_def)
  have k: "nat key - 1 < 16" "int (nat key - 1) + 1 = key" using keyToPad_valid [OF assms(2)] assms(2) by (auto simp: valid_key_def)
  have "is_pressed s2 key" using assms(3) by (simp add: s' is_pressed_def)
  then have "getKeyPressed s2 (int (nat key - 1) + 1) = Inr True" using getKeyPressed_valid [OF assms(2)] k(2) by simp
  then have "count_key s2 (nat key - 1) = wrap32 (delaycnt s2 ! (nat key - 1) - int (unat (time_since_last s2)))"
    by (simp add: count_key_def)
  moreover have "time_since_last s2 = time_since_last ?s1" "delaycnt s2 = delaycnt s"
    by (simp_all add: s2_def update_time_def Let_def)
  ultimately show "delaycnt s' ! (nat key - 1) = wrap32 (delaycnt s ! (nat key - 1) - int (frame_time (curtime s) ticks))"
    using k(1) by (simp add: s' update_time_frame)
  show "paddelay s' = paddelay s" "oldpaddata s' = paddata s" "curtime s' = ticks div CLOCKS_PER_MILISEC" "pad_wf s'"
    using assms(4) by (simp_all add: s' s2_def update_time_def Let_def pad_wf_def)
qed

lemma getKey_held:
  assumes "valid_key key" "is_pressed s key" "oldpaddata s AND keyToPad ! nat key \<noteq> 0"
  shows "getKey s key = (if delaycnt s ! (nat key - 1) \<le> 0 then (True, key_event s (nat key) True) else (False, s))"
  using assms by (simp add: getKey_def getKeyOn_def Let_def getKeyPressed_valid)

text \<open>Reading all pads keeps the merged buttons: a button is down when some connected player holds it.\<close>

lemma merge_bits: "bit (mergeControllerStates cs p) n \<longleftrightarrow> bit p n \<or> (\<exists>c \<in> set cs. ct_connected c \<and> bit (ct_buttons c) n)"
  by (induction cs arbitrary: p) (auto simp: mergeControllerStates_def bit_or_iff)

lemma pad_settings_roundtrip: "length (paddelay s) = 16 \<Longrightarrow> length (paddelay s') = 16 \<Longrightarrow>
  paddelay (padRestoreSettings (padStoreSettings s) s') = paddelay s"
proof -
  assume l: "length (paddelay s) = 16" "length (paddelay s') = 16"
  have "n \<le> 16 \<Longrightarrow> length d = 16 \<Longrightarrow> length (fold (\<lambda>i d. d[i := b ! i]) [0..<n] d) = 16 \<and>
      (\<forall>i < 16. fold (\<lambda>i d. d[i := b ! i]) [0..<n] d ! i = (if i < n then b ! i else d ! i))" for n and b d :: "int list"
    by (induction n) (auto simp: nth_list_update)
  from this [of 16 "paddelay s'" "padStoreSettings s"] l show ?thesis
    by (intro nth_equalityI) (simp_all add: padRestoreSettings_def padStoreSettings_def)
qed

section \<open>Key repeat\<close>

text \<open>Frames in which the program reads the pads and asks for one key.\<close>

type_synonym frame = "pad_bridge \<times> u32 \<times> pad_lib list"

fun play :: "int \<Rightarrow> int \<Rightarrow> int \<Rightarrow> frame list \<Rightarrow> pad_state \<Rightarrow> (bool list) option" where
  "play gX gY key [] s = Some []"
| "play gX gY key ((br, ticks, libs) # fs) s =
     Option.bind (readPads gX gY br ticks libs s) (\<lambda>(_, s1).
       case getKey s1 key of (e, s2) \<Rightarrow> map_option (Cons e) (play gX gY key fs s2))"

text \<open>The key stays down in all of them.\<close>

fun held :: "int \<Rightarrow> int \<Rightarrow> int \<Rightarrow> frame list \<Rightarrow> pad_state \<Rightarrow> bool" where
  "held gX gY key [] s \<longleftrightarrow> True"
| "held gX gY key ((br, ticks, libs) # fs) s \<longleftrightarrow>
     (case readPads gX gY br ticks libs s of
        None \<Rightarrow> False
      | Some (_, s1) \<Rightarrow> is_pressed s1 key \<and> held gX gY key fs (snd (getKey s1 key)))"

fun frame_times :: "u32 \<Rightarrow> frame list \<Rightarrow> nat list" where
  "frame_times cur [] = []"
| "frame_times cur ((_, ticks, _) # fs) = frame_time cur ticks # frame_times (ticks div CLOCKS_PER_MILISEC) fs"

text \<open>The specification: \<open>acc\<close> is the time since the last event; an event comes as soon as it reaches the
  delay that is due, and from then on the delay is \<open>d\<close>.\<close>

fun repeat_spec :: "int \<Rightarrow> int \<Rightarrow> int \<Rightarrow> nat list \<Rightarrow> bool list" where
  "repeat_spec acc due d [] = []"
| "repeat_spec acc due d (t # ts) =
     (if due \<le> acc + int t then True # repeat_spec 0 d d ts else False # repeat_spec (acc + int t) due d ts)"

lemma play_repeat:
  assumes "valid_key key" "pad_wf s" "is_pressed s key" "held gX gY key fs s"
    and "paddelay s ! (nat key - 1) = d" "0 < d" "d \<le> 2 ^ 28"
    and "delaycnt s ! (nat key - 1) = due - acc" "acc < due" "0 \<le> acc" "due \<le> 3 * 2 ^ 28"
  shows "play gX gY key fs s = Some (repeat_spec acc due d (frame_times (curtime s) fs))"
  using assms(2-)
proof (induction fs arbitrary: s acc due)
  case (Cons f fs)
  obtain br ticks libs where f: "f = (br, ticks, libs)" by (cases f) auto
  obtain r s1 where rd: "readPads gX gY br ticks libs s = Some (r, s1)" and p1: "is_pressed s1 key"
    and h: "held gX gY key fs (snd (getKey s1 key))"
    using Cons.prems(3) by (auto simp: f split: option.splits)
  note rp = readPads_held [OF rd assms(1) p1 Cons.prems(1)]
  define t where "t = frame_time (curtime s) ticks"
  have "t \<le> 250" by (simp add: t_def frame_time_def)
  then have "int32 (due - acc - int t)" using Cons.prems(8-10) by (simp add: int32_def)
  then have dc: "delaycnt s1 ! (nat key - 1) = due - acc - int t" using rp(1) Cons.prems(7) by (simp add: t_def wrap32_id)
  have old: "oldpaddata s1 AND keyToPad ! nat key \<noteq> 0" using rp(3) Cons.prems(2) by (simp add: is_pressed_def)
  note gk = getKey_held [OF assms(1) p1 old, unfolded dc]
  have k: "nat key - 1 < 16" using keyToPad_valid [OF assms(1)] by blast
  show ?case
  proof (cases "due \<le> acc + int t")
    case True
    let ?s2 = "key_event s1 (nat key) True"
    have "getKey s1 key = (True, ?s2)" using gk True by simp
    moreover have "play gX gY key fs ?s2 = Some (repeat_spec 0 d d (frame_times (curtime ?s2) fs))"
    proof (rule Cons.IH)
      show "pad_wf ?s2" "is_pressed ?s2 key" using rp(5) p1 by (simp_all add: key_event_def pad_wf_def is_pressed_def)
      show "held gX gY key fs ?s2" using h calculation by simp
      show "paddelay ?s2 ! (nat key - 1) = d" using rp(2) Cons.prems(4) by (simp add: key_event_def)
      show "delaycnt ?s2 ! (nat key - 1) = d - 0"
        using rp(2,5) Cons.prems(4) k by (simp add: key_event_def getKeyDelay_def pad_wf_def)
    qed (use Cons.prems in auto)
    moreover have "curtime ?s2 = ticks div CLOCKS_PER_MILISEC" using rp(4) by (simp add: key_event_def)
    ultimately show ?thesis using True rd by (simp add: f t_def)
  next
    case False
    then have "getKey s1 key = (False, s1)" using gk by simp
    moreover have "play gX gY key fs s1 = Some (repeat_spec (acc + int t) due d (frame_times (curtime s1) fs))"
    proof (rule Cons.IH)
      show "pad_wf s1" "is_pressed s1 key" "paddelay s1 ! (nat key - 1) = d" using rp(2,5) p1 Cons.prems(4) by simp_all
      show "held gX gY key fs s1" using h calculation by simp
      show "delaycnt s1 ! (nat key - 1) = due - (acc + int t)" using dc by simp
    qed (use Cons.prems False in auto)
    ultimately show ?thesis using False rd rp(4) by (simp add: f t_def)
  qed
qed simp

section \<open>Properties\<close>

text \<open>C32: starting the pads of a console with at most four slots in its two ports, whose pad library always
  comes back to a settled state in every slot, ends and counts exactly the slots that can be opened, whatever
  kind of pad they hold; all of them are kept in the table.\<close>

theorem startPads_counts:
  assumes "\<forall>lib \<in> set (p0 @ p1). settles lib" and "length p0 + length p1 \<le> MAX_PADS" and "length pads = MAX_PADS"
  shows "\<exists>s'. startPads [p0, p1] pads s = Some (Inr (length (filter pl_open (p0 @ p1)), s')) \<and>
    length (pad_data s') = length (filter pl_open (p0 @ p1))"
proof -
  let ?n0 = "length (filter pl_open p0)" and ?n1 = "length (filter pl_open p1)"
  have le: "?n0 \<le> length p0" "?n1 \<le> length p1" by simp_all
  obtain pads0 where 0: "start_slots 0 0 p0 0 pads = Some (Inr (?n0, pads0))" "length pads0 = MAX_PADS"
    using start_slots_count [of p0 0 pads 0 0] assms by auto
  obtain pads1 where 1: "start_slots 1 0 p1 ?n0 pads0 = Some (Inr (?n0 + ?n1, pads1))" "length pads1 = MAX_PADS"
    using start_slots_count [of p1 ?n0 pads0 1 0] assms 0(2) le by auto
  have "MAX_PADS \<le> ?n0 \<Longrightarrow> ?n1 = 0" using le assms(2) by linarith
  moreover have "?n0 + ?n1 \<le> MAX_PADS" "?n0 \<le> MAX_PADS" using le assms(2) by linarith+
  ultimately show ?thesis using 0 1 by (auto simp: startPads_def)
qed

definition demo_lib :: pad_lib where
  "demo_lib = \<lparr>pl_open = True, pl_state = (\<lambda>_. PAD_STATE_STABLE), pl_modes = 1, pl_mode = (\<lambda>_. PAD_TYPE_DUALSHOCK), pl_curid = 7,
     pl_curexid = 1, pl_act = 2, pl_read = Some \<lparr>pb_mode = 0x41, pb_btns = 0xFF7F, pb_ljoy_h = 127, pb_ljoy_v = 127\<rparr>, pl_bt = None, pl_usb = None\<rparr>"

definition demo_pad :: pad_data where
  "demo_pad = \<lparr>pd_port = 0, pd_slot = 0, pd_state = PAD_STATE_STABLE, pd_paddata = 0, pd_oldpaddata = 0,
     pd_buttons = \<lparr>pb_mode = 0, pb_btns = 0xFFFF, pb_ljoy_h = 0, pb_ljoy_v = 0\<rparr>, pd_actAlign = replicate 6 0, pd_actuators = 0\<rparr>"

definition demo_state :: pad_state where
  "demo_state = \<lparr>curtime = 0, time_since_last = 0, pad_data = [demo_pad], controller_state = clearControllerStates, paddata = 0x80,
     oldpaddata = 0, delaycnt = replicate 16 DEFAULT_PAD_DELAY, paddelay = default_delays, KeyPressedOnce = False, DisableCron = False\<rparr>"

lemma demo_lib_ok: "settles demo_lib" "pl_open demo_lib"
  by (auto simp: settles_def demo_lib_def pad_ready_def)

theorem startPads_counts_witness:
  "\<exists>s'. startPads [[demo_lib], [demo_lib]] (replicate MAX_PADS demo_pad) demo_state =
      Some (Inr (length (filter pl_open ([demo_lib] @ [demo_lib])), s')) \<and>
    length (pad_data s') = length (filter pl_open ([demo_lib] @ [demo_lib]))"
  by (rule startPads_counts) (simp_all add: demo_lib_ok)

text \<open>With a multitap in the second port only, the pads do not fit: the table is checked only between
  ports, so the slots of the second port are written behind its four entries.\<close>

theorem startPads_overflow:
  assumes "\<forall>lib \<in> set (p0 @ p1). settles lib \<and> pl_open lib" and "length p0 < MAX_PADS" and "MAX_PADS < length p0 + length p1"
    and "length pads = MAX_PADS"
  shows "startPads [p0, p1] pads s = Some (Inl OutOfBounds)"
proof -
  have "filter pl_open p0 = p0" using assms(1) by simp
  then obtain pads0 where 0: "start_slots 0 0 p0 0 pads = Some (Inr (length p0, pads0))" "length pads0 = MAX_PADS"
    using start_slots_count [of p0 0 pads 0 0] assms by auto
  have "start_slots 1 0 p1 (length p0) pads0 = Some (Inl OutOfBounds)"
    using assms 0(2) by (intro start_slots_overflow) auto
  with 0(1) assms(2) show ?thesis by (simp add: startPads_def)
qed

theorem startPads_overflow_witness:
  "startPads [[demo_lib], [demo_lib, demo_lib, demo_lib, demo_lib]] (replicate MAX_PADS demo_pad) demo_state = Some (Inl OutOfBounds)"
  by (rule startPads_overflow) (simp_all add: demo_lib_ok)

text \<open>C21: key repeat keeps its timing in the time the code counts: a frame counts half of the difference of the
  two tick counts in units of 147456 ticks, in 32 bits, and at most 250 (so that a frame in which the tick counter
  wraps around counts 250).  From the moment a key goes down, with the pads read and the key asked once
  per frame while it is held, the key reports an event at once, then in the first frame in which three delays have been
  counted, and then whenever one delay has been counted since the last event, for every delay from 1 to
  \<open>2 ^ 28\<close> and any sequence of frames; the counters never overflow.\<close>

theorem key_repeat:
  assumes "valid_key key" and "pad_wf s0" and "getKeyOn s0 key" and "held gX gY key fs (snd (getKey s0 key))"
    and "paddelay s0 ! (nat key - 1) = d" and "0 < d" and "d \<le> 2 ^ 28"
  shows "fst (getKey s0 key) \<and>
    play gX gY key fs (snd (getKey s0 key)) = Some (repeat_spec 0 (3 * d) d (frame_times (curtime s0) fs))"
proof -
  let ?s = "key_event s0 (nat key) False"
  have g: "getKey s0 key = (True, ?s)" using assms(1,3) by (simp add: getKey_def)
  have k: "nat key - 1 < 16" using keyToPad_valid [OF assms(1)] by blast
  have "int32 (3 * d)" using assms(6,7) by (simp add: int32_def)
  then have dc: "delaycnt ?s ! (nat key - 1) = 3 * d - 0"
    using assms(2,5) k by (simp add: key_event_def getKeyDelay_def Let_def pad_wf_def wrap32_id mult.commute)
  have p: "is_pressed ?s key" using assms(1,3) by (simp add: key_event_def is_pressed_def getKeyOn_def Let_def)
  have "play gX gY key fs ?s = Some (repeat_spec 0 (3 * d) d (frame_times (curtime ?s) fs))"
    using assms g by (intro play_repeat [OF assms(1) _ p _ _ _ _ dc]) (auto simp: key_event_def pad_wf_def)
  then show ?thesis using g by (simp add: key_event_def)
qed

definition demo_frames :: "frame list" where
  "demo_frames = map (\<lambda>t. (\<lparr>br_log = False, br_log_data = 0, br_nav = False, br_nav_data = 0\<rparr>, t, [demo_lib])) [147456 * 300, 147456 * 900]"

theorem key_repeat_witness:
  "fst (getKey demo_state 1) \<and>
    play 1 1 1 demo_frames (snd (getKey demo_state 1)) = Some (repeat_spec 0 (3 * 200) 200 (frame_times (curtime demo_state) demo_frames))"
proof (rule key_repeat)
  show "held 1 1 1 demo_frames (snd (getKey demo_state 1))" by code_simp
qed (simp_all add: valid_key_def pad_wf_def demo_state_def default_delays_def getKeyOn_def keyToPad_def)

end
