(* ===== verification/OSDHistory.thy ===== *)
theory OSDHistory
  imports Util
begin

text \<open>
  The play history on the memory card, \<open>src/OSDHistory.c\<close>: 21 entries with a launch counter, a mask of
  six bits that fills up as the game is launched, and the date of the last launch.  The random numbers
  are a sequence \<open>rnd\<close> and the position in it; the clock and the memory cards are parameters.
\<close>

section \<open>Entries and files\<close>

abbreviation MAX_HISTORY_ENTRIES :: nat where "MAX_HISTORY_ENTRIES \<equiv> 21"
abbreviation HISTORY_NAME :: nat where "HISTORY_NAME \<equiv> 16"
abbreviation HISTORY_ENTRY_SIZE :: nat where "HISTORY_ENTRY_SIZE \<equiv> 22"
abbreviation HIST_EIO :: int where "HIST_EIO \<equiv> -5"

record HistoryEntry =
  he_name :: string
  he_count :: u8
  he_mask :: u8
  he_shift :: u8
  he_padding :: u8
  he_date :: u16

definition blank_entry :: HistoryEntry where
  "blank_entry = \<lparr>he_name = replicate HISTORY_NAME NUL, he_count = 0, he_mask = 0, he_shift = 0, he_padding = 0, he_date = 0\<rparr>"

definition u8_char :: "u8 \<Rightarrow> char" where
  "u8_char b = char_of (unat b)"

definition char_u8 :: "char \<Rightarrow> u8" where
  "char_u8 c = of_nat (code c)"

definition entry_bytes :: "HistoryEntry \<Rightarrow> string" where
  "entry_bytes e = he_name e @ map u8_char [he_count e, he_mask e, he_shift e, he_padding e,
     ucast (he_date e), ucast (drop_bit 8 (he_date e))]"

definition bytes_entry :: "string \<Rightarrow> HistoryEntry" where
  "bytes_entry b = \<lparr>he_name = take 16 b, he_count = char_u8 (b ! 16), he_mask = char_u8 (b ! 17), he_shift = char_u8 (b ! 18),
     he_padding = char_u8 (b ! 19), he_date = ucast (char_u8 (b ! 20)) OR push_bit 8 (ucast (char_u8 (b ! 21)))\<rparr>"

definition CreateSystemDataFolder :: "(char \<Rightarrow> string) \<Rightarrow> fs \<Rightarrow> string \<Rightarrow> char \<Rightarrow> int \<times> fs" where
  "CreateSystemDataFolder icon f path letter =
     (let fullpath = path @ ''/icon.sys''
      in case fs_file f fullpath of
           Some _ \<Rightarrow> (0, f)
         | None \<Rightarrow>
             let f1 = snd (mkdir f path)
             in (case open_file f1 fullpath O_WRITE of
                   (None, f2) \<Rightarrow> (-1, f2)
                 | (Some _, f2) \<Rightarrow> (0, f2\<lparr>fs_file := (fs_file f2)(fullpath \<mapsto> icon (if letter = CHR ''I'' \<or> letter = CHR ''C'' then letter else CHR ''A''))\<rparr>)))"

definition LoadHistoryFile :: "fs \<Rightarrow> string \<Rightarrow> int \<times> HistoryEntry list" where
  "LoadHistoryFile f path =
     (case fs_file f (path @ ''/history'') of
        None \<Rightarrow> (-1, [])
      | Some content \<Rightarrow>
          if MAX_HISTORY_ENTRIES * HISTORY_ENTRY_SIZE \<le> length content
          then (0, map (\<lambda>i. bytes_entry (take HISTORY_ENTRY_SIZE (drop (HISTORY_ENTRY_SIZE * i) content))) [0..<MAX_HISTORY_ENTRIES])
          else (HIST_EIO, []))"

definition SaveHistoryFile :: "fs \<Rightarrow> string \<Rightarrow> HistoryEntry list \<Rightarrow> int \<times> fs" where
  "SaveHistoryFile f path entries =
     (case open_file f (path @ ''/history'') O_WRITE of
        (None, f1) \<Rightarrow> (-1, f1)
      | (Some _, f1) \<Rightarrow> (0, f1\<lparr>fs_file := (fs_file f1)(path @ ''/history'' \<mapsto> concat (map entry_bytes entries))\<rparr>))"

text \<open>The old record is appended; the file is not created.\<close>

definition AddOldHistoryFileRecord :: "fs \<Rightarrow> string \<Rightarrow> HistoryEntry \<Rightarrow> int \<times> fs" where
  "AddOldHistoryFileRecord f path old =
     (let fullpath = path @ ''/history.old''
      in case fs_file f fullpath of
           None \<Rightarrow> (-1, f)
         | Some c \<Rightarrow> if fs_writable f fullpath then (0, f\<lparr>fs_file := (fs_file f)(fullpath \<mapsto> c @ entry_bytes old)\<rparr>) else (-1, f))"

section \<open>The date\<close>

definition btoi :: "u8 \<Rightarrow> nat" where
  "btoi b = unat b div 16 * 10 + unat b mod 16"

definition OSD_HISTORY_SET_DATE :: "nat \<Rightarrow> nat \<Rightarrow> nat \<Rightarrow> u16" where
  "OSD_HISTORY_SET_DATE year month date =
     push_bit 9 (of_nat year) OR push_bit 5 (of_nat month AND 0xF) OR (of_nat date AND 0x1F)"

definition OSD_HISTORY_GET_YEAR :: "u16 \<Rightarrow> u16" where "OSD_HISTORY_GET_YEAR d = drop_bit 9 d AND 0x7F"
definition OSD_HISTORY_GET_MONTH :: "u16 \<Rightarrow> u16" where "OSD_HISTORY_GET_MONTH d = drop_bit 5 d AND 0xF"
definition OSD_HISTORY_GET_DATE :: "u16 \<Rightarrow> u16" where "OSD_HISTORY_GET_DATE d = d AND 0x1F"

text \<open>The clock gives year, month and day in binary coded decimal.\<close>

definition GetTimestamp :: "u8 \<times> u8 \<times> u8 \<Rightarrow> u16" where
  "GetTimestamp clock = (case clock of (y, m, d) \<Rightarrow> OSD_HISTORY_SET_DATE (btoi y) (btoi (m AND 0x7F)) (btoi d))"

section \<open>A launch of a game\<close>

text \<open>The search for a bit of the mask that is still clear; \<open>None\<close> when it never ends.\<close>

partial_function (option) pick_bit :: "(nat \<Rightarrow> nat) \<Rightarrow> nat \<Rightarrow> u8 \<Rightarrow> (nat \<times> nat) option" where
  "pick_bit rnd k bm =
     (let v = rnd k mod 6 in if bit bm v then pick_bit rnd (k + 1) bm else Some (v, k + 1))"

declare pick_bit.simps [code]

definition update_entry :: "(nat \<Rightarrow> nat) \<Rightarrow> u16 \<Rightarrow> nat \<Rightarrow> HistoryEntry \<Rightarrow> (HistoryEntry \<times> nat) option" where
  "update_entry rnd date k e0 =
     (let e = e0\<lparr>he_date := date\<rparr>
      in if he_mask e AND 0x3F \<noteq> 0x3F then
           let n0 = unat (he_count e) + 1; n = (if 0x80 \<le> n0 then 0x7F else n0)
           in map_option (\<lambda>(e1, k1). (e1\<lparr>he_count := of_nat n\<rparr>, k1))
                (if 14 \<le> n \<and> (n - 14) mod 10 = 0
                 then map_option (\<lambda>(v, k1). (e\<lparr>he_shift := of_nat v, he_mask := he_mask e OR push_bit v 1\<rparr>, k1)) (pick_bit rnd k (he_mask e))
                 else Some (e, k))
         else if he_count e < 0x3F then Some (e\<lparr>he_count := he_count e + 1\<rparr>, k)
         else Some (e\<lparr>he_count := he_mask e AND 0x3F, he_shift := 7\<rparr>, k))"

definition same_name :: "HistoryEntry \<Rightarrow> string \<Rightarrow> bool" where
  "same_name e name \<longleftrightarrow> takeWhile (\<lambda>c. c \<noteq> NUL) (he_name e) = take HISTORY_NAME name"

record scan_acc =
  sa_least :: nat
  sa_count :: int
  sa_time :: int
  sa_new :: bool
  sa_rnd :: nat

definition least_used :: "nat \<Rightarrow> HistoryEntry \<Rightarrow> scan_acc \<Rightarrow> scan_acc" where
  "least_used i e a =
     (let a1 = (if int (unat (he_count e)) < sa_count a then a\<lparr>sa_least := i, sa_count := int (unat (he_count e))\<rparr> else a)
      in if sa_count a1 = int (unat (he_count e)) \<and> int (unat (he_date e)) < sa_time a1
         then a1\<lparr>sa_time := int (unat (he_date e)), sa_least := i\<rparr> else a1)"

fun scan_history ::
  "(nat \<Rightarrow> nat) \<Rightarrow> u16 \<Rightarrow> string \<Rightarrow> nat \<Rightarrow> HistoryEntry list \<Rightarrow> scan_acc \<Rightarrow> (HistoryEntry list \<times> scan_acc) option" where
  "scan_history rnd date name i [] a = Some ([], a)"
| "scan_history rnd date name i (e # es) a =
     (let a1 = least_used i e a
      in if same_name e name then
           Option.bind (update_entry rnd date (sa_rnd a1) e) (\<lambda>(e1, k).
             map_option (\<lambda>(es1, a2). (e1 # es1, a2)) (scan_history rnd date name (i + 1) es (a1\<lparr>sa_new := False, sa_rnd := k\<rparr>)))
         else map_option (\<lambda>(es1, a2). (e # es1, a2)) (scan_history rnd date name (i + 1) es a1))"

definition scan_start :: scan_acc where
  "scan_start = \<lparr>sa_least = 0, sa_count = 2 ^ 31 - 1, sa_time = 2 ^ 31 - 1, sa_new = True, sa_rnd = 0\<rparr>"

definition blank_slots :: "HistoryEntry list \<Rightarrow> nat list" where
  "blank_slots es = filter (\<lambda>i. he_name (es ! i) ! 0 = NUL) [0..<length es]"

definition slots_used :: "HistoryEntry list \<Rightarrow> nat" where
  "slots_used es = length (filter (\<lambda>e. he_name e ! 0 \<noteq> NUL \<and> he_shift e = 7) es)"

text \<open>The last byte of the name array keeps what it held.\<close>

definition init_entry :: "string \<Rightarrow> u16 \<Rightarrow> HistoryEntry \<Rightarrow> HistoryEntry" where
  "init_entry name date e = e\<lparr>he_name := take 15 (name @ replicate 15 NUL) @ drop 15 (he_name e),
     he_count := 1, he_mask := 1, he_shift := 0, he_date := date\<rparr>"

text \<open>The new entries and the record that was overwritten, if any.\<close>

definition place_record ::
  "(nat \<Rightarrow> nat) \<Rightarrow> u16 \<Rightarrow> string \<Rightarrow> scan_acc \<Rightarrow> HistoryEntry list \<Rightarrow> HistoryEntry list \<times> HistoryEntry option" where
  "place_record rnd date name a es =
     (if slots_used es \<noteq> MAX_HISTORY_ENTRIES then
        let blanks = blank_slots es
        in if blanks \<noteq> [] then
             let i = blanks ! (rnd (sa_rnd a) mod length blanks) in (es[i := init_entry name date (es ! i)], None)
           else (es[sa_least a := init_entry name date (es ! sa_least a)], Some (es ! sa_least a))
      else (es, None))"

definition update_history ::
  "(nat \<Rightarrow> nat) \<Rightarrow> u16 \<Rightarrow> string \<Rightarrow> HistoryEntry list \<Rightarrow> (HistoryEntry list \<times> HistoryEntry option) option" where
  "update_history rnd date name es =
     map_option (\<lambda>(es1, a). if sa_new a then place_record rnd date name a es1 else (es1, None))
       (scan_history rnd date name 0 es scan_start)"

text \<open>\<open>cards i\<close> says whether slot \<open>i\<close> holds a formatted PS2 card.\<close>

record hist_env =
  hv_cards :: "nat \<Rightarrow> bool"
  hv_icon :: "char \<Rightarrow> string"
  hv_clock :: "u8 \<times> u8 \<times> u8"
  hv_rnd :: "nat \<Rightarrow> nat"

definition AddHistoryRecord :: "hist_env \<Rightarrow> region_state \<Rightarrow> string \<Rightarrow> fs \<Rightarrow> ((int \<times> fs) cres) option" where
  "AddHistoryRecord env r name f =
     (if \<not> hv_cards env 0 \<and> \<not> hv_cards env 1 then Some (Inr (-1, f))
      else
        let slot = (if hv_cards env 0 then 0 else 1);
            path = ''mc'' @ show_nat slot @ '':/'' @ SystemDataFolderPath r
        in if 32 \<le> length path then Some (Inl OutOfBounds)
           else
             let (res, loaded) = LoadHistoryFile f path;
                 prep = (if res = 0 then Inr (loaded, f)
                         else if SystemFolderLetter r = CHR ''R'' then Inl (-2, f)
                         else let (c, f1) = CreateSystemDataFolder (hv_icon env) f path (SystemFolderLetter r)
                              in if c \<noteq> 0 then Inl (c, f1) else Inr (replicate MAX_HISTORY_ENTRIES blank_entry, f1))
             in case prep of
                  Inl e \<Rightarrow> Some (Inr e)
                | Inr (es, f1) \<Rightarrow>
                    map_option (\<lambda>(es1, old).
                        Inr (SaveHistoryFile (case old of None \<Rightarrow> f1 | Some rec \<Rightarrow> snd (AddOldHistoryFileRecord f1 path rec)) path es1))
                      (update_history (hv_rnd env) (GetTimestamp (hv_clock env)) name es))"

text \<open>The file name in a boot path: \<open>i\<close> runs down from the end and does not look at index 0.\<close>

fun boot_name :: "string \<Rightarrow> nat \<Rightarrow> string" where
  "boot_name bootpath 0 = take 16 bootpath"
| "boot_name bootpath (Suc i) =
     (let c = (bootpath @ [NUL]) ! Suc i; len = length bootpath
      in if c = BACKSLASH \<or> c = CHR '':'' \<or> c = CHR ''/'' then
           let len1 = (if 2 < len \<and> bootpath ! (len - 1) = CHR ''1'' \<and> bootpath ! (len - 2) = CHR '';'' then len - 2 else len)
           in take (min 16 (len1 - (Suc i + 1))) (drop (Suc i + 1) bootpath)
         else boot_name bootpath i)"

definition GetBootFilename :: "string \<Rightarrow> string" where
  "GetBootFilename bootpath = boot_name bootpath (length bootpath)"

definition AddHistoryRecordUsingFullPath :: "hist_env \<Rightarrow> region_state \<Rightarrow> string \<Rightarrow> fs \<Rightarrow> ((int \<times> fs) cres) option" where
  "AddHistoryRecordUsingFullPath env r path f = AddHistoryRecord env r (GetBootFilename path) f"

section \<open>Lemmas\<close>

lemma char_u8_char [simp]: "char_u8 (u8_char b) = b"
  by (simp add: char_u8_def u8_char_def unsigned_less [of b, simplified])

lemma entry_bytes_roundtrip:
  assumes "length (he_name e) = HISTORY_NAME"
  shows "bytes_entry (entry_bytes e) = e" and "length (entry_bytes e) = HISTORY_ENTRY_SIZE"
proof -
  have "ucast (ucast w :: u8) OR push_bit 8 (ucast (ucast (drop_bit 8 w) :: u8)) = w" for w :: u16
  proof (rule bit_word_eqI)
    fix n assume "n < LENGTH(16)"
    then show "bit (ucast (ucast w :: u8) OR push_bit 8 (ucast (ucast (drop_bit 8 w) :: u8)) :: u16) n \<longleftrightarrow> bit w n"
      by (cases "n < 8") (auto simp: bit_simps)
  qed
  then show "bytes_entry (entry_bytes e) = e" using assms by (simp add: bytes_entry_def entry_bytes_def nth_append)
  show "length (entry_bytes e) = HISTORY_ENTRY_SIZE" using assms by (simp add: entry_bytes_def)
qed

lemma concat_entry:
  assumes "\<forall>e \<in> set es. length (he_name e) = HISTORY_NAME" "i < length es"
  shows "take HISTORY_ENTRY_SIZE (drop (HISTORY_ENTRY_SIZE * i) (concat (map entry_bytes es))) = entry_bytes (es ! i)"
  using assms
proof (induction es arbitrary: i)
  case (Cons e es)
  then show ?case by (cases i) (simp_all add: entry_bytes_roundtrip)
qed simp

text \<open>What is saved is loaded back.\<close>

lemma history_file_roundtrip:
  assumes "SaveHistoryFile f path es = (0, f1)" "length es = MAX_HISTORY_ENTRIES" "\<forall>e \<in> set es. length (he_name e) = HISTORY_NAME"
  shows "LoadHistoryFile f1 path = (0, es)"
proof -
  have "length (concat (map entry_bytes es)) = HISTORY_ENTRY_SIZE * length es"
    using assms(3) by (induction es) (simp_all add: entry_bytes_roundtrip)
  moreover have "fs_file f1 (path @ ''/history'') = Some (concat (map entry_bytes es))"
    using assms(1) by (auto simp: SaveHistoryFile_def open_file_def split: if_splits)
  moreover have "map (\<lambda>i. bytes_entry (take HISTORY_ENTRY_SIZE (drop (HISTORY_ENTRY_SIZE * i) (concat (map entry_bytes es))))) [0..<MAX_HISTORY_ENTRIES] = es"
    using concat_entry [OF assms(3)] assms(2,3) by (intro nth_equalityI) (simp_all add: entry_bytes_roundtrip del: upt_Suc)
  ultimately show ?thesis using assms(2) by (simp add: LoadHistoryFile_def)
qed

text \<open>Dates of the years 2000 to 2127 survive the packing.\<close>

lemma date_roundtrip:
  assumes "y < 128" "m < 16" "d < 32"
  shows "OSD_HISTORY_GET_YEAR (OSD_HISTORY_SET_DATE y m d) = of_nat y" and "OSD_HISTORY_GET_MONTH (OSD_HISTORY_SET_DATE y m d) = of_nat m"
    and "OSD_HISTORY_GET_DATE (OSD_HISTORY_SET_DATE y m d) = of_nat d"
proof -
  have ms: "(0x7F :: u16) = mask 7" "(0xF :: u16) = mask 4" "(0x1F :: u16) = mask 5" by (simp_all add: mask_eq_exp_minus_1)
  have b: "n < k" if "bit x n" "x < 2 ^ k" for x k n :: nat
  proof -
    have "take_bit k x = x" using that(2) by (simp add: take_bit_nat_eq_self_iff)
    then show ?thesis using that(1) by (metis bit_take_bit_iff)
  qed
  have yb: "bit y n \<Longrightarrow> n < 7" and bm: "bit m n \<Longrightarrow> n < 4" and bd: "bit d n \<Longrightarrow> n < 5" for n
    using b [of y n 7] b [of m n 4] b [of d n 5] assms by simp_all
  show "OSD_HISTORY_GET_YEAR (OSD_HISTORY_SET_DATE y m d) = of_nat y"
    unfolding OSD_HISTORY_GET_YEAR_def OSD_HISTORY_SET_DATE_def ms
    by (intro bit_word_eqI) (auto simp: bit_simps dest: yb bm bd)
  show "OSD_HISTORY_GET_MONTH (OSD_HISTORY_SET_DATE y m d) = of_nat m"
    unfolding OSD_HISTORY_GET_MONTH_def OSD_HISTORY_SET_DATE_def ms
    by (intro bit_word_eqI) (auto simp: bit_simps dest: yb bm bd)
  show "OSD_HISTORY_GET_DATE (OSD_HISTORY_SET_DATE y m d) = of_nat d"
    unfolding OSD_HISTORY_GET_DATE_def OSD_HISTORY_SET_DATE_def ms
    by (intro bit_word_eqI) (auto simp: bit_simps dest: yb bm bd)
qed

subsection \<open>Repeated launches\<close>

text \<open>The random numbers hit every residue again and again.\<close>

definition fair :: "(nat \<Rightarrow> nat) \<Rightarrow> bool" where
  "fair rnd \<longleftrightarrow> (\<forall>k. \<forall>v < 6. \<exists>j \<ge> k. rnd j mod 6 = v)"

lemma pick_bit_returns:
  assumes "\<not> bit bm (rnd j mod 6)" "k \<le> j"
  shows "\<exists>v k'. pick_bit rnd k bm = Some (v, k') \<and> v < 6 \<and> \<not> bit bm v"
  using assms(2)
proof (induction k rule: inc_induct)
  case base
  with assms(1) show ?case by (subst pick_bit.simps) simp
next
  case (step k)
  then show ?case by (subst pick_bit.simps) (auto simp: Let_def)
qed

definition mask_bits :: "u8 \<Rightarrow> nat set" where
  "mask_bits bm = {b. b < 6 \<and> bit bm b}"

lemma mask_bits_finite [simp]: "finite (mask_bits bm)" "mask_bits bm \<subseteq> {..<6}"
  by (auto simp: mask_bits_def)

lemma mask_full: "bm AND 0x3F = (0x3F :: u8) \<longleftrightarrow> mask_bits bm = {..<6}"
proof -
  have m: "(0x3F :: u8) = mask 6" by (simp add: mask_eq_exp_minus_1)
  show ?thesis
  proof
    assume e: "bm AND 0x3F = (0x3F :: u8)"
    have "bit bm b" if "b < 6" for b
    proof -
      have "bit (bm AND mask 6 :: u8) b" using e that unfolding m by (simp add: bit_mask_iff)
      then show ?thesis by (simp add: bit_and_iff)
    qed
    then show "mask_bits bm = {..<6}" by (auto simp: mask_bits_def)
  next
    assume "mask_bits bm = {..<6}"
    then show "bm AND 0x3F = (0x3F :: u8)" unfolding m
      by (intro bit_word_eqI) (auto simp: mask_bits_def bit_and_iff bit_mask_iff)
  qed
qed

lemma mask_full_card: "bm AND 0x3F = (0x3F :: u8) \<longleftrightarrow> card (mask_bits bm) = 6"
proof -
  have "mask_bits bm = {..<6}" if "card (mask_bits bm) = 6"
    using that by (intro card_subset_eq) simp_all
  then have "card (mask_bits bm) = 6 \<longleftrightarrow> mask_bits bm = {..<6}" by (metis card_lessThan)
  then show ?thesis using mask_full by simp
qed

lemma pick_bit_fair:
  assumes "fair rnd" "bm AND 0x3F \<noteq> 0x3F"
  shows "\<exists>v k'. pick_bit rnd k bm = Some (v, k') \<and> v < 6 \<and> \<not> bit bm v"
proof -
  obtain v where v: "v < 6" "\<not> bit bm v" using assms(2) mask_full by (auto simp: mask_bits_def)
  then obtain j where "k \<le> j" "rnd j mod 6 = v" using assms(1) by (auto simp: fair_def)
  with v pick_bit_returns show ?thesis by blast
qed

lemma mask_bits_set: "v < 6 \<Longrightarrow> \<not> bit bm v \<Longrightarrow> card (mask_bits (bm OR 2 ^ v)) = Suc (card (mask_bits bm))"
proof -
  assume v: "v < 6" "\<not> bit bm v"
  have "bit (2 ^ v :: u8) b \<longleftrightarrow> b = v" if "b < 6" for b
    using that v(1) by (auto simp: bit_exp_iff)
  then have "mask_bits (bm OR 2 ^ v) = insert v (mask_bits bm)" using v(1) by (auto simp: mask_bits_def bit_or_iff)
  moreover have "v \<notin> mask_bits bm" using v by (simp add: mask_bits_def)
  ultimately show ?thesis by simp
qed

text \<open>How many bits are set after \<open>n\<close> launches.\<close>

definition bits_after :: "nat \<Rightarrow> nat" where
  "bits_after n = (if n < 14 then 1 else min 6 (2 + (n - 14) div 10))"

definition launched :: "nat \<Rightarrow> HistoryEntry \<Rightarrow> bool" where
  "launched n e \<longleftrightarrow> unat (he_count e) = min n 63 \<and> card (mask_bits (he_mask e)) = bits_after n \<and> (he_shift e = 7 \<longleftrightarrow> 64 \<le> n) \<and>
     he_mask e AND 0xC0 = 0"

lemma u8_of_nat: "n < 256 \<Longrightarrow> unat (of_nat n :: u8) = n"
  by (simp add: unsigned_of_nat take_bit_eq_mod)

lemma bits_after_Suc: "n < 54 \<Longrightarrow> bits_after (Suc n) = (if 14 \<le> Suc n \<and> (Suc n - 14) mod 10 = 0 then Suc (bits_after n) else bits_after n)"
proof -
  have "\<forall>n \<in> set [0..<54]. bits_after (Suc n) = (if 14 \<le> Suc n \<and> (Suc n - 14) mod 10 = 0 then Suc (bits_after n) else bits_after n)"
    by code_simp
  then show "n < 54 \<Longrightarrow> ?thesis" by simp
qed

lemma bits_after_full: "bits_after n = 6 \<longleftrightarrow> 54 \<le> n"
  by (auto simp: bits_after_def)

lemma update_launched:
  assumes "fair rnd" "launched n e" "0 < n"
  shows "\<exists>e' k'. update_entry rnd date k e = Some (e', k') \<and> launched (Suc n) e' \<and> he_name e' = he_name e \<and> he_date e' = date"
proof (cases "n < 54")
  case True
  then have nf: "he_mask e AND 0x3F \<noteq> 0x3F" using assms(2) bits_after_full [of n] by (simp add: mask_full_card launched_def)
  have c: "unat (he_count e) = n" using assms(2) True by (simp add: launched_def)
  have hi: "push_bit v (1 :: u8) AND 0xC0 = 0" if "v < 6" for v
  proof -
    have "\<forall>v \<in> set [0..<6]. push_bit v (1 :: u8) AND 0xC0 = 0" by (simp add: upt_rec)
    with that show ?thesis by simp
  qed
  obtain v k' where p: "pick_bit rnd k (he_mask e) = Some (v, k')" "v < 6" "\<not> bit (he_mask e) v"
    using pick_bit_fair [OF assms(1) nf] by blast
  have s: "(of_nat v :: u8) \<noteq> 7"
  proof
    assume "(of_nat v :: u8) = 7"
    then have "unat (of_nat v :: u8) = 7" by simp
    with p(2) u8_of_nat [of v] show False by simp
  qed
  have u: "unat (1 + of_nat n :: u8) = Suc n" using u8_of_nat [of "Suc n"] True by simp
  show ?thesis
  proof (cases "14 \<le> Suc n \<and> (Suc n - 14) mod 10 = 0")
    case True
    with \<open>n < 54\<close> nf c p s u assms(2) hi [OF p(2)] show ?thesis
      by (simp add: update_entry_def Let_def launched_def bits_after_Suc mask_bits_set u8_of_nat bit.conj_disj_distrib2)
  next
    case False
    with \<open>n < 54\<close> nf c u assms(2) show ?thesis
      by (auto simp: update_entry_def Let_def launched_def bits_after_Suc u8_of_nat)
  qed
next
  case False
  then have f: "he_mask e AND 0x3F = 0x3F" using assms(2) bits_after_full [of n] by (simp add: mask_full_card launched_def)
  have b: "bits_after n = 6" "bits_after (Suc n) = 6" using False bits_after_full [of n] bits_after_full [of "Suc n"] by auto
  show ?thesis
  proof (cases "n < 63")
    case True
    then have "unat (he_count e) = n" using assms(2) by (simp add: launched_def)
    moreover from this True have "he_count e < 0x3F" "unat (he_count e + 1) = Suc n"
      by (simp_all add: word_less_nat_alt unat_word_ariths)
    ultimately show ?thesis using f b assms(2) True by (simp add: update_entry_def Let_def launched_def)
  next
    case False
    then have "unat (he_count e) = 63" using assms(2) by (simp add: launched_def)
    then have "\<not> he_count e < 0x3F" by (simp add: word_less_nat_alt)
    then show ?thesis using f b assms(2) False by (simp add: update_entry_def Let_def launched_def)
  qed
qed

lemma init_launched: "launched 1 (init_entry name date e)"
proof -
  have "mask_bits 1 = {0}" by (auto simp: mask_bits_def bit_1_iff)
  then show ?thesis by (simp add: launched_def init_entry_def bits_after_def)
qed

subsection \<open>The scan\<close>

lemma scan_no_match:
  assumes "\<forall>e \<in> set es. \<not> same_name e name"
  shows "\<exists>a'. scan_history rnd date name i es a = Some (es, a') \<and> sa_new a' = sa_new a"
  using assms
proof (induction es arbitrary: i a)
  case (Cons e es)
  obtain a' where "scan_history rnd date name (i + 1) es (least_used i e a) = Some (es, a')" "sa_new a' = sa_new (least_used i e a)"
    using Cons.IH [of "i + 1" "least_used i e a"] Cons.prems by auto
  moreover have "sa_new (least_used i e a) = sa_new a" by (simp add: least_used_def Let_def)
  ultimately show ?case using Cons.prems by simp
qed simp

text \<open>The slot to overwrite has the lowest launch count so far.\<close>

definition least_ok :: "HistoryEntry list \<Rightarrow> scan_acc \<Rightarrow> bool" where
  "least_ok pre a \<longleftrightarrow> pre \<noteq> [] \<longrightarrow> sa_least a < length pre \<and> sa_count a = int (unat (he_count (pre ! sa_least a))) \<and>
     (\<forall>e \<in> set pre. sa_count a \<le> int (unat (he_count e)))"

lemma least_used_step:
  assumes "least_ok pre a" "pre = [] \<longrightarrow> sa_count a = 2 ^ 31 - 1"
  shows "least_ok (pre @ [e]) (least_used (length pre) e a)"
proof -
  have "uint (he_count e) < 256" using unsigned_less [of "he_count e"] by simp
  with assms show ?thesis
    by (cases "pre = []") (auto simp: least_ok_def least_used_def Let_def nth_append)
qed

lemma scan_least:
  assumes "\<forall>e \<in> set es. \<not> same_name e name" "least_ok pre a" "pre = [] \<longrightarrow> sa_count a = 2 ^ 31 - 1"
  shows "scan_history rnd date name (length pre) es a = Some (es', a') \<Longrightarrow> least_ok (pre @ es) a'"
  using assms
proof (induction es arbitrary: pre a es')
  case (Cons e es)
  from Cons.prems(1,2) obtain es1 where "scan_history rnd date name (length (pre @ [e])) es (least_used (length pre) e a) = Some (es1, a')"
    by auto
  then have "least_ok ((pre @ [e]) @ es) a'"
    by (rule Cons.IH) (use Cons.prems least_used_step in auto)
  then show ?case by simp
qed simp

lemma scan_one_match:
  assumes "i < length es" "same_name (es ! i) name" "\<forall>j < length es. j \<noteq> i \<longrightarrow> \<not> same_name (es ! j) name"
    and "\<And>k. \<exists>e' k'. update_entry rnd date k (es ! i) = Some (e', k') \<and> Q e'"
  shows "\<exists>e' a'. scan_history rnd date name n es a = Some (es[i := e'], a') \<and> Q e' \<and> \<not> sa_new a'"
  using assms
proof (induction es arbitrary: i n a)
  case (Cons e es)
  show ?case
  proof (cases i)
    case 0
    obtain e' k' where u: "update_entry rnd date (sa_rnd (least_used n e a)) e = Some (e', k')" "Q e'" using Cons.prems(4) 0 by fastforce
    have "\<forall>x \<in> set es. \<not> same_name x name"
      using Cons.prems(3) 0 by (metis Suc_less_eq in_set_conv_nth length_Cons nat.distinct(1) nth_Cons_Suc)
    from scan_no_match [OF this, of rnd date "n + 1" "(least_used n e a)\<lparr>sa_new := False, sa_rnd := k'\<rparr>"]
    show ?thesis using u Cons.prems(2) 0 by (auto simp: Let_def)
  next
    case (Suc j)
    have "\<not> same_name e name" using Cons.prems(3) Suc by (metis length_greater_0_conv list.discI nat.distinct(1) nth_Cons_0)
    moreover have "\<exists>e' a'. scan_history rnd date name (n + 1) es (least_used n e a) = Some (es[j := e'], a') \<and> Q e' \<and> \<not> sa_new a'"
      using Cons.prems Suc by (intro Cons.IH) auto
    ultimately show ?thesis using Suc by (auto simp: Let_def)
  qed
qed simp

lemma update_known:
  assumes "fair rnd" "i < length es" "same_name (es ! i) name" "\<forall>j < length es. j \<noteq> i \<longrightarrow> \<not> same_name (es ! j) name"
    and "launched n (es ! i)" "0 < n"
  shows "\<exists>e'. update_history rnd date name es = Some (es[i := e'], None) \<and> launched (Suc n) e' \<and> he_name e' = he_name (es ! i)"
proof -
  have "\<exists>e' k'. update_entry rnd date k (es ! i) = Some (e', k') \<and> (launched (Suc n) e' \<and> he_name e' = he_name (es ! i))" for k
    using update_launched [OF assms(1,5,6)] by blast
  from scan_one_match [OF assms(2-4) this, of 0 scan_start] show ?thesis by (auto simp: update_history_def)
qed

text \<open>A series of launches of one game, each with its own random numbers and date.\<close>

fun launch_all :: "string \<Rightarrow> ((nat \<Rightarrow> nat) \<times> u16) list \<Rightarrow> HistoryEntry list \<Rightarrow> (HistoryEntry list) option" where
  "launch_all name [] es = Some es"
| "launch_all name ((rnd, date) # cs) es = Option.bind (update_history rnd date name es) (\<lambda>(es1, _). launch_all name cs es1)"

section \<open>Properties\<close>

text \<open>C29: the history counts launches: for a game with one entry that stands at \<open>n\<close> launches, any number of
  further launches changes only this entry, which then has the launch counter of all launches, held at
  63, one mask bit more for the 14th and for every tenth launch after it until all six are set at the
  54th, and the mark 7 from the 64th launch on.  The search for a free mask bit ends as long as the
  random numbers are fair.\<close>

theorem history_launches:
  assumes "\<forall>(rnd, date) \<in> set cs. fair rnd" and "i < length es" and "same_name (es ! i) name"
    and "\<forall>j < length es. j \<noteq> i \<longrightarrow> \<not> same_name (es ! j) name" and "launched n (es ! i)" and "0 < n"
  shows "\<exists>e'. launch_all name cs es = Some (es[i := e']) \<and> launched (n + length cs) e' \<and> he_name e' = he_name (es ! i)"
  using assms
proof (induction cs arbitrary: es n)
  case Nil
  have "es[i := es ! i] = es" by simp
  with Nil show ?case by (intro exI [of _ "es ! i"]) simp
next
  case (Cons c cs)
  obtain rnd date where c: "c = (rnd, date)" by fastforce
  obtain e1 where e1: "update_history rnd date name es = Some (es[i := e1], None)" "launched (Suc n) e1" "he_name e1 = he_name (es ! i)"
    using update_known [of rnd i es name n date] Cons.prems c by auto
  have "\<exists>e'. launch_all name cs (es[i := e1]) = Some ((es[i := e1])[i := e']) \<and> launched (Suc n + length cs) e' \<and> he_name e' = he_name (es[i := e1] ! i)"
    using Cons.prems e1 by (intro Cons.IH) (auto simp: same_name_def)
  with e1 Cons.prems(2) show ?case by (simp add: c)
qed

definition demo_rnd :: "nat \<Rightarrow> nat" where "demo_rnd k = k"

lemma demo_rnd_fair: "fair demo_rnd"
proof -
  have "\<exists>j \<ge> k. j mod 6 = v" if "v < 6" for k v :: nat
    using that by (intro exI [of _ "6 * k + v"]) simp
  then show ?thesis by (simp add: fair_def demo_rnd_def)
qed

definition demo_entry :: HistoryEntry where
  "demo_entry = init_entry ''SLUS_123.45'' 0 blank_entry"

theorem history_launches_witness:
  "\<exists>e'. launch_all ''SLUS_123.45'' (replicate 70 (demo_rnd, 7)) [blank_entry, demo_entry] = Some ([blank_entry, demo_entry][1 := e']) \<and>
    launched (1 + length (replicate 70 (demo_rnd, 7 :: u16))) e' \<and> he_name e' = he_name ([blank_entry, demo_entry] ! 1)"
proof (rule history_launches)
  show "launched 1 ([blank_entry, demo_entry] ! 1)" using init_launched by (simp add: demo_entry_def)
  show "\<forall>j < length [blank_entry, demo_entry]. j \<noteq> 1 \<longrightarrow> \<not> same_name ([blank_entry, demo_entry] ! j) ''SLUS_123.45''"
    by (auto simp: less_Suc_eq same_name_def blank_entry_def)
qed (simp_all add: demo_rnd_fair demo_entry_def same_name_def init_entry_def blank_entry_def)

text \<open>A game that is not in the history gets an entry without harm to the others: a blank slot if there
  is one, else the slot of an entry with the lowest launch count, whose old content is handed to
  \<open>history.old\<close>; when all entries carry the mark 7 nothing changes.\<close>

theorem history_new_record:
  assumes "\<forall>e \<in> set es. \<not> same_name e name" and "length es = MAX_HISTORY_ENTRIES"
  shows "\<exists>es' old. update_history rnd date name es = Some (es', old) \<and>
    (if slots_used es = MAX_HISTORY_ENTRIES then es' = es \<and> old = None
     else \<exists>i < MAX_HISTORY_ENTRIES. es' = es[i := init_entry name date (es ! i)] \<and>
       (if \<exists>e \<in> set es. he_name e ! 0 = NUL then he_name (es ! i) ! 0 = NUL \<and> old = None
        else old = Some (es ! i) \<and> (\<forall>e \<in> set es. he_count (es ! i) \<le> he_count e)))"
proof -
  obtain a where s: "scan_history rnd date name 0 es scan_start = Some (es, a)" "sa_new a"
    using scan_no_match [OF assms(1), of rnd date 0 scan_start] by (auto simp: scan_start_def)
  have "least_ok ([] @ es) a"
    using s(1) by (intro scan_least [OF assms(1)]) (simp_all add: least_ok_def scan_start_def)
  then have l: "sa_least a < MAX_HISTORY_ENTRIES" "\<forall>e \<in> set es. he_count (es ! sa_least a) \<le> he_count e"
    using assms(2) by (auto simp: least_ok_def word_le_def)
  have u: "update_history rnd date name es = Some (place_record rnd date name a es)" using s by (simp add: update_history_def)
  let ?bl = "blank_slots es"
  have bl: "?bl \<noteq> [] \<longleftrightarrow> (\<exists>e \<in> set es. he_name e ! 0 = NUL)"
    by (simp add: blank_slots_def filter_empty_conv Bex_def in_set_conv_nth) (blast dest: nth_mem)
  show ?thesis
  proof (cases "slots_used es = MAX_HISTORY_ENTRIES \<or> ?bl = []")
    case True
    with u l bl show ?thesis by (auto simp: place_record_def intro!: exI [of _ "sa_least a"])
  next
    case False
    then have "?bl ! (rnd (sa_rnd a) mod length ?bl) \<in> set ?bl" by (intro nth_mem) simp
    then have "?bl ! (rnd (sa_rnd a) mod length ?bl) < MAX_HISTORY_ENTRIES" "he_name (es ! (?bl ! (rnd (sa_rnd a) mod length ?bl))) ! 0 = NUL"
      using assms(2) by (auto simp: blank_slots_def simp del: nth_mem)
    with False u bl show ?thesis by (auto simp: place_record_def Let_def intro!: exI [of _ "?bl ! (rnd (sa_rnd a) mod length ?bl)"])
  qed
qed

theorem history_new_record_witness:
  "\<exists>es' old. update_history demo_rnd 7 ''SLES_555.55'' (replicate MAX_HISTORY_ENTRIES demo_entry) = Some (es', old) \<and>
    (if slots_used (replicate MAX_HISTORY_ENTRIES demo_entry) = MAX_HISTORY_ENTRIES then es' = replicate MAX_HISTORY_ENTRIES demo_entry \<and> old = None
     else \<exists>i < MAX_HISTORY_ENTRIES. es' = (replicate MAX_HISTORY_ENTRIES demo_entry)[i := init_entry ''SLES_555.55'' 7 (replicate MAX_HISTORY_ENTRIES demo_entry ! i)] \<and>
       (if \<exists>e \<in> set (replicate MAX_HISTORY_ENTRIES demo_entry). he_name e ! 0 = NUL
        then he_name (replicate MAX_HISTORY_ENTRIES demo_entry ! i) ! 0 = NUL \<and> old = None
        else old = Some (replicate MAX_HISTORY_ENTRIES demo_entry ! i) \<and>
          (\<forall>e \<in> set (replicate MAX_HISTORY_ENTRIES demo_entry). he_count (replicate MAX_HISTORY_ENTRIES demo_entry ! i) \<le> he_count e)))"
  by (rule history_new_record) (simp_all add: demo_entry_def same_name_def init_entry_def blank_entry_def)

end
