(* ===== verification/Gsm.thy ===== *)
theory Gsm
  imports Config
begin

text \<open>
  The video mode selector (\<open>src/gsm.c\<close>, \<open>include/pggsm.h\<close>): the settings of a game and the global ones,
  and the parameters of the chosen mode that are handed to the loader core.  The numbers of the
  graphics synthesizer's modes come from the console's libraries and are a parameter, \<open>gs\<close>.
\<close>

unbundle bit_operations_syntax

section \<open>The predefined modes\<close>


datatype gs_const = GS_INTERLACED | GS_NONINTERLACED | GS_FIELD | GS_FRAME |
  GS_MODE_NTSC | GS_MODE_PAL | GS_MODE_DTV_480P | GS_MODE_DTV_576P | GS_MODE_DTV_720P | GS_MODE_DTV_1080I | GS_MODE_VGA_640_60 | GS_MODE_VGA_640_72 | GS_MODE_VGA_640_75 | GS_MODE_VGA_640_85 | GS_MODE_VGA_800_56 | GS_MODE_VGA_800_60 | GS_MODE_VGA_800_72 | GS_MODE_VGA_800_75 | GS_MODE_VGA_800_85 | GS_MODE_VGA_1024_60 | GS_MODE_VGA_1024_70 | GS_MODE_VGA_1024_75 | GS_MODE_VGA_1024_85 | GS_MODE_VGA_1280_60 | GS_MODE_VGA_1280_75

record predef_vmode_struct =
  vm_interlace :: gs_const
  vm_mode :: gs_const
  vm_ffmd :: gs_const
  vm_display :: u64
  vm_syncv :: u64

definition makeDISPLAY :: "u64 \<Rightarrow> u64 \<Rightarrow> u64 \<Rightarrow> u64 \<Rightarrow> u64 \<Rightarrow> u64 \<Rightarrow> u64" where
  "makeDISPLAY DH DW MAGV MAGH DY DX =
     push_bit 44 DH OR push_bit 32 DW OR push_bit 27 MAGV OR push_bit 23 MAGH OR push_bit 12 DY OR push_bit 0 DX"

definition makeSYNCV :: "u64 \<Rightarrow> u64 \<Rightarrow> u64 \<Rightarrow> u64 \<Rightarrow> u64 \<Rightarrow> u64 \<Rightarrow> u64" where
  "makeSYNCV VS VDP VBPE VBP VFPE VFP =
     push_bit 53 VS OR push_bit 42 VDP OR push_bit 32 VBPE OR push_bit 20 VBP OR push_bit 10 VFPE OR push_bit 0 VFP"

definition vmode :: "gs_const \<Rightarrow> gs_const \<Rightarrow> gs_const \<Rightarrow> u64 \<Rightarrow> u64 \<Rightarrow> predef_vmode_struct" where
  "vmode interlace mode ffmd display syncv =
     \<lparr>vm_interlace = interlace, vm_mode = mode, vm_ffmd = ffmd, vm_display = display, vm_syncv = syncv\<rparr>"

definition predef_vmode :: "predef_vmode_struct list" where
  "predef_vmode =
    [vmode GS_INTERLACED GS_MODE_NTSC GS_FIELD (makeDISPLAY 447 2559 0 3 46 700) (makeSYNCV 6 480 6 26 6 1),
     vmode GS_INTERLACED GS_MODE_NTSC GS_FRAME (makeDISPLAY 223 2559 0 3 26 700) (makeSYNCV 6 480 6 26 6 2),
     vmode GS_INTERLACED GS_MODE_PAL GS_FIELD (makeDISPLAY 511 2559 0 3 70 720) (makeSYNCV 5 576 5 33 5 1),
     vmode GS_INTERLACED GS_MODE_PAL GS_FRAME (makeDISPLAY 255 2559 0 3 37 720) (makeSYNCV 5 576 5 33 5 4),
     vmode GS_INTERLACED GS_MODE_PAL GS_FIELD (makeDISPLAY 447 2559 0 3 46 700) (makeSYNCV 6 480 6 26 6 1),
     vmode GS_INTERLACED GS_MODE_PAL GS_FRAME (makeDISPLAY 223 2559 0 3 26 700) (makeSYNCV 6 480 6 26 6 2),
     vmode GS_NONINTERLACED GS_MODE_DTV_480P GS_FRAME (makeDISPLAY 255 2559 0 1 12 736) (makeSYNCV 6 483 3072 30 0 6),
     vmode GS_NONINTERLACED GS_MODE_DTV_576P GS_FRAME (makeDISPLAY 255 2559 0 1 23 756) (makeSYNCV 5 576 0 39 0 5),
     vmode GS_NONINTERLACED GS_MODE_DTV_480P GS_FRAME (makeDISPLAY 479 1439 0 1 35 232) (makeSYNCV 6 483 3072 30 0 6),
     vmode GS_NONINTERLACED GS_MODE_DTV_576P GS_FRAME (makeDISPLAY 575 1439 0 1 44 255) (makeSYNCV 5 576 0 39 0 5),
     vmode GS_NONINTERLACED GS_MODE_DTV_720P GS_FRAME (makeDISPLAY 719 1279 1 1 24 302) (makeSYNCV 5 720 0 20 0 5),
     vmode GS_INTERLACED GS_MODE_DTV_1080I GS_FIELD (makeDISPLAY 1079 1919 1 2 48 238) (makeSYNCV 10 1080 2 28 0 5),
     vmode GS_INTERLACED GS_MODE_DTV_1080I GS_FRAME (makeDISPLAY 1079 1919 0 2 48 238) (makeSYNCV 10 1080 2 28 0 5),
     vmode GS_NONINTERLACED GS_MODE_VGA_640_60 GS_FRAME (makeDISPLAY 479 1279 0 1 54 276) (makeSYNCV 2 480 0 33 0 10),
     vmode GS_NONINTERLACED GS_MODE_VGA_640_72 GS_FRAME (makeDISPLAY 479 1279 0 1 18 330) (makeSYNCV 3 480 0 28 0 9),
     vmode GS_NONINTERLACED GS_MODE_VGA_640_75 GS_FRAME (makeDISPLAY 479 1279 0 1 18 360) (makeSYNCV 3 480 0 16 0 1),
     vmode GS_NONINTERLACED GS_MODE_VGA_640_85 GS_FRAME (makeDISPLAY 479 1279 0 1 18 260) (makeSYNCV 3 480 0 16 0 1),
     vmode GS_INTERLACED GS_MODE_VGA_640_60 GS_FIELD (makeDISPLAY 959 1279 1 1 128 291) (makeSYNCV 2 992 0 33 0 10),
     vmode GS_NONINTERLACED GS_MODE_VGA_800_56 GS_FRAME (makeDISPLAY 599 1599 0 1 25 450) (makeSYNCV 2 600 0 22 0 1),
     vmode GS_NONINTERLACED GS_MODE_VGA_800_60 GS_FRAME (makeDISPLAY 599 1599 0 1 25 465) (makeSYNCV 4 600 0 23 0 1),
     vmode GS_NONINTERLACED GS_MODE_VGA_800_72 GS_FRAME (makeDISPLAY 599 1599 0 1 25 465) (makeSYNCV 6 600 0 23 0 37),
     vmode GS_NONINTERLACED GS_MODE_VGA_800_75 GS_FRAME (makeDISPLAY 599 1599 0 1 25 510) (makeSYNCV 3 600 0 21 0 1),
     vmode GS_NONINTERLACED GS_MODE_VGA_800_85 GS_FRAME (makeDISPLAY 599 1599 0 1 15 500) (makeSYNCV 3 600 0 27 0 1),
     vmode GS_NONINTERLACED GS_MODE_VGA_1024_60 GS_FRAME (makeDISPLAY 767 2047 0 2 30 580) (makeSYNCV 6 768 0 29 0 3),
     vmode GS_NONINTERLACED GS_MODE_VGA_1024_70 GS_FRAME (makeDISPLAY 767 1023 0 0 30 266) (makeSYNCV 6 768 0 29 0 3),
     vmode GS_NONINTERLACED GS_MODE_VGA_1024_75 GS_FRAME (makeDISPLAY 767 1023 0 0 30 260) (makeSYNCV 3 768 0 28 0 1),
     vmode GS_NONINTERLACED GS_MODE_VGA_1024_85 GS_FRAME (makeDISPLAY 767 1023 0 0 30 290) (makeSYNCV 3 768 0 36 0 1),
     vmode GS_NONINTERLACED GS_MODE_VGA_1280_60 GS_FRAME (makeDISPLAY 1023 1279 1 1 40 350) (makeSYNCV 3 1024 0 38 0 1),
     vmode GS_NONINTERLACED GS_MODE_VGA_1280_75 GS_FRAME (makeDISPLAY 1023 1279 1 1 40 350) (makeSYNCV 3 1024 0 38 0 1)]"

section \<open>The settings\<close>

record gsm_state =
  gGSMSource :: int
  gEnableGSM :: int
  gGSMVMode :: int
  gGSMXOffset :: int
  gGSMYOffset :: int
  gGSMFIELDFix :: int

definition gsm_off :: gsm_state where
  "gsm_off = \<lparr>gGSMSource = 0, gEnableGSM = 0, gGSMVMode = 0, gGSMXOffset = 0, gGSMYOffset = 0, gGSMFIELDFix = 0\<rparr>"

definition gsm_settings :: "config_set \<Rightarrow> gsm_state \<Rightarrow> gsm_state" where
  "gsm_settings cs st =
     (let st1 = st\<lparr>gEnableGSM := get_int_or cs ''$EnableGSM'' (gEnableGSM st)\<rparr>
      in if configGetInt cs ''$EnableGSM'' \<noteq> None \<and> gEnableGSM st1 \<noteq> 0 then
           st1\<lparr>gGSMVMode := get_int_or cs ''$GSMVMode'' (gGSMVMode st1),
               gGSMXOffset := get_int_or cs ''$GSMXOffset'' (gGSMXOffset st1),
               gGSMYOffset := get_int_or cs ''$GSMYOffset'' (gGSMYOffset st1),
               gGSMFIELDFix := get_int_or cs ''$GSMFIELDFix'' (gGSMFIELDFix st1)\<rparr>
         else st1)"

text \<open>The settings of the game, if it names a source, else the global ones; a launcher in progressive
  mode forces the 480p mode on games without a mode of their own.  \<open>gVMode\<close> is the mode of the launcher,
  \<open>cfg\<close> the configuration sets.\<close>

definition InitGSMConfig :: "int \<Rightarrow> config_state \<Rightarrow> config_set \<Rightarrow> gsm_state cres" where
  "InitGSMConfig gVMode cfg configSet =
     c_bind (case configGetInt configSet ''$GSMSource'' of
               Some src \<Rightarrow> Inr (gsm_settings configSet (gsm_off\<lparr>gGSMSource := src\<rparr>))
             | None \<Rightarrow>
                 (case configGetByType cfg CONFIG_GAME of
                    None \<Rightarrow> Inl NullDeref
                  | Some configGame \<Rightarrow> Inr (gsm_settings configGame gsm_off)))
       (\<lambda>st. Inr (if gVMode = 3 \<and> gEnableGSM st = 0
                  then st\<lparr>gEnableGSM := 1, gGSMVMode := 6, gGSMXOffset := 0, gGSMYOffset := 0, gGSMFIELDFix := 0\<rparr>
                  else st))"

definition GetGSMEnabled :: "gsm_state \<Rightarrow> int" where
  "GetGSMEnabled st = gEnableGSM st"

section \<open>The parameters of the mode\<close>

record GsmConfig =
  gc_interlace :: u16
  gc_mode :: u16
  gc_ffmd :: u16
  gc_dx_offset :: u32
  gc_dy_offset :: u32
  gc_display :: u64
  gc_syncv :: u64
  gc_smode2 :: u64
  gc_k576P_fix :: bool
  gc_kGsDxDyOffsetSupported :: bool
  gc_FIELD_fix :: bool

text \<open>What the version string of the ROM says: whether the 576p mode has to be added and whether the
  offset call exists.  The array of 16 characters holds \<open>stack\<close> before the file is read into it.\<close>

definition rom_features :: "string option \<Rightarrow> string \<Rightarrow> (bool \<times> bool) cres" where
  "rom_features rom stack =
     (case rom of
        None \<Rightarrow> Inr (False, False)
      | Some content \<Rightarrow>
          let romver = take 16 content @ drop (length (take 16 content)) stack;
              s = takeWhile (\<lambda>c. c \<noteq> NUL) romver
          in if NUL \<notin> set romver then Inl Unterminated
             else if length s < 9 then Inl OutOfBounds
             else Inr (strtoul10 (take 4 s) < 210, 20010608 < strtoul10 (drop (length s - 9) s)))"

definition gsm_cmdline :: "(gs_const \<Rightarrow> u8) \<Rightarrow> predef_vmode_struct \<Rightarrow> GsmConfig \<Rightarrow> string" where
  "gsm_cmdline gs v c =
     concat (map (\<lambda>n. show_nat n @ '' '')
       [unat (gs (vm_interlace v)), unat (gs (vm_mode v)), unat (gs (vm_ffmd v)), unat (vm_display v), unat (vm_syncv v),
        unat (gc_smode2 c), unat (gc_dx_offset c), unat (gc_dy_offset c), of_bool (gc_k576P_fix c), of_bool (gc_kGsDxDyOffsetSupported c)])
     @ show_nat (of_bool (gc_FIELD_fix c))"

definition PrepareGSM :: "(gs_const \<Rightarrow> u8) \<Rightarrow> string option \<Rightarrow> string \<Rightarrow> gsm_state \<Rightarrow> (string \<times> GsmConfig) cres" where
  "PrepareGSM gs rom stack st =
     c_bind (rom_features rom stack) (\<lambda>(k576p_fix, kGsDxDyOffsetSupported).
       if gGSMVMode st < 0 then Inl OutOfBounds
       else c_bind (peek predef_vmode (nat (gGSMVMode st))) (\<lambda>v.
         let c = \<lparr>gc_interlace = ucast (gs (vm_interlace v)), gc_mode = ucast (gs (vm_mode v)), gc_ffmd = ucast (gs (vm_ffmd v)),
                  gc_dx_offset = word_of_int (gGSMXOffset st), gc_dy_offset = word_of_int (gGSMYOffset st),
                  gc_display = vm_display v, gc_syncv = vm_syncv v,
                  gc_smode2 = push_bit 1 (ucast (gs (vm_ffmd v))) OR ucast (gs (vm_interlace v)),
                  gc_k576P_fix = k576p_fix, gc_kGsDxDyOffsetSupported = kGsDxDyOffsetSupported,
                  gc_FIELD_fix = (gGSMFIELDFix st \<noteq> 0)\<rparr>
         in Inr (gsm_cmdline gs v c, c)))"

section \<open>Lemmas and properties\<close>

lemma predef_vmode_length [simp]: "length predef_vmode = 29"
  by (simp add: predef_vmode_def)

lemma digit_text: "isdigit c \<Longrightarrow> \<not> isspace c \<and> c \<noteq> NUL \<and> c \<noteq> CHR ''-'' \<and> c \<noteq> CHR ''+''"
  by (auto simp: isdigit_def isspace_def code_def)

text \<open>A number of at most nine digits is read as written, whatever white space follows.\<close>

lemma strtoul10_digits:
  assumes "\<forall>c \<in> set ds. isdigit c" "ds \<noteq> []" "length ds \<le> 9" "rest = [] \<or> \<not> isdigit (hd rest)"
  shows "strtoul10 (ds @ rest) = atoi_digits 0 ds"
proof -
  have stop: "atoi_digits acc (ds @ rest) = atoi_digits acc ds" for acc
    using assms(1)
  proof (induction ds arbitrary: acc)
    case Nil
    with assms(4) show ?case by (cases rest) auto
  next
    case (Cons c ds)
    then show ?case by simp
  qed
  have "atoi_digits acc ds < (acc + 1) * 10 ^ length ds" for acc
    using assms(1)
  proof (induction ds arbitrary: acc)
    case Nil
    then show ?case by simp
  next
    case (Cons c ds)
    then have "code c - 48 \<le> 9" unfolding isdigit_def by auto
    then have "10 * acc + (code c - 48) + 1 \<le> (acc + 1) * 10" by simp
    then have "(10 * acc + (code c - 48) + 1) * 10 ^ length ds \<le> (acc + 1) * 10 * 10 ^ length ds"
      by (rule mult_right_mono) simp
    moreover have "atoi_digits (10 * acc + (code c - 48)) ds < (10 * acc + (code c - 48) + 1) * 10 ^ length ds"
      using Cons by simp
    ultimately show ?case using Cons.prems by (simp add: algebra_simps)
  qed
  from this [of 0] have "atoi_digits 0 ds < 10 ^ length ds" by simp
  also have "(10 :: nat) ^ length ds \<le> 10 ^ 9" using assms(3) by (intro power_increasing) simp_all
  finally have "min (2 ^ 32 - 1) (atoi_digits 0 ds) = atoi_digits 0 ds" by simp
  moreover obtain c cs where "ds = c # cs" using assms(2) by (cases ds) auto
  ultimately show ?thesis using stop [of 0] digit_text [of c] assms(1) by (simp add: strtoul10_def)
qed

lemma rom_features_text:
  assumes "\<forall>c \<in> set ver. isdigit c" "length ver = 4" "\<forall>c \<in> set date. isdigit c" "length date = 8"
    and "length rt = 2" "NUL \<notin> set rt"
  shows "rom_features (Some (ver @ rt @ date @ [LF, NUL])) stack = Inr (atoi_digits 0 ver < 210, 20010608 < atoi_digits 0 date)"
proof -
  have "\<forall>c \<in> set (ver @ rt @ date @ [LF]). c \<noteq> NUL" using assms digit_text by auto
  then have "takeWhile (\<lambda>c. c \<noteq> NUL) ((ver @ rt @ date @ [LF]) @ NUL # drop 16 stack) = ver @ rt @ date @ [LF]"
    by (subst takeWhile_append2) auto
  then have "takeWhile (\<lambda>c. c \<noteq> NUL) (ver @ rt @ date @ LF # NUL # drop 16 stack) = ver @ rt @ date @ [LF]" by simp
  moreover have "strtoul10 ver = atoi_digits 0 ver" using strtoul10_digits [of ver "[]"] assms(1,2) by (cases ver) auto
  moreover have "strtoul10 (date @ [LF]) = atoi_digits 0 date"
    using assms by (intro strtoul10_digits) (auto simp: isdigit_def code_def)
  ultimately show ?thesis using assms by (simp add: rom_features_def Let_def)
qed

text \<open>A mode of the table is handed to the loader as the table has it, with the offsets of the
  settings and with the two repairs the console's ROM version and date call for; a mode outside the table,
  which a configuration file may name, reads outside the array.\<close>

theorem PrepareGSM_table:
  assumes "\<forall>c \<in> set ver. isdigit c" "length ver = 4" "\<forall>c \<in> set date. isdigit c" "length date = 8"
    and "length rt = 2" "NUL \<notin> set rt"
  shows "PrepareGSM gs (Some (ver @ rt @ date @ [LF, NUL])) stack st =
    (if 0 \<le> gGSMVMode st \<and> gGSMVMode st < 29 then
       let v = predef_vmode ! nat (gGSMVMode st);
           c = \<lparr>gc_interlace = ucast (gs (vm_interlace v)), gc_mode = ucast (gs (vm_mode v)), gc_ffmd = ucast (gs (vm_ffmd v)),
                gc_dx_offset = word_of_int (gGSMXOffset st), gc_dy_offset = word_of_int (gGSMYOffset st),
                gc_display = vm_display v, gc_syncv = vm_syncv v,
                gc_smode2 = ucast (gs (vm_ffmd v)) * 2 OR ucast (gs (vm_interlace v)),
                gc_k576P_fix = (atoi_digits 0 ver < 210), gc_kGsDxDyOffsetSupported = (20010608 < atoi_digits 0 date),
                gc_FIELD_fix = (gGSMFIELDFix st \<noteq> 0)\<rparr>
       in Inr (gsm_cmdline gs v c, c)
     else Inl OutOfBounds)"
  using rom_features_text [OF assms] by (auto simp: PrepareGSM_def Let_def peek_def push_bit_eq_mult)

theorem PrepareGSM_table_witness:
  "PrepareGSM (\<lambda>_. 0) (Some (''0160'' @ ''AC'' @ ''20010704'' @ [LF, NUL])) [] (gsm_off\<lparr>gGSMVMode := 29\<rparr>) = Inl OutOfBounds \<and>
   (\<exists>cmd c. PrepareGSM (\<lambda>_. 0) (Some (''0160'' @ ''AC'' @ ''20010704'' @ [LF, NUL])) [] (gsm_off\<lparr>gGSMVMode := 6\<rparr>) = Inr (cmd, c) \<and>
      gc_k576P_fix c \<and> gc_kGsDxDyOffsetSupported c)"
proof -
  have d: "\<forall>c \<in> set ''0160''. isdigit c" "\<forall>c \<in> set ''20010704''. isdigit c" by (simp_all add: isdigit_def code_def)
  have n: "atoi_digits 0 ''0160'' = 160" "atoi_digits 0 ''20010704'' = 20010704" by (simp_all add: isdigit_def code_def)
  note t = PrepareGSM_table [OF d(1) _ d(2), of "''AC''" "\<lambda>_. 0" "[]"]
  show ?thesis using t [of "gsm_off\<lparr>gGSMVMode := 29\<rparr>"] t [of "gsm_off\<lparr>gGSMVMode := 6\<rparr>"]
    by (simp add: gsm_off_def Let_def n del: atoi_digits.simps)
qed

end
