(* ===== verification/GamePrep.thy ===== *)
theory GamePrep
  imports GameList Cheatman Gsm Pad Logo
begin

text \<open>
  The second half of \<open>src/supportbase.c\<close>: looking into a disc image for the size of its first layer and
  the volume of the second, and the preparation of a launch, which patches the settings into the
  in-game driver and collects the options of the game from its configuration, the cheats, the video
  mode and the pads.
\<close>

section \<open>Looking into an image\<close>

text \<open>The header of a compressed image and the first entry of its index must be there; \<open>z\<close> holds the
  index cache of the reader.\<close>

definition ProbeZISO :: "u8 list \<Rightarrow> ziso \<Rightarrow> ziso option" where
  "ProbeZISO content z =
     (if ZISO_HEADER_SIZE + 4 \<le> length content \<and> le32 content 0 = ZSO_MAGIC
      then Some (ziso_init (content ! 21) (le32 content 8) (le32 content 12) (ziso_idx_cache z))
      else None)"

text \<open>\<open>file\<close> is the content of the image, \<open>None\<close> when it cannot be opened; \<open>IOBuffer\<close> is the shared buffer
  of 2048 bytes.  A short read leaves \<open>maxLBA\<close> partly written, but then it is set to zero.\<close>

definition sbGetISO9660MaxLBA ::
  "u8 list option \<Rightarrow> (u8 list \<Rightarrow> u8 list) \<Rightarrow> ziso \<Rightarrow> u8 list \<Rightarrow> (u32 \<times> ziso \<times> u8 list) cres" where
  "sbGetISO9660MaxLBA file lz4 z IOBuffer =
     (case file of
        None \<Rightarrow> Inr (0, z, IOBuffer)
      | Some content \<Rightarrow>
          (case ProbeZISO content z of
             Some z1 \<Rightarrow>
               c_bind (ziso_read_sector (read_raw_file content) lz4 z1 IOBuffer 16 1) (\<lambda>(n, buf, z2).
                 if n = 1 then c_bind (mem_read buf 80 4) (\<lambda>w. Inr (le32 w 0, z2, buf)) else Inr (0, z2, buf))
           | None \<Rightarrow>
               let w = take 4 (drop (16 * 2048 + 80) content)
               in Inr (if length w = 4 then le32 w 0 else 0, z, IOBuffer)))"

definition is_volume :: "u8 list \<Rightarrow> bool" where
  "is_volume b \<longleftrightarrow> take 6 b = 1 # map char_byte ''CD001''"

text \<open>\<open>open_err\<close> is the negative error of a failed open.\<close>

definition sbProbeISO9660 ::
  "u8 list option \<Rightarrow> int \<Rightarrow> (u8 list \<Rightarrow> u8 list) \<Rightarrow> ziso \<Rightarrow> u8 list \<Rightarrow> base_game_info \<Rightarrow> u32 \<Rightarrow> (int \<times> ziso \<times> u8 list) cres" where
  "sbProbeISO9660 file open_err lz4 z IOBuffer game layer1_offset =
     (if gi_media game = SCECdPS2DVD then
        if 2086912 < layer1_offset then Inr (-1, z, IOBuffer)
        else case file of
          None \<Rightarrow> Inr (open_err, z, IOBuffer)
        | Some content \<Rightarrow>
            (case ProbeZISO content z of
               Some z1 \<Rightarrow>
                 c_bind (ziso_read_sector (read_raw_file content) lz4 z1 IOBuffer layer1_offset 1) (\<lambda>(n, buf, z2).
                   Inr (if n = 1 \<and> is_volume buf then 0 else -1, z2, buf))
             | None \<Rightarrow>
                 let b = take 6 (drop (unat layer1_offset * 2048) content)
                 in Inr (if length b = 6 \<and> is_volume b then 0 else -1, z, IOBuffer))
      else Inr (-1, z, IOBuffer))"

section \<open>The options of a launch\<close>

record launch_options =
  lo_cheats :: cheat_state
  lo_gsm :: gsm_state
  gPadEmuSource :: int
  gEnablePadEmu :: int
  gPadEmuSettings :: int
  gPadMacroSource :: int
  gPadMacroSettings :: int
  gOSDLanguageSource :: int
  gOSDLanguageEnable :: int
  gOSDLanguageValue :: int
  gOSDTVAspectRatio :: int
  gOSDVideOutput :: int

text \<open>A physical pad takes precedence over an emulated one in its port: emulation moves to the free
  second port or is switched off.  \<open>pads k\<close> is what the pad library reports to the \<open>k\<close>-th question for a
  physical pad.\<close>

type_synonym pad_reports = "nat \<Rightarrow> nat \<Rightarrow> nat \<Rightarrow> int \<times> int \<times> int"

definition sbApplyPadEmuPhysicalPriority :: "nat \<Rightarrow> pad_reports \<Rightarrow> launch_options \<Rightarrow> launch_options" where
  "sbApplyPadEmuPhysicalPriority portMax pads s =
     (if gEnablePadEmu s = 0 then s
      else if gPadEmuSettings s AND 0xFF \<noteq> 0 then s
      else
        let phys = (\<lambda>k. padIsPhysicalDualShockConnected portMax (pads k));
            enabledPorts = drop_bit 8 (gPadEmuSettings s) AND 0x0F;
            vibrationPorts = drop_bit 16 (gPadEmuSettings s) AND 0x0F;
            (enabledPorts, vibrationPorts) =
              (if phys 0 0 then
                 if enabledPorts AND 1 \<noteq> 0 \<and> \<not> phys 1 1
                 then ((enabledPorts AND NOT 1) OR 2, (vibrationPorts AND NOT 1) OR 2)
                 else (enabledPorts AND NOT 1, vibrationPorts AND NOT 1)
               else (enabledPorts, vibrationPorts));
            (enabledPorts, vibrationPorts) =
              (if phys 2 1 then (enabledPorts AND NOT 2, vibrationPorts AND NOT 2) else (enabledPorts, vibrationPorts))
        in s\<lparr>gPadEmuSettings := (gPadEmuSettings s AND NOT (push_bit 8 0x0F OR push_bit 16 0x0F)) OR
                (push_bit 8 enabledPorts OR push_bit 16 vibrationPorts),
             gEnablePadEmu := (if enabledPorts = 0 then 0 else gEnablePadEmu s)\<rparr>)"

section \<open>The settings in the driver\<close>

definition cdvdman_settings_common_sample :: "u8 list" where
  "cdvdman_settings_common_sample =
     [0x68, 0x68, 0x34, 0x12, 0x39, 0x39, 0x39, 0x39] @ map char_byte ''DSKID'' @ [16, 8, 16]"

text \<open>\<open>memcmp\<close> compares byte by byte and stops at the first difference, so that it leaves the image only
  when the image ends with a prefix of the sample.\<close>

definition memcmp_at :: "u8 list \<Rightarrow> nat \<Rightarrow> u8 list \<Rightarrow> bool cres" where
  "memcmp_at m i s =
     (if i + length s \<le> length m then Inr (take (length s) (drop i m) = s)
      else if drop i m = take (length m - i) s then Inl OutOfBounds
      else Inr False)"

function find_patch :: "u8 list \<Rightarrow> int \<Rightarrow> nat \<Rightarrow> (nat option) cres" where
  "find_patch irx sz i =
     (if int i < sz then
        c_bind (memcmp_at irx i cdvdman_settings_common_sample) (\<lambda>eq.
          if eq then Inr (Some i) else find_patch irx sz (i + 4))
      else Inr None)"
  by pat_completeness auto
termination by (relation "measure (\<lambda>(irx, sz, i). nat (sz - int i))") auto

declare find_patch.simps [simp del]

definition iopcore_flags :: "int \<Rightarrow> u16" where
  "iopcore_flags compatmask =
     (if compatmask AND 0x01 \<noteq> 0 then 0x0008 else 0) OR (if compatmask AND 0x02 \<noteq> 0 then 0x0001 else 0) OR
     (if compatmask AND 0x08 \<noteq> 0 then 0x0002 else 0) OR (if compatmask AND 0x10 \<noteq> 0 then 0x0004 else 0) OR
     (if compatmask AND 0x20 \<noteq> 0 then 0x0100 else 0)"

text \<open>The writes into the structure at \<open>i\<close>: parts and media unless the game is missing, flags, disc id and
  the modules to fake.  The start of the second layer, the cache size and the padding are left.\<close>

definition patch_settings :: "base_game_info option \<Rightarrow> u16 \<Rightarrow> u8 list \<Rightarrow> u8 \<Rightarrow> nat \<Rightarrow> u8 list \<Rightarrow> u8 list cres" where
  "patch_settings game flags gameid fakemodules i irx =
     c_bind (case game of Some g \<Rightarrow> mem_write irx i [gi_parts g, gi_media g] | None \<Rightarrow> Inr irx) (\<lambda>m1.
       c_bind (mem_write m1 (i + 2) [ucast flags, ucast (drop_bit 8 flags)]) (\<lambda>m2.
         c_bind (mem_write m2 (i + 14) [fakemodules]) (\<lambda>m3.
           mem_write m3 (i + 8) gameid)))"

text \<open>The settings of the game when it has a source of its own, else those of all games.\<close>

definition pick_source :: "config_set \<Rightarrow> config_set \<Rightarrow> string \<Rightarrow> config_set" where
  "pick_source configSet configGame key = (if configGetInt configSet key \<noteq> None then configSet else configGame)"

definition pademu_options :: "config_set \<Rightarrow> config_set \<Rightarrow> launch_options \<Rightarrow> launch_options" where
  "pademu_options configSet configGame s =
     (let pe = pick_source configSet configGame ''$PADEMUSource''; pm = pick_source configSet configGame ''$PadMacroSource''
      in s\<lparr>gPadEmuSource := get_int_or configSet ''$PADEMUSource'' 0,
           gEnablePadEmu := get_int_or pe ''$EnablePadEmu'' 0,
           gPadEmuSettings := get_int_or pe ''$PadEmuSettings'' 0,
           gPadMacroSource := get_int_or configSet ''$PadMacroSource'' 0,
           gPadMacroSettings := get_int_or pm ''$PadMacroSettings'' 0\<rparr>)"

definition osd_options :: "config_set \<Rightarrow> config_set \<Rightarrow> launch_options \<Rightarrow> launch_options" where
  "osd_options configSet configGame s =
     (let os = pick_source configSet configGame ''$CustomLanguageSource''
      in s\<lparr>gOSDLanguageSource := get_int_or configSet ''$CustomLanguageSource'' 0,
           gOSDLanguageEnable := get_int_or os ''$OSDSettingsEnable'' 0,
           gOSDLanguageValue := get_int_or os ''$CustomLanguageValue'' 0,
           gOSDTVAspectRatio := get_int_or os ''$OSDAspectRatio'' 0,
           gOSDVideOutput := get_int_or os ''$OSDVideoMode'' 0\<rparr>)"

text \<open>The result, the index of the patch (unset on an error), the patched image and the options.  A
  missing global set is only dereferenced where it is asked.\<close>

definition sbPrepare ::
  "int \<Rightarrow> nat \<Rightarrow> pad_reports \<Rightarrow> config_state \<Rightarrow> base_game_info option \<Rightarrow> config_set \<Rightarrow> int \<Rightarrow> u8 list \<Rightarrow> launch_options \<Rightarrow>
     (int \<times> nat option \<times> u8 list \<times> launch_options) cres" where
  "sbPrepare gVMode portMax pads cfg game configSet size_cdvdman irx s =
     (let compatmask = get_int_or configSet ''$Compatibility'' 0
      in c_bind (configGetDiscIDBinary configSet) (\<lambda>gameid.
         c_bind (find_patch irx size_cdvdman 0) (\<lambda>found.
           case found of
             None \<Rightarrow> Inr (-1, None, irx, s)
           | Some i \<Rightarrow>
               c_bind (InitGSMConfig gVMode cfg configSet) (\<lambda>gsm.
                 let s1 = s\<lparr>lo_gsm := gsm, lo_cheats := InitCheatsConfig cfg (Some configSet) (lo_cheats s)\<rparr>
                 in c_bind (case configGetByType cfg CONFIG_GAME of
                              Some configGame \<Rightarrow> Inr configGame
                            | None \<Rightarrow>
                                if configGetInt configSet ''$PADEMUSource'' \<noteq> None \<and> configGetInt configSet ''$PadMacroSource'' \<noteq> None \<and>
                                   configGetInt configSet ''$CustomLanguageSource'' \<noteq> None
                                then Inr configSet else Inl NullDeref) (\<lambda>configGame.
                      let s2 = sbApplyPadEmuPhysicalPriority portMax pads (pademu_options configSet configGame s1);
                          s3 = osd_options configSet configGame s2
                      in c_bind (patch_settings game (iopcore_flags compatmask) gameid
                                   (0x20 OR 0x10 OR (if gEnablePadEmu s3 \<noteq> 0 then 0x02 else 0)) i irx) (\<lambda>m.
                           Inr (compatmask, Some i, m, s3)))))))"

definition sbUnprepare :: "u8 list \<Rightarrow> nat \<Rightarrow> u8 list cres" where
  "sbUnprepare m pCommon = mem_write m pCommon cdvdman_settings_common_sample"

section \<open>The configuration of a game, folders, cheats\<close>

definition populate_size :: "(string \<Rightarrow> int option) \<Rightarrow> string \<Rightarrow> string \<Rightarrow> string \<Rightarrow> string \<Rightarrow> base_game_info \<Rightarrow> base_game_info" where
  "populate_size stat pre sep name ext game =
     (if gi_sizeMB game = 0 \<and> gi_format game \<noteq> GAME_FORMAT_OLD_ISO then
        let gamepath = snprintf 256 (pre @ sep @ media_folder (gi_media game) @ sep @ name @ ext)
        in game\<lparr>gi_sizeMB := (case stat gamepath of Some st_size \<Rightarrow> word_of_int (drop_bit 20 st_size) | None \<Rightarrow> 0)\<rparr>
      else game)"

definition populate_items :: "string \<Rightarrow> string \<Rightarrow> string \<Rightarrow> base_game_info \<Rightarrow> config_set \<Rightarrow> config_set" where
  "populate_items name ext startup game c0 =
     (let c1 = snd (configSetStr c0 ''#Name'' name);
          c2 = snd (configSetInt c1 ''#Size'' (sint (gi_sizeMB game)));
          c3 = (if gi_format game \<noteq> GAME_FORMAT_USBLD then
                  if ext = ''.iso'' then snd (configSetStr c2 ''#Format'' ''ISO'')
                  else if ext = ''.zso'' then snd (configSetStr c2 ''#Format'' ''ZSO'')
                  else c2
                else snd (configSetStr c2 ''#Format'' ''UL''));
          c4 = snd (configSetStr c3 ''#Media'' (media_folder (gi_media game)))
      in snd (configSetStr c4 ''#Startup'' startup))"

text \<open>Whether the file of the game could be read does not matter: a failed read leaves the new set as it
  is.  \<open>stat\<close> gives the size of a file.\<close>

definition sbPopulateConfig ::
  "(nat \<Rightarrow> char) \<Rightarrow> (string \<Rightarrow> int option) \<Rightarrow> util_state \<Rightarrow> config_state \<Rightarrow> base_game_info \<Rightarrow> string \<Rightarrow> string \<Rightarrow>
     (((config_set \<times> base_game_info) \<times> util_state \<times> config_state) cres) option" where
  "sbPopulateConfig mem stat ut cfg game pre sep =
     (case (cstr_arr (gi_startup game), cstr_arr (gi_name game), cstr_arr (gi_extension game)) of
        (Inr startup, Inr name, Inr ext) \<Rightarrow>
          (let (config, cfg1) = configAlloc cfg 0 (Some (snprintf 256 (pre @ ''CFG'' @ sep @ startup @ ''.cfg'')))
           in map_option (\<lambda>r. c_bind r (\<lambda>(_, c0, ut1).
                let game1 = populate_size stat pre sep name ext game
                in Inr ((populate_items name ext startup game1 c0, game1), ut1, cfg1)))
              (configRead mem ut config))
      | _ \<Rightarrow> Some (Inl Unterminated))"

fun sbCreateFoldersFromList :: "string \<Rightarrow> string list \<Rightarrow> fs \<Rightarrow> fs cres" where
  "sbCreateFoldersFromList path [] f = Inr f"
| "sbCreateFoldersFromList path (d # ds) f =
     (if 256 \<le> length (path @ d) then Inl OutOfBounds
      else sbCreateFoldersFromList path ds (snd (mkdir f (path @ d))))"

definition sbCreateFolders :: "string \<Rightarrow> bool \<Rightarrow> fs \<Rightarrow> fs cres" where
  "sbCreateFolders path createDiscImgFolders f =
     c_bind (sbCreateFoldersFromList path [''CFG'', ''THM'', ''LNG'', ''ART'', ''LOGO'', ''VMC'', ''CHT'', ''APPS''] f) (\<lambda>f1.
       if createDiscImgFolders then sbCreateFoldersFromList path [''CD'', ''DVD''] f1 else Inr f1)"

text \<open>\<open>auto_launch\<close> tells that a game is started without the menu, \<open>guiManageCheats\<close> is the dialog in which
  the user switches cheats on and off.\<close>

definition sbLoadCheats ::
  "bool \<Rightarrow> bool \<Rightarrow> (cheat_state \<Rightarrow> cheat_state) \<Rightarrow> util_state \<Rightarrow> string \<Rightarrow> string \<Rightarrow> cheat_state \<Rightarrow> (int \<times> cheat_state \<times> util_state) cres" where
  "sbLoadCheats io_ok auto_launch guiManageCheats ut path cht st =
     (if GetCheatsEnabled st \<noteq> 0 then
        c_bind (load_cheats io_ok ut (snprintf 64 (path @ ''CHT/'' @ cht @ ''.cht'')) st) (\<lambda>(cheatMode, st1, ut1).
          if cheatMode < 0 then Inr (cheatMode, st1, ut1)
          else c_bind (set_cheats_list (if \<not> auto_launch \<and> cheatMode = 1 then guiManageCheats st1 else st1)) (\<lambda>st2.
                 Inr (cheatMode, st2, ut1)))
      else Inr (0, st, ut))"

section \<open>A compressed image and the image it stands for\<close>

text \<open>The sectors of a compressed image, one after the other.\<close>

definition plain_image :: "(u8 list \<Rightarrow> u8 list) \<Rightarrow> u8 list \<Rightarrow> ziso \<Rightarrow> u8 list" where
  "plain_image lz4 content z =
     concat (map (sector lz4 content (unat (ziso_align z))) [0..<unat (ziso_total_block z)])"

definition zso_file :: "(u8 list \<Rightarrow> u8 list) \<Rightarrow> u8 list \<Rightarrow> ziso \<Rightarrow> bool" where
  "zso_file lz4 content z \<longleftrightarrow> zso_ok lz4 content (unat (ziso_align z)) (unat (ziso_total_block z))"

lemma concat_blocks:
  assumes "\<forall>k < n. length (f k) = m"
  shows "length (concat (map f [0..<n])) = n * m" "k < n \<Longrightarrow> take m (drop (k * m) (concat (map f [0..<n]))) = f k"
proof -
  show len: "length (concat (map f [0..<n])) = n * m"
    using assms by (induction n) auto
  have pre: "length (concat (map f [0..<k])) = k * m" if "k \<le> n" for k
    using assms that by (induction k) auto
  assume k: "k < n"
  then have "[0..<n] = [0..<k] @ k # [Suc k..<n]"
    using upt_add_eq_append [of 0 k "n - k"] by (simp add: upt_conv_Cons)
  then have "concat (map f [0..<n]) = concat (map f [0..<k]) @ f k @ concat (map f [Suc k..<n])" by simp
  moreover have "length (f k) = m" using assms k by simp
  ultimately show "take m (drop (k * m) (concat (map f [0..<n]))) = f k" using pre [of k] k by simp
qed

lemma plain_sector:
  assumes "zso_file lz4 content z"
  shows "length (plain_image lz4 content z) = unat (ziso_total_block z) * 2048"
    "k < unat (ziso_total_block z) \<Longrightarrow> take 2048 (drop (k * 2048) (plain_image lz4 content z)) = sector lz4 content (unat (ziso_align z)) k"
proof -
  have "\<forall>k < unat (ziso_total_block z). length (sector lz4 content (unat (ziso_align z)) k) = 2048"
    using assms by (simp add: zso_file_def zso_ok_def block_ok_def)
  from concat_blocks [OF this] show
    "length (plain_image lz4 content z) = unat (ziso_total_block z) * 2048"
    "k < unat (ziso_total_block z) \<Longrightarrow> take 2048 (drop (k * 2048) (plain_image lz4 content z)) = sector lz4 content (unat (ziso_align z)) k"
    by (simp_all add: plain_image_def)
qed

lemma plain_window:
  assumes "zso_file lz4 content z" "k < unat (ziso_total_block z)" "p + n \<le> 2048"
  shows "take n (drop (k * 2048 + p) (plain_image lz4 content z)) = take n (drop p (sector lz4 content (unat (ziso_align z)) k))"
proof -
  have "drop p (sector lz4 content (unat (ziso_align z)) k) = take (2048 - p) (drop p (drop (k * 2048) (plain_image lz4 content z)))"
    by (subst plain_sector(2) [OF assms(1,2), symmetric]) (simp add: drop_take)
  with assms(3) show ?thesis by (simp add: min_def add.commute)
qed

lemma read_one_sector:
  assumes "zso_file lz4 content z" "ProbeZISO content z0 = Some z" "length (ziso_idx_cache z0) = 4 * ZISO_IDX_MAX_ENTRIES"
    and "length buf = 2048" "lsn < ziso_total_block z"
  shows "\<exists>z'. ziso_read_sector (read_raw_file content) lz4 z buf lsn 1 = Inr (1, sector lz4 content (unat (ziso_align z)) (unat lsn), z')"
proof -
  have "z = ziso_init (content ! 21) (le32 content 8) (le32 content 12) (ziso_idx_cache z0)"
    using assms(2) by (simp add: ProbeZISO_def split: if_splits)
  then have c: "cache_ok content (unat (ziso_total_block z)) z" using assms(3) by (simp add: ziso_init_cache)
  have l: "unat lsn < unat (ziso_total_block z)" "unat (ziso_total_block z) < 2 ^ 29"
    using assms(1,5) by (simp_all add: word_less_nat_alt zso_file_def zso_ok_def)
  then have "1 = min (unat (1 :: u32)) (unat (ziso_total_block z) - unat lsn)" "unat lsn + unat (1 :: u32) < 2 ^ 32" by auto
  from zfile.ziso_read_ok [OF assms(1) [unfolded zso_file_def] c assms(5) this(2) this(1), of buf] assms(4) show ?thesis
    by auto
qed

lemma read_behind_end: "\<not> lsn < ziso_total_block z \<Longrightarrow> ziso_read_sector raw lz4 z buf lsn n = Inr (0, buf, z)"
  by (simp add: ziso_read_sector_def not_less)

text \<open>C18: looking into a compressed image gives what looking into the image it stands for gives, for both
  questions: the size of the first layer, which is zero for an image that ends before the volume
  descriptor, and whether a second layer starts at an offset, also one behind the end.\<close>

theorem probe_compressed_image:
  assumes "ProbeZISO content z0 = Some z" and "zso_file lz4 content z" and "ProbeZISO (plain_image lz4 content z) z0 = None"
    and "length (ziso_idx_cache z0) = 4 * ZISO_IDX_MAX_ENTRIES" and "length buf = 2048"
  shows "map_sum id fst (sbGetISO9660MaxLBA (Some content) lz4 z0 buf) =
      map_sum id fst (sbGetISO9660MaxLBA (Some (plain_image lz4 content z)) lz4 z0 buf) \<and>
    map_sum id fst (sbProbeISO9660 (Some content) err lz4 z0 buf game layer1) =
      map_sum id fst (sbProbeISO9660 (Some (plain_image lz4 content z)) err lz4 z0 buf game layer1)"
proof
  note pl = plain_sector [OF assms(2)]
  have sl: "length (sector lz4 content (unat (ziso_align z)) k) = 2048" if "k < unat (ziso_total_block z)" for k
    using assms(2) that by (simp add: zso_file_def zso_ok_def block_ok_def)
  show "map_sum id fst (sbGetISO9660MaxLBA (Some content) lz4 z0 buf) =
      map_sum id fst (sbGetISO9660MaxLBA (Some (plain_image lz4 content z)) lz4 z0 buf)"
  proof (cases "16 < ziso_total_block z")
    case True
    then have k: "16 < unat (ziso_total_block z)" by (simp add: word_less_nat_alt)
    from read_one_sector [OF assms(2,1,4,5) True] obtain z' where
      "ziso_read_sector (read_raw_file content) lz4 z buf 16 1 = Inr (1, sector lz4 content (unat (ziso_align z)) 16, z')" by auto
    with k show ?thesis using plain_window [OF assms(2) k, of 80 4] sl [OF k]
      by (simp add: sbGetISO9660MaxLBA_def assms(1,3) mem_read_def)
  next
    case False
    then have "unat (ziso_total_block z) \<le> 16" by (simp add: word_less_nat_alt)
    with False pl(1) show ?thesis by (simp add: sbGetISO9660MaxLBA_def assms(1,3) read_behind_end)
  qed
  show "map_sum id fst (sbProbeISO9660 (Some content) err lz4 z0 buf game layer1) =
      map_sum id fst (sbProbeISO9660 (Some (plain_image lz4 content z)) err lz4 z0 buf game layer1)"
  proof (cases "layer1 < ziso_total_block z")
    case True
    then have k: "unat layer1 < unat (ziso_total_block z)" by (simp add: word_less_nat_alt)
    from read_one_sector [OF assms(2,1,4,5) True] obtain z' where
      "ziso_read_sector (read_raw_file content) lz4 z buf layer1 1 = Inr (1, sector lz4 content (unat (ziso_align z)) (unat layer1), z')" by auto
    with k show ?thesis using plain_window [OF assms(2) k, of 0 6] sl [OF k]
      by (simp add: sbProbeISO9660_def assms(1,3) is_volume_def)
  next
    case False
    then have "unat (ziso_total_block z) \<le> unat layer1" by (simp add: word_less_nat_alt)
    with False pl(1) show ?thesis by (simp add: sbProbeISO9660_def assms(1,3) read_behind_end is_volume_def)
  qed
qed

lemma concat_replicates: "concat (map (\<lambda>_. replicate m x) [0..<n]) = replicate (n * m) x"
  by (induction n) (simp_all flip: replicate_add add: add.commute)

lemma logo_zso_plain:
  assumes "z = ziso_init (logo_zso ! 21) (le32 logo_zso 8) (le32 logo_zso 12) cache"
  shows "ziso_align z = 0" "ziso_total_block z = 12" "zso_file lz4 logo_zso z" "plain_image lz4 logo_zso z = replicate (12 * 2048) 7"
proof -
  show z: "ziso_align z = 0" "ziso_total_block z = 12" by (simp_all add: assms ziso_init_def logo_zso_header)
  then show "zso_file lz4 logo_zso z" using logo_zso_ok [of lz4] by (simp add: zso_file_def)
  have "\<forall>k \<in> set [0..<12]. sector lz4 logo_zso 0 k = replicate 2048 7"
  proof
    fix k :: nat assume "k \<in> set [0..<12]"
    then have k: "k < 12" by simp
    then have "drop (76 + 2048 * k) logo_zso = replicate (12 * 2048 - 2048 * k) 7"
      using logo_zso_length(1) by (simp add: logo_zso_def)
    with k show "sector lz4 logo_zso 0 k = replicate 2048 7" by (simp add: sector_def block_def logo_zso_off min_def)
  qed
  then have m: "map (sector lz4 logo_zso 0) [0..<12] = map (\<lambda>_. replicate 2048 7) [0..<12]" by (simp only: map_eq_conv)
  have "plain_image lz4 logo_zso z = concat (map (sector lz4 logo_zso 0) [0..<12])" by (simp add: plain_image_def z)
  also have "\<dots> = concat (map (\<lambda>_. replicate 2048 7) [0..<12])" by (simp only: m)
  also have "\<dots> = replicate (12 * 2048) 7"
    by (rule concat_replicates)
  finally show "plain_image lz4 logo_zso z = replicate (12 * 2048) 7" .
qed

theorem probe_compressed_image_witness:
  "let z0 = ziso_init 0 0 0 (replicate 1028 0); z = ziso_init (logo_zso ! 21) (le32 logo_zso 8) (le32 logo_zso 12) (replicate 1028 0)
   in map_sum id fst (sbGetISO9660MaxLBA (Some logo_zso) id z0 (replicate 2048 0)) =
      map_sum id fst (sbGetISO9660MaxLBA (Some (plain_image id logo_zso z)) id z0 (replicate 2048 0)) \<and>
    map_sum id fst (sbProbeISO9660 (Some logo_zso) (-2) id z0 (replicate 2048 0) (zero_game\<lparr>gi_media := SCECdPS2DVD\<rparr>) 7) =
      map_sum id fst (sbProbeISO9660 (Some (plain_image id logo_zso z)) (-2) id z0 (replicate 2048 0) (zero_game\<lparr>gi_media := SCECdPS2DVD\<rparr>) 7)"
proof -
  let ?z = "ziso_init (logo_zso ! 21) (le32 logo_zso 8) (le32 logo_zso 12) (replicate 1028 0)"
  note p = logo_zso_plain [where cache = "replicate 1028 0", OF refl]
  have "le32 (replicate (12 * 2048) 7) 0 \<noteq> ZSO_MAGIC" by (simp add: le32_def)
  then have n: "ProbeZISO (plain_image id logo_zso ?z) (ziso_init 0 0 0 (replicate 1028 0)) = None"
    by (simp only: p(4) ProbeZISO_def if_False simp_thms)
  have c: "ziso_idx_cache (ziso_init 0 0 0 (replicate 1028 0)) = replicate 1028 0" by (simp add: ziso_init_def)
  have "ZISO_HEADER_SIZE + 4 \<le> length logo_zso" by (simp add: logo_zso_length)
  then have s: "ProbeZISO logo_zso (ziso_init 0 0 0 (replicate 1028 0)) = Some ?z"
    by (simp only: ProbeZISO_def logo_zso_header(1) c if_True simp_thms)
  show ?thesis unfolding Let_def
    by (rule probe_compressed_image [OF s p(3) n]) (simp_all add: c)
qed

section \<open>Preparing the driver\<close>

lemma sample_length [simp]: "length cdvdman_settings_common_sample = 16"
  by (simp add: cdvdman_settings_common_sample_def)

text \<open>The search visits the multiples of four and finds the first sample among them.\<close>

lemma find_patch_first:
  assumes "4 dvd length a" and "\<forall>j < length a. 4 dvd j \<longrightarrow> take 16 (drop j irx) \<noteq> cdvdman_settings_common_sample"
    and irx: "irx = a @ cdvdman_settings_common_sample @ b"
  shows "4 dvd i \<Longrightarrow> i \<le> length a \<Longrightarrow> find_patch irx (int (length irx)) i = Inr (Some (length a))"
proof (induction "length a - i" arbitrary: i rule: less_induct)
  case less
  have fit: "i + 16 \<le> length irx" using less.prems by (simp add: irx)
  show ?case
  proof (cases "i = length a")
    case True
    then show ?thesis using fit by (subst find_patch.simps) (simp add: irx memcmp_at_def)
  next
    case False
    then have lt: "i < length a" using less.prems by simp
    with less.prems(1) assms(1) have "i + 4 \<le> length a" by (auto elim!: dvdE)
    with less lt have "find_patch irx (int (length irx)) (i + 4) = Inr (Some (length a))" by auto
    then show ?thesis using fit lt less.prems(1) assms(2) by (subst find_patch.simps) (simp add: memcmp_at_def)
  qed
qed

lemma patch_settings_bytes:
  assumes "length gameid = 5"
  shows "patch_settings game flags gameid fm (length a) (a @ cdvdman_settings_common_sample @ b) =
    Inr (a @ (case game of Some g \<Rightarrow> [gi_parts g, gi_media g] | None \<Rightarrow> [0x68, 0x68]) @ [ucast flags, ucast (drop_bit 8 flags)] @
      [0x39, 0x39, 0x39, 0x39] @ gameid @ [16, fm, 16] @ b)"
  using assms
  by (cases game) (simp_all add: patch_settings_def mem_write_def cdvdman_settings_common_sample_def)

text \<open>C17: preparing a launch finds the settings of the in-game driver by their sample values, at the first
  multiple of four where they stand, and replaces exactly those sixteen bytes: the parts and the medium of
  the game, the flags of its compatibility modes, its disc id and the modules to fake, with the start of
  the second layer and the cache size left for later; undoing the preparation restores the image of the
  driver.\<close>

theorem sbPrepare_patch:
  assumes "4 dvd length a" and "irx = a @ cdvdman_settings_common_sample @ b"
    and "\<forall>j < length a. 4 dvd j \<longrightarrow> take 16 (drop j irx) \<noteq> cdvdman_settings_common_sample"
    and "configGetByType cfg CONFIG_GAME = Some configGame"
  shows "\<exists>gameid s' patched.
    sbPrepare gVMode portMax pads cfg (Some game) configSet (int (length irx)) irx s =
      Inr (get_int_or configSet ''$Compatibility'' 0, Some (length a), a @ patched @ b, s') \<and>
    configGetDiscIDBinary configSet = Inr gameid \<and> length gameid = 5 \<and>
    patched = [gi_parts game, gi_media game] @
      (let flags = iopcore_flags (get_int_or configSet ''$Compatibility'' 0) in [ucast flags, ucast (drop_bit 8 flags)]) @
      [0x39, 0x39, 0x39, 0x39] @ gameid @ [16, if gEnablePadEmu s' \<noteq> 0 then 0x32 else 0x30, 16] \<and>
    sbUnprepare (a @ patched @ b) (length a) = Inr irx"
proof -
  obtain gameid where id: "configGetDiscIDBinary configSet = Inr gameid" "length gameid = 5" using discID_length by blast
  have found: "find_patch irx (int (length irx)) 0 = Inr (Some (length a))" by (rule find_patch_first [OF assms(1,3,2)]) simp_all
  obtain gsm where gsm: "InitGSMConfig gVMode cfg configSet = Inr gsm"
    by (cases "configGetInt configSet ''$GSMSource''") (auto simp: InitGSMConfig_def assms(4))
  have fm: "(0x20 OR 0x10 OR (if e then 0x02 else 0) :: u8) = (if e then 0x32 else 0x30)" for e by simp
  let ?s = "osd_options configSet configGame (sbApplyPadEmuPhysicalPriority portMax pads (pademu_options configSet configGame
    (s\<lparr>lo_gsm := gsm, lo_cheats := InitCheatsConfig cfg (Some configSet) (lo_cheats s)\<rparr>)))"
  have "sbPrepare gVMode portMax pads cfg (Some game) configSet (int (length irx)) irx s =
      c_bind (patch_settings (Some game) (iopcore_flags (get_int_or configSet ''$Compatibility'' 0)) gameid
        (if gEnablePadEmu ?s \<noteq> 0 then 0x32 else 0x30) (length a) irx)
        (\<lambda>m. Inr (get_int_or configSet ''$Compatibility'' 0, Some (length a), m, ?s))"
    by (simp add: sbPrepare_def id found gsm assms(4) Let_def fm)
  then show ?thesis
    unfolding assms(2) patch_settings_bytes [OF id(2)] by (simp add: id Let_def sbUnprepare_def mem_write_def)
qed

section \<open>Physical and emulated pads\<close>

lemma bit_nibble: "bit (x AND 15 :: int) n \<longleftrightarrow> n < 4 \<and> bit x n"
proof -
  have "(15 :: int) = mask 4" by (simp add: mask_eq_exp_minus_1)
  then show ?thesis by (simp only: bit_and_iff bit_mask_iff) auto
qed

lemma bit_two: "bit (2 :: int) n \<longleftrightarrow> n = 1"
  using bit_exp_iff [where 'a = int, of 1 n] by simp

lemma bit_not_two: "bit (- 3 :: int) n \<longleftrightarrow> n \<noteq> 1"
proof -
  have "(- 3 :: int) = NOT 2" by simp
  then show ?thesis by (simp only: bit_not_int_iff bit_two)
qed

lemma and_one_bit: "x AND 1 \<noteq> 0 \<longleftrightarrow> bit (x :: int) 0"
  by (simp add: and_one_eq odd_iff_mod_2_eq_one bit_0)

text \<open>The bits of the settings after the ports have been replaced.\<close>

lemma bit_ports:
  assumes "\<forall>n. bit e n \<longrightarrow> n < 4" "\<forall>n. bit v n \<longrightarrow> n < 4"
  shows "bit ((x AND NOT (push_bit 8 15 OR push_bit 16 15)) OR (push_bit 8 e OR push_bit 16 v) :: int) n \<longleftrightarrow>
    (if 8 \<le> n \<and> n < 12 then bit e (n - 8) else if 16 \<le> n \<and> n < 20 then bit v (n - 16) else bit x n)"
proof -
  have f: "bit (15 :: int) k \<longleftrightarrow> k < 4" for k using bit_nibble [of "-1" k] by simp
  have "bit e (n - 8) \<Longrightarrow> n - 8 < 4" "bit v (n - 16) \<Longrightarrow> n - 16 < 4" using assms by blast+
  then show ?thesis
    by (simp only: bit_or_iff bit_and_iff bit_not_int_iff bit_push_bit_iff_int f) auto
qed

lemma pademu_bits:
  assumes "\<And>k. padIsPhysicalDualShockConnected portMax (pads k) 0 = p0" "\<And>k. padIsPhysicalDualShockConnected portMax (pads k) 1 = p1"
    and "gEnablePadEmu s \<noteq> 0" "gPadEmuSettings s AND 0xFF = 0" "s' = sbApplyPadEmuPhysicalPriority portMax pads s"
  shows "bit (gPadEmuSettings s') n \<longleftrightarrow>
      (if n = 8 then bit (gPadEmuSettings s) 8 \<and> \<not> p0
       else if n = 9 then (bit (gPadEmuSettings s) 9 \<or> p0 \<and> bit (gPadEmuSettings s) 8) \<and> \<not> p1
       else if n = 16 then bit (gPadEmuSettings s) 16 \<and> \<not> p0
       else if n = 17 then (bit (gPadEmuSettings s) 17 \<or> p0 \<and> bit (gPadEmuSettings s) 8) \<and> \<not> p1
       else bit (gPadEmuSettings s) n)"
    "gEnablePadEmu s' = (if \<exists>n \<in> {8..<12}. bit (gPadEmuSettings s') n then gEnablePadEmu s else 0)"
proof -
  let ?x = "gPadEmuSettings s"
  define e0 v0 where "e0 = drop_bit 8 ?x AND 15" and "v0 = drop_bit 16 ?x AND 15"
  define e1 where "e1 = (if p0 then if bit ?x 8 \<and> \<not> p1 then (e0 AND NOT 1) OR 2 else e0 AND NOT 1 else e0)"
  define v1 where "v1 = (if p0 then if bit ?x 8 \<and> \<not> p1 then (v0 AND NOT 1) OR 2 else v0 AND NOT 1 else v0)"
  define e v where "e = (if p1 then e1 AND NOT 2 else e1)" and "v = (if p1 then v1 AND NOT 2 else v1)"
  have b0: "bit e0 n \<longleftrightarrow> n < 4 \<and> bit ?x (n + 8)" "bit v0 n \<longleftrightarrow> n < 4 \<and> bit ?x (n + 16)" for n
    by (simp_all add: e0_def v0_def bit_nibble bit_drop_bit_eq add.commute)
  have be: "bit e n \<longleftrightarrow> n < 4 \<and> (if n = 0 then bit ?x 8 \<and> \<not> p0
      else if n = 1 then (bit ?x 9 \<or> p0 \<and> bit ?x 8) \<and> \<not> p1 else bit ?x (n + 8))" for n
    by (auto simp: e_def e1_def b0 bit_or_iff bit_and_iff bit_not_int_iff bit_two bit_not_two bit_1_iff)
  have bv: "bit v n \<longleftrightarrow> n < 4 \<and> (if n = 0 then bit ?x 16 \<and> \<not> p0
      else if n = 1 then (bit ?x 17 \<or> p0 \<and> bit ?x 8) \<and> \<not> p1 else bit ?x (n + 16))" for n
    by (auto simp: v_def v1_def b0 bit_or_iff bit_and_iff bit_not_int_iff bit_two bit_not_two bit_1_iff)
  have one: "e0 AND 1 \<noteq> 0 \<longleftrightarrow> bit ?x 8" by (simp add: and_one_bit b0)
  have s': "s' = s\<lparr>gPadEmuSettings := (?x AND NOT (push_bit 8 15 OR push_bit 16 15)) OR (push_bit 8 e OR push_bit 16 v),
      gEnablePadEmu := (if e = 0 then 0 else gEnablePadEmu s)\<rparr>"
    unfolding assms(5) e_def v_def e1_def v1_def
    by (simp only: sbApplyPadEmuPhysicalPriority_def assms(1-4) Let_def e0_def [symmetric] v0_def [symmetric] one if_False simp_thms)
      (cases p0; cases p1; cases "bit ?x 8"; simp only: if_True if_False simp_thms prod.case)
  have bits: "bit (gPadEmuSettings s') n \<longleftrightarrow>
      (if 8 \<le> n \<and> n < 12 then bit e (n - 8) else if 16 \<le> n \<and> n < 20 then bit v (n - 16) else bit ?x n)" for n
  proof -
    have "\<forall>n. bit e n \<longrightarrow> n < 4" "\<forall>n. bit v n \<longrightarrow> n < 4" using be bv by blast+
    moreover have "gPadEmuSettings s' = (?x AND NOT (push_bit 8 15 OR push_bit 16 15)) OR (push_bit 8 e OR push_bit 16 v)" by (simp add: s')
    ultimately show ?thesis by (simp only: bit_ports)
  qed
  show "bit (gPadEmuSettings s') n \<longleftrightarrow>
      (if n = 8 then bit ?x 8 \<and> \<not> p0 else if n = 9 then (bit ?x 9 \<or> p0 \<and> bit ?x 8) \<and> \<not> p1
       else if n = 16 then bit ?x 16 \<and> \<not> p0 else if n = 17 then (bit ?x 17 \<or> p0 \<and> bit ?x 8) \<and> \<not> p1 else bit ?x n)"
  proof -
    consider "n \<in> {8, 9, 10, 11}" | "n \<in> {16, 17, 18, 19}" | "\<not> (8 \<le> n \<and> n < 12)" "\<not> (16 \<le> n \<and> n < 20)"
      by fastforce
    then show ?thesis by cases (auto simp: bits be bv)
  qed
  have "e = 0 \<longleftrightarrow> \<not> (\<exists>n \<in> {8..<12}. bit (gPadEmuSettings s') n)"
  proof -
    have "e = 0 \<longleftrightarrow> (\<forall>n < 4. \<not> bit e n)" by (auto simp: bit_eq_iff be)
    also have "\<dots> \<longleftrightarrow> (\<forall>n \<in> {8..<12}. \<not> bit e (n - 8))"
    proof
      assume r: "\<forall>n \<in> {8..<12}. \<not> bit e (n - 8)"
      have "\<not> bit e n" if "n < 4" for n using r [rule_format, of "n + 8"] that by simp
      then show "\<forall>n < 4. \<not> bit e n" by blast
    qed auto
    finally show ?thesis by (auto simp: bits)
  qed
  then show "gEnablePadEmu s' = (if \<exists>n \<in> {8..<12}. bit (gPadEmuSettings s') n then gEnablePadEmu s else 0)" by (simp add: s')
qed

text \<open>A physical pad takes its port from the emulation: no port with a physical pad stays emulated, an
  emulated first port moves to a free second one, the other settings are kept, and emulation is switched
  off exactly when no emulated port is left.\<close>

theorem pademu_physical_priority:
  assumes "\<And>k. padIsPhysicalDualShockConnected portMax (pads k) 0 = p0" "\<And>k. padIsPhysicalDualShockConnected portMax (pads k) 1 = p1"
    and "gEnablePadEmu s \<noteq> 0" "gPadEmuSettings s AND 0xFF = 0" "s' = sbApplyPadEmuPhysicalPriority portMax pads s"
  shows "(p0 \<longrightarrow> \<not> bit (gPadEmuSettings s') 8 \<and> \<not> bit (gPadEmuSettings s') 16) \<and>
    (p1 \<longrightarrow> \<not> bit (gPadEmuSettings s') 9 \<and> \<not> bit (gPadEmuSettings s') 17) \<and>
    (p0 \<and> \<not> p1 \<and> bit (gPadEmuSettings s) 8 \<longrightarrow> bit (gPadEmuSettings s') 9 \<and> bit (gPadEmuSettings s') 17) \<and>
    (\<not> p0 \<and> \<not> p1 \<longrightarrow> gPadEmuSettings s' = gPadEmuSettings s) \<and>
    (\<forall>n. n \<notin> {8, 9, 16, 17} \<longrightarrow> bit (gPadEmuSettings s') n = bit (gPadEmuSettings s) n) \<and>
    (gEnablePadEmu s' = (if \<exists>n \<in> {8..<12}. bit (gPadEmuSettings s') n then gEnablePadEmu s else 0))"
proof -
  note each = pademu_bits(1) [OF assms]
  have "\<not> p0 \<and> \<not> p1 \<longrightarrow> gPadEmuSettings s' = gPadEmuSettings s" by (intro impI bit_eqI) (simp add: each)
  moreover have "\<forall>n. n \<notin> {8, 9, 16, 17} \<longrightarrow> bit (gPadEmuSettings s') n = bit (gPadEmuSettings s) n" by (simp add: each)
  ultimately show ?thesis using pademu_bits(2) [OF assms] by (simp add: each)
qed

definition pad_in_port_1 :: pad_reports where
  "pad_in_port_1 k port i = (if port = 0 then (PAD_STATE_STABLE, 4, 0) else (PAD_STATE_DISCONN, 0, 0))"

definition demo_options :: launch_options where
  "demo_options = \<lparr>lo_cheats = demo_cheats, lo_gsm = gsm_off, gPadEmuSource = 0, gEnablePadEmu = 1, gPadEmuSettings = 0x100,
     gPadMacroSource = 0, gPadMacroSettings = 0, gOSDLanguageSource = 0, gOSDLanguageEnable = 0, gOSDLanguageValue = 0,
     gOSDTVAspectRatio = 0, gOSDVideOutput = 0\<rparr>"

lemma pad_in_port_1_asked:
  "padIsPhysicalDualShockConnected 2 (pad_in_port_1 k) 0" "\<not> padIsPhysicalDualShockConnected 2 (pad_in_port_1 k) 1"
  by (simp_all add: padIsPhysicalDualShockConnected_def pad_in_port_1_def numeral_eq_Suc)

theorem pademu_physical_priority_witness:
  "let s' = sbApplyPadEmuPhysicalPriority 2 pad_in_port_1 demo_options
   in \<not> bit (gPadEmuSettings s') 8 \<and> bit (gPadEmuSettings s') 9 \<and> gEnablePadEmu s' = 1"
proof -
  define s' where "s' = sbApplyPadEmuPhysicalPriority 2 pad_in_port_1 demo_options"
  have "gEnablePadEmu demo_options = 1" "gPadEmuSettings demo_options = 0x100" "bit (0x100 :: int) 8"
    by (simp_all add: demo_options_def)
  moreover have "(0x100 :: int) AND 0xFF = 0" by simp
  ultimately show ?thesis
    using pademu_physical_priority [of 2 pad_in_port_1 True False demo_options s'] pad_in_port_1_asked s'_def by (auto simp: Let_def)
qed

theorem sbPrepare_patch_witness:
  "let cs = \<lparr>cs_type = 0, cs_items = [\<lparr>cv_key = ''$Compatibility'', cv_val = ''33''\<rparr>], cs_filename = None, cs_modified = False, cs_uid = 0\<rparr>;
       cfg = \<lparr>configFiles = [cs\<lparr>cs_type := CONFIG_GAME\<rparr>], currentUID = 0, legacyNetConfigPath = [], cfgDevice = []\<rparr>
   in \<exists>s' patched.
    sbPrepare 0 2 pad_in_port_1 cfg (Some zero_game) cs 24 ([1, 2, 3, 4] @ cdvdman_settings_common_sample @ [5, 6, 7, 8]) demo_options =
      Inr (get_int_or cs ''$Compatibility'' 0, Some 4, [1, 2, 3, 4] @ patched @ [5, 6, 7, 8], s') \<and>
    length patched = 16 \<and> sbUnprepare ([1, 2, 3, 4] @ patched @ [5, 6, 7, 8]) 4 = Inr ([1, 2, 3, 4] @ cdvdman_settings_common_sample @ [5, 6, 7, 8])"
proof -
  let ?cs = "\<lparr>cs_type = 0, cs_items = [\<lparr>cv_key = ''$Compatibility'', cv_val = ''33''\<rparr>], cs_filename = None, cs_modified = False, cs_uid = 0 :: u32\<rparr>"
  let ?cfg = "\<lparr>configFiles = [?cs\<lparr>cs_type := CONFIG_GAME\<rparr>], currentUID = 0, legacyNetConfigPath = [], cfgDevice = []\<rparr>"
  have "\<forall>j < length [1, 2, 3, 4 :: u8]. 4 dvd j \<longrightarrow>
      take 16 (drop j ([1, 2, 3, 4] @ cdvdman_settings_common_sample @ [5, 6, 7, 8])) \<noteq> cdvdman_settings_common_sample"
  proof (intro allI impI)
    fix j assume "j < length [1, 2, 3, 4 :: u8]" "4 dvd j"
    then have "j = 0" using dvd_imp_le [of 4 j] by (cases j) auto
    then show "take 16 (drop j ([1, 2, 3, 4] @ cdvdman_settings_common_sample @ [5, 6, 7, 8])) \<noteq> cdvdman_settings_common_sample"
      by (simp add: cdvdman_settings_common_sample_def)
  qed
  moreover have l: "int (length ([1, 2, 3, 4] @ cdvdman_settings_common_sample @ [5, 6, 7, 8 :: u8])) = 24" "length [1, 2, 3, 4 :: u8] = 4" by simp_all
  moreover have "configGetByType ?cfg CONFIG_GAME = Some (?cs\<lparr>cs_type := CONFIG_GAME\<rparr>)" by (simp add: configGetByType_def)
  ultimately obtain gameid s' patched where
    "sbPrepare 0 2 pad_in_port_1 ?cfg (Some zero_game) ?cs 24 ([1, 2, 3, 4] @ cdvdman_settings_common_sample @ [5, 6, 7, 8]) demo_options =
      Inr (get_int_or ?cs ''$Compatibility'' 0, Some 4, [1, 2, 3, 4] @ patched @ [5, 6, 7, 8], s')"
    and id: "length gameid = 5" and p: "patched = [gi_parts zero_game, gi_media zero_game] @
      (let flags = iopcore_flags (get_int_or ?cs ''$Compatibility'' 0) in [ucast flags, ucast (drop_bit 8 flags)]) @
      [0x39, 0x39, 0x39, 0x39] @ gameid @ [16, if gEnablePadEmu s' \<noteq> 0 then 0x32 else 0x30, 16]"
    and "sbUnprepare ([1, 2, 3, 4] @ patched @ [5, 6, 7, 8]) 4 = Inr ([1, 2, 3, 4] @ cdvdman_settings_common_sample @ [5, 6, 7, 8])"
    using sbPrepare_patch [of "[1, 2, 3, 4]" _ "[5, 6, 7, 8]" ?cfg "?cs\<lparr>cs_type := CONFIG_GAME\<rparr>" 0 2 pad_in_port_1 zero_game ?cs demo_options, OF _ refl]
    by (metis dvd_refl)
  moreover have "length patched = 16" using id by (simp add: p Let_def)
  ultimately show ?thesis unfolding Let_def by blast
qed

section \<open>Cheats and the configuration of a game\<close>

text \<open>With cheats enabled, the codes of the game's cheat file reach the engine: a well-formed file is
  loaded, and the list holds the codes of its cheats in order, up to 254, or those of the cheats the user
  leaves on in the dialog.\<close>

theorem sbLoadCheats_engine:
  assumes "\<forall>c \<in> set cs. cheat_ok c" and "cs \<noteq> []" and "length cs \<le> MAX_CODES" and "gEnableCheat st \<noteq> 0"
    and "openFile ut (snprintf 64 (path @ ''CHT/'' @ name @ ''.cht'')) O_RDONLY = Inr (Some (concat (map cheat_block cs)), path1, ut1)"
  shows "let loaded = st\<lparr>gCheats := cheats_of cs\<rparr>;
             shown = (if \<not> auto_launch \<and> 0 < gCheatMode st then guiManageCheats loaded else loaded);
             codes = take 254 (active_codes (gCheats shown))
    in sbLoadCheats True auto_launch guiManageCheats ut path name st =
       Inr (if 0 < gCheatMode st then 1 else 0,
         shown\<lparr>gCheatList := flat codes @ replicate (MAX_CHEATLIST - 2 * length codes) 0\<rparr>, ut1)"
  using assms(4) unfolding sbLoadCheats_def load_cheats_text [OF assms(1-3,5)]
  by (simp add: GetCheatsEnabled_def set_cheats_list_eq Let_def)

definition cheat_card :: util_state where
  "cheat_card = \<lparr>mcID = -1, ut_fs = \<lparr>fs_file = [''CHT/x.cht'' \<mapsto> concat (map cheat_block cheat_file)], fs_dir = (\<lambda>_. False), fs_writable = (\<lambda>_. False)\<rparr>\<rparr>"

theorem sbLoadCheats_engine_witness:
  "\<exists>st'. sbLoadCheats True True id cheat_card [] ''x'' (demo_cheats\<lparr>gEnableCheat := 1, gCheatMode := 0\<rparr>) = Inr (0, st', cheat_card)"
proof -
  have ok: "\<forall>c \<in> set cheat_file. cheat_ok c"
    by (simp add: cheat_file_def cheat_ok_def title_ok_def digits8_def strip_line_def isspace_def isxdigit_def isdigit_def code_def)
  have "openFile cheat_card (snprintf 64 ([] @ ''CHT/'' @ ''x'' @ ''.cht'')) O_RDONLY = Inr (Some (concat (map cheat_block cheat_file)), ''CHT/x.cht'', cheat_card)"
    by (simp add: openFile_def checkFile_def cheat_card_def open_file_def snprintf_def)
  from sbLoadCheats_engine [OF ok _ _ _ this, of "demo_cheats\<lparr>gEnableCheat := 1, gCheatMode := 0\<rparr>" True id]
  show ?thesis by (simp add: Let_def cheat_file_def)
qed

definition format_name :: "base_game_info \<Rightarrow> string \<Rightarrow> string option" where
  "format_name game ext = (if gi_format game = GAME_FORMAT_USBLD then Some ''UL'' else if ext = ''.iso'' then Some ''ISO''
     else if ext = ''.zso'' then Some ''ZSO'' else None)"

definition game_facts :: "string \<Rightarrow> string \<Rightarrow> string \<Rightarrow> base_game_info \<Rightarrow> (string \<times> string) list" where
  "game_facts name ext startup game =
     [(''#Name'', name), (''#Size'', snprintf 12 (show_int (sint (gi_sizeMB game))))] @
     (case format_name game ext of Some f \<Rightarrow> [(''#Format'', f)] | None \<Rightarrow> []) @
     [(''#Media'', media_folder (gi_media game)), (''#Startup'', startup)]"

lemma populate_items_puts:
  "populate_items name ext startup game c0 = foldl (\<lambda>c (k, v). snd (configSetStr c k v)) c0 (game_facts name ext startup game)"
  by (simp add: populate_items_def game_facts_def format_name_def configSetInt_def Let_def)

lemma game_facts_keys: "\<forall>(k, v) \<in> set (game_facts name ext startup game). key_ok k"
  by (auto simp: game_facts_def key_ok_def configKeyValidate_def split: option.splits)

lemmas populate_get = cfg.get_puts [OF _ game_facts_keys, folded populate_items_puts]

lemma sint_u32: "int32 (sint (w :: u32))"
  using sint_ge [of w] sint_lt [of w] by (simp add: int32_def)

text \<open>The configuration the menu shows for a game is the one of its file, with the facts of the game
  itself under the reserved keys: title, size, format, medium and start-up file.\<close>

theorem sbPopulateConfig_items:
  assumes "cstr_arr (gi_startup game) = Inr startup" "cstr_arr (gi_name game) = Inr name" "cstr_arr (gi_extension game) = Inr ext"
    and "configRead mem ut (fst (configAlloc cfg 0 (Some (snprintf 256 (pre @ ''CFG'' @ sep @ startup @ ''.cfg''))))) = Some (Inr (ok, c0, ut1))"
    and "config_ok c0"
  shows "\<exists>c game'. sbPopulateConfig mem stat ut cfg game pre sep = Some (Inr ((c, game'), ut1, cfg\<lparr>currentUID := currentUID cfg + 1\<rparr>)) \<and> config_ok c \<and>
    configGetStr c ''#Name'' = Some (trunc_value name) \<and> configGetStr c ''#Startup'' = Some (trunc_value startup) \<and>
    configGetInt c ''#Size'' = Some (sint (gi_sizeMB game')) \<and> configGetStr c ''#Media'' = Some (media_folder (gi_media game)) \<and>
    configGetStr c ''#Format'' = (case format_name game ext of Some f \<Rightarrow> Some f | None \<Rightarrow> configGetStr c0 ''#Format'') \<and>
    (\<forall>k. k \<notin> {''#Name'', ''#Size'', ''#Format'', ''#Media'', ''#Startup''} \<longrightarrow> configGetStr c k = configGetStr c0 k)"
proof -
  let ?g = "populate_size stat pre sep name ext game"
  let ?c = "populate_items name ext startup ?g c0"
  have call: "sbPopulateConfig mem stat ut cfg game pre sep = Some (Inr ((?c, ?g), ut1, cfg\<lparr>currentUID := currentUID cfg + 1\<rparr>))"
    using assms(4) by (simp add: sbPopulateConfig_def assms(1-3) configAlloc_def Let_def)
  have ok: "config_ok ?c" unfolding populate_items_puts by (rule cfg.wf_puts [OF assms(5) game_facts_keys])
  have g: "gi_media ?g = gi_media game" "format_name ?g ext = format_name game ext"
    by (simp_all add: populate_size_def format_name_def Let_def)
  have "length (show_int (sint (gi_sizeMB ?g))) < 12" using length_show_int [OF sint_u32] by (rule le_less_trans) simp
  then have size: "configGetInt ?c ''#Size'' = Some (sint (gi_sizeMB ?g))"
    by (simp add: configGetInt_def populate_get [OF assms(5)] game_facts_def snprintf_id strncpy_z_id atoi_show_int sint_u32 split: option.splits)
  have short: "trunc_value (media_folder m) = media_folder m" "format_name game ext = Some f \<Longrightarrow> trunc_value f = f" for m f
    by (auto simp: media_folder_def strncpy_z_def format_name_def split: if_splits)
  show ?thesis
    by (intro exI [of _ ?c] exI [of _ ?g])
      (auto simp: call ok size populate_get [OF assms(5)] game_facts_def g short split: option.splits)
qed

definition empty_disk :: util_state where
  "empty_disk = \<lparr>mcID = -1, ut_fs = \<lparr>fs_file = (\<lambda>_. None), fs_dir = (\<lambda>_. False), fs_writable = (\<lambda>_. False)\<rparr>\<rparr>"

theorem sbPopulateConfig_items_witness:
  "let cfg = \<lparr>configFiles = [], currentUID = 0, legacyNetConfigPath = [], cfgDevice = []\<rparr>
   in \<exists>c game'. sbPopulateConfig (\<lambda>_. NUL) (\<lambda>_. Some 0x300000) empty_disk cfg (zero_game\<lparr>gi_format := GAME_FORMAT_ISO\<rparr>) ''mass0:'' ''/'' =
        Some (Inr ((c, game'), empty_disk, cfg\<lparr>currentUID := currentUID cfg + 1\<rparr>)) \<and>
      configGetInt c ''#Size'' = Some (sint (gi_sizeMB game'))"
proof -
  let ?cfg = "\<lparr>configFiles = [], currentUID = 0, legacyNetConfigPath = [], cfgDevice = []\<rparr>"
  let ?c = "fst (configAlloc ?cfg 0 (Some (snprintf 256 (''mass0:'' @ ''CFG'' @ ''/'' @ [] @ ''.cfg''))))"
  have s: "cstr_arr (gi_startup (zero_game\<lparr>gi_format := GAME_FORMAT_ISO\<rparr>)) = Inr []"
    "cstr_arr (gi_name (zero_game\<lparr>gi_format := GAME_FORMAT_ISO\<rparr>)) = Inr []"
    "cstr_arr (gi_extension (zero_game\<lparr>gi_format := GAME_FORMAT_ISO\<rparr>)) = Inr []"
    by (simp_all add: cstr_arr_def zero_game_def takeWhile_replicate)
  have "configRead (\<lambda>_. NUL) empty_disk ?c = Some (Inr (False, ?c, empty_disk)) \<and> config_ok ?c"
    by (simp add: configRead_def configAlloc_def Let_def openFile_def checkFile_def empty_disk_def open_file_def openFileBuffer_def snprintf_def config_ok_def)
  then show ?thesis using sbPopulateConfig_items [OF s, of "\<lambda>_. NUL" empty_disk ?cfg "''mass0:''" "''/''"] unfolding Let_def by fastforce
qed

end
