(* ===== verification/DList.thy ===== *)
theory DList
  imports Linked_List
begin

text \<open>
  Doubly linked lists in a heap, as the menus have them: cells with an item and pointers to their
  neighbours.  \<open>dlist h as\<close> says that the cells \<open>as\<close> are linked in this order in both directions and
  that the ends point to NULL.
\<close>

record 'i dnode =
  dn_item :: 'i
  dn_prev :: "addr option"
  dn_next :: "addr option"

definition cell_at :: "addr list \<Rightarrow> nat \<Rightarrow> addr option" where
  "cell_at as i = (if i < length as then Some (as ! i) else None)"

definition cell_before :: "addr list \<Rightarrow> nat \<Rightarrow> addr option" where
  "cell_before as i = (if i = 0 then None else cell_at as (i - 1))"

definition dlist :: "'i dnode heap \<Rightarrow> addr list \<Rightarrow> bool" where
  "dlist h as \<longleftrightarrow> distinct as \<and>
     (\<forall>i < length as. \<exists>x. h (as ! i) = Some \<lparr>dn_item = x, dn_prev = cell_before as i, dn_next = cell_at as (i + 1)\<rparr>)"

definition item_of :: "'i dnode heap \<Rightarrow> addr \<Rightarrow> 'i" where
  "item_of h a = dn_item (the (h a))"

section \<open>Walking and linking\<close>

text \<open>Change the cell behind a pointer.\<close>

definition modify :: "'c heap \<Rightarrow> addr option \<Rightarrow> ('c \<Rightarrow> 'c) \<Rightarrow> 'c heap cres" where
  "modify h p f = (case p of None \<Rightarrow> Inl NullDeref
     | Some a \<Rightarrow> (case h a of None \<Rightarrow> Inl Dangling | Some c \<Rightarrow> Inr (h(a \<mapsto> f c))))"

text \<open>\<open>while (cur->next) cur = cur->next;\<close>\<close>

partial_function (option) last_cell :: "'i dnode heap \<Rightarrow> addr \<Rightarrow> (addr cres) option" where
  "last_cell h cur =
     (case h cur of
        None \<Rightarrow> Some (Inl Dangling)
      | Some n \<Rightarrow> (case dn_next n of None \<Rightarrow> Some (Inr cur) | Some nxt \<Rightarrow> last_cell h nxt))"

text \<open>\<open>while (--itms && cur->prev) cur = cur->prev;\<close> and the same forwards.\<close>

partial_function (option) step_back :: "'i dnode heap \<Rightarrow> int \<Rightarrow> addr \<Rightarrow> (addr cres) option" where
  "step_back h itms cur =
     (if itms - 1 = 0 then Some (Inr cur)
      else case h cur of
        None \<Rightarrow> Some (Inl Dangling)
      | Some n \<Rightarrow> (case dn_prev n of None \<Rightarrow> Some (Inr cur) | Some p \<Rightarrow> step_back h (itms - 1) p))"

partial_function (option) step_forth :: "'i dnode heap \<Rightarrow> int \<Rightarrow> addr \<Rightarrow> (addr cres) option" where
  "step_forth h itms cur =
     (if itms - 1 = 0 then Some (Inr cur)
      else case h cur of
        None \<Rightarrow> Some (Inl Dangling)
      | Some n \<Rightarrow> (case dn_next n of None \<Rightarrow> Some (Inr cur) | Some p \<Rightarrow> step_forth h (itms - 1) p))"

section \<open>Lemmas\<close>

lemma modify_Some [simp]: "h a = Some c \<Longrightarrow> modify h (Some a) f = Inr (h(a \<mapsto> f c))"
  by (simp add: modify_def)

lemma cell_at_simps [simp]:
  "i < length as \<Longrightarrow> cell_at as i = Some (as ! i)" "length as \<le> i \<Longrightarrow> cell_at as i = None"
  "cell_at as i = None \<longleftrightarrow> length as \<le> i"
  by (auto simp: cell_at_def)

lemma cell_before_simps [simp]:
  "cell_before as 0 = None" "cell_before as (Suc i) = cell_at as i"
  by (simp_all add: cell_before_def)

lemma dlist_distinct: "dlist h as \<Longrightarrow> distinct as"
  by (simp add: dlist_def)

lemma dlist_cell:
  assumes "dlist h as" "i < length as"
  shows "h (as ! i) = Some \<lparr>dn_item = item_of h (as ! i), dn_prev = cell_before as i, dn_next = cell_at as (i + 1)\<rparr>"
proof -
  obtain x where "h (as ! i) = Some \<lparr>dn_item = x, dn_prev = cell_before as i, dn_next = cell_at as (i + 1)\<rparr>"
    using assms by (auto simp: dlist_def)
  then show ?thesis by (simp add: item_of_def)
qed

lemma dlist_dom: "dlist h as \<Longrightarrow> a \<in> set as \<Longrightarrow> \<exists>n. h a = Some n"
  by (metis dlist_cell in_set_conv_nth)

lemma last_cell_dlist:
  assumes "dlist h as" "i < length as"
  shows "last_cell h (as ! i) = Some (Inr (last as))"
  using assms(2)
proof (induction "length as - i" arbitrary: i)
  case 0
  then show ?case by simp
next
  case (Suc k)
  show ?case
  proof (cases "i + 1 < length as")
    case True
    with Suc have "last_cell h (as ! (i + 1)) = Some (Inr (last as))" by simp
    with True show ?thesis by (subst last_cell.simps) (simp add: dlist_cell [OF assms(1) Suc.prems])
  next
    case False
    with Suc.prems have "i = length as - 1" "as \<noteq> []" by auto
    then have "last as = as ! i" by (simp add: last_conv_nth)
    with False show ?thesis by (subst last_cell.simps) (simp add: dlist_cell [OF assms(1) Suc.prems])
  qed
qed

lemma step_back_dlist:
  assumes "dlist h as" "i < length as"
  shows "step_back h (int d + 1) (as ! i) = Some (Inr (as ! (i - d)))"
  using assms(2)
proof (induction d arbitrary: i)
  case 0
  then show ?case by (subst step_back.simps) simp
next
  case (Suc d)
  show ?case
  proof (cases i)
    case 0
    then show ?thesis using dlist_cell [OF assms(1) Suc.prems] by (subst step_back.simps) simp
  next
    case (Suc j)
    then have j: "j < length as" using Suc.prems by simp
    have "step_back h (int d + 1) (as ! j) = Some (Inr (as ! (j - d)))" by (rule Suc.IH [OF j])
    then show ?thesis using dlist_cell [OF assms(1) Suc.prems] Suc j by (subst step_back.simps) (simp add: add.commute)
  qed
qed

lemma step_forth_dlist:
  assumes "dlist h as" "i < length as"
  shows "step_forth h (int d + 1) (as ! i) = Some (Inr (as ! min (i + d) (length as - 1)))"
  using assms(2)
proof (induction d arbitrary: i)
  case 0
  then show ?case by (subst step_forth.simps) (simp add: min_absorb1)
next
  case (Suc d)
  show ?case
  proof (cases "i + 1 < length as")
    case True
    then have "step_forth h (int d + 1) (as ! (i + 1)) = Some (Inr (as ! min (i + 1 + d) (length as - 1)))" by (rule Suc.IH)
    then show ?thesis using dlist_cell [OF assms(1) Suc.prems] True by (subst step_forth.simps) (simp add: add.commute)
  next
    case False
    with Suc.prems have "min (i + Suc d) (length as - 1) = i" by simp
    then show ?thesis using dlist_cell [OF assms(1) Suc.prems] False by (subst step_forth.simps) simp
  qed
qed

text \<open>Hanging a new cell behind the last one.\<close>

lemma dlist_snoc:
  assumes d: "dlist h as" and "as \<noteq> []" and new: "h a = None" and "h (last as) = Some l" and "dn_next node = None"
  defines "h' \<equiv> h(a \<mapsto> node\<lparr>dn_prev := Some (last as)\<rparr>, last as \<mapsto> l\<lparr>dn_next := Some a\<rparr>)"
  shows "dlist h' (as @ [a])" "item_of h' a = dn_item node" "x \<noteq> a \<Longrightarrow> item_of h' x = item_of h x"
proof -
  let ?n = "length as"
  have fresh: "a \<notin> set as" using dlist_dom [OF d] new by force
  then have la: "last as \<noteq> a" using assms(2) by auto
  show "item_of h' a = dn_item node" using la by (simp add: h'_def item_of_def)
  show "x \<noteq> a \<Longrightarrow> item_of h' x = item_of h x" using assms(4) by (simp add: h'_def item_of_def)
  have l: "last as = as ! (?n - 1)" "0 < ?n" using assms(2) by (simp_all add: last_conv_nth)
  have at: "cell_at (as @ [a]) k = (if k = ?n then Some a else cell_at as k)" for k
    by (auto simp: cell_at_def nth_append)
  have bef: "cell_before (as @ [a]) k = (if k = Suc ?n then Some a else cell_before as k)" for k
    by (cases k) (auto simp: at)
  have "\<exists>y. h' ((as @ [a]) ! k) = Some \<lparr>dn_item = y, dn_prev = cell_before (as @ [a]) k, dn_next = cell_at (as @ [a]) (k + 1)\<rparr>"
    if k: "k < length (as @ [a])" for k
  proof -
    consider "k = ?n" | "Suc k = ?n" | "Suc k < ?n" using k by fastforce
    then show ?thesis
    proof cases
      case 1
      then have "cell_before as k = Some (last as)" using l by (simp add: cell_before_def)
      with 1 show ?thesis using la assms(5) by (simp add: h'_def nth_append at bef) (cases node, simp)
    next
      case 2
      then have "length as - 1 = k" by simp
      with l have "as ! k = last as" by simp
      with 2 show ?thesis using dlist_cell [OF d, of k] la assms(4) by (simp add: h'_def nth_append at bef)
    next
      case 3
      then have "as ! k \<noteq> last as" using l dlist_distinct [OF d] by (simp add: nth_eq_iff_index_eq)
      moreover have "as ! k \<noteq> a" using 3 fresh by (metis Suc_lessD nth_mem)
      ultimately show ?thesis using 3 dlist_cell [OF d, of k] by (simp add: h'_def nth_append at bef)
    qed
  qed
  moreover have "distinct (as @ [a])" using dlist_distinct [OF d] fresh by simp
  ultimately show "dlist h' (as @ [a])" by (simp add: dlist_def)
qed

lemma dlist_single: "dn_prev node = None \<Longrightarrow> dn_next node = None \<Longrightarrow> dlist (h(a \<mapsto> node)) [a]"
  by (cases node) (simp add: dlist_def)

lemma dlist_Nil [simp]: "dlist h []"
  by (simp add: dlist_def)

text \<open>Following the forward pointers only.\<close>

lemma dlist_seg:
  assumes "dlist h as"
  shows "k \<le> length as \<Longrightarrow> chain h dn_next (cell_at as k) (drop k as)"
proof (induction "length as - k" arbitrary: k)
  case (Suc n)
  then have k: "k < length as" by simp
  with Suc have "chain h dn_next (cell_at as (k + 1)) (drop (k + 1) as)" by simp
  with k dlist_cell [OF assms k] show ?case by (simp add: Cons_nth_drop_Suc [symmetric] chain_Cons)
qed simp

end
