(* ===== verification/SubMenu.thy ===== *)
theory SubMenu
  imports DList "HOL-Library.List_Lexorder" "HOL-Library.Multiset"
begin

text \<open>
  The lists of the menu (\<open>src/menusys.c\<close>): the games of a device as a doubly linked list with a
  selected entry and the first entry of the page, the sorting of that list by title, moving the
  selection, and the list of devices.  Cells are on a heap; the lists of \<open>DList\<close> are what the
  operations keep.  Sounds and drawing are left out.
\<close>

section \<open>Items\<close>

record submenu_item =
  si_icon_id :: int
  si_text :: "string option"
  si_text_id :: int
  si_id :: int
  si_cache_id :: "int list"
  si_cache_uid :: "int list"

type_synonym submenu_heap = "submenu_item dnode heap"

text \<open>A new item: \<open>copy\<close> tells whether memory for the copy of the text was found, \<open>gameCacheCount\<close> is the
  number of image caches of the theme.\<close>

definition submenuRebuildCache_item :: "nat \<Rightarrow> submenu_item \<Rightarrow> submenu_item" where
  "submenuRebuildCache_item gameCacheCount it =
     it\<lparr>si_cache_id := replicate gameCacheCount (-1), si_cache_uid := replicate gameCacheCount (-1)\<rparr>"

partial_function (option) submenuRebuildCache :: "nat \<Rightarrow> submenu_heap \<Rightarrow> addr option \<Rightarrow> (submenu_heap cres) option" where
  "submenuRebuildCache gameCacheCount h submenu =
     (case submenu of
        None \<Rightarrow> Some (Inr h)
      | Some a \<Rightarrow>
          (case h a of
             None \<Rightarrow> Some (Inl Dangling)
           | Some n \<Rightarrow> submenuRebuildCache gameCacheCount
               (h(a \<mapsto> n\<lparr>dn_item := submenuRebuildCache_item gameCacheCount (dn_item n)\<rparr>)) (dn_next n)))"

definition submenuAllocItem :: "nat \<Rightarrow> bool \<Rightarrow> int \<Rightarrow> string option \<Rightarrow> int \<Rightarrow> int \<Rightarrow> submenu_item dnode" where
  "submenuAllocItem gameCacheCount copy icon_id text ident text_id =
     \<lparr>dn_item = submenuRebuildCache_item gameCacheCount
        \<lparr>si_icon_id = icon_id, si_text = (if copy then text else None), si_text_id = text_id, si_id = ident,
         si_cache_id = [], si_cache_uid = []\<rparr>,
      dn_prev = None, dn_next = None\<rparr>"

text \<open>\<open>new\<close> is the cell \<open>malloc\<close> gives.\<close>

definition submenuAppendItem ::
  "submenu_item dnode \<Rightarrow> addr option \<Rightarrow> submenu_heap \<Rightarrow> addr option \<Rightarrow> ((addr \<times> addr option \<times> submenu_heap) cres) option" where
  "submenuAppendItem node new h submenu =
     (case submenu of
        None \<Rightarrow> Some (case new of None \<Rightarrow> Inl NullDeref | Some a \<Rightarrow> Inr (a, Some a, h(a \<mapsto> node)))
      | Some head \<Rightarrow>
          map_option (\<lambda>r. c_bind r (\<lambda>cur.
            case new of
              None \<Rightarrow> Inl NullDeref
            | Some a \<Rightarrow>
                c_bind (modify (h(a \<mapsto> node)) (Some cur) (\<lambda>n. n\<lparr>dn_next := Some a\<rparr>)) (\<lambda>h1.
                  c_bind (modify h1 (Some a) (\<lambda>n. n\<lparr>dn_prev := Some cur\<rparr>)) (\<lambda>h2. Inr (a, submenu, h2)))))
            (last_cell h head))"

text \<open>Removing all entries with an id: only the forward pointers are mended.\<close>

partial_function (option) remove_items ::
  "int \<Rightarrow> submenu_heap \<Rightarrow> addr option \<Rightarrow> addr option \<Rightarrow> addr option \<Rightarrow> ((submenu_heap \<times> addr option) cres) option" where
  "remove_items ident h head prev cur =
     (case cur of
        None \<Rightarrow> Some (Inr (h, head))
      | Some c \<Rightarrow>
          (case h c of
             None \<Rightarrow> Some (Inl Dangling)
           | Some n \<Rightarrow>
               if si_id (dn_item n) = ident then
                 (case (case prev of None \<Rightarrow> Inr h | Some p \<Rightarrow> modify h (Some p) (\<lambda>m. m\<lparr>dn_next := dn_next n\<rparr>)) of
                    Inl e \<Rightarrow> Some (Inl e)
                  | Inr h1 \<Rightarrow> remove_items ident (h1(c := None)) (if head = Some c then dn_next n else head) prev (dn_next n))
               else remove_items ident h head (Some c) (dn_next n)))"

definition submenuRemoveItem :: "int \<Rightarrow> submenu_heap \<Rightarrow> addr option \<Rightarrow> ((submenu_heap \<times> addr option) cres) option" where
  "submenuRemoveItem ident h submenu = remove_items ident h submenu None submenu"

partial_function (option) submenuDestroy :: "submenu_heap \<Rightarrow> addr option \<Rightarrow> (submenu_heap cres) option" where
  "submenuDestroy h cur =
     (case cur of
        None \<Rightarrow> Some (Inr h)
      | Some a \<Rightarrow> (case h a of None \<Rightarrow> Some (Inl Dangling) | Some n \<Rightarrow> submenuDestroy (h(a := None)) (dn_next n)))"

section \<open>Sorting\<close>

text \<open>\<open>lng\<close> gives the text of a language string.\<close>

definition submenuItemGetText :: "(int \<Rightarrow> string) \<Rightarrow> submenu_item \<Rightarrow> string option" where
  "submenuItemGetText lng it = (if 0 \<le> si_text_id it then Some (lng (si_text_id it)) else si_text it)"

text \<open>\<open>strcasecmp (a, b) > 0\<close>: at the first difference the character of \<open>a\<close> is greater; the end of a
  string is smaller than every character.\<close>

fun strcasecmp_gt :: "string \<Rightarrow> string \<Rightarrow> bool" where
  "strcasecmp_gt [] ys = False"
| "strcasecmp_gt (x # xs) [] = True"
| "strcasecmp_gt (x # xs) (y # ys) =
     (code (tolower y) < code (tolower x) \<or> code (tolower x) = code (tolower y) \<and> strcasecmp_gt xs ys)"

definition swap :: "submenu_heap \<Rightarrow> addr \<Rightarrow> addr \<Rightarrow> submenu_heap cres" where
  "swap h a b =
     c_bind (load h (Some a)) (\<lambda>na. c_bind (load h (Some b)) (\<lambda>nb.
       let pa = dn_prev na; nxt = dn_next nb
       in c_bind (modify h (Some a) (\<lambda>n. n\<lparr>dn_next := nxt\<rparr>)) (\<lambda>h1.
          c_bind (modify h1 (Some b) (\<lambda>n. n\<lparr>dn_prev := pa\<rparr>)) (\<lambda>h2.
          c_bind (modify h2 (Some b) (\<lambda>n. n\<lparr>dn_next := Some a\<rparr>)) (\<lambda>h3.
          c_bind (modify h3 (Some a) (\<lambda>n. n\<lparr>dn_prev := Some b\<rparr>)) (\<lambda>h4.
          c_bind (case pa of None \<Rightarrow> Inr h4 | Some _ \<Rightarrow> modify h4 pa (\<lambda>n. n\<lparr>dn_next := Some b\<rparr>)) (\<lambda>h5.
            case nxt of None \<Rightarrow> Inr h5 | Some _ \<Rightarrow> modify h5 nxt (\<lambda>n. n\<lparr>dn_prev := Some a\<rparr>))))))))"

text \<open>One pass of the bubble sort: \<open>tip\<close> is carried forward as long as it is greater than its successor.\<close>

partial_function (option) sort_pass ::
  "(int \<Rightarrow> string) \<Rightarrow> submenu_heap \<Rightarrow> addr \<Rightarrow> addr \<Rightarrow> bool \<Rightarrow> ((submenu_heap \<times> addr \<times> bool) cres) option" where
  "sort_pass lng h head tip srt =
     (case h tip of
        None \<Rightarrow> Some (Inl Dangling)
      | Some n \<Rightarrow>
          (case dn_next n of
             None \<Rightarrow> Some (Inr (h, head, srt))
           | Some nxt \<Rightarrow>
               (case h nxt of
                  None \<Rightarrow> Some (Inl Dangling)
                | Some m \<Rightarrow>
                    (case (submenuItemGetText lng (dn_item n), submenuItemGetText lng (dn_item m)) of
                       (Some txt1, Some txt2) \<Rightarrow>
                         if strcasecmp_gt txt1 txt2 then
                           (case swap h tip nxt of
                              Inl e \<Rightarrow> Some (Inl e)
                            | Inr h1 \<Rightarrow> sort_pass lng h1 (if tip = head then nxt else head) tip False)
                         else sort_pass lng h head nxt srt
                     | _ \<Rightarrow> Some (Inl NullDeref)))))"

partial_function (option) sort_loop :: "(int \<Rightarrow> string) \<Rightarrow> submenu_heap \<Rightarrow> addr \<Rightarrow> ((submenu_heap \<times> addr) cres) option" where
  "sort_loop lng h head =
     Option.bind (sort_pass lng h head head True) (\<lambda>r.
       case r of
         Inl e \<Rightarrow> Some (Inl e)
       | Inr (h1, head1, srt) \<Rightarrow> if srt then Some (Inr (h1, head1)) else sort_loop lng h1 head1)"

definition submenuSort :: "(int \<Rightarrow> string) \<Rightarrow> submenu_heap \<Rightarrow> addr option \<Rightarrow> ((submenu_heap \<times> addr option) cres) option" where
  "submenuSort lng h submenu =
     (case submenu of
        None \<Rightarrow> Some (Inr (h, submenu))
      | Some a \<Rightarrow>
          (case h a of
             None \<Rightarrow> Some (Inl Dangling)
           | Some n \<Rightarrow>
               if dn_next n = None then Some (Inr (h, submenu))
               else map_option (\<lambda>r. c_bind r (\<lambda>(h1, head). Inr (h1, Some head))) (sort_loop lng h a)))"

section \<open>Moving the selection\<close>

record menu_item =
  mi_submenu :: "addr option"
  mi_current :: "addr option"
  mi_pagestart :: "addr option"

text \<open>A pointer is only followed where the code follows it; \<open>disp\<close> is the number of entries the theme
  shows on a page.\<close>

definition menuFirstPage :: "submenu_heap \<Rightarrow> menu_item \<Rightarrow> menu_item cres" where
  "menuFirstPage h it =
     (case mi_current it of
        None \<Rightarrow> Inr it
      | Some cur \<Rightarrow> c_bind (load h (Some cur)) (\<lambda>_. Inr (it\<lparr>mi_current := mi_submenu it, mi_pagestart := mi_submenu it\<rparr>)))"

definition menuLastPage :: "int \<Rightarrow> submenu_heap \<Rightarrow> menu_item \<Rightarrow> (menu_item cres) option" where
  "menuLastPage disp h it =
     (case mi_current it of
        None \<Rightarrow> Some (Inr it)
      | Some cur \<Rightarrow>
          Option.bind (last_cell h cur) (\<lambda>r.
            case r of
              Inl e \<Rightarrow> Some (Inl e)
            | Inr l \<Rightarrow> map_option (\<lambda>q. c_bind q (\<lambda>p. Inr (it\<lparr>mi_current := Some l, mi_pagestart := Some p\<rparr>))) (step_back h disp l)))"

text \<open>\<open>while (--itms && cur) if (current == cur) return; else cur = cur->next;\<close>\<close>

partial_function (option) on_page :: "submenu_heap \<Rightarrow> int \<Rightarrow> addr option \<Rightarrow> addr \<Rightarrow> (bool cres) option" where
  "on_page h itms cur target =
     (if itms - 1 = 0 then Some (Inr False)
      else case cur of
        None \<Rightarrow> Some (Inr False)
      | Some c \<Rightarrow>
          if c = target then Some (Inr True)
          else (case h c of None \<Rightarrow> Some (Inl Dangling) | Some n \<Rightarrow> on_page h (itms - 1) (dn_next n) target))"

definition menuNextV :: "int \<Rightarrow> submenu_heap \<Rightarrow> menu_item \<Rightarrow> (menu_item cres) option" where
  "menuNextV disp h it =
     (case mi_current it of
        None \<Rightarrow> Some (menuFirstPage h it)
      | Some cur \<Rightarrow>
          (case h cur of
             None \<Rightarrow> Some (Inl Dangling)
           | Some n \<Rightarrow>
               (case dn_next n of
                  None \<Rightarrow> Some (menuFirstPage h it)
                | Some nxt \<Rightarrow>
                    map_option (\<lambda>r. c_bind r (\<lambda>found.
                        Inr (if found then it\<lparr>mi_current := Some nxt\<rparr> else it\<lparr>mi_current := Some nxt, mi_pagestart := Some nxt\<rparr>)))
                      (on_page h (disp + 1) (mi_pagestart it) nxt))))"

definition menuPrevV :: "int \<Rightarrow> submenu_heap \<Rightarrow> menu_item \<Rightarrow> (menu_item cres) option" where
  "menuPrevV disp h it =
     (case mi_current it of
        None \<Rightarrow> menuLastPage disp h it
      | Some cur \<Rightarrow>
          (case h cur of
             None \<Rightarrow> Some (Inl Dangling)
           | Some n \<Rightarrow>
               (case dn_prev n of
                  None \<Rightarrow> menuLastPage disp h it
                | Some prv \<Rightarrow>
                    if mi_pagestart it = Some cur then
                      map_option (\<lambda>r. c_bind r (\<lambda>p. Inr (it\<lparr>mi_current := Some prv, mi_pagestart := Some p\<rparr>))) (step_back h (disp + 1) cur)
                    else Some (Inr (it\<lparr>mi_current := Some prv\<rparr>)))))"

definition menuNextPage :: "int \<Rightarrow> submenu_heap \<Rightarrow> menu_item \<Rightarrow> (menu_item cres) option" where
  "menuNextPage disp h it =
     (case mi_pagestart it of
        None \<Rightarrow> Some (menuFirstPage h it)
      | Some cur \<Rightarrow>
          (case h cur of
             None \<Rightarrow> Some (Inl Dangling)
           | Some n \<Rightarrow>
               if dn_next n = None then Some (menuFirstPage h it)
               else map_option (\<lambda>r. c_bind r (\<lambda>p. Inr (it\<lparr>mi_current := Some p, mi_pagestart := Some p\<rparr>))) (step_forth h (disp + 1) cur)))"

definition menuPrevPage :: "int \<Rightarrow> submenu_heap \<Rightarrow> menu_item \<Rightarrow> (menu_item cres) option" where
  "menuPrevPage disp h it =
     (case mi_pagestart it of
        None \<Rightarrow> menuLastPage disp h it
      | Some cur \<Rightarrow>
          (case h cur of
             None \<Rightarrow> Some (Inl Dangling)
           | Some n \<Rightarrow>
               if dn_prev n = None then menuLastPage disp h it
               else map_option (\<lambda>r. c_bind r (\<lambda>p. Inr (it\<lparr>mi_current := Some p, mi_pagestart := Some p\<rparr>))) (step_back h (disp + 1) cur)))"

section \<open>The list of devices\<close>

text \<open>The items of this list are pointers to the menu items of the devices.\<close>

type_synonym menu_heap = "nat dnode heap"

definition menuAppendItem :: "nat \<Rightarrow> addr option \<Rightarrow> menu_heap \<Rightarrow> addr option \<Rightarrow> addr option \<Rightarrow> ((addr option \<times> addr option \<times> menu_heap) cres) option" where
  "menuAppendItem it new h menu selected_item =
     (case (menu, new) of
        (None, Some a) \<Rightarrow> Some (Inr (Some a, Some a, h(a \<mapsto> \<lparr>dn_item = it, dn_prev = None, dn_next = None\<rparr>)))
      | (Some head, Some a) \<Rightarrow>
          map_option (\<lambda>r. c_bind r (\<lambda>cur.
            c_bind (modify (h(a \<mapsto> \<lparr>dn_item = it, dn_prev = None, dn_next = None\<rparr>)) (Some cur) (\<lambda>n. n\<lparr>dn_next := Some a\<rparr>)) (\<lambda>h1.
              c_bind (modify h1 (Some a) (\<lambda>n. n\<lparr>dn_prev := Some cur\<rparr>)) (\<lambda>h2. Inr (menu, selected_item, h2)))))
            (last_cell h head)
      | (_, None) \<Rightarrow> Some (Inl NullDeref))"

text \<open>\<open>while (p != NULL && p->item->visible == 0) p = p->next;\<close> and the same backwards.\<close>

partial_function (option) visible_forth :: "menu_heap \<Rightarrow> (nat \<Rightarrow> bool) \<Rightarrow> addr option \<Rightarrow> ((addr option) cres) option" where
  "visible_forth h visible p =
     (case p of
        None \<Rightarrow> Some (Inr None)
      | Some a \<Rightarrow>
          (case h a of
             None \<Rightarrow> Some (Inl Dangling)
           | Some n \<Rightarrow> if visible (dn_item n) then Some (Inr p) else visible_forth h visible (dn_next n)))"

partial_function (option) visible_back :: "menu_heap \<Rightarrow> (nat \<Rightarrow> bool) \<Rightarrow> addr option \<Rightarrow> ((addr option) cres) option" where
  "visible_back h visible p =
     (case p of
        None \<Rightarrow> Some (Inr None)
      | Some a \<Rightarrow>
          (case h a of
             None \<Rightarrow> Some (Inl Dangling)
           | Some n \<Rightarrow> if visible (dn_item n) then Some (Inr p) else visible_back h visible (dn_prev n)))"

text \<open>The first visible device, or the first one when none is visible.\<close>

definition refreshMenuPosition :: "menu_heap \<Rightarrow> (nat \<Rightarrow> bool) \<Rightarrow> addr option \<Rightarrow> addr option \<Rightarrow> ((addr option) cres) option" where
  "refreshMenuPosition h visible menu selected_item =
     (case menu of
        None \<Rightarrow> Some (Inr selected_item)
      | Some _ \<Rightarrow> map_option (\<lambda>r. c_bind r (\<lambda>p. Inr (if p = None then menu else p))) (visible_forth h visible menu))"

definition menuNextH :: "menu_heap \<Rightarrow> (nat \<Rightarrow> bool) \<Rightarrow> addr option \<Rightarrow> ((addr option) cres) option" where
  "menuNextH h visible selected_item =
     (case load h selected_item of
        Inl e \<Rightarrow> Some (Inl e)
      | Inr n \<Rightarrow> map_option (\<lambda>r. c_bind r (\<lambda>p. Inr (if p = None then selected_item else p))) (visible_forth h visible (dn_next n)))"

definition menuPrevH :: "menu_heap \<Rightarrow> (nat \<Rightarrow> bool) \<Rightarrow> addr option \<Rightarrow> ((addr option) cres) option" where
  "menuPrevH h visible selected_item =
     (case load h selected_item of
        Inl e \<Rightarrow> Some (Inl e)
      | Inr n \<Rightarrow> map_option (\<lambda>r. c_bind r (\<lambda>p. Inr (if p = None then selected_item else p))) (visible_back h visible (dn_prev n)))"

partial_function (option) find_menu :: "menu_heap \<Rightarrow> nat \<Rightarrow> addr option \<Rightarrow> ((addr option) cres) option" where
  "find_menu h it p =
     (case p of
        None \<Rightarrow> Some (Inr None)
      | Some a \<Rightarrow>
          (case h a of
             None \<Rightarrow> Some (Inl Dangling)
           | Some n \<Rightarrow> if dn_item n = it then Some (Inr p) else find_menu h it (dn_next n)))"

definition menuSetSelectedItem :: "menu_heap \<Rightarrow> nat \<Rightarrow> addr option \<Rightarrow> addr option \<Rightarrow> ((addr option) cres) option" where
  "menuSetSelectedItem h it menu selected_item =
     map_option (\<lambda>r. c_bind r (\<lambda>p. Inr (if p = None then selected_item else p))) (find_menu h it menu)"

section \<open>Sorting: the pure algorithm\<close>

fun pass :: "('a \<Rightarrow> 'k::linorder) \<Rightarrow> 'a list \<Rightarrow> 'a list" where
  "pass f (x # y # ys) = (if f y < f x then y # pass f (x # ys) else x # pass f (y # ys))"
| "pass f xs = xs"

lemma mset_pass: "mset (pass f xs) = mset xs"
  by (induction f xs rule: pass.induct) auto

lemma length_pass [simp]: "length (pass f xs) = length xs"
  using mset_pass [of f xs] by (rule mset_eq_length)

lemma set_pass [simp]: "set (pass f xs) = set xs"
  using mset_pass [of f xs] by (rule mset_eq_setD)

text \<open>Entries with the same key keep their order.\<close>

lemma filter_pass: "filter (\<lambda>x. f k = f x) (pass f xs) = filter (\<lambda>x. f k = f x) xs"
  by (induction f xs rule: pass.induct) auto

lemma pass_fix: "distinct xs \<Longrightarrow> pass f xs = xs \<Longrightarrow> sorted (map f xs)"
proof (induction f xs rule: pass.induct)
  case (1 f x y ys)
  then have le: "f x \<le> f y" "pass f (y # ys) = y # ys" by (auto split: if_splits)
  with 1 have "sorted (map f (y # ys))" by simp
  with le show ?case by auto
qed auto

text \<open>Every pass that changes something removes an inversion.\<close>

fun inversions :: "('a \<Rightarrow> 'k::linorder) \<Rightarrow> 'a list \<Rightarrow> nat" where
  "inversions f [] = 0"
| "inversions f (x # xs) = length (filter (\<lambda>y. f y < f x) xs) + inversions f xs"

lemma length_filter_pass: "length (filter P (pass f xs)) = length (filter P xs)"
  by (metis mset_pass mset_filter size_mset)

lemma inversions_pass:
  "inversions f (pass f xs) \<le> inversions f xs \<and> (pass f xs \<noteq> xs \<longrightarrow> inversions f (pass f xs) < inversions f xs)"
proof (induction f xs rule: pass.induct)
  case (1 f x y ys)
  then show ?case by (auto simp: length_filter_pass)
qed auto

lemma sort_key_pass: "sort_key f (pass f xs) = sort_key f xs"
proof (rule properties_for_sort_key)
  show "mset (sort_key f xs) = mset (pass f xs)" by (simp add: mset_pass)
  show "sorted (map f (sort_key f xs))" by simp
  show "filter (\<lambda>x. f k = f x) (sort_key f xs) = filter (\<lambda>x. f k = f x) (pass f xs)" for k
    by (simp add: filter_pass) (metis (mono_tags, lifting) sort_key_stable filter_cong)
qed

section \<open>Sorting: the linked list\<close>

definition title_key :: "(int \<Rightarrow> string) \<Rightarrow> submenu_heap \<Rightarrow> addr \<Rightarrow> nat list" where
  "title_key lng h a = map (\<lambda>c. code (tolower c)) (the (submenuItemGetText lng (item_of h a)))"

definition has_text :: "(int \<Rightarrow> string) \<Rightarrow> submenu_heap \<Rightarrow> addr \<Rightarrow> bool" where
  "has_text lng h a \<longleftrightarrow> submenuItemGetText lng (item_of h a) \<noteq> None"

lemma strcasecmp_gt_less: "strcasecmp_gt s t \<longleftrightarrow> map (\<lambda>c. code (tolower c)) t < map (\<lambda>c. code (tolower c)) s"
  by (induction s t rule: strcasecmp_gt.induct) auto

text \<open>What a swap does to the cells: the two, the one before and the one behind.\<close>

definition swapped :: "submenu_heap \<Rightarrow> addr \<Rightarrow> addr \<Rightarrow> addr option \<Rightarrow> addr option \<Rightarrow> addr \<Rightarrow> submenu_item dnode option" where
  "swapped h a b pa nxt x =
     (if x = a then map_option (\<lambda>n. n\<lparr>dn_prev := Some b, dn_next := nxt\<rparr>) (h x)
      else if x = b then map_option (\<lambda>n. n\<lparr>dn_prev := pa, dn_next := Some a\<rparr>) (h x)
      else if pa = Some x then map_option (\<lambda>n. n\<lparr>dn_next := Some b\<rparr>) (h x)
      else if nxt = Some x then map_option (\<lambda>n. n\<lparr>dn_prev := Some a\<rparr>) (h x)
      else h x)"

lemma swap_swapped:
  assumes d: "dlist h as" and i: "Suc i < length as"
  shows "swap h (as ! i) (as ! Suc i) = Inr (swapped h (as ! i) (as ! Suc i) (cell_before as i) (cell_at as (i + 2)))"
proof -
  have i0: "i < length as" using i by simp
  note cells = dlist_cell [OF d i0] dlist_cell [OF d i]
  have ne: "as ! j = as ! k \<longleftrightarrow> j = k" if "j < length as" "k < length as" for j k
    using dlist_distinct [OF d] that by (simp add: nth_eq_iff_index_eq)
  have prev: "\<exists>n. h p = Some n" "p \<noteq> as ! i" "p \<noteq> as ! Suc i" if "cell_before as i = Some p" for p
    using that i dlist_cell [OF d] by (cases i; force simp: ne)+
  have nxt: "\<exists>n. h q = Some n" "q \<noteq> as ! i" "q \<noteq> as ! Suc i" if "cell_at as (i + 2) = Some q" for q
    using that i dlist_cell [OF d, of "i + 2"] by (auto simp: cell_at_def ne split: if_splits)
  have pn: "cell_before as i = None \<or> cell_before as i \<noteq> cell_at as (i + 2)"
    using i by (cases i) (auto simp: cell_at_def ne)
  show ?thesis
    using cells i i0 ne [OF i0 i] prev nxt pn
    by (cases "cell_before as i"; cases "cell_at as (i + 2)")
      (auto simp: swap_def Let_def swapped_def fun_eq_iff)
qed

lemma swapped_dlist:
  assumes d: "dlist h as" and i: "Suc i < length as"
  defines "h' \<equiv> swapped h (as ! i) (as ! Suc i) (cell_before as i) (cell_at as (i + 2))"
    and "as' \<equiv> as[i := as ! Suc i, Suc i := as ! i]"
  shows "dlist h' as'" "item_of h' x = item_of h x" "h' x = None \<longleftrightarrow> h x = None"
proof -
  have ne: "as ! j = as ! k \<longleftrightarrow> j = k" if "j < length as" "k < length as" for j k
    using dlist_distinct [OF d] that by (simp add: nth_eq_iff_index_eq)
  show items: "item_of h' x = item_of h x" for x by (cases "h x") (auto simp: h'_def swapped_def item_of_def)
  show "h' x = None \<longleftrightarrow> h x = None" by (simp add: h'_def swapped_def)
  have len: "length as' = length as" by (simp add: as'_def)
  have nth: "as' ! k = (if k = i then as ! Suc i else if k = Suc i then as ! i else as ! k)" if "k < length as" for k
    using that i by (auto simp: as'_def nth_list_update)
  have at: "cell_at as' k = (if k = i then Some (as ! Suc i) else if k = Suc i then Some (as ! i) else cell_at as k)" for k
    using i by (auto simp: cell_at_def len nth)
  have bef: "cell_before as' k = (if k = Suc i then Some (as ! Suc i) else if k = Suc (Suc i) then Some (as ! i) else cell_before as k)" for k
    by (cases k) (auto simp: at)
  have "\<exists>y. h' (as' ! k) = Some \<lparr>dn_item = y, dn_prev = cell_before as' k, dn_next = cell_at as' (k + 1)\<rparr>" if k: "k < length as" for k
  proof -
    note c = dlist_cell [OF d k]
    consider "k = i" | "k = Suc i" | "i = Suc k" | "k = Suc (Suc i)" | "k \<noteq> i" "k \<noteq> Suc i" "i \<noteq> Suc k" "k \<noteq> Suc (Suc i)" by blast
    then show ?thesis
    proof cases
      case 1
      then show ?thesis using i ne [of i "Suc i"] dlist_cell [OF d i] by (simp add: h'_def swapped_def nth at bef)
    next
      case 2
      then show ?thesis using i ne [of i "Suc i"] dlist_cell [OF d, of i] by (simp add: h'_def swapped_def nth at bef)
    next
      case 3
      then show ?thesis using i k c ne [of k i] ne [of k "Suc i"] by (simp add: h'_def swapped_def nth at bef)
    next
      case 4
      moreover have "as \<noteq> []" using i by auto
      ultimately show ?thesis using i k c ne [of k i] ne [of k "Suc i"] ne [of k "i - 1"]
        by (cases i) (auto simp: h'_def swapped_def nth at bef)
    next
      case 5
      then have "cell_before as i \<noteq> Some (as ! k)" "cell_at as (i + 2) \<noteq> Some (as ! k)"
        using i k ne by (cases i; auto simp: cell_at_def)+
      with 5 show ?thesis using i k c ne [of k i] ne [of k "Suc i"] by (simp add: h'_def swapped_def nth at bef)
    qed
  qed
  moreover have "distinct as'" using dlist_distinct [OF d] i by (simp add: as'_def)
  ultimately show "dlist h' as'" by (simp add: dlist_def len)
qed

lemma update_two: "(xs @ x # y # ys)[length xs := y, Suc (length xs) := x] = xs @ y # x # ys"
  by (simp add: list_update_append)

text \<open>A pass from \<open>tip\<close> on turns the rest of the list into its \<open>pass\<close> and notes whether it changed.\<close>

lemma sort_pass_dlist:
  assumes "dlist h (dn @ tip # rest)" "\<forall>a \<in> set (tip # rest). has_text lng h a" "head = hd (dn @ [tip])"
  shows "\<exists>h'. sort_pass lng h head tip srt =
      Some (Inr (h', hd (dn @ pass (title_key lng h) (tip # rest)), srt \<and> pass (title_key lng h) (tip # rest) = tip # rest)) \<and>
    dlist h' (dn @ pass (title_key lng h) (tip # rest)) \<and> (\<forall>x. item_of h' x = item_of h x)"
  using assms
proof (induction rest arbitrary: h dn tip head srt)
  case Nil
  have "h tip = Some \<lparr>dn_item = item_of h tip, dn_prev = cell_before (dn @ [tip]) (length dn), dn_next = None\<rparr>"
    using dlist_cell [OF Nil.prems(1), of "length dn"] by simp
  then show ?case using Nil.prems by (subst sort_pass.simps) simp
next
  case (Cons nxt rest)
  let ?as = "dn @ tip # nxt # rest" and ?i = "length dn"
  have i: "Suc ?i < length ?as" by simp
  have n: "?as ! ?i = tip" "?as ! Suc ?i = nxt" by (simp_all add: nth_append)
  have tip: "h tip = Some \<lparr>dn_item = item_of h tip, dn_prev = cell_before ?as ?i, dn_next = Some nxt\<rparr>"
    using dlist_cell [OF Cons.prems(1), of ?i] n i by simp
  have nxt: "h nxt = Some \<lparr>dn_item = item_of h nxt, dn_prev = Some tip, dn_next = cell_at ?as (Suc (Suc ?i))\<rparr>"
    using dlist_cell [OF Cons.prems(1) i] n by simp
  obtain t1 t2 where t: "submenuItemGetText lng (item_of h tip) = Some t1" "submenuItemGetText lng (item_of h nxt) = Some t2"
    using Cons.prems(2) by (auto simp: has_text_def)
  have gt: "strcasecmp_gt t1 t2 \<longleftrightarrow> title_key lng h nxt < title_key lng h tip" by (simp add: strcasecmp_gt_less title_key_def t)
  show ?case
  proof (cases "title_key lng h nxt < title_key lng h tip")
    case True
    let ?h = "swapped h tip nxt (cell_before ?as ?i) (cell_at ?as (?i + 2))"
    have sw: "swap h tip nxt = Inr ?h" using swap_swapped [OF Cons.prems(1) i] n by simp
    have d: "dlist ?h ((dn @ [nxt]) @ tip # rest)" using swapped_dlist(1) [OF Cons.prems(1) i]
      by (simp only: n update_two append_assoc append_Cons append_Nil)
    have it: "item_of ?h x = item_of h x" for x using swapped_dlist(2) [OF Cons.prems(1) i] n by simp
    then have k: "title_key lng ?h = title_key lng h" "has_text lng ?h = has_text lng h" by (auto simp: title_key_def has_text_def fun_eq_iff)
    have hd': "(if tip = head then nxt else head) = hd ((dn @ [nxt]) @ [tip])"
      using Cons.prems(3) dlist_distinct [OF Cons.prems(1)] by (cases dn) auto
    from Cons.IH [OF d _ hd', of False] Cons.prems(2) k obtain h' where
      h': "sort_pass lng ?h (if tip = head then nxt else head) tip False =
          Some (Inr (h', hd ((dn @ [nxt]) @ pass (title_key lng h) (tip # rest)), False))"
        "dlist h' ((dn @ [nxt]) @ pass (title_key lng h) (tip # rest))" "\<forall>x. item_of h' x = item_of ?h x" by auto
    have ne: "nxt \<noteq> tip" using dlist_distinct [OF Cons.prems(1)] by simp
    show ?thesis
      by (subst sort_pass.simps) (use True h' it ne in \<open>simp add: tip nxt t gt sw\<close>)
  next
    case False
    have d: "dlist h ((dn @ [tip]) @ nxt # rest)" using Cons.prems(1) by simp
    have "head = hd ((dn @ [tip]) @ [nxt])" using Cons.prems(3) by (cases dn) auto
    from Cons.IH [OF d _ this, of srt] Cons.prems(2) obtain h' where
      "sort_pass lng h head nxt srt =
          Some (Inr (h', hd ((dn @ [tip]) @ pass (title_key lng h) (nxt # rest)), srt \<and> pass (title_key lng h) (nxt # rest) = nxt # rest))"
        "dlist h' ((dn @ [tip]) @ pass (title_key lng h) (nxt # rest))" "\<forall>x. item_of h' x = item_of h x" by auto
    then show ?thesis by (subst sort_pass.simps) (use False in \<open>simp add: tip nxt t gt\<close>)
  qed
qed

text \<open>The loop ends, because every pass that changes the list removes an inversion.\<close>

lemma sort_loop_dlist:
  assumes "dlist h as" "as \<noteq> []" "\<forall>a \<in> set as. has_text lng h a"
  shows "\<exists>h'. sort_loop lng h (hd as) = Some (Inr (h', hd (sort_key (title_key lng h) as))) \<and>
    dlist h' (sort_key (title_key lng h) as) \<and> (\<forall>x. item_of h' x = item_of h x)"
  using assms
proof (induction "inversions (title_key lng h) as" arbitrary: h as rule: less_induct)
  case less
  let ?k = "title_key lng h"
  obtain tip rest where as: "as = tip # rest" using less.prems(2) by (cases as) auto
  from sort_pass_dlist [of h "[]" tip rest lng tip True] less.prems as obtain h1 where
    h1: "sort_pass lng h (hd as) (hd as) True = Some (Inr (h1, hd (pass ?k as), pass ?k as = as))"
      "dlist h1 (pass ?k as)" "\<forall>x. item_of h1 x = item_of h x" by auto
  then have k: "title_key lng h1 = ?k" "has_text lng h1 = has_text lng h" by (auto simp: title_key_def has_text_def fun_eq_iff)
  show ?case
  proof (cases "pass ?k as = as")
    case True
    then have "sort_key ?k as = as" using pass_fix [of as ?k] dlist_distinct [OF less.prems(1)] by (simp add: sort_key_id_if_sorted)
    then show ?thesis using h1 True by (subst sort_loop.simps) auto
  next
    case False
    then have "inversions (title_key lng h1) (pass ?k as) < inversions ?k as" using inversions_pass k by metis
    moreover have "pass ?k as \<noteq> []" using as by (metis length_pass length_0_conv list.distinct(1))
    ultimately obtain h2 where "sort_loop lng h1 (hd (pass ?k as)) = Some (Inr (h2, hd (sort_key ?k as)))"
        "dlist h2 (sort_key ?k as)" "\<forall>x. item_of h2 x = item_of h1 x"
      using less.hyps [OF _ h1(2)] less.prems(3) k by (auto simp: sort_key_pass)
    then show ?thesis using h1 False by (subst sort_loop.simps) auto
  qed
qed

text \<open>C15: sorting the list of games ends and yields the stable sort of its entries by title, compared without
  regard to case, relinked in both directions, with every entry kept as it was.\<close>

theorem submenuSort_sorts:
  assumes "dlist h as" "\<forall>a \<in> set as. has_text lng h a"
  shows "\<exists>h'. submenuSort lng h (cell_at as 0) = Some (Inr (h', cell_at (sort_key (title_key lng h) as) 0)) \<and>
    dlist h' (sort_key (title_key lng h) as) \<and> (\<forall>x. item_of h' x = item_of h x)"
proof (cases as)
  case Nil
  with assms(1) show ?thesis by (auto simp: submenuSort_def)
next
  case (Cons a bs)
  note cell = dlist_cell [OF assms(1), of 0]
  show ?thesis
  proof (cases bs)
    case Nil
    with Cons cell assms(1) show ?thesis by (auto simp: submenuSort_def)
  next
    case (Cons b cs)
    have "sort_key (title_key lng h) as \<noteq> []" using \<open>as = a # bs\<close> by (metis length_sort length_0_conv list.distinct(1))
    moreover obtain h' where "sort_loop lng h (hd as) = Some (Inr (h', hd (sort_key (title_key lng h) as)))"
      "dlist h' (sort_key (title_key lng h) as)" "\<forall>x. item_of h' x = item_of h x"
      using sort_loop_dlist [OF assms(1) _ assms(2)] \<open>as = a # bs\<close> by auto
    ultimately show ?thesis using cell Cons \<open>as = a # bs\<close> by (auto simp: submenuSort_def hd_conv_nth)
  qed
qed

definition entry :: "string \<Rightarrow> int \<Rightarrow> addr option \<Rightarrow> addr option \<Rightarrow> submenu_item dnode" where
  "entry title i p n = (submenuAllocItem 0 True (-1) (Some title) i (-1))\<lparr>dn_prev := p, dn_next := n\<rparr>"

definition three_games :: submenu_heap where
  "three_games = [1 \<mapsto> entry ''beta'' 0 None (Some 2), 2 \<mapsto> entry ''Alpha'' 1 (Some 1) (Some 3), 3 \<mapsto> entry ''BETA'' 2 (Some 2) None]"

lemma three_games_dlist: "dlist three_games [1, 2, 3]"
  by (auto simp: dlist_def three_games_def entry_def submenuAllocItem_def less_Suc_eq numeral_eq_Suc)

theorem submenuSort_sorts_witness:
  "\<exists>h'. submenuSort (\<lambda>_. []) three_games (Some 1) = Some (Inr (h', Some 2)) \<and> dlist h' [2, 1, 3]"
proof -
  have t: "\<forall>a \<in> set [1, 2, 3]. has_text (\<lambda>_. []) three_games a"
    by (simp add: has_text_def three_games_def entry_def submenuAllocItem_def item_of_def submenuItemGetText_def submenuRebuildCache_item_def)
  have s: "sort_key (title_key (\<lambda>_. []) three_games) [1, 2, 3] = [2, 1, 3]"
    by (simp add: title_key_def three_games_def entry_def submenuAllocItem_def item_of_def submenuItemGetText_def submenuRebuildCache_item_def
        code_def tolower_def)
  from submenuSort_sorts [OF three_games_dlist t, unfolded s] show ?thesis by auto
qed

section \<open>Moving the selection: refinement\<close>

datatype nav_op = FirstPage | LastPage | NextV | PrevV | NextPage | PrevPage

fun nav :: "int \<Rightarrow> submenu_heap \<Rightarrow> nav_op \<Rightarrow> menu_item \<Rightarrow> (menu_item cres) option" where
  "nav disp h FirstPage it = Some (menuFirstPage h it)"
| "nav disp h LastPage it = menuLastPage disp h it"
| "nav disp h NextV it = menuNextV disp h it"
| "nav disp h PrevV it = menuPrevV disp h it"
| "nav disp h NextPage it = menuNextPage disp h it"
| "nav disp h PrevPage it = menuPrevPage disp h it"

text \<open>The same moves on the positions of the selected entry and of the first entry of the page, in a list
  of \<open>n\<close> entries shown \<open>d\<close> at a time.\<close>

definition last_page :: "nat \<Rightarrow> nat \<Rightarrow> nat \<times> nat" where
  "last_page d n = (n - 1, n - d)"

fun move :: "nat \<Rightarrow> nat \<Rightarrow> nav_op \<Rightarrow> nat \<times> nat \<Rightarrow> nat \<times> nat" where
  "move d n FirstPage (c, ps) = (0, 0)"
| "move d n LastPage (c, ps) = last_page d n"
| "move d n NextV (c, ps) = (if c + 1 < n then (c + 1, if c + 1 < ps + d then ps else c + 1) else (0, 0))"
| "move d n PrevV (c, ps) = (if 0 < c then (c - 1, if ps = c then ps - d else ps) else last_page d n)"
| "move d n NextPage (c, ps) = (if ps + 1 < n then (min (ps + d) (n - 1), min (ps + d) (n - 1)) else (0, 0))"
| "move d n PrevPage (c, ps) = (if 0 < ps then (ps - d, ps - d) else last_page d n)"

definition page_ok :: "nat \<Rightarrow> nat \<Rightarrow> nat \<times> nat \<Rightarrow> bool" where
  "page_ok d n p \<longleftrightarrow> fst p < n \<and> snd p \<le> fst p \<and> fst p < snd p + d"

definition shows_at :: "addr list \<Rightarrow> menu_item \<Rightarrow> nat \<times> nat \<Rightarrow> bool" where
  "shows_at as it p \<longleftrightarrow> mi_submenu it = cell_at as 0 \<and> mi_current it = Some (as ! fst p) \<and> mi_pagestart it = Some (as ! snd p)"

lemma move_page_ok: "0 < d \<Longrightarrow> page_ok d n p \<Longrightarrow> page_ok d n (move d n q p)"
  by (cases p; cases q) (auto simp: page_ok_def last_page_def)

lemma on_page_dlist:
  assumes "dlist h as" "ps \<le> t" "t < length as"
  shows "on_page h (int d + 1) (Some (as ! ps)) (as ! t) = Some (Inr (t < ps + d))"
  using assms(2)
proof (induction d arbitrary: ps)
  case 0
  then show ?case by (subst on_page.simps) simp
next
  case (Suc d)
  have ps: "ps < length as" using Suc.prems assms(3) by simp
  show ?case
  proof (cases "ps = t")
    case True
    then show ?thesis by (subst on_page.simps) simp
  next
    case False
    then have "as ! ps \<noteq> as ! t" using dlist_distinct [OF assms(1)] ps assms(3) by (simp add: nth_eq_iff_index_eq)
    moreover have "on_page h (int d + 1) (Some (as ! (ps + 1))) (as ! t) = Some (Inr (t < ps + 1 + d))"
      using False Suc by simp
    moreover have "ps + 1 < length as" using False Suc.prems assms(3) by simp
    ultimately show ?thesis using dlist_cell [OF assms(1) ps] by (subst on_page.simps) (simp add: add.commute)
  qed
qed

lemma menuFirstPage_shows:
  assumes "dlist h as" "shows_at as it (c, ps)" "c < length as"
  shows "\<exists>it'. menuFirstPage h it = Inr it' \<and> shows_at as it' (0, 0)"
  using assms dlist_cell [OF assms(1,3)] by (auto simp: menuFirstPage_def shows_at_def cell_at_def)

lemma menuLastPage_shows:
  assumes "dlist h as" "shows_at as it (c, ps)" "c < length as" "0 < d"
  shows "\<exists>it'. menuLastPage (int d) h it = Some (Inr it') \<and> shows_at as it' (last_page d (length as))"
proof -
  have "last as = as ! (length as - 1)" using assms(3) by (cases as) (auto simp: last_conv_nth)
  moreover have "step_back h (int (d - 1) + 1) (as ! (length as - 1)) = Some (Inr (as ! (length as - 1 - (d - 1))))"
    using assms(1,3) by (intro step_back_dlist) auto
  moreover have "int (d - 1) + 1 = int d" "length as - 1 - (d - 1) = length as - d" using assms(4) by auto
  ultimately show ?thesis using assms last_cell_dlist [OF assms(1,3)]
    by (auto simp: menuLastPage_def shows_at_def last_page_def)
qed

lemma nav_shows:
  assumes "dlist h as" "shows_at as it (c, ps)" "page_ok d (length as) (c, ps)" "0 < d"
  shows "\<exists>it'. nav (int d) h q it = Some (Inr it') \<and> shows_at as it' (move d (length as) q (c, ps))"
proof -
  have c: "c < length as" "ps \<le> c" "ps < length as" using assms(3) by (auto simp: page_ok_def)
  note first = menuFirstPage_shows [OF assms(1,2) c(1)] and lst = menuLastPage_shows [OF assms(1,2) c(1) assms(4)]
  note cells = dlist_cell [OF assms(1) c(1)] dlist_cell [OF assms(1) c(3)]
  have eq: "as ! ps = as ! c \<longleftrightarrow> ps = c" using dlist_distinct [OF assms(1)] c by (simp add: nth_eq_iff_index_eq)
  note it = assms(2) [unfolded shows_at_def]
  show ?thesis
  proof (cases q)
    case NextV
    show ?thesis
    proof (cases "c + 1 < length as")
      case True
      then show ?thesis using NextV it cells on_page_dlist [OF assms(1) _ True, of ps d] c
        by (auto simp: menuNextV_def shows_at_def)
    qed (use NextV it cells first in \<open>simp add: menuNextV_def\<close>)
  next
    case PrevV
    show ?thesis
    proof (cases c)
      case (Suc k)
      then show ?thesis using PrevV it cells step_back_dlist [OF assms(1) c(1), of d] c eq
        by (auto simp: menuPrevV_def shows_at_def)
    qed (use PrevV it cells lst in \<open>simp add: menuPrevV_def\<close>)
  next
    case NextPage
    then show ?thesis using it cells first step_forth_dlist [OF assms(1) c(3), of d]
      by (cases "ps + 1 < length as") (auto simp: menuNextPage_def shows_at_def)
  next
    case PrevPage
    then show ?thesis using it cells lst step_back_dlist [OF assms(1) c(3), of d] c
      by (cases ps) (auto simp: menuPrevPage_def shows_at_def)
  qed (use first lst in auto)
qed

section \<open>Building and shrinking the list\<close>

lemma submenuAppendItem_dlist:
  assumes d: "dlist h as" and new: "h a = None" and node: "dn_prev node = None" "dn_next node = None"
  shows "\<exists>h'. submenuAppendItem node (Some a) h (cell_at as 0) = Some (Inr (a, cell_at (as @ [a]) 0, h')) \<and>
    dlist h' (as @ [a]) \<and> item_of h' a = dn_item node \<and> (\<forall>x. x \<noteq> a \<longrightarrow> item_of h' x = item_of h x \<and> (h' x = None \<longleftrightarrow> h x = None))"
proof (cases "as = []")
  case True
  then show ?thesis using dlist_single [OF node, of h a] by (auto simp: submenuAppendItem_def item_of_def)
next
  case False
  obtain l where l: "h (last as) = Some l" using dlist_dom [OF d] False last_in_set by blast
  have la: "last as \<noteq> a" using l new by auto
  let ?h = "h(a \<mapsto> node\<lparr>dn_prev := Some (last as)\<rparr>, last as \<mapsto> l\<lparr>dn_next := Some a\<rparr>)"
  have "last_cell h (as ! 0) = Some (Inr (last as))" using last_cell_dlist [OF d, of 0] False by simp
  then have "submenuAppendItem node (Some a) h (cell_at as 0) = Some (Inr (a, cell_at (as @ [a]) 0, ?h))"
    using False la l by (simp add: submenuAppendItem_def fun_upd_twist nth_append)
  then show ?thesis using dlist_snoc [OF d False new l node(2)] l by auto
qed

text \<open>Filling a list from the start: \<open>cells\<close> are the addresses the allocator gives.\<close>

fun fill :: "(addr \<times> submenu_item dnode) list \<Rightarrow> submenu_heap \<Rightarrow> addr option \<Rightarrow> ((submenu_heap \<times> addr option) cres) option" where
  "fill [] h submenu = Some (Inr (h, submenu))"
| "fill ((a, node) # rest) h submenu =
     (case submenuAppendItem node (Some a) h submenu of
        None \<Rightarrow> None | Some (Inl e) \<Rightarrow> Some (Inl e) | Some (Inr (_, submenu1, h1)) \<Rightarrow> fill rest h1 submenu1)"

lemma fill_dlist:
  assumes "dlist h as" "distinct (map fst new)" "\<forall>(a, node) \<in> set new. h a = None \<and> dn_prev node = None \<and> dn_next node = None"
  shows "\<exists>h'. fill new h (cell_at as 0) = Some (Inr (h', cell_at (as @ map fst new) 0)) \<and> dlist h' (as @ map fst new) \<and>
    (\<forall>(a, node) \<in> set new. item_of h' a = dn_item node) \<and> (\<forall>x. x \<notin> fst ` set new \<longrightarrow> item_of h' x = item_of h x)"
  using assms
proof (induction new arbitrary: h as)
  case (Cons p new)
  obtain a node where p: "p = (a, node)" by force
  have n: "h a = None" "dn_prev node = None" "dn_next node = None" using Cons.prems(3) p by auto
  from submenuAppendItem_dlist [OF Cons.prems(1) n] obtain h1 where
    h1: "submenuAppendItem node (Some a) h (cell_at as 0) = Some (Inr (a, cell_at (as @ [a]) 0, h1))" "dlist h1 (as @ [a])"
      "item_of h1 a = dn_item node" "\<forall>x. x \<noteq> a \<longrightarrow> item_of h1 x = item_of h x \<and> (h1 x = None \<longleftrightarrow> h x = None)" by auto
  have "\<forall>(b, nd) \<in> set new. h1 b = None \<and> dn_prev nd = None \<and> dn_next nd = None" using Cons.prems(2,3) p h1(4) by force
  from Cons.IH [OF h1(2) _ this] Cons.prems(2) obtain h' where
    "fill new h1 (cell_at (as @ [a]) 0) = Some (Inr (h', cell_at ((as @ [a]) @ map fst new) 0))" "dlist h' ((as @ [a]) @ map fst new)"
    "\<forall>(b, nd) \<in> set new. item_of h' b = dn_item nd" "\<forall>x. x \<notin> fst ` set new \<longrightarrow> item_of h' x = item_of h1 x" by auto
  then show ?case using h1 p Cons.prems(2) by auto
qed simp

text \<open>The loop that removes entries, from the invariant that the entries \<open>ks\<close> kept so far lead to the
  current one.\<close>

lemma remove_items_chain:
  assumes "seg h dn_next head ks cur" "chain h dn_next cur rs" "distinct (ks @ rs)" "prev = (if ks = [] then None else Some (last ks))"
  shows "\<exists>h' head'. remove_items i h head prev cur = Some (Inr (h', head')) \<and>
    chain h' dn_next head' (ks @ filter (\<lambda>a. si_id (item_of h a) \<noteq> i) rs) \<and>
    (\<forall>a \<in> set rs. si_id (item_of h a) = i \<longrightarrow> h' a = None) \<and>
    (\<forall>a. si_id (item_of h a) \<noteq> i \<or> a \<notin> set rs \<longrightarrow> map_option dn_prev (h' a) = map_option dn_prev (h a) \<and> item_of h' a = item_of h a)"
  using assms
proof (induction rs arbitrary: h head ks prev cur)
  case Nil
  then show ?case by (subst remove_items.simps) (auto simp: chain_def)
next
  case (Cons c rs)
  obtain n where n: "h c = Some n" "cur = Some c" "chain h dn_next (dn_next n) rs" using Cons.prems(2) by (auto simp: chain_Cons)
  show ?case
  proof (cases "si_id (dn_item n) = i")
    case False
    have s: "seg h dn_next head (ks @ [c]) (dn_next n)" using Cons.prems(1) n by (auto simp: seg_append)
    from Cons.IH [OF s n(3), of "Some c"] Cons.prems(3) obtain h' head' where
      "remove_items i h head (Some c) (dn_next n) = Some (Inr (h', head'))"
      "chain h' dn_next head' ((ks @ [c]) @ filter (\<lambda>a. si_id (item_of h a) \<noteq> i) rs)"
      "\<forall>a \<in> set rs. si_id (item_of h a) = i \<longrightarrow> h' a = None"
      "\<forall>a. si_id (item_of h a) \<noteq> i \<or> a \<notin> set rs \<longrightarrow> map_option dn_prev (h' a) = map_option dn_prev (h a) \<and> item_of h' a = item_of h a" by auto
    moreover have "item_of h c = dn_item n" using n by (simp add: item_of_def)
    ultimately show ?thesis using False n by (subst remove_items.simps) auto
  next
    case True
    define h1 where "h1 = (case prev of None \<Rightarrow> h | Some p \<Rightarrow> h(p \<mapsto> (the (h p))\<lparr>dn_next := dn_next n\<rparr>))(c := None)"
    define head1 where "head1 = (if head = Some c then dn_next n else head)"
    have dis: "c \<notin> set ks" "c \<notin> set rs" "set ks \<inter> set rs = {}" using Cons.prems(3) by auto
    have "prev = Some p \<Longrightarrow> p \<in> set ks" for p using Cons.prems(4) by (auto split: if_splits)
    then have pk: "prev = Some p \<Longrightarrow> p \<in> set ks \<and> p \<notin> set rs \<and> (\<exists>m. h p = Some m)" for p
      using seg_Some [OF _ Cons.prems(1)] dis(3) by blast
    have run: "remove_items i h head prev (Some c) = remove_items i h1 head1 prev (dn_next n)"
      using True n pk by (subst remove_items.simps) (auto simp: h1_def head1_def split: option.splits)
    have s1: "seg h1 dn_next head1 ks (dn_next n)"
    proof (cases ks rule: rev_cases)
      case Nil
      then show ?thesis using Cons.prems(1) n by (simp add: head1_def)
    next
      case (snoc js p)
      obtain m where m: "h p = Some m" "seg h dn_next head js (Some p)" using Cons.prems(1) snoc by (auto simp: seg_append split: option.splits)
      have "p \<notin> set js" "head \<noteq> Some c" using Cons.prems(1,3) snoc dis by (cases js; auto)+
      with m snoc dis Cons.prems(4) show ?thesis by (auto simp: seg_append h1_def head1_def)
    qed
    have c1: "chain h1 dn_next (dn_next n) rs" using n(3) dis pk by (auto simp: h1_def chain_def split: option.splits)
    have same: "item_of h1 a = item_of h a" "map_option dn_prev (h1 a) = map_option dn_prev (h a)" if "a \<noteq> c" for a
      using that pk by (auto simp: h1_def item_of_def split: option.splits)
    have eqr: "\<forall>a \<in> set rs. item_of h1 a = item_of h a" using same(1) dis(2) by metis
    then have fl: "filter (\<lambda>a. si_id (item_of h1 a) \<noteq> i) rs = filter (\<lambda>a. si_id (item_of h a) \<noteq> i) rs"
      by (intro filter_cong) auto
    from Cons.IH [OF s1 c1 _ Cons.prems(4)] Cons.prems(3) obtain h' head' where h':
      "remove_items i h1 head1 prev (dn_next n) = Some (Inr (h', head'))"
      "chain h' dn_next head' (ks @ filter (\<lambda>a. si_id (item_of h1 a) \<noteq> i) rs)"
      "\<forall>a \<in> set rs. si_id (item_of h1 a) = i \<longrightarrow> h' a = None"
      "\<forall>a. si_id (item_of h1 a) \<noteq> i \<or> a \<notin> set rs \<longrightarrow> map_option dn_prev (h' a) = map_option dn_prev (h1 a) \<and> item_of h' a = item_of h1 a" by auto
    have gone: "h' c = None" using h'(4) dis by (force simp: h1_def)
    have i: "si_id (item_of h c) = i" using True n by (simp add: item_of_def)
    have "map_option dn_prev (h' a) = map_option dn_prev (h a) \<and> item_of h' a = item_of h a"
      if "si_id (item_of h a) \<noteq> i \<or> a \<notin> set (c # rs)" for a
    proof -
      have "a \<noteq> c" using that i by auto
      then show ?thesis using h'(4) [rule_format, of a] same [of a] that by auto
    qed
    then show ?thesis using h'(1-3) fl run n gone i eqr by auto
  qed
qed

text \<open>Removing entries leaves the list of the others linked forwards, but the entry behind a removed one
  keeps its pointer back to the freed cell.\<close>

theorem submenuRemoveItem_stale:
  assumes "dlist h as" "as = xs @ a # b # ys" "si_id (item_of h a) = i" "si_id (item_of h b) \<noteq> i"
  shows "\<exists>h' head' n. submenuRemoveItem i h (cell_at as 0) = Some (Inr (h', head')) \<and>
    chain h' dn_next head' (filter (\<lambda>c. si_id (item_of h c) \<noteq> i) as) \<and> h' a = None \<and> h' b = Some n \<and> dn_prev n = Some a"
proof -
  have "seg h dn_next (cell_at as 0) [] (cell_at as 0)" by simp
  moreover have "chain h dn_next (cell_at as 0) as" using dlist_seg [OF assms(1), of 0] by simp
  ultimately obtain h' head' where
    h': "remove_items i h (cell_at as 0) None (cell_at as 0) = Some (Inr (h', head'))"
      "chain h' dn_next head' (filter (\<lambda>c. si_id (item_of h c) \<noteq> i) as)"
      "\<forall>c \<in> set as. si_id (item_of h c) = i \<longrightarrow> h' c = None"
      "\<forall>c. si_id (item_of h c) \<noteq> i \<or> c \<notin> set as \<longrightarrow> map_option dn_prev (h' c) = map_option dn_prev (h c) \<and> item_of h' c = item_of h c"
    using remove_items_chain [of h "cell_at as 0" "[]" "cell_at as 0" as None i] dlist_distinct [OF assms(1)] by auto
  have "h b = Some \<lparr>dn_item = item_of h b, dn_prev = Some a, dn_next = cell_at as (length xs + 2)\<rparr>"
    using dlist_cell [OF assms(1), of "length xs + 1"] assms(2) by (simp add: nth_append)
  then have "map_option dn_prev (h' b) = Some (Some a)" using h'(4) assms(4) by auto
  then show ?thesis using h' assms by (auto simp: submenuRemoveItem_def)
qed

theorem submenuRemoveItem_stale_witness:
  "\<exists>h' head' n. submenuRemoveItem 1 three_games (Some 1) = Some (Inr (h', head')) \<and> h' 2 = None \<and> h' 3 = Some n \<and> dn_prev n = Some 2"
  using submenuRemoveItem_stale [OF three_games_dlist, of "[1]" 2 3 "[]" 1]
  by (auto simp: three_games_def item_of_def entry_def submenuAllocItem_def submenuRebuildCache_item_def)

section \<open>Moving between devices\<close>

lemma visible_forth_dlist:
  assumes "dlist h as"
  shows "k \<le> length as \<Longrightarrow> visible_forth h visible (cell_at as k) = Some (Inr (find (\<lambda>a. visible (item_of h a)) (drop k as)))"
proof (induction "length as - k" arbitrary: k)
  case 0
  then show ?case by (subst visible_forth.simps) simp
next
  case (Suc n)
  then have k: "k < length as" by simp
  with Suc have "visible_forth h visible (cell_at as (Suc k)) = Some (Inr (find (\<lambda>a. visible (item_of h a)) (drop (Suc k) as)))" by simp
  with k dlist_cell [OF assms k] show ?case by (subst visible_forth.simps) (simp add: Cons_nth_drop_Suc [symmetric])
qed

lemma visible_back_dlist:
  assumes "dlist h as"
  shows "k \<le> length as \<Longrightarrow> visible_back h visible (cell_before as k) = Some (Inr (find (\<lambda>a. visible (item_of h a)) (rev (take k as))))"
proof (induction k)
  case 0
  then show ?case by (subst visible_back.simps) simp
next
  case (Suc k)
  then have k: "k < length as" by simp
  with Suc show ?case using dlist_cell [OF assms k] by (subst visible_back.simps) (simp add: take_Suc_conv_app_nth)
qed

text \<open>The next and the previous device are the nearest visible ones; without one the selection stays.\<close>

theorem menu_devices:
  assumes "dlist h as" "i < length as"
  shows "menuNextH h visible (Some (as ! i)) =
      Some (Inr (case find (\<lambda>a. visible (item_of h a)) (drop (Suc i) as) of None \<Rightarrow> Some (as ! i) | Some a \<Rightarrow> Some a)) \<and>
    menuPrevH h visible (Some (as ! i)) =
      Some (Inr (case find (\<lambda>a. visible (item_of h a)) (rev (take i as)) of None \<Rightarrow> Some (as ! i) | Some a \<Rightarrow> Some a))"
  using dlist_cell [OF assms] visible_forth_dlist [OF assms(1), of "Suc i" visible] visible_back_dlist [OF assms(1), of i visible] assms(2)
  by (auto simp: menuNextH_def menuPrevH_def split: option.splits)

end
