(* ===== verification/GameHistory.thy ===== *)
theory GameHistory
  imports Config
begin

text \<open>
  The favourites and the recently played games (\<open>src/menusys.c\<close>): two lists of entries with a start-up
  file, a title and two counters, kept in the launcher's configuration under numbered keys.  The arrays
  with their counts are lists; what the slots behind the count hold is never read.  Writing the
  configuration to its file is not part of these operations.
\<close>

abbreviation PS5_MAX_FAVORITES :: nat where "PS5_MAX_FAVORITES \<equiv> 128"
abbreviation PS5_MAX_RECENT :: nat where "PS5_MAX_RECENT \<equiv> 64"

record ps5_list_entry =
  le_mode :: int
  le_startup :: string
  le_title :: string
  le_time1 :: u32
  le_time2 :: u32

section \<open>The text of an entry\<close>

definition BAR :: char where "BAR = CHR ''|''"

definition entry_text :: "ps5_list_entry \<Rightarrow> string" where
  "entry_text e = snprintf 256 (show_int (le_mode e) @ [BAR] @ le_startup e @ [BAR] @ show_nat (unat (le_time1 e)) @ [BAR] @
     show_nat (unat (le_time2 e)) @ [BAR] @ le_title e)"

text \<open>The text before the first bar and behind it.\<close>

definition cut_bar :: "string \<Rightarrow> (string \<times> string) option" where
  "cut_bar p = map_option (\<lambda>n. (take n p, drop (n + 1) p)) (strchr p BAR)"

definition parse_entry :: "string \<Rightarrow> ps5_list_entry option" where
  "parse_entry val =
     Option.bind (cut_bar val) (\<lambda>(mode, p1).
       Option.bind (cut_bar p1) (\<lambda>(startup, p2).
         Option.bind (cut_bar p2) (\<lambda>(time1, p3).
           Option.bind (cut_bar p3) (\<lambda>(time2, title).
             Some \<lparr>le_mode = atoi mode, le_startup = strncpy_z 32 startup, le_title = strncpy_z 128 title,
                   le_time1 = of_nat (strtoul10 time1), le_time2 = of_nat (strtoul10 time2)\<rparr>))))"

section \<open>Loading and saving\<close>

definition show_02d :: "nat \<Rightarrow> string" where
  "show_02d i = (if i < 10 then CHR ''0'' # show_nat i else show_nat i)"

definition list_key :: "string \<Rightarrow> nat \<Rightarrow> string" where
  "list_key pre i = snprintf 32 (pre @ ''_'' @ show_02d i)"

text \<open>\<open>n\<close> keys are left to look at; a missing or empty value ends the loop, a value that cannot be parsed
  is skipped.\<close>

fun load_list :: "string \<Rightarrow> config_set \<Rightarrow> nat \<Rightarrow> nat \<Rightarrow> ps5_list_entry list" where
  "load_list pre cs i 0 = []"
| "load_list pre cs i (Suc n) =
     (case configGetStr cs (list_key pre i) of
        None \<Rightarrow> []
      | Some v \<Rightarrow>
          let val = strncpy_z 256 v
          in if val = [] then []
             else (case parse_entry val of Some e \<Rightarrow> [e] | None \<Rightarrow> []) @ load_list pre cs (i + 1) n)"

definition save_slot :: "string \<Rightarrow> ps5_list_entry list \<Rightarrow> nat \<Rightarrow> config_set \<Rightarrow> config_set" where
  "save_slot pre es i cs =
     (if i < length es then snd (configSetStr cs (list_key pre i) (entry_text (es ! i)))
      else snd (configRemoveKey cs (list_key pre i)))"

definition save_list :: "string \<Rightarrow> nat \<Rightarrow> ps5_list_entry list \<Rightarrow> config_set \<Rightarrow> config_set" where
  "save_list pre sz es cs = fold (save_slot pre es) [0..<sz] cs"

definition ps5LoadFavorites :: "config_set option \<Rightarrow> ps5_list_entry list" where
  "ps5LoadFavorites configOPL =
     (case configOPL of None \<Rightarrow> [] | Some cs \<Rightarrow> load_list ''ps5_favourite'' cs 0 PS5_MAX_FAVORITES)"

definition ps5SaveFavorites :: "ps5_list_entry list \<Rightarrow> config_set option \<Rightarrow> config_set option" where
  "ps5SaveFavorites favs configOPL = map_option (save_list ''ps5_favourite'' PS5_MAX_FAVORITES favs) configOPL"

text \<open>An empty list is filled with the game of the key \<open>last_played\<close>.\<close>

definition ps5LoadRecent :: "config_set option \<Rightarrow> ps5_list_entry list" where
  "ps5LoadRecent configOPL =
     (case configOPL of
        None \<Rightarrow> []
      | Some cs \<Rightarrow>
          let es = load_list ''ps5_recent'' cs 0 PS5_MAX_RECENT
          in if es = [] then
               (case configGetStr cs ''last_played'' of
                  Some lp \<Rightarrow> if lp = [] then [] else
                    [\<lparr>le_mode = -1, le_startup = take 31 lp, le_title = [], le_time1 = 0, le_time2 = 0\<rparr>]
                | None \<Rightarrow> [])
             else es)"

definition ps5SaveRecent :: "ps5_list_entry list \<Rightarrow> config_set option \<Rightarrow> config_set option" where
  "ps5SaveRecent es configOPL = map_option (save_list ''ps5_recent'' PS5_MAX_RECENT es) configOPL"

section \<open>Changing the lists\<close>

definition is_game :: "string \<Rightarrow> ps5_list_entry \<Rightarrow> bool" where
  "is_game startup e \<longleftrightarrow> strcasecmp_eq (le_startup e) startup"

text \<open>A NULL start-up file is \<open>None\<close>.\<close>

definition ps5IsGameFavorite :: "ps5_list_entry list \<Rightarrow> string option \<Rightarrow> bool" where
  "ps5IsGameFavorite favs startup = (case startup of None \<Rightarrow> False | Some s \<Rightarrow> s \<noteq> [] \<and> list_ex (is_game s) favs)"

definition ps5IsGameRecent :: "ps5_list_entry list \<Rightarrow> string option \<Rightarrow> bool" where
  "ps5IsGameRecent es startup = (case startup of None \<Rightarrow> False | Some s \<Rightarrow> s \<noteq> [] \<and> list_ex (is_game s) es)"

fun find_game :: "string \<Rightarrow> nat \<Rightarrow> ps5_list_entry list \<Rightarrow> nat option" where
  "find_game s i [] = None"
| "find_game s i (e # es) = (if is_game s e then Some i else find_game s (i + 1) es)"

definition favorite_title :: "string option \<Rightarrow> nat \<Rightarrow> string" where
  "favorite_title title n =
     take 127 (case title of
        Some t \<Rightarrow> if t \<noteq> [] then snprintf 32 (take 28 t @ ''_'' @ show_nat n) else snprintf 32 (''game_'' @ show_nat n)
      | None \<Rightarrow> snprintf 32 (''game_'' @ show_nat n))"

text \<open>\<open>now\<close> is the time; the result is the list and the configuration.\<close>

definition ps5ToggleGameFavoriteEx ::
  "u32 \<Rightarrow> int \<Rightarrow> string option \<Rightarrow> string option \<Rightarrow> ps5_list_entry list \<Rightarrow> config_set option \<Rightarrow> ps5_list_entry list \<times> config_set option" where
  "ps5ToggleGameFavoriteEx now mode startup title favs cfg =
     (case startup of
        None \<Rightarrow> (favs, cfg)
      | Some s \<Rightarrow>
          if s = [] then (favs, cfg)
          else case find_game s 0 favs of
            Some i \<Rightarrow> let favs1 = take i favs @ drop (i + 1) favs in (favs1, ps5SaveFavorites favs1 cfg)
          | None \<Rightarrow>
              if length favs < PS5_MAX_FAVORITES then
                let favs1 = favs @ [\<lparr>le_mode = mode, le_startup = take 31 s, le_title = favorite_title title (length favs),
                                     le_time1 = now, le_time2 = 0\<rparr>]
                in (favs1, ps5SaveFavorites favs1 cfg)
              else (favs, cfg))"

definition ps5RecordRecentlyPlayedEx ::
  "u32 \<Rightarrow> int \<Rightarrow> string option \<Rightarrow> string option \<Rightarrow> ps5_list_entry list \<Rightarrow> config_set option \<Rightarrow> ps5_list_entry list \<times> config_set option" where
  "ps5RecordRecentlyPlayedEx now mode startup title es cfg =
     (case startup of
        None \<Rightarrow> (es, cfg)
      | Some s \<Rightarrow>
          if s = [] then (es, cfg)
          else
            let entry = \<lparr>le_mode = mode, le_startup = take 31 s, le_title = (case title of Some t \<Rightarrow> take 127 t | None \<Rightarrow> []),
                         le_time1 = now, le_time2 = 0\<rparr>;
                es1 = (case find_game s 0 es of
                         Some i \<Rightarrow> entry\<lparr>le_time2 := le_time2 (es ! i) + 1\<rparr> # take i es @ drop (i + 1) es
                       | None \<Rightarrow> entry # (if length es < PS5_MAX_RECENT then es else take (PS5_MAX_RECENT - 1) es))
            in (es1, ps5SaveRecent es1 cfg))"

section \<open>An entry survives its text\<close>

definition entry_ok :: "ps5_list_entry \<Rightarrow> bool" where
  "entry_ok e \<longleftrightarrow> int32 (le_mode e) \<and> BAR \<notin> set (le_startup e) \<and> length (le_startup e) \<le> 31 \<and> length (le_title e) \<le> 127"

lemma cut_bar_append: "BAR \<notin> set a \<Longrightarrow> cut_bar (a @ BAR # b) = Some (a, b)"
  by (simp add: cut_bar_def strchr_append)

lemma no_bar: "BAR \<notin> set (show_nat n)" "BAR \<notin> set (show_int i)"
proof -
  show n: "BAR \<notin> set (show_nat n)" for n using show_nat_digits [of n] by (auto simp: BAR_def isdigit_def code_def)
  show "BAR \<notin> set (show_int i)" using n by (auto simp: show_int_def BAR_def)
qed

lemma length_show_u32: "length (show_nat (unat (w :: u32))) \<le> 10"
  using u32_unat_less [of w] by (intro length_show_nat) auto

lemma parse_entry_text:
  assumes "entry_ok e"
  shows "parse_entry (entry_text e) = Some e" "length (entry_text e) \<le> 255" "entry_text e \<noteq> []"
proof -
  let ?t = "show_int (le_mode e) @ [BAR] @ le_startup e @ [BAR] @ show_nat (unat (le_time1 e)) @ [BAR] @ show_nat (unat (le_time2 e)) @ [BAR] @ le_title e"
  have "length ?t \<le> 11 + 1 + 31 + 1 + 10 + 1 + 10 + 1 + 127"
    using assms length_show_int [of "le_mode e"] length_show_u32 [of "le_time1 e"] length_show_u32 [of "le_time2 e"] by (simp add: entry_ok_def)
  then have t: "entry_text e = ?t" by (simp add: entry_text_def snprintf_def)
  have "strtoul10 (show_nat (unat w)) = unat w" for w :: u32 using u32_unat_less [of w] by (intro strtoul10_show_nat) simp
  then show "parse_entry (entry_text e) = Some e"
    using assms by (simp add: parse_entry_def t cut_bar_append no_bar atoi_show_int entry_ok_def strncpy_z_def)
  show "length (entry_text e) \<le> 255" by (simp add: entry_text_def snprintf_def)
  show "entry_text e \<noteq> []" by (simp add: t)
qed

section \<open>Lists under numbered keys\<close>

text \<open>What both lists rely on: their keys are valid and differ.\<close>

locale persistent_list =
  fixes pre :: string and sz :: nat
  assumes valid: "i < sz \<Longrightarrow> key_ok (list_key pre i)"
    and keys_inj: "i < sz \<Longrightarrow> j < sz \<Longrightarrow> list_key pre i = list_key pre j \<Longrightarrow> i = j"
begin

lemma slot_ok: "config_ok cs \<Longrightarrow> i < sz \<Longrightarrow> config_ok (save_slot pre es i cs)"
  by (simp add: save_slot_def valid cfg.wf_put cfg.wf_del)

lemma slot_get:
  "config_ok cs \<Longrightarrow> i < sz \<Longrightarrow> configGetStr (save_slot pre es i cs) k =
     (if k = list_key pre i then if i < length es then Some (trunc_value (entry_text (es ! i))) else None else configGetStr cs k)"
  by (simp add: save_slot_def valid cfg.get_put cfg.get_del)

lemma save_config_ok: "config_ok cs \<Longrightarrow> n \<le> sz \<Longrightarrow> config_ok (fold (save_slot pre es) [0..<n] cs)"
  by (induction n) (simp_all add: slot_ok)

lemma save_get:
  assumes "config_ok cs"
  shows "n \<le> sz \<Longrightarrow> i < n \<Longrightarrow> configGetStr (fold (save_slot pre es) [0..<n] cs) (list_key pre i) =
    (if i < length es then Some (trunc_value (entry_text (es ! i))) else None)"
proof (induction n)
  case (Suc n)
  have ok: "config_ok (fold (save_slot pre es) [0..<n] cs)" using save_config_ok [OF assms] Suc.prems by simp
  have "list_key pre i = list_key pre n \<longleftrightarrow> i = n" using keys_inj [of i n] Suc.prems by auto
  then show ?case using Suc ok by (auto simp: slot_get)
qed simp

lemma save_other:
  assumes "config_ok cs" "\<forall>i < sz. k \<noteq> list_key pre i"
  shows "n \<le> sz \<Longrightarrow> configGetStr (fold (save_slot pre es) [0..<n] cs) k = configGetStr cs k"
proof (induction n)
  case (Suc n)
  have ok: "config_ok (fold (save_slot pre es) [0..<n] cs)" using save_config_ok [OF assms(1)] Suc.prems by simp
  then show ?case using Suc assms(2) by (simp add: slot_get)
qed simp

lemma load_saved:
  assumes "config_ok cs" "length es \<le> sz" "\<forall>e \<in> set es. entry_ok e"
  shows "i + n = sz \<Longrightarrow> load_list pre (save_list pre sz es cs) i n = drop i es"
proof (induction n arbitrary: i)
  case (Suc n)
  then have i: "i < sz" by simp
  show ?case
  proof (cases "i < length es")
    case True
    note p = parse_entry_text [of "es ! i"]
    have "configGetStr (save_list pre sz es cs) (list_key pre i) = Some (trunc_value (entry_text (es ! i)))"
      using save_get [OF assms(1) _ i, of es] True by (simp add: save_list_def)
    with True p assms(3) Suc show ?thesis by (simp add: strncpy_z_def Cons_nth_drop_Suc)
  next
    case False
    then have "configGetStr (save_list pre sz es cs) (list_key pre i) = None"
      using save_get [OF assms(1) _ i, of es] by (simp add: save_list_def)
    with False show ?thesis by simp
  qed
qed (use assms(2) in simp)

lemma roundtrip:
  "config_ok cs \<Longrightarrow> length es \<le> sz \<Longrightarrow> \<forall>e \<in> set es. entry_ok e \<Longrightarrow> load_list pre (save_list pre sz es cs) 0 sz = es"
  using load_saved [of cs es 0 sz] by simp

end

lemma show_02d_inj: "show_02d i = show_02d j \<Longrightarrow> i = j"
proof -
  have "atoi_digits 0 (show_02d i) = i" for i by (simp add: show_02d_def atoi_digits_show_nat isdigit_def code_def)
  then show "show_02d i = show_02d j \<Longrightarrow> i = j" by metis
qed

lemma list_key_ok:
  assumes "i < 128" "length pre \<le> 27" "CHR ''='' \<notin> set pre"
  shows "list_key pre i = pre @ ''_'' @ show_02d i" "key_ok (list_key pre i)"
proof -
  have len: "length (show_02d i) \<le> 3" using length_show_nat [of i 3] length_show_nat [of i 1] assms(1) by (auto simp: show_02d_def)
  then show k: "list_key pre i = pre @ ''_'' @ show_02d i" using assms(2) by (simp add: list_key_def snprintf_def)
  have "\<forall>c \<in> set (show_02d i). isdigit c" using show_nat_digits [of i] by (auto simp: show_02d_def isdigit_def code_def)
  then have "CHR ''='' \<notin> set (show_02d i)" by (auto simp: isdigit_def code_def)
  then show "key_ok (list_key pre i)" using k len assms by (auto simp: key_ok_def configKeyValidate_def)
qed

lemma persistent_listI:
  assumes "length pre \<le> 27" "CHR ''='' \<notin> set pre" "sz \<le> 128"
  shows "persistent_list pre sz"
proof
  fix i assume "i < sz"
  with assms show "key_ok (list_key pre i)" by (intro list_key_ok(2)) auto
next
  fix i j assume "i < sz" "j < sz" "list_key pre i = list_key pre j"
  with assms list_key_ok(1) [of i pre] list_key_ok(1) [of j pre] show "i = j" by (auto dest: show_02d_inj)
qed

interpretation favs: persistent_list "''ps5_favourite''" PS5_MAX_FAVORITES
  by (rule persistent_listI) simp_all

interpretation recents: persistent_list "''ps5_recent''" PS5_MAX_RECENT
  by (rule persistent_listI) simp_all

section \<open>Properties\<close>

lemma last_played_saved:
  assumes "config_ok cs"
  shows "configGetStr (save_list ''ps5_recent'' PS5_MAX_RECENT es cs) ''last_played'' = configGetStr cs ''last_played''"
proof -
  have "\<forall>i < PS5_MAX_RECENT. ''last_played'' \<noteq> list_key ''ps5_recent'' i" by (simp add: list_key_ok(1))
  from recents.save_other [OF assms this] show ?thesis by (simp add: save_list_def)
qed

text \<open>C24: the favourites and the recently played games survive a well-formed configuration, whatever other
  keys and older lists it holds: what was saved under the numbered keys is loaded again in the same order, for
  start-up files without a bar and texts that fit their arrays, up to the 128 favourites and 64 recently
  played games the code keeps.  Only an empty list of recently played games does not stay empty when the
  configuration names a last played game: it is loaded as that game alone.\<close>

theorem game_lists_roundtrip:
  assumes "config_ok cs" "\<forall>e \<in> set es. entry_ok e"
  shows "(length es \<le> PS5_MAX_FAVORITES \<longrightarrow> ps5LoadFavorites (ps5SaveFavorites es (Some cs)) = es) \<and>
    (length es \<le> PS5_MAX_RECENT \<longrightarrow> ps5LoadRecent (ps5SaveRecent es (Some cs)) =
      (if es \<noteq> [] then es
       else case configGetStr cs ''last_played'' of
         None \<Rightarrow> []
       | Some lp \<Rightarrow>
           if lp = [] then [] else [\<lparr>le_mode = -1, le_startup = take 31 lp, le_title = [], le_time1 = 0, le_time2 = 0\<rparr>]))"
  using favs.roundtrip [OF assms(1) _ assms(2)] recents.roundtrip [OF assms(1) _ assms(2)]
  by (simp add: ps5LoadFavorites_def ps5SaveFavorites_def ps5LoadRecent_def ps5SaveRecent_def last_played_saved [OF assms(1)] split: option.splits)

definition demo_game :: ps5_list_entry where
  "demo_game = \<lparr>le_mode = 2, le_startup = ''SLUS_123.45'', le_title = ''A|B'', le_time1 = 7, le_time2 = 3\<rparr>"

theorem game_lists_roundtrip_witness:
  "ps5LoadRecent (ps5SaveRecent [demo_game] (Some \<lparr>cs_type = 1, cs_items = [], cs_filename = None, cs_modified = False, cs_uid = 0\<rparr>)) = [demo_game]"
  using game_lists_roundtrip [of "\<lparr>cs_type = 1, cs_items = [], cs_filename = None, cs_modified = False, cs_uid = 0\<rparr>" "[demo_game]"]
  by (simp add: config_ok_def demo_game_def entry_ok_def BAR_def int32_def)

text \<open>No game is listed twice.\<close>

definition games_ok :: "nat \<Rightarrow> ps5_list_entry list \<Rightarrow> bool" where
  "games_ok n es \<longleftrightarrow> length es \<le> n \<and> distinct (map (\<lambda>e. map tolower (le_startup e)) es)"

lemma find_game_Some:
  "find_game s k es = Some j \<Longrightarrow>
     \<exists>xs e ys. es = xs @ e # ys \<and> j = k + length xs \<and> is_game s e \<and> (\<forall>x \<in> set xs. \<not> is_game s x)"
proof (induction s k es rule: find_game.induct)
  case (2 s i e es)
  show ?case
  proof (cases "is_game s e")
    case True
    with 2 show ?thesis by (intro exI [of _ "[]"]) auto
  next
    case False
    with 2 obtain xs e' ys where "es = xs @ e' # ys" "j = i + 1 + length xs" "is_game s e'" "\<forall>x \<in> set xs. \<not> is_game s x" by auto
    with False show ?thesis by (intro exI [of _ "e # xs"]) auto
  qed
qed simp

lemma find_game_None: "find_game s k es = None \<longleftrightarrow> (\<forall>e \<in> set es. \<not> is_game s e)"
  by (induction s k es rule: find_game.induct) auto

text \<open>With every game listed once, taking out the entry found is taking out the game.\<close>

lemma remove_found:
  assumes "games_ok n es" "find_game s 0 es = Some i"
  shows "take i es @ drop (i + 1) es = filter (\<lambda>e. \<not> is_game s e) es" "es ! i \<in> set es" "is_game s (es ! i)"
proof -
  obtain xs e ys where es: "es = xs @ e # ys" "i = length xs" "is_game s e" "\<forall>x \<in> set xs. \<not> is_game s x"
    using find_game_Some [OF assms(2)] by auto
  have "\<not> is_game s y" if "y \<in> set ys" for y
    using assms(1) es(1,3) imageI [OF that, of "\<lambda>e. map tolower (le_startup e)"] by (auto simp: games_ok_def is_game_def strcasecmp_eq_def)
  with es show "take i es @ drop (i + 1) es = filter (\<lambda>e. \<not> is_game s e) es" by simp
  show "es ! i \<in> set es" "is_game s (es ! i)" using es by simp_all
qed

lemma games_ok_filter: "games_ok n es \<Longrightarrow> games_ok n (filter P es)"
  by (auto simp: games_ok_def distinct_map_filter intro: order_trans [OF length_filter_le])

text \<open>C25: playing a game whose start-up file is not empty and has at most 31 characters puts it at the head of
  a list of recently played games that lists no game twice, with the device, the title and the time it
  was started with; it leaves its old place, the oldest game of a full list is dropped, the order of the
  others stays, and again no game is listed twice.  The counter of the entry is 0 for a game that was not
  in the list and one more than before (in 32 bits) for a game that was.\<close>

theorem recent_games:
  assumes "games_ok PS5_MAX_RECENT es" "s \<noteq> []" "length s \<le> 31"
    and "es' = fst (ps5RecordRecentlyPlayedEx now mode (Some s) title es cfg)"
  shows "\<exists>e. es' = take PS5_MAX_RECENT (e # filter (\<lambda>x. \<not> is_game s x) es) \<and>
      le_startup e = s \<and> le_mode e = mode \<and> le_title e = (case title of Some t \<Rightarrow> take 127 t | None \<Rightarrow> []) \<and> le_time1 e = now \<and>
      (\<forall>x \<in> set es. is_game s x \<longrightarrow> le_time2 e = le_time2 x + 1) \<and>
      ((\<forall>x \<in> set es. \<not> is_game s x) \<longrightarrow> le_time2 e = 0) \<and>
    games_ok PS5_MAX_RECENT es' \<and> ps5IsGameRecent es' (Some s)"
proof -
  let ?f = "filter (\<lambda>x. \<not> is_game s x) es"
  have once: "x = y" if "x \<in> set es" "y \<in> set es" "is_game s x" "is_game s y" for x y
    using assms(1) that by (auto simp: games_ok_def is_game_def strcasecmp_eq_def distinct_map inj_on_def)
  obtain e where e: "es' = take PS5_MAX_RECENT (e # ?f)" "le_startup e = s" "le_time1 e = now"
    "\<forall>x \<in> set es. is_game s x \<longrightarrow> le_time2 e = le_time2 x + 1" "(\<forall>x \<in> set es. \<not> is_game s x) \<longrightarrow> le_time2 e = 0"
    "le_mode e = mode" "le_title e = (case title of Some t \<Rightarrow> take 127 t | None \<Rightarrow> [])"
  proof (cases "find_game s 0 es")
    case None
    then have f: "?f = es" "\<forall>x \<in> set es. \<not> is_game s x" by (auto simp: find_game_None)
    with None assms show ?thesis
      by (intro that) (auto simp: ps5RecordRecentlyPlayedEx_def Let_def games_ok_def f(1))
  next
    case (Some i)
    note r = remove_found [OF assms(1) Some]
    have "length ?f < length es" using r(2,3) by (metis length_filter_less)
    then have "take PS5_MAX_RECENT (e # ?f) = e # ?f" for e using assms(1) by (simp add: games_ok_def)
    moreover have "\<forall>x \<in> set es. is_game s x \<longrightarrow> le_time2 (es ! i) = le_time2 x" using once r(2,3) by blast
    moreover have "\<not> (\<forall>x \<in> set es. \<not> is_game s x)" using r(2,3) by blast
    ultimately show ?thesis using Some assms(2-4) r(1)
      by (intro that) (auto simp: ps5RecordRecentlyPlayedEx_def Let_def)
  qed
  have d: "distinct (map (\<lambda>e. map tolower (le_startup e)) (e # ?f))"
    using games_ok_filter [OF assms(1), of "\<lambda>x. \<not> is_game s x"] e(2) by (auto simp: games_ok_def is_game_def strcasecmp_eq_def)
  have "games_ok PS5_MAX_RECENT es'" unfolding e(1) games_ok_def take_map [symmetric] by (intro conjI distinct_take d) simp
  moreover have "ps5IsGameRecent es' (Some s)" using e assms(2) by (simp add: ps5IsGameRecent_def is_game_def strcasecmp_eq_def)
  ultimately show ?thesis using e by blast
qed

theorem recent_games_witness:
  "\<exists>e. fst (ps5RecordRecentlyPlayedEx 9 1 (Some ''slus_123.45'') None [demo_game] None) =
      take PS5_MAX_RECENT (e # filter (\<lambda>x. \<not> is_game ''slus_123.45'' x) [demo_game]) \<and> le_time2 e = 4"
proof -
  have "is_game ''slus_123.45'' demo_game" by (simp add: is_game_def strcasecmp_eq_def demo_game_def tolower_def code_def char_of_def bit_0)
  moreover have "games_ok PS5_MAX_RECENT [demo_game]" by (simp add: games_ok_def)
  ultimately show ?thesis using recent_games [OF _ _ _ refl, of "[demo_game]" "''slus_123.45''" 9 1 None None]
    by (auto simp: demo_game_def)
qed

text \<open>Marking a game flips whether it is a favourite and leaves every other game alone; only a list that
  is full refuses.\<close>

theorem favorite_toggle:
  assumes "games_ok PS5_MAX_FAVORITES favs" "s \<noteq> []" "length s \<le> 31" "ps5IsGameFavorite favs (Some s) \<or> length favs < PS5_MAX_FAVORITES"
    and "favs' = fst (ps5ToggleGameFavoriteEx now mode (Some s) title favs cfg)"
  shows "games_ok PS5_MAX_FAVORITES favs' \<and> ps5IsGameFavorite favs' (Some s) = (\<not> ps5IsGameFavorite favs (Some s)) \<and>
    (\<forall>t. \<not> strcasecmp_eq s t \<longrightarrow> ps5IsGameFavorite favs' (Some t) = ps5IsGameFavorite favs (Some t))"
proof (cases "find_game s 0 favs")
  case None
  then have n: "\<forall>e \<in> set favs. \<not> is_game s e" by (simp add: find_game_None)
  then have "\<not> ps5IsGameFavorite favs (Some s)" by (auto simp: ps5IsGameFavorite_def list_ex_iff)
  with None n assms show ?thesis
    by (auto simp: ps5ToggleGameFavoriteEx_def Let_def ps5IsGameFavorite_def list_ex_iff games_ok_def is_game_def strcasecmp_eq_def)
next
  case (Some i)
  note r = remove_found [OF assms(1) Some]
  have f: "favs' = filter (\<lambda>e. \<not> is_game s e) favs"
    using Some assms(2,5) r(1) by (simp add: ps5ToggleGameFavoriteEx_def Let_def)
  have "ps5IsGameFavorite favs (Some s)" using r(2,3) assms(2) by (auto simp: ps5IsGameFavorite_def list_ex_iff)
  moreover have "is_game t e \<Longrightarrow> \<not> strcasecmp_eq s t \<Longrightarrow> \<not> is_game s e" for t e by (auto simp: is_game_def strcasecmp_eq_def)
  ultimately show ?thesis using games_ok_filter [OF assms(1)] by (auto simp: f ps5IsGameFavorite_def list_ex_iff)
qed

theorem favorite_toggle_witness:
  "ps5IsGameFavorite (fst (ps5ToggleGameFavoriteEx 9 1 (Some ''SLES'') None [demo_game] None)) (Some ''SLES'')"
proof -
  have "\<not> ps5IsGameFavorite [demo_game] (Some ''SLES'')" by (simp add: ps5IsGameFavorite_def is_game_def strcasecmp_eq_def demo_game_def)
  moreover have "games_ok PS5_MAX_FAVORITES [demo_game]" by (simp add: games_ok_def)
  ultimately show ?thesis using favorite_toggle [OF _ _ _ _ refl, of "[demo_game]" "''SLES''" 9 1 None None] by simp
qed

end
