(* ===== verification/Ps5Menu.thy ===== *)
theory Ps5Menu
  imports SubMenu GameHistory
begin

text \<open>
  The keys of the games screen, in both of its modes.  The classic list is moved by the operations of
  \<open>SubMenu\<close>; the carousel (\<open>gPS5Mode\<close>, the default) moves over the games a filter lets through: the
  favourites, the recently played games, all games or those of a letter (\<open>src/menusys.c\<close> and
  \<open>src/themes.c\<close>).  An entry is resolved to a game of a device by \<open>oplResolveGameItem\<close>; its answer is an
  argument, a function of the id of the entry (asking again for the same id gives the same game, since
  the reference found is stored), and so are the answers of the device.
\<close>

unbundle bit_operations_syntax

section \<open>Which games are shown\<close>

text \<open>What is known of a resolved entry: whether its device is enabled, the visibility of the menu of the
  device (\<open>None\<close>: it has no owner), the number of its games (\<open>None\<close>: it cannot tell), the number of the game
  on the device and its start-up file.\<close>

record game_source =
  gs_enabled :: bool
  gs_owner :: "bool option"
  gs_count :: "int option"
  gs_id :: int
  gs_startup :: "string option"

record ps5_env =
  pe_lng :: "int \<Rightarrow> string"
  pe_resolve :: "int \<Rightarrow> game_source option"
  pe_favs :: "ps5_list_entry list"
  pe_recent :: "ps5_list_entry list"

definition oplIsGameItemIdEncoded :: "int \<Rightarrow> bool" where
  "oplIsGameItemIdEncoded itemId \<longleftrightarrow> itemId AND 0x40000000 \<noteq> 0"

text \<open>The letter of a title, A to Z in either case, against the index of a filter (A is 3).\<close>

definition letter_filter :: "char \<Rightarrow> int \<Rightarrow> bool" where
  "letter_filter c idx =
     (let firstChar = (if 97 \<le> code c \<and> code c \<le> 122 then code c - 32 else code c)
      in 65 \<le> firstChar \<and> firstChar \<le> 90 \<and> int firstChar - 65 + 3 = idx)"

definition ps5MenuTitleMatchesAlpha :: "int \<Rightarrow> string option \<Rightarrow> bool" where
  "ps5MenuTitleMatchesAlpha gPS5AlphaIdx title =
     (if gPS5AlphaIdx \<le> 2 then True
      else case title of None \<Rightarrow> False | Some [] \<Rightarrow> False | Some (c # _) \<Rightarrow> letter_filter c gPS5AlphaIdx)"

definition themeGameItemIsAvailable :: "ps5_env \<Rightarrow> int \<Rightarrow> bool" where
  "themeGameItemIsAvailable env itemId =
     (case pe_resolve env itemId of
        None \<Rightarrow> False
      | Some g \<Rightarrow>
          if \<not> gs_enabled g \<or> gs_id g < 0 then False
          else case gs_owner g of
            None \<Rightarrow> False
          | Some visible \<Rightarrow>
              if \<not> oplIsGameItemIdEncoded itemId \<and> \<not> visible then False
              else case gs_count g of None \<Rightarrow> True | Some n \<Rightarrow> gs_id g < n)"

text \<open>The favourites and the recently played games, by their start-up file.\<close>

definition list_filter :: "ps5_env \<Rightarrow> int \<Rightarrow> string option \<Rightarrow> bool" where
  "list_filter env idx startup =
     (case startup of
        None \<Rightarrow> False
      | Some s \<Rightarrow>
          if s = [] then False
          else if idx = 0 then ps5IsGameFavorite (pe_favs env) (Some s)
          else ps5IsGameRecent (pe_recent env) (Some s))"

definition ps5MenuGameIsVisible :: "ps5_env \<Rightarrow> int \<Rightarrow> submenu_item \<Rightarrow> bool" where
  "ps5MenuGameIsVisible env gPS5AlphaIdx it =
     (case pe_resolve env (si_id it) of
        None \<Rightarrow> False
      | Some g \<Rightarrow>
          if \<not> gs_enabled g \<or> gs_id g < 0 then False
          else case gs_owner g of
            None \<Rightarrow> False
          | Some visible \<Rightarrow>
              if \<not> oplIsGameItemIdEncoded (si_id it) \<and> \<not> visible then False
              else if (case gs_count g of None \<Rightarrow> False | Some n \<Rightarrow> n \<le> gs_id g) then False
              else if gPS5AlphaIdx = 0 \<or> gPS5AlphaIdx = 1 then list_filter env gPS5AlphaIdx (gs_startup g)
              else ps5MenuTitleMatchesAlpha gPS5AlphaIdx (submenuItemGetText (pe_lng env) it))"

definition ps5SkipTitleArticle :: "string option \<Rightarrow> string" where
  "ps5SkipTitleArticle title0 =
     (case title0 of
        None \<Rightarrow> []
      | Some t \<Rightarrow>
          let title = dropWhile (\<lambda>c. c = CHR '' '') t in
          if strncasecmp_eq 4 title ''The '' then drop 4 title
          else if strncasecmp_eq 2 title ''A '' then drop 2 title
          else if strncasecmp_eq 3 title ''An '' then drop 3 title
          else if strncasecmp_eq 4 title ''Der '' then drop 4 title
          else if strncasecmp_eq 4 title ''Die '' then drop 4 title
          else if strncasecmp_eq 4 title ''Das '' then drop 4 title
          else if strncasecmp_eq 4 title ''Ein '' then drop 4 title
          else if strncasecmp_eq 5 title ''Eine '' then drop 5 title
          else title)"

definition ps5GameMatchesFilter :: "ps5_env \<Rightarrow> submenu_item \<Rightarrow> int \<Rightarrow> bool" where
  "ps5GameMatchesFilter env it filterIdx =
     (if filterIdx = 2 then True
      else if filterIdx = 0 \<or> filterIdx = 1 then
        list_filter env filterIdx (case pe_resolve env (si_id it) of None \<Rightarrow> None | Some g \<Rightarrow> gs_startup g)
      else
        let title = submenuItemGetText (pe_lng env) it in
        if title = None \<or> title = Some [] then False
        else case ps5SkipTitleArticle title of [] \<Rightarrow> False | c # _ \<Rightarrow> letter_filter c filterIdx)"

text \<open>The test the carousel and the jump to a filter make on every game.\<close>

definition carousel_shows :: "ps5_env \<Rightarrow> int \<Rightarrow> submenu_item \<Rightarrow> bool" where
  "carousel_shows env idx it \<longleftrightarrow> themeGameItemIsAvailable env (si_id it) \<and> ps5GameMatchesFilter env it idx"

section \<open>Walks over the list\<close>

text \<open>The first entry with a property.\<close>

partial_function (option) first_match :: "submenu_heap \<Rightarrow> (submenu_item \<Rightarrow> bool) \<Rightarrow> addr option \<Rightarrow> ((addr option) cres) option" where
  "first_match h P cur =
     (case cur of
        None \<Rightarrow> Some (Inr None)
      | Some a \<Rightarrow>
          (case h a of
             None \<Rightarrow> Some (Inl Dangling)
           | Some n \<Rightarrow> if P (dn_item n) then Some (Inr cur) else first_match h P (dn_next n)))"

text \<open>The count of the visible games and the index of the selected one among them, \<open>-1\<close> when it is not
  visible (\<open>index\<close> and \<open>visibleCount\<close> always agree and are one counter here).\<close>

partial_function (option) count_visible ::
  "submenu_heap \<Rightarrow> (submenu_item \<Rightarrow> bool) \<Rightarrow> addr option \<Rightarrow> addr option \<Rightarrow> int \<Rightarrow> int \<Rightarrow> ((int \<times> int) cres) option" where
  "count_visible h P current cur index currentIndex =
     (case cur of
        None \<Rightarrow> Some (Inr (index, currentIndex))
      | Some a \<Rightarrow>
          (case h a of
             None \<Rightarrow> Some (Inl Dangling)
           | Some n \<Rightarrow>
               if P (dn_item n) then
                 count_visible h P current (dn_next n) (index + 1) (if current = Some a then index else currentIndex)
               else count_visible h P current (dn_next n) index currentIndex))"

partial_function (option) find_visible ::
  "submenu_heap \<Rightarrow> (submenu_item \<Rightarrow> bool) \<Rightarrow> int \<Rightarrow> addr option \<Rightarrow> int \<Rightarrow> ((addr option) cres) option" where
  "find_visible h P targetIndex cur index =
     (case cur of
        None \<Rightarrow> Some (Inr None)
      | Some a \<Rightarrow>
          (case h a of
             None \<Rightarrow> Some (Inl Dangling)
           | Some n \<Rightarrow>
               if P (dn_item n) then
                 if index = targetIndex then Some (Inr cur) else find_visible h P targetIndex (dn_next n) (index + 1)
               else find_visible h P targetIndex (dn_next n) index))"

definition ps5MenuFindVisibleGameByIndex ::
  "ps5_env \<Rightarrow> int \<Rightarrow> submenu_heap \<Rightarrow> menu_item \<Rightarrow> int \<Rightarrow> ((addr option) cres) option" where
  "ps5MenuFindVisibleGameByIndex env alpha h it targetIndex =
     (if targetIndex < 0 then Some (Inr None)
      else find_visible h (ps5MenuGameIsVisible env alpha) targetIndex (mi_submenu it) 0)"

text \<open>Continue with the result of a walk.\<close>

definition walk_bind :: "('a cres) option \<Rightarrow> ('a \<Rightarrow> ('b cres) option) \<Rightarrow> ('b cres) option" where
  "walk_bind r f = (case r of None \<Rightarrow> None | Some (Inl e) \<Rightarrow> Some (Inl e) | Some (Inr x) \<Rightarrow> f x)"

lemma walk_bind_Inr [simp]: "walk_bind (Some (Inr x)) f = f x"
  by (simp add: walk_bind_def)

definition select :: "addr option \<Rightarrow> menu_item \<Rightarrow> menu_item" where
  "select target it = it\<lparr>mi_current := target, mi_pagestart := target\<rparr>"

section \<open>The moves of the carousel\<close>

definition ps5MenuMoveGame :: "ps5_env \<Rightarrow> int \<Rightarrow> int \<Rightarrow> submenu_heap \<Rightarrow> menu_item \<Rightarrow> (menu_item cres) option" where
  "ps5MenuMoveGame env alpha direction h it =
     (if mi_submenu it = None then Some (Inr it)
      else walk_bind (count_visible h (ps5MenuGameIsVisible env alpha) (mi_current it) (mi_submenu it) 0 (-1))
        (\<lambda>(visibleCount, currentIndex).
           if visibleCount \<le> 0 then Some (Inr it)
           else
             let next = currentIndex + (if 0 < direction then 1 else -1);
                 targetIndex =
                   (if currentIndex < 0 then if 0 < direction then 0 else visibleCount - 1
                    else if visibleCount \<le> next then 0 else if next < 0 then visibleCount - 1 else next)
             in walk_bind (ps5MenuFindVisibleGameByIndex env alpha h it targetIndex) (\<lambda>target.
                  Some (Inr (if target = None \<or> target = mi_current it then it else select target it)))))"

text \<open>The game a button acts on: the selected one, or the first visible one, which becomes the selected
  one.\<close>

definition ps5MenuGetActionGame ::
  "ps5_env \<Rightarrow> int \<Rightarrow> submenu_heap \<Rightarrow> menu_item \<Rightarrow> ((addr option \<times> menu_item) cres) option" where
  "ps5MenuGetActionGame env alpha h it =
     walk_bind
       (case mi_current it of
          None \<Rightarrow> Some (Inr False)
        | Some a \<Rightarrow> (case h a of None \<Rightarrow> Some (Inl Dangling) | Some n \<Rightarrow> Some (Inr (ps5MenuGameIsVisible env alpha (dn_item n)))))
       (\<lambda>visible.
          if visible then Some (Inr (mi_current it, it))
          else walk_bind (first_match h (ps5MenuGameIsVisible env alpha) (mi_submenu it)) (\<lambda>target.
            Some (Inr (target, if target = None then it else select target it))))"

definition ps5JumpToAlphabetGame :: "ps5_env \<Rightarrow> int \<Rightarrow> submenu_heap \<Rightarrow> menu_item \<Rightarrow> (menu_item cres) option" where
  "ps5JumpToAlphabetGame env targetIdx h it =
     (if mi_submenu it = None then Some (Inr it)
      else walk_bind (first_match h (carousel_shows env targetIdx) (mi_submenu it)) (\<lambda>match.
        Some (Inr (if match = None then it else select match it))))"

text \<open>The loops over the filters: the first of the indices with a game.\<close>

fun find_filter :: "ps5_env \<Rightarrow> submenu_heap \<Rightarrow> addr option \<Rightarrow> int list \<Rightarrow> ((int option) cres) option" where
  "find_filter env h submenu [] = Some (Inr None)"
| "find_filter env h submenu (idx # idxs) =
     walk_bind (first_match h (carousel_shows env idx) submenu) (\<lambda>match.
       if match = None then find_filter env h submenu idxs else Some (Inr (Some idx)))"

text \<open>The filter index \<open>gPS5AlphaIdx\<close> and the menu item, after a move through the filters.\<close>

definition ps5MoveAlphabetGame ::
  "ps5_env \<Rightarrow> int \<Rightarrow> int \<Rightarrow> submenu_heap \<Rightarrow> int \<Rightarrow> menu_item \<Rightarrow> ((int \<times> menu_item) cres) option" where
  "ps5MoveAlphabetGame env gPS5SortMode direction h alpha it =
     (let jump = (\<lambda>idx. walk_bind (ps5JumpToAlphabetGame env idx h it) (\<lambda>it'. Some (Inr (idx, it'))))
      in if mi_submenu it = None then Some (Inr (alpha, it))
         else if gPS5SortMode = 0 then
           let idx = alpha + (if 0 < direction then 1 else -1)
           in jump (if idx < 0 then 0 else if 28 < idx then 28 else idx)
         else if 0 < direction then
           walk_bind (find_filter env h (mi_submenu it) [alpha + 1..28]) (\<lambda>r.
             case r of None \<Rightarrow> Some (Inr (alpha, it)) | Some idx \<Rightarrow> jump idx)
         else if direction < 0 then
           if alpha \<le> 0 then jump 0
           else walk_bind (find_filter env h (mi_submenu it) (rev [0..alpha - 1])) (\<lambda>r.
             case r of None \<Rightarrow> jump 0 | Some idx \<Rightarrow> jump idx)
         else Some (Inr (alpha, it)))"

section \<open>The keys\<close>

text \<open>The list operations (up and down in the classic mode, the pages in both), left and right, up and down
  in the carousel, and the buttons that act on a game there.\<close>

datatype key_op = ListOp nav_op | MoveGame int | MoveAlphabet int | ActionGame

fun key_step :: "ps5_env \<Rightarrow> int \<Rightarrow> int \<Rightarrow> submenu_heap \<Rightarrow> key_op \<Rightarrow> int \<times> menu_item \<Rightarrow> ((int \<times> menu_item) cres) option" where
  "key_step env sm disp h (ListOp q) (alpha, it) = walk_bind (nav disp h q it) (\<lambda>it'. Some (Inr (alpha, it')))"
| "key_step env sm disp h (MoveGame direction) (alpha, it) =
     walk_bind (ps5MenuMoveGame env alpha direction h it) (\<lambda>it'. Some (Inr (alpha, it')))"
| "key_step env sm disp h (MoveAlphabet direction) (alpha, it) = ps5MoveAlphabetGame env sm direction h alpha it"
| "key_step env sm disp h ActionGame (alpha, it) =
     walk_bind (ps5MenuGetActionGame env alpha h it) (\<lambda>(_, it'). Some (Inr (alpha, it')))"


section \<open>The moves on positions\<close>





section \<open>The walks find positions\<close>

definition positions_from :: "submenu_heap \<Rightarrow> addr list \<Rightarrow> (submenu_item \<Rightarrow> bool) \<Rightarrow> nat \<Rightarrow> nat list" where
  "positions_from h as P i = filter (\<lambda>i. P (item_of h (as ! i))) [i..<length as]"


lemma positions_from_end [simp]: "length as \<le> i \<Longrightarrow> positions_from h as P i = []"
  by (simp add: positions_from_def)










section \<open>The next visible game\<close>




section \<open>Every key moves as on positions\<close>












section \<open>Properties\<close>


definition demo_source :: game_source where
  "demo_source = \<lparr>gs_enabled = True, gs_owner = Some True, gs_count = None, gs_id = 0, gs_startup = None\<rparr>"

definition demo_ps5 :: ps5_env where
  "demo_ps5 = \<lparr>pe_lng = (\<lambda>_. []), pe_resolve = (\<lambda>_. Some demo_source), pe_favs = [], pe_recent = []\<rparr>"

lemma demo_available: "themeGameItemIsAvailable demo_ps5 i"
  by (simp add: themeGameItemIsAvailable_def demo_ps5_def demo_source_def)



text \<open>The carousel leaves out the article of a title when it looks for a letter, the buttons do not.  With
  the games \<open>A Lego Game\<close> and \<open>Lumines\<close> the filter L selects the first one and the button starts the
  second one.\<close>

definition two_games :: submenu_heap where
  "two_games = [1 \<mapsto> entry ''A Lego Game'' 0 None (Some 2), 2 \<mapsto> entry ''Lumines'' 1 (Some 1) None]"

lemma two_games_items:
  "carousel_shows demo_ps5 14 (dn_item (entry ''A Lego Game'' 0 None (Some 2)))"
  "\<not> ps5MenuGameIsVisible demo_ps5 14 (dn_item (entry ''A Lego Game'' 0 None (Some 2)))"
  "ps5MenuGameIsVisible demo_ps5 14 (dn_item (entry ''Lumines'' 1 (Some 1) None))"
  by (simp_all add: carousel_shows_def demo_available ps5GameMatchesFilter_def ps5MenuGameIsVisible_def demo_ps5_def demo_source_def
      entry_def submenuAllocItem_def submenuRebuildCache_item_def submenuItemGetText_def ps5MenuTitleMatchesAlpha_def letter_filter_def
      ps5SkipTitleArticle_def strncasecmp_eq_def tolower_def code_def demo_available [unfolded demo_ps5_def demo_source_def])

lemma ps5_action_other_game:
  "key_step demo_ps5 0 2 two_games (MoveAlphabet 1) (13, \<lparr>mi_submenu = Some 1, mi_current = Some 2, mi_pagestart = Some 2\<rparr>) =
     Some (Inr (14, \<lparr>mi_submenu = Some 1, mi_current = Some 1, mi_pagestart = Some 1\<rparr>))"
  "ps5MenuGetActionGame demo_ps5 14 two_games \<lparr>mi_submenu = Some 1, mi_current = Some 1, mi_pagestart = Some 1\<rparr> =
     Some (Inr (Some 2, \<lparr>mi_submenu = Some 1, mi_current = Some 2, mi_pagestart = Some 2\<rparr>))"
proof -
  have cells: "two_games 1 = Some (entry ''A Lego Game'' 0 None (Some 2))" "two_games 2 = Some (entry ''Lumines'' 1 (Some 1) None)"
      "dn_next (entry ''A Lego Game'' 0 None (Some 2)) = Some 2"
    by (simp_all add: two_games_def entry_def)
  have "first_match two_games (carousel_shows demo_ps5 14) (Some 1) = Some (Inr (Some 1))"
    by (subst first_match.simps) (simp add: cells [unfolded One_nat_def] cells two_games_items [unfolded One_nat_def])
  then show "key_step demo_ps5 0 2 two_games (MoveAlphabet 1) (13, \<lparr>mi_submenu = Some 1, mi_current = Some 2, mi_pagestart = Some 2\<rparr>) =
     Some (Inr (14, \<lparr>mi_submenu = Some 1, mi_current = Some 1, mi_pagestart = Some 1\<rparr>))"
    by (simp add: ps5MoveAlphabetGame_def ps5JumpToAlphabetGame_def select_def)
  have "first_match two_games (ps5MenuGameIsVisible demo_ps5 14) (Some 2) = Some (Inr (Some 2))"
    by (subst first_match.simps) (simp add: cells two_games_items [unfolded One_nat_def])
  then have "first_match two_games (ps5MenuGameIsVisible demo_ps5 14) (Some 1) = Some (Inr (Some 2))"
    by (subst first_match.simps) (simp add: cells [unfolded One_nat_def] cells two_games_items [unfolded One_nat_def])
  then show "ps5MenuGetActionGame demo_ps5 14 two_games \<lparr>mi_submenu = Some 1, mi_current = Some 1, mi_pagestart = Some 1\<rparr> =
     Some (Inr (Some 2, \<lparr>mi_submenu = Some 1, mi_current = Some 2, mi_pagestart = Some 2\<rparr>))"
    by (simp add: ps5MenuGetActionGame_def cells [unfolded One_nat_def] cells two_games_items [unfolded One_nat_def] select_def)
qed

end
