(* ===== verification/Streaming.thy ===== *)
theory Streaming
  imports Refinement
begin

text \<open>
  The streaming of the in-game disc driver (\<open>modules/iopcore/cdvdman/streaming.c\<close>, with the reading
  thread and the read lock of \<open>cdvdman.c\<close>): a ring buffer of banks that the reading thread fills ahead of
  the game and the game empties, with an alarm that tries again when the drive was busy.

  Sectors are values of a type \<open>'a\<close>, the disc is a function from sector numbers to sectors, the ring
  buffer a list of sectors.  The 16-bit fields are natural numbers with the cut written out.  A step of a
  thread is the code between two points where interrupts are enabled again, so that the game's thread,
  the reading thread and the alarm interleave as on the console.  A user callback on read completion is
  not registered, as during streaming it is not called.
\<close>

section \<open>State\<close>

text \<open>Where a read goes: to the bank at an offset (in sectors) of the ring buffer, or to a buffer of the game.\<close>

datatype read_dest = Bank nat | Elsewhere

record 'a cd_state =
  StBufmax :: nat
  StBankmax :: nat
  StBanksize :: nat
  StWritePtr :: nat
  StReadPtr :: nat
  StStreamed :: nat
  StStat :: bool
  StIsReading :: bool
  Stlsn :: u32
  st_ring :: "'a list"
  sync_flag :: bool
  cdread_lba :: u32
  cdread_sectors :: nat
  cdread_buf :: read_dest
  rthread_sema :: bool
  Stm0Callback :: bool
  stm_alarm :: bool
  intr_ef8 :: bool

definition cut16 :: "int \<Rightarrow> nat" where
  "cut16 x = nat (x mod 2 ^ 16)"

section \<open>Filling the ring\<close>

definition AllocBank :: "('a, 'm) cd_state_scheme \<Rightarrow> nat option" where
  "AllocBank s = (if int (StBufmax s) - int (StStreamed s) \<ge> int (StBanksize s) then Some (StWritePtr s) else None)"

definition StReset :: "('a, 'm) cd_state_scheme \<Rightarrow> ('a, 'm) cd_state_scheme" where
  "StReset s = s\<lparr>StWritePtr := 0, StReadPtr := 0, StStreamed := 0, StIsReading := False\<rparr>"

text \<open>The lock is the flag \<open>sync_flag\<close>; the reading thread is woken through its semaphore.\<close>

definition cdvdman_common_lock :: "('a, 'm) cd_state_scheme \<Rightarrow> (('a, 'm) cd_state_scheme) option" where
  "cdvdman_common_lock s = (if sync_flag s then None else Some (s\<lparr>sync_flag := True\<rparr>))"

definition cdvdman_AsyncRead :: "u32 \<Rightarrow> nat \<Rightarrow> read_dest \<Rightarrow> ('a, 'm) cd_state_scheme \<Rightarrow> bool \<times> ('a, 'm) cd_state_scheme" where
  "cdvdman_AsyncRead lsn sectors buf s =
     (case cdvdman_common_lock s of
        None \<Rightarrow> (False, s)
      | Some s1 \<Rightarrow> (True, s1\<lparr>cdread_lba := lsn, cdread_sectors := sectors, cdread_buf := buf, rthread_sema := True\<rparr>))"

text \<open>\<open>StStartFillStreamBuffer\<close> with \<open>StFillStreamBuffer\<close>, from one point with interrupts enabled to the next:
  the first critical section, the read or the end with a full ring, and after a read that could not be
  started the reset of the flag and the alarm.\<close>

datatype fill_pc = FillBegin | FillRead nat | FillFull | FillFailed | FillAlarm

definition fill_step :: "fill_pc \<Rightarrow> ('a, 'm) cd_state_scheme \<Rightarrow> fill_pc option \<times> ('a, 'm) cd_state_scheme" where
  "fill_step pc s =
     (case pc of
        FillBegin \<Rightarrow>
          if StIsReading s then (None, s)
          else let s1 = s\<lparr>stm_alarm := False, StIsReading := True\<rparr>
               in (case AllocBank s1 of Some ptr \<Rightarrow> (Some (FillRead ptr), s1) | None \<Rightarrow> (Some FillFull, s1))
      | FillRead ptr \<Rightarrow>
          (case cdvdman_AsyncRead (Stlsn s) (StBanksize s) (Bank ptr) s of
             (True, s1) \<Rightarrow> (None, s1)
           | (False, s1) \<Rightarrow> (Some FillFailed, s1))
      | FillFull \<Rightarrow> (None, s\<lparr>StIsReading := False\<rparr>)
      | FillFailed \<Rightarrow> (Some FillAlarm, s\<lparr>StIsReading := False\<rparr>)
      | FillAlarm \<Rightarrow> (None, s\<lparr>stm_alarm := True\<rparr>))"

text \<open>The whole routine without interruption; the interrupt handler of the alarm runs it so, and its result
  sets the alarm again.  Four steps are enough.\<close>

fun fill_run :: "nat \<Rightarrow> fill_pc option \<Rightarrow> ('a, 'm) cd_state_scheme \<Rightarrow> ('a, 'm) cd_state_scheme" where
  "fill_run 0 pc s = s"
| "fill_run (Suc n) None s = s"
| "fill_run (Suc n) (Some pc) s = (case fill_step pc s of (pc', s') \<Rightarrow> fill_run n pc' s')"

definition StStartFillStreamBuffer :: "('a, 'm) cd_state_scheme \<Rightarrow> ('a, 'm) cd_state_scheme" where
  "StStartFillStreamBuffer s = fill_run 4 (Some FillBegin) s"

definition StmScheduleCb :: "('a, 'm) cd_state_scheme \<Rightarrow> ('a, 'm) cd_state_scheme" where
  "StmScheduleCb s = fill_run 4 (Some FillBegin) (s\<lparr>stm_alarm := False\<rparr>)"

text \<open>The critical section of \<open>StmCallback\<close>.\<close>

definition StmCallback_update :: "('a, 'm) cd_state_scheme \<Rightarrow> ('a, 'm) cd_state_scheme" where
  "StmCallback_update s =
     (if StIsReading s then
        let wr = cut16 (int (StWritePtr s) + int (StBanksize s))
        in s\<lparr>Stlsn := Stlsn s + of_nat (StBanksize s), StStreamed := cut16 (int (StStreamed s) + int (StBanksize s)),
             StWritePtr := (if wr \<ge> StBufmax s then 0 else wr), StIsReading := False\<rparr>
      else s)"

section \<open>Emptying the ring\<close>

text \<open>One of the two copies: at most \<open>avail\<close> sectors, cut to \<open>maxcount\<close>.  The result is the count and the
  new read position.\<close>

definition copy_count :: "int \<Rightarrow> int \<Rightarrow> nat" where
  "copy_count avail maxcount =
     (let SectorsToCopy = cut16 avail in if int SectorsToCopy > maxcount then cut16 maxcount else SectorsToCopy)"

definition wrap_ptr :: "('a, 'm) cd_state_scheme \<Rightarrow> nat \<Rightarrow> nat" where
  "wrap_ptr s p = (if p \<ge> StBufmax s then 0 else p)"

definition copy_out :: "nat \<Rightarrow> ('a, 'm) cd_state_scheme \<Rightarrow> ('a list \<times> ('a, 'm) cd_state_scheme) cres" where
  "copy_out n s =
     (if n > 0 then
        c_bind (mem_read (st_ring s) (StReadPtr s) n) (\<lambda>d.
          Inr (d, s\<lparr>StReadPtr := wrap_ptr s (cut16 (int (StReadPtr s) + int n)), StStreamed := cut16 (int (StStreamed s) - int n)\<rparr>))
      else Inr ([], s))"

definition ReadSectors :: "int \<Rightarrow> ('a, 'm) cd_state_scheme \<Rightarrow> ('a list \<times> ('a, 'm) cd_state_scheme) cres" where
  "ReadSectors maxcount s =
     c_bind
       (if StWritePtr s \<le> StReadPtr s \<and> StStreamed s > 0 then copy_out (copy_count (int (StBufmax s) - int (StReadPtr s)) maxcount) s
        else Inr ([], s))
       (\<lambda>(d1, s1).
          if int (length d1) < maxcount \<and> StReadPtr s1 < StWritePtr s1 then
            c_bind (copy_out (copy_count (int (StWritePtr s1) - int (StReadPtr s1)) (maxcount - int (length d1))) s1) (\<lambda>(d2, s2).
              Inr (d1 @ d2, s2))
          else Inr (d1, s1))"

text \<open>For the main processor the copies are DMA transfers: the first critical section only chooses them (source
  and count), the second updates the pointers when they are done.\<close>

type_synonym dmat = "(nat \<times> nat) list"

definition add_dma :: "('a, 'm) cd_state_scheme \<Rightarrow> nat \<Rightarrow> dmat \<times> nat \<times> nat \<Rightarrow> dmat \<times> nat \<times> nat" where
  "add_dma s n = (\<lambda>(dmat, result, rdptr).
     if n > 0 then (dmat @ [(rdptr, n)], result + n, wrap_ptr s (cut16 (int rdptr + int n))) else (dmat, result, rdptr))"

definition ReadSectorsEE_begin :: "int \<Rightarrow> ('a, 'm) cd_state_scheme \<Rightarrow> dmat \<times> nat \<times> nat" where
  "ReadSectorsEE_begin maxcount s =
     (case (if StWritePtr s \<le> StReadPtr s \<and> StStreamed s > 0 then
              add_dma s (copy_count (int (StBufmax s) - int (StReadPtr s)) maxcount) ([], 0, StReadPtr s)
            else ([], 0, StReadPtr s)) of
        (dmat, result, rdptr) \<Rightarrow>
          if int result < maxcount \<and> rdptr < StWritePtr s then
            add_dma s (copy_count (int (StWritePtr s) - int rdptr) (maxcount - int result)) (dmat, result, rdptr)
          else (dmat, result, rdptr))"

fun run_dma :: "'a list \<Rightarrow> dmat \<Rightarrow> 'a list cres" where
  "run_dma ring [] = Inr []"
| "run_dma ring ((src, n) # ds) = c_bind (mem_read ring src n) (\<lambda>d. c_bind (run_dma ring ds) (\<lambda>r. Inr (d @ r)))"

definition ReadSectorsEE_end :: "dmat \<Rightarrow> nat \<Rightarrow> nat \<Rightarrow> ('a, 'm) cd_state_scheme \<Rightarrow> ('a, 'm) cd_state_scheme" where
  "ReadSectorsEE_end dmat result rdptr s =
     (if dmat = [] then s else s\<lparr>StReadPtr := rdptr, StStreamed := cut16 (int (StStreamed s) - int result)\<rparr>)"

section \<open>The calls\<close>

text \<open>\<open>None\<close> is a call that waits: \<open>sceCdSync\<close> returns when no read is in progress.\<close>

definition sceCdSync :: "('a, 'm) cd_state_scheme \<Rightarrow> (('a, 'm) cd_state_scheme) option" where
  "sceCdSync s = (if sync_flag s then None else Some s)"

definition sceCdStInit :: "u32 \<Rightarrow> u32 \<Rightarrow> 'a list \<Rightarrow> ('a, 'm) cd_state_scheme \<Rightarrow> ('a, 'm) cd_state_scheme" where
  "sceCdStInit bufmax bankmax iop_buf s =
     (let bankmax16 = cut16 (uint bankmax); banksize = cut16 (uint (bufmax div bankmax))
      in StReset (s\<lparr>stm_alarm := False, StBankmax := bankmax16, StBanksize := banksize,
                     StBufmax := cut16 (int banksize * int bankmax16), st_ring := iop_buf\<rparr>))"

definition sceCdStStop :: "('a, 'm) cd_state_scheme \<Rightarrow> (('a, 'm) cd_state_scheme) option" where
  "sceCdStStop s =
     (if StStat s then sceCdSync (StReset (s\<lparr>stm_alarm := False, Stm0Callback := False, StStreamed := 0, StStat := False\<rparr>))
      else Some s)"

definition sceCdStStart :: "u32 \<Rightarrow> ('a, 'm) cd_state_scheme \<Rightarrow> (('a, 'm) cd_state_scheme) option" where
  "sceCdStStart lsn s =
     map_option (\<lambda>s1. StStartFillStreamBuffer ((StReset (s1\<lparr>Stlsn := lsn, StStat := True\<rparr>))\<lparr>Stm0Callback := True\<rparr>)) (sceCdStStop s)"

definition sceCdStStat :: "('a, 'm) cd_state_scheme \<Rightarrow> nat" where
  "sceCdStStat s = StStreamed s"

definition sceCdStPause :: "('a, 'm) cd_state_scheme \<Rightarrow> (bool \<times> ('a, 'm) cd_state_scheme) option" where
  "sceCdStPause s =
     (if StStat s then map_option (Pair True) (sceCdSync (s\<lparr>stm_alarm := False, Stm0Callback := False, StIsReading := False\<rparr>))
      else Some (False, s))"

definition sceCdStResume :: "('a, 'm) cd_state_scheme \<Rightarrow> bool \<times> ('a, 'm) cd_state_scheme" where
  "sceCdStResume s = (if StStat s then (True, StStartFillStreamBuffer (s\<lparr>Stm0Callback := True\<rparr>)) else (False, s))"

definition sceCdStSeek :: "u32 \<Rightarrow> ('a, 'm) cd_state_scheme \<Rightarrow> (bool \<times> ('a, 'm) cd_state_scheme) option" where
  "sceCdStSeek lsn s = (if StStat s then map_option (Pair True) (sceCdStStart lsn s) else Some (False, s))"

section \<open>Threads\<close>

text \<open>The game's thread in \<open>sceCdStRead\<close>: waiting for the flag at the head of the loop with \<open>sectors\<close> wanted,
  \<open>result\<close> delivered and \<open>SectorsToRead\<close> left, woken, about to copy, waiting for the DMA, and refilling.
  \<open>ee\<close> is the choice of the copy, \<open>mode\<close> whether the call waits for all sectors.\<close>

datatype st_read =
  ReadIdle
| ReadLoop u32 nat int bool bool
| ReadWoken u32 nat int bool bool
| ReadCopy u32 nat int bool bool
| ReadDma u32 nat int bool bool dmat nat nat
| ReadFill fill_pc

datatype rthread = ThreadWait | ThreadRead | ThreadEnd | ThreadCheck | ThreadCallback | ThreadFill fill_pc

record 'a cd_sys = "'a cd_state" +
  game_pc :: st_read
  rthread_pc :: rthread

datatype 'a st_event = Delivered "'a list" | StFault c_fault

text \<open>After a copy of \<open>n\<close> sectors the loop goes on unless the call does not wait.\<close>

definition read_next :: "u32 \<Rightarrow> nat \<Rightarrow> int \<Rightarrow> bool \<Rightarrow> bool \<Rightarrow> nat \<Rightarrow> st_read" where
  "read_next sectors result SectorsToRead ee mode n =
     (if mode then ReadLoop sectors (result + n) (SectorsToRead - int n) ee mode else ReadFill FillBegin)"

definition sceCdStRead :: "u32 \<Rightarrow> bool \<Rightarrow> bool \<Rightarrow> 'a cd_sys \<Rightarrow> 'a cd_sys" where
  "sceCdStRead sectors ee mode s =
     (if StStat s then s\<lparr>intr_ef8 := True, game_pc := ReadLoop sectors 0 (sint sectors) ee mode\<rparr> else s)"

definition read_step :: "'a cd_sys \<Rightarrow> ('a st_event list \<times> 'a cd_sys) option" where
  "read_step s =
     (case game_pc s of
        ReadIdle \<Rightarrow> None
      | ReadLoop sectors result todo ee mode \<Rightarrow>
          if \<not> result < unat sectors then Some ([], s\<lparr>game_pc := ReadFill FillBegin\<rparr>)
          else if intr_ef8 s then Some ([], s\<lparr>game_pc := ReadWoken sectors result todo ee mode\<rparr>) else None
      | ReadWoken sectors result todo ee mode \<Rightarrow>
          Some ([], s\<lparr>intr_ef8 := False, game_pc := ReadCopy sectors result todo ee mode\<rparr>)
      | ReadCopy sectors result todo ee mode \<Rightarrow>
          if ee then
            (case ReadSectorsEE_begin todo s of
               (dmat, n, rdptr) \<Rightarrow> Some ([], s\<lparr>game_pc := ReadDma sectors result todo ee mode dmat n rdptr\<rparr>))
          else
            (case ReadSectors todo s of
               Inl e \<Rightarrow> Some ([StFault e], s)
             | Inr (d, s1) \<Rightarrow> Some ([Delivered d], s1\<lparr>game_pc := read_next sectors result todo ee mode (length d)\<rparr>))
      | ReadDma sectors result todo ee mode dmat n rdptr \<Rightarrow>
          (case run_dma (st_ring s) dmat of
             Inl e \<Rightarrow> Some ([StFault e], s)
           | Inr d \<Rightarrow>
               Some ([Delivered d], (ReadSectorsEE_end dmat n rdptr s)\<lparr>game_pc := read_next sectors result todo ee mode n\<rparr>))
      | ReadFill pc \<Rightarrow>
          (case fill_step pc s of
             (pc', s1) \<Rightarrow> Some ([], s1\<lparr>game_pc := (case pc' of Some q \<Rightarrow> ReadFill q | None \<Rightarrow> ReadIdle)\<rparr>)))"

text \<open>The reading thread: \<open>cdvdman_cdread_Thread\<close>.  A read that succeeds writes the sectors of the disc to its
  destination; \<open>ok\<close> is whether the device delivered them.\<close>

definition cdvdman_signal_read_end :: "('a, 'm) cd_state_scheme \<Rightarrow> ('a, 'm) cd_state_scheme" where
  "cdvdman_signal_read_end s = s\<lparr>sync_flag := False, intr_ef8 := True\<rparr>"

definition write_sectors :: "(u32 \<Rightarrow> 'a) \<Rightarrow> ('a, 'm) cd_state_scheme \<Rightarrow> (('a, 'm) cd_state_scheme) cres" where
  "write_sectors disc s =
     (case cdread_buf s of
        Elsewhere \<Rightarrow> Inr s
      | Bank p \<Rightarrow>
          c_bind (mem_write (st_ring s) p (map (\<lambda>i. disc (cdread_lba s + of_nat i)) [0..<cdread_sectors s])) (\<lambda>ring.
            Inr (s\<lparr>st_ring := ring\<rparr>)))"

definition thread_step :: "(u32 \<Rightarrow> 'a) \<Rightarrow> bool \<Rightarrow> 'a cd_sys \<Rightarrow> ('a st_event list \<times> 'a cd_sys) option" where
  "thread_step disc ok s =
     (case rthread_pc s of
        ThreadWait \<Rightarrow> if rthread_sema s then Some ([], s\<lparr>rthread_sema := False, rthread_pc := ThreadRead\<rparr>) else None
      | ThreadRead \<Rightarrow>
          if ok then
            (case write_sectors disc s of
               Inl e \<Rightarrow> Some ([StFault e], s)
             | Inr s1 \<Rightarrow> Some ([], s1\<lparr>rthread_pc := ThreadEnd\<rparr>))
          else Some ([], s\<lparr>rthread_pc := ThreadEnd\<rparr>)
      | ThreadEnd \<Rightarrow>
          Some ([], (cdvdman_signal_read_end s)\<lparr>rthread_pc := (if Stm0Callback s then ThreadCheck else ThreadWait)\<rparr>)
      | ThreadCheck \<Rightarrow> Some ([], s\<lparr>rthread_pc := (if Stm0Callback s then ThreadCallback else ThreadWait)\<rparr>)
      | ThreadCallback \<Rightarrow> Some ([], (StmCallback_update s)\<lparr>rthread_pc := ThreadFill FillBegin\<rparr>)
      | ThreadFill pc \<Rightarrow>
          (case fill_step pc s of
             (pc', s1) \<Rightarrow> Some ([], s1\<lparr>rthread_pc := (case pc' of Some q \<Rightarrow> ThreadFill q | None \<Rightarrow> ThreadWait)\<rparr>)))"

text \<open>A scheduling choice: the game calls \<open>sceCdStRead\<close>, goes on with it, the reading thread goes on, with a
  device that delivers or fails, the alarm goes off, or another thread of the game reads from the disc.\<close>

datatype cd_act = CallRead u32 bool bool | Game | Thread | ThreadError | Alarm | OtherRead u32 nat

definition cd_next :: "(u32 \<Rightarrow> 'a) \<Rightarrow> 'a cd_sys \<Rightarrow> cd_act \<Rightarrow> ('a st_event list \<times> 'a cd_sys) option" where
  "cd_next disc s act =
     (case act of
        CallRead sectors ee mode \<Rightarrow> if game_pc s = ReadIdle then Some ([], sceCdStRead sectors ee mode s) else None
      | Game \<Rightarrow> read_step s
      | Thread \<Rightarrow> thread_step disc True s
      | ThreadError \<Rightarrow> thread_step disc False s
      | Alarm \<Rightarrow> if stm_alarm s then Some ([], StmScheduleCb s) else None
      | OtherRead lsn n \<Rightarrow> Some ([], snd (cdvdman_AsyncRead lsn n Elsewhere s)))"

section \<open>The ring\<close>

text \<open>The ring holds the sectors from \<open>q\<close> on in order; behind them is the place of the next bank.\<close>

definition ring_ok :: "(u32 \<Rightarrow> 'a) \<Rightarrow> ('a, 'm) cd_state_scheme \<Rightarrow> u32 \<Rightarrow> bool" where
  "ring_ok disc s q \<longleftrightarrow>
     0 < StBanksize s \<and> StBanksize s dvd StBufmax s \<and> 0 < StBufmax s \<and> StBufmax s < 2 ^ 16 \<and> length (st_ring s) = StBufmax s \<and>
     StReadPtr s < StBufmax s \<and> StStreamed s \<le> StBufmax s \<and> StWritePtr s = (StReadPtr s + StStreamed s) mod StBufmax s \<and>
     StBanksize s dvd StWritePtr s \<and> (\<forall>i < StStreamed s. st_ring s ! ((StReadPtr s + i) mod StBufmax s) = disc (q + of_nat i)) \<and>
     Stlsn s = q + of_nat (StStreamed s)"

definition sectors_from :: "(u32 \<Rightarrow> 'a) \<Rightarrow> u32 \<Rightarrow> nat \<Rightarrow> 'a list" where
  "sectors_from disc q n = map (\<lambda>i. disc (q + of_nat i)) [0..<n]"

lemma length_sectors_from [simp]: "length (sectors_from disc q n) = n"
  by (simp add: sectors_from_def)

lemma nth_sectors_from: "i < n \<Longrightarrow> sectors_from disc q n ! i = disc (q + of_nat i)"
  by (simp add: sectors_from_def)

lemma sectors_from_append: "sectors_from disc q m @ sectors_from disc (q + of_nat m) n = sectors_from disc q (m + n)"
proof (rule nth_equalityI)
  fix i assume i: "i < length (sectors_from disc q m @ sectors_from disc (q + of_nat m) n)"
  show "(sectors_from disc q m @ sectors_from disc (q + of_nat m) n) ! i = sectors_from disc q (m + n) ! i"
  proof (cases "i < m")
    case False
    then have "q + of_nat m + of_nat (i - m) = q + of_nat i" by (simp add: of_nat_diff)
    with i False show ?thesis by (simp add: nth_append nth_sectors_from)
  qed (simp add: nth_append nth_sectors_from)
qed simp

lemma ring_slot: "ring_ok disc s q \<Longrightarrow> i < StStreamed s \<Longrightarrow> st_ring s ! ((StReadPtr s + i) mod StBufmax s) = disc (q + of_nat i)"
  unfolding ring_ok_def by blast

lemma cut16_id: "0 \<le> x \<Longrightarrow> x < 2 ^ 16 \<Longrightarrow> cut16 x = nat x"
  by (simp add: cut16_def)

lemma cut16_int [simp]: "n < 2 ^ 16 \<Longrightarrow> cut16 (int n) = n"
  by (simp add: cut16_def)

text \<open>The two shapes of the occupied part.\<close>

lemma ring_shape:
  assumes "ring_ok disc s q"
  shows "StWritePtr s \<le> StReadPtr s \<Longrightarrow> 0 < StStreamed s \<Longrightarrow> StReadPtr s + StStreamed s = StBufmax s + StWritePtr s"
    and "StReadPtr s < StWritePtr s \<Longrightarrow> StReadPtr s + StStreamed s = StWritePtr s"
    and "StStreamed s = 0 \<Longrightarrow> StWritePtr s = StReadPtr s"
    and "StWritePtr s < StBufmax s"
  using assms by (auto simp: ring_ok_def mod_if split: if_splits)

text \<open>Taking \<open>n\<close> sectors that do not reach over the end of the buffer.\<close>

definition ring_drop :: "nat \<Rightarrow> ('a, 'm) cd_state_scheme \<Rightarrow> ('a, 'm) cd_state_scheme" where
  "ring_drop n s = s\<lparr>StReadPtr := (StReadPtr s + n) mod StBufmax s, StStreamed := StStreamed s - n\<rparr>"

lemma ring_take:
  assumes "ring_ok disc s q" "n \<le> StStreamed s"
  shows "StReadPtr s + n \<le> StBufmax s \<Longrightarrow> mem_read (st_ring s) (StReadPtr s) n = Inr (sectors_from disc q n)"
    and "ring_ok disc (ring_drop n s) (q + of_nat n)"
proof -
  assume n: "StReadPtr s + n \<le> StBufmax s"
  have "take n (drop (StReadPtr s) (st_ring s)) = sectors_from disc q n"
  proof (rule nth_equalityI)
    fix i assume "i < length (take n (drop (StReadPtr s) (st_ring s)))"
    then have i: "i < n" "StReadPtr s + i < StBufmax s" using n assms(1) by (auto simp: ring_ok_def)
    have "st_ring s ! ((StReadPtr s + i) mod StBufmax s) = disc (q + of_nat i)" using assms i(1) by (intro ring_slot) auto
    with i assms(1) show "take n (drop (StReadPtr s) (st_ring s)) ! i = sectors_from disc q n ! i"
      by (simp add: sectors_from_def ring_ok_def)
  qed (use n assms(1) in \<open>simp add: ring_ok_def\<close>)
  with n assms(1) show "mem_read (st_ring s) (StReadPtr s) n = Inr (sectors_from disc q n)"
    by (simp add: mem_read_def ring_ok_def)
next
  have "st_ring s ! (((StReadPtr s + n) mod StBufmax s + i) mod StBufmax s) = disc (q + of_nat n + of_nat i)"
    if "i < StStreamed s - n" for i
  proof -
    have "st_ring s ! ((StReadPtr s + (n + i)) mod StBufmax s) = disc (q + of_nat (n + i))"
      using assms that by (intro ring_slot) auto
    then show ?thesis by (simp add: mod_add_left_eq flip: add.assoc)
  qed
  moreover have "(StReadPtr s + StStreamed s) mod StBufmax s = ((StReadPtr s + n) mod StBufmax s + (StStreamed s - n)) mod StBufmax s"
    using assms(2) by (metis add.assoc le_add_diff_inverse mod_add_left_eq)
  ultimately show "ring_ok disc (ring_drop n s) (q + of_nat n)"
    using assms unfolding ring_ok_def by (elim conjE) (simp add: ring_drop_def of_nat_diff del: add_diff_assoc add_diff_assoc2)
qed

lemma wrap_ptr_mod: "p \<le> StBufmax s \<Longrightarrow> 0 < StBufmax s \<Longrightarrow> wrap_ptr s p = p mod StBufmax s"
  by (auto simp: wrap_ptr_def)

lemma copy_count_min: "0 \<le> maxcount \<Longrightarrow> 0 \<le> avail \<Longrightarrow> avail < 2 ^ 16 \<Longrightarrow> copy_count avail maxcount = nat (min avail maxcount)"
  by (auto simp: copy_count_def cut16_id Let_def)

lemma ring_drop_simps [simp]:
  "StBufmax (ring_drop n s) = StBufmax s" "StWritePtr (ring_drop n s) = StWritePtr s"
  "StStreamed (ring_drop n s) = StStreamed s - n" "st_ring (ring_drop n s) = st_ring s"
  "StReadPtr (ring_drop n s) = (StReadPtr s + n) mod StBufmax s"
  by (simp_all add: ring_drop_def)

lemma ring_drop_add: "ring_drop n (ring_drop m s) = ring_drop (m + n) s"
  by (simp add: ring_drop_def mod_add_left_eq add.assoc)

text \<open>Both copies take as many sectors as there are, but not more than asked for.\<close>

lemma first_count:
  assumes "ring_ok disc s q" "0 \<le> maxcount" "StWritePtr s \<le> StReadPtr s" "0 < StStreamed s"
  defines "n \<equiv> copy_count (int (StBufmax s) - int (StReadPtr s)) maxcount"
  shows "n = min (nat maxcount) (StBufmax s - StReadPtr s)" "n \<le> StStreamed s" "StReadPtr s + n \<le> StBufmax s"
    "cut16 (int (StStreamed s) - int n) = StStreamed s - n"
    "wrap_ptr s (cut16 (int (StReadPtr s) + int n)) = (StReadPtr s + n) mod StBufmax s"
proof -
  have b: "StReadPtr s < StBufmax s" "StBufmax s < 2 ^ 16" "StStreamed s \<le> StBufmax s" using assms(1) by (simp_all add: ring_ok_def)
  have "n = nat (min (int (StBufmax s) - int (StReadPtr s)) maxcount)" unfolding n_def using b assms(2) by (intro copy_count_min) auto
  then show n: "n = min (nat maxcount) (StBufmax s - StReadPtr s)" using assms(2) by auto
  show l: "n \<le> StStreamed s" "StReadPtr s + n \<le> StBufmax s" using n ring_shape(1) [OF assms(1,3,4)] b by auto
  have "int (StStreamed s) - int n = int (StStreamed s - n)" using l by simp
  then show "cut16 (int (StStreamed s) - int n) = StStreamed s - n" using b l by (simp del: of_nat_diff)
  have "cut16 (int (StReadPtr s) + int n) = StReadPtr s + n" using l b cut16_int [of "StReadPtr s + n"] by simp
  then show "wrap_ptr s (cut16 (int (StReadPtr s) + int n)) = (StReadPtr s + n) mod StBufmax s" using l b by (simp add: wrap_ptr_mod)
qed

lemma second_count:
  assumes "ring_ok disc s q" "0 \<le> maxcount" "StReadPtr s < StWritePtr s"
  defines "n \<equiv> copy_count (int (StWritePtr s) - int (StReadPtr s)) maxcount"
  shows "n = min (nat maxcount) (StStreamed s)" "n \<le> StStreamed s" "StReadPtr s + n \<le> StBufmax s"
    "cut16 (int (StStreamed s) - int n) = StStreamed s - n"
    "wrap_ptr s (cut16 (int (StReadPtr s) + int n)) = (StReadPtr s + n) mod StBufmax s"
proof -
  note w = ring_shape(2,4) [OF assms(1)]
  have b: "StReadPtr s < StBufmax s" "StBufmax s < 2 ^ 16" "StStreamed s \<le> StBufmax s" using assms(1) by (simp_all add: ring_ok_def)
  have "n = nat (min (int (StWritePtr s) - int (StReadPtr s)) maxcount)" unfolding n_def using b w assms(2,3) by (intro copy_count_min) auto
  then show n: "n = min (nat maxcount) (StStreamed s)" using assms(2,3) w(1) by auto
  show l: "n \<le> StStreamed s" "StReadPtr s + n \<le> StBufmax s" using n w assms(3) by auto
  have "int (StStreamed s) - int n = int (StStreamed s - n)" using l by simp
  then show "cut16 (int (StStreamed s) - int n) = StStreamed s - n" using b l by (simp del: of_nat_diff)
  have "cut16 (int (StReadPtr s) + int n) = StReadPtr s + n" using l b cut16_int [of "StReadPtr s + n"] by simp
  then show "wrap_ptr s (cut16 (int (StReadPtr s) + int n)) = (StReadPtr s + n) mod StBufmax s" using l b by (simp add: wrap_ptr_mod)
qed

lemma ring_drop_0: "ring_ok disc s q \<Longrightarrow> ring_drop 0 s = s"
  by (simp add: ring_drop_def ring_ok_def)

lemma copy_out_ring:
  assumes r: "ring_ok disc s q" and n: "n \<le> StStreamed s" "StReadPtr s + n \<le> StBufmax s"
  shows "copy_out n s = Inr (sectors_from disc q n, ring_drop n s)"
proof (cases "n = 0")
  case True
  then show ?thesis by (simp add: copy_out_def ring_drop_0 [OF r] sectors_from_def)
next
  case False
  have b: "0 < StBufmax s" "StBufmax s < 2 ^ 16" "StStreamed s \<le> StBufmax s" using r by (simp_all add: ring_ok_def)
  have "int (StStreamed s) - int n = int (StStreamed s - n)" using n by simp
  then have "cut16 (int (StStreamed s) - int n) = StStreamed s - n" using b by (simp del: of_nat_diff)
  moreover have "cut16 (int (StReadPtr s) + int n) = StReadPtr s + n" using n b cut16_int [of "StReadPtr s + n"] by simp
  ultimately show ?thesis using False ring_take(1) [OF r n] n(2) b by (simp add: copy_out_def ring_drop_def wrap_ptr_mod)
qed

text \<open>What the first and the second copy take.\<close>

definition part1 :: "nat \<Rightarrow> ('a, 'm) cd_state_scheme \<Rightarrow> nat" where
  "part1 m s = (if StWritePtr s \<le> StReadPtr s \<and> 0 < StStreamed s then min m (StBufmax s - StReadPtr s) else 0)"

lemma part1_le:
  assumes "ring_ok disc s q"
  shows "part1 m s \<le> m" "part1 m s \<le> StStreamed s" "StReadPtr s + part1 m s \<le> StBufmax s"
  using ring_shape(1) [OF assms] assms by (auto simp: part1_def ring_ok_def)

lemma part1_rest:
  assumes r: "ring_ok disc s q" and t: "t = ring_drop (part1 m s) s"
  shows "(if part1 m s < m \<and> StReadPtr t < StWritePtr t then part1 m s + min (m - part1 m s) (StStreamed t) else part1 m s)
    = min m (StStreamed s)"
proof (cases "StWritePtr s \<le> StReadPtr s \<and> 0 < StStreamed s")
  case True
  have b: "StReadPtr s < StBufmax s" "StReadPtr s + StStreamed s = StBufmax s + StWritePtr s"
    using r ring_shape(1) [OF r] True by (auto simp: ring_ok_def)
  have p: "part1 m s = min m (StBufmax s - StReadPtr s)" using True by (simp add: part1_def)
  show ?thesis
  proof (cases "StBufmax s - StReadPtr s \<le> m")
    case le: True
    then have "part1 m s = StBufmax s - StReadPtr s" "StReadPtr t = 0" using p b by (simp_all add: t)
    with le b show ?thesis by (auto simp: t min_def)
  next
    case False
    then have "part1 m s = m" "m \<le> StStreamed s" using p b by auto
    then show ?thesis by simp
  qed
next
  case False
  then have "part1 m s = 0" by (auto simp: part1_def)
  moreover from this have "t = s" using t ring_drop_0 [OF r] by simp
  ultimately show ?thesis using False ring_shape(3) [OF r] by auto
qed

lemma second_fit: "ring_ok disc t q \<Longrightarrow> StReadPtr t < StWritePtr t \<Longrightarrow> StReadPtr t + min k (StStreamed t) \<le> StBufmax t"
  using ring_shape(2,4) [of disc t q] by (auto simp: min_def)

lemma two_parts:
  assumes r: "ring_ok disc s q" and m: "0 \<le> maxcount"
  obtains p t n where "t = ring_drop p s" "ring_ok disc t (q + of_nat p)" "p \<le> StStreamed s" "StReadPtr s + p \<le> StBufmax s"
    "if StWritePtr s \<le> StReadPtr s \<and> StStreamed s > 0 then copy_count (int (StBufmax s) - int (StReadPtr s)) maxcount = p else p = 0"
    "n \<le> StStreamed t" "StReadPtr t + n \<le> StBufmax s" "p + n = min (nat maxcount) (StStreamed s)"
    "if int p < maxcount \<and> StReadPtr t < StWritePtr t then copy_count (int (StWritePtr t) - int (StReadPtr t)) (maxcount - int p) = n \<and>
       (p = 0 \<or> StReadPtr s + p = StBufmax s) else n = 0"
proof -
  let ?m = "nat maxcount"
  define p where "p = part1 ?m s"
  define t where "t = ring_drop p s"
  define n where "n = (if p < ?m \<and> StReadPtr t < StWritePtr t then min (?m - p) (StStreamed t) else 0)"
  have le: "p \<le> ?m" "p \<le> StStreamed s" "StReadPtr s + p \<le> StBufmax s" unfolding p_def by (rule part1_le [OF r])+
  have ip: "int p < maxcount \<longleftrightarrow> p < ?m" by auto
  have ok: "ring_ok disc t (q + of_nat p)" unfolding t_def by (rule ring_take(2) [OF r le(2)])
  have rd: "StReadPtr t < StBufmax s" using ok by (simp add: ring_ok_def t_def)
  have "t = ring_drop (part1 ?m s) s" by (simp add: t_def p_def)
  from part1_rest [OF r this, folded p_def] have total: "p + n = min ?m (StStreamed s)"
    unfolding n_def by (auto split: if_splits)
  have first: "if StWritePtr s \<le> StReadPtr s \<and> StStreamed s > 0 then copy_count (int (StBufmax s) - int (StReadPtr s)) maxcount = p else p = 0"
    using first_count(1) [OF r m] by (auto simp: p_def part1_def)
  have wrapped: "p < ?m \<Longrightarrow> p = 0 \<or> StReadPtr s + p = StBufmax s"
  proof -
    have "StReadPtr s < StBufmax s" using r by (simp add: ring_ok_def)
    then show "p < ?m \<Longrightarrow> p = 0 \<or> StReadPtr s + p = StBufmax s" by (auto simp: p_def part1_def min_def split: if_splits)
  qed
  have "copy_count (int (StWritePtr t) - int (StReadPtr t)) (maxcount - int p) = n" if "p < ?m" "StReadPtr t < StWritePtr t"
    using second_count(1) [OF ok, of "maxcount - int p"] that m by (simp add: n_def nat_diff_distrib')
  then have "if int p < maxcount \<and> StReadPtr t < StWritePtr t then copy_count (int (StWritePtr t) - int (StReadPtr t)) (maxcount - int p) = n \<and>
      (p = 0 \<or> StReadPtr s + p = StBufmax s) else n = 0" using wrapped ip by (simp add: n_def)
  moreover have "n \<le> StStreamed t" "StReadPtr t + n \<le> StBufmax s"
    using second_fit [OF ok, of "?m - p"] rd unfolding n_def by (simp_all add: t_def)
  ultimately show thesis using that [OF t_def ok le(2,3) first _ _ total] by blast
qed

lemma ReadSectors_ring:
  assumes r: "ring_ok disc s q" and m: "0 \<le> maxcount"
  shows "ReadSectors maxcount s =
    Inr (sectors_from disc q (min (nat maxcount) (StStreamed s)), ring_drop (min (nat maxcount) (StStreamed s)) s)"
proof -
  obtain p t n where t: "t = ring_drop p s" "ring_ok disc t (q + of_nat p)" "p \<le> StStreamed s" "StReadPtr s + p \<le> StBufmax s"
    and p: "if StWritePtr s \<le> StReadPtr s \<and> StStreamed s > 0 then copy_count (int (StBufmax s) - int (StReadPtr s)) maxcount = p else p = 0"
    and n: "n \<le> StStreamed t" "StReadPtr t + n \<le> StBufmax s" "p + n = min (nat maxcount) (StStreamed s)"
    and c: "if int p < maxcount \<and> StReadPtr t < StWritePtr t then copy_count (int (StWritePtr t) - int (StReadPtr t)) (maxcount - int p) = n \<and>
       (p = 0 \<or> StReadPtr s + p = StBufmax s) else n = 0"
    by (rule two_parts [OF r m])
  have one: "(if StWritePtr s \<le> StReadPtr s \<and> StStreamed s > 0 then copy_out (copy_count (int (StBufmax s) - int (StReadPtr s)) maxcount) s
      else Inr ([], s)) = Inr (sectors_from disc q p, t)"
    using p copy_out_ring [OF r t(3,4)] ring_drop_0 [OF r] t(1) by (auto simp: sectors_from_def split: if_splits)
  have "StBufmax t = StBufmax s" using t(1) by simp
  then have "copy_out n t = Inr (sectors_from disc (q + of_nat p) n, ring_drop n t)" using n by (intro copy_out_ring [OF t(2)]) auto
  then show ?thesis using c unfolding ReadSectors_def one n(3) [symmetric]
    by (auto simp: sectors_from_append ring_drop_add t(1) split: if_splits)
qed

text \<open>The DMA transfers of \<open>n\<close> sectors.\<close>

definition segments :: "nat \<Rightarrow> nat \<Rightarrow> nat \<Rightarrow> dmat" where
  "segments B R n = (if n = 0 then [] else if R + n \<le> B then [(R, n)] else [(R, B - R), (0, n - (B - R))])"

lemma add_dma_ring:
  "ring_ok disc s q \<Longrightarrow> rd + n \<le> StBufmax s \<Longrightarrow> rd < StBufmax s \<Longrightarrow>
     add_dma s n (dmat, k, rd) = (if n = 0 then dmat else dmat @ [(rd, n)], k + n, (rd + n) mod StBufmax s)"
  using cut16_int [of "rd + n"] by (auto simp: add_dma_def ring_ok_def wrap_ptr_mod)

lemma ReadSectorsEE_begin_ring:
  assumes r: "ring_ok disc s q" and m: "0 \<le> maxcount" and k: "k = min (nat maxcount) (StStreamed s)"
  shows "ReadSectorsEE_begin maxcount s = (segments (StBufmax s) (StReadPtr s) k, k, (StReadPtr s + k) mod StBufmax s)"
proof -
  obtain p t n where t: "t = ring_drop p s" "ring_ok disc t (q + of_nat p)" "p \<le> StStreamed s" "StReadPtr s + p \<le> StBufmax s"
    and p: "if StWritePtr s \<le> StReadPtr s \<and> StStreamed s > 0 then copy_count (int (StBufmax s) - int (StReadPtr s)) maxcount = p else p = 0"
    and n: "n \<le> StStreamed t" "StReadPtr t + n \<le> StBufmax s" "p + n = min (nat maxcount) (StStreamed s)"
    and c: "if int p < maxcount \<and> StReadPtr t < StWritePtr t then copy_count (int (StWritePtr t) - int (StReadPtr t)) (maxcount - int p) = n \<and>
       (p = 0 \<or> StReadPtr s + p = StBufmax s) else n = 0"
    by (rule two_parts [OF r m])
  have b: "StReadPtr s < StBufmax s" using r by (simp add: ring_ok_def)
  define rd where "rd = StReadPtr t"
  have rd: "(StReadPtr s + p) mod StBufmax s = rd" "StWritePtr t = StWritePtr s" "rd < StBufmax s" using b by (simp_all add: t(1) rd_def)
  define d where "d = (if p = 0 then [] else [(StReadPtr s, p)])"
  have one: "(if StWritePtr s \<le> StReadPtr s \<and> StStreamed s > 0 then
        add_dma s (copy_count (int (StBufmax s) - int (StReadPtr s)) maxcount) ([], 0, StReadPtr s)
      else ([], 0, StReadPtr s)) = (d, p, rd)"
    using p add_dma_ring [OF r t(4) b] b rd by (auto simp: d_def split: if_splits)
  have two: "add_dma s n (d, p, rd) = (if n = 0 then d else d @ [(rd, n)], p + n, (rd + n) mod StBufmax s)"
    using add_dma_ring [OF r _ rd(3)] n(2) rd_def by blast
  have m': "(rd + n) mod StBufmax s = (StReadPtr s + (p + n)) mod StBufmax s" unfolding rd(1) [symmetric] by (metis add.assoc mod_add_left_eq)
  have seg: "segments (StBufmax s) (StReadPtr s) (p + n) = (if n = 0 then d else d @ [(rd, n)])"
    if "n = 0 \<or> p = 0 \<or> StReadPtr s + p = StBufmax s"
    using that t(4) n(2) b rd(1) rd_def by (auto simp: segments_def d_def)
  show ?thesis
  proof (cases "int p < maxcount \<and> rd < StWritePtr s")
    case True
    then have "copy_count (int (StWritePtr s) - int rd) (maxcount - int p) = n" "p = 0 \<or> StReadPtr s + p = StBufmax s"
      using c rd(2) by (auto simp: rd_def)
    with True two m' seg n(3) k show ?thesis unfolding ReadSectorsEE_begin_def one by simp
  next
    case False
    then have "n = 0" using c rd(2) by (auto simp: rd_def split: if_splits)
    moreover from this have "(d, p, rd) = (segments (StBufmax s) (StReadPtr s) (p + n), p + n, (StReadPtr s + (p + n)) mod StBufmax s)"
      using seg rd(1) by simp
    ultimately show ?thesis using False n(3) k unfolding ReadSectorsEE_begin_def one by auto
  qed
qed

lemma run_dma_segments:
  assumes r: "ring_ok disc s q" and n: "n \<le> StStreamed s"
  shows "run_dma (st_ring s) (segments (StBufmax s) (StReadPtr s) n) = Inr (sectors_from disc q n)"
proof (cases "StReadPtr s + n \<le> StBufmax s")
  case True
  then show ?thesis using ring_take(1) [OF r n True] by (auto simp: segments_def sectors_from_def)
next
  case False
  let ?k = "StBufmax s - StReadPtr s"
  have b: "StReadPtr s < StBufmax s" "StStreamed s \<le> StBufmax s" using r by (simp_all add: ring_ok_def)
  have k: "?k \<le> StStreamed s" "StReadPtr s + ?k \<le> StBufmax s" using False n b by auto
  have ok: "ring_ok disc (ring_drop ?k s) (q + of_nat ?k)" by (rule ring_take(2) [OF r k(1)])
  have z: "StReadPtr (ring_drop ?k s) = 0" using b by simp
  have "mem_read (st_ring s) 0 (n - ?k) = Inr (sectors_from disc (q + of_nat ?k) (n - ?k))"
    using ring_take(1) [OF ok, of "n - ?k", unfolded z] n b by simp
  moreover have "sectors_from disc q ?k @ sectors_from disc (q + of_nat ?k) (n - ?k) = sectors_from disc q n"
    using False by (simp only: sectors_from_append) simp
  ultimately show ?thesis using False b ring_take(1) [OF r k] by (auto simp: segments_def)
qed

lemma ReadSectorsEE_end_ring:
  assumes r: "ring_ok disc s q" and n: "n \<le> StStreamed s"
  shows "ReadSectorsEE_end (segments (StBufmax s) (StReadPtr s) n) n ((StReadPtr s + n) mod StBufmax s) s = ring_drop n s"
proof -
  have b: "StStreamed s < 2 ^ 16" using r unfolding ring_ok_def by linarith
  have "int (StStreamed s) - int n = int (StStreamed s - n)" using n by simp
  then have c: "cut16 (int (StStreamed s) - int n) = StStreamed s - n" using b by (simp del: of_nat_diff)
  have "segments (StBufmax s) (StReadPtr s) n = [] \<longleftrightarrow> n = 0" by (simp add: segments_def)
  then show ?thesis using ring_drop_0 [OF r] c by (auto simp: ReadSectorsEE_end_def) (simp add: ring_drop_def)
qed

text \<open>There is room for a bank behind the occupied part, and the bank is there.\<close>

definition space :: "('a, 'm) cd_state_scheme \<Rightarrow> bool" where
  "space s \<longleftrightarrow> StStreamed s + StBanksize s \<le> StBufmax s"

definition bank_ready :: "(u32 \<Rightarrow> 'a) \<Rightarrow> ('a, 'm) cd_state_scheme \<Rightarrow> bool" where
  "bank_ready disc s \<longleftrightarrow> (\<forall>i < StBanksize s. st_ring s ! (StWritePtr s + i) = disc (Stlsn s + of_nat i))"

lemma bank_fits:
  assumes "ring_ok disc s q"
  shows "StWritePtr s + StBanksize s \<le> StBufmax s"
proof -
  obtain b w where b: "StBufmax s = StBanksize s * b" "StWritePtr s = StBanksize s * w"
    using assms unfolding ring_ok_def by (meson dvdE)
  have "StBanksize s * w < StBanksize s * b" using ring_shape(4) [OF assms] b by simp
  then have "w + 1 \<le> b" by simp
  then have "StBanksize s * (w + 1) \<le> StBanksize s * b" by (rule mult_le_mono2)
  then show ?thesis using b by (simp add: algebra_simps)
qed

lemma bank_slot:
  assumes r: "ring_ok disc s q" and "j < StBanksize s"
  shows "(StReadPtr s + (StStreamed s + j)) mod StBufmax s = StWritePtr s + j"
proof -
  have "StWritePtr s + j < StBufmax s" using bank_fits [OF r] assms(2) by simp
  moreover have "(StReadPtr s + (StStreamed s + j)) mod StBufmax s = (StWritePtr s + j) mod StBufmax s"
    using r unfolding ring_ok_def by (metis add.assoc mod_add_left_eq)
  ultimately show ?thesis by simp
qed

lemma mod_neq:
  fixes i k r b :: nat
  assumes "i < k" "k < i + b"
  shows "(r + i) mod b \<noteq> (r + k) mod b"
proof
  assume "(r + i) mod b = (r + k) mod b"
  then have "b dvd (r + k) - (r + i)" using assms(1) by (intro mod_eq_dvd_iff_nat [THEN iffD1]) auto
  then have "b \<le> k - i" using assms(1) by (auto dest: dvd_imp_le)
  with assms show False by simp
qed

text \<open>Writing the bank leaves the occupied part alone.\<close>

lemma write_bank:
  assumes r: "ring_ok disc s q" and sp: "space s"
    and c: "cdread_lba s = Stlsn s" "cdread_sectors s = StBanksize s" "cdread_buf s = Bank (StWritePtr s)"
  obtains ring where "write_sectors disc s = Inr (s\<lparr>st_ring := ring\<rparr>)" "ring_ok disc (s\<lparr>st_ring := ring\<rparr>) q" "bank_ready disc (s\<lparr>st_ring := ring\<rparr>)"
proof -
  let ?b = "map (\<lambda>i. disc (Stlsn s + of_nat i)) [0..<StBanksize s]"
  let ?r = "take (StWritePtr s) (st_ring s) @ ?b @ drop (StWritePtr s + StBanksize s) (st_ring s)"
  have fits: "StWritePtr s + StBanksize s \<le> length (st_ring s)" "length (st_ring s) = StBufmax s"
    using bank_fits [OF r] r by (simp_all add: ring_ok_def)
  have "write_sectors disc s = Inr (s\<lparr>st_ring := ?r\<rparr>)" using fits c by (simp add: write_sectors_def mem_write_def)
  moreover have bank: "?r ! (StWritePtr s + j) = disc (Stlsn s + of_nat j)" if "j < StBanksize s" for j
    using fits that by (simp add: nth_append)
  moreover have keep: "?r ! k = st_ring s ! k" if "k < StWritePtr s \<or> StWritePtr s + StBanksize s \<le> k" "k < StBufmax s" for k
    using fits that by (auto simp: nth_append)
  have "?r ! ((StReadPtr s + i) mod StBufmax s) = disc (q + of_nat i)" if i: "i < StStreamed s" for i
  proof -
    let ?k = "(StReadPtr s + i) mod StBufmax s"
    have "?k \<noteq> StWritePtr s + j" if j: "j < StBanksize s" for j
    proof -
      have "i < StStreamed s + j" "StStreamed s + j < i + StBufmax s" using i j sp by (auto simp: space_def)
      then show ?thesis using mod_neq [of i "StStreamed s + j" "StBufmax s" "StReadPtr s"] bank_slot [OF r j] by simp
    qed
    then have "?k < StWritePtr s \<or> StWritePtr s + StBanksize s \<le> ?k" by (metis le_add_diff_inverse less_diff_conv2 linorder_not_le add.commute)
    moreover have "?k < StBufmax s" using r by (simp add: ring_ok_def)
    ultimately show ?thesis using keep ring_slot [OF r i] by simp
  qed
  moreover have "length ?r = StBufmax s" using fits by simp
  ultimately have "ring_ok disc (s\<lparr>st_ring := ?r\<rparr>) q" using r unfolding ring_ok_def by (elim conjE) simp
  moreover have "bank_ready disc (s\<lparr>st_ring := ?r\<rparr>)" unfolding bank_ready_def using bank by simp
  ultimately show thesis using \<open>write_sectors disc s = _\<close> by (intro that)
qed

text \<open>The callback makes the bank part of the stream.\<close>

lemma callback_ring:
  assumes r: "ring_ok disc s q" and "space s" "bank_ready disc s" "StIsReading s"
  shows "ring_ok disc (StmCallback_update s) q"
proof -
  let ?n = "StBanksize s"
  have b: "StWritePtr s + ?n \<le> StBufmax s" "StBufmax s < 2 ^ 16" "StStreamed s + ?n \<le> StBufmax s"
    using bank_fits [OF r] r assms(2) by (simp_all add: ring_ok_def space_def)
  have w: "cut16 (int (StWritePtr s) + int ?n) = StWritePtr s + ?n" "cut16 (int (StStreamed s) + int ?n) = StStreamed s + ?n"
    using b cut16_int [of "StWritePtr s + ?n"] cut16_int [of "StStreamed s + ?n"] by simp_all
  have wr: "(if StWritePtr s + ?n \<ge> StBufmax s then 0 else StWritePtr s + ?n) = (StReadPtr s + (StStreamed s + ?n)) mod StBufmax s"
  proof -
    have "(StReadPtr s + (StStreamed s + ?n)) mod StBufmax s = (StWritePtr s + ?n) mod StBufmax s"
      using r unfolding ring_ok_def by (metis add.assoc mod_add_left_eq)
    then show ?thesis using b r by (auto simp: ring_ok_def)
  qed
  have slots: "st_ring s ! ((StReadPtr s + i) mod StBufmax s) = disc (q + of_nat i)" if "i < StStreamed s + ?n" for i
  proof (cases "i < StStreamed s")
    case False
    define j where "j = i - StStreamed s"
    have "i = StStreamed s + j" "j < ?n" using False that by (auto simp: j_def)
    moreover have "Stlsn s = q + of_nat (StStreamed s)" using r by (simp add: ring_ok_def)
    ultimately show ?thesis using bank_slot [OF r, of j] assms(3) by (simp add: bank_ready_def add.assoc)
  qed (use ring_slot [OF r] in blast)
  have "?n dvd StWritePtr s" using r unfolding ring_ok_def by blast
  then have "?n dvd (if StWritePtr s + ?n \<ge> StBufmax s then 0 else StWritePtr s + ?n)" by simp
  with slots b wr r show ?thesis using assms(4) unfolding StmCallback_update_def Let_def w ring_ok_def by (elim conjE) simp
qed

section \<open>The threads keep the stream\<close>

text \<open>Who has set \<open>StIsReading\<close>: the game's thread or the reading thread inside \<open>StFillStreamBuffer\<close>, or the
  drive with a read of the stream, until the callback has run.\<close>

fun holds :: "fill_pc \<Rightarrow> bool" where
  "holds (FillRead p) = True" | "holds FillFull = True" | "holds FillFailed = True" | "holds pc = False"

definition game_holds :: "'a cd_sys \<Rightarrow> bool" where
  "game_holds s \<longleftrightarrow> (case game_pc s of ReadFill pc \<Rightarrow> holds pc | _ \<Rightarrow> False)"

definition thread_holds :: "'a cd_sys \<Rightarrow> bool" where
  "thread_holds s \<longleftrightarrow> (case rthread_pc s of ThreadFill pc \<Rightarrow> holds pc | _ \<Rightarrow> False)"

definition drive_holds :: "'a cd_sys \<Rightarrow> bool" where
  "drive_holds s \<longleftrightarrow> rthread_sema s \<or> rthread_pc s \<in> {ThreadRead, ThreadEnd, ThreadCheck, ThreadCallback}"

text \<open>In the stream's own runs a read can always be started, so that the alarm is never needed.\<close>

definition fill_ok :: "fill_pc \<Rightarrow> 'a cd_sys \<Rightarrow> bool" where
  "fill_ok pc s \<longleftrightarrow> (case pc of FillRead p \<Rightarrow> p = StWritePtr s \<and> space s | FillFailed \<Rightarrow> False | FillAlarm \<Rightarrow> False | _ \<Rightarrow> True)"

definition read_ok :: "u32 \<Rightarrow> nat \<Rightarrow> int \<Rightarrow> bool" where
  "read_ok sectors result todo \<longleftrightarrow> result \<le> unat sectors \<and> todo = int (unat sectors) - int result"

definition game_ok :: "'a cd_sys \<Rightarrow> bool" where
  "game_ok s \<longleftrightarrow>
     (case game_pc s of
        ReadIdle \<Rightarrow> True
      | ReadLoop sectors result todo ee mode \<Rightarrow> read_ok sectors result todo
      | ReadWoken sectors result todo ee mode \<Rightarrow> read_ok sectors result todo
      | ReadCopy sectors result todo ee mode \<Rightarrow> read_ok sectors result todo
      | ReadDma sectors result todo ee mode dmat n rdptr \<Rightarrow>
          read_ok sectors result todo \<and> int n \<le> todo \<and> n \<le> StStreamed s \<and>
          dmat = segments (StBufmax s) (StReadPtr s) n \<and> rdptr = (StReadPtr s + n) mod StBufmax s
      | ReadFill pc \<Rightarrow> fill_ok pc s)"

definition thread_fill_ok :: "'a cd_sys \<Rightarrow> bool" where
  "thread_fill_ok s \<longleftrightarrow> (case rthread_pc s of ThreadFill pc \<Rightarrow> fill_ok pc s | _ \<Rightarrow> True)"

definition thread_ok :: "(u32 \<Rightarrow> 'a) \<Rightarrow> 'a cd_sys \<Rightarrow> bool" where
  "thread_ok disc s \<longleftrightarrow>
     thread_fill_ok s \<and>
     (drive_holds s \<longrightarrow> space s) \<and>
     (rthread_sema s \<or> rthread_pc s = ThreadRead \<longrightarrow>
        cdread_lba s = Stlsn s \<and> cdread_sectors s = StBanksize s \<and> cdread_buf s = Bank (StWritePtr s)) \<and>
     (rthread_pc s \<in> {ThreadEnd, ThreadCheck, ThreadCallback} \<longrightarrow> bank_ready disc s)"

definition lock_ok :: "'a cd_sys \<Rightarrow> bool" where
  "lock_ok s \<longleftrightarrow>
     (sync_flag s \<longleftrightarrow> rthread_sema s \<or> rthread_pc s \<in> {ThreadRead, ThreadEnd}) \<and>
     \<not> (rthread_sema s \<and> rthread_pc s \<in> {ThreadRead, ThreadEnd, ThreadCheck, ThreadCallback}) \<and>
     (StIsReading s \<longleftrightarrow> game_holds s \<or> thread_holds s \<or> drive_holds s) \<and>
     \<not> (game_holds s \<and> thread_holds s) \<and> \<not> (game_holds s \<and> drive_holds s) \<and> \<not> (thread_holds s \<and> drive_holds s)"

definition stream_inv :: "(u32 \<Rightarrow> 'a) \<Rightarrow> 'a cd_sys \<Rightarrow> u32 \<Rightarrow> bool" where
  "stream_inv disc s q \<longleftrightarrow> ring_ok disc s q \<and> StStat s \<and> Stm0Callback s \<and> \<not> stm_alarm s \<and> lock_ok s \<and> game_ok s \<and> thread_ok disc s"

text \<open>The specification: each delivery is the next sectors of the disc.\<close>

fun st_spec :: "(u32 \<Rightarrow> 'a) \<Rightarrow> u32 \<Rightarrow> 'a st_event \<Rightarrow> u32 option" where
  "st_spec disc q (Delivered xs) = (if xs = sectors_from disc q (length xs) then Some (q + of_nat (length xs)) else None)"
| "st_spec disc q (StFault e) = None"

text \<open>The choices of a stream alone: no other reads, a device that delivers, requests of less than \<open>2 ^ 31\<close> sectors.\<close>

definition stream_next :: "(u32 \<Rightarrow> 'a) \<Rightarrow> 'a cd_sys \<Rightarrow> cd_act \<Rightarrow> ('a st_event list \<times> 'a cd_sys) option" where
  "stream_next disc s act =
     (case act of
        CallRead sectors ee mode \<Rightarrow> if unat sectors < 2 ^ 31 then cd_next disc s act else None
      | ThreadError \<Rightarrow> None
      | OtherRead lsn n \<Rightarrow> None
      | _ \<Rightarrow> cd_next disc s act)"

lemmas stream_defs = stream_inv_def lock_ok_def game_ok_def thread_ok_def game_holds_def thread_holds_def drive_holds_def fill_ok_def

text \<open>A fill step of either thread.\<close>

lemma fill_step_cases:
  assumes "fill_step pc s = (pc', s1)" "\<not> stm_alarm s"
  obtains (busy) "pc = FillBegin" "StIsReading s" "pc' = None" "s1 = s"
  | (bank) "pc = FillBegin" "\<not> StIsReading s" "space s" "pc' = Some (FillRead (StWritePtr s))" "s1 = s\<lparr>StIsReading := True\<rparr>"
  | (full) "pc = FillBegin" "\<not> StIsReading s" "pc' = Some FillFull" "s1 = s\<lparr>StIsReading := True\<rparr>"
  | (read) p where "pc = FillRead p" "\<not> sync_flag s" "pc' = None"
      "s1 = s\<lparr>sync_flag := True, cdread_lba := Stlsn s, cdread_sectors := StBanksize s, cdread_buf := Bank p, rthread_sema := True\<rparr>"
  | (locked) p where "pc = FillRead p" "sync_flag s"
  | (done_full) "pc = FillFull" "pc' = None" "s1 = s\<lparr>StIsReading := False\<rparr>"
  | (failed) "pc = FillFailed \<or> pc = FillAlarm"
proof (cases pc)
  case FillBegin
  have alarm: "s\<lparr>stm_alarm := False, StIsReading := True\<rparr> = s\<lparr>StIsReading := True\<rparr>" using assms(2) by (cases s) simp
  consider "StIsReading s" | "\<not> StIsReading s" "space s" | "\<not> StIsReading s" "\<not> space s" by blast
  then show thesis
  proof cases
    case 1
    with assms(1) FillBegin show ?thesis by (intro busy) (simp_all add: fill_step_def)
  next
    case 2
    then have "AllocBank (s\<lparr>StIsReading := True\<rparr>) = Some (StWritePtr s)" by (simp add: AllocBank_def space_def)
    with 2 assms(1) FillBegin show ?thesis by (intro bank) (simp_all add: fill_step_def alarm)
  next
    case 3
    then have "AllocBank (s\<lparr>StIsReading := True\<rparr>) = None" by (simp add: AllocBank_def space_def)
    with 3 assms(1) FillBegin show ?thesis by (intro full) (simp_all add: fill_step_def alarm)
  qed
next
  case (FillRead p)
  show thesis
  proof (cases "sync_flag s")
    case False
    with assms(1) FillRead show ?thesis by (intro read) (auto simp: fill_step_def cdvdman_AsyncRead_def cdvdman_common_lock_def)
  qed (use FillRead locked in simp)
next
  case FillFull
  with assms(1) show thesis by (intro done_full) (simp_all add: fill_step_def)
qed (use failed in simp_all)

text \<open>What does not depend on the flags and the program points.\<close>

lemma ring_frame [simp]:
  fixes s :: "'a cd_sys"
  shows
  "ring_ok disc (s\<lparr>StIsReading := x0\<rparr>) q = ring_ok disc s q"
  "ring_ok disc (s\<lparr>intr_ef8 := x1\<rparr>) q = ring_ok disc s q"
  "ring_ok disc (s\<lparr>sync_flag := x2\<rparr>) q = ring_ok disc s q"
  "ring_ok disc (s\<lparr>cdread_lba := x3\<rparr>) q = ring_ok disc s q"
  "ring_ok disc (s\<lparr>cdread_sectors := x4\<rparr>) q = ring_ok disc s q"
  "ring_ok disc (s\<lparr>cdread_buf := x5\<rparr>) q = ring_ok disc s q"
  "ring_ok disc (s\<lparr>rthread_sema := x6\<rparr>) q = ring_ok disc s q"
  "ring_ok disc (s\<lparr>game_pc := x7\<rparr>) q = ring_ok disc s q"
  "ring_ok disc (s\<lparr>rthread_pc := x8\<rparr>) q = ring_ok disc s q"
  by (simp_all add: ring_ok_def)

lemma space_frame [simp]:
  fixes s :: "'a cd_sys"
  shows
  "space (s\<lparr>StIsReading := x0\<rparr>) = space s"
  "space (s\<lparr>intr_ef8 := x1\<rparr>) = space s"
  "space (s\<lparr>sync_flag := x2\<rparr>) = space s"
  "space (s\<lparr>cdread_lba := x3\<rparr>) = space s"
  "space (s\<lparr>cdread_sectors := x4\<rparr>) = space s"
  "space (s\<lparr>cdread_buf := x5\<rparr>) = space s"
  "space (s\<lparr>rthread_sema := x6\<rparr>) = space s"
  "space (s\<lparr>game_pc := x7\<rparr>) = space s"
  "space (s\<lparr>rthread_pc := x8\<rparr>) = space s"
  by (simp_all add: space_def)

lemma bank_frame [simp]:
  fixes s :: "'a cd_sys"
  shows
  "bank_ready disc (s\<lparr>StIsReading := x0\<rparr>) = bank_ready disc s"
  "bank_ready disc (s\<lparr>intr_ef8 := x1\<rparr>) = bank_ready disc s"
  "bank_ready disc (s\<lparr>sync_flag := x2\<rparr>) = bank_ready disc s"
  "bank_ready disc (s\<lparr>cdread_lba := x3\<rparr>) = bank_ready disc s"
  "bank_ready disc (s\<lparr>cdread_sectors := x4\<rparr>) = bank_ready disc s"
  "bank_ready disc (s\<lparr>cdread_buf := x5\<rparr>) = bank_ready disc s"
  "bank_ready disc (s\<lparr>rthread_sema := x6\<rparr>) = bank_ready disc s"
  "bank_ready disc (s\<lparr>game_pc := x7\<rparr>) = bank_ready disc s"
  "bank_ready disc (s\<lparr>rthread_pc := x8\<rparr>) = bank_ready disc s"
  by (simp_all add: bank_ready_def)

lemma fill_frame [simp]:
  fixes s :: "'a cd_sys"
  shows
  "fill_ok pc (s\<lparr>StIsReading := x0\<rparr>) = fill_ok pc s"
  "fill_ok pc (s\<lparr>intr_ef8 := x1\<rparr>) = fill_ok pc s"
  "fill_ok pc (s\<lparr>sync_flag := x2\<rparr>) = fill_ok pc s"
  "fill_ok pc (s\<lparr>cdread_lba := x3\<rparr>) = fill_ok pc s"
  "fill_ok pc (s\<lparr>cdread_sectors := x4\<rparr>) = fill_ok pc s"
  "fill_ok pc (s\<lparr>cdread_buf := x5\<rparr>) = fill_ok pc s"
  "fill_ok pc (s\<lparr>rthread_sema := x6\<rparr>) = fill_ok pc s"
  "fill_ok pc (s\<lparr>game_pc := x7\<rparr>) = fill_ok pc s"
  "fill_ok pc (s\<lparr>rthread_pc := x8\<rparr>) = fill_ok pc s"
  by (simp_all add: fill_ok_def split: fill_pc.splits)

lemma thread_fill_frame [simp]:
  fixes s :: "'a cd_sys"
  shows
  "thread_fill_ok (s\<lparr>StIsReading := x0\<rparr>) = thread_fill_ok s"
  "thread_fill_ok (s\<lparr>intr_ef8 := x1\<rparr>) = thread_fill_ok s"
  "thread_fill_ok (s\<lparr>sync_flag := x2\<rparr>) = thread_fill_ok s"
  "thread_fill_ok (s\<lparr>cdread_lba := x3\<rparr>) = thread_fill_ok s"
  "thread_fill_ok (s\<lparr>cdread_sectors := x4\<rparr>) = thread_fill_ok s"
  "thread_fill_ok (s\<lparr>cdread_buf := x5\<rparr>) = thread_fill_ok s"
  "thread_fill_ok (s\<lparr>rthread_sema := x6\<rparr>) = thread_fill_ok s"
  "thread_fill_ok (s\<lparr>game_pc := x7\<rparr>) = thread_fill_ok s"
  by (simp_all add: thread_fill_ok_def split: rthread.splits)

lemma holds_frame [simp]:
  fixes s :: "'a cd_sys"
  shows
  "game_holds (s\<lparr>StIsReading := x0\<rparr>) = game_holds s"
  "game_holds (s\<lparr>intr_ef8 := x1\<rparr>) = game_holds s"
  "game_holds (s\<lparr>sync_flag := x2\<rparr>) = game_holds s"
  "game_holds (s\<lparr>cdread_lba := x3\<rparr>) = game_holds s"
  "game_holds (s\<lparr>cdread_sectors := x4\<rparr>) = game_holds s"
  "game_holds (s\<lparr>cdread_buf := x5\<rparr>) = game_holds s"
  "game_holds (s\<lparr>rthread_sema := x6\<rparr>) = game_holds s"
  "game_holds (s\<lparr>rthread_pc := x8\<rparr>) = game_holds s"
  "thread_holds (s\<lparr>StIsReading := x0\<rparr>) = thread_holds s"
  "thread_holds (s\<lparr>intr_ef8 := x1\<rparr>) = thread_holds s"
  "thread_holds (s\<lparr>sync_flag := x2\<rparr>) = thread_holds s"
  "thread_holds (s\<lparr>cdread_lba := x3\<rparr>) = thread_holds s"
  "thread_holds (s\<lparr>cdread_sectors := x4\<rparr>) = thread_holds s"
  "thread_holds (s\<lparr>cdread_buf := x5\<rparr>) = thread_holds s"
  "thread_holds (s\<lparr>rthread_sema := x6\<rparr>) = thread_holds s"
  "thread_holds (s\<lparr>game_pc := x7\<rparr>) = thread_holds s"
  "drive_holds (s\<lparr>StIsReading := x0\<rparr>) = drive_holds s"
  "drive_holds (s\<lparr>intr_ef8 := x1\<rparr>) = drive_holds s"
  "drive_holds (s\<lparr>sync_flag := x2\<rparr>) = drive_holds s"
  "drive_holds (s\<lparr>cdread_lba := x3\<rparr>) = drive_holds s"
  "drive_holds (s\<lparr>cdread_sectors := x4\<rparr>) = drive_holds s"
  "drive_holds (s\<lparr>cdread_buf := x5\<rparr>) = drive_holds s"
  "drive_holds (s\<lparr>game_pc := x7\<rparr>) = drive_holds s"
  by (simp_all add: game_holds_def thread_holds_def drive_holds_def)

lemma holds_pc [simp]:
  "game_holds (s\<lparr>game_pc := g\<rparr>) = (case g of ReadFill pc \<Rightarrow> holds pc | _ \<Rightarrow> False)"
  "thread_holds (s\<lparr>rthread_pc := r\<rparr>) = (case r of ThreadFill pc \<Rightarrow> holds pc | _ \<Rightarrow> False)"
  "thread_fill_ok (s\<lparr>rthread_pc := r\<rparr>) = (case r of ThreadFill pc \<Rightarrow> fill_ok pc s | _ \<Rightarrow> True)"
  "drive_holds (s\<lparr>rthread_sema := True\<rparr>)"
  by (simp_all add: game_holds_def thread_holds_def drive_holds_def thread_fill_ok_def split: rthread.splits)

lemma game_frame [simp]:
  fixes s :: "'a cd_sys"
  shows
  "game_ok (s\<lparr>StIsReading := x0\<rparr>) = game_ok s"
  "game_ok (s\<lparr>intr_ef8 := x1\<rparr>) = game_ok s"
  "game_ok (s\<lparr>sync_flag := x2\<rparr>) = game_ok s"
  "game_ok (s\<lparr>cdread_lba := x3\<rparr>) = game_ok s"
  "game_ok (s\<lparr>cdread_sectors := x4\<rparr>) = game_ok s"
  "game_ok (s\<lparr>cdread_buf := x5\<rparr>) = game_ok s"
  "game_ok (s\<lparr>rthread_sema := x6\<rparr>) = game_ok s"
  "game_ok (s\<lparr>rthread_pc := x7\<rparr>) = game_ok s"
  by (simp_all add: game_ok_def split: st_read.splits)

lemmas inv_defs = stream_inv_def lock_ok_def thread_ok_def game_ok_def

lemma game_fill_inv:
  assumes inv: "stream_inv disc s q" and pc: "game_pc s = ReadFill pc" and f: "fill_step pc s = (pc', s1)"
  shows "stream_inv disc (s1\<lparr>game_pc := (case pc' of Some p \<Rightarrow> ReadFill p | None \<Rightarrow> ReadIdle)\<rparr>) q"
proof -
  have g: "game_holds s = holds pc" "fill_ok pc s" using inv pc by (simp_all add: game_holds_def inv_defs)
  have "\<not> stm_alarm s" using inv by (simp add: stream_inv_def)
  with f show ?thesis
  proof (cases rule: fill_step_cases)
    case busy
    then show ?thesis using inv g by (simp add: inv_defs)
  next
    case bank
    then show ?thesis using inv g by (simp add: inv_defs) (simp add: fill_ok_def)
  next
    case full
    then show ?thesis using inv g by (simp add: inv_defs) (simp add: fill_ok_def)
  next
    case (read p)
    from read inv g show ?thesis by (simp add: inv_defs) (auto simp: fill_ok_def drive_holds_def)
  next
    case (locked p)
    then show ?thesis using inv g by (auto simp: inv_defs drive_holds_def)
  next
    case done_full
    then show ?thesis using inv g by (simp add: inv_defs)
  next
    case failed
    then show ?thesis using inv g by (auto simp: fill_ok_def)
  qed
qed

lemma thread_fill_inv:
  assumes inv: "stream_inv disc s q" and pc: "rthread_pc s = ThreadFill pc" and f: "fill_step pc s = (pc', s1)"
  shows "stream_inv disc (s1\<lparr>rthread_pc := (case pc' of Some p \<Rightarrow> ThreadFill p | None \<Rightarrow> ThreadWait)\<rparr>) q"
proof -
  have g: "thread_holds s = holds pc" "fill_ok pc s" "drive_holds s = rthread_sema s"
    using inv pc by (simp_all add: thread_holds_def drive_holds_def thread_fill_ok_def inv_defs)
  have drive: "drive_holds (t\<lparr>rthread_pc := r\<rparr>) = rthread_sema t" if "r \<in> {ThreadWait} \<union> range ThreadFill" for t :: "'a cd_sys" and r
    using that by (auto simp: drive_holds_def)
  have "\<not> stm_alarm s" using inv by (simp add: stream_inv_def)
  with f show ?thesis
  proof (cases rule: fill_step_cases)
    case busy
    then show ?thesis using inv g pc by (simp add: stream_inv_def lock_ok_def thread_ok_def drive)
  next
    case bank
    then show ?thesis using inv g pc by (simp add: stream_inv_def lock_ok_def thread_ok_def drive) (auto simp: fill_ok_def)
  next
    case full
    then show ?thesis using inv g pc by (simp add: stream_inv_def lock_ok_def thread_ok_def drive) (auto simp: fill_ok_def)
  next
    case (read p)
    then show ?thesis using inv g pc by (simp add: stream_inv_def lock_ok_def thread_ok_def drive) (auto simp: fill_ok_def)
  next
    case (locked p)
    then show ?thesis using inv g pc by (auto simp: inv_defs)
  next
    case done_full
    then show ?thesis using inv g pc by (simp add: stream_inv_def lock_ok_def thread_ok_def drive)
  next
    case failed
    then show ?thesis using inv g by (auto simp: fill_ok_def)
  qed
qed

lemma thread_step_inv:
  assumes inv: "stream_inv disc s q" and t: "thread_step disc True s = Some (evs, s')"
  shows "evs = [] \<and> stream_inv disc s' q"
proof (cases "rthread_pc s")
  case ThreadWait
  then have "rthread_sema s" "evs = []" "s' = s\<lparr>rthread_sema := False, rthread_pc := ThreadRead\<rparr>" using t by (auto simp: thread_step_def split: if_splits)
  then show ?thesis using inv ThreadWait by (auto simp: stream_inv_def lock_ok_def thread_ok_def drive_holds_def)
next
  case ThreadRead
  have r: "ring_ok disc s q" "space s" "cdread_lba s = Stlsn s" "cdread_sectors s = StBanksize s" "cdread_buf s = Bank (StWritePtr s)"
    using inv ThreadRead by (simp_all add: inv_defs drive_holds_def)
  obtain ring where w: "write_sectors disc s = Inr (s\<lparr>st_ring := ring\<rparr>)" "ring_ok disc (s\<lparr>st_ring := ring\<rparr>) q" "bank_ready disc (s\<lparr>st_ring := ring\<rparr>)"
    by (rule write_bank [OF r])
  have "game_ok (s\<lparr>st_ring := ring, rthread_pc := ThreadEnd\<rparr>) = game_ok s"
    by (simp add: game_ok_def fill_ok_def space_def split: st_read.splits fill_pc.splits)
  with w t inv ThreadRead r(2) show ?thesis
    by (auto simp: stream_inv_def lock_ok_def thread_ok_def thread_step_def drive_holds_def thread_holds_def game_holds_def thread_fill_ok_def space_def)
next
  case ThreadEnd
  then have "evs = []" "s' = s\<lparr>sync_flag := False, intr_ef8 := True, rthread_pc := ThreadCheck\<rparr>"
    using inv t by (auto simp: thread_step_def cdvdman_signal_read_end_def stream_inv_def)
  then show ?thesis using inv ThreadEnd by (auto simp: stream_inv_def lock_ok_def thread_ok_def drive_holds_def)
next
  case ThreadCheck
  then have "evs = []" "s' = s\<lparr>rthread_pc := ThreadCallback\<rparr>" using inv t by (auto simp: thread_step_def stream_inv_def)
  then show ?thesis using inv ThreadCheck by (auto simp: stream_inv_def lock_ok_def thread_ok_def drive_holds_def)
next
  case ThreadCallback
  have r: "ring_ok disc s q" "space s" "bank_ready disc s" "StIsReading s" "\<not> game_holds s" using inv ThreadCallback by (simp_all add: inv_defs drive_holds_def)
  have s': "evs = []" "s' = (StmCallback_update s)\<lparr>rthread_pc := ThreadFill FillBegin\<rparr>" using t ThreadCallback by (simp_all add: thread_step_def)
  have ring: "ring_ok disc (StmCallback_update s) q" by (rule callback_ring [OF r(1-4)])
  let ?u = "StmCallback_update s"
  have b: "StBufmax s < 2 ^ 16" using r(1) unfolding ring_ok_def by blast
  have u: "StStreamed s \<le> StStreamed ?u" "StBufmax ?u = StBufmax s" "StReadPtr ?u = StReadPtr s" "game_pc ?u = game_pc s"
    "StStat ?u = StStat s" "Stm0Callback ?u = Stm0Callback s" "stm_alarm ?u = stm_alarm s" "\<not> StIsReading ?u" "sync_flag ?u = sync_flag s" "rthread_sema ?u = rthread_sema s"
    using r(2,4) cut16_int [of "StStreamed s + StBanksize s"] b by (simp_all add: StmCallback_update_def Let_def space_def)
  have "game_ok (?u\<lparr>rthread_pc := ThreadFill FillBegin\<rparr>)"
    using inv u r(5) by (auto simp: stream_inv_def game_ok_def fill_ok_def game_holds_def split: st_read.splits fill_pc.splits)
  then show ?thesis using inv ThreadCallback u ring r(5) unfolding s'
    by (auto simp: stream_inv_def lock_ok_def thread_ok_def drive_holds_def game_holds_def fill_ok_def)
next
  case (ThreadFill pc)
  obtain pc' s1 where f: "fill_step pc s = (pc', s1)" by force
  then show ?thesis using thread_fill_inv [OF inv ThreadFill f] t ThreadFill by (simp add: thread_step_def)
qed

text \<open>Taking sectors out only makes room.\<close>

lemma drop_inv:
  assumes inv: "stream_inv disc s q" and n: "n \<le> StStreamed s" and g: "\<not> game_holds s"
    and ok: "game_ok ((ring_drop n s)\<lparr>game_pc := g'\<rparr>)" "case g' of ReadFill pc \<Rightarrow> \<not> holds pc | _ \<Rightarrow> True"
  shows "stream_inv disc ((ring_drop n s)\<lparr>game_pc := g'\<rparr>) (q + of_nat n)"
proof -
  let ?t = "ring_drop n s"
  have same: "StStat ?t = StStat s" "Stm0Callback ?t = Stm0Callback s" "stm_alarm ?t = stm_alarm s" "sync_flag ?t = sync_flag s"
    "rthread_sema ?t = rthread_sema s" "StIsReading ?t = StIsReading s" "cdread_lba ?t = cdread_lba s" "cdread_sectors ?t = cdread_sectors s"
    "cdread_buf ?t = cdread_buf s" "rthread_pc ?t = rthread_pc s" "Stlsn ?t = Stlsn s" "StBanksize ?t = StBanksize s"
    "thread_holds ?t = thread_holds s" "drive_holds ?t = drive_holds s" "bank_ready disc ?t = bank_ready disc s"
    by (simp_all add: ring_drop_def thread_holds_def drive_holds_def bank_ready_def)
  have sp: "space s \<Longrightarrow> space ?t" using n by (auto simp: space_def same)
  then have "thread_fill_ok s \<Longrightarrow> thread_fill_ok ?t"
    by (auto simp: thread_fill_ok_def fill_ok_def same split: rthread.splits fill_pc.splits)
  moreover have "(case g' of ReadFill pc \<Rightarrow> holds pc | _ \<Rightarrow> False) = False" using ok(2) by (simp split: st_read.splits)
  ultimately show ?thesis using inv ok(1) ring_take(2) [OF _ n] sp g by (auto simp: stream_inv_def lock_ok_def thread_ok_def same)
qed

lemma read_next_ok:
  assumes "read_ok sectors result todo" "int n \<le> todo"
  shows "game_ok (t\<lparr>game_pc := read_next sectors result todo ee mode n\<rparr>)"
    "case read_next sectors result todo ee mode n of ReadFill pc \<Rightarrow> \<not> holds pc | _ \<Rightarrow> True"
proof -
  have "read_ok sectors (result + n) (todo - int n)" using assms unfolding read_ok_def by linarith
  then show "game_ok (t\<lparr>game_pc := read_next sectors result todo ee mode n\<rparr>)" by (simp add: read_next_def game_ok_def fill_ok_def)
  show "case read_next sectors result todo ee mode n of ReadFill pc \<Rightarrow> \<not> holds pc | _ \<Rightarrow> True" by (simp add: read_next_def)
qed

lemma game_pc_inv:
  assumes inv: "stream_inv disc s q" and "\<not> game_holds s" and "game_ok (s\<lparr>game_pc := g'\<rparr>)" "case g' of ReadFill pc \<Rightarrow> \<not> holds pc | _ \<Rightarrow> True"
  shows "stream_inv disc (s\<lparr>game_pc := g'\<rparr>) q" "stream_inv disc (s\<lparr>intr_ef8 := b, game_pc := g'\<rparr>) q"
proof -
  have "(case g' of ReadFill pc \<Rightarrow> holds pc | _ \<Rightarrow> False) = False" using assms(4) by (simp split: st_read.splits)
  moreover have "game_ok (s\<lparr>intr_ef8 := b, game_pc := g'\<rparr>)" using assms(3) by (simp add: game_ok_def split: st_read.splits)
  ultimately show "stream_inv disc (s\<lparr>game_pc := g'\<rparr>) q" "stream_inv disc (s\<lparr>intr_ef8 := b, game_pc := g'\<rparr>) q"
    using inv assms(2,3) by (auto simp: stream_inv_def lock_ok_def thread_ok_def)
qed

lemma read_step_inv:
  assumes inv: "stream_inv disc s q" and t: "read_step s = Some (evs, s')"
  shows "\<exists>q'. spec_trace (st_spec disc) q evs = Some q' \<and> stream_inv disc s' q'"
proof (cases "game_pc s")
  case ReadIdle
  then show ?thesis using t by (simp add: read_step_def)
next
  case (ReadLoop sectors result todo ee mode)
  then have g: "\<not> game_holds s" "read_ok sectors result todo" using inv by (auto simp: game_holds_def stream_inv_def game_ok_def)
  show ?thesis using ReadLoop t g(2) game_pc_inv(1) [OF inv g(1)]
    by (auto simp: read_step_def game_ok_def fill_ok_def split: if_splits)
next
  case (ReadWoken sectors result todo ee mode)
  then have g: "\<not> game_holds s" "read_ok sectors result todo" using inv by (auto simp: game_holds_def stream_inv_def game_ok_def)
  then show ?thesis using ReadWoken t game_pc_inv(2) [OF inv g(1)] by (auto simp: read_step_def game_ok_def)
next
  case (ReadCopy sectors result todo ee mode)
  then have g: "\<not> game_holds s" "read_ok sectors result todo" and r: "ring_ok disc s q"
    using inv by (auto simp: game_holds_def stream_inv_def game_ok_def)
  have todo: "0 \<le> todo" using g(2) unfolding read_ok_def by linarith
  define n where "n = min (nat todo) (StStreamed s)"
  have n: "n \<le> StStreamed s" "int n \<le> todo" using todo by (auto simp: n_def)
  show ?thesis
  proof (cases ee)
    case True
    have "game_ok (s\<lparr>game_pc := ReadDma sectors result todo ee mode (segments (StBufmax s) (StReadPtr s) n) n ((StReadPtr s + n) mod StBufmax s)\<rparr>)"
      using g n by (simp add: game_ok_def)
    then show ?thesis using True t ReadCopy ReadSectorsEE_begin_ring [OF r todo n_def] game_pc_inv(1) [OF inv g(1)]
      by (auto simp: read_step_def)
  next
    case False
    then have "evs = [Delivered (sectors_from disc q n)]" "s' = (ring_drop n s)\<lparr>game_pc := read_next sectors result todo ee mode n\<rparr>"
      using t ReadCopy ReadSectors_ring [OF r todo] by (auto simp: read_step_def n_def)
    then show ?thesis using drop_inv [OF inv n(1) g(1) read_next_ok [OF g(2) n(2)]] by simp
  qed
next
  case (ReadDma sectors result todo ee mode dmat n rdptr)
  then have g: "\<not> game_holds s" "read_ok sectors result todo" "int n \<le> todo" "n \<le> StStreamed s"
    and d: "dmat = segments (StBufmax s) (StReadPtr s) n" "rdptr = (StReadPtr s + n) mod StBufmax s" and r: "ring_ok disc s q"
    using inv by (auto simp: game_holds_def stream_inv_def game_ok_def)
  have "ReadSectorsEE_end dmat n rdptr s = ring_drop n s" using ReadSectorsEE_end_ring [OF r g(4)] by (simp add: d)
  then have "evs = [Delivered (sectors_from disc q n)]" "s' = (ring_drop n s)\<lparr>game_pc := read_next sectors result todo ee mode n\<rparr>"
    using t ReadDma run_dma_segments [OF r g(4)] by (auto simp: read_step_def d(1))
  then show ?thesis using drop_inv [OF inv g(4,1) read_next_ok [OF g(2,3)]] by simp
next
  case (ReadFill pc)
  obtain pc' s1 where f: "fill_step pc s = (pc', s1)" by force
  then show ?thesis using game_fill_inv [OF inv ReadFill f] t ReadFill by (auto simp: read_step_def)
qed

lemma stream_step:
  assumes inv: "stream_inv disc s q" and n: "stream_next disc s act = Some (evs, s')"
  shows "\<exists>q'. spec_trace (st_spec disc) q evs = Some q' \<and> stream_inv disc s' q'"
proof (cases act)
  case (CallRead sectors ee mode)
  then have c: "game_pc s = ReadIdle" "unat sectors < 2 ^ 31" "evs = []" "s' = sceCdStRead sectors ee mode s"
    using n by (auto simp: stream_next_def cd_next_def split: if_splits)
  have "uint sectors < 2 ^ 31" using c(2) by (metis of_nat_less_iff of_nat_numeral of_nat_power unat_eq_nat_uint uint_nat)
  then have "sint sectors = int (unat sectors)" using signed_take_bit_int_eq_self [of 31 "uint sectors"] uint_ge_0 [of sectors] by (simp add: sint_uint)
  then have "game_ok (s\<lparr>game_pc := ReadLoop sectors 0 (sint sectors) ee mode\<rparr>)" by (simp add: game_ok_def read_ok_def)
  moreover have "\<not> game_holds s" using c(1) by (simp add: game_holds_def)
  ultimately show ?thesis using c(3,4) inv game_pc_inv(2) [OF inv, of "ReadLoop sectors 0 (sint sectors) ee mode" True]
    by (simp add: sceCdStRead_def stream_inv_def)
next
  case Game
  then show ?thesis using n read_step_inv [OF inv] by (simp add: stream_next_def cd_next_def)
next
  case Thread
  then show ?thesis using n thread_step_inv [OF inv] by (auto simp: stream_next_def cd_next_def)
next
  case Alarm
  then show ?thesis using n inv by (simp add: stream_next_def cd_next_def stream_inv_def)
qed (use n in \<open>simp_all add: stream_next_def\<close>)

interpretation stm: trace_refinement "stream_next disc" "st_spec disc" "stream_inv disc" for disc
  by unfold_locales (use stream_step in blast)

section \<open>Properties\<close>

fun delivered :: "'a st_event list \<Rightarrow> 'a list" where
  "delivered [] = []"
| "delivered (Delivered xs # tr) = xs @ delivered tr"
| "delivered (StFault e # tr) = delivered tr"

lemma st_spec_delivered:
  "spec_trace (st_spec disc) q tr = Some q' \<Longrightarrow>
     delivered tr = sectors_from disc q (length (delivered tr)) \<and> (\<forall>e. StFault e \<notin> set tr)"
proof (induction tr arbitrary: q)
  case (Cons e tr)
  then obtain xs where e: "e = Delivered xs" "xs = sectors_from disc q (length xs)"
    and "spec_trace (st_spec disc) (q + of_nat (length xs)) tr = Some q'"
    by (cases e) (auto split: if_splits)
  with Cons.IH show ?case using sectors_from_append [of disc q "length xs" "length (delivered tr)"] by auto
qed (simp add: sectors_from_def)

text \<open>The drive is idle and nobody is in the streaming code.\<close>

definition quiet :: "'a cd_sys \<Rightarrow> bool" where
  "quiet s \<longleftrightarrow> \<not> sync_flag s \<and> \<not> rthread_sema s \<and> \<not> StStat s \<and> game_pc s = ReadIdle \<and> rthread_pc s = ThreadWait"

lemma start_inv:
  assumes q: "quiet s0" and b: "0 < unat bankmax" "unat bankmax \<le> unat bufmax" "unat bufmax < 2 ^ 16"
    and l: "length iop_buf = unat (bufmax div bankmax) * unat bankmax"
  shows "\<exists>s. sceCdStStart lsn (sceCdStInit bufmax bankmax iop_buf s0) = Some s \<and> stream_inv disc s lsn"
proof -
  let ?n = "unat (bufmax div bankmax)" and ?k = "unat bankmax"
  have n: "?n = unat bufmax div ?k" by (rule unat_div_distrib)
  have "?n \<le> unat bufmax" unfolding n by simp
  then have n16: "?n < 2 ^ 16" "?k < 2 ^ 16" using b by auto
  have n0: "0 < ?n" unfolding n using b by (simp add: div_greater_zero_iff)
  have "?n * ?k \<le> unat bufmax" unfolding n by simp
  then have B: "?n * ?k < 2 ^ 16" using b by auto
  have "cut16 (int ?n * int ?k) = ?n * ?k" using cut16_int [OF B] unfolding of_nat_mult .
  then have c: "cut16 (uint (bufmax div bankmax)) = ?n" "cut16 (uint bankmax) = ?k" "cut16 (int ?n * int ?k) = ?n * ?k"
    using cut16_int [OF n16(1)] cut16_int [OF n16(2)] by simp_all
  let ?i = "sceCdStInit bufmax bankmax iop_buf s0"
  have i: "?i = s0\<lparr>stm_alarm := False, StBankmax := ?k, StBanksize := ?n, StBufmax := ?n * ?k, st_ring := iop_buf,
      StWritePtr := 0, StReadPtr := 0, StStreamed := 0, StIsReading := False\<rparr>"
    unfolding sceCdStInit_def Let_def c StReset_def by simp
  let ?s = "(?i\<lparr>Stlsn := lsn, StStat := True, Stm0Callback := True, StIsReading := True\<rparr>)
    \<lparr>sync_flag := True, cdread_lba := lsn, cdread_sectors := ?n, cdread_buf := Bank 0, rthread_sema := True\<rparr>"
  have "?n \<le> ?n * ?k" using b(1) by simp
  then have "sceCdStStart lsn ?i = Some ?s"
    using q unfolding i by (simp add: sceCdStStart_def sceCdStStop_def quiet_def StReset_def StStartFillStreamBuffer_def numeral_eq_Suc
        fill_step_def AllocBank_def cdvdman_AsyncRead_def cdvdman_common_lock_def flip: of_nat_mult)
  moreover have "ring_ok disc ?s lsn" using n0 b(1) B l unfolding i by (simp add: ring_ok_def)
  then have "stream_inv disc ?s lsn" using q \<open>?n \<le> ?n * ?k\<close> unfolding i
    by (simp add: stream_defs quiet_def thread_fill_ok_def space_def)
  ultimately show ?thesis by blast
qed

text \<open>C4: as long as the stream is the only user of the drive and the device delivers every sector it is asked for, streaming
  delivers the sectors of the disc, from the start sector on, each once and in order, however the game's
  calls of \<open>sceCdStRead\<close> (each for less than \<open>2 ^ 31\<close> sectors), the reading thread and the alarm are interleaved, in whatever
  portions the game takes them and whichever of the two copies it uses, and never reads or writes outside its ring
  buffer.  The stream starts on a drive with no read in progress, in a buffer of below 65536 sectors that has
  room for whole banks of at least one sector.  Reads of other threads and errors of the device are not part of this
  claim: a read of another thread can make the stream deliver a stale sector.\<close>

theorem stream_delivers:
  assumes "quiet s0" "0 < unat bankmax" "unat bankmax \<le> unat bufmax" "unat bufmax < 2 ^ 16"
    and "length iop_buf = unat (bufmax div bankmax) * unat bankmax"
  shows "\<exists>s. sceCdStStart lsn (sceCdStInit bufmax bankmax iop_buf s0) = Some s \<and>
    (\<forall>tr s'. runs (stream_next disc) s tr s' \<longrightarrow>
       delivered tr = sectors_from disc lsn (length (delivered tr)) \<and> (\<forall>e. StFault e \<notin> set tr))"
proof -
  obtain s where s: "sceCdStStart lsn (sceCdStInit bufmax bankmax iop_buf s0) = Some s" "stream_inv disc s lsn"
    using start_inv [OF assms] by blast
  have "delivered tr = sectors_from disc lsn (length (delivered tr)) \<and> (\<forall>e. StFault e \<notin> set tr)"
    if "runs (stream_next disc) s tr s'" for tr s'
    using stm.run_sim [OF that s(2)] st_spec_delivered by blast
  with s(1) show ?thesis by blast
qed

definition idle_drive :: "u32 cd_sys" where
  "idle_drive = \<lparr>StBufmax = 0, StBankmax = 0, StBanksize = 0, StWritePtr = 0, StReadPtr = 0, StStreamed = 0, StStat = False,
     StIsReading = False, Stlsn = 0, st_ring = [], sync_flag = False, cdread_lba = 0, cdread_sectors = 0, cdread_buf = Elsewhere,
     rthread_sema = False, Stm0Callback = False, stm_alarm = False, intr_ef8 = False, game_pc = ReadIdle, rthread_pc = ThreadWait\<rparr>"

theorem stream_delivers_witness:
  "\<exists>s. sceCdStStart 16 (sceCdStInit 4 2 [0, 0, 0, 0] idle_drive) = Some s \<and>
    (\<forall>tr s'. runs (stream_next (\<lambda>l. l)) s tr s' \<longrightarrow> delivered tr = sectors_from (\<lambda>l. l) 16 (length (delivered tr)))"
proof -
  have "length [0, 0, 0, 0 :: u32] = unat (4 div 2 :: u32) * unat (2 :: u32)" by code_simp
  then show ?thesis using stream_delivers [of idle_drive 2 4 "[0, 0, 0, 0]" 16 "\<lambda>l. l"] by (simp add: quiet_def idle_drive_def) blast
qed

text \<open>The game's thread empties the ring into its buffer, in one step or, to the memory of the other processor, in two.\<close>

definition copy_acts :: "bool \<Rightarrow> cd_act list" where
  "copy_acts ee = (if ee then [Game, Game] else [Game])"

lemma copy_all:
  assumes "ring_ok disc s q" "game_pc s = ReadCopy sectors result todo ee True" "int (StStreamed s) \<le> todo"
  shows "run_acts (cd_next disc) s (copy_acts ee) =
    Some ([Delivered (sectors_from disc q (StStreamed s))],
      (ring_drop (StStreamed s) s)\<lparr>game_pc := ReadLoop sectors (result + StStreamed s) (todo - int (StStreamed s)) ee True\<rparr>)"
proof (cases ee)
  case True
  let ?n = "StStreamed s"
  let ?dma = "ReadDma sectors result todo True True (segments (StBufmax s) (StReadPtr s) ?n) ?n ((StReadPtr s + ?n) mod StBufmax s)"
  have n: "?n = min (nat todo) ?n" "0 \<le> todo" using assms(3) by auto
  have ok: "ring_ok disc (s\<lparr>game_pc := ?dma\<rparr>) q" using assms(1) by simp
  show ?thesis
    using assms(2) True ReadSectorsEE_begin_ring [OF assms(1) n(2,1)] run_dma_segments [OF assms(1), of ?n] ReadSectorsEE_end_ring [OF ok, of ?n]
    by (simp add: copy_acts_def cd_next_def read_step_def read_next_def ring_drop_def)
next
  case False
  have "min (nat todo) (StStreamed s) = StStreamed s" "0 \<le> todo" using assms(3) by auto
  then show ?thesis using assms(2) False ReadSectors_ring [OF assms(1), of todo]
    by (simp add: copy_acts_def cd_next_def read_step_def read_next_def)
qed

text \<open>C40: a game that waits for more sectors (below \<open>2 ^ 31\<close>) than the ring holds, while the ring has no room for another bank, the reading thread
  is idle and the stream is in order, gets the sectors of the ring and then is stuck, whichever of the two copies it uses: the
  loop of \<open>sceCdStRead\<close> only refills the ring after it has ended, so that neither the game's call nor the reading thread nor an
  alarm can go on.  Only a read that another thread of the game makes can still happen.\<close>

theorem stream_read_hangs:
  assumes "stream_inv disc s q" "\<not> space s" "game_pc s = ReadIdle" "rthread_pc s = ThreadWait"
    and "StStreamed s < unat sectors" "unat sectors < 2 ^ 31"
  shows "\<exists>s'. run_acts (cd_next disc) s ([CallRead sectors ee True, Game, Game] @ copy_acts ee) =
      Some ([Delivered (sectors_from disc q (StStreamed s))], s') \<and>
    (\<forall>act. (\<forall>lsn n. act \<noteq> OtherRead lsn n) \<longrightarrow> cd_next disc s' act = None)"
proof -
  have r: "ring_ok disc s q" and stat: "StStat s" "\<not> stm_alarm s" and d: "\<not> rthread_sema s"
    using assms(1,2,4) by (auto simp: inv_defs drive_holds_def)
  have "uint sectors < 2 ^ 31" using assms(6) by (metis of_nat_less_iff of_nat_numeral of_nat_power unat_eq_nat_uint uint_nat)
  then have si: "sint sectors = int (unat sectors)"
    using signed_take_bit_int_eq_self [of 31 "uint sectors"] uint_ge_0 [of sectors] by (simp add: sint_uint)
  let ?s1 = "s\<lparr>intr_ef8 := False, game_pc := ReadCopy sectors 0 (sint sectors) ee True\<rparr>"
  let ?s2 = "(ring_drop (StStreamed s) ?s1)\<lparr>game_pc := ReadLoop sectors (StStreamed s) (sint sectors - int (StStreamed s)) ee True\<rparr>"
  have "0 < unat sectors" using assms(5) by simp
  moreover have "run_acts (cd_next disc) ?s1 (copy_acts ee) = Some ([Delivered (sectors_from disc q (StStreamed s))], ?s2)"
  proof -
    have "int (StStreamed s) \<le> sint sectors" using si assms(5) by linarith
    then show ?thesis using copy_all [of disc ?s1 q sectors 0 "sint sectors" ee] r by simp
  qed
  ultimately have "run_acts (cd_next disc) s ([CallRead sectors ee True, Game, Game] @ copy_acts ee) =
      Some ([Delivered (sectors_from disc q (StStreamed s))], ?s2)"
    using assms(3) stat by (simp add: cd_next_def sceCdStRead_def read_step_def)
  moreover have "cd_next disc ?s2 act = None" if "\<forall>lsn n. act \<noteq> OtherRead lsn n" for act
    using stat d assms(4,5) that by (cases act) (simp_all add: cd_next_def read_step_def thread_step_def ring_drop_def)
  ultimately show ?thesis by blast
qed

text \<open>A small stream whose ring of two banks of one sector has been filled.\<close>

definition full_stream :: "u32 cd_sys" where
  "full_stream = idle_drive\<lparr>StBufmax := 2, StBankmax := 2, StBanksize := 1, StStreamed := 2, StStat := True, Stlsn := 2,
     st_ring := [0, 1], Stm0Callback := True\<rparr>"

lemma full_stream_inv: "stream_inv (\<lambda>l. l) full_stream 0"
  by (simp add: stream_defs thread_fill_ok_def full_stream_def idle_drive_def ring_ok_def less_2_cases_iff)

theorem stream_read_hangs_witness:
  "\<exists>s'. run_acts (cd_next (\<lambda>l. l)) full_stream ([CallRead 3 True True, Game, Game] @ copy_acts True) = Some ([Delivered [0, 1]], s') \<and>
     (\<forall>act. (\<forall>lsn n. act \<noteq> OtherRead lsn n) \<longrightarrow> cd_next (\<lambda>l. l) s' act = None)"
proof -
  have "sectors_from (\<lambda>l. l) 0 (StStreamed full_stream) = [0, 1]" by (simp add: sectors_from_def full_stream_def upt_rec)
  moreover have "\<not> space full_stream" "game_pc full_stream = ReadIdle" "rthread_pc full_stream = ThreadWait"
    "StStreamed full_stream < unat (3 :: u32)" "unat (3 :: u32) < 2 ^ 31"
    by (simp_all add: full_stream_def idle_drive_def space_def)
  ultimately show ?thesis using stream_read_hangs [OF full_stream_inv, of 3 True] by metis
qed

text \<open>A read of another thread that ends while the game's thread is between the two critical sections of its refill.\<close>

definition race_acts :: "cd_act list" where
  "race_acts = [CallRead 1 False True, Game, Game, Game, Game, OtherRead 99 1, Game, Thread, Thread, Thread, Thread, Thread,
     Game, CallRead 2 False True, Game, Game, Game]"

text \<open>When another thread of the game reads from the disc and its read ends between the two critical sections of a
  refill, the callback takes it for the refill: the stream delivers a sector of an earlier round instead of the next
  one.\<close>

theorem stream_race:
  "\<exists>tr s'. runs (cd_next (\<lambda>l. l)) full_stream tr s' \<and> delivered tr = [0, 1, 0]"
proof -
  have "\<exists>tr s'. run_acts (cd_next (\<lambda>l. l)) full_stream race_acts = Some (tr, s') \<and> delivered tr = [0, 1, 0]"
    by (simp add: race_acts_def full_stream_def idle_drive_def cd_next_def sceCdStRead_def read_step_def ReadSectors_def copy_out_def copy_count_def
        cut16_def mem_read_def wrap_ptr_def read_next_def fill_step_def AllocBank_def cdvdman_AsyncRead_def cdvdman_common_lock_def
        thread_step_def write_sectors_def cdvdman_signal_read_end_def StmCallback_update_def Let_def c_bind_def)
  then obtain tr s' where run: "run_acts (cd_next (\<lambda>l. l)) full_stream race_acts = Some (tr, s')" "delivered tr = [0, 1, 0]" by blast
  show ?thesis using run_actsD [OF run(1)] run(2) by blast
qed

end
