(* ===== verification/CdDevice.thy ===== *)
theory CdDevice
  imports CPrelude
begin

text \<open>
  The devices below the in-game disc driver: a game in the partitions of the hard disk
  (\<open>modules/iopcore/cdvdman/device-hdd.c\<close>) and a game on a network share, whole or split into parts
  (\<open>device-smb.c\<close>, with the file access of \<open>smb.c\<close>).  Both implement \<open>DeviceReadSectors\<close>, which reads disc
  sectors of 2048 bytes.  The disk controller and the file server are parameters.  The buffer a read fills
  is the list of the bytes written so far.
\<close>

datatype cd_err = SCECdErNO | SCECdErTRMOPN | SCECdErREAD | SCECdErEOM | SCECdErIPI

section \<open>Hard disk\<close>

record hdl_partspecs =
  part_offset :: u32
  data_start :: u32
  part_size :: u32

definition in_part :: "hdl_partspecs \<Rightarrow> u32 \<Rightarrow> bool" where
  "in_part p lsn \<longleftrightarrow> part_offset p \<le> lsn \<and> lsn < part_offset p + part_size p div 2048"

text \<open>The index of the first part that holds a sector.\<close>

fun cdvdman_get_part_specs :: "hdl_partspecs list \<Rightarrow> nat \<Rightarrow> nat \<Rightarrow> u32 \<Rightarrow> (nat option) cres" where
  "cdvdman_get_part_specs ps i 0 lsn = Inr None"
| "cdvdman_get_part_specs ps i (Suc n) lsn =
     c_bind (peek ps i) (\<lambda>p. if in_part p lsn then Inr (Some i) else cdvdman_get_part_specs ps (i + 1) n lsn)"

text \<open>\<open>xfer\<close> is the transfer of disk sectors by the controller, \<open>None\<close> an error.  The state is \<open>CurrentPart\<close>.\<close>

definition hdd_part :: "hdl_partspecs list \<Rightarrow> nat \<Rightarrow> nat \<Rightarrow> u32 \<Rightarrow> (nat option) cres" where
  "hdd_part ps NumParts cur lsn =
     c_bind (peek ps cur) (\<lambda>p. if in_part p lsn then Inr (Some cur) else cdvdman_get_part_specs ps 0 NumParts lsn)"

definition hdd_count :: "hdl_partspecs \<Rightarrow> u32 \<Rightarrow> u32 \<Rightarrow> u32" where
  "hdd_count p lsn sectors = (let nsectors = (part_offset p + part_size p div 2048) - lsn in if sectors < nsectors then sectors else nsectors)"

partial_function (option) DeviceReadSectors_hdd ::
  "(u32 \<Rightarrow> u32 \<Rightarrow> u8 list option) \<Rightarrow> hdl_partspecs list \<Rightarrow> nat \<Rightarrow> nat \<Rightarrow> u8 list \<Rightarrow> u32 \<Rightarrow> u32 \<Rightarrow> ((cd_err \<times> nat \<times> u8 list) cres) option" where
  "DeviceReadSectors_hdd xfer ps NumParts cur buffer lsn sectors =
     (if sectors = 0 then Some (Inr (SCECdErNO, cur, buffer))
      else case hdd_part ps NumParts cur lsn of
        Inl e \<Rightarrow> Some (Inl e)
      | Inr None \<Rightarrow> Some (Inr (SCECdErTRMOPN, cur, buffer))
      | Inr (Some cur') \<Rightarrow>
          (case peek ps cur' of
             Inl e \<Rightarrow> Some (Inl e)
           | Inr p \<Rightarrow>
               let nsectors = hdd_count p lsn sectors
               in (case xfer (data_start p + (lsn - part_offset p) * 4) (nsectors * 4) of
                     None \<Rightarrow> Some (Inr (SCECdErREAD, cur', buffer))
                   | Some d \<Rightarrow> DeviceReadSectors_hdd xfer ps NumParts cur' (buffer @ d) (lsn + nsectors) (sectors - nsectors))))"

section \<open>Network share\<close>

abbreviation CLIENT_MAX_RECV_SIZE :: int where "CLIENT_MAX_RECV_SIZE \<equiv> 8192"

text \<open>\<open>srv fid low high n\<close> is what \<open>smb_ReadAndX\<close> returns: the bytes it stored and its result, not positive for
  an error.  The loop is left with the semaphore taken when a read fails.\<close>

type_synonym smb_server = "u16 \<Rightarrow> u32 \<Rightarrow> u32 \<Rightarrow> int \<Rightarrow> int \<times> u8 list"

partial_function (option) smb_read_loop ::
  "smb_server \<Rightarrow> u16 \<Rightarrow> u32 \<Rightarrow> u32 \<Rightarrow> int \<Rightarrow> u8 list \<Rightarrow> (int option \<times> u8 list) option" where
  "smb_read_loop srv fid low high remaining buf =
     (if remaining > 0 then
        let toRead = (if remaining > CLIENT_MAX_RECV_SIZE then CLIENT_MAX_RECV_SIZE else remaining)
        in (case srv fid low high toRead of
              (result, d) \<Rightarrow>
                if result \<le> 0 then Some (Some result, buf @ d)
                else smb_read_loop srv fid (low + word_of_int result) (if low + word_of_int result < low then high + 1 else high)
                  (remaining - result) (buf @ d))
      else Some (None, buf))"

text \<open>The result: the value returned, the semaphore and the bytes; \<open>None\<close> is a call that waits for ever.\<close>

definition smb_ReadFile :: "smb_server \<Rightarrow> bool \<Rightarrow> u16 \<Rightarrow> u32 \<Rightarrow> u32 \<Rightarrow> int \<Rightarrow> (int \<times> bool \<times> u8 list) option" where
  "smb_ReadFile srv sema fid offsetlow offsethigh nbytes =
     (if \<not> sema then None
      else map_option (\<lambda>(r, d). case r of Some result \<Rightarrow> (result, False, d) | None \<Rightarrow> (nbytes, True, d))
             (smb_read_loop srv fid offsetlow offsethigh nbytes []))"

definition smb_ReadCD :: "smb_server \<Rightarrow> u16 list \<Rightarrow> bool \<Rightarrow> u32 \<Rightarrow> u32 \<Rightarrow> nat \<Rightarrow> ((int \<times> bool \<times> u8 list) cres) option" where
  "smb_ReadCD srv FIDs sema lsn nsectors part_num =
     (case peek FIDs part_num of
        Inl e \<Rightarrow> Some (Inl e)
      | Inr fid \<Rightarrow> map_option Inr (smb_ReadFile srv sema fid (lsn * 2048) (drop_bit 21 lsn) (sint (nsectors * 2048))))"

record smb_loop =
  sl_lsn :: u32
  sl_sectors :: u32
  sl_to_read :: u32
  sl_nlsn :: u32
  sl_offslsn :: u32
  sl_lbound :: u32
  sl_ubound :: u32

text \<open>One pass over part \<open>i\<close>: whether the part holds the sector, how much is read from it, whether it is the last.\<close>

definition smb_in_part :: "smb_loop \<Rightarrow> bool" where
  "smb_in_part l \<longleftrightarrow> sl_lbound l \<le> sl_lsn l \<and> sl_lsn l < sl_ubound l"

definition smb_split :: "smb_loop \<Rightarrow> bool \<times> smb_loop" where
  "smb_split l =
     (if sl_lsn l + sl_sectors l > sl_ubound l - 1 then
        let n = sl_ubound l - sl_lsn l in (False, l\<lparr>sl_to_read := n, sl_sectors := sl_sectors l - n, sl_nlsn := sl_ubound l\<rparr>)
      else (True, l))"

definition smb_advance :: "smb_loop \<Rightarrow> smb_loop" where
  "smb_advance l =
     l\<lparr>sl_lbound := sl_ubound l, sl_ubound := sl_ubound l + 0x80000, sl_offslsn := sl_offslsn l - 0x80000\<rparr>"

fun smb_parts ::
  "smb_server \<Rightarrow> u16 list \<Rightarrow> bool \<Rightarrow> smb_loop \<Rightarrow> u8 list \<Rightarrow> nat \<Rightarrow> nat \<Rightarrow> ((cd_err \<times> bool \<times> u8 list) cres) option" where
  "smb_parts srv FIDs sema l buf i 0 = Some (Inr (SCECdErNO, sema, buf))"
| "smb_parts srv FIDs sema l buf i (Suc n) =
     (if smb_in_part l then
        (case smb_split l of
           (esc, l1) \<Rightarrow>
             (case smb_ReadCD srv FIDs sema (sl_offslsn l1) (sl_to_read l1) i of
                None \<Rightarrow> None
              | Some (Inl e) \<Rightarrow> Some (Inl e)
              | Some (Inr (result, sema1, d)) \<Rightarrow>
                  if result \<le> 0 then Some (Inr (SCECdErREAD, sema1, buf @ d))
                  else
                    let l2 = l1\<lparr>sl_offslsn := sl_offslsn l1 + sl_to_read l1, sl_to_read := sl_sectors l1, sl_lsn := sl_nlsn l1\<rparr>
                    in if esc then Some (Inr (SCECdErNO, sema1, buf @ d))
                       else smb_parts srv FIDs sema1 (smb_advance l2) (buf @ d) (i + 1) n))
      else smb_parts srv FIDs sema (smb_advance l) buf (i + 1) n)"

definition DeviceReadSectors_smb ::
  "smb_server \<Rightarrow> u16 list \<Rightarrow> u8 \<Rightarrow> bool \<Rightarrow> u32 \<Rightarrow> u32 \<Rightarrow> ((cd_err \<times> bool \<times> u8 list) cres) option" where
  "DeviceReadSectors_smb srv FIDs NumParts sema lsn sectors =
     smb_parts srv FIDs sema
       \<lparr>sl_lsn = lsn, sl_sectors = sectors, sl_to_read = sectors, sl_nlsn = 0, sl_offslsn = lsn, sl_lbound = 0,
        sl_ubound = (if NumParts > 1 then 0x80000 else 0xFFFFFFFF)\<rparr> [] 0 (unat NumParts)"

section \<open>The hard disk delivers the image\<close>

text \<open>The image: each disc sector is four disk sectors of the part that holds it.\<close>

definition hdd_sector :: "(u32 \<Rightarrow> u8 list) \<Rightarrow> hdl_partspecs list \<Rightarrow> u32 \<Rightarrow> u8 list" where
  "hdd_sector disk ps l =
     (case find (\<lambda>p. in_part p l) ps of
        None \<Rightarrow> []
      | Some p \<Rightarrow> concat (map (\<lambda>j. disk (data_start p + (l - part_offset p) * 4 + of_nat j)) [0..<4]))"

text \<open>No sector is in two parts, and no part wraps around.\<close>

definition parts_ok :: "hdl_partspecs list \<Rightarrow> bool" where
  "parts_ok ps \<longleftrightarrow> (\<forall>p \<in> set ps. unat (part_offset p) + unat (part_size p) div 2048 < 2 ^ 32) \<and>
     (\<forall>p \<in> set ps. \<forall>q \<in> set ps. \<forall>l. in_part p l \<longrightarrow> in_part q l \<longrightarrow> p = q)"

definition xfer_ok :: "(u32 \<Rightarrow> u8 list) \<Rightarrow> (u32 \<Rightarrow> u32 \<Rightarrow> u8 list option) \<Rightarrow> bool" where
  "xfer_ok disk xfer \<longleftrightarrow> (\<forall>lba n. xfer lba n = Some (concat (map (\<lambda>k. disk (lba + of_nat k)) [0..<unat n])))"

lemma concat_by_4:
  "concat (map f [0..<4 * n]) = concat (map (\<lambda>k. concat (map (\<lambda>j. f (4 * k + j)) [0..<4])) [0..<n])"
proof (induction n)
  case (Suc n)
  have "map f [4 * n..<4 * n + 4] = map (\<lambda>j. f (4 * n + j)) [0..<4]" by (rule nth_equalityI) auto
  moreover have "[0..<4 * Suc n] = [0..<4 * n] @ [4 * n..<4 * n + 4]" using upt_add_eq_append [of 0 "4 * n" 4] by (simp add: add.commute)
  ultimately show ?case using Suc by simp
qed simp

lemma get_part_found:
  "i + n = length ps \<Longrightarrow> i \<le> k \<Longrightarrow> k < length ps \<Longrightarrow> in_part (ps ! k) lsn \<Longrightarrow>
     \<exists>c < length ps. cdvdman_get_part_specs ps i n lsn = Inr (Some c) \<and> in_part (ps ! c) lsn"
proof (induction n arbitrary: i)
  case (Suc n)
  show ?case
  proof (cases "in_part (ps ! i) lsn")
    case True
    with Suc.prems show ?thesis by (auto simp: peek_def)
  next
    case False
    then have "i + 1 \<le> k" using Suc.prems by (metis Suc_eq_plus1 Suc_leI le_neq_implies_less)
    with Suc.IH [of "i + 1"] Suc.prems False show ?thesis by (auto simp: peek_def)
  qed
qed simp

lemma get_part_none:
  "i + n = length ps \<Longrightarrow> \<forall>p \<in> set ps. \<not> in_part p lsn \<Longrightarrow> cdvdman_get_part_specs ps i n lsn = Inr None"
  by (induction n arbitrary: i) (auto simp: peek_def)

lemma hdd_part_found:
  assumes "cur < length ps" "k < length ps" "in_part (ps ! k) lsn"
  obtains cur' where "hdd_part ps (length ps) cur lsn = Inr (Some cur')" "cur' < length ps" "in_part (ps ! cur') lsn"
proof (cases "in_part (ps ! cur) lsn")
  case True
  with assms show ?thesis by (intro that [of cur]) (simp_all add: hdd_part_def peek_def)
next
  case False
  obtain c where "c < length ps" "cdvdman_get_part_specs ps 0 (length ps) lsn = Inr (Some c)" "in_part (ps ! c) lsn"
    using get_part_found [OF _ _ assms(2,3), of 0 "length ps"] by auto
  with False assms(1) show ?thesis by (intro that [of c]) (simp_all add: hdd_part_def peek_def)
qed

lemma find_in_part:
  assumes "parts_ok ps" "p \<in> set ps" "in_part p l"
  shows "find (\<lambda>p. in_part p l) ps = Some p"
proof -
  obtain q where q: "find (\<lambda>p. in_part p l) ps = Some q" using assms(2,3) by (cases "find (\<lambda>p. in_part p l) ps") (auto simp: find_None_iff)
  then have "q \<in> set ps" "in_part q l" by (auto simp: find_Some_iff)
  with q assms show ?thesis by (auto simp: parts_ok_def)
qed

text \<open>The sectors counted for one transfer all are in the part.\<close>

lemma hdd_count_ok:
  assumes "parts_ok ps" "p \<in> set ps" "in_part p lsn" "0 < sectors"
  shows "0 < unat (hdd_count p lsn sectors)" "unat (hdd_count p lsn sectors) \<le> unat sectors"
    "k < unat (hdd_count p lsn sectors) \<Longrightarrow> in_part p (lsn + of_nat k)"
    "k < unat (hdd_count p lsn sectors) \<Longrightarrow> (lsn + of_nat k - part_offset p) * 4 = (lsn - part_offset p) * 4 + of_nat (4 * k)"
proof -
  have e: "unat (part_offset p + part_size p div 2048) = unat (part_offset p) + unat (part_size p) div 2048"
    using assms(1,2) u32_unat_add [of "part_offset p" "part_size p div 2048"] by (auto simp: parts_ok_def unat_div_distrib)
  let ?e = "part_offset p + part_size p div 2048"
  have l: "unat (part_offset p) \<le> unat lsn" "unat lsn < unat ?e" using assms(3) by (simp_all add: in_part_def word_le_nat_alt word_less_nat_alt)
  have d: "unat (?e - lsn) = unat ?e - unat lsn" using l by (intro unat_sub) (simp add: word_le_nat_alt)
  have c: "unat (hdd_count p lsn sectors) = min (unat sectors) (unat ?e - unat lsn)"
    using d by (auto simp: hdd_count_def Let_def word_less_nat_alt min_def)
  show "0 < unat (hdd_count p lsn sectors)" "unat (hdd_count p lsn sectors) \<le> unat sectors" using c l assms(4) by (auto simp: word_gt_0_no unat_gt_0)
  assume k: "k < unat (hdd_count p lsn sectors)"
  then have "unat lsn + k < unat ?e" using c by (auto simp: less_diff_conv add.commute)
  moreover have "unat (lsn + of_nat k) = unat lsn + k"
    using calculation u32_unat_less [of ?e] by (simp add: unat_word_ariths unsigned_of_nat take_bit_eq_mod)
  ultimately show "in_part p (lsn + of_nat k)" using l by (simp add: in_part_def word_le_nat_alt word_less_nat_alt)
  show "(lsn + of_nat k - part_offset p) * 4 = (lsn - part_offset p) * 4 + of_nat (4 * k)" by (simp add: algebra_simps)
qed

lemma hdd_transfer:
  assumes "parts_ok ps" "p \<in> set ps" "in_part p lsn" "0 < sectors" "xfer_ok disk xfer" "unat sectors < 2 ^ 30"
  defines "n \<equiv> hdd_count p lsn sectors"
  shows "xfer (data_start p + (lsn - part_offset p) * 4) (n * 4) =
    Some (concat (map (\<lambda>k. hdd_sector disk ps (lsn + of_nat k)) [0..<unat n]))"
proof -
  note c = hdd_count_ok [OF assms(1-4), folded n_def]
  let ?b = "data_start p + (lsn - part_offset p) * 4"
  have n4: "unat (n * 4) = 4 * unat n" using c(2) assms(6) u32_unat_mult [of n 4] by simp
  have "concat (map (\<lambda>j. disk (?b + of_nat (4 * k + j))) [0..<4]) = hdd_sector disk ps (lsn + of_nat k)" if "k < unat n" for k
    using find_in_part [OF assms(1,2) c(3) [OF that]] c(4) [OF that] by (simp add: hdd_sector_def algebra_simps)
  then have "concat (map (\<lambda>k. disk (?b + of_nat k)) [0..<4 * unat n]) = concat (map (\<lambda>k. hdd_sector disk ps (lsn + of_nat k)) [0..<unat n])"
    unfolding concat_by_4 by (intro arg_cong [of _ _ concat] map_cong) auto
  with assms(5) show ?thesis by (simp add: xfer_ok_def n4)
qed

text \<open>A controller whose transfers fail or deliver what is on the disk.\<close>

definition xfer_sound :: "(u32 \<Rightarrow> u8 list) \<Rightarrow> (u32 \<Rightarrow> u32 \<Rightarrow> u8 list option) \<Rightarrow> bool" where
  "xfer_sound disk xfer \<longleftrightarrow> (\<forall>lba n. xfer lba n \<in> {None, Some (concat (map (\<lambda>k. disk (lba + of_nat k)) [0..<unat n]))})"

lemma hdd_reads_sound:
  assumes "parts_ok ps" "xfer_sound disk xfer"
  shows "cur < length ps \<Longrightarrow> unat sectors < 2 ^ 30 \<Longrightarrow> q \<le> unat sectors \<Longrightarrow> \<forall>k < q. \<exists>p \<in> set ps. in_part p (lsn + of_nat k) \<Longrightarrow>
    (q < unat sectors \<longrightarrow> (\<forall>p \<in> set ps. \<not> in_part p (lsn + of_nat q))) \<Longrightarrow>
    \<exists>e cur' n. cur' < length ps \<and> DeviceReadSectors_hdd xfer ps (length ps) cur buffer lsn sectors =
      Some (Inr (e, cur', buffer @ concat (map (\<lambda>k. hdd_sector disk ps (lsn + of_nat k)) [0..<n]))) \<and>
      (n = q \<and> e = (if q = unat sectors then SCECdErNO else SCECdErTRMOPN) \<or> n < q \<and> e = SCECdErREAD \<and> (\<exists>lba m. xfer lba m = None))"
proof (induction "unat sectors" arbitrary: sectors cur buffer lsn q rule: less_induct)
  case less
  consider "sectors = 0" | "sectors \<noteq> 0" "q = 0" | "sectors \<noteq> 0" "0 < q" by blast
  then show ?case
  proof cases
    case 1
    then show ?thesis using less.prems(1,3) by (subst DeviceReadSectors_hdd.simps) auto
  next
    case 2
    then have pos: "0 < unat sectors" by (simp add: unat_gt_0)
    then have "\<forall>p \<in> set ps. \<not> in_part p lsn" using less.prems(5) 2 by simp
    then show ?thesis using less.prems(1) 2 pos get_part_none [of 0 "length ps" ps lsn]
      by (subst DeviceReadSectors_hdd.simps) (auto simp: hdd_part_def peek_def)
  next
    case 3
    then have pos: "0 < sectors" by (simp add: word_gt_0)
    from less.prems(4) [rule_format, OF 3(2)] obtain k where k: "k < length ps" "in_part (ps ! k) lsn" by (auto simp: in_set_conv_nth)
    obtain cur' where c: "hdd_part ps (length ps) cur lsn = Inr (Some cur')" "cur' < length ps" "in_part (ps ! cur') lsn"
      using hdd_part_found [OF less.prems(1) k] by blast
    define p where "p = ps ! cur'"
    define n where "n = hdd_count p lsn sectors"
    let ?l = "data_start p + (lsn - part_offset p) * 4" and ?f = "\<lambda>k. hdd_sector disk ps (lsn + of_nat k)"
    have p: "p \<in> set ps" "in_part p lsn" "peek ps cur' = Inr p" using c by (simp_all add: p_def peek_def)
    note step = DeviceReadSectors_hdd.simps [of xfer ps "length ps" cur buffer lsn sectors]
    show ?thesis
    proof (cases "xfer ?l (n * 4)")
      case None
      then have "DeviceReadSectors_hdd xfer ps (length ps) cur buffer lsn sectors = Some (Inr (SCECdErREAD, cur', buffer))"
        using 3 c p by (simp add: step n_def)
      then show ?thesis using c(2) 3(2) None by (intro exI [of _ SCECdErREAD] exI [of _ cur'] exI [of _ 0]) auto
    next
      case (Some d)
      note cnt = hdd_count_ok [OF assms(1) p(1,2) pos, folded n_def]
      have nq: "unat n \<le> q"
      proof (rule ccontr)
        assume "\<not> unat n \<le> q"
        then have "in_part p (lsn + of_nat q)" "q < unat sectors" using cnt(3) [of q] cnt(2) by simp_all
        then show False using less.prems(5) p(1) by blast
      qed
      let ?ideal = "\<lambda>lba n. Some (concat (map (\<lambda>k. disk (lba + of_nat k)) [0..<unat n]))"
      have "?ideal ?l (n * 4) = Some (concat (map ?f [0..<unat n]))"
        unfolding n_def by (rule hdd_transfer [OF assms(1) p(1,2) pos _ less.prems(2), of disk ?ideal]) (simp add: xfer_ok_def)
      moreover have "xfer ?l (n * 4) \<in> {None, ?ideal ?l (n * 4)}" using assms(2) unfolding xfer_sound_def by blast
      ultimately have x: "xfer ?l (n * 4) = Some (concat (map ?f [0..<unat n]))" using Some by auto
      have d: "unat (sectors - n) = unat sectors - unat n" using cnt(2) by (intro unat_sub) (simp add: word_le_nat_alt)
      have shift: "lsn + n + of_nat k = lsn + of_nat (unat n + k)" for k by (simp add: add.assoc)
      have pre: "\<forall>k < q - unat n. \<exists>p \<in> set ps. in_part p (lsn + n + of_nat k)"
        using less.prems(4) unfolding shift by (simp add: less_diff_conv2 nq del: of_nat_add)
      have none: "q - unat n < unat (sectors - n) \<longrightarrow> (\<forall>p \<in> set ps. \<not> in_part p (lsn + n + of_nat (q - unat n)))"
        using less.prems(5) nq d unfolding shift by auto
      have small: "unat (sectors - n) < unat sectors" "unat (sectors - n) < 2 ^ 30" "q - unat n \<le> unat (sectors - n)"
        using less.prems(2,3) cnt(1,2) d nq by auto
      obtain e cur2 m where r: "cur2 < length ps"
        "DeviceReadSectors_hdd xfer ps (length ps) cur' (buffer @ concat (map ?f [0..<unat n])) (lsn + n) (sectors - n) =
          Some (Inr (e, cur2, (buffer @ concat (map ?f [0..<unat n])) @ concat (map (\<lambda>k. hdd_sector disk ps (lsn + n + of_nat k)) [0..<m])))"
        "m = q - unat n \<and> e = (if q - unat n = unat (sectors - n) then SCECdErNO else SCECdErTRMOPN) \<or> m < q - unat n \<and> e = SCECdErREAD \<and> (\<exists>lba m. xfer lba m = None)"
        using less.hyps [OF small(1) c(2) small(2,3) pre none] by blast
      have "map ?f [0..<unat n + m] = map ?f [0..<unat n] @ map (\<lambda>k. hdd_sector disk ps (lsn + n + of_nat k)) [0..<m]"
        by (intro nth_equalityI) (auto simp: nth_append)
      then have "DeviceReadSectors_hdd xfer ps (length ps) cur buffer lsn sectors = Some (Inr (e, cur2, buffer @ concat (map ?f [0..<unat n + m])))"
        using r(2) c(1) p(3) x 3(1) by (simp add: step Let_def n_def)
      moreover have "q - unat n = unat (sectors - n) \<longleftrightarrow> q = unat sectors" using d nq cnt(2) less.prems(3) by auto
      ultimately show ?thesis using r(1,3) nq by (intro exI [of _ e] exI [of _ cur2] exI [of _ "unat n + m"]) auto
    qed
  qed
qed

lemma hdd_reads_prefix:
  assumes "parts_ok ps" "xfer_ok disk xfer"
  shows "cur < length ps \<Longrightarrow> unat sectors < 2 ^ 30 \<Longrightarrow> q \<le> unat sectors \<Longrightarrow> \<forall>k < q. \<exists>p \<in> set ps. in_part p (lsn + of_nat k) \<Longrightarrow>
    (q < unat sectors \<longrightarrow> (\<forall>p \<in> set ps. \<not> in_part p (lsn + of_nat q))) \<Longrightarrow>
    \<exists>cur' < length ps. DeviceReadSectors_hdd xfer ps (length ps) cur buffer lsn sectors =
      Some (Inr (if q = unat sectors then SCECdErNO else SCECdErTRMOPN, cur',
        buffer @ concat (map (\<lambda>k. hdd_sector disk ps (lsn + of_nat k)) [0..<q])))"
  using hdd_reads_sound [OF assms(1), of disk xfer cur sectors q lsn buffer] assms(2) by (auto simp: xfer_ok_def xfer_sound_def)

text \<open>C5: reading a game from the hard disk, over a controller whose transfers each fail or deliver what is on the disk, for partitions that do
  not overlap and requests of fewer than \<open>2 ^ 30\<close> sectors: let \<open>q\<close> be the number of sectors before the first requested one that is in no
  partition, or the whole request.  Whichever partition was used before and however many partitions the request spans, the buffer gets exactly the
  first sectors of the request: all \<open>q\<close>, with success when that is the whole request and \<open>SCECdErTRMOPN\<close> when it is not, or fewer with \<open>SCECdErREAD\<close>, and
  that only when a transfer failed.\<close>

theorem hdd_image_read:
  assumes "parts_ok ps" "xfer_sound disk xfer" "cur < length ps" "unat sectors < 2 ^ 30"
    and "q \<le> unat sectors" "\<forall>k < q. \<exists>p \<in> set ps. in_part p (lsn + of_nat k)"
    and "q < unat sectors \<longrightarrow> (\<forall>p \<in> set ps. \<not> in_part p (lsn + of_nat q))"
  shows "\<exists>e cur' n. cur' < length ps \<and> DeviceReadSectors_hdd xfer ps (length ps) cur [] lsn sectors =
      Some (Inr (e, cur', concat (map (\<lambda>k. hdd_sector disk ps (lsn + of_nat k)) [0..<n]))) \<and>
    (n = q \<and> e = (if q = unat sectors then SCECdErNO else SCECdErTRMOPN) \<or> n < q \<and> e = SCECdErREAD \<and> (\<exists>lba m. xfer lba m = None))"
  using hdd_reads_sound [OF assms, of "[]"] by simp

definition two_parts_disk :: "hdl_partspecs list" where
  "two_parts_disk = [\<lparr>part_offset = 0, data_start = 1000, part_size = 4096\<rparr>, \<lparr>part_offset = 2, data_start = 5000, part_size = 4096\<rparr>]"

text \<open>Of three sectors from the last but one on, two are there.\<close>

theorem hdd_image_read_witness:
  "\<exists>cur' < length two_parts_disk. DeviceReadSectors_hdd (\<lambda>lba n. Some (concat (map (\<lambda>k. [ucast (lba + of_nat k)]) [0..<unat n])))
      two_parts_disk (length two_parts_disk) 0 [] 2 3 =
    Some (Inr (SCECdErTRMOPN, cur', concat (map (\<lambda>k. hdd_sector (\<lambda>l. [ucast l]) two_parts_disk (2 + of_nat k)) [0..<2])))"
proof -
  have "parts_ok two_parts_disk" by (auto simp: parts_ok_def two_parts_disk_def in_part_def word_le_nat_alt word_less_nat_alt)
  moreover have "\<forall>k < 2. \<exists>p \<in> set two_parts_disk. in_part p (2 + of_nat k)" "\<forall>p \<in> set two_parts_disk. \<not> in_part p (2 + of_nat 2)"
    by (auto simp: two_parts_disk_def in_part_def less_2_cases_iff)
  ultimately show ?thesis
    using hdd_image_read [of two_parts_disk "\<lambda>l. [ucast l]" "\<lambda>lba n. Some (concat (map (\<lambda>k. [ucast (lba + of_nat k)]) [0..<unat n]))" 0 3 2 2]
    by (auto simp: xfer_sound_def two_parts_disk_def)
qed

section \<open>The share delivers the image\<close>

text \<open>A server that answers with at least one byte of what is there.\<close>

definition srv_ok :: "(u16 \<Rightarrow> u8 list) \<Rightarrow> smb_server \<Rightarrow> bool" where
  "srv_ok file srv \<longleftrightarrow> (\<forall>fid low high n.
     let offs = unat high * 2 ^ 32 + unat low
     in 0 < n \<and> offs + nat n \<le> length (file fid) \<longrightarrow> (\<exists>k. 0 < k \<and> k \<le> n \<and> srv fid low high n = (k, take (nat k) (drop offs (file fid)))))"

text \<open>The 64-bit offset goes on across its two halves.\<close>

lemma offset_add:
  fixes low high :: u32
  assumes "0 < k" "k \<le> CLIENT_MAX_RECV_SIZE" "unat high * 2 ^ 32 + unat low + nat k < 2 ^ 64"
  shows "unat (if low + word_of_int k < low then high + 1 else high) * 2 ^ 32 + unat (low + word_of_int k) =
    unat high * 2 ^ 32 + unat low + nat k"
proof -
  have k: "unat (word_of_int k :: u32) = nat k" using assms(1,2) by (simp add: unsigned_of_int take_bit_int_eq_self)
  show ?thesis
  proof (cases "unat low + nat k < 2 ^ 32")
    case True
    then have "unat (low + word_of_int k) = unat low + nat k" using u32_unat_add [of low "word_of_int k"] k by simp
    then show ?thesis using assms(1) by (simp add: word_less_nat_alt)
  next
    case False
    have l: "unat low < 2 ^ 32" by (rule u32_unat_less)
    have "unat (low + word_of_int k) = (unat low + nat k) mod 2 ^ 32" by (simp add: unat_word_ariths k)
    also have "\<dots> = unat low + nat k - 2 ^ 32" using False l assms(2) by (simp add: mod_if)
    finally have low: "unat (low + word_of_int k) = unat low + nat k - 2 ^ 32" .
    have "unat high + 1 < 2 ^ 32" using assms(3) False by simp
    then have "unat (high + 1) = unat high + 1" using u32_unat_add [of high 1] by simp
    moreover have "nat k \<le> 8192" using assms(2) by simp
    then have "low + word_of_int k < low" using low False l by (simp add: word_less_nat_alt)
    ultimately show ?thesis using low False by simp
  qed
qed

lemma smb_read_loop_reads:
  assumes "srv_ok file srv" "length (file fid) < 2 ^ 64"
  shows "0 \<le> remaining \<Longrightarrow> unat high * 2 ^ 32 + unat low + nat remaining \<le> length (file fid) \<Longrightarrow>
    smb_read_loop srv fid low high remaining buf =
      Some (None, buf @ take (nat remaining) (drop (unat high * 2 ^ 32 + unat low) (file fid)))"
proof (induction "nat remaining" arbitrary: low high remaining buf rule: less_induct)
  case less
  let ?o = "unat high * 2 ^ 32 + unat low"
  show ?case
  proof (cases "remaining > 0")
    case True
    define n where "n = (if remaining > CLIENT_MAX_RECV_SIZE then CLIENT_MAX_RECV_SIZE else remaining)"
    have n: "0 < n" "n \<le> remaining" "n \<le> CLIENT_MAX_RECV_SIZE" using True by (auto simp: n_def)
    then have "?o + nat n \<le> length (file fid)" using less.prems(2) by simp
    then obtain k where k: "0 < k" "k \<le> n" "srv fid low high n = (k, take (nat k) (drop ?o (file fid)))"
      using assms(1) n(1) unfolding srv_ok_def Let_def by blast
    let ?h = "if low + word_of_int k < low then high + 1 else high"
    have "?o + nat k < 2 ^ 64" using k n less.prems(2) assms(2) by simp
    then have o: "unat ?h * 2 ^ 32 + unat (low + word_of_int k) = ?o + nat k" using k n by (intro offset_add) auto
    have "smb_read_loop srv fid (low + word_of_int k) ?h (remaining - k) (buf @ take (nat k) (drop ?o (file fid))) =
        Some (None, (buf @ take (nat k) (drop ?o (file fid))) @ take (nat (remaining - k)) (drop (?o + nat k) (file fid)))"
      using less.hyps [of "remaining - k" "?h" "low + word_of_int k"] k n less.prems(2) unfolding o by simp
    moreover have "take (nat k) (drop ?o (file fid)) @ take (nat (remaining - k)) (drop (?o + nat k) (file fid)) = take (nat remaining) (drop ?o (file fid))"
    proof -
      have "nat remaining = nat k + nat (remaining - k)" using k n by simp
      then show ?thesis by (simp only: take_add drop_drop add.commute)
    qed
    ultimately show ?thesis using True k(1,3) by (subst smb_read_loop.simps) (simp add: n_def [symmetric])
  next
    case False
    then show ?thesis using less.prems(1) by (subst smb_read_loop.simps) simp
  qed
qed

text \<open>The size and the two halves of the offset that a read of sectors asks for.\<close>

lemma smb_cd_args:
  fixes n lsn :: u32
  shows "unat n < 2 ^ 20 \<Longrightarrow> sint (n * 2048) = int (2048 * unat n)"
    and "unat (drop_bit 21 lsn) * 2 ^ 32 + unat (lsn * 2048) = 2048 * unat lsn"
proof -
  show "sint (n * 2048) = int (2048 * unat n)" if a: "unat n < 2 ^ 20"
  proof -
    have "unat (n * 2048) = unat n * 2048" using a u32_unat_mult [of n 2048] by simp
    then have u: "uint (n * 2048) = int (2048 * unat n)" by (metis mult.commute uint_nat)
    have "2048 * unat n < 2 ^ 31" using a by simp
    then have "int (2048 * unat n) < int (2 ^ 31)" by (simp only: of_nat_less_iff)
    then have "uint (n * 2048) < 2 ^ 31" unfolding u by (simp only: of_nat_power of_nat_numeral)
    then have "sint (n * 2048) = uint (n * 2048)" using signed_take_bit_int_eq_self [of 31 "uint (n * 2048)"] uint_ge_0 [of "n * 2048"] by (simp only: sint_uint) simp
    then show ?thesis using u by simp
  qed
  have "unat (drop_bit 21 lsn) = unat lsn div 2 ^ 21" by (simp only: unat_drop_bit_eq) (simp add: drop_bit_eq_div)
  moreover have "unat (lsn * 2048) = (unat lsn * 2048) mod 2 ^ 32" by (simp add: unat_word_ariths)
  moreover have "(unat lsn * 2048) mod 2 ^ 32 = (unat lsn mod 2 ^ 21) * 2048" using mult_mod_left [of "unat lsn" "2 ^ 21" 2048] by simp
  ultimately show "unat (drop_bit 21 lsn) * 2 ^ 32 + unat (lsn * 2048) = 2048 * unat lsn"
    using div_mult_mod_eq [of "unat lsn" 2097152] by (simp, linarith)
qed

lemma smb_ReadCD_reads:
  assumes "srv_ok file srv" "part < length FIDs" "unat n < 2 ^ 20" "2048 * (unat lsn + unat n) \<le> length (file (FIDs ! part))" "length (file (FIDs ! part)) < 2 ^ 64"
  shows "smb_ReadCD srv FIDs True lsn n part =
    Some (Inr (int (2048 * unat n), True, take (2048 * unat n) (drop (2048 * unat lsn) (file (FIDs ! part)))))"
proof -
  note sn = smb_cd_args(1) [OF assms(3)] and o = smb_cd_args(2) [of lsn]
  have "smb_read_loop srv (FIDs ! part) (lsn * 2048) (drop_bit 21 lsn) (int (2048 * unat n)) [] =
      Some (None, [] @ take (nat (int (2048 * unat n))) (drop (unat (drop_bit 21 lsn) * 2 ^ 32 + unat (lsn * 2048)) (file (FIDs ! part))))"
    using assms(4) by (intro smb_read_loop_reads [OF assms(1,5)]) (simp_all only: o nat_int of_nat_0_le_iff distrib_left)
  then show ?thesis using assms(2) unfolding o by (simp add: smb_ReadCD_def smb_ReadFile_def peek_def sn nat_mult_distrib)
qed

abbreviation PART_SECTORS :: nat where "PART_SECTORS \<equiv> 0x80000"

text \<open>All parts but the last have \<open>PART_SECTORS\<close> sectors.\<close>

definition split_ok :: "u8 list list \<Rightarrow> bool" where
  "split_ok fs \<longleftrightarrow> fs \<noteq> [] \<and> (\<forall>f \<in> set (butlast fs). length f = 2048 * PART_SECTORS) \<and> length (last fs) \<le> 2048 * PART_SECTORS"

text \<open>Where the loop stands at part \<open>i\<close>.\<close>

definition loop_at :: "nat \<Rightarrow> nat \<Rightarrow> nat \<Rightarrow> smb_loop \<Rightarrow> bool" where
  "loop_at i L n l \<longleftrightarrow> sl_lsn l = of_nat L \<and> sl_sectors l = of_nat n \<and> sl_to_read l = of_nat n \<and>
     sl_offslsn l = of_nat L - of_nat (i * PART_SECTORS) \<and> sl_lbound l = of_nat (i * PART_SECTORS) \<and> sl_ubound l = of_nat ((i + 1) * PART_SECTORS)"

lemma u32_of_nat: "k < 2 ^ 32 \<Longrightarrow> unat (of_nat k :: u32) = k"
  by (simp add: unsigned_of_nat take_bit_eq_mod)

lemma loop_in_part:
  assumes "loop_at i L n l" "i < 256" "L < 2 ^ 32"
  shows "smb_in_part l \<longleftrightarrow> i * PART_SECTORS \<le> L \<and> L < (i + 1) * PART_SECTORS"
proof -
  have u: "unat (of_nat (i * PART_SECTORS) :: u32) = i * PART_SECTORS" "unat (of_nat ((i + 1) * PART_SECTORS) :: u32) = (i + 1) * PART_SECTORS"
    by (rule u32_of_nat; use assms(2) in simp)+
  have l: "sl_lsn l = of_nat L" "sl_lbound l = of_nat (i * PART_SECTORS)" "sl_ubound l = of_nat ((i + 1) * PART_SECTORS)"
    using assms(1) by (simp_all only: loop_at_def)
  show ?thesis unfolding smb_in_part_def word_le_nat_alt word_less_nat_alt l u u32_of_nat [OF assms(3)] by (rule refl)
qed

lemma loop_split:
  assumes "loop_at i L n l" "i < 256" "L < (i + 1) * PART_SECTORS" "n < 2 ^ 20"
  shows "smb_split l = (if (i + 1) * PART_SECTORS \<le> L + n
    then (False, l\<lparr>sl_to_read := of_nat ((i + 1) * PART_SECTORS - L), sl_sectors := of_nat (n - ((i + 1) * PART_SECTORS - L)), sl_nlsn := of_nat ((i + 1) * PART_SECTORS)\<rparr>)
    else (True, l))"
proof -
  let ?u = "(i + 1) * PART_SECTORS"
  have b: "?u < 2 ^ 31" "L < 2 ^ 31" "0 < ?u" using assms(2,3) by auto
  have "unat (of_nat ?u - 1 :: u32) = ?u - 1" using b unat_sub [of 1 "of_nat ?u :: u32"] by (simp add: u32_of_nat word_le_nat_alt del: of_nat_add of_nat_mult)
  moreover have "unat (of_nat L + of_nat n :: u32) = L + n" using b assms(4) u32_of_nat [of "L + n"] by simp
  ultimately have c: "(of_nat L + of_nat n :: u32) > of_nat ?u - 1 \<longleftrightarrow> ?u \<le> L + n" using b(3) by (simp only: word_less_nat_alt) linarith
  have d: "of_nat ?u - of_nat L = (of_nat (?u - L) :: u32)" using assms(3) by (simp only: of_nat_diff less_imp_le_nat)
  have e: "?u \<le> L + n \<Longrightarrow> of_nat n - of_nat (?u - L) = (of_nat (n - (?u - L)) :: u32)" by (simp only: of_nat_diff le_diff_conv add.commute)
  have f: "sl_lsn l = of_nat L" "sl_sectors l = of_nat n" "sl_ubound l = of_nat ?u" using assms(1) by (simp_all only: loop_at_def)
  show ?thesis unfolding smb_split_def f Let_def d c using e by simp
qed

lemma loop_next:
  assumes "loop_at i L n l"
  shows "loop_at (Suc i) L n (smb_advance l)"
    and "loop_at (Suc i) ((i + 1) * PART_SECTORS) k (smb_advance (l\<lparr>sl_sectors := of_nat k, sl_nlsn := of_nat ((i + 1) * PART_SECTORS),
       sl_offslsn := of_nat PART_SECTORS, sl_to_read := of_nat k, sl_lsn := of_nat ((i + 1) * PART_SECTORS)\<rparr>))"
  using assms by (simp_all add: loop_at_def smb_advance_def algebra_simps)

text \<open>Nothing left to read: the pass over the next part asks the server for no byte, and the zero that comes back
  is taken for an error.\<close>

lemma smb_parts_zero:
  assumes "loop_at i (i * PART_SECTORS) 0 l" "i < 256" "i < length FIDs" "0 < m"
  shows "smb_parts srv FIDs True l buf i m = Some (Inr (SCECdErREAD, True, buf))"
proof -
  obtain m' where m: "m = Suc m'" using assms(4) by (cases m) auto
  have "i * PART_SECTORS < 2 ^ 32" using assms(2) by simp
  then have "smb_in_part l" using loop_in_part [OF assms(1,2)] by simp
  moreover have "smb_split l = (True, l)" using loop_split [OF assms(1,2)] by simp
  moreover have "sl_to_read l = 0" using assms(1) by (simp add: loop_at_def)
  moreover have "smb_ReadCD srv FIDs True o0 0 i = Some (Inr (0, True, []))" for o0
    using assms(3) by (simp add: smb_ReadCD_def smb_ReadFile_def peek_def smb_read_loop.simps)
  ultimately show ?thesis by (simp add: m)
qed

lemma take_across:
  "length xs \<le> a + b \<Longrightarrow> a \<le> length xs \<Longrightarrow> take b (drop a (xs @ ys)) = drop a xs @ take (b - (length xs - a)) ys"
  by simp

text \<open>A read of the loop from part \<open>i\<close> on, where \<open>m\<close> parts are left.  A read that ends at the end of a part that is not
  the last makes another pass with nothing to read, whose result is taken for an error.\<close>

definition ends_inside :: "nat \<Rightarrow> nat \<Rightarrow> bool" where
  "ends_inside parts k \<longleftrightarrow> k mod PART_SECTORS = 0 \<and> k < parts * PART_SECTORS"

lemma smb_parts_read:
  assumes srv: "srv_ok file srv"
  shows "loop_at i L n l \<Longrightarrow> fs = map (\<lambda>k. file (FIDs ! k)) [i..<i + m] \<Longrightarrow> i + m \<le> length FIDs \<Longrightarrow> i + m \<le> 256 \<Longrightarrow>
    m = 0 \<or> split_ok fs \<Longrightarrow> i * PART_SECTORS \<le> L \<Longrightarrow> L < 2 ^ 32 \<Longrightarrow> n < 2 ^ 20 \<Longrightarrow> 2048 * (L - i * PART_SECTORS + n) \<le> length (concat fs) \<Longrightarrow>
    0 < n \<Longrightarrow>
    smb_parts srv FIDs True l buf i m =
      Some (Inr (if ends_inside (i + m) (L + n) then SCECdErREAD else SCECdErNO, True,
        buf @ take (2048 * n) (drop (2048 * (L - i * PART_SECTORS)) (concat fs))))"
proof (induction m arbitrary: i L n l fs buf)
  case 0
  then show ?case by simp
next
  case (Suc m)
  let ?P = "PART_SECTORS" and ?f = "file (FIDs ! i)" and ?u = "(i + 1) * PART_SECTORS"
  define gs where "gs = map (\<lambda>k. file (FIDs ! k)) [Suc i..<Suc i + m]"
  have fs: "fs = ?f # gs" using Suc.prems(2) upt_conv_Cons [of i "i + Suc m"] by (simp add: gs_def del: upt_Suc)
  have gs: "gs \<noteq> [] \<Longrightarrow> length ?f = 2048 * ?P \<and> split_ok gs" "length ?f \<le> 2048 * ?P" "gs = [] \<longleftrightarrow> m = 0"
    using Suc.prems(5) by (auto simp: fs split_ok_def gs_def split: if_splits)
  have i: "i < 256" "i < length FIDs" using Suc.prems(3,4) by simp_all
  have total: "2048 * (L - i * ?P + n) \<le> length ?f + length (concat gs)" using Suc.prems(9) fs by simp
  have f64: "length ?f < 2 ^ 64" using gs(2) by simp
  show ?case
  proof (cases "L < ?u")
    case False
    then have "gs \<noteq> []" using total gs(2) Suc.prems(10) by auto
    then have g: "length ?f = 2048 * ?P" "split_ok gs" using gs(1) by auto
    have le: "Suc i * ?P \<le> L" using False by simp
    then have d: "2048 * (L - i * ?P) = 2048 * ?P + 2048 * (L - Suc i * ?P)" by (simp add: algebra_simps)
    have "smb_parts srv FIDs True (smb_advance l) buf (Suc i) m =
        Some (Inr (if ends_inside (Suc i + m) (L + n) then SCECdErREAD else SCECdErNO, True, buf @ take (2048 * n) (drop (2048 * (L - Suc i * ?P)) (concat gs))))"
      using Suc.prems loop_next(1) [OF Suc.prems(1)] g le total d by (intro Suc.IH gs_def) (auto simp: algebra_simps)
    moreover have "drop (2048 * (L - i * ?P)) (concat fs) = drop (2048 * (L - Suc i * ?P)) (concat gs)" using fs g(1) d by simp
    moreover have "\<not> smb_in_part l" using loop_in_part [OF Suc.prems(1) i(1) Suc.prems(7)] False by simp
    ultimately show ?thesis by simp
  next
    case True
    have inp: "smb_in_part l" using loop_in_part [OF Suc.prems(1) i(1) Suc.prems(7)] True Suc.prems(6) by simp
    note split = loop_split [OF Suc.prems(1) i(1) True Suc.prems(8)]
    have offs: "sl_offslsn l = of_nat (L - i * ?P)" "unat (sl_offslsn l) = L - i * ?P"
      using Suc.prems(1,6) True i(1) u32_of_nat [of "L - i * ?P"] by (simp_all add: loop_at_def of_nat_diff)
    show ?thesis
    proof (cases "?u \<le> L + n")
      case False
      have un: "sl_to_read l = of_nat n" "unat (sl_to_read l) = n" using Suc.prems(1,8) u32_of_nat [of n] by (simp_all add: loop_at_def)
      have fits: "2048 * (L - i * ?P + n) \<le> length ?f"
      proof (cases "gs = []")
        case True
        then show ?thesis using total by simp
      next
        case g: False
        have "L - i * ?P + n \<le> ?P" using False Suc.prems(6) by simp
        then show ?thesis using gs(1) [OF g] by (simp only: mult_le_mono2)
      qed
      have "smb_ReadCD srv FIDs True (sl_offslsn l) (sl_to_read l) i =
          Some (Inr (int (2048 * n), True, take (2048 * n) (drop (2048 * (L - i * ?P)) ?f)))"
        using smb_ReadCD_reads [OF srv i(2) _ _ f64, of "sl_to_read l" "sl_offslsn l"] fits Suc.prems(8) by (simp only: offs(2) un(2))
      moreover have "take (2048 * n) (drop (2048 * (L - i * ?P)) (concat fs)) = take (2048 * n) (drop (2048 * (L - i * ?P)) ?f)"
        using fits fs by simp
      moreover have "\<not> ends_inside (i + Suc m) (L + n)"
      proof
        assume "ends_inside (i + Suc m) (L + n)"
        then obtain k where k: "L + n = ?P * k" by (auto simp: ends_inside_def)
        then have "i < k" "k < i + 1" using Suc.prems(6,10) False by auto
        then show False by simp
      qed
      ultimately show ?thesis using split False inp Suc.prems(10) by simp
    next
      case True
      define n1 where "n1 = ?u - L"
      define U Q :: u32 where "U = of_nat ?u" and "Q = of_nat ?P"
      define k where "k = n - n1"
      define l2 where "l2 = l\<lparr>sl_sectors := of_nat k, sl_nlsn := U, sl_offslsn := Q, sl_to_read := of_nat k, sl_lsn := U\<rparr>"
      have n1: "0 < n1" "n1 \<le> n" "n1 < 2 ^ 20" "L - i * ?P + n1 = ?P" "L + n1 = ?u" using True \<open>L < ?u\<close> Suc.prems(6,8) by (auto simp: n1_def)
      have full: "length ?f = 2048 * ?P" using gs total n1 by (cases "gs = []") (auto simp: algebra_simps)
      have un1: "unat (of_nat n1 :: u32) = n1" using n1(3) by (intro u32_of_nat) simp
      have "smb_ReadCD srv FIDs True (sl_offslsn l) (of_nat n1) i = Some (Inr (int (2048 * n1), True, take (2048 * n1) (drop (2048 * (L - i * ?P)) ?f)))"
        using smb_ReadCD_reads [OF srv i(2) _ _ f64, of "of_nat n1" "sl_offslsn l"] n1(3) full by (simp only: offs(2) un1 n1(4) simp_thms order_refl)
      moreover have "length (drop (2048 * (L - i * ?P)) ?f) \<le> 2048 * n1" using full n1(4) by (simp add: algebra_simps)
      ultimately have r: "smb_ReadCD srv FIDs True (sl_offslsn l) (of_nat n1) i = Some (Inr (int (2048 * n1), True, drop (2048 * (L - i * ?P)) ?f))"
        by (simp only: take_all)
      have adv: "loop_at (Suc i) ?u (n - n1) (smb_advance l2)" unfolding l2_def k_def U_def Q_def by (rule loop_next(2) [OF Suc.prems(1)])
      have sp: "smb_split l = (False, l\<lparr>sl_to_read := of_nat n1, sl_sectors := of_nat k, sl_nlsn := U\<rparr>)"
        unfolding split U_def k_def using True by (simp only: n1_def if_True)
      have o: "sl_offslsn l + of_nat n1 = Q" using n1(4) unfolding offs(1) Q_def by (metis of_nat_add)
      have step: "smb_parts srv FIDs True l buf i (Suc m) = smb_parts srv FIDs True (smb_advance l2) (buf @ drop (2048 * (L - i * ?P)) ?f) (Suc i) m"
        using inp r n1(1) by (simp add: sp o l2_def)
      have data: "take (2048 * n) (drop (2048 * (L - i * ?P)) (concat fs)) = drop (2048 * (L - i * ?P)) ?f @ take (2048 * (n - n1)) (concat gs)"
      proof -
        have "2048 * n - (length ?f - 2048 * (L - i * ?P)) = 2048 * (n - n1)" using full n1(4) by simp
        moreover have "length ?f \<le> 2048 * (L - i * ?P) + 2048 * n" "2048 * (L - i * ?P) \<le> length ?f" using full n1(2,4) by simp_all
        ultimately show ?thesis using take_across [of ?f "2048 * (L - i * ?P)" "2048 * n" "concat gs"] fs by simp
      qed
      show ?thesis
      proof (cases "n = n1")
        case eq: True
        have "ends_inside (i + Suc m) (L + n) \<longleftrightarrow> 0 < m" using n1(5) by (simp add: ends_inside_def eq)
        then show ?thesis
          using smb_parts_zero [of "Suc i" "smb_advance l2" FIDs m] adv Suc.prems(3,4) step data by (cases "m = 0") (simp_all add: eq)
      next
        case False
        have "gs \<noteq> []" using total full n1 False by auto
        then have "split_ok gs" using gs by simp
        then have "smb_parts srv FIDs True (smb_advance l2) (buf @ drop (2048 * (L - i * ?P)) ?f) (Suc i) m =
            Some (Inr (if ends_inside (Suc i + m) (?u + (n - n1)) then SCECdErREAD else SCECdErNO, True,
              (buf @ drop (2048 * (L - i * ?P)) ?f) @ take (2048 * (n - n1)) (drop (2048 * (?u - Suc i * ?P)) (concat gs))))"
          using Suc.prems adv total full n1 False by (intro Suc.IH gs_def) auto
        moreover have "?u + (n - n1) = L + n" using n1 by simp
        ultimately show ?thesis using step data by simp
      qed
    qed
  qed
qed

text \<open>A game in one file is one request.\<close>

lemma smb_single_file:
  assumes "srv_ok file srv" "FIDs \<noteq> []" "0 < sectors" "unat sectors < 2 ^ 20" "unat lsn < 2 ^ 31"
    "2048 * (unat lsn + unat sectors) \<le> length (file (FIDs ! 0))" "length (file (FIDs ! 0)) < 2 ^ 64"
  shows "DeviceReadSectors_smb srv FIDs 1 True lsn sectors =
    Some (Inr (SCECdErNO, True, take (2048 * unat sectors) (drop (2048 * unat lsn) (file (FIDs ! 0)))))"
proof -
  have "unat (lsn + sectors) = unat lsn + unat sectors" using assms(4,5) u32_unat_add [of lsn sectors] by simp
  then have "\<not> lsn + sectors > 0xFFFFFFFE" using assms(4,5) by (simp add: word_less_nat_alt)
  moreover have "lsn < 0xFFFFFFFF" using assms(5) by (simp add: word_less_nat_alt)
  moreover have "0 < unat sectors" using assms(3) by (simp add: word_gt_0 unat_gt_0)
  ultimately show ?thesis
    using smb_ReadCD_reads [where part = 0 and n = sectors, OF assms(1)] assms
    by (simp add: DeviceReadSectors_smb_def smb_in_part_def smb_split_def word_less_nat_alt) (auto simp: uint_0_iff)
qed

text \<open>C6: reading a game that is split into parts of a gigabyte on a share delivers exactly the requested sectors of the
  parts put together, wherever the boundaries fall and however little the server sends at a time, and the semaphore is free again; but a read that
  ends exactly at the end of a part that is not the last is reported as failed, although all its data has been delivered.\<close>

theorem smb_image_read:
  assumes "srv_ok file srv" "1 < NumParts" "unat NumParts \<le> length FIDs" "split_ok (map (\<lambda>k. file (FIDs ! k)) [0..<unat NumParts])"
    "0 < sectors" "unat sectors < 2 ^ 20" "2048 * (unat lsn + unat sectors) \<le> length (concat (map (\<lambda>k. file (FIDs ! k)) [0..<unat NumParts]))"
  shows "DeviceReadSectors_smb srv FIDs NumParts True lsn sectors =
    Some (Inr (if ends_inside (unat NumParts) (unat lsn + unat sectors) then SCECdErREAD else SCECdErNO, True,
      take (2048 * unat sectors) (drop (2048 * unat lsn) (concat (map (\<lambda>k. file (FIDs ! k)) [0..<unat NumParts])))))"
proof -
  let ?l = "\<lparr>sl_lsn = lsn, sl_sectors = sectors, sl_to_read = sectors, sl_nlsn = 0, sl_offslsn = lsn, sl_lbound = 0, sl_ubound = 0x80000\<rparr>"
  have "loop_at 0 (unat lsn) (unat sectors) ?l" by (simp add: loop_at_def)
  moreover have "0 < unat sectors" using assms(5) by (simp add: word_gt_0 unat_gt_0)
  moreover have "unat NumParts < 256" using unsigned_less [of NumParts] by simp
  ultimately have "smb_parts srv FIDs True ?l [] 0 (unat NumParts) =
      Some (Inr (if ends_inside (0 + unat NumParts) (unat lsn + unat sectors) then SCECdErREAD else SCECdErNO, True,
        [] @ take (2048 * unat sectors) (drop (2048 * (unat lsn - 0 * PART_SECTORS)) (concat (map (\<lambda>k. file (FIDs ! k)) [0..<0 + unat NumParts])))))"
    using assms(3,4,6,7) u32_unat_less [of lsn] by (intro smb_parts_read [OF assms(1)]) simp_all
  then show ?thesis using assms(2) by (simp add: DeviceReadSectors_smb_def)
qed

text \<open>A game of two parts, and a server that sends all it is asked for.\<close>

definition two_files :: "u16 \<Rightarrow> u8 list" where
  "two_files fid = replicate (if fid = 7 then 2048 * PART_SECTORS else 2048 * 4) (if fid = 7 then 1 else 2)"

definition whole_server :: "(u16 \<Rightarrow> u8 list) \<Rightarrow> smb_server" where
  "whole_server file fid low high n = (n, take (nat n) (drop (unat high * 2 ^ 32 + unat low) (file fid)))"

lemma whole_server_ok: "srv_ok file (whole_server file)"
  by (auto simp: srv_ok_def whole_server_def)

lemma two_files_read:
  "length (two_files 7) = 2048 * PART_SECTORS" "length (two_files 8) = 2048 * 4"
  "split_ok [two_files 7, two_files 8]"
  by (simp_all add: two_files_def split_ok_def)

theorem smb_image_read_witness:
  "DeviceReadSectors_smb (whole_server two_files) [7, 8] 2 True 0x7FFFE 3 =
     Some (Inr (SCECdErNO, True, take (2048 * 3) (drop (2048 * 0x7FFFE) (two_files 7 @ two_files 8)))) \<and>
   DeviceReadSectors_smb (whole_server two_files) [7, 8] 2 True 0x7FFFE 2 =
     Some (Inr (SCECdErREAD, True, take (2048 * 2) (drop (2048 * 0x7FFFE) (two_files 7 @ two_files 8))))"
proof -
  have m: "map (\<lambda>k. two_files ([7, 8] ! k)) [0..<unat (2 :: u8)] = [two_files 7, two_files 8]" by (simp add: upt_rec)
  have "DeviceReadSectors_smb (whole_server two_files) [7, 8] 2 True 0x7FFFE s =
     Some (Inr (if ends_inside (unat (2 :: u8)) (unat (0x7FFFE :: u32) + unat s) then SCECdErREAD else SCECdErNO, True,
       take (2048 * unat s) (drop (2048 * unat (0x7FFFE :: u32)) (concat [two_files 7, two_files 8]))))" if "s = 2 \<or> s = 3" for s
    using smb_image_read [where NumParts = 2 and FIDs = "[7, 8]" and sectors = s and lsn = "0x7FFFE", OF whole_server_ok [of two_files]] that unfolding m by (auto simp: two_files_read)
  from this [of 2] this [of 3] show ?thesis by (simp add: ends_inside_def)
qed

text \<open>A request the server does not answer leaves the loop without the semaphore, and from then on every
  read, also of the memory card image on the same share, waits for it.\<close>

lemma smb_error_keeps_sema:
  assumes "smb_ReadFile srv True fid low high nbytes = Some (r, sema, d)" "r \<noteq> nbytes"
  shows "sema = False" "smb_ReadFile srv sema fid' low' high' nbytes' = None"
  using assms by (auto simp: smb_ReadFile_def split: option.splits)

end
