(* ===== verification/CdRead.thy ===== *)
theory CdRead
  imports CdDevice Zso Logo
begin

text \<open>
  The read path of the in-game disc driver, \<open>modules/iopcore/cdvdman/cdvdman.c\<close>, above a device: the sector
  cache and the access to compressed images (\<open>initCache\<close>, \<open>DeviceReadSectorsCached\<close>, \<open>read_raw_data\<close>), the read
  of sectors with the end of the medium and the unscrambling of the logo (\<open>cdvdman_read_sectors\<close>), the copy for
  unaligned buffers (\<open>cdvdman_read\<close>) and the positions on a disc (\<open>sceCdPosToInt\<close>, \<open>sceCdIntToPos\<close>).

  A device is a state passing function; \<open>None\<close> is a call that does not return.  What a device promises is the
  locale \<open>sector_device\<close>; the hard disk and the share are interpretations of it.
\<close>

section \<open>Calls that may not return\<close>

type_synonym 'a run = "'a cres option"

definition r_bind :: "'a run \<Rightarrow> ('a \<Rightarrow> 'b run) \<Rightarrow> 'b run" where
  "r_bind m f = (case m of None \<Rightarrow> None | Some (Inl e) \<Rightarrow> Some (Inl e) | Some (Inr x) \<Rightarrow> f x)"

abbreviation r_ret :: "'a \<Rightarrow> 'a run" where "r_ret x \<equiv> Some (Inr x)"

lemma r_bind_simps [simp]: "r_bind None f = None" "r_bind (Some (Inl e)) f = Some (Inl e)" "r_bind (r_ret x) f = f x"
  by (simp_all add: r_bind_def)

text \<open>The sectors a device puts into a buffer, with its result.\<close>

type_synonym 's device = "'s \<Rightarrow> u64 \<Rightarrow> u32 \<Rightarrow> (cd_err \<times> 's \<times> u8 list) run"

section \<open>The sector cache\<close>

text \<open>A cache that is not allocated is the empty list.\<close>

record 's cdr =
  dev_state :: 's
  MAX_SECTOR_CACHE :: u8
  sector_cache :: "u8 list"
  cur_sector :: u64
  ziso_tmp_buf :: "u8 list"

definition initCache :: "u8 \<Rightarrow> u8 list \<Rightarrow> 's cdr \<Rightarrow> 's cdr" where
  "initCache zso_cache mem c =
     (if zso_cache \<noteq> 0 \<and> sector_cache c = [] then
        (if mem \<noteq> [] then c\<lparr>sector_cache := mem, MAX_SECTOR_CACHE := zso_cache\<rparr> else c)
      else c)"

definition dev_read :: "'s device \<Rightarrow> 's cdr device" where
  "dev_read dev c lsn n = r_bind (dev (dev_state c) lsn n) (\<lambda>(e, s, d). r_ret (e, c\<lparr>dev_state := s\<rparr>, d))"

text \<open>The result of the read that fills the cache is not looked at.\<close>

definition load_cache :: "'s device \<Rightarrow> 's cdr \<Rightarrow> u64 \<Rightarrow> ('s cdr) run" where
  "load_cache dev c lsn =
     r_bind (dev_read dev c lsn (ucast (MAX_SECTOR_CACHE c))) (\<lambda>(e, c1, d).
     r_bind (Some (mem_write (sector_cache c1) 0 d)) (\<lambda>m.
       r_ret (c1\<lparr>sector_cache := m, cur_sector := lsn\<rparr>)))"

definition DeviceReadSectorsCached :: "'s device \<Rightarrow> 's cdr device" where
  "DeviceReadSectorsCached dev c lsn sectors =
     (if unat sectors < unat (MAX_SECTOR_CACHE c) then
        r_bind
          (if cur_sector c = 0xffffffffffff \<or> lsn < cur_sector c \<or> (lsn + ucast sectors) - cur_sector c > ucast (MAX_SECTOR_CACHE c)
           then load_cache dev c lsn else r_ret c)
          (\<lambda>c1. r_bind (Some (mem_read (sector_cache c1) (unat (lsn - cur_sector c1) * 2048) (2048 * unat sectors))) (\<lambda>d.
             r_ret (SCECdErNO, c1, d)))
      else dev_read dev c lsn sectors)"

section \<open>Access to compressed images\<close>

text \<open>\<open>out\<close> is the memory from \<open>addr\<close> on and \<open>p\<close> how much of it has been filled.  The cache is not used to read
  the index.\<close>

definition read_tmp :: "'s cdr device \<Rightarrow> 's cdr \<Rightarrow> u64 \<Rightarrow> ('s cdr) run" where
  "read_tmp rd c lba =
     r_bind (rd c lba 1) (\<lambda>(e, c1, d).
     r_bind (Some (mem_write (ziso_tmp_buf c1) 0 d)) (\<lambda>t. r_ret (c1\<lparr>ziso_tmp_buf := t\<rparr>)))"

definition game_first :: "'s cdr device \<Rightarrow> 's cdr \<Rightarrow> u8 list \<Rightarrow> u32 \<Rightarrow> u64 \<Rightarrow> u32 \<Rightarrow> ('s cdr \<times> u8 list \<times> u32 \<times> u64 \<times> nat) run" where
  "game_first rd c out sz lba pos =
     (if pos \<noteq> 0 then
        let r = min sz (2048 - pos)
        in r_bind (read_tmp rd c lba) (\<lambda>c1.
           r_bind (Some (mem_read (ziso_tmp_buf c1) (unat pos) (unat r))) (\<lambda>d.
           r_bind (Some (mem_write out 0 d)) (\<lambda>out1. r_ret (c1, out1, sz - r, lba + 1, unat r))))
      else r_ret (c, out, sz, lba, 0))"

definition game_blocks :: "'s cdr device \<Rightarrow> 's cdr \<Rightarrow> u8 list \<Rightarrow> u32 \<Rightarrow> u64 \<Rightarrow> nat \<Rightarrow> ('s cdr \<times> u8 list \<times> u32 \<times> u64 \<times> nat) run" where
  "game_blocks rd c out sz lba p =
     (let n_blocks = sz div 2048 + (if sz mod 2048 \<noteq> 0 then 1 else 0)
      in if n_blocks > 1 then
           r_bind (rd c lba (n_blocks - 1)) (\<lambda>(e, c1, d).
           r_bind (Some (mem_write out p d)) (\<lambda>out1.
             r_ret (c1, out1, sz - 2048 * (n_blocks - 1), lba + ucast (n_blocks - 1), p + unat (2048 * (n_blocks - 1)))))
         else r_ret (c, out, sz, lba, p))"

definition game_rest :: "'s cdr device \<Rightarrow> 's cdr \<Rightarrow> u8 list \<Rightarrow> u32 \<Rightarrow> u64 \<Rightarrow> nat \<Rightarrow> ('s cdr \<times> u8 list) run" where
  "game_rest rd c out sz lba p =
     (if sz \<noteq> 0 then
        r_bind (read_tmp rd c lba) (\<lambda>c1.
        r_bind (Some (mem_read (ziso_tmp_buf c1) 0 (unat sz))) (\<lambda>d.
        r_bind (Some (mem_write out p d)) (\<lambda>out1. r_ret (c1, out1))))
      else r_ret (c, out))"

definition read_raw_data :: "'s device \<Rightarrow> bool \<Rightarrow> 's cdr \<Rightarrow> u8 list \<Rightarrow> u32 \<Rightarrow> u32 \<Rightarrow> u32 \<Rightarrow> (u32 \<times> 's cdr \<times> u8 list) run" where
  "read_raw_data dev index c out sz offset shift =
     (let rd = (if index then dev_read dev else DeviceReadSectorsCached dev)
      in r_bind (game_first rd c out sz (ucast (raw_lba offset shift)) (raw_pos offset shift)) (\<lambda>(c1, out1, sz1, lba1, p1).
         r_bind (game_blocks rd c1 out1 sz1 lba1 p1) (\<lambda>(c2, out2, sz2, lba2, p2).
         r_bind (game_rest rd c2 out2 sz2 lba2 p2) (\<lambda>(c3, out3). r_ret (sz, c3, out3)))))"

section \<open>Reading sectors\<close>

text \<open>\<open>'c\<close> is the state of the reader that \<open>DeviceReadSectorsPtr\<close> points at: the device itself, or after
  \<open>ProbeZSO\<close> has found a compressed image the reader of compressed images (theory \<open>Zso\<close>) over
  \<open>read_raw_data\<close>; \<open>zinit\<close> sets that one up from the header.\<close>

datatype cd_stat = SCECdStatStop | SCECdStatRead | SCECdStatPause

record 'c cdvdman =
  rd_state :: 'c
  cd_error :: cd_err
  probed :: bool
  compressed :: bool
  ReadPos :: u32
  logo_key :: u8
  mediaLsnCount :: u32
  cd_status :: cd_stat

abbreviation ZSO_MAGIC :: u32 where "ZSO_MAGIC \<equiv> 0x4F53495A"

definition ProbeZSO :: "'c device \<Rightarrow> (u8 list \<Rightarrow> 'c \<Rightarrow> 'c) \<Rightarrow> 'c cdvdman \<Rightarrow> u8 list \<Rightarrow> (bool \<times> 'c cdvdman \<times> u8 list) run" where
  "ProbeZSO dev zinit m buf =
     r_bind (dev (rd_state m) 0 1) (\<lambda>(e, s, d).
     r_bind (Some (mem_write buf 0 d)) (\<lambda>buf1.
       if e \<noteq> SCECdErNO then r_ret (False, m\<lparr>rd_state := s\<rparr>, buf1)
       else r_bind (Some (mem_read buf1 0 4)) (\<lambda>h.
         if le32 h 0 = ZSO_MAGIC then r_ret (True, m\<lparr>rd_state := zinit buf1 s, probed := True, compressed := True\<rparr>, buf1)
         else r_ret (True, m\<lparr>rd_state := s, probed := True\<rparr>, buf1))))"

text \<open>The logo is unscrambled with the first byte of the disc; the key is kept for the transfers that follow.\<close>

definition unscramble :: "'c cdvdman \<Rightarrow> u32 \<Rightarrow> u32 \<Rightarrow> u8 list \<Rightarrow> nat \<Rightarrow> ('c cdvdman \<times> u8 list) cres" where
  "unscramble m lsn n buf p =
     (if lsn < 13 then
        c_bind (if lsn = 0 then peek buf p else Inr (logo_key m)) (\<lambda>key.
          if key \<noteq> 0 then
            c_bind (mem_read buf p (unat (n * 2048))) (\<lambda>d.
            c_bind (mem_write buf p (map (logo_decode key) d)) (\<lambda>buf1. Inr (m\<lparr>logo_key := key\<rparr>, buf1)))
          else Inr (m\<lparr>logo_key := key\<rparr>, buf))
      else Inr (m, buf))"

text \<open>The loop over the transfers; \<open>accu\<close> is the compatibility flag that limits them to eight sectors.  \<open>p\<close> is the
  position in the buffer.  Waiting for the alarm is left out.\<close>

partial_function (option) read_transfers ::
  "'c device \<Rightarrow> bool \<Rightarrow> 'c cdvdman \<Rightarrow> u32 \<Rightarrow> u32 \<Rightarrow> u8 list \<Rightarrow> nat \<Rightarrow> ('c cdvdman \<times> u8 list) run" where
  "read_transfers rd accu m lsn remaining buf p =
     (if remaining = 0 then r_ret (m, buf)
      else
        let SectorsToRead = (if accu \<and> remaining > 8 then 8 else remaining)
        in (case rd (rd_state m) (ucast lsn) SectorsToRead of
              None \<Rightarrow> None
            | Some (Inl e) \<Rightarrow> Some (Inl e)
            | Some (Inr (err, s, d)) \<Rightarrow>
                (case mem_write buf p d of
                   Inl e \<Rightarrow> Some (Inl e)
                 | Inr buf1 \<Rightarrow>
                     if err \<noteq> SCECdErNO then r_ret (m\<lparr>rd_state := s, cd_error := err\<rparr>, buf1)
                     else (case unscramble (m\<lparr>rd_state := s, cd_error := err\<rparr>) lsn SectorsToRead buf1 p of
                             Inl e \<Rightarrow> Some (Inl e)
                           | Inr (m2, buf2) \<Rightarrow>
                               read_transfers rd accu (m2\<lparr>ReadPos := ReadPos m2 + SectorsToRead * 2048\<rparr>)
                                 (lsn + SectorsToRead) (remaining - SectorsToRead) buf2 (p + unat (SectorsToRead * 2048))))))"

text \<open>The result is true when the call returns 1, an error.\<close>

definition cdvdman_read_sectors ::
  "'c device \<Rightarrow> 'c device \<Rightarrow> (u8 list \<Rightarrow> 'c \<Rightarrow> 'c) \<Rightarrow> bool \<Rightarrow> 'c cdvdman \<Rightarrow> u32 \<Rightarrow> u32 \<Rightarrow> u8 list \<Rightarrow> (bool \<times> 'c cdvdman \<times> u8 list) run" where
  "cdvdman_read_sectors dev zdev zinit accu m lsn sectors buf =
     (if mediaLsnCount m \<noteq> 0 \<and> lsn \<ge> mediaLsnCount m then r_ret (True, m\<lparr>cd_error := SCECdErIPI\<rparr>, buf)
      else
        let endOfMedia = (mediaLsnCount m \<noteq> 0 \<and> lsn + sectors > mediaLsnCount m);
            sectors1 = (if endOfMedia then mediaLsnCount m - lsn else sectors)
        in r_bind (if probed m then r_ret (True, m, buf) else ProbeZSO dev zinit m buf) (\<lambda>(ok, m1, buf1).
             if \<not> ok then r_ret (True, m1, buf1)
             else
               r_bind (read_transfers (if compressed m1 then zdev else dev) accu (m1\<lparr>cd_error := SCECdErNO\<rparr>) lsn sectors1 buf1 0) (\<lambda>(m2, buf2).
                 let m3 = (if endOfMedia then m2\<lparr>cd_error := SCECdErEOM\<rparr> else m2)
                 in r_ret (cd_error m3 \<noteq> SCECdErNO, m3, buf2))))"

section \<open>What a device promises\<close>

text \<open>The bytes of the image from a position on, as far as the image reaches.\<close>

definition delivers :: "u8 list \<Rightarrow> nat \<Rightarrow> nat \<Rightarrow> u8 list \<Rightarrow> bool" where
  "delivers img p n d \<longleftrightarrow> length d \<le> n \<and> (\<forall>i < n. p + i < length img \<longrightarrow> i < length d \<and> d ! i = img ! (p + i))"

text \<open>A read inside the image.\<close>

locale sector_device =
  fixes dev :: "'s device" and inv :: "'s \<Rightarrow> bool" and img :: "u8 list"
  assumes dev_reads: "inv s \<Longrightarrow> 0 < unat n \<Longrightarrow> 2048 * (unat lsn + unat n) \<le> length img \<Longrightarrow> unat lsn < 2 ^ 32 \<Longrightarrow> unat n < 2 ^ 20 \<Longrightarrow>
    \<exists>s'. dev s lsn n = r_ret (SCECdErNO, s', take (2048 * unat n) (drop (2048 * unat lsn) img)) \<and> inv s'"
begin

text \<open>A transfer and the ones that follow it fill the buffer as one.\<close>

lemma join_transfers:
  fixes n remaining lsn lsn1 rest :: u32
  assumes "unat n \<le> unat remaining" "unat lsn1 = unat lsn + unat n" "unat rest = unat remaining - unat n"
    "length (take (2048 * unat n) (drop (2048 * unat lsn) img)) = 2048 * unat n" "p + 2048 * unat remaining \<le> length buf"
  defines "buf1 \<equiv> take p buf @ take (2048 * unat n) (drop (2048 * unat lsn) img) @ drop (p + 2048 * unat n) buf"
  shows "take (p + 2048 * unat n) buf1 @ take (2048 * unat rest) (drop (2048 * unat lsn1) img) @ drop (p + 2048 * unat n + 2048 * unat rest) buf1 =
    take p buf @ take (2048 * unat remaining) (drop (2048 * unat lsn) img) @ drop (p + 2048 * unat remaining) buf"
proof -
  let ?d = "take (2048 * unat n) (drop (2048 * unat lsn) img)"
  have e: "2048 * unat remaining = 2048 * unat n + 2048 * unat rest" "p + 2048 * unat remaining = 2048 * unat rest + (p + 2048 * unat n)"
    using assms(1,3) by simp_all
  have p: "p \<le> length buf" using assms(5) by simp
  have "take (2048 * unat remaining) (drop (2048 * unat lsn) img) = ?d @ take (2048 * unat rest) (drop (2048 * unat lsn1) img)"
    using assms(2) unfolding e(1) by (simp add: take_add add.commute)
  moreover have "take (p + 2048 * unat n) buf1 = take p buf @ ?d" using assms(4) p by (simp add: buf1_def)
  moreover have "drop (p + 2048 * unat n + 2048 * unat rest) buf1 = drop (p + 2048 * unat remaining) buf"
    unfolding e(2) using assms(4) p by (simp add: buf1_def)
  ultimately show ?thesis by simp
qed

text \<open>The transfers of a read behind the logo.\<close>

lemma transfers_ok:
  assumes "inv (rd_state m)" "13 \<le> unat lsn" "unat lsn + unat remaining < 2 ^ 32" "unat remaining < 2 ^ 20"
    "2048 * (unat lsn + unat remaining) \<le> length img" "p + 2048 * unat remaining \<le> length buf"
  shows "\<exists>s'. inv s' \<and> read_transfers dev accu m lsn remaining buf p =
    r_ret (m\<lparr>rd_state := s', cd_error := (if remaining = 0 then cd_error m else SCECdErNO), ReadPos := ReadPos m + remaining * 2048\<rparr>,
      take p buf @ take (2048 * unat remaining) (drop (2048 * unat lsn) img) @ drop (p + 2048 * unat remaining) buf)"
  using assms
proof (induction "unat remaining" arbitrary: m lsn remaining buf p rule: less_induct)
  case less
  show ?case
  proof (cases "remaining = 0")
    case True
    then show ?thesis using less.prems(1) by (subst read_transfers.simps) (auto intro!: exI [of _ "rd_state m"])
  next
    case False
    define n where "n = (if accu \<and> remaining > 8 then 8 else remaining)"
    have n: "0 < unat n" "unat n \<le> unat remaining" using False by (auto simp: n_def word_less_nat_alt unat_gt_0)
    have u: "unat (n * 2048) = 2048 * unat n" "unat (lsn + n) = unat lsn + unat n" "unat (remaining - n) = unat remaining - unat n"
      using n less.prems(3,4) u32_unat_mult [of n 2048] u32_unat_add [of lsn n] unat_sub [of n remaining] by (simp_all add: word_le_nat_alt)
    have l64: "unat (ucast lsn :: u64) = unat lsn" using u32_unat_less [of lsn] by (simp add: unsigned_ucast_eq take_bit_nat_eq_self)
    have "2048 * (unat (ucast lsn :: u64) + unat n) \<le> length img" "unat (ucast lsn :: u64) < 2 ^ 32" "unat n < 2 ^ 20"
      using less.prems(3,4,5) n unfolding l64 by simp_all
    from dev_reads [OF less.prems(1) n(1) this] obtain s1 where
      s1: "dev (rd_state m) (ucast lsn) n = r_ret (SCECdErNO, s1, take (2048 * unat n) (drop (2048 * unat lsn) img))" "inv s1" unfolding l64 by blast
    let ?d = "take (2048 * unat n) (drop (2048 * unat lsn) img)"
    have ld: "length ?d = 2048 * unat n" using less.prems(5) n by simp
    let ?buf1 = "take p buf @ ?d @ drop (p + 2048 * unat n) buf"
    have w: "mem_write buf p ?d = Inr ?buf1" using ld less.prems(6) n by (simp add: mem_write_def)
    let ?m1 = "m\<lparr>rd_state := s1, cd_error := SCECdErNO, ReadPos := ReadPos m + n * 2048\<rparr>"
    have "\<not> lsn < 13" using less.prems(2) by (simp add: word_less_nat_alt)
    then have step: "read_transfers dev accu m lsn remaining buf p = read_transfers dev accu ?m1 (lsn + n) (remaining - n) ?buf1 (p + 2048 * unat n)"
      using False s1(1) w u(1) by (subst read_transfers.simps) (simp add: n_def [symmetric] Let_def unscramble_def)
    have "\<exists>s'. inv s' \<and> read_transfers dev accu ?m1 (lsn + n) (remaining - n) ?buf1 (p + 2048 * unat n) =
      r_ret (?m1\<lparr>rd_state := s', cd_error := (if remaining - n = 0 then cd_error ?m1 else SCECdErNO), ReadPos := ReadPos ?m1 + (remaining - n) * 2048\<rparr>,
        take (p + 2048 * unat n) ?buf1 @ take (2048 * unat (remaining - n)) (drop (2048 * unat (lsn + n)) img) @ drop (p + 2048 * unat n + 2048 * unat (remaining - n)) ?buf1)"
      using less.prems n u s1(2) ld by (intro less.hyps) (simp_all add: algebra_simps)
    then obtain s' where s': "inv s'" and r: "read_transfers dev accu ?m1 (lsn + n) (remaining - n) ?buf1 (p + 2048 * unat n) =
      r_ret (?m1\<lparr>rd_state := s', cd_error := SCECdErNO, ReadPos := ReadPos m + n * 2048 + (remaining - n) * 2048\<rparr>,
        take (p + 2048 * unat n) ?buf1 @ take (2048 * unat (remaining - n)) (drop (2048 * unat (lsn + n)) img) @ drop (p + 2048 * unat n + 2048 * unat (remaining - n)) ?buf1)"
      by auto
    note j = join_transfers [OF n(2) u(2,3) ld less.prems(6)]
    have "ReadPos m + n * 2048 + (remaining - n) * 2048 = ReadPos m + remaining * 2048" by (simp add: algebra_simps)
    then show ?thesis using step r s' False unfolding j by auto
  qed
qed

text \<open>A read behind the logo, when the reader has been chosen: what lies on the medium is delivered, whatever the
  size of the transfers; the error says whether the request went past its end.\<close>

lemma read_sectors_ok:
  assumes "inv (rd_state m)" "probed m" "\<not> compressed m" "13 \<le> unat lsn" "unat lsn + unat sectors < 2 ^ 32" "0 < sectors"
    "mediaLsnCount m \<noteq> 0 \<longrightarrow> lsn < mediaLsnCount m"
    and n: "n = (if mediaLsnCount m \<noteq> 0 then min (unat sectors) (unat (mediaLsnCount m) - unat lsn) else unat sectors)"
    and "n < 2 ^ 20" "2048 * (unat lsn + n) \<le> length img" "2048 * n \<le> length buf"
  shows "\<exists>s'. inv s' \<and> cdvdman_read_sectors dev zdev zinit accu m lsn sectors buf =
    r_ret (n < unat sectors, m\<lparr>rd_state := s', cd_error := (if n < unat sectors then SCECdErEOM else SCECdErNO), ReadPos := ReadPos m + of_nat (n * 2048)\<rparr>,
      take (2048 * n) (drop (2048 * unat lsn) img) @ drop (2048 * n) buf)"
proof -
  let ?M = "mediaLsnCount m"
  define eom where "eom \<longleftrightarrow> ?M \<noteq> 0 \<and> lsn + sectors > ?M"
  define s1 where "s1 = (if eom then ?M - lsn else sectors)"
  have add: "unat (lsn + sectors) = unat lsn + unat sectors" using assms(5) by (rule u32_unat_add)
  have sub: "?M \<noteq> 0 \<Longrightarrow> unat (?M - lsn) = unat ?M - unat lsn" using assms(7) by (intro unat_sub) simp
  have lt: "?M \<noteq> 0 \<Longrightarrow> unat lsn < unat ?M" using assms(7) by (simp add: word_less_nat_alt)
  have eom: "eom \<longleftrightarrow> n < unat sectors" using lt by (auto simp: eom_def n word_less_nat_alt add min_def)
  have s1: "unat s1 = n" using sub lt by (auto simp: s1_def eom_def n word_less_nat_alt add min_def)
  have pos: "0 < n" using lt assms(6) by (auto simp: n word_less_nat_alt)
  have "s1 \<noteq> 0" using s1 pos by auto
  have "inv (rd_state (m\<lparr>cd_error := SCECdErNO\<rparr>))" using assms(1) by simp
  moreover have "unat lsn + unat s1 < 2 ^ 32" "unat s1 < 2 ^ 20" using s1 assms(5,9) by (simp_all add: n split: if_splits)
  ultimately obtain s' where s': "inv s'" "read_transfers dev accu (m\<lparr>cd_error := SCECdErNO\<rparr>) lsn s1 buf 0 =
      r_ret (m\<lparr>cd_error := SCECdErNO, rd_state := s', ReadPos := ReadPos m + s1 * 2048\<rparr>, take (2048 * n) (drop (2048 * unat lsn) img) @ drop (2048 * n) buf)"
    using transfers_ok [of "m\<lparr>cd_error := SCECdErNO\<rparr>" lsn s1 0 buf accu] assms(4,10,11) \<open>s1 \<noteq> 0\<close> s1 by auto
  have "s1 * 2048 = of_nat (n * 2048)" using s1 by (metis of_nat_mult of_nat_numeral unat_inverse)
  moreover have "\<not> (?M \<noteq> 0 \<and> ?M \<le> lsn)" using assms(7) by auto
  ultimately show ?thesis using s' assms(2,3) eom unfolding cdvdman_read_sectors_def Let_def eom_def [symmetric] s1_def [symmetric] by auto
qed

end

text \<open>A device that also delivers what there is of a read past the end of the image, and can be used afterwards.  The
  sector cache relies on it.\<close>

locale read_ahead_device =
  fixes dev :: "'s device" and inv :: "'s \<Rightarrow> bool" and img :: "u8 list"
  assumes dev_ok: "inv s \<Longrightarrow> unat lsn < 2 ^ 32 \<Longrightarrow> unat n < 2 ^ 20 \<Longrightarrow>
    \<exists>e s' d. dev s lsn n = r_ret (e, s', d) \<and> inv s' \<and> delivers img (2048 * unat lsn) (2048 * unat n) d \<and>
      (2048 * (unat lsn + unat n) \<le> length img \<longrightarrow> e = SCECdErNO)"
begin

text \<open>The cache holds what the image has from its first sector on.\<close>

definition cached_ok :: "'s cdr \<Rightarrow> bool" where
  "cached_ok c \<longleftrightarrow> inv (dev_state c) \<and> length (sector_cache c) = 2048 * unat (MAX_SECTOR_CACHE c) \<and> 2048 \<le> length (ziso_tmp_buf c) \<and>
     (cur_sector c = 0xffffffffffffffff \<or>
      unat (cur_sector c) < 2 ^ 32 \<and> delivers img (2048 * unat (cur_sector c)) (2048 * unat (MAX_SECTOR_CACHE c)) (sector_cache c))"

definition reader_ok :: "'s cdr device \<Rightarrow> bool" where
  "reader_ok rd \<longleftrightarrow> (\<forall>c lsn n. cached_ok c \<longrightarrow> unat lsn < 2 ^ 32 \<longrightarrow> unat n < 2 ^ 20 \<longrightarrow>
     (\<exists>e c' d. rd c lsn n = r_ret (e, c', d) \<and> cached_ok c' \<and> delivers img (2048 * unat lsn) (2048 * unat n) d \<and>
        (2048 * (unat lsn + unat n) \<le> length img \<longrightarrow> e = SCECdErNO)))"

lemma delivers_exact: "delivers img p n d \<Longrightarrow> p + n \<le> length img \<Longrightarrow> d = take n (drop p img)"
  by (rule nth_equalityI) (auto simp: delivers_def intro!: le_antisym leI)

lemma dev_reader: "reader_ok (dev_read dev)"
  unfolding reader_ok_def
proof (intro allI impI)
  fix c :: "'s cdr" and lsn :: u64 and n :: u32
  assume c: "cached_ok c" and b: "unat lsn < 2 ^ 32" "unat n < 2 ^ 20"
  then have "inv (dev_state c)" by (simp add: cached_ok_def)
  from dev_ok [OF this b] obtain e s' d where d: "dev (dev_state c) lsn n = r_ret (e, s', d)" "inv s'"
    "delivers img (2048 * unat lsn) (2048 * unat n) d" "2048 * (unat lsn + unat n) \<le> length img \<longrightarrow> e = SCECdErNO" by blast
  then show "\<exists>e c' d. dev_read dev c lsn n = r_ret (e, c', d) \<and> cached_ok c' \<and> delivers img (2048 * unat lsn) (2048 * unat n) d \<and>
      (2048 * (unat lsn + unat n) \<le> length img \<longrightarrow> e = SCECdErNO)"
    using c by (auto simp: dev_read_def cached_ok_def)
qed

lemma load_cache_ok:
  assumes "cached_ok c" "unat lsn < 2 ^ 32"
  shows "\<exists>c'. load_cache dev c lsn = r_ret c' \<and> cached_ok c' \<and> cur_sector c' = lsn \<and> MAX_SECTOR_CACHE c' = MAX_SECTOR_CACHE c"
proof -
  have "unat (MAX_SECTOR_CACHE c) < 256" using unsigned_less [of "MAX_SECTOR_CACHE c"] by simp
  then have m: "unat (ucast (MAX_SECTOR_CACHE c) :: u32) = unat (MAX_SECTOR_CACHE c)" by (simp add: unsigned_ucast_eq take_bit_nat_eq_self)
  then have m20: "unat (ucast (MAX_SECTOR_CACHE c) :: u32) < 2 ^ 20" using \<open>unat (MAX_SECTOR_CACHE c) < 256\<close> by simp
  have "inv (dev_state c)" using assms(1) by (simp add: cached_ok_def)
  from dev_ok [OF this assms(2) m20] obtain e s' d where d: "dev (dev_state c) lsn (ucast (MAX_SECTOR_CACHE c)) = r_ret (e, s', d)" "inv s'"
      "delivers img (2048 * unat lsn) (2048 * unat (MAX_SECTOR_CACHE c)) d" unfolding m by blast
  have l: "length d \<le> length (sector_cache c)" using d(3) assms(1) by (simp add: delivers_def cached_ok_def)
  then have w: "mem_write (sector_cache c) 0 d = Inr (d @ drop (length d) (sector_cache c))" by (simp add: mem_write_def)
  have "delivers img (2048 * unat lsn) (2048 * unat (MAX_SECTOR_CACHE c)) (d @ drop (length d) (sector_cache c))"
    using d(3) l assms(1) by (auto simp: delivers_def cached_ok_def nth_append)
  with d(1,2) w l assms show ?thesis by (simp add: load_cache_def dev_read_def cached_ok_def)
qed

text \<open>The cache is transparent, also where the read that fills it goes past the end of the image.\<close>

lemma cached_reader: "reader_ok (DeviceReadSectorsCached dev)"
  unfolding reader_ok_def
proof (intro allI impI)
  fix c :: "'s cdr" and lsn :: u64 and n :: u32
  assume c: "cached_ok c" and b: "unat lsn < 2 ^ 32" "unat n < 2 ^ 20"
  let ?r = "\<lambda>r. \<exists>e c' d. r = r_ret (e, c', d) \<and> cached_ok c' \<and> delivers img (2048 * unat lsn) (2048 * unat n) d \<and>
      (2048 * (unat lsn + unat n) \<le> length img \<longrightarrow> e = SCECdErNO)"
  let ?M = "MAX_SECTOR_CACHE c"
  show "?r (DeviceReadSectorsCached dev c lsn n)"
  proof (cases "unat n < unat ?M")
    case False
    then show ?thesis using dev_reader c b unfolding reader_ok_def DeviceReadSectorsCached_def by simp
  next
    case True
    have "unat ?M < 256" using unsigned_less [of ?M] by simp
    then have small: "unat (ucast ?M :: u64) = unat ?M" "unat (ucast n :: u64) = unat n" "unat ?M < 256"
      using b(2) by (simp_all add: unsigned_ucast_eq take_bit_nat_eq_self)
    have ad: "unat (lsn + ucast n) = unat lsn + unat n" using b small by (subst unat_add_lem [THEN iffD1]) simp_all
    let ?load = "cur_sector c = 0xffffffffffff \<or> lsn < cur_sector c \<or> (lsn + ucast n) - cur_sector c > ucast ?M"
    obtain c1 where c1: "(if ?load then load_cache dev c lsn else r_ret c) = r_ret c1" "cached_ok c1"
        "unat (cur_sector c1) \<le> unat lsn" "unat lsn + unat n \<le> unat (cur_sector c1) + unat ?M" "MAX_SECTOR_CACHE c1 = ?M"
    proof (cases ?load)
      case load: True
      from load_cache_ok [OF c b(1)] obtain c' where "load_cache dev c lsn = r_ret c'" "cached_ok c'" "cur_sector c' = lsn" "MAX_SECTOR_CACHE c' = ?M" by blast
      with that [of c'] load True show thesis by simp
    next
      case keep: False
      then have "cur_sector c \<le> lsn" by auto
      then have le: "cur_sector c \<le> lsn" "cur_sector c \<le> lsn + ucast n" using ad by (simp_all add: word_le_nat_alt)
      then have "unat (lsn + ucast n - cur_sector c) = unat lsn + unat n - unat (cur_sector c)" using ad by (simp add: unat_sub)
      with keep small have "unat lsn + unat n - unat (cur_sector c) \<le> unat ?M" by (simp add: word_less_nat_alt)
      with that [of c] keep le c show thesis by (simp add: word_le_nat_alt)
    qed
    let ?q = "unat lsn - unat (cur_sector c1)"
    have q: "unat (lsn - cur_sector c1) = ?q" using c1(3) by (simp add: unat_sub word_le_nat_alt)
    have len: "length (sector_cache c1) = 2048 * unat ?M" "?q + unat n \<le> unat ?M" using c1 by (simp_all add: cached_ok_def)
    then have fits: "?q * 2048 + 2048 * unat n \<le> length (sector_cache c1)" by simp
    have cur: "delivers img (2048 * unat (cur_sector c1)) (length (sector_cache c1)) (sector_cache c1)"
      using c1(2,3,5) len b(1) by (auto simp: cached_ok_def word_le_nat_alt)
    have "delivers img (2048 * unat lsn) (2048 * unat n) (take (2048 * unat n) (drop (?q * 2048) (sector_cache c1)))"
      unfolding delivers_def
    proof (intro conjI allI impI)
      fix i assume i: "i < 2048 * unat n" "2048 * unat lsn + i < length img"
      have p: "2048 * unat (cur_sector c1) + (?q * 2048 + i) = 2048 * unat lsn + i" using c1(3) by simp
      have "?q * 2048 + i < length (sector_cache c1)" using fits i(1) by simp
      then have "sector_cache c1 ! (?q * 2048 + i) = img ! (2048 * unat lsn + i)" using cur i(2) p unfolding delivers_def by metis
      then show "i < length (take (2048 * unat n) (drop (?q * 2048) (sector_cache c1)))"
        "take (2048 * unat n) (drop (?q * 2048) (sector_cache c1)) ! i = img ! (2048 * unat lsn + i)" using fits i(1) by simp_all
    qed simp
    moreover have "DeviceReadSectorsCached dev c lsn n = r_ret (SCECdErNO, c1, take (2048 * unat n) (drop (?q * 2048) (sector_cache c1)))"
      using True c1(1) fits by (simp only: DeviceReadSectorsCached_def if_True r_bind_simps q mem_read_Inr)
    ultimately show ?thesis using c1(2) by simp
  qed
qed

text \<open>How far a buffer has been filled from a position of the image on, the rest of it being as before.\<close>

definition filled :: "nat \<Rightarrow> nat \<Rightarrow> u8 list \<Rightarrow> u8 list \<Rightarrow> bool" where
  "filled ofs p out out' \<longleftrightarrow> length out' = length out \<and> (\<forall>i < p. ofs + i < length img \<longrightarrow> out' ! i = img ! (ofs + i)) \<and>
     (\<forall>i < length out. p \<le> i \<longrightarrow> out' ! i = out ! i)"

lemma filled_write:
  assumes "filled ofs p out out1" "delivers img (ofs + p) n d" "p + n \<le> length out"
  shows "\<exists>out2. mem_write out1 p d = Inr out2 \<and> filled ofs (p + n) out out2"
proof -
  have len: "length d \<le> n" "length out1 = length out" using assms(1,2) by (simp_all add: delivers_def filled_def)
  then have "p + length d \<le> length out1" using assms(3) by simp
  from mem_write_Inr [OF this] obtain out2 where m: "mem_write out1 p d = Inr out2" "length out2 = length out1"
    "\<forall>k < length out1. out2 ! k = (if p \<le> k \<and> k < p + length d then d ! (k - p) else out1 ! k)" by blast
  have "out2 ! i = img ! (ofs + i)" if i: "i < p + n" "ofs + i < length img" for i
  proof (cases "i < p")
    case True
    then show ?thesis using m(3) i assms(1,3) len by (simp add: filled_def)
  next
    case False
    then have "i - p < n" "ofs + p + (i - p) = ofs + i" using i by simp_all
    with assms(2) i(2) have "i - p < length d" "d ! (i - p) = img ! (ofs + i)" unfolding delivers_def by metis+
    moreover have "i < p + length d" using calculation(1) False by simp
    ultimately show ?thesis using False m(3) i(1) assms(3) len by simp
  qed
  moreover have "out2 ! i = out ! i" if "i < length out" "p + n \<le> i" for i using that m(3) len assms(1) by (simp add: filled_def)
  ultimately show ?thesis using m(1,2) len by (auto simp: filled_def)
qed

lemma read_tmp_ok:
  assumes "reader_ok rd" "cached_ok c" "unat lba < 2 ^ 32"
  shows "\<exists>c'. read_tmp rd c lba = r_ret c' \<and> cached_ok c' \<and> delivers img (2048 * unat lba) 2048 (take 2048 (ziso_tmp_buf c'))"
proof -
  obtain e c1 d where d: "rd c lba 1 = r_ret (e, c1, d)" "cached_ok c1" "delivers img (2048 * unat lba) 2048 d"
    using assms unfolding reader_ok_def by (metis (no_types, lifting) mult.right_neutral one_less_numeral_iff one_less_power semiring_norm(76) unat_1 zero_less_numeral)
  then have l: "length d \<le> 2048" "2048 \<le> length (ziso_tmp_buf c1)" by (simp_all add: delivers_def cached_ok_def)
  then have "mem_write (ziso_tmp_buf c1) 0 d = Inr (d @ drop (length d) (ziso_tmp_buf c1))" by (simp add: mem_write_def)
  moreover have "delivers img (2048 * unat lba) 2048 (take 2048 (d @ drop (length d) (ziso_tmp_buf c1)))"
    using d(3) l by (auto simp: delivers_def nth_append)
  ultimately show ?thesis using d l by (simp add: read_tmp_def cached_ok_def)
qed

lemma delivers_part:
  assumes "delivers img q m d" "a + n \<le> m"
  shows "delivers img (q + a) n (take n (drop a d))"
  unfolding delivers_def
proof (intro conjI allI impI)
  fix i assume i: "i < n" "q + a + i < length img"
  then have "a + i < m" "q + (a + i) < length img" using assms(2) by simp_all
  with assms(1) have "a + i < length d" "d ! (a + i) = img ! (q + (a + i))" unfolding delivers_def by blast+
  then show "i < length (take n (drop a d))" "take n (drop a d) ! i = img ! (q + a + i)" using i(1) by (simp_all add: add.assoc)
qed simp

lemma game_first_ok:
  assumes "reader_ok rd" "cached_ok c" "unat lba < 2 ^ 32" "unat pos < 2048" "unat sz \<le> length out" "ofs = 2048 * unat lba + unat pos"
  shows "\<exists>c1 out1 sz1 lba1 p1. game_first rd c out sz lba pos = r_ret (c1, out1, sz1, lba1, p1) \<and> cached_ok c1 \<and>
    filled ofs p1 out out1 \<and> p1 + unat sz1 = unat sz \<and> (sz1 = 0 \<or> 2048 * unat lba1 = ofs + p1)"
proof (cases "pos = 0")
  case True
  then show ?thesis using assms(2,6) by (simp add: game_first_def filled_def)
next
  case False
  define r where "r = min sz (2048 - pos)"
  have "unat (2048 - pos) = 2048 - unat pos" using assms(4) unat_sub [of pos 2048] by (simp add: word_le_nat_alt)
  then have r: "unat r = min (unat sz) (2048 - unat pos)" by (auto simp: r_def min_def word_le_nat_alt)
  obtain c1 where c1: "read_tmp rd c lba = r_ret c1" "cached_ok c1" "delivers img (2048 * unat lba) 2048 (take 2048 (ziso_tmp_buf c1))"
    using read_tmp_ok [OF assms(1-3)] by blast
  have fit: "unat pos + unat r \<le> 2048" using r assms(4) by simp
  then have rd: "mem_read (ziso_tmp_buf c1) (unat pos) (unat r) = Inr (take (unat r) (drop (unat pos) (ziso_tmp_buf c1)))"
    using c1(2) by (simp add: cached_ok_def)
  have "take (unat r) (drop (unat pos) (take 2048 (ziso_tmp_buf c1))) = take (unat r) (drop (unat pos) (ziso_tmp_buf c1))"
    using fit by (simp add: drop_take take_take min_def)
  with delivers_part [OF c1(3) fit] have "delivers img (ofs + 0) (unat r) (take (unat r) (drop (unat pos) (ziso_tmp_buf c1)))" using assms(6) by simp
  moreover have "filled ofs 0 out out" by (simp add: filled_def)
  moreover have "0 + unat r \<le> length out" using r assms(5) by simp
  ultimately obtain out1 where out1: "mem_write out 0 (take (unat r) (drop (unat pos) (ziso_tmp_buf c1))) = Inr out1" "filled ofs (0 + unat r) out out1"
    using filled_write by blast
  have "unat (sz - r) = unat sz - unat r" using r by (intro unat_sub) (simp add: word_le_nat_alt)
  moreover have "unat (lba + 1) = unat lba + 1" using assms(3) by (subst unat_add_lem [THEN iffD1]) simp_all
  moreover have "sz - r = 0 \<or> unat r = 2048 - unat pos"
  proof (cases "unat sz \<le> 2048 - unat pos")
    case True
    then have "r = sz" using r by (simp add: word_unat_eq_iff)
    then show ?thesis by simp
  qed (use r in simp)
  ultimately show ?thesis using False c1(1,2) rd out1 r assms(4,6) unfolding game_first_def by (auto simp: r_def [symmetric])
qed

lemma block_count:
  fixes sz :: u32
  defines "nb \<equiv> sz div 2048 + (if sz mod 2048 \<noteq> 0 then 1 else 0)"
  shows "unat nb = (unat sz + 2047) div 2048"
proof -
  have "unat (sz div 2048) = unat sz div 2048" "unat (sz mod 2048) = unat sz mod 2048" by (simp_all add: unat_div_distrib unat_mod_distrib)
  moreover have "unat sz div 2048 + 1 < 2 ^ 32" using u32_unat_less [of sz] by simp
  moreover have "sz mod 2048 = 0 \<longleftrightarrow> unat sz mod 2048 = 0" using calculation(2) by (metis unat_eq_zero)
  ultimately have "unat nb = unat sz div 2048 + (if unat sz mod 2048 \<noteq> 0 then 1 else 0)"
    using u32_unat_add [of "sz div 2048" 1] unfolding nb_def by simp
  moreover have "(unat sz mod 2048 + 2047) div 2048 = (if unat sz mod 2048 \<noteq> 0 then 1 else 0)"
    by (cases "unat sz mod 2048 = 0") (auto intro!: div_nat_eqI simp: less_imp_le_nat)
  ultimately show ?thesis using div_add1_eq [of "unat sz" 2047 2048] by simp
qed

lemma game_blocks_ok:
  assumes "reader_ok rd" "cached_ok c" "filled ofs p out out1" "unat sz < 2 ^ 30" "p + unat sz \<le> length out" "ofs + p + unat sz < 2 ^ 43"
    "sz = 0 \<or> 2048 * unat lba = ofs + p"
  shows "\<exists>c2 out2 sz2 lba2 p2. game_blocks rd c out1 sz lba p = r_ret (c2, out2, sz2, lba2, p2) \<and> cached_ok c2 \<and>
    filled ofs p2 out out2 \<and> p2 + unat sz2 = p + unat sz \<and> (sz2 = 0 \<or> 2048 * unat lba2 = ofs + p2) \<and> unat sz2 \<le> 2048"
proof -
  define nb where "nb = sz div 2048 + (if sz mod 2048 \<noteq> 0 then 1 else 0)"
  have nb: "unat nb = (unat sz + 2047) div 2048" unfolding nb_def by (rule block_count)
  show ?thesis
  proof (cases "nb > 1")
    case False
    then have "(unat sz + 2047) div 2048 \<le> 1" using nb by (simp add: word_less_nat_alt)
    then have "unat sz \<le> 2048" by simp
    then show ?thesis using False assms(2,3,7) by (simp add: game_blocks_def nb_def [symmetric])
  next
    case True
    define n where "n = nb - 1"
    have gt: "1 < (unat sz + 2047) div 2048" using True nb by (simp add: word_less_nat_alt)
    have n: "unat n = (unat sz + 2047) div 2048 - 1" unfolding n_def using gt nb by (subst unat_sub) (simp_all add: word_le_nat_alt)
    have le: "2048 * unat n < unat sz" "unat sz \<le> 2048 * unat n + 2048" "unat n < 2 ^ 20" using n gt assms(4) by simp_all
    have sz: "sz \<noteq> 0" using le(1) by auto
    then have lba: "2048 * unat lba = ofs + p" using assms(7) by simp
    then have lba32: "unat lba < 2 ^ 32" "unat lba + unat n < 2 ^ 32" using assms(6) le(1) by simp_all
    obtain e c2 d where d: "rd c lba n = r_ret (e, c2, d)" "cached_ok c2" "delivers img (ofs + p) (2048 * unat n) d"
      using assms(1,2) lba32(1) le(3) unfolding reader_ok_def lba [symmetric] by blast
    obtain out2 where out2: "mem_write out1 p d = Inr out2" "filled ofs (p + 2048 * unat n) out out2"
      using filled_write [OF assms(3) d(3)] le(1) assms(5) by auto
    have m: "unat (2048 * n) = 2048 * unat n" using le(3) u32_unat_mult [of 2048 n] by simp
    then have s2: "unat (sz - 2048 * n) = unat sz - 2048 * unat n" using le(1) by (subst unat_sub) (simp_all add: word_le_nat_alt)
    have "unat (ucast n :: u64) = unat n" using le(3) by (simp add: unsigned_ucast_eq take_bit_nat_eq_self)
    then have "unat (lba + ucast n) = unat lba + unat n" using lba32 le(3) by (subst unat_add_lem [THEN iffD1]) simp_all
    then show ?thesis using True d out2 m s2 lba le unfolding game_blocks_def nb_def [symmetric] Let_def by (simp add: n_def [symmetric])
  qed
qed

lemma game_rest_ok:
  assumes "reader_ok rd" "cached_ok c" "filled ofs p out out1" "unat sz \<le> 2048" "p + unat sz \<le> length out" "ofs + p + unat sz < 2 ^ 43"
    "sz = 0 \<or> 2048 * unat lba = ofs + p"
  shows "\<exists>c2 out2. game_rest rd c out1 sz lba p = r_ret (c2, out2) \<and> cached_ok c2 \<and> filled ofs (p + unat sz) out out2"
proof (cases "sz = 0")
  case True
  then show ?thesis using assms(2,3) by (simp add: game_rest_def)
next
  case False
  then have lba: "2048 * unat lba = ofs + p" "unat lba < 2 ^ 32" using assms(6,7) by simp_all
  obtain c2 where c2: "read_tmp rd c lba = r_ret c2" "cached_ok c2" "delivers img (ofs + p) 2048 (take 2048 (ziso_tmp_buf c2))"
    using read_tmp_ok [OF assms(1,2) lba(2)] lba(1) by auto
  have "delivers img (ofs + p) (unat sz) (take (unat sz) (ziso_tmp_buf c2))"
    using delivers_part [OF c2(3), of 0 "unat sz"] assms(4) by (simp add: min_def)
  from filled_write [OF assms(3) this assms(5)] obtain out2
    where "mem_write out1 p (take (unat sz) (ziso_tmp_buf c2)) = Inr out2" "filled ofs (p + unat sz) out out2" by blast
  then show ?thesis using False c2 assms(4) by (simp add: game_rest_def cached_ok_def)
qed

lemma read_raw_ok:
  assumes "cached_ok c" "unat shift \<le> 11" "unat sz < 2 ^ 30" "unat sz \<le> length out" "unat offset * 2 ^ unat shift + unat sz < 2 ^ 43"
  shows "\<exists>c' out'. read_raw_data dev index c out sz offset shift = r_ret (sz, c', out') \<and> cached_ok c' \<and>
    filled (unat offset * 2 ^ unat shift) (unat sz) out out'"
proof -
  define rd where "rd = (if index then dev_read dev else DeviceReadSectorsCached dev)"
  have rd: "reader_ok rd" using dev_reader cached_reader by (simp add: rd_def)
  let ?l = "ucast (raw_lba offset shift) :: u64" and ?o = "unat offset * 2 ^ unat shift"
  have "unat ?l = unat (raw_lba offset shift)" using u32_unat_less [of "raw_lba offset shift"] by (simp add: unsigned_ucast_eq take_bit_nat_eq_self)
  then have l: "unat ?l < 2 ^ 32" "?o = 2048 * unat ?l + unat (raw_pos offset shift)" "unat (raw_pos offset shift) < 2048"
    using raw_split [OF assms(2), of offset] u32_unat_less [of "raw_lba offset shift"] by simp_all
  from game_first_ok [OF rd assms(1) l(1,3) assms(4) l(2)] obtain c1 out1 sz1 lba1 p1 where
    1: "game_first rd c out sz ?l (raw_pos offset shift) = r_ret (c1, out1, sz1, lba1, p1)" "cached_ok c1" "filled ?o p1 out out1"
      "p1 + unat sz1 = unat sz" "sz1 = 0 \<or> 2048 * unat lba1 = ?o + p1" by blast
  have b1: "unat sz1 < 2 ^ 30" "p1 + unat sz1 \<le> length out" "?o + p1 + unat sz1 < 2 ^ 43" using 1(4) assms(3,4,5) by simp_all
  from game_blocks_ok [OF rd 1(2,3) b1 1(5)] obtain c2 out2 sz2 lba2 p2 where
    2: "game_blocks rd c1 out1 sz1 lba1 p1 = r_ret (c2, out2, sz2, lba2, p2)" "cached_ok c2" "filled ?o p2 out out2"
      "p2 + unat sz2 = p1 + unat sz1" "sz2 = 0 \<or> 2048 * unat lba2 = ?o + p2" "unat sz2 \<le> 2048" by blast
  have b2: "p2 + unat sz2 \<le> length out" "?o + p2 + unat sz2 < 2 ^ 43" using 1(4) 2(4) assms(4,5) by simp_all
  from game_rest_ok [OF rd 2(2,3,6) b2 2(5)] obtain c3 out3 where
    3: "game_rest rd c2 out2 sz2 lba2 p2 = r_ret (c3, out3)" "cached_ok c3" "filled ?o (p2 + unat sz2) out out3" by blast
  then show ?thesis using 1 2 unfolding read_raw_data_def Let_def rd_def [symmetric] by simp
qed

end

sublocale read_ahead_device \<subseteq> sector_device
proof
  fix s :: 's and lsn :: u64 and n :: u32
  assume a: "inv s" "2048 * (unat lsn + unat n) \<le> length img" "unat lsn < 2 ^ 32" "unat n < 2 ^ 20"
  from dev_ok [OF a(1,3,4)] obtain e s' d where "dev s lsn n = r_ret (e, s', d)" "inv s'" "delivers img (2048 * unat lsn) (2048 * unat n) d" "e = SCECdErNO"
    using a(2) by blast
  then show "\<exists>s'. dev s lsn n = r_ret (SCECdErNO, s', take (2048 * unat n) (drop (2048 * unat lsn) img)) \<and> inv s'"
    using delivers_exact [of "2048 * unat lsn" "2048 * unat n" d] a(2) by simp
qed

section \<open>The hard disk and the share as devices\<close>

definition hdd_dev :: "(u32 \<Rightarrow> u32 \<Rightarrow> u8 list option) \<Rightarrow> hdl_partspecs list \<Rightarrow> nat device" where
  "hdd_dev xfer ps cur lsn n = DeviceReadSectors_hdd xfer ps (length ps) cur [] (ucast lsn) n"

text \<open>A game whose partitions hold the sectors from 0 up to \<open>cnt\<close>.\<close>

definition hdd_game :: "(u32 \<Rightarrow> u8 list) \<Rightarrow> (u32 \<Rightarrow> u32 \<Rightarrow> u8 list option) \<Rightarrow> hdl_partspecs list \<Rightarrow> nat \<Rightarrow> nat \<Rightarrow> bool" where
  "hdd_game disk xfer ps cnt cur \<longleftrightarrow> parts_ok ps \<and> xfer_ok disk xfer \<and> (\<forall>l. length (disk l) = 512) \<and> cur < length ps \<and> cnt < 2 ^ 31 \<and>
     (\<forall>l. (\<exists>p \<in> set ps. in_part p l) \<longleftrightarrow> unat l < cnt)"

definition hdd_img :: "(u32 \<Rightarrow> u8 list) \<Rightarrow> hdl_partspecs list \<Rightarrow> nat \<Rightarrow> u8 list" where
  "hdd_img disk ps cnt = concat (map (\<lambda>k. hdd_sector disk ps (of_nat k)) [0..<cnt])"

lemma concat_length_2048: "(\<And>k. k < t \<Longrightarrow> length (f k) = 2048) \<Longrightarrow> j \<le> t \<Longrightarrow> length (concat (map f [i..<j])) = 2048 * (j - i)"
  by (induction j) auto

lemma concat_range:
  assumes "\<And>k. k < t \<Longrightarrow> length (f k) = 2048"
  shows "take (2048 * n) (drop (2048 * a) (concat (map f [0..<t]))) = concat (map f [a..<min (a + n) t])"
proof -
  note len = concat_length_2048 [of t f, OF assms]
  show ?thesis
  proof (cases "a \<le> t")
    case True
    let ?b = "min (a + n) t"
    have "[0..<t] = [0..<a] @ [a..<?b] @ [?b..<t]" 
      using True by (metis le_add1 min.cobounded2 min.boundedI upt_add_eq_append le_add_diff_inverse zero_le)
    then have "concat (map f [0..<t]) = concat (map f [0..<a]) @ concat (map f [a..<?b]) @ concat (map f [?b..<t])" by (metis concat_append map_append)
    moreover have "length (concat (map f [0..<a])) = 2048 * a" "length (concat (map f [a..<?b])) = 2048 * (?b - a)" using len True by simp_all
    ultimately show ?thesis by (auto simp: min_def)
  next
    case False
    then show ?thesis using len [of t 0] by simp
  qed
qed

lemma hdd_sector_length: "hdd_game disk xfer ps cnt cur \<Longrightarrow> k < cnt \<Longrightarrow> length (hdd_sector disk ps (of_nat k)) = 2048"
proof -
  assume g: "hdd_game disk xfer ps cnt cur" "k < cnt"
  then have "unat (of_nat k :: u32) = k" by (intro u32_of_nat) (simp add: hdd_game_def)
  then have "\<exists>p \<in> set ps. in_part p (of_nat k)" using g unfolding hdd_game_def by metis
  then obtain p where "p \<in> set ps" "in_part p (of_nat k)" by blast
  then have "find (\<lambda>p. in_part p (of_nat k)) ps = Some p" using g(1) by (intro find_in_part) (simp_all add: hdd_game_def)
  then show ?thesis using g(1) by (simp add: hdd_sector_def hdd_game_def length_concat comp_def sum_list_triv)
qed

lemma hdd_dev_ahead:
  assumes g: "hdd_game disk xfer ps cnt cur" and b: "unat lsn < 2 ^ 32" "unat n < 2 ^ 20"
  shows "\<exists>e cur'. hdd_dev xfer ps cur lsn n = r_ret (e, cur', take (2048 * unat n) (drop (2048 * unat lsn) (hdd_img disk ps cnt))) \<and>
    hdd_game disk xfer ps cnt cur' \<and> (unat lsn + unat n \<le> cnt \<longrightarrow> e = SCECdErNO)"
proof -
  let ?l = "ucast lsn :: u32" and ?f = "\<lambda>k. hdd_sector disk ps (of_nat k)"
  define q where "q = min (unat n) (cnt - unat lsn)"
  have l: "unat ?l = unat lsn" using b(1) by (simp add: unsigned_ucast_eq take_bit_nat_eq_self)
  then have ln: "?l = of_nat (unat lsn)" by (metis unat_inverse)
  have nw: "unat (?l + of_nat k) = unat lsn + k" if "unat lsn + k < 2 ^ 32" for k
    using that unfolding ln of_nat_add [symmetric] by (rule u32_of_nat)
  have h: "cnt < 2 ^ 31" "\<And>l. (\<exists>p \<in> set ps. in_part p l) \<longleftrightarrow> unat l < cnt" "parts_ok ps" "xfer_ok disk xfer" "cur < length ps" "unat n < 2 ^ 30"
    using g b(2) by (auto simp: hdd_game_def)
  have in1: "\<forall>k < q. \<exists>p \<in> set ps. in_part p (?l + of_nat k)"
  proof (intro allI impI)
    fix k assume "k < q"
    then have "unat lsn + k < cnt" by (auto simp: q_def)
    then show "\<exists>p \<in> set ps. in_part p (?l + of_nat k)" using h(1) nw [of k] unfolding h(2) by simp
  qed
  have in2: "q < unat n \<longrightarrow> (\<forall>p \<in> set ps. \<not> in_part p (?l + of_nat q))"
  proof
    assume "q < unat n"
    then have "cnt \<le> unat lsn + q" "unat lsn + q < 2 ^ 32" using b(1) h(1) by (auto simp: q_def)
    then have "\<not> unat (?l + of_nat q) < cnt" using nw by simp
    then show "\<forall>p \<in> set ps. \<not> in_part p (?l + of_nat q)" unfolding h(2) [symmetric] by blast
  qed
  obtain cur' where c: "cur' < length ps" "hdd_dev xfer ps cur lsn n = r_ret (if q = unat n then SCECdErNO else SCECdErTRMOPN, cur',
      concat (map (\<lambda>k. hdd_sector disk ps (?l + of_nat k)) [0..<q]))"
    using hdd_reads_prefix [OF h(3,4,5,6) _ in1 in2, of "[]"] unfolding hdd_dev_def by (auto simp: q_def)
  have "map (\<lambda>k. hdd_sector disk ps (?l + of_nat k)) [0..<q] = map ?f [unat lsn..<min (unat lsn + unat n) cnt]"
    using ln by (intro nth_equalityI) (auto simp: q_def)
  then have "concat (map (\<lambda>k. hdd_sector disk ps (?l + of_nat k)) [0..<q]) = take (2048 * unat n) (drop (2048 * unat lsn) (hdd_img disk ps cnt))"
    unfolding hdd_img_def by (subst concat_range) (use hdd_sector_length [OF g] in simp_all)
  moreover have "unat lsn + unat n \<le> cnt \<longrightarrow> q = unat n" by (simp add: q_def)
  ultimately show ?thesis using c g by (auto simp: hdd_game_def)
qed

lemma delivers_cut: "delivers img p n (take n (drop p img))"
  by (auto simp: delivers_def)

interpretation hdd_disc: read_ahead_device "hdd_dev xfer ps" "hdd_game disk xfer ps cnt" "hdd_img disk ps cnt"
  for disk xfer ps cnt
proof
  fix s :: nat and lsn :: u64 and n :: u32
  assume a: "hdd_game disk xfer ps cnt s" "unat lsn < 2 ^ 32" "unat n < 2 ^ 20"
  have "length (hdd_img disk ps cnt) = 2048 * cnt"
    using concat_length_2048 [of cnt "\<lambda>k. hdd_sector disk ps (of_nat k)" cnt 0] hdd_sector_length [OF a(1)] by (simp add: hdd_img_def)
  with hdd_dev_ahead [OF a] delivers_cut show "\<exists>e s' d. hdd_dev xfer ps s lsn n = r_ret (e, s', d) \<and> hdd_game disk xfer ps cnt s' \<and>
      delivers (hdd_img disk ps cnt) (2048 * unat lsn) (2048 * unat n) d \<and> (2048 * (unat lsn + unat n) \<le> length (hdd_img disk ps cnt) \<longrightarrow> e = SCECdErNO)"
    by (metis mult_le_cancel1 zero_less_numeral)
qed

text \<open>The share, for a game in one file.  The state is the semaphore.\<close>

definition smb_dev :: "smb_server \<Rightarrow> u16 list \<Rightarrow> bool device" where
  "smb_dev srv FIDs sema lsn n = DeviceReadSectors_smb srv FIDs 1 sema (ucast lsn) n"

definition smb_game :: "(u16 \<Rightarrow> u8 list) \<Rightarrow> smb_server \<Rightarrow> u16 list \<Rightarrow> bool \<Rightarrow> bool" where
  "smb_game file srv FIDs sema \<longleftrightarrow> srv_ok file srv \<and> FIDs \<noteq> [] \<and> length (file (FIDs ! 0)) < 2 ^ 42 \<and> sema"

interpretation smb_disc: sector_device "smb_dev srv FIDs" "smb_game content srv FIDs" "content (FIDs ! 0)"
  for content srv FIDs
proof
  fix s :: bool and lsn :: u64 and n :: u32
  assume a: "smb_game content srv FIDs s" "0 < unat n" "2048 * (unat lsn + unat n) \<le> length (content (FIDs ! 0))" "unat lsn < 2 ^ 32" "unat n < 2 ^ 20"
  have l: "unat (ucast lsn :: u32) = unat lsn" using a(4) by (simp add: unsigned_ucast_eq take_bit_nat_eq_self)
  have s: "srv_ok content srv" "FIDs \<noteq> []" "length (content (FIDs ! 0)) < 2 ^ 42" "s = True" using a(1) by (simp_all add: smb_game_def)
  then have "unat (ucast lsn :: u32) < 2 ^ 31" "2048 * (unat (ucast lsn :: u32) + unat n) \<le> length (content (FIDs ! 0))" "length (content (FIDs ! 0)) < 2 ^ 64"
    using a(3) unfolding l by simp_all
  moreover have "0 < n" using a(2) by (simp add: word_less_nat_alt)
  ultimately show "\<exists>s'. smb_dev srv FIDs s lsn n = r_ret (SCECdErNO, s', take (2048 * unat n) (drop (2048 * unat lsn) (content (FIDs ! 0)))) \<and> smb_game content srv FIDs s'"
    using smb_single_file [OF s(1,2) _ a(5)] a(1) s(4) unfolding smb_dev_def by (auto simp: l)
qed

section \<open>The cache is transparent\<close>

text \<open>A sequence of accesses, each given by whether it reads the index, the memory it fills, its size and its shifted offset.\<close>

fun raw_run :: "'s device \<Rightarrow> 's cdr \<Rightarrow> (bool \<times> u8 list \<times> u32 \<times> u32 \<times> u32) list \<Rightarrow> (u8 list list) run" where
  "raw_run dev c [] = r_ret []"
| "raw_run dev c ((index, out, sz, offset, shift) # rs) =
     r_bind (read_raw_data dev index c out sz offset shift) (\<lambda>(r, c1, out1).
     r_bind (raw_run dev c1 rs) (\<lambda>outs. r_ret (out1 # outs)))"

fun inside :: "u8 list \<Rightarrow> bool \<times> u8 list \<times> u32 \<times> u32 \<times> u32 \<Rightarrow> bool" where
  "inside img (index, out, sz, offset, shift) \<longleftrightarrow> unat shift \<le> 11 \<and> unat sz < 2 ^ 30 \<and> unat sz \<le> length out \<and>
     unat offset * 2 ^ unat shift + unat sz \<le> length img"

fun wanted :: "u8 list \<Rightarrow> bool \<times> u8 list \<times> u32 \<times> u32 \<times> u32 \<Rightarrow> u8 list" where
  "wanted img (index, out, sz, offset, shift) = take (unat sz) (drop (unat offset * 2 ^ unat shift) img) @ drop (unat sz) out"

context read_ahead_device
begin

lemma filled_exact:
  assumes "filled ofs n out out'" "ofs + n \<le> length img" "n \<le> length out"
  shows "out' = take n (drop ofs img) @ drop n out"
  using assms by (intro nth_equalityI) (auto simp: filled_def nth_append)

lemma raw_run_ok:
  assumes "length img < 2 ^ 43"
  shows "cached_ok c \<Longrightarrow> \<forall>r \<in> set rs. inside img r \<Longrightarrow> raw_run dev c rs = r_ret (map (wanted img) rs)"
proof (induction rs arbitrary: c)
  case (Cons r rs)
  obtain index out sz offset shift where r: "r = (index, out, sz, offset, shift)" by (cases r) auto
  then have i: "unat shift \<le> 11" "unat sz < 2 ^ 30" "unat sz \<le> length out" "unat offset * 2 ^ unat shift + unat sz \<le> length img"
    using Cons.prems(2) by simp_all
  then obtain c' out' where "read_raw_data dev index c out sz offset shift = r_ret (sz, c', out')" "cached_ok c'"
      "filled (unat offset * 2 ^ unat shift) (unat sz) out out'"
    using read_raw_ok [OF Cons.prems(1) i(1,2,3)] assms by (meson le_less_trans)
  with Cons i show ?case by (simp add: r filled_exact)
qed simp

end

text \<open>C7: accesses to a compressed image on the hard disk through the sector cache deliver exactly the bytes of the image,
  whatever the size of the cache and in whatever order the accesses come: the cache cannot be observed.\<close>

theorem sector_cache_transparent:
  assumes "hdd_game disk xfer ps cnt (dev_state c)" "length (sector_cache c) = 2048 * unat (MAX_SECTOR_CACHE c)" "2048 \<le> length (ziso_tmp_buf c)"
    "cur_sector c = 0xffffffffffffffff" "\<forall>r \<in> set rs. inside (hdd_img disk ps cnt) r"
  shows "raw_run (hdd_dev xfer ps) c rs = r_ret (map (wanted (hdd_img disk ps cnt)) rs)"
proof (rule hdd_disc.raw_run_ok)
  have "length (hdd_img disk ps cnt) = 2048 * cnt"
    using concat_length_2048 [of cnt "\<lambda>k. hdd_sector disk ps (of_nat k)" cnt 0] hdd_sector_length [OF assms(1)] by (simp add: hdd_img_def)
  then show "length (hdd_img disk ps cnt) < 2 ^ 43" using assms(1) by (simp add: hdd_game_def)
  show "hdd_disc.cached_ok disk xfer ps cnt c" unfolding hdd_disc.cached_ok_def using assms by simp
qed (use assms(5) in simp)

definition plain_disk :: "u32 \<Rightarrow> u8 list" where
  "plain_disk l = replicate 512 (ucast l)"

definition plain_xfer :: "u32 \<Rightarrow> u32 \<Rightarrow> u8 list option" where
  "plain_xfer lba n = Some (concat (map (\<lambda>k. plain_disk (lba + of_nat k)) [0..<unat n]))"

lemma two_parts_game: "cur < 2 \<Longrightarrow> hdd_game plain_disk plain_xfer two_parts_disk 4 cur"
proof -
  assume c: "cur < 2"
  have "parts_ok two_parts_disk" by (auto simp: parts_ok_def two_parts_disk_def in_part_def word_le_nat_alt word_less_nat_alt)
  moreover have "(\<exists>p \<in> set two_parts_disk. in_part p l) \<longleftrightarrow> unat l < 4" for l
    by (auto simp: two_parts_disk_def in_part_def word_le_nat_alt word_less_nat_alt)
  ultimately show ?thesis using c by (simp add: hdd_game_def xfer_ok_def plain_xfer_def plain_disk_def two_parts_disk_def)
qed

definition fresh_cdr :: "nat cdr" where
  "fresh_cdr = \<lparr>dev_state = 0, MAX_SECTOR_CACHE = 3, sector_cache = replicate (2048 * 3) 0, cur_sector = 0xffffffffffffffff, ziso_tmp_buf = replicate 2048 0\<rparr>"

theorem sector_cache_transparent_witness:
  "raw_run (hdd_dev plain_xfer two_parts_disk) fresh_cdr [(False, replicate 8 0, 8, 4090, 0), (True, replicate 8 0, 8, 100, 0), (False, replicate 8 0, 6, 1500, 2)] =
   r_ret (map (wanted (hdd_img plain_disk two_parts_disk 4)) [(False, replicate 8 0, 8, 4090, 0), (True, replicate 8 0, 8, 100, 0), (False, replicate 8 0, 6, 1500, 2)])"
proof -
  have "length (hdd_img plain_disk two_parts_disk 4) = 2048 * 4"
    using concat_length_2048 [of 4 "\<lambda>k. hdd_sector plain_disk two_parts_disk (of_nat k)" 4 0] hdd_sector_length [OF two_parts_game [of 0]] by (simp add: hdd_img_def)
  then show ?thesis
    by (intro sector_cache_transparent [where cnt = 4]) (simp_all add: two_parts_game fresh_cdr_def)
qed

end
