(* ===== verification/CdDrive.thy ===== *)
theory CdDrive
  imports CdRead
begin

text \<open>
  The in-game disc drive as a game sees it, on top of theory \<open>CdRead\<close>: reads into buffers of any alignment and
  with sectors of any size (\<open>cdvdman_read\<close> of \<open>modules/iopcore/cdvdman/cdvdman.c\<close>, built with the copy that the disk
  controller needs), positions on the disc, and what happens at the end of the medium and after errors.
\<close>

section \<open>Positions on a disc\<close>

text \<open>Minutes, seconds and sectors are binary coded decimals.\<close>

record sceCdlLOCCD =
  minute :: u8
  second :: u8
  loc_sector :: u8

definition from_bcd :: "u8 \<Rightarrow> u32" where
  "from_bcd b = drop_bit 4 (ucast b) * 10 + (ucast b AND 0xF)"

definition to_bcd :: "u32 \<Rightarrow> u8" where
  "to_bcd x = ucast ((x div 10) * 16 + x - (x div 10) * 10)"

definition sceCdPosToInt :: "sceCdlLOCCD \<Rightarrow> u32" where
  "sceCdPosToInt p =
     (let result = from_bcd (minute p);
          result = result * 60;
          result = result + from_bcd (second p);
          result = result * 75;
          result = result + from_bcd (loc_sector p)
      in result - 150)"

definition sceCdIntToPos :: "u32 \<Rightarrow> sceCdlLOCCD" where
  "sceCdIntToPos i0 =
     (let i = i0 + 150;
          se = i div 75;
          sc = i - se * 75;
          mi = se div 60;
          se = se - mi * 60
      in \<lparr>minute = to_bcd mi, second = to_bcd se, loc_sector = to_bcd sc\<rparr>)"

section \<open>Reading into any buffer\<close>

abbreviation CDVDMAN_BUF_SECTORS :: u32 where "CDVDMAN_BUF_SECTORS \<equiv> 2"

text \<open>The header that is made up for sectors of 2340 bytes.\<close>

definition head_2340 :: "u32 \<Rightarrow> u8 list" where
  "head_2340 lsn = (let p = sceCdIntToPos lsn in [minute p, second p, loc_sector p, 0, 0, 0, 8, 0, 0, 0, 8, 0])"

text \<open>The copy through \<open>cdvdman_buf\<close>.  \<open>rs\<close> is \<open>cdvdman_read_sectors\<close>, whose result is not looked at; \<open>p\<close> is the
  position in the buffer.\<close>

partial_function (option) copy_loop ::
  "('m \<Rightarrow> u32 \<Rightarrow> u32 \<Rightarrow> u8 list \<Rightarrow> (bool \<times> 'm \<times> u8 list) run) \<Rightarrow> u16 \<Rightarrow> 'm \<Rightarrow> u32 \<Rightarrow> u32 \<Rightarrow> u8 list \<Rightarrow> u8 list \<Rightarrow> nat \<Rightarrow>
   ('m \<times> u8 list \<times> u8 list) run" where
  "copy_loop rs sector_size m rpos sectors cbuf buf p =
     (if sectors = 0 then r_ret (m, cbuf, buf)
      else
        let nsectors = (if sector_size \<noteq> 2048 then 1 else if sectors > CDVDMAN_BUF_SECTORS then CDVDMAN_BUF_SECTORS else sectors);
            nbytes = unat (nsectors * ucast sector_size)
        in (case rs m rpos nsectors cbuf of
              None \<Rightarrow> None
            | Some (Inl e) \<Rightarrow> Some (Inl e)
            | Some (Inr (r, m1, cbuf1)) \<Rightarrow>
                (case mem_read cbuf1 0 nbytes of
                   Inl e \<Rightarrow> Some (Inl e)
                 | Inr d \<Rightarrow>
                     (case mem_write buf (p + (if sector_size = 2340 then 12 else 0)) d of
                        Inl e \<Rightarrow> Some (Inl e)
                      | Inr buf1 \<Rightarrow>
                          (case (if sector_size = 2340 then mem_write buf1 p (head_2340 (rpos + nsectors - 1)) else Inr buf1) of
                             Inl e \<Rightarrow> Some (Inl e)
                           | Inr buf2 \<Rightarrow> copy_loop rs sector_size m1 (rpos + nsectors) (sectors - nsectors) cbuf1 buf2 (p + nbytes))))))"

definition cdvdman_read ::
  "('c cdvdman \<Rightarrow> u32 \<Rightarrow> u32 \<Rightarrow> u8 list \<Rightarrow> (bool \<times> 'c cdvdman \<times> u8 list) run) \<Rightarrow> bool \<Rightarrow> 'c cdvdman \<Rightarrow> u32 \<Rightarrow> u32 \<Rightarrow> u16 \<Rightarrow> u8 list \<Rightarrow> u8 list \<Rightarrow>
   ('c cdvdman \<times> u8 list \<times> u8 list) run" where
  "cdvdman_read rs aligned m lsn sectors sector_size cbuf buf =
     (let m0 = m\<lparr>cd_status := SCECdStatRead\<rparr>
      in r_bind
           (if \<not> aligned then copy_loop rs sector_size m0 lsn sectors cbuf buf 0
            else r_bind (rs m0 lsn sectors buf) (\<lambda>(r, m1, buf1). r_ret (m1, cbuf, buf1)))
           (\<lambda>(m1, cbuf1, buf1). r_ret (m1\<lparr>ReadPos := 0, cd_status := SCECdStatPause\<rparr>, cbuf1, buf1)))"

section \<open>Positions\<close>

lemma bcd_roundtrip:
  assumes "unat x < 100"
  shows "from_bcd (to_bcd x) = x"
proof -
  have "\<forall>n \<in> set [0..<100]. from_bcd (to_bcd (of_nat n)) = of_nat n" by code_simp
  then show ?thesis using assms by (metis atLeastLessThan_iff set_upt unat_inverse zero_le)
qed

text \<open>C39: a sector number up to minute 99 comes back from its position on the disc.\<close>

theorem position_roundtrip:
  assumes "unat i + 150 < 100 * 60 * 75"
  shows "sceCdPosToInt (sceCdIntToPos i) = i"
proof -
  define j where "j = i + 150"
  have j: "unat j = unat i + 150" using assms u32_unat_add [of i 150] by (simp add: j_def)
  define se mi where "se = j div 75" and "mi = se div 60"
  have u: "unat se = unat j div 75" "unat mi = unat j div 75 div 60" by (simp_all add: se_def mi_def unat_div_distrib)
  have sc: "j - se * 75 = j mod 75" "se - mi * 60 = se mod 60"
    by (simp_all add: se_def mi_def minus_div_mult_eq_mod)
  have "unat mi < 100" using u j assms by simp
  moreover have "unat (j mod 75) < 75" "unat (se mod 60) < 60" by (simp_all add: unat_mod_distrib)
  ultimately have "from_bcd (to_bcd mi) = mi" "from_bcd (to_bcd (se mod 60)) = se mod 60" "from_bcd (to_bcd (j mod 75)) = j mod 75"
    by (intro bcd_roundtrip; simp)+
  then have "sceCdPosToInt (sceCdIntToPos i) = (mi * 60 + se mod 60) * 75 + j mod 75 - 150"
    by (simp add: sceCdPosToInt_def sceCdIntToPos_def Let_def j_def [symmetric] se_def [symmetric] mi_def [symmetric] sc)
  also have "mi * 60 + se mod 60 = se" by (simp add: mi_def div_mult_mod_eq)
  also have "se * 75 + j mod 75 = j" by (simp add: se_def div_mult_mod_eq)
  finally show ?thesis by (simp add: j_def)
qed

theorem position_roundtrip_witness: "sceCdPosToInt (sceCdIntToPos 333000) = 333000"
  by (rule position_roundtrip) simp

section \<open>Reads behind the logo\<close>

context sector_device
begin

text \<open>The first read also looks for a compressed image; what that leaves in the buffer is overwritten.\<close>

lemma first_read_ok:
  assumes "inv (rd_state m)" "\<not> probed m" "\<not> compressed m" "le32 img 0 \<noteq> ZSO_MAGIC" "13 \<le> unat lsn" "unat lsn + unat sectors < 2 ^ 32" "0 < sectors"
    "mediaLsnCount m \<noteq> 0 \<longrightarrow> lsn < mediaLsnCount m"
    and n: "n = (if mediaLsnCount m \<noteq> 0 then min (unat sectors) (unat (mediaLsnCount m) - unat lsn) else unat sectors)"
    and "n < 2 ^ 20" "2048 * (unat lsn + n) \<le> length img" "2048 * n \<le> length buf"
  shows "\<exists>s'. inv s' \<and> cdvdman_read_sectors dev zdev zinit accu m lsn sectors buf =
    r_ret (n < unat sectors, m\<lparr>probed := True, rd_state := s', cd_error := (if n < unat sectors then SCECdErEOM else SCECdErNO), ReadPos := ReadPos m + of_nat (n * 2048)\<rparr>,
      take (2048 * n) (drop (2048 * unat lsn) img) @ drop (2048 * n) buf)"
proof -
  have lt: "mediaLsnCount m \<noteq> 0 \<Longrightarrow> unat lsn < unat (mediaLsnCount m)" using assms(8) by (simp add: word_less_nat_alt)
  have pos: "0 < n" using lt assms(7) by (auto simp: n word_less_nat_alt)
  have "2048 * (unat (0 :: u64) + unat (1 :: u32)) \<le> length img" using assms(5,11) by simp
  from dev_reads [OF assms(1) _ this] obtain s1 where s1: "dev (rd_state m) 0 1 = r_ret (SCECdErNO, s1, take 2048 img)" "inv s1" by auto
  let ?buf1 = "take 2048 img @ drop 2048 buf"
  have l: "2048 \<le> length img" "2048 \<le> length buf" using assms(5,11,12) pos by simp_all
  then have w: "mem_write buf 0 (take 2048 img) = Inr ?buf1" by (simp add: mem_write_def)
  have "le32 (take 4 ?buf1) 0 \<noteq> ZSO_MAGIC" using l assms(4) by (simp add: le32_def nth_append)
  moreover have "mem_read ?buf1 0 4 = Inr (take 4 ?buf1)" using l by simp
  ultimately have "ProbeZSO dev zinit m buf = r_ret (True, m\<lparr>rd_state := s1, probed := True\<rparr>, ?buf1)"
    using s1(1) w by (simp add: ProbeZSO_def)
  then have eq: "cdvdman_read_sectors dev zdev zinit accu m lsn sectors buf =
      cdvdman_read_sectors dev zdev zinit accu (m\<lparr>rd_state := s1, probed := True\<rparr>) lsn sectors ?buf1"
    using assms(2,8) by (auto simp: cdvdman_read_sectors_def Let_def)
  have "drop (2048 * n) ?buf1 = drop (2048 * n) buf"
    using pos l by (cases n) (simp_all add: add.commute)
  moreover
  let ?m1 = "m\<lparr>rd_state := s1, probed := True\<rparr>"
  have m1: "inv (rd_state ?m1)" "probed ?m1" "\<not> compressed ?m1" "mediaLsnCount ?m1 \<noteq> 0 \<longrightarrow> lsn < mediaLsnCount ?m1"
      "n = (if mediaLsnCount ?m1 \<noteq> 0 then min (unat sectors) (unat (mediaLsnCount ?m1) - unat lsn) else unat sectors)" "2048 * n \<le> length ?buf1"
    using s1(2) assms(3,8,12) n l by simp_all
  note read_sectors_ok [OF m1(1,2,3) assms(5,6,7) m1(4,5) assms(10,11) m1(6), of zdev zinit accu]
  ultimately show ?thesis unfolding eq by (simp only: cdvdman.simps) (elim exE conjE, rule exI, simp)
qed

end


definition one_part_disk :: "hdl_partspecs list" where
  "one_part_disk = [\<lparr>part_offset = 0, data_start = 1000, part_size = 65536\<rparr>]"

lemma one_part_game: "hdd_game plain_disk plain_xfer one_part_disk 32 0"
proof -
  have "(\<exists>p \<in> set one_part_disk. in_part p l) \<longleftrightarrow> unat l < 32" for l
    by (auto simp: one_part_disk_def in_part_def word_less_nat_alt)
  then show ?thesis
    by (simp add: hdd_game_def parts_ok_def xfer_ok_def plain_xfer_def plain_disk_def) (simp add: one_part_disk_def)
qed

lemma one_part_length: "length (hdd_img plain_disk one_part_disk 32) = 2048 * 32"
  using concat_length_2048 [of 32 "\<lambda>k. hdd_sector plain_disk one_part_disk (of_nat k)" 32 0] hdd_sector_length [OF one_part_game] by (simp add: hdd_img_def)

definition one_part_drive :: "nat cdvdman" where
  "one_part_drive = \<lparr>rd_state = 0, cd_error = SCECdErNO, probed = True, compressed = False, ReadPos = 0, logo_key = 0, mediaLsnCount = 20, cd_status = SCECdStatPause\<rparr>"

definition blank :: "nat \<Rightarrow> u8 list" where
  "blank n = replicate (2048 * n) 0"

lemma blank_simps [simp]: "length (blank n) = 2048 * n" "drop (2048 * k) (blank n) = blank (n - k)"
  by (simp_all add: blank_def diff_mult_distrib2)


context sector_device
begin

lemma copy_loop_ok:
  fixes zdev zinit accu
  defines "rs \<equiv> cdvdman_read_sectors dev zdev zinit accu"
  assumes "inv (rd_state m)" "probed m" "\<not> compressed m" "13 \<le> unat lsn" "unat lsn + unat sectors < 2 ^ 32"
    "mediaLsnCount m \<noteq> 0 \<longrightarrow> unat lsn + unat sectors \<le> unat (mediaLsnCount m)"
    "2048 * (unat lsn + unat sectors) \<le> length img" "p + 2048 * unat sectors \<le> length buf" "4096 \<le> length cbuf"
  shows "\<exists>s' cbuf'. inv s' \<and> copy_loop rs 2048 m lsn sectors cbuf buf p =
    r_ret (m\<lparr>rd_state := s', cd_error := (if sectors = 0 then cd_error m else SCECdErNO), ReadPos := ReadPos m + sectors * 2048\<rparr>, cbuf',
      take p buf @ take (2048 * unat sectors) (drop (2048 * unat lsn) img) @ drop (p + 2048 * unat sectors) buf)"
  using assms(2-)
proof (induction "unat sectors" arbitrary: m lsn sectors cbuf buf p rule: less_induct)
  case less
  show ?case
  proof (cases "sectors = 0")
    case True
    then show ?thesis using less.prems(1) by (subst copy_loop.simps) (auto intro!: exI [of _ "rd_state m"])
  next
    case False
    define n where "n = (if sectors > 2 then 2 else sectors)"
    have n: "0 < unat n" "unat n \<le> unat sectors" "unat n \<le> 2" "0 < n" using False by (auto simp: n_def word_less_nat_alt unat_gt_0 word_gt_0)
    have u: "unat (n * 2048) = 2048 * unat n" "unat (lsn + n) = unat lsn + unat n" "unat (sectors - n) = unat sectors - unat n"
      using n less.prems(5) u32_unat_mult [of n 2048] u32_unat_add [of lsn n] unat_sub [of n sectors] by (simp_all add: word_le_nat_alt)
    have media: "mediaLsnCount m \<noteq> 0 \<longrightarrow> lsn < mediaLsnCount m"
        "unat n = (if mediaLsnCount m \<noteq> 0 then min (unat n) (unat (mediaLsnCount m) - unat lsn) else unat n)"
      using less.prems(6) n by (auto simp: word_less_nat_alt)
    have b: "unat lsn + unat n < 2 ^ 32" "unat n < 2 ^ 20" "2048 * (unat lsn + unat n) \<le> length img" "2048 * unat n \<le> length cbuf"
      using less.prems(5,7,9) n by simp_all
    let ?d = "take (2048 * unat n) (drop (2048 * unat lsn) img)"
    obtain s1 where s1: "inv s1" "rs m lsn n cbuf =
        r_ret (False, m\<lparr>rd_state := s1, cd_error := SCECdErNO, ReadPos := ReadPos m + n * 2048\<rparr>, ?d @ drop (2048 * unat n) cbuf)"
      using read_sectors_ok [OF less.prems(1,2,3,4) b(1) n(4) media b(2,3,4), of zdev zinit accu] unfolding rs_def by (auto simp: unat_inverse)
    have ld: "length ?d = 2048 * unat n" using b(3) by simp
    let ?buf1 = "take p buf @ ?d @ drop (p + 2048 * unat n) buf"
    let ?cbuf1 = "?d @ drop (2048 * unat n) cbuf"
    have rd: "mem_read ?cbuf1 0 (2048 * unat n) = Inr ?d" using ld by simp
    have w: "mem_write buf p ?d = Inr ?buf1" using ld less.prems(8) n by (simp add: mem_write_def)
    let ?m1 = "m\<lparr>rd_state := s1, cd_error := SCECdErNO, ReadPos := ReadPos m + n * 2048\<rparr>"
    have step: "copy_loop rs 2048 m lsn sectors cbuf buf p = copy_loop rs 2048 ?m1 (lsn + n) (sectors - n) ?cbuf1 ?buf1 (p + 2048 * unat n)"
      using False s1(2) w rd u(1) by (subst copy_loop.simps) (simp add: n_def [symmetric] Let_def)
    have "\<exists>s' cbuf'. inv s' \<and> copy_loop rs 2048 ?m1 (lsn + n) (sectors - n) ?cbuf1 ?buf1 (p + 2048 * unat n) =
      r_ret (?m1\<lparr>rd_state := s', cd_error := (if sectors - n = 0 then cd_error ?m1 else SCECdErNO), ReadPos := ReadPos ?m1 + (sectors - n) * 2048\<rparr>, cbuf',
        take (p + 2048 * unat n) ?buf1 @ take (2048 * unat (sectors - n)) (drop (2048 * unat (lsn + n)) img) @ drop (p + 2048 * unat n + 2048 * unat (sectors - n)) ?buf1)"
      using less.prems n u s1(1) ld by (intro less.hyps) (simp_all add: algebra_simps)
    then obtain s' cbuf' where s': "inv s'" and r: "copy_loop rs 2048 ?m1 (lsn + n) (sectors - n) ?cbuf1 ?buf1 (p + 2048 * unat n) =
      r_ret (?m1\<lparr>rd_state := s', cd_error := SCECdErNO, ReadPos := ReadPos m + n * 2048 + (sectors - n) * 2048\<rparr>, cbuf',
        take (p + 2048 * unat n) ?buf1 @ take (2048 * unat (sectors - n)) (drop (2048 * unat (lsn + n)) img) @ drop (p + 2048 * unat n + 2048 * unat (sectors - n)) ?buf1)"
      by auto
    note j = join_transfers [OF n(2) u(2,3) ld less.prems(8)]
    have "ReadPos m + n * 2048 + (sectors - n) * 2048 = ReadPos m + sectors * 2048" by (simp add: algebra_simps)
    then show ?thesis using step r s' False unfolding j by auto
  qed
qed

text \<open>Sectors of 2340 bytes: the data of each sector is written twelve bytes too far.\<close>

lemma copy_2340:
  fixes zdev zinit accu
  defines "rs \<equiv> cdvdman_read_sectors dev zdev zinit accu"
  assumes "inv (rd_state m)" "probed m" "\<not> compressed m" "13 \<le> unat lsn" "unat lsn + unat sectors < 2 ^ 32" "0 < unat sectors"
    "mediaLsnCount m \<noteq> 0 \<longrightarrow> unat lsn + unat sectors \<le> unat (mediaLsnCount m)"
    "2048 * (unat lsn + unat sectors) \<le> length img" "p + 2340 * unat sectors = length buf" "4096 \<le> length cbuf"
  shows "copy_loop rs 2340 m lsn sectors cbuf buf p = Some (Inl OutOfBounds)"
  using assms(2-)
proof (induction "unat sectors" arbitrary: m lsn sectors cbuf buf p rule: less_induct)
  case less
  have nz: "sectors \<noteq> 0" using less.prems(6) by auto
  have one: "unat (1 :: u32) = 1" "0 < (1 :: u32)" by simp_all
  have media: "mediaLsnCount m \<noteq> 0 \<longrightarrow> lsn < mediaLsnCount m"
      "unat (1 :: u32) = (if mediaLsnCount m \<noteq> 0 then min (unat (1 :: u32)) (unat (mediaLsnCount m) - unat lsn) else unat (1 :: u32))"
    using less.prems(6,7) by (auto simp: word_less_nat_alt)
  have b: "unat lsn + unat (1 :: u32) < 2 ^ 32" "unat (1 :: u32) < 2 ^ 20" "2048 * (unat lsn + unat (1 :: u32)) \<le> length img" "2048 * unat (1 :: u32) \<le> length cbuf"
    using less.prems(5,6,8,10) by simp_all
  obtain s1 where s1: "inv s1" "rs m lsn 1 cbuf =
      r_ret (False, m\<lparr>rd_state := s1, cd_error := SCECdErNO, ReadPos := ReadPos m + 2048\<rparr>, take 2048 (drop (2048 * unat lsn) img) @ drop 2048 cbuf)"
    using read_sectors_ok [OF less.prems(1,2,3,4) b(1) one(2) media b(2,3,4), of zdev zinit accu] unfolding rs_def by auto
  let ?cbuf1 = "take 2048 (drop (2048 * unat lsn) img) @ drop 2048 cbuf"
  have lc: "length ?cbuf1 = length cbuf" using b(3,4) by simp
  then have rd: "mem_read ?cbuf1 0 2340 = Inr (take 2340 ?cbuf1)" "length (take 2340 ?cbuf1) = 2340" using less.prems(10) by (simp_all only: mem_read_def length_take) simp_all
  show ?case
  proof (cases "unat sectors = 1")
    case True
    have "mem_write buf (p + 12) (take 2340 ?cbuf1) = Inl OutOfBounds" unfolding mem_write_def rd(2) using less.prems(9) True by simp
    then show ?thesis using nz s1(2) rd(1) by (subst copy_loop.simps) (simp only: Let_def, simp)
  next
    case False
    then have big: "1 < unat sectors" using less.prems(6) by simp
    then have fit: "p + 12 + length (take 2340 ?cbuf1) \<le> length buf" unfolding rd(2) using less.prems(9) by simp
    from mem_write_Inr [OF this] obtain buf1 where w1: "mem_write buf (p + 12) (take 2340 ?cbuf1) = Inr buf1" "length buf1 = length buf" by blast
    have "p + length (head_2340 lsn) \<le> length buf1" using w1(2) less.prems(9) big by (simp add: head_2340_def Let_def)
    from mem_write_Inr [OF this] obtain buf2 where w2: "mem_write buf1 p (head_2340 lsn) = Inr buf2" "length buf2 = length buf1" by blast
    let ?m1 = "m\<lparr>rd_state := s1, cd_error := SCECdErNO, ReadPos := ReadPos m + 2048\<rparr>"
    have step: "copy_loop rs 2340 m lsn sectors cbuf buf p = copy_loop rs 2340 ?m1 (lsn + 1) (sectors - 1) ?cbuf1 buf2 (p + 2340)"
      using nz s1(2) rd(1) w1(1) w2(1) by (subst copy_loop.simps) (simp only: Let_def, simp)
    have u: "unat (lsn + 1) = unat lsn + 1" "unat (sectors - 1) = unat sectors - 1"
      using b(1) big u32_unat_add [of lsn 1] unat_sub [of 1 sectors] by (simp_all add: word_le_nat_alt)
    show ?thesis unfolding step using less.prems u s1(1) big w1(2) w2(2) lc by (intro less.hyps) (simp_all add: algebra_simps)
  qed
qed

end

text \<open>C9: for a game on the hard disk whose transfers succeed, with a disc that is known already and not compressed, a read of
  at least one and less than \<open>2 ^ 20\<close> sectors of 2048 bytes, from sector 13 on, that lies on the medium and in the
  image, into a buffer with room for it, leaves the same sectors of the image in memory and the drive in the same state, without an error, whether it
  goes straight into an aligned buffer or through the intermediate buffer of two sectors into an unaligned one.\<close>

theorem unaligned_read:
  assumes "hdd_game disk xfer ps cnt (rd_state m)" "probed m" "\<not> compressed m" "13 \<le> unat lsn" "0 < sectors" "unat sectors < 2 ^ 20"
    "unat lsn + unat sectors < 2 ^ 32" "mediaLsnCount m \<noteq> 0 \<longrightarrow> unat lsn + unat sectors \<le> unat (mediaLsnCount m)"
    "2048 * (unat lsn + unat sectors) \<le> length (hdd_img disk ps cnt)" "2048 * unat sectors \<le> length buf" "4096 \<le> length cbuf"
  shows "\<forall>aligned. \<exists>cur cbuf'. hdd_game disk xfer ps cnt cur \<and>
    cdvdman_read (cdvdman_read_sectors (hdd_dev xfer ps) zdev zinit accu) aligned m lsn sectors 2048 cbuf buf =
      r_ret (m\<lparr>rd_state := cur, cd_error := SCECdErNO, ReadPos := 0, cd_status := SCECdStatPause\<rparr>, cbuf',
        take (2048 * unat sectors) (drop (2048 * unat lsn) (hdd_img disk ps cnt)) @ drop (2048 * unat sectors) buf)"
proof
  fix aligned
  let ?m0 = "m\<lparr>cd_status := SCECdStatRead\<rparr>"
  have nz: "sectors \<noteq> 0" using assms(5) by auto
  have m0: "hdd_game disk xfer ps cnt (rd_state ?m0)" "probed ?m0" "\<not> compressed ?m0" "mediaLsnCount ?m0 \<noteq> 0 \<longrightarrow> unat lsn + unat sectors \<le> unat (mediaLsnCount ?m0)"
    using assms by simp_all
  show "\<exists>cur cbuf'. hdd_game disk xfer ps cnt cur \<and>
    cdvdman_read (cdvdman_read_sectors (hdd_dev xfer ps) zdev zinit accu) aligned m lsn sectors 2048 cbuf buf =
      r_ret (m\<lparr>rd_state := cur, cd_error := SCECdErNO, ReadPos := 0, cd_status := SCECdStatPause\<rparr>, cbuf',
        take (2048 * unat sectors) (drop (2048 * unat lsn) (hdd_img disk ps cnt)) @ drop (2048 * unat sectors) buf)"
  proof (cases aligned)
    case True
    have "0 < unat sectors" using assms(5) by (simp add: word_less_nat_alt)
    then have media: "mediaLsnCount ?m0 \<noteq> 0 \<longrightarrow> lsn < mediaLsnCount ?m0"
        "unat sectors = (if mediaLsnCount ?m0 \<noteq> 0 then min (unat sectors) (unat (mediaLsnCount ?m0) - unat lsn) else unat sectors)"
      using assms(8) by (auto simp: word_less_nat_alt)
    from hdd_disc.read_sectors_ok [OF m0(1,2,3) assms(4,7,5) media assms(6,9,10), of zdev zinit accu]
    show ?thesis using True by (auto simp: cdvdman_read_def)
  next
    case False
    have "0 + 2048 * unat sectors \<le> length buf" using assms(10) by simp
    from hdd_disc.copy_loop_ok [OF m0(1,2,3) assms(4,7) m0(4) assms(9) this assms(11), of zdev zinit accu]
    show ?thesis using False nz by (auto simp: cdvdman_read_def)
  qed
qed

lemma one_part_range:
  "probed one_part_drive" "\<not> compressed one_part_drive" "rd_state one_part_drive = 0" "13 \<le> unat (14 :: u32)" "0 < (3 :: u32)" "unat (3 :: u32) < 2 ^ 20"
  "unat (14 :: u32) + unat (3 :: u32) < 2 ^ 32" "mediaLsnCount one_part_drive \<noteq> 0 \<longrightarrow> unat (14 :: u32) + unat (3 :: u32) \<le> unat (mediaLsnCount one_part_drive)"
  "2048 * (unat (14 :: u32) + unat (3 :: u32)) \<le> length (hdd_img plain_disk one_part_disk 32)"
  by (simp_all add: one_part_drive_def one_part_length)

theorem unaligned_read_witness:
  "\<forall>aligned. \<exists>cur cbuf'. hdd_game plain_disk plain_xfer one_part_disk 32 cur \<and>
    cdvdman_read (cdvdman_read_sectors (hdd_dev plain_xfer one_part_disk) (hdd_dev plain_xfer one_part_disk) (\<lambda>h s. s) False) aligned one_part_drive 14 3 2048 (blank 2) (blank 3) =
      r_ret (one_part_drive\<lparr>rd_state := cur, cd_error := SCECdErNO, ReadPos := 0, cd_status := SCECdStatPause\<rparr>, cbuf',
        take (2048 * unat (3 :: u32)) (drop (2048 * unat (14 :: u32)) (hdd_img plain_disk one_part_disk 32)) @ drop (2048 * unat (3 :: u32)) (blank 3))"
proof -
  have g: "hdd_game plain_disk plain_xfer one_part_disk 32 (rd_state one_part_drive)" using one_part_game one_part_range(3) by simp
  have b: "2048 * unat (3 :: u32) \<le> length (blank 3)" "4096 \<le> length (blank 2)" by simp_all
  show ?thesis by (rule unaligned_read [OF g one_part_range(1,2,4-9) b])
qed

text \<open>C38: a read of sectors of 2340 bytes into an unaligned buffer of exactly the size of the sectors writes behind the
  end of the buffer.\<close>

theorem sector_2340_overflow:
  assumes "hdd_game disk xfer ps cnt (rd_state m)" "probed m" "\<not> compressed m" "13 \<le> unat lsn" "0 < sectors"
    "unat lsn + unat sectors < 2 ^ 32" "mediaLsnCount m \<noteq> 0 \<longrightarrow> unat lsn + unat sectors \<le> unat (mediaLsnCount m)"
    "2048 * (unat lsn + unat sectors) \<le> length (hdd_img disk ps cnt)" "length buf = 2340 * unat sectors" "4096 \<le> length cbuf"
  shows "cdvdman_read (cdvdman_read_sectors (hdd_dev xfer ps) zdev zinit accu) False m lsn sectors 2340 cbuf buf = Some (Inl OutOfBounds)"
proof -
  let ?m0 = "m\<lparr>cd_status := SCECdStatRead\<rparr>"
  have "hdd_game disk xfer ps cnt (rd_state ?m0)" "probed ?m0" "\<not> compressed ?m0" "mediaLsnCount ?m0 \<noteq> 0 \<longrightarrow> unat lsn + unat sectors \<le> unat (mediaLsnCount ?m0)"
      "0 + 2340 * unat sectors = length buf" "0 < unat sectors"
    using assms by (simp_all add: word_less_nat_alt)
  note hdd_disc.copy_2340 [OF this(1-3) assms(4,6) this(6,4) assms(8) this(5) assms(10), of zdev zinit accu]
  then show ?thesis by (simp add: cdvdman_read_def)
qed

theorem sector_2340_overflow_witness:
  "cdvdman_read (cdvdman_read_sectors (hdd_dev plain_xfer one_part_disk) (hdd_dev plain_xfer one_part_disk) (\<lambda>h s. s) False) False one_part_drive 14 3 2340
     (blank 2) (replicate (2340 * 3) 0) = Some (Inl OutOfBounds)"
proof -
  have g: "hdd_game plain_disk plain_xfer one_part_disk 32 (rd_state one_part_drive)" using one_part_game one_part_range(3) by simp
  have b: "length (replicate (2340 * 3) (0 :: u8)) = 2340 * unat (3 :: u32)" "4096 \<le> length (blank 2)" by (simp_all only: length_replicate blank_simps) simp_all
  show ?thesis by (rule sector_2340_overflow [OF g one_part_range(1,2,4,5,7-9) b])
qed

text \<open>C37: an error in an unaligned read is forgotten when a later part of it succeeds.  When four sectors of 2048 bytes are read
  into an unaligned buffer, from sector 13 on and inside the medium, of an uncompressed disc that is known already, and the
  device fails on the first two sectors (having stored at most what it had of them) and delivers the last two, with buffers of exactly the two and four
  sectors and a position below \<open>2 ^ 31\<close>, the drive ends without
  an error, and what is missing of the first two sectors is whatever the intermediate buffer held before.\<close>

theorem unaligned_error_lost:
  assumes "probed m" "\<not> compressed m" "mediaLsnCount m \<noteq> 0 \<longrightarrow> unat lsn + 4 \<le> unat (mediaLsnCount m)" "13 \<le> unat lsn" "unat lsn < 2 ^ 31"
    "dev (rd_state m) (ucast lsn) 2 = r_ret (e, s1, d0)" "e \<noteq> SCECdErNO" "length d0 \<le> 4096"
    "dev s1 (ucast (lsn + 2)) 2 = r_ret (SCECdErNO, s2, d)" "length d = 4096" "length cbuf = 4096" "length buf = 8192"
  shows "cdvdman_read (cdvdman_read_sectors dev zdev zinit accu) False m lsn 4 2048 cbuf buf =
    r_ret (m\<lparr>rd_state := s2, cd_error := SCECdErNO, ReadPos := 0, cd_status := SCECdStatPause\<rparr>, d, d0 @ drop (length d0) cbuf @ d)"
proof -
  let ?m0 = "m\<lparr>cd_status := SCECdStatRead\<rparr>"
  let ?m1 = "?m0\<lparr>rd_state := s1, cd_error := e\<rparr>"
  let ?rs = "cdvdman_read_sectors dev zdev zinit accu"
  let ?c = "d0 @ drop (length d0) cbuf"
  have a: "unat (lsn + 2) = unat lsn + 2" "unat (lsn + 2 + 2) = unat lsn + 4"
    using assms(5) u32_unat_add [of lsn 2] u32_unat_add [of lsn 4] by (simp_all add: add.assoc)
  have b: "\<not> lsn < 13" "\<not> lsn + 2 < 13" using assms(4) a by (simp_all add: word_less_nat_alt)
  have media: "\<not> (mediaLsnCount m \<noteq> 0 \<and> mediaLsnCount m \<le> l) \<and> \<not> (mediaLsnCount m \<noteq> 0 \<and> mediaLsnCount m < l + 2)"
    if "l = lsn \<or> l = lsn + 2" for l
    using assms(3) a that by (auto simp: word_less_nat_alt word_le_nat_alt)
  have c: "mem_write cbuf 0 d0 = Inr ?c" "length ?c = 4096" using assms(8,11) by (simp_all add: mem_write_def)
  then have "read_transfers dev accu (?m0\<lparr>cd_error := SCECdErNO\<rparr>) lsn 2 cbuf 0 = r_ret (?m1, ?c)"
    using assms(6,7) by (subst read_transfers.simps) simp
  then have r1: "?rs ?m0 lsn 2 cbuf = r_ret (True, ?m1, ?c)" using assms(1,2,7) media [of lsn]
    by (cases "mediaLsnCount m = 0") (simp_all add: cdvdman_read_sectors_def Let_def)
  let ?m2 = "?m0\<lparr>rd_state := s2, cd_error := SCECdErNO, ReadPos := ReadPos m + 4096\<rparr>"
  have "mem_write ?c 0 d = Inr d" using assms(10) c(2) by (simp add: mem_write_def)
  then have "read_transfers dev accu (?m1\<lparr>cd_error := SCECdErNO\<rparr>) (lsn + 2) 2 ?c 0 = r_ret (?m2, d)"
    using assms(9) b(2) by (subst read_transfers.simps, simp add: unscramble_def, subst read_transfers.simps, simp)
  then have r2: "?rs ?m1 (lsn + 2) 2 ?c = r_ret (False, ?m2, d)" using assms(1,2) media [of "lsn + 2"]
    by (cases "mediaLsnCount m = 0") (simp_all add: cdvdman_read_sectors_def Let_def)
  have w: "mem_write buf 0 ?c = Inr (?c @ drop 4096 buf)" "mem_write (?c @ drop 4096 buf) 4096 d = Inr (?c @ d)"
    using assms(10,12) c(2) by (simp_all add: mem_write_def)
  have "copy_loop ?rs 2048 ?m1 (lsn + 2) 2 ?c (?c @ drop 4096 buf) 4096 = r_ret (?m2, d, ?c @ d)"
    using r2 w(2) assms(10) by (subst copy_loop.simps, simp, subst copy_loop.simps, simp)
  then have "copy_loop ?rs 2048 ?m0 lsn 4 cbuf buf 0 = r_ret (?m2, d, ?c @ d)"
    using r1 w(1) c(2) by (subst copy_loop.simps) simp
  then show ?thesis by (simp add: cdvdman_read_def)
qed

text \<open>A disk with a bad sector.\<close>

definition bad_xfer :: "u32 \<Rightarrow> u32 \<Rightarrow> u8 list option" where
  "bad_xfer lba n = (if lba = 1056 then None else Some (replicate (512 * unat n) 7))"

lemma bad_disk_reads:
  "hdd_dev bad_xfer one_part_disk 0 (ucast (14 :: u32)) 2 = r_ret (SCECdErREAD, 0, [])"
  "hdd_dev bad_xfer one_part_disk 0 (ucast (14 + 2 :: u32)) 2 = r_ret (SCECdErNO, 0, replicate 4096 7)"
proof -
  have p: "hdd_part one_part_disk (length one_part_disk) 0 14 = Inr (Some 0)" "hdd_part one_part_disk (length one_part_disk) 0 16 = Inr (Some 0)"
      "peek one_part_disk 0 = Inr \<lparr>part_offset = 0, data_start = 1000, part_size = 65536\<rparr>"
    by (simp_all add: hdd_part_def one_part_disk_def in_part_def peek_def)
  show "hdd_dev bad_xfer one_part_disk 0 (ucast (14 :: u32)) 2 = r_ret (SCECdErREAD, 0, [])"
    using p by (simp add: hdd_dev_def, subst DeviceReadSectors_hdd.simps, simp add: hdd_count_def bad_xfer_def)
  show "hdd_dev bad_xfer one_part_disk 0 (ucast (14 + 2 :: u32)) 2 = r_ret (SCECdErNO, 0, replicate 4096 7)"
    using p by (simp add: hdd_dev_def, subst DeviceReadSectors_hdd.simps, simp add: hdd_count_def bad_xfer_def, subst DeviceReadSectors_hdd.simps, simp)
qed

definition any_media_drive :: "nat cdvdman" where
  "any_media_drive = one_part_drive\<lparr>mediaLsnCount := 0\<rparr>"

theorem unaligned_error_lost_witness:
  "cdvdman_read (cdvdman_read_sectors (hdd_dev bad_xfer one_part_disk) (hdd_dev bad_xfer one_part_disk) (\<lambda>h s. s) False) False any_media_drive 14 4 2048 (blank 2) (blank 4) =
     r_ret (any_media_drive\<lparr>rd_state := 0, cd_error := SCECdErNO, ReadPos := 0, cd_status := SCECdStatPause\<rparr>, replicate 4096 7, blank 2 @ replicate 4096 7)"
proof -
  have m: "probed any_media_drive" "\<not> compressed any_media_drive"
      "mediaLsnCount any_media_drive \<noteq> 0 \<longrightarrow> unat (14 :: u32) + 4 \<le> unat (mediaLsnCount any_media_drive)" "rd_state any_media_drive = 0"
    by (simp_all add: any_media_drive_def one_part_drive_def)
  have l: "13 \<le> unat (14 :: u32)" "unat (14 :: u32) < 2 ^ 31" "length (replicate 4096 (7 :: u8)) = 4096" "length (blank 2) = 4096" "length (blank 4) = 8192"
    by (simp_all only: length_replicate blank_simps) simp_all
  have f: "hdd_dev bad_xfer one_part_disk (rd_state any_media_drive) (ucast (14 :: u32)) 2 = r_ret (SCECdErREAD, 0, [])"
    by (simp only: m(4) bad_disk_reads(1))
  show ?thesis
    using unaligned_error_lost [where dev = "hdd_dev bad_xfer one_part_disk" and e = SCECdErREAD and ?s1.0 = 0 and ?d0.0 = "[]", OF m(1-3) l(1,2) f _ _ bad_disk_reads(2) l(3-5)]
    by simp
qed

section \<open>Reading ahead on a share\<close>

text \<open>A server that knows the end of the file: behind it there is nothing, before it at least one byte comes.\<close>

definition srv_eof :: "(u16 \<Rightarrow> u8 list) \<Rightarrow> smb_server \<Rightarrow> bool" where
  "srv_eof file srv \<longleftrightarrow> (\<forall>fid low high n.
     let offs = unat high * 2 ^ 32 + unat low; rest = length (file fid) - offs
     in 0 < n \<longrightarrow> (if rest = 0 then fst (srv fid low high n) \<le> 0 \<and> snd (srv fid low high n) = []
       else \<exists>k. 0 < k \<and> k \<le> n \<and> nat k \<le> rest \<and> srv fid low high n = (k, take (nat k) (drop offs (file fid)))))"

lemma smb_read_past_end:
  assumes "srv_eof file srv" "length (file fid) < 2 ^ 63"
  shows "length (file fid) < unat high * 2 ^ 32 + unat low + nat remaining \<Longrightarrow> unat high * 2 ^ 32 + unat low \<le> length (file fid) \<Longrightarrow>
    \<exists>r \<le> 0. smb_read_loop srv fid low high remaining buf = Some (Some r, buf @ drop (unat high * 2 ^ 32 + unat low) (file fid))"
proof (induction "nat remaining" arbitrary: low high remaining buf rule: less_induct)
  case less
  let ?o = "unat high * 2 ^ 32 + unat low"
  have pos: "remaining > 0" using less.prems by (cases "remaining > 0") simp_all
  define n where "n = (if remaining > CLIENT_MAX_RECV_SIZE then CLIENT_MAX_RECV_SIZE else remaining)"
  have n: "0 < n" "n \<le> remaining" "n \<le> CLIENT_MAX_RECV_SIZE" using pos by (auto simp: n_def)
  show ?case
  proof (cases "length (file fid) - ?o = 0")
    case True
    then have s: "fst (srv fid low high n) \<le> 0" "snd (srv fid low high n) = []" using assms(1) n(1) by (auto simp: srv_eof_def Let_def)
    moreover have "drop ?o (file fid) = []" using True by simp
    ultimately show ?thesis using pos by (subst smb_read_loop.simps) (cases "srv fid low high n", simp add: n_def [symmetric])
  next
    case False
    then obtain k where k: "0 < k" "k \<le> n" "nat k \<le> length (file fid) - ?o" "srv fid low high n = (k, take (nat k) (drop ?o (file fid)))"
      using assms(1) n(1) unfolding srv_eof_def Let_def by metis
    let ?h = "if low + word_of_int k < low then high + 1 else high"
    have "?o + nat k < 2 ^ 64" using k(3) less.prems(2) assms(2) by simp
    then have o: "unat ?h * 2 ^ 32 + unat (low + word_of_int k) = ?o + nat k" using k n by (intro offset_add) auto
    have "\<exists>r \<le> 0. smb_read_loop srv fid (low + word_of_int k) ?h (remaining - k) (buf @ take (nat k) (drop ?o (file fid))) =
        Some (Some r, (buf @ take (nat k) (drop ?o (file fid))) @ drop (?o + nat k) (file fid))"
      using less.hyps [of "remaining - k" ?h "low + word_of_int k" "buf @ take (nat k) (drop ?o (file fid))"] k(1,2,3) n(1,2) less.prems False unfolding o
      by (simp add: nat_diff_distrib)
    moreover have "take (nat k) (drop ?o (file fid)) @ drop (?o + nat k) (file fid) = drop ?o (file fid)"
      using append_take_drop_id [of "nat k" "drop ?o (file fid)"] by (simp only: drop_drop add.commute)
    ultimately show ?thesis using pos k(1,4) by (subst smb_read_loop.simps) (auto simp: n_def [symmetric])
  qed
qed

lemma smb_dev_blocked: "unat lsn < 2 ^ 31 \<Longrightarrow> FIDs \<noteq> [] \<Longrightarrow> smb_dev srv FIDs False lsn n = None"
proof -
  assume a: "unat lsn < 2 ^ 31" "FIDs \<noteq> []"
  then have "unat (ucast lsn :: u32) = unat lsn" by (simp add: unsigned_ucast_eq take_bit_nat_eq_self)
  then have "(ucast lsn :: u32) < 0xFFFFFFFF" using a(1) by (simp add: word_less_nat_alt)
  then show ?thesis using a(2)
    by (auto simp: smb_dev_def DeviceReadSectors_smb_def smb_in_part_def smb_split_def smb_ReadCD_def smb_ReadFile_def peek_def Let_def split: prod.splits)
qed

lemma smb_dev_past_end:
  assumes "srv_eof content srv" "FIDs \<noteq> []" "length (content (FIDs ! 0)) < 2 ^ 42" "unat n < 2 ^ 20"
    "2048 * unat lsn \<le> length (content (FIDs ! 0))" "length (content (FIDs ! 0)) < 2048 * (unat lsn + unat n)"
  shows "smb_dev srv FIDs True lsn n = r_ret (SCECdErREAD, False, drop (2048 * unat lsn) (content (FIDs ! 0)))"
proof -
  let ?l = "ucast lsn :: u32" and ?f = "content (FIDs ! 0)"
  have l31: "unat lsn < 2 ^ 31" using assms(3,5) by simp
  then have l: "unat ?l = unat lsn" by (simp add: unsigned_ucast_eq take_bit_nat_eq_self)
  have "unat (?l + n) = unat lsn + unat n" using l l31 assms(4) u32_unat_add [of ?l n] by simp
  then have split: "\<not> ?l + n > 0xFFFFFFFE" "?l < 0xFFFFFFFF" using l l31 assms(4) by (simp_all add: word_less_nat_alt)
  note a = smb_cd_args(1) [OF assms(4)] smb_cd_args(2) [of ?l, unfolded l]
  have "nat (sint (n * 2048)) = 2048 * unat n" unfolding a(1) by (rule nat_int)
  then have "\<exists>r \<le> 0. smb_read_loop srv (FIDs ! 0) (?l * 2048) (drop_bit 21 ?l) (sint (n * 2048)) [] = Some (Some r, [] @ drop (2048 * unat lsn) ?f)"
    using smb_read_past_end [OF assms(1), of "FIDs ! 0" "drop_bit 21 ?l" "?l * 2048" "sint (n * 2048)" "[]"] assms(3,5,6) unfolding a(2) by simp
  then obtain r where "r \<le> 0" "smb_read_loop srv (FIDs ! 0) (?l * 2048) (drop_bit 21 ?l) (sint (n * 2048)) [] = Some (Some r, drop (2048 * unat lsn) ?f)" by auto
  then show ?thesis using split assms(2)
    by (simp add: smb_dev_def DeviceReadSectors_smb_def smb_in_part_def smb_split_def smb_ReadCD_def smb_ReadFile_def peek_def)
qed

text \<open>C36: reading one of the last sectors of a compressed game on a share through the sector cache, which reads ahead past the end of the
  file, delivers the sectors but leaves the semaphore of the share taken: no later read of the device returns.\<close>

theorem share_read_ahead_hangs:
  assumes "srv_eof content srv" "FIDs \<noteq> []" "length (content (FIDs ! 0)) < 2 ^ 42"
    "dev_state c" "cur_sector c = 0xffffffffffffffff" "length (sector_cache c) = 2048 * unat (MAX_SECTOR_CACHE c)"
    "unat n < unat (MAX_SECTOR_CACHE c)" "2048 * (unat lsn + unat n) \<le> length (content (FIDs ! 0))"
    "length (content (FIDs ! 0)) < 2048 * (unat lsn + unat (MAX_SECTOR_CACHE c))"
  shows "\<exists>c'. DeviceReadSectorsCached (smb_dev srv FIDs) c lsn n = r_ret (SCECdErNO, c', take (2048 * unat n) (drop (2048 * unat lsn) (content (FIDs ! 0)))) \<and>
    (\<forall>lsn' n'. unat lsn' < 2 ^ 31 \<longrightarrow> smb_dev srv FIDs (dev_state c') lsn' n' = None)"
proof -
  let ?M = "MAX_SECTOR_CACHE c" and ?f = "content (FIDs ! 0)"
  have "unat ?M < 256" using unsigned_less [of ?M] by simp
  then have M: "unat (ucast ?M :: u32) = unat ?M" "unat (ucast ?M :: u32) < 2 ^ 20" by (simp_all add: unsigned_ucast_eq take_bit_nat_eq_self)
  have lt: "lsn < cur_sector c" using assms(3,5,8) by (simp add: word_less_nat_alt)
  let ?d = "drop (2048 * unat lsn) ?f"
  have d: "smb_dev srv FIDs True lsn (ucast ?M) = r_ret (SCECdErREAD, False, ?d)"
    using assms(8,9) M(1) by (intro smb_dev_past_end [OF assms(1-3) M(2)]) simp_all
  have ld: "length ?d \<le> length (sector_cache c)" "2048 * unat n \<le> length ?d" using assms(6,8,9) by simp_all
  let ?c1 = "c\<lparr>dev_state := False, sector_cache := ?d @ drop (length ?d) (sector_cache c), cur_sector := lsn\<rparr>"
  have "mem_write (sector_cache c) 0 ?d = Inr (?d @ drop (length ?d) (sector_cache c))" using ld(1) by (simp add: mem_write_def)
  then have load: "load_cache (smb_dev srv FIDs) c lsn = r_ret ?c1"
    using d assms(4) by (simp add: load_cache_def dev_read_def)
  have "mem_read (sector_cache ?c1) 0 (2048 * unat n) = Inr (take (2048 * unat n) ?d)" using ld by (simp add: mem_read_def)
  then have "DeviceReadSectorsCached (smb_dev srv FIDs) c lsn n = r_ret (SCECdErNO, ?c1, take (2048 * unat n) ?d)"
    using load lt assms(7) unfolding DeviceReadSectorsCached_def by simp
  then show ?thesis using smb_dev_blocked [OF _ assms(2)] by (intro exI [of _ ?c1]) simp
qed

definition eof_server :: "(u16 \<Rightarrow> u8 list) \<Rightarrow> smb_server" where
  "eof_server content fid low high n = (let d = take (nat n) (drop (unat high * 2 ^ 32 + unat low) (content fid)) in (int (length d), d))"

lemma eof_server_eof: "srv_eof content (eof_server content)"
  unfolding srv_eof_def Let_def
proof (intro allI impI)
  fix fid :: u16 and low high :: u32 and n :: int
  let ?o = "unat high * 2 ^ 32 + unat low" and ?f = "content fid"
  assume n: "0 < n"
  show "if length ?f - ?o = 0 then fst (eof_server content fid low high n) \<le> 0 \<and> snd (eof_server content fid low high n) = []
    else \<exists>k. 0 < k \<and> k \<le> n \<and> nat k \<le> length ?f - ?o \<and> eof_server content fid low high n = (k, take (nat k) (drop ?o ?f))"
  proof (cases "length ?f - ?o = 0")
    case True
    then show ?thesis by (simp add: eof_server_def)
  next
    case False
    define k where "k = min (length ?f - ?o) (nat n)"
    have k: "0 < int k" "int k \<le> n" "nat (int k) \<le> length ?f - ?o" using n False by (simp_all add: k_def)
    have "take (nat n) (drop ?o ?f) = take (nat (int k)) (drop ?o ?f)" "length (take (nat n) (drop ?o ?f)) = k" by (simp_all add: k_def min_def)
    then have "eof_server content fid low high n = (int k, take (nat (int k)) (drop ?o ?f))" by (simp add: eof_server_def)
    with k show ?thesis unfolding if_not_P [OF False] by blast
  qed
qed

definition share_cdr :: "bool cdr" where
  "share_cdr = \<lparr>dev_state = True, MAX_SECTOR_CACHE = 3, sector_cache = blank 3, cur_sector = 0xffffffffffffffff, ziso_tmp_buf = blank 1\<rparr>"

theorem share_read_ahead_hangs_witness:
  "\<exists>c'. DeviceReadSectorsCached (smb_dev (eof_server two_files) [8]) share_cdr 2 1 =
      r_ret (SCECdErNO, c', take (2048 * unat (1 :: u32)) (drop (2048 * unat (2 :: u64)) (two_files ([8] ! 0)))) \<and>
    (\<forall>lsn' n'. unat lsn' < 2 ^ 31 \<longrightarrow> smb_dev (eof_server two_files) [8] (dev_state c') lsn' n' = None)"
  by (rule share_read_ahead_hangs [OF eof_server_eof]) (simp_all add: share_cdr_def two_files_read)

section \<open>The logo\<close>

context sector_device
begin

text \<open>The read that starts at the first sector unscrambles all it transfers.\<close>

lemma read_logo:
  assumes "inv (rd_state m)" "probed m" "\<not> compressed m" "mediaLsnCount m = 0 \<or> unat sectors \<le> unat (mediaLsnCount m)"
    "0 < sectors" "unat sectors < 2 ^ 20" "2048 * unat sectors \<le> length img" "2048 * unat sectors \<le> length buf" "img ! 0 \<noteq> 0"
  shows "\<exists>s'. inv s' \<and> cdvdman_read_sectors dev zdev zinit False m 0 sectors buf =
    r_ret (False, m\<lparr>rd_state := s', cd_error := SCECdErNO, logo_key := img ! 0, ReadPos := ReadPos m + sectors * 2048\<rparr>,
      map (logo_decode (img ! 0)) (take (2048 * unat sectors) img) @ drop (2048 * unat sectors) buf)"
proof -
  have pos: "0 < unat sectors" using assms(5) by (simp add: word_less_nat_alt)
  have "2048 * (unat (0 :: u64) + unat sectors) \<le> length img" using assms(7) by simp
  from dev_reads [OF assms(1) pos this _ assms(6)] obtain s1 where s1: "inv s1" "dev (rd_state m) 0 sectors = r_ret (SCECdErNO, s1, take (2048 * unat sectors) img)" by auto
  let ?d = "take (2048 * unat sectors) img"
  have ld: "length ?d = 2048 * unat sectors" using assms(7) by simp
  let ?buf1 = "?d @ drop (2048 * unat sectors) buf"
  have w: "mem_write buf 0 ?d = Inr ?buf1" using ld assms(8) by (simp add: mem_write_def)
  have u: "unat (sectors * 2048) = 2048 * unat sectors" using assms(6) u32_unat_mult [of sectors 2048] by simp
  have k: "peek ?buf1 0 = Inr (img ! 0)" using ld pos by (simp add: peek_def nth_append)
  have "mem_read ?buf1 0 (2048 * unat sectors) = Inr ?d" "mem_write ?buf1 0 (map (logo_decode (img ! 0)) ?d) = Inr (map (logo_decode (img ! 0)) ?d @ drop (2048 * unat sectors) buf)"
    using ld by (simp_all add: mem_write_def)
  then have un: "unscramble (m\<lparr>rd_state := s1, cd_error := SCECdErNO\<rparr>) 0 sectors ?buf1 0 =
      Inr (m\<lparr>rd_state := s1, cd_error := SCECdErNO, logo_key := img ! 0\<rparr>, map (logo_decode (img ! 0)) ?d @ drop (2048 * unat sectors) buf)"
    using k assms(9) u by (simp add: unscramble_def)
  have "read_transfers dev False (m\<lparr>cd_error := SCECdErNO\<rparr>) 0 sectors buf 0 =
      r_ret (m\<lparr>rd_state := s1, cd_error := SCECdErNO, logo_key := img ! 0, ReadPos := ReadPos m + sectors * 2048\<rparr>, map (logo_decode (img ! 0)) ?d @ drop (2048 * unat sectors) buf)"
    using s1(2) w un assms(5) read_transfers.simps [of dev False _ "0 + sectors" 0] by (subst read_transfers.simps) simp
  moreover have "\<not> (mediaLsnCount m \<noteq> 0 \<and> sectors > mediaLsnCount m)" "\<not> (mediaLsnCount m \<noteq> 0 \<and> mediaLsnCount m \<le> 0)"
    using assms(4) by (auto simp: word_less_nat_alt)
  ultimately show ?thesis using s1(1) assms(2,3) by (auto simp: cdvdman_read_sectors_def Let_def)
qed

end

text \<open>A read from the first sector on unscrambles the logo with the first byte of the disc, and with it every other byte of the
  transfer: the sectors behind the logo, which are not scrambled, come out altered.\<close>

lemma logo_transfer_altered:
  assumes "hdd_game disk xfer ps cnt (rd_state m)" "probed m" "\<not> compressed m" "mediaLsnCount m = 0 \<or> unat sectors \<le> unat (mediaLsnCount m)"
    "0 < sectors" "unat sectors < 2 ^ 20" "2048 * unat sectors \<le> length (hdd_img disk ps cnt)" "2048 * unat sectors \<le> length buf"
    "hdd_img disk ps cnt ! 0 \<noteq> 0"
  shows "\<exists>m' buf'. cdvdman_read_sectors (hdd_dev xfer ps) zdev zinit False m 0 sectors buf = r_ret (False, m', buf') \<and>
    (\<forall>i < 2048 * unat sectors. buf' ! i = logo_decode (hdd_img disk ps cnt ! 0) (hdd_img disk ps cnt ! i))"
  using hdd_disc.read_logo [OF assms, of zdev zinit] assms(7) by (auto simp: nth_append)

end
