(* ===== verification/SearchFile.thy ===== *)
theory SearchFile
  imports CdRead
begin

text \<open>
  The directories of a disc, \<open>modules/iopcore/cdvdman/searchfile.c\<close>: looking up a path in the ISO 9660 directories of
  either layer.  \<open>rd lba buf\<close> is \<open>sceCdRead (lba, 1, cdvdman_buf)\<close> with the wait that follows: the buffer afterwards, which is as
  before when the drive could not read, and \<open>None\<close> when the drive is busy and refuses.  A directory is a
  sequence of sectors with entries of variable length; positions in a sector are C integers.
\<close>

section \<open>Entries of a directory\<close>

definition at_int :: "'a list \<Rightarrow> int \<Rightarrow> 'a cres" where
  "at_int xs i = (if 0 \<le> i then peek xs (nat i) else Inl OutOfBounds)"

definition bytes_int :: "'a list \<Rightarrow> int \<Rightarrow> nat \<Rightarrow> 'a list cres" where
  "bytes_int xs i n = (if 0 \<le> i then mem_read xs (nat i) n else Inl OutOfBounds)"

text \<open>The fields of \<open>struct dirTocEntry\<close> that are used; \<open>length\<close> is a signed 16-bit number.\<close>

definition toc_length :: "u8 list \<Rightarrow> int \<Rightarrow> int cres" where
  "toc_length buf pos =
     c_bind (bytes_int buf pos 2) (\<lambda>b. Inr (sint (ucast (b ! 0) OR push_bit 8 (ucast (b ! 1)) :: u16)))"

definition toc_fileLBA :: "u8 list \<Rightarrow> int \<Rightarrow> u32 cres" where
  "toc_fileLBA buf pos = c_bind (bytes_int buf (pos + 2) 4) (\<lambda>b. Inr (le32 b 0))"

definition toc_fileSize :: "u8 list \<Rightarrow> int \<Rightarrow> u32 cres" where
  "toc_fileSize buf pos = c_bind (bytes_int buf (pos + 10) 4) (\<lambda>b. Inr (le32 b 0))"

definition toc_fileProperties :: "u8 list \<Rightarrow> int \<Rightarrow> u8 cres" where
  "toc_fileProperties buf pos = at_int buf (pos + 25)"

text \<open>The name is copied into an array of 15 bytes and terminated.\<close>

definition toc_name :: "u8 list \<Rightarrow> int \<Rightarrow> nat \<Rightarrow> string cres" where
  "toc_name buf pos n =
     c_bind (bytes_int buf (pos + 33) n) (\<lambda>b.
       if n < 15 then Inr (takeWhile (\<lambda>c. c \<noteq> NUL) (map (\<lambda>x. char_of (unat x)) b)) else Inl OutOfBounds)"

section \<open>Looking up a path\<close>

datatype toc_hit = TocFile int | TocDir int | TocNone

text \<open>The \<open>do\<close> loop over the entries of one sector; \<open>last\<close> says that the path has no further component.  An
  entry with an empty name is not passed over.\<close>

partial_function (option) toc_scan :: "u8 list \<Rightarrow> string \<Rightarrow> bool \<Rightarrow> int \<Rightarrow> (toc_hit cres) option" where
  "toc_scan buf dirname lst pos =
     (case toc_length buf pos of
        Inl e \<Rightarrow> Some (Inl e)
      | Inr len \<Rightarrow>
          if len = 0 then Some (Inr TocNone)
          else
            (case at_int buf (pos + 32) of
               Inl e \<Rightarrow> Some (Inl e)
             | Inr n \<Rightarrow>
                 if n \<noteq> 0 then
                   (case toc_name buf pos (unat n) of
                      Inl e \<Rightarrow> Some (Inl e)
                    | Inr curdir \<Rightarrow>
                        (case toc_fileProperties buf pos of
                           Inl e \<Rightarrow> Some (Inl e)
                         | Inr props \<Rightarrow>
                             if strncmp_eq 12 dirname curdir \<and> lst then Some (Inr (TocFile pos))
                             else if strncmp_eq 12 dirname curdir \<and> props AND 2 \<noteq> 0 then Some (Inr (TocDir pos))
                             else if pos + len < 2016 then toc_scan buf dirname lst (pos + len)
                             else Some (Inr TocNone)))
                 else if pos < 2016 then toc_scan buf dirname lst pos
                 else Some (Inr TocNone)))"

text \<open>The loop over the sectors of a directory.  The result is \<open>None\<close> inside when the drive refuses or nothing is
  found; the sector that holds a hit is left in the buffer.\<close>

partial_function (option) toc_sectors ::
  "(u32 \<Rightarrow> u8 list \<Rightarrow> u8 list option) \<Rightarrow> string \<Rightarrow> bool \<Rightarrow> u8 list \<Rightarrow> u32 \<Rightarrow> int \<Rightarrow> ((toc_hit \<times> u8 list) cres) option" where
  "toc_sectors rd dirname lst buf tocLBA tocLength =
     (if tocLength > 0 then
        (case rd tocLBA buf of
           None \<Rightarrow> Some (Inr (TocNone, buf))
         | Some buf1 \<Rightarrow>
             (case toc_scan buf1 dirname lst 0 of
                None \<Rightarrow> None
              | Some (Inl e) \<Rightarrow> Some (Inl e)
              | Some (Inr TocNone) \<Rightarrow> toc_sectors rd dirname lst buf1 (tocLBA + 1) (tocLength - 2048)
              | Some (Inr hit) \<Rightarrow> Some (Inr (hit, buf1))))
      else Some (Inr (TocNone, buf)))"

text \<open>The component at the start of a path and, behind its slash, the rest of the path.  The array for the
  component has 32 bytes.\<close>

definition path_start :: "string \<Rightarrow> string" where
  "path_start p = dropWhile (\<lambda>c. c = BACKSLASH) (dropWhile (\<lambda>c. c = CHR ''/'') p)"

definition path_split :: "string \<Rightarrow> (string \<times> string option) cres" where
  "path_split p =
     (let slash = (case strchr p (CHR ''/'') of Some n \<Rightarrow> Some n | None \<Rightarrow> strchr p BACKSLASH);
          dirname = (case slash of Some n \<Rightarrow> take n p | None \<Rightarrow> p)
      in if length dirname < 32 then Inr (dirname, map_option (\<lambda>n. drop (n + 1) p) slash) else Inl OutOfBounds)"

text \<open>\<open>layer1\<close> is what is added to the sector of a directory that is entered: the start of the second layer when it is the one
  searched and not emulated, else zero.\<close>

partial_function (option) cdvdman_locatefile ::
  "(u32 \<Rightarrow> u8 list \<Rightarrow> u8 list option) \<Rightarrow> u32 \<Rightarrow> u8 list \<Rightarrow> string \<Rightarrow> u32 \<Rightarrow> int \<Rightarrow> ((int option \<times> u8 list) cres) option" where
  "cdvdman_locatefile rd layer1 buf name tocLBA tocLength =
     (case path_split (path_start name) of
        Inl e \<Rightarrow> Some (Inl e)
      | Inr (dirname, rest) \<Rightarrow>
          (case toc_sectors rd dirname (rest = None) buf tocLBA tocLength of
             None \<Rightarrow> None
           | Some (Inl e) \<Rightarrow> Some (Inl e)
           | Some (Inr (TocNone, buf1)) \<Rightarrow> Some (Inr (None, buf1))
           | Some (Inr (TocFile pos, buf1)) \<Rightarrow> Some (Inr (Some pos, buf1))
           | Some (Inr (TocDir pos, buf1)) \<Rightarrow>
               (case toc_fileLBA buf1 pos of
                  Inl e \<Rightarrow> Some (Inl e)
                | Inr lba \<Rightarrow>
                    (case toc_fileSize buf1 pos of
                       Inl e \<Rightarrow> Some (Inl e)
                     | Inr sz \<Rightarrow>
                         (case rest of
                            None \<Rightarrow> Some (Inl NullDeref)
                          | Some p \<Rightarrow> cdvdman_locatefile rd layer1 buf1 p (lba + layer1) (sint sz))))))"

section \<open>The calls of a game\<close>

definition cdvdman_trimspaces :: "string \<Rightarrow> string" where
  "cdvdman_trimspaces s = rev (dropWhile (\<lambda>c. c = CHR '' '' \<or> c = CHR ''.'') (rev s))"

record layer_info =
  rootDirtocLBA :: u32
  rootDirtocLength :: u32

record search_settings =
  emu_dvddl :: bool
  skip_videos :: bool
  layer1_start :: u32

record sceCdlFILE =
  cf_lsn :: u32
  cf_size :: u32
  cf_name :: string

definition sceCdReadDvdDualInfo :: "search_settings \<Rightarrow> bool \<times> u32" where
  "sceCdReadDvdDualInfo st = (if emu_dvddl st then (True, 0) else (0 < layer1_start st, layer1_start st))"

text \<open>Six characters before the end stands the extension of a name with a version.\<close>

definition is_video :: "string \<Rightarrow> bool cres" where
  "is_video path =
     (if 6 \<le> length path then let e = take 4 (drop (length path - 6) path) in Inr (e = ''.PSS'' \<or> e = ''.pss'') else Inl OutOfBounds)"

text \<open>The part of a name behind its last backslash.\<close>

definition base_name :: "string \<Rightarrow> string cres" where
  "base_name name =
     (if BACKSLASH \<in> set name then Inr (rev (takeWhile (\<lambda>c. c \<noteq> BACKSLASH) (rev name))) else Inl NullDeref)"

definition cdvdman_findfile ::
  "(u32 \<Rightarrow> u8 list \<Rightarrow> u8 list option) \<Rightarrow> search_settings \<Rightarrow> layer_info list \<Rightarrow> u8 list \<Rightarrow> string \<Rightarrow> bool \<Rightarrow> ((sceCdlFILE option \<times> u8 list) cres) option" where
  "cdvdman_findfile rd st layers buf name layer0 =
     (let layer = (layer0 \<and> \<not> emu_dvddl st);
          path = cdvdman_trimspaces (take 255 name)
      in (case peek layers (if layer then 1 else 0) of
            Inl e \<Rightarrow> Some (Inl e)
          | Inr li \<Rightarrow>
              if rootDirtocLBA li = 0 then Some (Inr (None, buf))
              else
                let start = (if layer \<and> \<not> emu_dvddl st then snd (sceCdReadDvdDualInfo st) else 0)
                in (case cdvdman_locatefile rd start buf path (rootDirtocLBA li) (sint (rootDirtocLength li)) of
                      None \<Rightarrow> None
                    | Some (Inl e) \<Rightarrow> Some (Inl e)
                    | Some (Inr (None, buf1)) \<Rightarrow> Some (Inr (None, buf1))
                    | Some (Inr (Some pos, buf1)) \<Rightarrow>
                        Some
                          (c_bind (toc_fileLBA buf1 pos) (\<lambda>lba.
                           c_bind (toc_fileSize buf1 pos) (\<lambda>sz.
                           c_bind (if skip_videos st then is_video path else Inr False) (\<lambda>video.
                           c_bind (base_name name) (\<lambda>base.
                             Inr (Some \<lparr>cf_lsn = lba + (if layer then snd (sceCdReadDvdDualInfo st) else 0),
                                        cf_size = (if video then 0 else sz), cf_name = base\<rparr>, buf1))))))))) "

definition sceCdSearchFile where
  "sceCdSearchFile rd st layers buf name = cdvdman_findfile rd st layers buf name False"

definition sceCdLayerSearchFile where
  "sceCdLayerSearchFile rd st layers buf name layer = cdvdman_findfile rd st layers buf name (layer \<noteq> (0 :: int))"

text \<open>The root directories and the size of the medium, from the volume descriptors.  The result of the reads is not
  looked at.\<close>

definition root_dir :: "u8 list \<Rightarrow> u32 \<Rightarrow> layer_info cres" where
  "root_dir buf start =
     c_bind (toc_fileLBA buf 0x9c) (\<lambda>lba. c_bind (toc_fileSize buf 0x9c) (\<lambda>sz.
       Inr \<lparr>rootDirtocLBA = start + lba, rootDirtocLength = sz\<rparr>))"

definition cdvdman_searchfile_init ::
  "(u32 \<Rightarrow> u8 list \<Rightarrow> u8 list option) \<Rightarrow> search_settings \<Rightarrow> layer_info \<Rightarrow> u8 list \<Rightarrow> (layer_info list \<times> u32 \<times> u8 list) cres" where
  "cdvdman_searchfile_init rd st second buf =
     (let buf1 = (case rd 16 buf of Some b \<Rightarrow> b | None \<Rightarrow> buf)
      in c_bind (root_dir buf1 0) (\<lambda>root0.
         c_bind (mem_read buf1 0x50 4) (\<lambda>n0.
           let dual = sceCdReadDvdDualInfo st
           in if \<not> emu_dvddl st \<and> fst dual then
                let buf2 = (case rd (snd dual + 16) buf1 of Some b \<Rightarrow> b | None \<Rightarrow> buf1)
                in c_bind (root_dir buf2 (snd dual)) (\<lambda>root1.
                   c_bind (mem_read buf2 0x50 4) (\<lambda>n1. Inr ([root0, root1], le32 n0 0 + le32 n1 0 - 16, buf2)))
              else Inr ([root0, second], le32 n0 0, buf1))))"

section \<open>Directories on a disc\<close>

text \<open>A directory record as ISO 9660 lays it out; numbers are stored in both byte orders.\<close>

record toc_entry =
  te_lba :: u32
  te_size :: u32
  te_date :: "u8 list"
  te_flags :: u8
  te_misc :: "u8 list"
  te_name :: "u8 list"
  te_pad :: "u8 list"

definition toc_len :: "toc_entry \<Rightarrow> nat" where
  "toc_len e = 33 + length (te_name e) + length (te_pad e)"

definition toc_bytes :: "toc_entry \<Rightarrow> u8 list" where
  "toc_bytes e = [of_nat (toc_len e), 0] @ le_bytes (te_lba e) @ rev (le_bytes (te_lba e)) @ le_bytes (te_size e) @ rev (le_bytes (te_size e)) @
     te_date e @ [te_flags e] @ te_misc e @ [of_nat (length (te_name e))] @ te_name e @ te_pad e"

definition entry_ok :: "toc_entry \<Rightarrow> bool" where
  "entry_ok e \<longleftrightarrow> length (te_date e) = 7 \<and> length (te_misc e) = 6 \<and> 0 < length (te_name e) \<and> length (te_name e) < 15 \<and> length (te_pad e) < 200"

definition shown :: "toc_entry \<Rightarrow> string" where
  "shown e = takeWhile (\<lambda>c. c \<noteq> NUL) (map (\<lambda>x. char_of (unat x)) (te_name e))"

definition is_dir :: "toc_entry \<Rightarrow> bool" where
  "is_dir e \<longleftrightarrow> te_flags e AND 2 \<noteq> 0"

text \<open>Names are compared in their first twelve characters.\<close>

definition hit :: "string \<Rightarrow> bool \<Rightarrow> toc_entry \<Rightarrow> bool" where
  "hit n lst e \<longleftrightarrow> take 12 n = take 12 (shown e) \<and> (lst \<or> is_dir e)"

lemma length_le_bytes [simp]: "length (le_bytes x) = 4"
  by (simp add: le_bytes_def)

lemma length_toc_bytes: "entry_ok e \<Longrightarrow> length (toc_bytes e) = toc_len e"
  by (simp add: toc_bytes_def entry_ok_def toc_len_def)

text \<open>The fields of an entry that stands somewhere in a buffer.\<close>

lemma bytes_behind:
  assumes "pos = int (length pre)"
  shows "bytes_int (pre @ xs) pos n = mem_read xs 0 n" "bytes_int (pre @ xs) (pos + numeral k) n = mem_read xs (numeral k) n"
    "at_int (pre @ xs) (pos + numeral k) = peek xs (numeral k)"
proof -
  have "nat (pos + numeral k) = length pre + numeral k" "nat pos = length pre" unfolding assms by (simp_all add: nat_add_distrib)
  then show "bytes_int (pre @ xs) pos n = mem_read xs 0 n" "bytes_int (pre @ xs) (pos + numeral k) n = mem_read xs (numeral k) n"
    "at_int (pre @ xs) (pos + numeral k) = peek xs (numeral k)"
    using assms by (simp_all add: bytes_int_def at_int_def mem_read_def peek_def nth_append)
qed

lemma entry_fields:
  assumes "entry_ok e" "buf = pre @ toc_bytes e @ post" "pos = int (length pre)"
  shows "toc_length buf pos = Inr (int (toc_len e))" "at_int buf (pos + 32) = Inr (of_nat (length (te_name e)))"
    "toc_name buf pos (length (te_name e)) = Inr (shown e)" "toc_fileProperties buf pos = Inr (te_flags e)"
    "toc_fileLBA buf pos = Inr (te_lba e)" "toc_fileSize buf pos = Inr (te_size e)"
proof -
  have l: "length (te_date e) = 7" "length (te_misc e) = 6" "length (te_name e) < 15" using assms(1) by (simp_all add: entry_ok_def)
  have ln: "toc_len e < 2 ^ 8" using assms(1) by (simp add: entry_ok_def toc_len_def)
  have u: "unat (ucast (of_nat (toc_len e) :: u8) :: u16) = toc_len e"
    using ln by (simp add: unsigned_ucast_eq unsigned_of_nat take_bit_nat_eq_self)
  have "sint (ucast (of_nat (toc_len e) :: u8) :: u16) = int (toc_len e)"
    unfolding sint_uint uint_nat u using ln by (intro signed_take_bit_int_eq_self) simp_all
  then show "toc_length buf pos = Inr (int (toc_len e))"
    unfolding assms(2) toc_length_def bytes_behind(1) [OF assms(3)] by (simp add: toc_bytes_def mem_read_def)
  show "at_int buf (pos + 32) = Inr (of_nat (length (te_name e)))" "toc_fileProperties buf pos = Inr (te_flags e)"
    unfolding assms(2) toc_fileProperties_def bytes_behind(3) [OF assms(3)] using l
    by (simp_all add: toc_bytes_def peek_def nth_append le_bytes_def)
  show "toc_fileLBA buf pos = Inr (te_lba e)" "toc_fileSize buf pos = Inr (te_size e)"
    unfolding assms(2) toc_fileLBA_def toc_fileSize_def bytes_behind(2) [OF assms(3)]
    by (simp_all add: toc_bytes_def mem_read_def)
  have "mem_read (toc_bytes e @ post) 33 (length (te_name e)) = Inr (te_name e)"
    using l by (simp add: toc_bytes_def mem_read_def le_bytes_def)
  then show "toc_name buf pos (length (te_name e)) = Inr (shown e)"
    unfolding assms(2) toc_name_def bytes_behind(2) [OF assms(3)] using l by (simp add: shown_def)
qed

text \<open>A sector of a directory: its entries, and behind the last one zeros unless the sector is full.\<close>

definition dir_sector :: "toc_entry list \<Rightarrow> u8 list \<Rightarrow> bool" where
  "dir_sector es buf \<longleftrightarrow> (\<forall>e \<in> set es. entry_ok e) \<and> length (concat (map toc_bytes es)) \<le> 2048 \<and>
     (\<exists>rest. buf = concat (map toc_bytes es) @ rest \<and> (length (concat (map toc_bytes es)) < 2016 \<longrightarrow> (\<exists>r. rest = 0 # 0 # r)))"

lemma toc_scan_ok:
  assumes "\<forall>e \<in> set es. entry_ok e" "buf = pre @ concat (map toc_bytes es) @ rest" "length (pre @ concat (map toc_bytes es)) \<le> 2048"
    "length (pre @ concat (map toc_bytes es)) < 2016 \<longrightarrow> (\<exists>r. rest = 0 # 0 # r)" "length pre < 2016"
  shows "(find (hit d lst) es = None \<longrightarrow> toc_scan buf d lst (int (length pre)) = Some (Inr TocNone)) \<and>
    (\<forall>e. find (hit d lst) es = Some e \<longrightarrow> (\<exists>pos. toc_scan buf d lst (int (length pre)) = Some (Inr (if lst then TocFile pos else TocDir pos)) \<and>
      toc_fileLBA buf pos = Inr (te_lba e) \<and> toc_fileSize buf pos = Inr (te_size e)))"
  using assms
proof (induction es arbitrary: pre)
  case Nil
  then obtain r where "rest = 0 # 0 # r" by auto
  then have "toc_length buf (int (length pre)) = Inr 0"
    using Nil.prems(2) by (simp add: toc_length_def bytes_behind(1) mem_read_def)
  then show ?case by (subst toc_scan.simps) simp
next
  case (Cons e es)
  let ?pos = "int (length pre)"
  have ok: "entry_ok e" using Cons.prems(1) by simp
  have "buf = pre @ toc_bytes e @ concat (map toc_bytes es) @ rest" using Cons.prems(2) by simp
  note f = entry_fields [OF ok this refl]
  have n: "0 < length (te_name e)" "length (te_name e) < 15" using ok by (simp_all add: entry_ok_def)
  then have u: "unat (of_nat (length (te_name e)) :: u8) = length (te_name e)" by (simp add: unsigned_of_nat take_bit_nat_eq_self)
  then have "(of_nat (length (te_name e)) :: u8) \<noteq> 0" using n by (metis less_numeral_extra(3) unat_0)
  then have step: "toc_scan buf d lst ?pos =
      (if strncmp_eq 12 d (shown e) \<and> lst then Some (Inr (TocFile ?pos))
       else if strncmp_eq 12 d (shown e) \<and> is_dir e then Some (Inr (TocDir ?pos))
       else if ?pos + int (toc_len e) < 2016 then toc_scan buf d lst (?pos + int (toc_len e))
       else Some (Inr TocNone))"
    by (subst toc_scan.simps) (simp add: f u is_dir_def toc_len_def)
  show ?case
  proof (cases "hit d lst e")
    case True
    then show ?thesis using f(5,6) by (subst step) (auto simp: hit_def strncmp_eq_def)
  next
    case False
    have len: "length (toc_bytes e) = toc_len e" by (rule length_toc_bytes [OF ok])
    have find: "find (hit d lst) (e # es) = find (hit d lst) es" using False by simp
    have next_pos: "toc_scan buf d lst ?pos = (if length (pre @ toc_bytes e) < 2016 then toc_scan buf d lst (int (length (pre @ toc_bytes e))) else Some (Inr TocNone))"
      using False by (subst step) (auto simp: hit_def strncmp_eq_def len)
    show ?thesis
    proof (cases "length (pre @ toc_bytes e) < 2016")
      case True
      then have "(find (hit d lst) es = None \<longrightarrow> toc_scan buf d lst (int (length (pre @ toc_bytes e))) = Some (Inr TocNone)) \<and>
          (\<forall>e'. find (hit d lst) es = Some e' \<longrightarrow> (\<exists>pos. toc_scan buf d lst (int (length (pre @ toc_bytes e))) = Some (Inr (if lst then TocFile pos else TocDir pos)) \<and>
            toc_fileLBA buf pos = Inr (te_lba e') \<and> toc_fileSize buf pos = Inr (te_size e')))"
        using Cons.prems by (intro Cons.IH) (simp_all add: add.assoc)
      then show ?thesis unfolding find next_pos using True by simp
    next
      case full: False
      have "es = []"
      proof (rule ccontr)
        assume "es \<noteq> []"
        then obtain e' es' where "es = e' # es'" by (cases es) auto
        then have ok': "entry_ok e'" using Cons.prems(1) by simp
        then have "1 \<le> length (te_name e')" unfolding entry_ok_def by linarith
        then have "34 \<le> length (concat (map toc_bytes es))"
          using length_toc_bytes [OF ok'] \<open>es = e' # es'\<close> unfolding toc_len_def by (simp del: length_greater_0_conv)
        then show False using full Cons.prems(3) by simp
      qed
      then show ?thesis unfolding find next_pos using full by simp
    qed
  qed
qed

text \<open>A directory of several sectors.  Reading one of them always succeeds and leaves it in the buffer.\<close>

lemma find_append: "find P (xs @ ys) = (case find P xs of None \<Rightarrow> find P ys | Some x \<Rightarrow> Some x)"
  by (induction xs) auto

definition dir_on :: "(u32 \<Rightarrow> u8 list \<Rightarrow> u8 list option) \<Rightarrow> u32 \<Rightarrow> int \<Rightarrow> toc_entry list list \<Rightarrow> bool" where
  "dir_on rd lba len ess \<longleftrightarrow> len \<le> 2048 * int (length ess) \<and> 2048 * int (length ess) < len + 2048 \<and>
     (\<forall>k < length ess. \<forall>buf. \<exists>buf1. rd (lba + of_nat k) buf = Some buf1 \<and> dir_sector (ess ! k) buf1)"

lemma dir_on_Cons:
  assumes "dir_on rd lba len (es # ess)"
  shows "0 < len" "dir_on rd (lba + 1) (len - 2048) ess" "\<exists>buf1. rd lba buf = Some buf1 \<and> dir_sector es buf1"
proof -
  have k: "\<exists>buf1. rd (lba + of_nat k) buf = Some buf1 \<and> dir_sector ((es # ess) ! k) buf1" if "k \<le> length ess" for k buf
    using assms that by (simp add: dir_on_def)
  show "0 < len" using assms by (simp add: dir_on_def)
  show "\<exists>buf1. rd lba buf = Some buf1 \<and> dir_sector es buf1" using k [of 0] by simp
  have "\<exists>buf1. rd (lba + 1 + of_nat i) buf = Some buf1 \<and> dir_sector (ess ! i) buf1" if "i < length ess" for i buf
    using k [of "Suc i" buf] that by (simp add: add.assoc)
  then show "dir_on rd (lba + 1) (len - 2048) ess" using assms by (simp add: dir_on_def)
qed

lemma toc_sectors_ok:
  assumes "dir_on rd lba len ess"
  shows "(find (hit d lst) (concat ess) = None \<longrightarrow> (\<exists>buf'. toc_sectors rd d lst buf lba len = Some (Inr (TocNone, buf')))) \<and>
    (\<forall>e. find (hit d lst) (concat ess) = Some e \<longrightarrow> (\<exists>pos buf'. toc_sectors rd d lst buf lba len = Some (Inr (if lst then TocFile pos else TocDir pos, buf')) \<and>
      toc_fileLBA buf' pos = Inr (te_lba e) \<and> toc_fileSize buf' pos = Inr (te_size e)))"
  using assms
proof (induction ess arbitrary: lba len buf)
  case Nil
  then have "\<not> 0 < len" by (simp add: dir_on_def)
  then show ?case by (subst toc_sectors.simps) simp
next
  case (Cons es ess)
  note c = dir_on_Cons [OF Cons.prems]
  obtain buf1 where b: "rd lba buf = Some buf1" "dir_sector es buf1" using c(3) by blast
  then obtain rest where "\<forall>e \<in> set es. entry_ok e" "buf1 = [] @ concat (map toc_bytes es) @ rest" "length ([] @ concat (map toc_bytes es)) \<le> 2048"
      "length ([] @ concat (map toc_bytes es)) < 2016 \<longrightarrow> (\<exists>r. rest = 0 # 0 # r)" by (auto simp: dir_sector_def)
  note scan = toc_scan_ok [OF this, of d lst, simplified]
  show ?case
  proof (cases "find (hit d lst) es")
    case None
    then have "toc_scan buf1 d lst 0 = Some (Inr TocNone)" using scan by simp
    then have "toc_sectors rd d lst buf lba len = toc_sectors rd d lst buf1 (lba + 1) (len - 2048)" using c(1) b(1) by (subst toc_sectors.simps) simp
    moreover have "find (hit d lst) (concat (es # ess)) = find (hit d lst) (concat ess)" using None by (simp add: find_append)
    ultimately show ?thesis using Cons.IH [OF c(2), of buf1] by simp
  next
    case (Some e)
    then obtain pos where "toc_scan buf1 d lst 0 = Some (Inr (if lst then TocFile pos else TocDir pos))" "toc_fileLBA buf1 pos = Inr (te_lba e)" "toc_fileSize buf1 pos = Inr (te_size e)"
      using scan by blast
    moreover have "find (hit d lst) (concat (es # ess)) = Some e" using Some by (simp add: find_append)
    ultimately show ?thesis using c(1) b(1) by (subst (1 2) toc_sectors.simps) auto
  qed
qed

section \<open>Paths\<close>

text \<open>What looking up a path means: every component but the last names a directory in the one before.\<close>

fun walk :: "(u32 \<Rightarrow> u32 \<Rightarrow> toc_entry list list) \<Rightarrow> u32 \<Rightarrow> string list \<Rightarrow> u32 \<Rightarrow> u32 \<Rightarrow> toc_entry option" where
  "walk D layer1 [] lba sz = None"
| "walk D layer1 [n] lba sz = find (hit n True) (concat (D lba sz))"
| "walk D layer1 (n # m # ns) lba sz =
     (case find (hit n False) (concat (D lba sz)) of
        None \<Rightarrow> None
      | Some e \<Rightarrow> walk D layer1 (m # ns) (te_lba e + layer1) (te_size e))"

definition dirs_ok :: "(u32 \<Rightarrow> u8 list \<Rightarrow> u8 list option) \<Rightarrow> u32 \<Rightarrow> (u32 \<Rightarrow> u32 \<Rightarrow> toc_entry list list) \<Rightarrow> (u32 \<times> u32) list \<Rightarrow> bool" where
  "dirs_ok rd layer1 D ds \<longleftrightarrow> (\<forall>(lba, sz) \<in> set ds. dir_on rd lba (sint sz) (D lba sz) \<and>
     (\<forall>e \<in> set (concat (D lba sz)). is_dir e \<longrightarrow> (te_lba e + layer1, te_size e) \<in> set ds))"

definition path_of :: "string list \<Rightarrow> string" where
  "path_of ns = concat (map (\<lambda>n. BACKSLASH # n) ns)"

definition name_ok :: "string \<Rightarrow> bool" where
  "name_ok n \<longleftrightarrow> n \<noteq> [] \<and> BACKSLASH \<notin> set n \<and> CHR ''/'' \<notin> set n \<and> length n < 32"

lemma path_of_simps: "path_of [] = []" "path_of (n # ns) = BACKSLASH # n @ path_of ns"
  by (simp_all add: path_of_def)

lemma path_no_slash: "\<forall>n \<in> set ns. name_ok n \<Longrightarrow> CHR ''/'' \<notin> set (path_of ns)"
  by (induction ns) (auto simp: path_of_simps name_ok_def)

lemma path_start_name:
  assumes "name_ok n"
  shows "path_start (n @ p) = n @ p" "path_start (BACKSLASH # n @ p) = n @ p"
  using assms by (cases n; auto simp: path_start_def name_ok_def)+

lemma path_split_names:
  assumes "\<forall>m \<in> set (n # ns). name_ok m"
  shows "path_split (n @ path_of ns) = Inr (n, case ns of [] \<Rightarrow> None | m # ms \<Rightarrow> Some (m @ path_of ms))"
proof -
  have "CHR ''/'' \<notin> set (n @ path_of ns)" using path_no_slash [of ns] assms by (auto simp: name_ok_def)
  then have "strchr (n @ path_of ns) (CHR ''/'') = None" by (simp add: strchr_None_iff)
  moreover have n: "BACKSLASH \<notin> set n" "length n < 32" using assms by (simp_all add: name_ok_def)
  moreover have "strchr (n @ path_of ns) BACKSLASH = (case ns of [] \<Rightarrow> None | m # ms \<Rightarrow> Some (length n))"
    using n(1) by (cases ns) (simp_all add: path_of_simps strchr_append strchr_None_iff)
  ultimately show ?thesis by (cases ns) (simp_all add: path_split_def path_of_simps Let_def)
qed

lemma locatefile_walks:
  assumes "dirs_ok rd layer1 D ds"
  shows "\<forall>m \<in> set (n # ns). name_ok m \<Longrightarrow> (lba, sz) \<in> set ds \<Longrightarrow> path_start p = n @ path_of ns \<Longrightarrow>
    (walk D layer1 (n # ns) lba sz = None \<longrightarrow> (\<exists>buf'. cdvdman_locatefile rd layer1 buf p lba (sint sz) = Some (Inr (None, buf')))) \<and>
    (\<forall>e. walk D layer1 (n # ns) lba sz = Some e \<longrightarrow> (\<exists>pos buf'. cdvdman_locatefile rd layer1 buf p lba (sint sz) = Some (Inr (Some pos, buf')) \<and>
      toc_fileLBA buf' pos = Inr (te_lba e) \<and> toc_fileSize buf' pos = Inr (te_size e)))"
proof (induction ns arbitrary: n lba sz p buf)
  case Nil
  have "dir_on rd lba (sint sz) (D lba sz)" using assms Nil.prems(2) by (auto simp: dirs_ok_def)
  note t = toc_sectors_ok [OF this, of n True buf, simplified]
  have "path_split (path_start p) = Inr (n, None)" using path_split_names [of n "[]"] Nil.prems by (simp add: path_of_simps)
  then show ?case using t by (subst (1 2) cdvdman_locatefile.simps) (auto simp del: split_paired_Ex)
next
  case (Cons m ns)
  have d: "dir_on rd lba (sint sz) (D lba sz)" using assms Cons.prems(2) by (auto simp: dirs_ok_def)
  note t = toc_sectors_ok [OF d, of n False buf, simplified]
  have sp: "path_split (path_start p) = Inr (n, Some (m @ path_of ns))" using path_split_names [of n "m # ns"] Cons.prems by simp
  show ?case
  proof (cases "find (hit n False) (concat (D lba sz))")
    case None
    then obtain buf' where "toc_sectors rd n False buf lba (sint sz) = Some (Inr (TocNone, buf'))" using t by blast
    then show ?thesis using sp None by (subst (1 2) cdvdman_locatefile.simps) simp
  next
    case (Some e)
    then obtain pos buf1 where h: "toc_sectors rd n False buf lba (sint sz) = Some (Inr (TocDir pos, buf1))"
      "toc_fileLBA buf1 pos = Inr (te_lba e)" "toc_fileSize buf1 pos = Inr (te_size e)" using t by blast
    have "e \<in> set (concat (D lba sz))" "is_dir e" using Some unfolding find_Some_iff hit_def by (metis nth_mem)+
    then have r: "(te_lba e + layer1, te_size e) \<in> set ds" using assms Cons.prems(2) by (fastforce simp: dirs_ok_def)
    have "cdvdman_locatefile rd layer1 buf p lba (sint sz) = cdvdman_locatefile rd layer1 buf1 (m @ path_of ns) (te_lba e + layer1) (sint (te_size e))"
      using sp h by (subst cdvdman_locatefile.simps) simp
    moreover have "path_start (m @ path_of ns) = m @ path_of ns" using Cons.prems(1) by (intro path_start_name) simp
    ultimately show ?thesis using Cons.IH [OF _ r, of m "m @ path_of ns" buf1] Cons.prems(1) Some by simp
  qed
qed

lemma base_name_path: "names \<noteq> [] \<Longrightarrow> \<forall>n \<in> set names. name_ok n \<Longrightarrow> base_name (path_of names) = Inr (last names)"
proof -
  assume a: "names \<noteq> []" "\<forall>n \<in> set names. name_ok n"
  then obtain ns n where ns: "names = ns @ [n]" by (metis append_butlast_last_id)
  then have p: "path_of names = path_of ns @ BACKSLASH # n" by (simp add: path_of_def)
  have "BACKSLASH \<notin> set n" using a(2) ns by (simp add: name_ok_def)
  then have "takeWhile (\<lambda>c. c \<noteq> BACKSLASH) (rev n @ BACKSLASH # rev (path_of ns)) = rev n" by (subst takeWhile_append2) auto
  then show ?thesis unfolding base_name_def p by (simp add: ns)
qed

lemma trim_path: "p \<noteq> [] \<Longrightarrow> last p \<notin> {CHR '' '', CHR ''.''} \<Longrightarrow> cdvdman_trimspaces p = p"
  by (cases p rule: rev_cases) (auto simp: cdvdman_trimspaces_def)

text \<open>C13: a game that asks for a file of the first layer by its path gets the first sector of the entry that the path leads to in the
  directories of the disc, however many sectors they have, its last component as the name, and the size of the entry, or 0 instead
  of it when the game skips videos and the path ends in \<open>.PSS\<close> or \<open>.pss\<close> and two characters of version; it is told that there is none
  exactly when the path leads nowhere, and nothing outside the buffers is touched.  The path is a sequence of non-empty
  components of fewer than 32 characters, each behind a backslash and without slashes, of at most 255 characters in all (at least 6 when videos are
  skipped), which does not end in a space or a dot; the root directory is known, every directory can be read and is well formed, and the names in
  the directories have 1 to 14 characters.\<close>

theorem search_file:
  assumes "dirs_ok rd 0 D ds" "layers = [li, li2]" "(rootDirtocLBA li, rootDirtocLength li) \<in> set ds" "rootDirtocLBA li \<noteq> 0"
    "names \<noteq> []" "\<forall>n \<in> set names. name_ok n" "length (path_of names) \<le> 255" "last (path_of names) \<notin> {CHR '' '', CHR ''.''}"
    "skip_videos st \<longrightarrow> is_video (path_of names) = Inr video"
  shows "\<exists>buf'. sceCdSearchFile rd st layers buf (path_of names) =
    Some (Inr (map_option (\<lambda>e. \<lparr>cf_lsn = te_lba e, cf_size = (if skip_videos st \<and> video then 0 else te_size e), cf_name = last names\<rparr>)
      (walk D 0 names (rootDirtocLBA li) (rootDirtocLength li)), buf'))"
proof -
  obtain n ns where ns: "names = n # ns" using assms(5) by (cases names) auto
  have ne: "path_of names \<noteq> []" by (simp add: ns path_of_simps)
  have trim: "cdvdman_trimspaces (take 255 (path_of names)) = path_of names" using trim_path [OF ne assms(8)] assms(7) by simp
  have start: "path_start (path_of names) = n @ path_of ns" using path_start_name(2) [of n "path_of ns"] assms(6) by (simp add: ns path_of_simps)
  have ok: "\<forall>m \<in> set (n # ns). name_ok m" using assms(6) ns by simp
  note w = locatefile_walks [OF assms(1) ok assms(3) start, of buf, folded ns]
  note b = base_name_path [OF assms(5,6)]
  show ?thesis
  proof (cases "walk D 0 names (rootDirtocLBA li) (rootDirtocLength li)")
    case None
    then show ?thesis using w assms(2,4) trim by (auto simp: sceCdSearchFile_def cdvdman_findfile_def peek_def)
  next
    case (Some e)
    then obtain pos buf' where f: "cdvdman_locatefile rd 0 buf (path_of names) (rootDirtocLBA li) (sint (rootDirtocLength li)) = Some (Inr (Some pos, buf'))"
      "toc_fileLBA buf' pos = Inr (te_lba e)" "toc_fileSize buf' pos = Inr (te_size e)" using w by blast
    then show ?thesis using Some assms(2,4,9) trim b by (auto simp: sceCdSearchFile_def cdvdman_findfile_def peek_def)
  qed
qed

text \<open>A disc with a directory in the root directory.\<close>

definition demo_entry :: "u32 \<Rightarrow> u32 \<Rightarrow> u8 \<Rightarrow> string \<Rightarrow> toc_entry" where
  "demo_entry lba sz flags name = \<lparr>te_lba = lba, te_size = sz, te_date = [124, 1, 2, 3, 4, 5, 0], te_flags = flags, te_misc = [0, 0, 1, 0, 0, 1],
     te_name = map (\<lambda>c. of_nat (of_char c)) name, te_pad = []\<rparr>"

lemma demo_entry_simps [simp]:
  "shown (demo_entry lba sz flags name) = takeWhile (\<lambda>c. c \<noteq> NUL) name" "is_dir (demo_entry lba sz flags name) \<longleftrightarrow> flags AND 2 \<noteq> 0"
  "te_lba (demo_entry lba sz flags name) = lba" "te_size (demo_entry lba sz flags name) = sz"
proof -
  have "char_of (unat (of_nat (of_char c) :: u8)) = (c :: char)" for c
    by (simp add: unsigned_of_nat take_bit_eq_mod)
  then show "shown (demo_entry lba sz flags name) = takeWhile (\<lambda>c. c \<noteq> NUL) name" by (simp add: shown_def demo_entry_def comp_def)
qed (simp_all add: demo_entry_def is_dir_def)

definition demo_dir :: "u32 \<Rightarrow> toc_entry list" where
  "demo_dir lba = (if lba = 30 then [demo_entry 30 2048 2 [NUL], demo_entry 40 77 0 ''A.TXT;1'', demo_entry 31 2048 2 ''DIR'']
     else [demo_entry 31 2048 2 [NUL], demo_entry 50 99 0 ''B.PSS;1''])"

definition demo_read :: "u32 \<Rightarrow> u8 list \<Rightarrow> u8 list option" where
  "demo_read lba buf = Some (concat (map toc_bytes (demo_dir lba)) @ 0 # 0 # replicate 2000 0)"

lemma demo_sector: "dir_sector (demo_dir lba) (concat (map toc_bytes (demo_dir lba)) @ 0 # 0 # replicate 2000 0)"
proof -
  have ok: "\<forall>e \<in> set (demo_dir lba). entry_ok e" by (auto simp: demo_dir_def demo_entry_def entry_ok_def)
  have "length (concat (map toc_bytes (demo_dir lba))) \<le> 2048"
    by (simp add: demo_dir_def demo_entry_def toc_bytes_def)
  with ok show ?thesis by (simp add: dir_sector_def)
qed

lemma demo_dirs: "dirs_ok demo_read 0 (\<lambda>lba sz. [demo_dir lba]) [(30, 2048), (31, 2048)]"
proof -
  have "dir_on demo_read lba (sint (2048 :: u32)) [demo_dir lba]" for lba
    using demo_sector by (simp add: dir_on_def demo_read_def)
  moreover have "is_dir e \<longrightarrow> (te_lba e + 0, te_size e) \<in> set [(30, 2048), (31, 2048)]" if "e \<in> set (demo_dir 30) \<or> e \<in> set (demo_dir 31)" for e
    using that by (auto simp: demo_dir_def)
  ultimately show ?thesis by (auto simp: dirs_ok_def)
qed

theorem search_file_witness:
  "\<exists>buf'. sceCdSearchFile demo_read \<lparr>emu_dvddl = False, skip_videos = True, layer1_start = 0\<rparr>
      [\<lparr>rootDirtocLBA = 30, rootDirtocLength = 2048\<rparr>, \<lparr>rootDirtocLBA = 0, rootDirtocLength = 0\<rparr>] [] (path_of [''DIR'', ''B.PSS;1'']) =
    Some (Inr (Some \<lparr>cf_lsn = 50, cf_size = 0, cf_name = ''B.PSS;1''\<rparr>, buf'))"
proof -
  have v: "is_video (path_of [''DIR'', ''B.PSS;1'']) = Inr True" by (simp add: is_video_def path_of_def)
  have w: "walk (\<lambda>lba sz. [demo_dir lba]) 0 [''DIR'', ''B.PSS;1''] 30 2048 = Some (demo_entry 50 99 0 ''B.PSS;1'')"
    by (simp add: demo_dir_def hit_def)
  have n: "\<forall>n \<in> set [''DIR'', ''B.PSS;1'']. name_ok n" "length (path_of [''DIR'', ''B.PSS;1'']) \<le> 255" "last (path_of [''DIR'', ''B.PSS;1'']) \<notin> {CHR '' '', CHR ''.''}"
    by (simp_all add: name_ok_def path_of_def)
  from search_file [OF demo_dirs refl _ _ _ n, of "\<lparr>rootDirtocLBA = 30, rootDirtocLength = 2048\<rparr>" "\<lparr>emu_dvddl = False, skip_videos = True, layer1_start = 0\<rparr>" True] v w
  show ?thesis by simp
qed

text \<open>An entry without a name is not passed over: the search never returns.\<close>

lemma toc_scan_hangs:
  assumes "toc_length buf pos = Inr len" "len \<noteq> 0" "at_int buf (pos + 32) = Inr 0" "pos < 2016"
  shows "toc_scan buf d lst pos = None"
proof (rule ccontr)
  assume "toc_scan buf d lst pos \<noteq> None"
  then obtain y where "toc_scan buf d lst pos = Some y" by blast
  then have "\<not> (toc_length buf pos = Inr len \<and> at_int buf (pos + 32) = Inr 0 \<and> pos < 2016)"
    by (rule toc_scan.raw_induct [where P = "\<lambda>b d l p y. \<not> (toc_length b p = Inr len \<and> at_int b (p + 32) = Inr 0 \<and> p < 2016)", rotated])
      (use assms(2) in \<open>auto split: sum.splits if_splits\<close>)
  then show False using assms by blast
qed

end
