(* ===== verification/McEcc.thy ===== *)
theory McEcc
  imports CPrelude
begin

text \<open>
  The check bytes of the virtual memory cards (\<open>modules/mcemu/mcemu_sys.c\<close>, with the table of \<open>mcemu_var.c\<close>): the
  parity over a reply and the error correcting code over 128 bytes of a page.  The code is shown to be one:
  from the difference of the stored and the computed code a flipped bit can be located, and two flipped bits are noticed.
\<close>

definition xortable :: "u8 list" where
  "xortable =
    [0x00, 0x87, 0x96, 0x11, 0xA5, 0x22, 0x33, 0xB4, 0xB4, 0x33, 0x22, 0xA5, 0x11, 0x96, 0x87, 0x00,
     0xC3, 0x44, 0x55, 0xD2, 0x66, 0xE1, 0xF0, 0x77, 0x77, 0xF0, 0xE1, 0x66, 0xD2, 0x55, 0x44, 0xC3,
     0xD2, 0x55, 0x44, 0xC3, 0x77, 0xF0, 0xE1, 0x66, 0x66, 0xE1, 0xF0, 0x77, 0xC3, 0x44, 0x55, 0xD2,
     0x11, 0x96, 0x87, 0x00, 0xB4, 0x33, 0x22, 0xA5, 0xA5, 0x22, 0x33, 0xB4, 0x00, 0x87, 0x96, 0x11,
     0xE1, 0x66, 0x77, 0xF0, 0x44, 0xC3, 0xD2, 0x55, 0x55, 0xD2, 0xC3, 0x44, 0xF0, 0x77, 0x66, 0xE1,
     0x22, 0xA5, 0xB4, 0x33, 0x87, 0x00, 0x11, 0x96, 0x96, 0x11, 0x00, 0x87, 0x33, 0xB4, 0xA5, 0x22,
     0x33, 0xB4, 0xA5, 0x22, 0x96, 0x11, 0x00, 0x87, 0x87, 0x00, 0x11, 0x96, 0x22, 0xA5, 0xB4, 0x33,
     0xF0, 0x77, 0x66, 0xE1, 0x55, 0xD2, 0xC3, 0x44, 0x44, 0xC3, 0xD2, 0x55, 0xE1, 0x66, 0x77, 0xF0,
     0xF0, 0x77, 0x66, 0xE1, 0x55, 0xD2, 0xC3, 0x44, 0x44, 0xC3, 0xD2, 0x55, 0xE1, 0x66, 0x77, 0xF0,
     0x33, 0xB4, 0xA5, 0x22, 0x96, 0x11, 0x00, 0x87, 0x87, 0x00, 0x11, 0x96, 0x22, 0xA5, 0xB4, 0x33,
     0x22, 0xA5, 0xB4, 0x33, 0x87, 0x00, 0x11, 0x96, 0x96, 0x11, 0x00, 0x87, 0x33, 0xB4, 0xA5, 0x22,
     0xE1, 0x66, 0x77, 0xF0, 0x44, 0xC3, 0xD2, 0x55, 0x55, 0xD2, 0xC3, 0x44, 0xF0, 0x77, 0x66, 0xE1,
     0x11, 0x96, 0x87, 0x00, 0xB4, 0x33, 0x22, 0xA5, 0xA5, 0x22, 0x33, 0xB4, 0x00, 0x87, 0x96, 0x11,
     0xD2, 0x55, 0x44, 0xC3, 0x77, 0xF0, 0xE1, 0x66, 0x66, 0xE1, 0xF0, 0x77, 0xC3, 0x44, 0x55, 0xD2,
     0xC3, 0x44, 0x55, 0xD2, 0x66, 0xE1, 0xF0, 0x77, 0x77, 0xF0, 0xE1, 0x66, 0xD2, 0x55, 0x44, 0xC3,
     0x00, 0x87, 0x96, 0x11, 0xA5, 0x22, 0x33, 0xB4, 0xB4, 0x33, 0x22, 0xA5, 0x11, 0x96, 0x87, 0x00]"

text \<open>\<open>GetInt\<close>: four bytes make a signed 32-bit number.\<close>

definition GetInt :: "u8 list \<Rightarrow> int cres" where
  "GetInt p =
     c_bind (mem_read p 0 4) (\<lambda>b. Inr (sint (ucast (b ! 0) OR push_bit 8 (ucast (b ! 1)) OR push_bit 16 (ucast (b ! 2)) OR push_bit 24 (ucast (b ! 3)) :: u32)))"

definition CalculateEDC :: "u8 list \<Rightarrow> nat \<Rightarrow> u8 cres" where
  "CalculateEDC buf sz = c_bind (mem_read buf 0 sz) (\<lambda>d. Inr (fold (XOR) d 0))"

fun ecc_loop :: "nat \<Rightarrow> u8 list \<Rightarrow> u32 \<times> u32 \<times> u32 \<Rightarrow> u32 \<times> u32 \<times> u32" where
  "ecc_loop i [] c = c"
| "ecc_loop i (x # xs) (c1, c2, c3) =
     (let b = ucast (xortable ! unat x) :: u32
      in ecc_loop (i + 1) xs
           (c1 XOR b, (if b AND 0x80 \<noteq> 0 then c2 XOR NOT (of_nat i) else c2), (if b AND 0x80 \<noteq> 0 then c3 XOR of_nat i else c3)))"

definition CalculateECC :: "u8 list \<Rightarrow> u8 list cres" where
  "CalculateECC buf =
     c_bind (mem_read buf 0 0x80) (\<lambda>d. case ecc_loop 0 d (0, 0, 0) of (c1, c2, c3) \<Rightarrow>
       Inr [ucast (NOT c1 AND 0x77), ucast (NOT c2 AND 0x7F), ucast (NOT c3 AND 0x7F)])"

section \<open>The table is linear\<close>

text \<open>What one bit contributes; bit 7 of it is always set.\<close>

definition bit_code :: "nat \<Rightarrow> u8" where
  "bit_code j = of_nat (0x80 + 16 * j + (7 - j))"

definition lin_code :: "u8 \<Rightarrow> u8" where
  "lin_code x = fold (\<lambda>j c. if bit x j then c XOR bit_code j else c) [0..<8] 0"

lemma xortable_lin_all: "\<forall>n \<in> set [0..<256]. xortable ! n = lin_code (of_nat n)"
  by code_simp

lemma xortable_lin: "xortable ! unat x = lin_code x"
proof -
  have "unat x < 256" using unsigned_less [of x] by simp
  then have "xortable ! unat x = lin_code (of_nat (unat x))" using xortable_lin_all by (metis atLeastLessThan_iff set_upt zero_le)
  then show ?thesis by simp
qed

lemma lin_code_flip: "j < 8 \<Longrightarrow> lin_code (x XOR push_bit j 1) = lin_code x XOR bit_code j"
  by (auto simp: lin_code_def upt_rec bit_simps numeral_eq_Suc less_Suc_eq xor.assoc xor.left_commute xor.commute)

lemmas lin_code_flip_exp = lin_code_flip [unfolded push_bit_of_1]

section \<open>The loop is linear\<close>

fun xor3 :: "u32 \<times> u32 \<times> u32 \<Rightarrow> u32 \<times> u32 \<times> u32 \<Rightarrow> u32 \<times> u32 \<times> u32" where
  "xor3 (a1, a2, a3) (b1, b2, b3) = (a1 XOR b1, a2 XOR b2, a3 XOR b3)"

lemma ecc_loop_xor3: "ecc_loop i xs (xor3 c d) = xor3 (ecc_loop i xs c) d"
proof (induction xs arbitrary: i c)
  case (Cons x xs)
  obtain c1 c2 c3 d1 d2 d3 where cd: "c = (c1, c2, c3)" "d = (d1, d2, d3)" by (metis prod_cases3)
  have "ecc_loop i (x # xs) (xor3 c d) =
    (let b = ucast (xortable ! unat x) :: u32
     in ecc_loop (i + 1) xs (xor3 (c1 XOR b, (if b AND 0x80 \<noteq> 0 then c2 XOR NOT (of_nat i) else c2), (if b AND 0x80 \<noteq> 0 then c3 XOR of_nat i else c3)) d))"
    by (simp add: cd Let_def xor.assoc xor.commute xor.left_commute)
  then show ?case by (simp only: Cons.IH [unfolded cd] cd ecc_loop.simps Let_def)
qed simp

definition flip :: "nat \<Rightarrow> nat \<Rightarrow> u8 list \<Rightarrow> u8 list" where
  "flip i j buf = buf[i := buf ! i XOR push_bit j 1]"

lemma length_flip [simp]: "length (flip i j buf) = length buf"
  by (simp add: flip_def)

lemma flip_Cons [simp]:
  "flip 0 j (x # xs) = (x XOR push_bit j 1) # xs"
  "flip (Suc k) j (x # xs) = x # flip k j xs"
  by (simp_all add: flip_def)

lemma bit_code_top: "j < 8 \<Longrightarrow> bit (bit_code j) 7"
  by (auto simp: bit_code_def numeral_eq_Suc less_Suc_eq bit_simps)

lemma top_bit_32: "(ucast (b :: u8) :: u32) AND 0x80 \<noteq> 0 \<longleftrightarrow> bit b 7"
proof -
  have "(ucast b :: u32) AND 2 ^ 7 = 0 \<longleftrightarrow> \<not> bit (ucast b :: u32) 7" by (rule and_exp_eq_0_iff_not_bit)
  then show ?thesis by (simp add: bit_simps)
qed

lemma ucast_u32_xor: "(ucast (a XOR b :: u8) :: u32) = ucast a XOR ucast b"
  by (simp add: unsigned_xor_eq)

lemma ecc_loop_flip:
  "k < length xs \<Longrightarrow> j < 8 \<Longrightarrow>
   ecc_loop i (flip k j xs) c = xor3 (ecc_loop i xs c) (ucast (bit_code j), NOT (of_nat (i + k)), of_nat (i + k))"
proof (induction xs arbitrary: i k c)
  case (Cons x xs)
  obtain c1 c2 c3 where c: "c = (c1, c2, c3)" by (metis prod_cases3)
  show ?case
  proof (cases k)
    case 0
    then show ?thesis using Cons.prems(2)
      by (simp add: c Let_def xortable_lin lin_code_flip_exp top_bit_32 bit_simps bit_code_top ecc_loop_xor3 [symmetric] xor.assoc)
        (simp add: ucast_u32_xor xor.assoc)
  next
    case (Suc m)
    then show ?thesis using Cons.IH [of m] Cons.prems by (simp add: c Let_def add.assoc)
  qed
qed simp

text \<open>What a flipped bit \<open>j\<close> of byte \<open>i\<close> changes in the three bytes of the code.\<close>

definition ecc_mark :: "nat \<Rightarrow> nat \<Rightarrow> u8 list" where
  "ecc_mark i j = [of_nat (16 * j + (7 - j)), of_nat (127 - i), of_nat i]"

definition ecc_xor :: "u8 list \<Rightarrow> u8 list \<Rightarrow> u8 list" where
  "ecc_xor = map2 (XOR)"

lemma low_NOT_xor:
  "(ucast (NOT (a XOR b) AND m :: u32) :: u8) = ucast (NOT a AND m) XOR ucast (b AND m)"
  by (rule bit_word_eqI) (auto simp: bit_simps)

lemma mark_bytes:
  "\<forall>j \<in> set [0..<8]. (ucast ((ucast (bit_code j) :: u32) AND 0x77) :: u8) = of_nat (16 * j + (7 - j))"
  "\<forall>i \<in> set [0..<128]. (ucast ((NOT (of_nat i) :: u32) AND 0x7F) :: u8) = of_nat (127 - i)"
  "\<forall>i \<in> set [0..<128]. (ucast ((of_nat i :: u32) AND 0x7F) :: u8) = of_nat i"
  by code_simp+

lemma CalculateECC_flip:
  assumes len: "length buf = 128" and i: "i < 128" and j: "j < 8" and e: "CalculateECC buf = Inr e"
  shows "CalculateECC (flip i j buf) = Inr (ecc_xor e (ecc_mark i j))"
proof -
  obtain c1 c2 c3 where c: "ecc_loop 0 buf (0, 0, 0) = (c1, c2, c3)" by (metis prod_cases3)
  have f: "ecc_loop 0 (flip i j buf) (0, 0, 0) = (c1 XOR ucast (bit_code j), c2 XOR NOT (of_nat i), c3 XOR of_nat i)"
    using ecc_loop_flip [of i buf j 0 "(0, 0, 0)"] len i j by (simp add: c)
  have "e = [ucast (NOT c1 AND 0x77), ucast (NOT c2 AND 0x7F), ucast (NOT c3 AND 0x7F)]"
    using e len by (simp add: CalculateECC_def c)
  moreover have "CalculateECC (flip i j buf) =
    Inr [ucast (NOT (c1 XOR ucast (bit_code j)) AND 0x77), ucast (NOT (c2 XOR NOT (of_nat i)) AND 0x7F), ucast (NOT (c3 XOR of_nat i) AND 0x7F)]"
    using len by (simp add: CalculateECC_def take_all f)
  moreover have "i \<in> set [0..<128]" "j \<in> set [0..<8]" using i j by auto
  ultimately show ?thesis using mark_bytes by (simp only: low_NOT_xor ecc_xor_def ecc_mark_def list.map case_prod_conv zip_Cons_Cons zip_Nil)
qed

lemma mark_byte_not: "i < 128 \<Longrightarrow> (of_nat (127 - i) :: u8) = of_nat i XOR 0x7F"
proof -
  have "\<forall>i \<in> set [0..<128]. (of_nat (127 - i) :: u8) = of_nat i XOR 0x7F" by code_simp
  then show "i < 128 \<Longrightarrow> ?thesis" by simp
qed

lemma of_nat_u8_inj: "a < 256 \<Longrightarrow> b < 256 \<Longrightarrow> (of_nat a :: u8) = of_nat b \<longleftrightarrow> a = b"
  by (simp add: word_of_nat_eq_iff take_bit_nat_eq_self)

lemma ecc_mark_inj:
  assumes "i < 128" "k < 128" "j < 8" "l < 8" "ecc_mark i j = ecc_mark k l"
  shows "i = k \<and> j = l"
  using assms of_nat_u8_inj [of i k] of_nat_u8_inj [of "16 * j + (7 - j)" "16 * l + (7 - l)"] by (simp add: ecc_mark_def)

lemma CalculateECC_total:
  "length buf = 128 \<Longrightarrow> \<exists>a b c. CalculateECC buf = Inr [a, b, c]"
  by (cases "ecc_loop 0 buf (0, 0, 0)") (simp add: CalculateECC_def)

lemma xor_cancel_u8: "(a :: u8) XOR b = a XOR c \<longleftrightarrow> b = c"
  by (metis xor.assoc xor.left_neutral xor_self_eq)

lemma xor_zero_u8: "(a :: u8) XOR b = a \<longleftrightarrow> b = 0"
  using xor_cancel_u8 [of a b 0] by simp

lemma xor_eq_0_u8: "(a :: u8) XOR b = 0 \<longleftrightarrow> a = b"
  using xor_cancel_u8 [of a b a] by auto

lemma ecc_xor_simps: "ecc_xor [] [] = []" "ecc_xor (x # xs) (y # ys) = (x XOR y) # ecc_xor xs ys"
  by (simp_all add: ecc_xor_def)

lemma ecc_xor_cancel:
  "length m = length e \<Longrightarrow> length n = length e \<Longrightarrow> ecc_xor e m = ecc_xor e n \<longleftrightarrow> m = n"
  by (induction e arbitrary: m n) (auto simp: ecc_xor_def length_Suc_conv xor_cancel_u8)

lemma ecc_xor_assoc: "ecc_xor (ecc_xor a b) c = ecc_xor a (ecc_xor b c)"
  unfolding ecc_xor_def by (induction a b arbitrary: c rule: list_induct2') (simp_all add: xor.assoc zip_Cons1 split: list.split)

lemma xor_twice_0x7F: "((a :: u8) XOR 0x7F) XOR (b XOR 0x7F) = a XOR b"
  by (rule bit_word_eqI) (simp only: bit_xor_iff, blast)

lemma ecc_xor_zero: "length m = length e \<Longrightarrow> ecc_xor e m = e \<longleftrightarrow> set m \<subseteq> {0}"
  by (induction m e rule: list_induct2) (simp_all add: ecc_xor_simps xor_zero_u8)

lemma marks_differ: "set (ecc_xor (ecc_mark i j) (ecc_mark k l)) \<subseteq> {0} \<Longrightarrow> ecc_mark i j = ecc_mark k l"
  by (simp add: ecc_xor_def ecc_mark_def xor_eq_0_u8)

lemma two_marks_not_one:
  assumes "i < 128" "k < 128" "m < 128"
  shows "ecc_xor (ecc_mark i j) (ecc_mark k l) \<noteq> ecc_mark m n"
proof
  assume "ecc_xor (ecc_mark i j) (ecc_mark k l) = ecc_mark m n"
  then have "(of_nat i XOR 0x7F) XOR (of_nat k XOR 0x7F) = (of_nat m XOR 0x7F :: u8)" "of_nat i XOR of_nat k = (of_nat m :: u8)"
    using assms by (simp_all only: ecc_xor_def ecc_mark_def mark_byte_not list.inject zip_Cons_Cons list.map case_prod_conv)
  then have "(of_nat m :: u8) XOR 0 = of_nat m XOR 0x7F"
    by (metis xor_twice_0x7F xor.right_neutral)
  then show False by (simp only: xor_cancel_u8) simp
qed

text \<open>C12: For any 128 bytes, \<open>CalculateECC\<close> gives three bytes from which one flipped bit can be located and two can be told from none and
  from one: flipping bit \<open>j\<close> of byte \<open>i\<close> changes the code by exactly \<open>16 j + (7 - j)\<close>, \<open>127 - i\<close> and \<open>i\<close>, different for every
  bit; two different flipped bits give a code that is neither the original one nor that of any single flipped bit.\<close>

theorem CalculateECC_corrects_one_detects_two:
  assumes len: "length buf = 128"
  shows "\<exists>e. CalculateECC buf = Inr e \<and> length e = 3 \<and>
    (\<forall>i < 128. \<forall>j < 8. CalculateECC (flip i j buf) = Inr (ecc_xor e (ecc_mark i j)) \<and>
      (\<forall>k < 128. \<forall>l < 8. (i, j) \<noteq> (k, l) \<longrightarrow>
         CalculateECC (flip i j buf) \<noteq> CalculateECC (flip k l buf) \<and>
         CalculateECC (flip k l (flip i j buf)) \<noteq> Inr e \<and>
         (\<forall>m < 128. \<forall>n < 8. CalculateECC (flip k l (flip i j buf)) \<noteq> CalculateECC (flip m n buf))))"
proof -
  obtain e where e: "CalculateECC buf = Inr e" "length e = 3" using CalculateECC_total [OF len] by force
  have one: "CalculateECC (flip i j buf) = Inr (ecc_xor e (ecc_mark i j))" if "i < 128" "j < 8" for i j
    using CalculateECC_flip len that e by blast
  have two: "CalculateECC (flip k l (flip i j buf)) = Inr (ecc_xor e (ecc_xor (ecc_mark i j) (ecc_mark k l)))"
    if "i < 128" "j < 8" "k < 128" "l < 8" for i j k l
    using CalculateECC_flip [of "flip i j buf" k l] len that one [of i j] by (simp add: ecc_xor_assoc)
  have lens: "length (ecc_mark i j) = length e" "length (ecc_xor (ecc_mark i j) (ecc_mark k l)) = length e" for i j k l
    by (simp_all add: ecc_mark_def ecc_xor_def e)
  have nz: "ecc_xor e (ecc_xor (ecc_mark i j) (ecc_mark k l)) \<noteq> e"
    if "i < 128" "j < 8" "k < 128" "l < 8" "(i, j) \<noteq> (k, l)" for i j k l
    using that ecc_mark_inj [of i k j l] ecc_xor_zero [OF lens(2)] marks_differ by blast
  show ?thesis
    using e one two nz two_marks_not_one ecc_mark_inj
    by (intro exI [of _ e] conjI allI impI) (auto simp: ecc_xor_cancel lens)
qed

theorem CalculateECC_corrects_one_detects_two_witness:
  "\<exists>e. CalculateECC (replicate 128 0xA5) = Inr e \<and> length e = 3"
  using CalculateECC_corrects_one_detects_two [of "replicate 128 0xA5"] by auto

end
