(* ===== verification/McEmu.thy ===== *)
theory McEmu
  imports McEcc CdRead
begin

text \<open>
  Virtual memory cards (\<open>modules/mcemu\<close>): the commands a game sends to a card over the serial interface are answered
  from a file.  The theory models the card descriptors and their configuration (\<open>mcemu_io.c\<close>), the handler of the commands with reading,
  writing and erasing of pages (\<open>mcemu.c\<close>) and the storage of pages on the hard disk and on block devices (\<open>device-hdd.c\<close>,
  \<open>device-bdm.c\<close>).  What the handler relies on of the storage is the locale \<open>page_device\<close>.

  \<open>dbufp\<close> of every configured card is the one \<open>mcdatabuf\<close>, \<open>cbufp\<close> the \<open>mceccbuf\<close> of the card; both are kept in \<open>mc_mem\<close> together
  with the state of the drive.  A page number is kept as the 32 bits the device functions receive.
\<close>

section \<open>Cards\<close>

record McSpec =
  PageSize :: u16
  BlockSize :: u16
  CardSize :: u32

record apa_parts =
  ap_start :: u32
  ap_length :: u32

record pfs_blocks =
  pb_number :: u32
  pb_subpart :: u16
  pb_count :: u16

record McImageSpec =
  active :: int
  stsec :: u64
  parts :: "apa_parts list"
  blocks :: "pfs_blocks list"
  vflags :: u32
  vcspec :: McSpec

text \<open>\<open>rcoff\<close> and \<open>wcoff\<close> are C integers that count check bytes; they start from 0 with every page and stay far inside their range, so
  that they are integers here.\<close>

record MemoryCard =
  mcnum :: int
  rpage :: u32
  rdoff :: nat
  wpage :: u32
  wroff :: nat
  rcoff :: int
  wcoff :: int
  tcode :: u8
  cspec :: McSpec
  flags :: u32

record 's mc_mem =
  mcdatabuf :: "u8 list"
  mceccbuf :: "u8 list list"
  drive :: 's

definition mc_configure1 :: "nat \<Rightarrow> McImageSpec \<Rightarrow> MemoryCard \<Rightarrow> MemoryCard" where
  "mc_configure1 i v mcd =
     (if active v = 1 then mcd\<lparr>mcnum := int i, tcode := 0x5A, flags := vflags v, cspec := vcspec v\<rparr>
      else mcd\<lparr>mcnum := -1\<rparr>)"

definition mc_configure :: "McImageSpec \<times> McImageSpec \<Rightarrow> MemoryCard \<times> MemoryCard \<Rightarrow> int \<times> MemoryCard \<times> MemoryCard" where
  "mc_configure vmcSpec mcds =
     (if active (fst vmcSpec) = 0 \<and> active (snd vmcSpec) = 0 then (0, mcds)
      else (1, mc_configure1 0 (fst vmcSpec) (fst mcds), mc_configure1 1 (snd vmcSpec) (snd mcds)))"

section \<open>Storage of pages\<close>

text \<open>A device reads a page into a buffer, or writes it from there; the result is 0 or 1.\<close>

type_synonym 's page_read = "'s \<Rightarrow> int \<Rightarrow> u8 list \<Rightarrow> u32 \<Rightarrow> (int \<times> u8 list \<times> 's) cres"
type_synonym 's page_write = "'s \<Rightarrow> int \<Rightarrow> u8 list \<Rightarrow> u32 \<Rightarrow> (int \<times> 's) cres"

definition spec_of :: "McImageSpec \<times> McImageSpec \<Rightarrow> int \<Rightarrow> McImageSpec cres" where
  "spec_of vmcSpec mc_num = (if mc_num = 0 then Inr (fst vmcSpec) else if mc_num = 1 then Inr (snd vmcSpec) else Inl OutOfBounds)"

fun apa_scan :: "apa_parts list \<Rightarrow> u32 \<Rightarrow> pfs_blocks list \<Rightarrow> u32 \<Rightarrow> u32 \<Rightarrow> u32 cres" where
  "apa_scan ps mc_page [] ubound sector_to_read = Inr sector_to_read"
| "apa_scan ps mc_page (b # bs) lbound sector_to_read =
     (let ubound = lbound + ucast (pb_count b)
      in if push_bit 4 lbound \<le> mc_page \<and> mc_page < push_bit 4 ubound
         then c_bind (peek ps (unat (pb_subpart b))) (\<lambda>p.
                apa_scan ps mc_page bs ubound (ap_start p + push_bit 4 (pb_number b) + (mc_page - push_bit 4 lbound)))
         else apa_scan ps mc_page bs ubound sector_to_read)"

definition Mcpage_to_Apasector :: "McImageSpec \<times> McImageSpec \<Rightarrow> int \<Rightarrow> u32 \<Rightarrow> u32 cres" where
  "Mcpage_to_Apasector vmcSpec mc_num mc_page =
     c_bind (spec_of vmcSpec mc_num) (\<lambda>v.
     c_bind (mem_read (blocks v) 0 10) (\<lambda>bs. apa_scan (parts v) mc_page bs 0 0))"

text \<open>\<open>ata_rd\<close> and \<open>ata_wr\<close> are \<open>sceAtaDmaTransfer\<close> of one sector in the two directions: its result, 0 for success, the
  512 bytes it leaves in the buffer and the state of the drive.\<close>

definition DeviceWritePage_hdd :: "('s \<Rightarrow> u32 \<Rightarrow> u8 list \<Rightarrow> int \<times> 's) \<Rightarrow> McImageSpec \<times> McImageSpec \<Rightarrow> 's page_write" where
  "DeviceWritePage_hdd ata_wr vmcSpec s mc_num buf page_num =
     c_bind (Mcpage_to_Apasector vmcSpec mc_num page_num) (\<lambda>lba.
     c_bind (mem_read buf 0 512) (\<lambda>d. case ata_wr s lba d of (r, s') \<Rightarrow> Inr (if r = 0 then 1 else 0, s')))"

definition DeviceReadPage_hdd :: "('s \<Rightarrow> u32 \<Rightarrow> int \<times> u8 list \<times> 's) \<Rightarrow> McImageSpec \<times> McImageSpec \<Rightarrow> 's page_read" where
  "DeviceReadPage_hdd ata_rd vmcSpec s mc_num buf page_num =
     c_bind (Mcpage_to_Apasector vmcSpec mc_num page_num) (\<lambda>lba. case ata_rd s lba of (r, d, s') \<Rightarrow>
     c_bind (mem_write buf 0 d) (\<lambda>buf'. Inr (if r = 0 then 1 else 0, buf', s')))"

text \<open>On block devices the results of \<open>bdm_writeSector\<close> and \<open>bdm_readSector\<close> are not looked at.\<close>

definition DeviceWritePage_bdm :: "('s \<Rightarrow> u64 \<Rightarrow> u8 list \<Rightarrow> int \<times> 's) \<Rightarrow> McImageSpec \<times> McImageSpec \<Rightarrow> 's page_write" where
  "DeviceWritePage_bdm bdm_writeSector vmcSpec s mc_num buf page_num =
     c_bind (spec_of vmcSpec mc_num) (\<lambda>v.
     c_bind (mem_read buf 0 512) (\<lambda>d. case bdm_writeSector s (stsec v + ucast page_num) d of (_, s') \<Rightarrow> Inr (1, s')))"

definition DeviceReadPage_bdm :: "('s \<Rightarrow> u64 \<Rightarrow> int \<times> u8 list \<times> 's) \<Rightarrow> McImageSpec \<times> McImageSpec \<Rightarrow> 's page_read" where
  "DeviceReadPage_bdm bdm_readSector vmcSpec s mc_num buf page_num =
     c_bind (spec_of vmcSpec mc_num) (\<lambda>v. case bdm_readSector s (stsec v + ucast page_num) of (_, d, s') \<Rightarrow>
     c_bind (mem_write buf 0 d) (\<lambda>buf'. Inr (1, buf', s')))"

section \<open>Reading, writing and erasing pages\<close>

abbreviation page_bytes :: "MemoryCard \<Rightarrow> nat" where
  "page_bytes mcd \<equiv> unat (PageSize (cspec mcd))"

definition set_cbuf :: "MemoryCard \<Rightarrow> nat \<Rightarrow> u8 list \<Rightarrow> 's mc_mem \<Rightarrow> ('s mc_mem) cres" where
  "set_cbuf mcd p bs m =
     c_bind (peek (mceccbuf m) (nat (mcnum mcd))) (\<lambda>b.
     c_bind (mem_write b p bs) (\<lambda>b'. Inr (m\<lparr>mceccbuf := (mceccbuf m)[nat (mcnum mcd) := b']\<rparr>)))"

fun erase_pages :: "'s page_write \<Rightarrow> MemoryCard \<Rightarrow> u32 \<Rightarrow> nat \<Rightarrow> nat \<Rightarrow> 's mc_mem \<Rightarrow> (int \<times> 's mc_mem) cres" where
  "erase_pages wr mcd page i 0 m = Inr (1, m)"
| "erase_pages wr mcd page i (Suc n) m =
     c_bind (wr (drive m) (mcnum mcd) (mcdatabuf m) (page + of_nat i)) (\<lambda>(r, s).
       let m' = m\<lparr>drive := s\<rparr> in if r = 0 then Inr (0, m') else erase_pages wr mcd page (i + 1) n m')"

definition MceEraseBlock :: "'s page_write \<Rightarrow> MemoryCard \<Rightarrow> u32 \<Rightarrow> 's mc_mem \<Rightarrow> (int \<times> 's mc_mem) cres" where
  "MceEraseBlock wr mcd page m =
     c_bind (mem_write (mcdatabuf m) 0 (replicate (page_bytes mcd) (if flags mcd AND 0x10 \<noteq> 0 then 0 else 0xFF))) (\<lambda>b.
       erase_pages wr mcd page 0 (unat (BlockSize (cspec mcd))) (m\<lparr>mcdatabuf := b\<rparr>))"

function ecc_pages :: "MemoryCard \<Rightarrow> nat \<Rightarrow> nat \<Rightarrow> 's mc_mem \<Rightarrow> ('s mc_mem) cres" where
  "ecc_pages mcd r i m =
     (if r < page_bytes mcd then
        c_bind (CalculateECC (drop r (mcdatabuf m))) (\<lambda>e. c_bind (set_cbuf mcd i e m) (\<lambda>m'. ecc_pages mcd (r + 128) (i + 3) m'))
      else Inr m)"
  by pat_completeness auto
termination by (relation "measure (\<lambda>(mcd, r, i, m). page_bytes mcd - r)") auto

declare ecc_pages.simps [simp del]

definition do_read :: "'s page_read \<Rightarrow> MemoryCard \<Rightarrow> 's mc_mem \<Rightarrow> (int \<times> 's mc_mem) cres" where
  "do_read rd mcd m =
     c_bind (set_cbuf mcd 0 (replicate 0x10 (if flags mcd AND 0x10 \<noteq> 0 then 0xFF else 0)) m) (\<lambda>m1.
     c_bind (rd (drive m1) (mcnum mcd) (mcdatabuf m1) (rpage mcd)) (\<lambda>(r, b, s).
       let m2 = m1\<lparr>mcdatabuf := b, drive := s\<rparr>
       in if r = 0 then Inr (0, m2) else c_bind (ecc_pages mcd 0 0 m2) (\<lambda>m3. Inr (1, m3))))"

definition MceStartRead :: "MemoryCard \<Rightarrow> u32 \<Rightarrow> MemoryCard" where
  "MceStartRead mcd page = mcd\<lparr>rpage := page, rdoff := 0, rcoff := 0\<rparr>"

text \<open>The first part of a read or write: if data has been passed and the page is at its end, the error correcting bytes are next.
  The result is how many bytes are taken for them.\<close>

definition ecc_count :: "int \<Rightarrow> nat \<Rightarrow> nat \<Rightarrow> nat" where
  "ecc_count coff doff sz = (if coff \<noteq> 0 \<and> doff = 0 then min sz 16 else 0)"

definition ecc_left :: "int \<Rightarrow> nat \<Rightarrow> nat \<Rightarrow> int" where
  "ecc_left coff doff sz =
     (if coff \<noteq> 0 \<and> doff = 0 then (if min sz 16 > 12 then 0 else coff - int (min sz 16)) else coff)"

text \<open>The second part of a read: bytes of the page, which is fetched when its first byte is asked for.  The result: whether it
  succeeded, the card, the memory, the bytes and how many.\<close>

definition read_data :: "'s page_read \<Rightarrow> MemoryCard \<Rightarrow> 's mc_mem \<Rightarrow> nat \<Rightarrow> (int \<times> MemoryCard \<times> 's mc_mem \<times> u8 list \<times> nat) cres" where
  "read_data rd mcd m sz =
     (if rdoff mcd < page_bytes mcd then
        c_bind (if rdoff mcd = 0 then do_read rd mcd m else Inr (1, m)) (\<lambda>(r, m1).
          if r = 0 then Inr (0, mcd, m1, [], sz)
          else let sz' = (if sz + rdoff mcd > page_bytes mcd then page_bytes mcd - rdoff mcd else sz)
               in c_bind (mem_read (mcdatabuf m1) (rdoff mcd) sz') (\<lambda>d.
                    Inr (1, mcd\<lparr>rdoff := rdoff mcd + sz', rcoff := rcoff mcd + 3\<rparr>, m1, d, sz')))
      else Inr (1, mcd, m, [], sz))"

text \<open>\<open>out\<close> is what has been put into the caller's buffer.\<close>

partial_function (option) MceRead_loop ::
  "'s page_read \<Rightarrow> nat \<Rightarrow> nat \<Rightarrow> MemoryCard \<Rightarrow> 's mc_mem \<Rightarrow> u8 list \<Rightarrow> ((int \<times> MemoryCard \<times> 's mc_mem \<times> u8 list) cres) option" where
  "MceRead_loop rd tot_size sz mcd m out =
     (let csize = ecc_count (rcoff mcd) (rdoff mcd) sz;
          mcd1 = mcd\<lparr>rcoff := ecc_left (rcoff mcd) (rdoff mcd) sz\<rparr>
      in case c_bind (if csize = 0 then Inr [] else c_bind (peek (mceccbuf m) (nat (mcnum mcd))) (\<lambda>b. mem_read b 0 csize)) (\<lambda>e.
                if rcoff mcd \<noteq> 0 \<and> rdoff mcd = 0 \<and> sz - csize = 0 then Inr (None, mcd1, m, e, 0)
                else c_bind (read_data rd mcd1 m (sz - csize)) (\<lambda>(r, mcd2, m2, d, n). Inr (Some r, mcd2, m2, e @ d, n)))
         of Inl f \<Rightarrow> Some (Inl f)
          | Inr (None, mcd2, m2, d, n) \<Rightarrow> r_ret (1, mcd2, m2, out @ d)
          | Inr (Some r, mcd2, m2, d, n) \<Rightarrow>
              if r = 0 then r_ret (0, mcd2, m2, out @ d)
              else if rdoff mcd2 = page_bytes mcd2 then
                (let mcd3 = mcd2\<lparr>rpage := rpage mcd2 + 1, rdoff := 0\<rparr>
                 in if tot_size - n > 0 then MceRead_loop rd tot_size (tot_size - n) mcd3 m2 (out @ d)
                    else r_ret (1, mcd3, m2, out @ d))
              else r_ret (1, mcd2, m2, out @ d))"

definition MceRead :: "'s page_read \<Rightarrow> MemoryCard \<Rightarrow> 's mc_mem \<Rightarrow> nat \<Rightarrow> ((int \<times> MemoryCard \<times> 's mc_mem \<times> u8 list) cres) option" where
  "MceRead rd mcd m sz = MceRead_loop rd sz sz mcd m []"

definition MceStartWrite :: "MemoryCard \<Rightarrow> u32 \<Rightarrow> MemoryCard" where
  "MceStartWrite mcd page = mcd\<lparr>wpage := page, wroff := 0, wcoff := 0\<rparr>"

definition write_data :: "MemoryCard \<Rightarrow> 's mc_mem \<Rightarrow> u8 list \<Rightarrow> nat \<Rightarrow> nat \<Rightarrow> (MemoryCard \<times> 's mc_mem \<times> nat) cres" where
  "write_data mcd m buf p sz =
     (if wroff mcd < page_bytes mcd then
        let sz' = (if sz + wroff mcd > page_bytes mcd then page_bytes mcd - wroff mcd else sz)
        in c_bind (mem_read buf p sz') (\<lambda>d. c_bind (mem_write (mcdatabuf m) (wroff mcd) d) (\<lambda>b.
             Inr (mcd\<lparr>wroff := wroff mcd + sz', wcoff := wcoff mcd + 3\<rparr>, m\<lparr>mcdatabuf := b\<rparr>, sz')))
      else Inr (mcd, m, sz))"

text \<open>\<open>p\<close> is how far the caller's buffer has been used.\<close>

partial_function (option) MceWrite_loop ::
  "'s page_write \<Rightarrow> u8 list \<Rightarrow> nat \<Rightarrow> nat \<Rightarrow> MemoryCard \<Rightarrow> 's mc_mem \<Rightarrow> nat \<Rightarrow> ((int \<times> MemoryCard \<times> 's mc_mem) cres) option" where
  "MceWrite_loop wr buf tot_size sz mcd m p =
     (let csize = ecc_count (wcoff mcd) (wroff mcd) sz;
          mcd1 = mcd\<lparr>wcoff := ecc_left (wcoff mcd) (wroff mcd) sz\<rparr>
      in if wcoff mcd \<noteq> 0 \<and> wroff mcd = 0 \<and> sz - csize = 0 then r_ret (1, mcd1, m)
         else (case write_data mcd1 m buf (p + csize) (sz - csize) of
                 Inl f \<Rightarrow> Some (Inl f)
               | Inr (mcd2, m2, n) \<Rightarrow>
                   if wroff mcd2 = page_bytes mcd2 then
                     (let mcd3 = mcd2\<lparr>wroff := 0\<rparr>
                      in case wr (drive m2) (mcnum mcd3) (mcdatabuf m2) (wpage mcd3) of
                           Inl f \<Rightarrow> Some (Inl f)
                         | Inr (r, s) \<Rightarrow>
                             let m3 = m2\<lparr>drive := s\<rparr>
                             in if r = 0 then r_ret (0, mcd3, m3)
                                else let mcd4 = mcd3\<lparr>wpage := wpage mcd3 + 1\<rparr>
                                     in if tot_size - n > 0 then MceWrite_loop wr buf tot_size (tot_size - n) mcd4 m3 (p + csize + n)
                                        else r_ret (1, mcd4, m3))
                   else r_ret (1, mcd2, m2)))"

definition MceWrite :: "'s page_write \<Rightarrow> MemoryCard \<Rightarrow> 's mc_mem \<Rightarrow> u8 list \<Rightarrow> nat \<Rightarrow> ((int \<times> MemoryCard \<times> 's mc_mem) cres) option" where
  "MceWrite wr mcd m buf sz = MceWrite_loop wr buf sz sz mcd m 0"

section \<open>What a page on a card looks like\<close>

text \<open>The error correcting bytes of a page, and the page as a game reads it: 512 bytes followed by them.\<close>

definition ecc_of :: "u8 list \<Rightarrow> nat \<Rightarrow> u8 list" where
  "ecc_of d k = (case CalculateECC (take 128 (drop (128 * k) d)) of Inr e \<Rightarrow> e | Inl f \<Rightarrow> [])"

definition ecc_fill :: "u32 \<Rightarrow> u8" where
  "ecc_fill fl = (if fl AND 0x10 \<noteq> 0 then 0xFF else 0)"

definition page_ecc :: "u32 \<Rightarrow> u8 list \<Rightarrow> u8 list" where
  "page_ecc fl d = ecc_of d 0 @ ecc_of d 1 @ ecc_of d 2 @ ecc_of d 3 @ replicate 4 (ecc_fill fl)"

definition page_unit :: "u32 \<Rightarrow> u8 list \<Rightarrow> u8 list" where
  "page_unit fl d = d @ page_ecc fl d"

lemma CalculateECC_cut: "128 \<le> length d \<Longrightarrow> CalculateECC d = CalculateECC (take 128 d)"
  by (simp add: CalculateECC_def)

lemma ecc_of_read:
  assumes "length d = 512" "k < 4" "r = 128 * k"
  shows "CalculateECC (drop r d) = Inr (ecc_of d k)" and "length (ecc_of d k) = 3"
  using CalculateECC_cut [of "drop r d"] CalculateECC_total [of "take 128 (drop r d)"] assms by (auto simp: ecc_of_def)

lemma length_page_ecc [simp]: "length d = 512 \<Longrightarrow> length (page_ecc fl d) = 16"
  by (simp add: page_ecc_def ecc_of_read(2))

lemma length_page_unit [simp]: "length d = 512 \<Longrightarrow> length (page_unit fl d) = 528"
  by (simp add: page_unit_def)

definition card_ok :: "MemoryCard \<Rightarrow> bool" where
  "card_ok mcd \<longleftrightarrow> mcnum mcd \<in> {0, 1} \<and> PageSize (cspec mcd) = 512"

definition bufs_ok :: "'s mc_mem \<Rightarrow> bool" where
  "bufs_ok m \<longleftrightarrow> length (mcdatabuf m) = 512 \<and> length (mceccbuf m) = 2 \<and> (\<forall>b \<in> set (mceccbuf m). length b = 32)"

abbreviation cbuf :: "MemoryCard \<Rightarrow> 's mc_mem \<Rightarrow> u8 list" where
  "cbuf mcd m \<equiv> mceccbuf m ! nat (mcnum mcd)"

lemma set_cbuf_ok:
  assumes "card_ok mcd" "bufs_ok m" "p + length bs \<le> 32"
  shows "\<exists>m'. set_cbuf mcd p bs m = Inr m' \<and> bufs_ok m' \<and> drive m' = drive m \<and> mcdatabuf m' = mcdatabuf m \<and>
    cbuf mcd m' = take p (cbuf mcd m) @ bs @ drop (p + length bs) (cbuf mcd m)"
proof -
  have n: "nat (mcnum mcd) < length (mceccbuf m)" using assms by (auto simp: card_ok_def bufs_ok_def)
  then have "length (cbuf mcd m) = 32" using assms(2) nth_mem by (auto simp: bufs_ok_def)
  then show ?thesis using n assms by (auto simp: set_cbuf_def bufs_ok_def mem_write_def dest!: subsetD [OF set_update_subset_insert])
qed

lemma ecc_pages_step:
  assumes "card_ok mcd" "bufs_ok m" "k < 4" "r = 128 * k" "i = 3 * k"
  shows "\<exists>m'. ecc_pages mcd r i m = ecc_pages mcd (r + 128) (i + 3) m' \<and> bufs_ok m' \<and> drive m' = drive m \<and> mcdatabuf m' = mcdatabuf m \<and>
    cbuf mcd m' = take i (cbuf mcd m) @ ecc_of (mcdatabuf m) k @ drop (i + 3) (cbuf mcd m)"
proof -
  have d: "length (mcdatabuf m) = 512" using assms(2) by (simp add: bufs_ok_def)
  have e: "CalculateECC (drop r (mcdatabuf m)) = Inr (ecc_of (mcdatabuf m) k)" "length (ecc_of (mcdatabuf m) k) = 3"
    using ecc_of_read [OF d assms(3,4)] by simp_all
  have "r < page_bytes mcd" using assms(1,3,4) by (simp add: card_ok_def)
  moreover obtain m' where "set_cbuf mcd i (ecc_of (mcdatabuf m) k) m = Inr m' \<and> bufs_ok m' \<and> drive m' = drive m \<and> mcdatabuf m' = mcdatabuf m \<and>
    cbuf mcd m' = take i (cbuf mcd m) @ ecc_of (mcdatabuf m) k @ drop (i + 3) (cbuf mcd m)"
    using set_cbuf_ok [OF assms(1,2), of i "ecc_of (mcdatabuf m) k"] e(2) assms(3,5) by auto
  ultimately have "ecc_pages mcd r i m = ecc_pages mcd (r + 128) (i + 3) m' \<and> bufs_ok m' \<and> drive m' = drive m \<and> mcdatabuf m' = mcdatabuf m \<and>
    cbuf mcd m' = take i (cbuf mcd m) @ ecc_of (mcdatabuf m) k @ drop (i + 3) (cbuf mcd m)"
    by (subst ecc_pages.simps) (simp add: e)
  then show ?thesis by blast
qed

lemma ecc_pages_ok:
  assumes c: "card_ok mcd" and b: "bufs_ok m" and f: "take 16 (cbuf mcd m) = replicate 16 (ecc_fill fl)"
  shows "\<exists>m'. ecc_pages mcd 0 0 m = Inr m' \<and> bufs_ok m' \<and> drive m' = drive m \<and> mcdatabuf m' = mcdatabuf m \<and>
    take 16 (cbuf mcd m') = page_ecc fl (mcdatabuf m)"
proof -
  have d: "length (mcdatabuf m) = 512" using b by (simp add: bufs_ok_def)
  have lc: "length (cbuf mcd m) = 32" using b c nth_mem by (auto simp: bufs_ok_def card_ok_def)
  obtain x where x: "cbuf mcd m = replicate 16 (ecc_fill fl) @ x" using f by (metis append_take_drop_id)
  from ecc_pages_step [OF c b, of 0 0 0] obtain m1 where 1: "ecc_pages mcd 0 0 m = ecc_pages mcd 128 3 m1" "bufs_ok m1" "drive m1 = drive m" "mcdatabuf m1 = mcdatabuf m"
    "cbuf mcd m1 = ecc_of (mcdatabuf m) 0 @ drop 3 (cbuf mcd m)" by auto
  from ecc_pages_step [OF c 1(2), of 1 128 3] obtain m2 where 2: "ecc_pages mcd 128 3 m1 = ecc_pages mcd 256 6 m2" "bufs_ok m2" "drive m2 = drive m" "mcdatabuf m2 = mcdatabuf m"
    "cbuf mcd m2 = ecc_of (mcdatabuf m) 0 @ ecc_of (mcdatabuf m) 1 @ drop 6 (cbuf mcd m)" using 1 ecc_of_read(2) [OF d] by auto
  from ecc_pages_step [OF c 2(2), of 2 256 6] obtain m3 where 3: "ecc_pages mcd 256 6 m2 = ecc_pages mcd 384 9 m3" "bufs_ok m3" "drive m3 = drive m" "mcdatabuf m3 = mcdatabuf m"
    "cbuf mcd m3 = ecc_of (mcdatabuf m) 0 @ ecc_of (mcdatabuf m) 1 @ ecc_of (mcdatabuf m) 2 @ drop 9 (cbuf mcd m)" using 2 ecc_of_read(2) [OF d] by auto
  from ecc_pages_step [OF c 3(2), of 3 384 9] obtain m4 where 4: "ecc_pages mcd 384 9 m3 = ecc_pages mcd 512 12 m4" "bufs_ok m4" "drive m4 = drive m" "mcdatabuf m4 = mcdatabuf m"
    "cbuf mcd m4 = ecc_of (mcdatabuf m) 0 @ ecc_of (mcdatabuf m) 1 @ ecc_of (mcdatabuf m) 2 @ ecc_of (mcdatabuf m) 3 @ drop 12 (cbuf mcd m)"
    using 3 ecc_of_read(2) [OF d] by auto
  have "ecc_pages mcd 512 12 m4 = Inr m4" using c by (subst ecc_pages.simps) (simp add: card_ok_def)
  moreover have "take 16 (cbuf mcd m4) = page_ecc fl (mcdatabuf m)"
    using 4(5) ecc_of_read(2) [OF d] by (simp add: page_ecc_def x)
  ultimately show ?thesis using 1(1) 2(1) 3(1) 4(1-4) by auto
qed

lemma unat_u32_of_nat: "n < 2 ^ 32 \<Longrightarrow> unat (of_nat n :: u32) = n"
  by (simp add: unsigned_of_nat take_bit_nat_eq_self)

lemma word_of_nat_unat: "of_nat (unat w) = (w :: u32)"
  by simp

lemma unit_pos:
  assumes "L mod 528 + i = 528 * a + b" "b < 528"
  shows "(L + i) div 528 = L div 528 + a \<and> (L + i) mod 528 = (b :: nat)"
proof -
  have "L + i = (L mod 528 + i) + 528 * (L div 528)" by simp
  also have "\<dots> = b + 528 * (L div 528 + a)" using assms(1) by simp
  finally have "L + i = b + 528 * (L div 528 + a)" .
  then show ?thesis using assms(2) by (metis add.commute add.right_neutral div_less div_mult_self2 mod_less mod_mult_self2 zero_neq_numeral)
qed

section \<open>Games\<close>

text \<open>A game reads or writes in pieces of at most 255 bytes, the most a command can name, that do not end within the 16 bytes that follow a
  page; \<open>L\<close> bytes have been passed before.  It stops at an error.\<close>

fun mc_calls :: "nat \<Rightarrow> nat list \<Rightarrow> bool" where
  "mc_calls L [] \<longleftrightarrow> True"
| "mc_calls L (n # ns) \<longleftrightarrow> 0 < n \<and> n \<le> 255 \<and> (L + n) mod 528 \<le> 512 \<and> mc_calls (L + n) ns"

fun mc_reads :: "'s page_read \<Rightarrow> nat list \<Rightarrow> MemoryCard \<Rightarrow> 's mc_mem \<Rightarrow> (int \<times> MemoryCard \<times> 's mc_mem \<times> u8 list) run" where
  "mc_reads rd [] mcd m = r_ret (1, mcd, m, [])"
| "mc_reads rd (n # ns) mcd m =
     r_bind (MceRead rd mcd m n) (\<lambda>(r, mcd1, m1, d).
       if r = 0 then r_ret (0, mcd1, m1, d) else r_bind (mc_reads rd ns mcd1 m1) (\<lambda>(r, mcd2, m2, d'). r_ret (r, mcd2, m2, d @ d')))"

fun mc_writes :: "'s page_write \<Rightarrow> u8 list list \<Rightarrow> MemoryCard \<Rightarrow> 's mc_mem \<Rightarrow> (int \<times> MemoryCard \<times> 's mc_mem) run" where
  "mc_writes wr [] mcd m = r_ret (1, mcd, m)"
| "mc_writes wr (d # ds) mcd m =
     r_bind (MceWrite wr mcd m d (length d)) (\<lambda>(r, mcd1, m1). if r = 0 then r_ret (0, mcd1, m1) else mc_writes wr ds mcd1 m1)"

section \<open>What the cards rely on of the storage\<close>

locale page_device =
  fixes rd :: "'s page_read" and wr :: "'s page_write" and inv :: "'s \<Rightarrow> bool"
    and pg :: "'s \<Rightarrow> int \<Rightarrow> u32 \<Rightarrow> u8 list" and has_page :: "int \<Rightarrow> u32 \<Rightarrow> bool"
  assumes pg_length: "inv s \<Longrightarrow> has_page c p \<Longrightarrow> length (pg s c p) = 512"
    and rd_page: "inv s \<Longrightarrow> has_page c p \<Longrightarrow> length buf = 512 \<Longrightarrow> \<exists>s'. rd s c buf p = Inr (1, pg s c p, s') \<and> inv s' \<and> pg s' = pg s"
    and wr_page: "inv s \<Longrightarrow> has_page c p \<Longrightarrow> length buf = 512 \<Longrightarrow> \<exists>s'. wr s c buf p = Inr (1, s') \<and> inv s' \<and>
      (\<forall>c' p'. has_page c' p' \<longrightarrow> pg s' c' p' = (if c' = c \<and> p' = p then buf else pg s c' p'))"
begin

lemma do_read_ok:
  assumes c: "card_ok mcd" and b: "bufs_ok m" and i: "inv (drive m)" and v: "has_page (mcnum mcd) (rpage mcd)"
  shows "\<exists>m'. do_read rd mcd m = Inr (1, m') \<and> bufs_ok m' \<and> inv (drive m') \<and> pg (drive m') = pg (drive m) \<and>
    mcdatabuf m' = pg (drive m) (mcnum mcd) (rpage mcd) \<and> take 16 (cbuf mcd m') = page_ecc (flags mcd) (mcdatabuf m')"
proof -
  obtain m1 where m1: "set_cbuf mcd 0 (replicate 0x10 (ecc_fill (flags mcd))) m = Inr m1" "bufs_ok m1" "drive m1 = drive m" "mcdatabuf m1 = mcdatabuf m"
      "take 16 (cbuf mcd m1) = replicate 16 (ecc_fill (flags mcd))"
    using set_cbuf_ok [OF c b, of 0 "replicate 16 (ecc_fill (flags mcd))"] by auto
  obtain s' where s': "rd (drive m1) (mcnum mcd) (mcdatabuf m1) (rpage mcd) = Inr (1, pg (drive m) (mcnum mcd) (rpage mcd), s')" "inv s'" "pg s' = pg (drive m)"
    using rd_page [OF i v, of "mcdatabuf m1"] m1 b by (auto simp: bufs_ok_def)
  define m2 where "m2 = m1\<lparr>mcdatabuf := pg (drive m) (mcnum mcd) (rpage mcd), drive := s'\<rparr>"
  have "bufs_ok m2" using m1(2) pg_length [OF i v] by (simp add: bufs_ok_def m2_def)
  with ecc_pages_ok [OF c, of m2 "flags mcd"] m1(5) obtain m3 where
    "ecc_pages mcd 0 0 m2 = Inr m3" "bufs_ok m3" "drive m3 = drive m2" "mcdatabuf m3 = mcdatabuf m2" "take 16 (cbuf mcd m3) = page_ecc (flags mcd) (mcdatabuf m2)"
    by (auto simp: m2_def)
  then show ?thesis using m1(1) s' by (auto simp: do_read_def ecc_fill_def m2_def)
qed

text \<open>A game has read page \<open>p\<close> up to byte \<open>pos\<close> of the 512.\<close>

definition read_at :: "MemoryCard \<Rightarrow> 's mc_mem \<Rightarrow> u32 \<Rightarrow> nat \<Rightarrow> bool" where
  "read_at mcd m p pos \<longleftrightarrow> card_ok mcd \<and> bufs_ok m \<and> inv (drive m) \<and> pos \<le> 512 \<and>
     rpage mcd = (if pos = 512 then p + 1 else p) \<and> rdoff mcd = pos mod 512 \<and> (rcoff mcd = 0 \<longleftrightarrow> pos = 0) \<and> 0 \<le> rcoff mcd \<and>
     (0 < pos \<longrightarrow> has_page (mcnum mcd) p \<and> take 16 (cbuf mcd m) = page_ecc (flags mcd) (pg (drive m) (mcnum mcd) p)) \<and>
     (0 < pos \<and> pos < 512 \<longrightarrow> mcdatabuf m = pg (drive m) (mcnum mcd) p)"

text \<open>What a call keeps of the card and the storage.\<close>

definition same_read :: "MemoryCard \<Rightarrow> 's mc_mem \<Rightarrow> MemoryCard \<Rightarrow> 's mc_mem \<Rightarrow> bool" where
  "same_read mcd m mcd' m' \<longleftrightarrow> pg (drive m') = pg (drive m) \<and> mcnum mcd' = mcnum mcd \<and> flags mcd' = flags mcd \<and> wpage mcd' = wpage mcd \<and>
     wroff mcd' = wroff mcd \<and> wcoff mcd' = wcoff mcd \<and> tcode mcd' = tcode mcd \<and> cspec mcd' = cspec mcd"

lemma same_read_refl [simp]: "same_read mcd m mcd m"
  by (simp add: same_read_def)

lemma same_read_trans: "same_read a m b n \<Longrightarrow> same_read b n c k \<Longrightarrow> same_read a m c k"
  by (simp add: same_read_def)

lemma read_data_ok:
  assumes r: "read_at mcd m p pos" and pos: "pos < 512" and v: "has_page (mcnum mcd) p"
  shows "\<exists>m'. read_data rd mcd m sz =
      Inr (1, mcd\<lparr>rdoff := pos + min sz (512 - pos), rcoff := rcoff mcd + 3\<rparr>, m', take sz (drop pos (pg (drive m) (mcnum mcd) p)), min sz (512 - pos)) \<and>
    bufs_ok m' \<and> inv (drive m') \<and> pg (drive m') = pg (drive m) \<and>
    mcdatabuf m' = pg (drive m) (mcnum mcd) p \<and> take 16 (cbuf mcd m') = page_ecc (flags mcd) (pg (drive m) (mcnum mcd) p)"
proof -
  have st: "card_ok mcd" "bufs_ok m" "inv (drive m)" "rpage mcd = p" "rdoff mcd = pos" "page_bytes mcd = 512"
    using r pos by (simp_all add: read_at_def card_ok_def)
  have len: "length (pg (drive m) (mcnum mcd) p) = 512" using pg_length st(3) v by blast
  have "\<exists>m'. (if rdoff mcd = 0 then do_read rd mcd m else Inr (1, m)) = Inr (1, m') \<and> bufs_ok m' \<and> inv (drive m') \<and> pg (drive m') = pg (drive m) \<and>
    mcdatabuf m' = pg (drive m) (mcnum mcd) p \<and> take 16 (cbuf mcd m') = page_ecc (flags mcd) (pg (drive m) (mcnum mcd) p)"
    using do_read_ok [OF st(1-3)] v r pos st by (cases "pos = 0") (auto simp: read_at_def)
  then obtain m' where m': "(if rdoff mcd = 0 then do_read rd mcd m else Inr (1, m)) = Inr (1, m')" "bufs_ok m'" "inv (drive m')" "pg (drive m') = pg (drive m)"
    "mcdatabuf m' = pg (drive m) (mcnum mcd) p" "take 16 (cbuf mcd m') = page_ecc (flags mcd) (pg (drive m) (mcnum mcd) p)" by blast
  have "(if sz + pos > 512 then 512 - pos else sz) = min sz (512 - pos)" using pos by auto
  moreover have "take (min sz (512 - pos)) (drop pos (pg (drive m) (mcnum mcd) p)) = take sz (drop pos (pg (drive m) (mcnum mcd) p))"
    using len by (simp add: min_def)
  moreover have "pos + min sz (512 - pos) \<le> 512" using pos by simp
  ultimately show ?thesis
    using m' st(5,6) pos len by (intro exI [of _ m']) (simp add: read_data_def Let_def)
qed

lemma MceRead_in_page:
  assumes r: "read_at mcd m p pos" and v: "has_page (mcnum mcd) p" and n: "0 < sz" "pos + sz < 512"
  shows "\<exists>mcd' m'. MceRead_loop rd tot sz mcd m out = r_ret (1, mcd', m', out @ take sz (drop pos (pg (drive m) (mcnum mcd) p))) \<and>
    read_at mcd' m' p (pos + sz) \<and> same_read mcd m mcd' m'"
proof -
  from read_data_ok [OF r _ v, of sz] n obtain m' where d: "read_data rd mcd m sz =
      Inr (1, mcd\<lparr>rdoff := pos + sz, rcoff := rcoff mcd + 3\<rparr>, m', take sz (drop pos (pg (drive m) (mcnum mcd) p)), sz)"
    "bufs_ok m'" "inv (drive m')" "pg (drive m') = pg (drive m)"
    "mcdatabuf m' = pg (drive m) (mcnum mcd) p" "take 16 (cbuf mcd m') = page_ecc (flags mcd) (pg (drive m) (mcnum mcd) p)"
    by (auto simp: min_def)
  have e: "ecc_count (rcoff mcd) (rdoff mcd) sz = 0" "ecc_left (rcoff mcd) (rdoff mcd) sz = rcoff mcd" "\<not> (rcoff mcd \<noteq> 0 \<and> rdoff mcd = 0)"
    using r n by (auto simp: read_at_def ecc_count_def ecc_left_def)
  have "MceRead_loop rd tot sz mcd m out =
    r_ret (1, mcd\<lparr>rdoff := pos + sz, rcoff := rcoff mcd + 3\<rparr>, m', out @ take sz (drop pos (pg (drive m) (mcnum mcd) p)))"
    using r n d(1) e by (subst MceRead_loop.simps) (auto simp: read_at_def card_ok_def)
  moreover have "read_at (mcd\<lparr>rdoff := pos + sz, rcoff := rcoff mcd + 3\<rparr>) m' p (pos + sz)"
    using r n d v by (auto simp: read_at_def card_ok_def)
  ultimately show ?thesis using d(4) by (auto simp: same_read_def)
qed

lemma MceRead_page_end:
  assumes r: "read_at mcd m p pos" and v: "has_page (mcnum mcd) p" and n: "0 < sz" "pos < 512" "512 \<le> pos + sz"
  shows "\<exists>mcd' m'. MceRead_loop rd tot sz mcd m out =
      (if tot - (512 - pos) > 0 then MceRead_loop rd tot (tot - (512 - pos)) mcd' m' (out @ drop pos (pg (drive m) (mcnum mcd) p))
       else r_ret (1, mcd', m', out @ drop pos (pg (drive m) (mcnum mcd) p))) \<and>
    read_at mcd' m' p 512 \<and> same_read mcd m mcd' m'"
proof -
  have len: "length (pg (drive m) (mcnum mcd) p) = 512" using pg_length v r by (simp add: read_at_def)
  have mn: "min sz (512 - pos) = 512 - pos" using n by simp
  from read_data_ok [OF r n(2) v, of sz] n len obtain m' where d: "read_data rd mcd m sz =
      Inr (1, mcd\<lparr>rdoff := 512, rcoff := rcoff mcd + 3\<rparr>, m', drop pos (pg (drive m) (mcnum mcd) p), 512 - pos)"
    "bufs_ok m'" "inv (drive m')" "pg (drive m') = pg (drive m)"
    "mcdatabuf m' = pg (drive m) (mcnum mcd) p" "take 16 (cbuf mcd m') = page_ecc (flags mcd) (pg (drive m) (mcnum mcd) p)"
    by (auto simp: mn)
  have e: "ecc_count (rcoff mcd) (rdoff mcd) sz = 0" "ecc_left (rcoff mcd) (rdoff mcd) sz = rcoff mcd" "\<not> (rcoff mcd \<noteq> 0 \<and> rdoff mcd = 0)"
    using r n by (auto simp: read_at_def ecc_count_def ecc_left_def)
  define mcd' where "mcd' = mcd\<lparr>rcoff := rcoff mcd + 3, rpage := p + 1, rdoff := 0\<rparr>"
  have st: "page_bytes mcd = 512" "rpage mcd = p" using r n by (simp_all add: read_at_def card_ok_def)
  have "MceRead_loop rd tot sz mcd m out =
    (if tot - (512 - pos) > 0 then MceRead_loop rd tot (tot - (512 - pos)) mcd' m' (out @ drop pos (pg (drive m) (mcnum mcd) p))
     else r_ret (1, mcd', m', out @ drop pos (pg (drive m) (mcnum mcd) p)))"
    using d(1) e st n(1) by (subst MceRead_loop.simps) (simp add: mcd'_def Let_def)
  moreover have "read_at mcd' m' p 512"
    using r n d v by (auto simp: read_at_def card_ok_def mcd'_def)
  moreover have "same_read mcd m mcd' m'" using d(4) by (simp add: same_read_def mcd'_def)
  ultimately show ?thesis by blast
qed

lemma MceRead_ecc:
  assumes r: "read_at mcd m p 512" and n: "16 \<le> sz" "sz < 528" and v: "16 < sz \<Longrightarrow> has_page (mcnum mcd) (p + 1)"
  shows "\<exists>mcd' m'. MceRead_loop rd tot sz mcd m out =
      r_ret (1, mcd', m', out @ page_ecc (flags mcd) (pg (drive m) (mcnum mcd) p) @ take (sz - 16) (pg (drive m) (mcnum mcd) (p + 1))) \<and>
    read_at mcd' m' (p + 1) (sz - 16) \<and> same_read mcd m mcd' m'"
proof -
  define mcd1 where "mcd1 = mcd\<lparr>rcoff := 0\<rparr>"
  have e: "ecc_count (rcoff mcd) (rdoff mcd) sz = 16" "ecc_left (rcoff mcd) (rdoff mcd) sz = 0" "rcoff mcd \<noteq> 0" "rdoff mcd = 0"
    using r n by (auto simp: read_at_def ecc_count_def ecc_left_def)
  have b: "c_bind (peek (mceccbuf m) (nat (mcnum mcd))) (\<lambda>b. mem_read b 0 16) = Inr (page_ecc (flags mcd) (pg (drive m) (mcnum mcd) p))"
    using r by (auto simp: read_at_def card_ok_def bufs_ok_def)
  have r1: "read_at mcd1 m (p + 1) 0" using r by (simp add: read_at_def card_ok_def mcd1_def)
  show ?thesis
  proof (cases "sz = 16")
    case True
    then have "MceRead_loop rd tot sz mcd m out = r_ret (1, mcd1, m, out @ page_ecc (flags mcd) (pg (drive m) (mcnum mcd) p))"
      using e b by (subst MceRead_loop.simps) (simp add: mcd1_def)
    then show ?thesis using True r1 by (auto simp: mcd1_def same_read_def)
  next
    case False
    have v1: "has_page (mcnum mcd1) (p + 1)" using v False n by (simp add: mcd1_def)
    from read_data_ok [OF r1 _ v1, of "sz - 16"] n obtain m' where d: "read_data rd mcd1 m (sz - 16) =
      Inr (1, mcd1\<lparr>rdoff := sz - 16, rcoff := 3\<rparr>, m', take (sz - 16) (pg (drive m) (mcnum mcd) (p + 1)), sz - 16)"
      "bufs_ok m'" "inv (drive m')" "pg (drive m') = pg (drive m)"
      "mcdatabuf m' = pg (drive m) (mcnum mcd) (p + 1)" "take 16 (cbuf mcd m') = page_ecc (flags mcd) (pg (drive m) (mcnum mcd) (p + 1))"
      by (auto simp: min_def mcd1_def)
    have "MceRead_loop rd tot sz mcd m out =
      r_ret (1, mcd1\<lparr>rdoff := sz - 16, rcoff := 3\<rparr>, m', out @ page_ecc (flags mcd) (pg (drive m) (mcnum mcd) p) @ take (sz - 16) (pg (drive m) (mcnum mcd) (p + 1)))"
      using e b d(1) False n r by (subst MceRead_loop.simps) (auto simp: mcd1_def [symmetric], auto simp: mcd1_def read_at_def card_ok_def)
    moreover have "read_at (mcd1\<lparr>rdoff := sz - 16, rcoff := 3\<rparr>) m' (p + 1) (sz - 16)"
      using r1 n False d v1 by (auto simp: read_at_def card_ok_def mcd1_def)
    ultimately show ?thesis using d(4) by (auto simp: same_read_def mcd1_def)
  qed
qed

text \<open>The bytes of a card from page \<open>base\<close> on as a game counts them, 528 for a page, and the position after \<open>L\<close> of them.\<close>

definition card_byte :: "u32 \<Rightarrow> 's \<Rightarrow> int \<Rightarrow> u32 \<Rightarrow> nat \<Rightarrow> u8" where
  "card_byte fl s c base i = page_unit fl (pg s c (base + of_nat (i div 528))) ! (i mod 528)"

definition read_pos :: "MemoryCard \<Rightarrow> 's mc_mem \<Rightarrow> u32 \<Rightarrow> nat \<Rightarrow> bool" where
  "read_pos mcd m base L \<longleftrightarrow> read_at mcd m (base + of_nat (L div 528)) (L mod 528)"

lemma card_bytes_in_page:
  assumes "length (pg s c (base + of_nat (L div 528))) = 512" "L mod 528 + n \<le> 528"
  shows "map (card_byte fl s c base) [L..<L + n] = take n (drop (L mod 528) (page_unit fl (pg s c (base + of_nat (L div 528)))))"
proof (rule nth_equalityI)
  fix i assume i: "i < length (map (card_byte fl s c base) [L..<L + n])"
  then have "(L + i) div 528 = L div 528" "(L + i) mod 528 = L mod 528 + i" using assms(2) unit_pos [of L i 0 "L mod 528 + i"] by simp_all
  then show "map (card_byte fl s c base) [L..<L + n] ! i = take n (drop (L mod 528) (page_unit fl (pg s c (base + of_nat (L div 528))))) ! i"
    using i assms by (simp add: card_byte_def)
qed (use assms in simp)

lemma card_bytes_cross:
  assumes len: "length (pg s c (base + of_nat (L div 528))) = 512" and n: "528 \<le> L mod 528 + n" "L mod 528 + n < 1040"
    and len': "528 < L mod 528 + n \<Longrightarrow> length (pg s c (base + of_nat (L div 528) + 1)) = 512"
  shows "map (card_byte fl s c base) [L..<L + n] =
    drop (L mod 528) (page_unit fl (pg s c (base + of_nat (L div 528)))) @ take (L mod 528 + n - 528) (pg s c (base + of_nat (L div 528) + 1))"
proof -
  let ?k = "528 - L mod 528" and ?r = "L mod 528 + n - 528"
  have k: "?k + ?r = n" "L mod 528 + ?k = 528" using n(1) mod_less_divisor [of 528 L] by simp_all
  have p: "(L + ?k) div 528 = L div 528 + 1" "(L + ?k) mod 528 = 0" using unit_pos [of L ?k 1 0] k by simp_all
  have "[L..<L + n] = [L..<L + ?k] @ [L + ?k..<L + ?k + ?r]"
    using k(1) upt_add_eq_append [of L "L + ?k" ?r] by (simp add: add.assoc)
  moreover have "map (card_byte fl s c base) [L..<L + ?k] = drop (L mod 528) (page_unit fl (pg s c (base + of_nat (L div 528))))"
    using card_bytes_in_page [of s c base L ?k fl] len k by simp
  moreover have "map (card_byte fl s c base) [L + ?k..<L + ?k + ?r] = take ?r (pg s c (base + of_nat (L div 528) + 1))"
  proof (cases "?r = 0")
    case False
    then have "length (pg s c (base + of_nat (L div 528) + 1)) = 512" using len' n(1) by simp
    moreover have "base + of_nat ((L + ?k) div 528) = base + of_nat (L div 528) + 1" unfolding p by simp
    moreover have "(L + ?k) mod 528 + ?r \<le> 528" "?r \<le> 512" unfolding p using n by simp_all
    ultimately show ?thesis using card_bytes_in_page [of s c base "L + ?k" ?r fl] p(2) by (simp only: drop_0 page_unit_def take_append) simp
  qed simp
  ultimately show ?thesis by simp
qed

lemma MceRead_ok:
  assumes r: "read_pos mcd m base L" and n: "0 < sz" "sz \<le> 255" "(L + sz) mod 528 \<le> 512"
    and v: "\<forall>k. 528 * k < L + sz \<longrightarrow> has_page (mcnum mcd) (base + of_nat k)"
  shows "\<exists>mcd' m'. MceRead rd mcd m sz = r_ret (1, mcd', m', map (card_byte (flags mcd) (drive m) (mcnum mcd) base) [L..<L + sz]) \<and>
    read_pos mcd' m' base (L + sz) \<and> same_read mcd m mcd' m'"
proof -
  let ?j = "L div 528" and ?q = "L mod 528"
  let ?p = "base + of_nat ?j"
  have L: "L = 528 * ?j + ?q" by simp
  have r': "read_at mcd m ?p ?q" using r by (simp add: read_pos_def)
  then have q: "?q \<le> 512" and inv: "inv (drive m)" by (simp_all add: read_at_def)
  have v0: "has_page (mcnum mcd) ?p" using v n(1) L by (metis le_add1 less_add_same_cancel1 order_le_less_trans)
  have len: "length (pg (drive m) (mcnum mcd) ?p) = 512" using pg_length inv v0 by blast
  have e1: "?q + sz \<le> 512 \<or> 528 \<le> ?q + sz" using n(3) unit_pos [of L sz 0 "?q + sz"] by fastforce
  have after: "read_pos mcd' m' base (L + sz)" if "?q + sz = 528 * a + b" "b < 528" "read_at mcd' m' (?p + of_nat a) b" for mcd' m' a b
    using unit_pos [OF that(1,2)] that(3) by (simp add: read_pos_def add.assoc)
  have v1: "has_page (mcnum mcd) (?p + 1)" if "528 < ?q + sz" using v [rule_format, of "?j + 1"] that L by (simp add: algebra_simps)
  have cross: "map (card_byte (flags mcd) (drive m) (mcnum mcd) base) [L..<L + sz] =
      drop ?q (page_unit (flags mcd) (pg (drive m) (mcnum mcd) ?p)) @ take (?q + sz - 528) (pg (drive m) (mcnum mcd) (?p + 1))" if "528 \<le> ?q + sz"
    using card_bytes_cross [of "drive m" "mcnum mcd" base L sz] len that pg_length [OF inv v1] n(2) q by simp
  consider "?q + sz < 512" | "?q < 512" "?q + sz = 512" | "?q < 512" "528 \<le> ?q + sz" | "?q = 512" "528 \<le> ?q + sz"
    using e1 q n(1) by linarith
  then show ?thesis
  proof cases
    case 1
    then have "map (card_byte (flags mcd) (drive m) (mcnum mcd) base) [L..<L + sz] = take sz (drop ?q (pg (drive m) (mcnum mcd) ?p))"
      using card_bytes_in_page [of "drive m" "mcnum mcd" base L sz] len by (simp add: page_unit_def)
    with MceRead_in_page [OF r' v0 n(1) 1, of sz "[]"] show ?thesis using after [of 0 "?q + sz"] 1 by (auto simp: MceRead_def)
  next
    case 2
    then have "map (card_byte (flags mcd) (drive m) (mcnum mcd) base) [L..<L + sz] = drop ?q (pg (drive m) (mcnum mcd) ?p)"
      using card_bytes_in_page [of "drive m" "mcnum mcd" base L sz] len by (simp add: page_unit_def)
    with MceRead_page_end [OF r' v0 n(1) 2(1), of sz "[]"] show ?thesis using after [of 0 512] 2 by (auto simp: MceRead_def)
  next
    case 3
    let ?n = "sz - (512 - ?q)"
    obtain mcd1 m1 where 1: "MceRead rd mcd m sz = MceRead_loop rd sz ?n mcd1 m1 (drop ?q (pg (drive m) (mcnum mcd) ?p))"
      "read_at mcd1 m1 ?p 512" "same_read mcd m mcd1 m1"
      using MceRead_page_end [OF r' v0 n(1) 3(1), of sz "[]"] 3 by (auto simp: MceRead_def)
    have s1: "mcnum mcd1 = mcnum mcd" "flags mcd1 = flags mcd" "pg (drive m1) = pg (drive m)" using 1(3) by (simp_all add: same_read_def)
    have "16 \<le> ?n" "?n < 528" "16 < ?n \<Longrightarrow> has_page (mcnum mcd1) (?p + 1)" using 3 n(2) v1 s1 by simp_all
    from MceRead_ecc [OF 1(2) this, of sz "drop ?q (pg (drive m) (mcnum mcd) ?p)"] obtain mcd' m' where
      2: "MceRead rd mcd m sz = r_ret (1, mcd', m', drop ?q (pg (drive m) (mcnum mcd) ?p) @ page_ecc (flags mcd) (pg (drive m) (mcnum mcd) ?p) @
            take (?n - 16) (pg (drive m) (mcnum mcd) (?p + 1)))" "read_at mcd' m' (?p + 1) (?n - 16)" "same_read mcd1 m1 mcd' m'"
      unfolding 1(1) s1 by blast
    have "?n - 16 = ?q + sz - 528" using 3 by simp
    then have "MceRead rd mcd m sz = r_ret (1, mcd', m', map (card_byte (flags mcd) (drive m) (mcnum mcd) base) [L..<L + sz])"
      using 2(1) cross [OF 3(2)] len 3(1) by (simp add: page_unit_def)
    moreover have "read_pos mcd' m' base (L + sz)" using after [of 1 "?q + sz - 528"] 2(2) \<open>?n - 16 = ?q + sz - 528\<close> 3 n(2) by simp
    ultimately show ?thesis using same_read_trans [OF 1(3) 2(3)] by blast
  next
    case 4
    have "16 \<le> sz" "sz < 528" "16 < sz \<Longrightarrow> has_page (mcnum mcd) (?p + 1)" using 4 n(2) v1 by simp_all
    from MceRead_ecc [OF r' [unfolded 4(1)] this, of sz "[]"] show ?thesis
      using cross [OF 4(2)] len 4 n(2) after [of 1 "sz - 16"] by (auto simp: page_unit_def MceRead_def)
  qed
qed

lemma mc_reads_ok:
  assumes "read_pos mcd m base L" "mc_calls L ns" "\<forall>k. 528 * k < L + sum_list ns \<longrightarrow> has_page (mcnum mcd) (base + of_nat k)"
  shows "\<exists>mcd' m'. mc_reads rd ns mcd m = r_ret (1, mcd', m', map (card_byte (flags mcd) (drive m) (mcnum mcd) base) [L..<L + sum_list ns]) \<and>
    read_pos mcd' m' base (L + sum_list ns) \<and> same_read mcd m mcd' m'"
  using assms
proof (induction ns arbitrary: mcd m L)
  case (Cons n ns)
  from MceRead_ok [OF Cons.prems(1), of n] Cons.prems(2,3) obtain mcd1 m1 where
    1: "MceRead rd mcd m n = r_ret (1, mcd1, m1, map (card_byte (flags mcd) (drive m) (mcnum mcd) base) [L..<L + n])"
      "read_pos mcd1 m1 base (L + n)" "same_read mcd m mcd1 m1" by auto
  have s1: "mcnum mcd1 = mcnum mcd" "flags mcd1 = flags mcd" "pg (drive m1) = pg (drive m)" using 1(3) by (simp_all add: same_read_def)
  have b: "card_byte fl (drive m1) = card_byte fl (drive m)" for fl by (intro ext) (simp add: card_byte_def s1)
  have "mc_calls (L + n) ns" "\<forall>k. 528 * k < L + n + sum_list ns \<longrightarrow> has_page (mcnum mcd1) (base + of_nat k)"
    using Cons.prems(2,3) s1 by (simp_all add: add.assoc)
  from Cons.IH [OF 1(2) this] obtain mcd' m' where
    2: "mc_reads rd ns mcd1 m1 = r_ret (1, mcd', m', map (card_byte (flags mcd) (drive m) (mcnum mcd) base) [L + n..<L + n + sum_list ns])"
      "read_pos mcd' m' base (L + n + sum_list ns)" "same_read mcd1 m1 mcd' m'" unfolding s1 b by blast
  have "[L..<L + n] @ [L + n..<L + n + sum_list ns] = [L..<L + sum_list (n # ns)]"
    using upt_add_eq_append [of L "L + n" "sum_list ns"] by (simp add: add.assoc)
  then have "mc_reads rd (n # ns) mcd m = r_ret (1, mcd', m', map (card_byte (flags mcd) (drive m) (mcnum mcd) base) [L..<L + sum_list (n # ns)])"
    using 1(1) 2(1) by (simp flip: map_append)
  then show ?case using 2(2) same_read_trans [OF 1(3) 2(3)] by (simp add: add.assoc)
qed simp

text \<open>A game has passed \<open>pos\<close> of the 512 bytes of page \<open>p\<close>; \<open>pend\<close> are the ones that are not on the card yet.\<close>

definition write_at :: "MemoryCard \<Rightarrow> 's mc_mem \<Rightarrow> u32 \<Rightarrow> nat \<Rightarrow> u8 list \<Rightarrow> bool" where
  "write_at mcd m p pos pend \<longleftrightarrow> card_ok mcd \<and> bufs_ok m \<and> inv (drive m) \<and> pos \<le> 512 \<and>
     wpage mcd = (if pos = 512 then p + 1 else p) \<and> wroff mcd = pos mod 512 \<and> (wcoff mcd = 0 \<longleftrightarrow> pos = 0) \<and> 0 \<le> wcoff mcd \<and>
     (pos < 512 \<longrightarrow> length pend = pos \<and> take pos (mcdatabuf m) = pend)"

definition same_write :: "MemoryCard \<Rightarrow> MemoryCard \<Rightarrow> bool" where
  "same_write mcd mcd' \<longleftrightarrow> mcnum mcd' = mcnum mcd \<and> flags mcd' = flags mcd \<and> tcode mcd' = tcode mcd \<and> cspec mcd' = cspec mcd"

lemma same_write_trans: "same_write a b \<Longrightarrow> same_write b c \<Longrightarrow> same_write a c"
  by (simp add: same_write_def)

lemma write_data_ok:
  assumes w: "write_at mcd m p pos pend" and pos: "pos < 512" and q: "q + min sz (512 - pos) \<le> length buf"
  shows "\<exists>b. write_data mcd m buf q sz = Inr (mcd\<lparr>wroff := pos + min sz (512 - pos), wcoff := wcoff mcd + 3\<rparr>, m\<lparr>mcdatabuf := b\<rparr>, min sz (512 - pos)) \<and>
    length b = 512 \<and> take (pos + min sz (512 - pos)) b = pend @ take (min sz (512 - pos)) (drop q buf)"
proof -
  let ?n = "min sz (512 - pos)"
  have st: "length (mcdatabuf m) = 512" "wroff mcd = pos" "page_bytes mcd = 512" "length pend = pos" "take pos (mcdatabuf m) = pend"
    using w pos by (auto simp: write_at_def card_ok_def bufs_ok_def)
  have n: "(if sz + pos > 512 then 512 - pos else sz) = ?n" "pos + ?n \<le> 512" using pos by auto
  have "mem_write (mcdatabuf m) pos (take ?n (drop q buf)) = Inr (pend @ take ?n (drop q buf) @ drop (pos + ?n) (mcdatabuf m))"
    using st n(2) q by (simp add: mem_write_def del: min_less_iff_conj)
  then have "write_data mcd m buf q sz = Inr (mcd\<lparr>wroff := pos + ?n, wcoff := wcoff mcd + 3\<rparr>, m\<lparr>mcdatabuf := pend @ take ?n (drop q buf) @ drop (pos + ?n) (mcdatabuf m)\<rparr>, ?n)"
    using st pos q by (simp only: write_data_def n(1) st Let_def mem_read_Inr if_True c_bind_Inr)
  moreover have "length (pend @ take ?n (drop q buf) @ drop (pos + ?n) (mcdatabuf m)) = 512"
    "take (pos + ?n) (pend @ take ?n (drop q buf) @ drop (pos + ?n) (mcdatabuf m)) = pend @ take ?n (drop q buf)"
    using st n(2) q by (simp_all del: min_less_iff_conj)
  ultimately show ?thesis by blast
qed

lemma MceWrite_in_page:
  assumes w: "write_at mcd m p pos pend" and n: "0 < sz" "pos + sz < 512" and q: "q + sz \<le> length buf"
  shows "\<exists>mcd' m'. MceWrite_loop wr buf tot sz mcd m q = r_ret (1, mcd', m') \<and> write_at mcd' m' p (pos + sz) (pend @ take sz (drop q buf)) \<and>
    drive m' = drive m \<and> same_write mcd mcd'"
proof -
  have mn: "min sz (512 - pos) = sz" using n by simp
  from write_data_ok [OF w, of q sz buf, unfolded mn] n q obtain b where
    d: "write_data mcd m buf q sz = Inr (mcd\<lparr>wroff := pos + sz, wcoff := wcoff mcd + 3\<rparr>, m\<lparr>mcdatabuf := b\<rparr>, sz)" "length b = 512"
      "take (pos + sz) b = pend @ take sz (drop q buf)" by auto
  have e: "ecc_count (wcoff mcd) (wroff mcd) sz = 0" "ecc_left (wcoff mcd) (wroff mcd) sz = wcoff mcd" "\<not> (wcoff mcd \<noteq> 0 \<and> wroff mcd = 0)" "page_bytes mcd = 512"
    using w n by (auto simp: write_at_def card_ok_def ecc_count_def ecc_left_def)
  have "MceWrite_loop wr buf tot sz mcd m q = r_ret (1, mcd\<lparr>wroff := pos + sz, wcoff := wcoff mcd + 3\<rparr>, m\<lparr>mcdatabuf := b\<rparr>)"
    using d(1) e n by (subst MceWrite_loop.simps) simp
  moreover have "write_at (mcd\<lparr>wroff := pos + sz, wcoff := wcoff mcd + 3\<rparr>) (m\<lparr>mcdatabuf := b\<rparr>) p (pos + sz) (pend @ take sz (drop q buf))"
    using w n d q by (auto simp: write_at_def card_ok_def bufs_ok_def)
  ultimately show ?thesis by (force simp: same_write_def)
qed

lemma MceWrite_page_end:
  assumes w: "write_at mcd m p pos pend" and v: "has_page (mcnum mcd) p" and n: "pos < 512" "512 \<le> pos + sz" and q: "q + sz \<le> length buf"
  shows "\<exists>mcd' m'. MceWrite_loop wr buf tot sz mcd m q =
      (if tot - (512 - pos) > 0 then MceWrite_loop wr buf tot (tot - (512 - pos)) mcd' m' (q + (512 - pos)) else r_ret (1, mcd', m')) \<and>
    write_at mcd' m' p 512 [] \<and> same_write mcd mcd' \<and>
    (\<forall>c' p'. has_page c' p' \<longrightarrow> pg (drive m') c' p' = (if c' = mcnum mcd \<and> p' = p then pend @ take (512 - pos) (drop q buf) else pg (drive m) c' p'))"
proof -
  have mn: "min sz (512 - pos) = 512 - pos" using n by simp
  have "q + (512 - pos) \<le> length buf" "pos + (512 - pos) = 512" and "sz \<noteq> 0" using n q by simp_all
  with write_data_ok [OF w n(1), of q sz buf, unfolded mn] obtain b where
    d: "write_data mcd m buf q sz = Inr (mcd\<lparr>wroff := 512, wcoff := wcoff mcd + 3\<rparr>, m\<lparr>mcdatabuf := b\<rparr>, 512 - pos)" "length b = 512"
      "take 512 b = pend @ take (512 - pos) (drop q buf)" by auto
  have b: "b = pend @ take (512 - pos) (drop q buf)" using d(2,3) by simp
  have e: "ecc_count (wcoff mcd) (wroff mcd) sz = 0" "ecc_left (wcoff mcd) (wroff mcd) sz = wcoff mcd" "\<not> (wcoff mcd \<noteq> 0 \<and> wroff mcd = 0)"
      "page_bytes mcd = 512" "wpage mcd = p" "inv (drive m)"
    using w n by (auto simp: write_at_def card_ok_def ecc_count_def ecc_left_def)
  from wr_page [OF e(6) v d(2)] obtain s' where s': "wr (drive m) (mcnum mcd) b p = Inr (1, s')" "inv s'"
    "\<forall>c' p'. has_page c' p' \<longrightarrow> pg s' c' p' = (if c' = mcnum mcd \<and> p' = p then b else pg (drive m) c' p')" by blast
  define mcd' m' where "mcd' = mcd\<lparr>wcoff := wcoff mcd + 3, wroff := 0, wpage := p + 1\<rparr>" and "m' = m\<lparr>mcdatabuf := b, drive := s'\<rparr>"
  have "MceWrite_loop wr buf tot sz mcd m q =
      (if tot - (512 - pos) > 0 then MceWrite_loop wr buf tot (tot - (512 - pos)) mcd' m' (q + (512 - pos)) else r_ret (1, mcd', m'))"
    using d(1) e(1-5) s'(1) \<open>sz \<noteq> 0\<close> by (subst MceWrite_loop.simps) (simp add: mcd'_def m'_def Let_def)
  moreover have "write_at mcd' m' p 512 []" "same_write mcd mcd'"
    using w n d(2) s'(2) by (auto simp: write_at_def card_ok_def bufs_ok_def mcd'_def m'_def same_write_def)
  moreover have "\<forall>c' p'. has_page c' p' \<longrightarrow> pg (drive m') c' p' = (if c' = mcnum mcd \<and> p' = p then pend @ take (512 - pos) (drop q buf) else pg (drive m) c' p')"
    using s'(3) b by (simp add: m'_def)
  ultimately show ?thesis by blast
qed

lemma MceWrite_ecc:
  assumes w: "write_at mcd m p 512 pend" and n: "16 \<le> sz" "sz < 528" and q: "q + sz \<le> length buf"
  shows "\<exists>mcd' m'. MceWrite_loop wr buf tot sz mcd m q = r_ret (1, mcd', m') \<and> write_at mcd' m' (p + 1) (sz - 16) (take (sz - 16) (drop (q + 16) buf)) \<and>
    drive m' = drive m \<and> same_write mcd mcd'"
proof -
  define mcd1 where "mcd1 = mcd\<lparr>wcoff := 0\<rparr>"
  have e: "ecc_count (wcoff mcd) (wroff mcd) sz = 16" "ecc_left (wcoff mcd) (wroff mcd) sz = 0" "wcoff mcd \<noteq> 0" "wroff mcd = 0" "page_bytes mcd = 512"
    using w n by (auto simp: write_at_def card_ok_def ecc_count_def ecc_left_def)
  have w1: "write_at mcd1 m (p + 1) 0 []" using w by (simp add: write_at_def card_ok_def mcd1_def)
  show ?thesis
  proof (cases "sz = 16")
    case True
    then have "MceWrite_loop wr buf tot sz mcd m q = r_ret (1, mcd1, m)" using e by (subst MceWrite_loop.simps) (simp add: mcd1_def)
    then show ?thesis using True w1 by (auto simp: mcd1_def same_write_def)
  next
    case False
    have mn: "min (sz - 16) (512 - 0) = sz - 16" using n by simp
    from write_data_ok [OF w1, of "q + 16" "sz - 16" buf, unfolded mn] n q obtain b where
      d: "write_data mcd1 m buf (q + 16) (sz - 16) = Inr (mcd1\<lparr>wroff := sz - 16, wcoff := 3\<rparr>, m\<lparr>mcdatabuf := b\<rparr>, sz - 16)" "length b = 512"
        "take (sz - 16) b = take (sz - 16) (drop (q + 16) buf)" by (auto simp: mcd1_def)
    have "sz - 16 \<noteq> 512" using n by simp
    have "MceWrite_loop wr buf tot sz mcd m q = r_ret (1, mcd1\<lparr>wroff := sz - 16, wcoff := 3\<rparr>, m\<lparr>mcdatabuf := b\<rparr>)"
      using d(1) e False \<open>sz - 16 \<noteq> 512\<close> n(1) by (subst MceWrite_loop.simps) (simp add: mcd1_def)
    moreover have "write_at (mcd1\<lparr>wroff := sz - 16, wcoff := 3\<rparr>) (m\<lparr>mcdatabuf := b\<rparr>) (p + 1) (sz - 16) (take (sz - 16) (drop (q + 16) buf))"
      using w1 n False d(2,3) q by (auto simp: write_at_def card_ok_def bufs_ok_def)
    ultimately show ?thesis by (force simp: same_write_def mcd1_def)
  qed
qed

text \<open>The pages of the cards after a game has written the bytes \<open>D\<close> from page \<open>base\<close> of card \<open>c\<close> on: 512 of every 528.\<close>

definition written :: "'s \<Rightarrow> int \<Rightarrow> u32 \<Rightarrow> u8 list \<Rightarrow> int \<Rightarrow> u32 \<Rightarrow> u8 list" where
  "written s c base D c' p' =
     (let k = unat (p' - base) in if c' = c \<and> 528 * k + 512 \<le> length D then take 512 (drop (528 * k) D) else pg s c' p')"

definition write_pos :: "'s \<Rightarrow> MemoryCard \<Rightarrow> 's mc_mem \<Rightarrow> u32 \<Rightarrow> u8 list \<Rightarrow> bool" where
  "write_pos s0 mcd m base D \<longleftrightarrow>
     write_at mcd m (base + of_nat (length D div 528)) (length D mod 528) (drop (528 * (length D div 528)) D) \<and>
     (\<forall>c' p'. has_page c' p' \<longrightarrow> pg (drive m) c' p' = written s0 (mcnum mcd) base D c' p')"

lemma written_same:
  assumes "(length D + 16) div 528 = (length D + length d + 16) div 528"
  shows "written s c base (D @ d) = written s c base D"
proof -
  have "528 * k + 512 \<le> length (D @ d) \<longleftrightarrow> 528 * k + 512 \<le> length D" for k :: nat
  proof -
    have "528 * k + 512 \<le> x \<longleftrightarrow> k < (x + 16) div 528" for x by (auto simp: less_eq_div_iff_mult_less_eq Suc_le_eq [symmetric])
    then show ?thesis using assms by (simp add: add.assoc)
  qed
  then show ?thesis by (intro ext) (auto simp: written_def Let_def)
qed

lemma written_next:
  assumes j: "(length D + 16) div 528 = j" "(length D + length d + 16) div 528 = Suc j" "j < 2 ^ 32"
  shows "written s c base (D @ d) c' p' =
    (if c' = c \<and> p' = base + of_nat j then take 512 (drop (528 * j) (D @ d)) else written s c base D c' p')"
proof -
  have "528 * k + 512 \<le> x \<longleftrightarrow> k < (x + 16) div 528" for x k :: nat by (auto simp: less_eq_div_iff_mult_less_eq Suc_le_eq [symmetric])
  then have le: "528 * k + 512 \<le> length D \<longleftrightarrow> k < j" "528 * k + 512 \<le> length (D @ d) \<longleftrightarrow> k < Suc j" for k
    using j by (simp_all add: add.assoc)
  have k: "unat (p' - base) = j \<longleftrightarrow> p' = base + of_nat j"
    using j(3) by (metis add_diff_cancel_left' diff_add_cancel add.commute unat_u32_of_nat word_of_nat_unat)
  have "take 512 (drop (528 * k) (D @ d)) = take 512 (drop (528 * k) D)" if "k < j" for k using le(1) [of k] that by simp
  then show ?thesis unfolding written_def Let_def le using k by (auto simp: less_Suc_eq)
qed

lemma write_at_512: "write_at mcd m p 512 a = write_at mcd m p 512 b"
  by (simp add: write_at_def)

lemma MceWrite_ok:
  assumes w: "write_pos s0 mcd m base D" and n: "d \<noteq> []" "length d \<le> 255" "(length D + length d) mod 528 \<le> 512"
    and v: "\<forall>k. 528 * k < length D + length d \<longrightarrow> has_page (mcnum mcd) (base + of_nat k)" and small: "length D < 528 * 2 ^ 32"
  shows "\<exists>mcd' m'. MceWrite wr mcd m d (length d) = r_ret (1, mcd', m') \<and> write_pos s0 mcd' m' base (D @ d) \<and> same_write mcd mcd'"
proof -
  let ?n = "length d" and ?j = "length D div 528" and ?q = "length D mod 528"
  let ?p = "base + of_nat ?j" and ?P = "drop (528 * ?j) D"
  have L: "length D = 528 * ?j + ?q" by simp
  have w': "write_at mcd m ?p ?q ?P" and pgs: "\<And>c' p'. has_page c' p' \<Longrightarrow> pg (drive m) c' p' = written s0 (mcnum mcd) base D c' p'"
    using w by (simp_all add: write_pos_def)
  then have q: "?q \<le> 512" by (simp add: write_at_def)
  have n0: "0 < ?n" using n(1) by simp
  have "528 * ?j \<le> length D" by (rule times_div_less_eq_dividend)
  then have "528 * ?j < length D + ?n" using n0 by linarith
  then have v0: "has_page (mcnum mcd) ?p" using v by blast
  have e1: "?q + ?n \<le> 512 \<or> 528 \<le> ?q + ?n" using n(3) unit_pos [of "length D" ?n 0 "?q + ?n"] by fastforce
  have j: "?j < 2 ^ 32" using small by (simp add: less_mult_imp_div_less mult.commute)
  have len: "length ?P = ?q" by (metis L add_diff_cancel_left' length_drop)
  have after: "write_pos s0 mcd' m' base (D @ d)"
    if "?q + ?n = 528 * a + b" "b < 528" "write_at mcd' m' (?p + of_nat a) b (drop (528 * a) (?P @ d))" "mcnum mcd' = mcnum mcd"
      "\<And>c' p'. has_page c' p' \<Longrightarrow> pg (drive m') c' p' = written s0 (mcnum mcd) base (D @ d) c' p'" for mcd' m' a b
  proof -
    have "drop (528 * (?j + a)) (D @ d) = drop (528 * a) (drop (528 * ?j) (D @ d))" by (simp add: algebra_simps)
    also have "drop (528 * ?j) (D @ d) = ?P @ d" by simp
    finally show ?thesis using unit_pos [OF that(1,2)] that(3-5) by (simp add: write_pos_def add.assoc)
  qed
  have low: "(length D + 16) div 528 = ?j" if "?q < 512" using unit_pos [of "length D" 16 0 "?q + 16"] that by simp
  have high: "(length D + ?n + 16) div 528 = ?j + a" if "?q + ?n + 16 = 528 * a + b" "b < 528" for a b
    using unit_pos [of "length D" "?n + 16" a b] that by (simp add: add.assoc)
  have page: "written s0 (mcnum mcd) base (D @ d) c' p' = (if c' = mcnum mcd \<and> p' = ?p then ?P @ take (512 - ?q) d else written s0 (mcnum mcd) base D c' p')"
    if "?q < 512" "(length D + ?n + 16) div 528 = ?j + 1" for c' p'
    using written_next [OF low [OF that(1)] _ j, of d] that len by simp
  consider "?q + ?n < 512" | "?q < 512" "?q + ?n = 512" | "?q < 512" "528 \<le> ?q + ?n" | "?q = 512" "528 \<le> ?q + ?n"
    using e1 q n0 by linarith
  then show ?thesis
  proof cases
    case 1
    then have "written s0 (mcnum mcd) base (D @ d) = written s0 (mcnum mcd) base D"
      using low high [of 0 "?q + ?n + 16"] by (intro written_same) simp
    with MceWrite_in_page [OF w' n0 1, of 0 d ?n] show ?thesis
      using after [of 0 "?q + ?n"] 1 pgs by (auto simp: MceWrite_def same_write_def)
  next
    case 2
    from MceWrite_page_end [OF w' v0 2(1), of ?n 0 d ?n] 2 obtain mcd' m' where
      e: "MceWrite wr mcd m d ?n = r_ret (1, mcd', m')" "write_at mcd' m' ?p 512 []" "same_write mcd mcd'"
        "\<forall>c' p'. has_page c' p' \<longrightarrow> pg (drive m') c' p' = (if c' = mcnum mcd \<and> p' = ?p then ?P @ take (512 - ?q) d else pg (drive m) c' p')"
      by (auto simp: MceWrite_def)
    have "pg (drive m') c' p' = written s0 (mcnum mcd) base (D @ d) c' p'" if "has_page c' p'" for c' p'
      using e(4) page [OF 2(1)] that high [of 1 0] 2 pgs by simp
    moreover have "write_at mcd' m' ?p 512 (?P @ d)" using e(2) write_at_512 by blast
    ultimately show ?thesis using e(1,3) after [of 0 512 mcd' m'] 2 by (auto simp: same_write_def)
  next
    case 3
    let ?k = "?n - (512 - ?q)"
    have k: "16 \<le> ?k" "?k < 528" "512 - ?q + ?k \<le> length d" "0 < ?k" "512 \<le> ?q + ?n" "?k - 16 = ?q + ?n - 528" "512 - ?q + 16 = 528 - ?q" using 3 n(2) by simp_all
    from MceWrite_page_end [OF w' v0 3(1) k(5), of 0 d ?n] k(4) obtain mcd1 m1 where
      e: "MceWrite wr mcd m d ?n = MceWrite_loop wr d ?n ?k mcd1 m1 (512 - ?q)" "write_at mcd1 m1 ?p 512 []" "same_write mcd mcd1"
        "\<forall>c' p'. has_page c' p' \<longrightarrow> pg (drive m1) c' p' = (if c' = mcnum mcd \<and> p' = ?p then ?P @ take (512 - ?q) d else pg (drive m) c' p')"
      by (auto simp: MceWrite_def)
    from MceWrite_ecc [OF e(2) k(1-3), of ?n] obtain mcd' m' where
      f: "MceWrite wr mcd m d ?n = r_ret (1, mcd', m')" "write_at mcd' m' (?p + 1) (?q + ?n - 528) (take (?q + ?n - 528) (drop (528 - ?q) d))"
        "drive m' = drive m1" "same_write mcd1 mcd'" unfolding e(1) k(6,7) by blast
    have "pg (drive m') c' p' = written s0 (mcnum mcd) base (D @ d) c' p'" if "has_page c' p'" for c' p'
      using e(4) f(3) page [OF 3(1)] that high [of 1 "?q + ?n + 16 - 528"] 3 n(2) pgs by simp
    moreover have "take (?q + ?n - 528) (drop (528 - ?q) d) = drop (528 * 1) (?P @ d)" using 3 by (simp only: drop_append len) simp
    then have "write_at mcd' m' (?p + of_nat 1) (?q + ?n - 528) (drop (528 * 1) (?P @ d))" using f(2) by (simp only: of_nat_1)
    moreover have "?q + ?n = 528 * 1 + (?q + ?n - 528)" "?q + ?n - 528 < 528" using 3 n(2) by simp_all
    moreover have "same_write mcd mcd'" using same_write_trans [OF e(3) f(4)] .
    ultimately show ?thesis using f(1) after [of 1 "?q + ?n - 528" mcd' m'] unfolding same_write_def by blast
  next
    case 4
    then have "written s0 (mcnum mcd) base (D @ d) = written s0 (mcnum mcd) base D"
      using high [of 1 ?n] n(2) unit_pos [of "length D" 16 1 0] by (intro written_same) simp
    moreover have "16 \<le> ?n" "?n < 528" "0 + ?n \<le> length d" using 4 n(2) by simp_all
    from MceWrite_ecc [OF w' [unfolded 4(1)] this, of ?n] obtain mcd' m' where
      f: "MceWrite wr mcd m d ?n = r_ret (1, mcd', m')" "write_at mcd' m' (?p + 1) (?n - 16) (take (?n - 16) (drop (0 + 16) d))"
        "drive m' = drive m" "same_write mcd mcd'" unfolding MceWrite_def by blast
    have "take (?n - 16) (drop (0 + 16) d) = drop (528 * 1) (?P @ d)" by (simp only: drop_append len 4(1)) simp
    then have "write_at mcd' m' (?p + of_nat 1) (?n - 16) (drop (528 * 1) (?P @ d))" using f(2) by (simp only: of_nat_1)
    moreover have "?q + ?n = 528 * 1 + (?n - 16)" "?n - 16 < 528" using 4 n(2) by simp_all
    ultimately show ?thesis using f(1,3,4) after [of 1 "?n - 16" mcd' m'] pgs unfolding same_write_def by metis
  qed
qed

lemma mc_writes_ok:
  assumes "write_pos s0 mcd m base D" "mc_calls (length D) (map length ds)"
    "\<forall>k. 528 * k < length D + length (concat ds) \<longrightarrow> has_page (mcnum mcd) (base + of_nat k)" "length D + length (concat ds) < 528 * 2 ^ 32"
  shows "\<exists>mcd' m'. mc_writes wr ds mcd m = r_ret (1, mcd', m') \<and> write_pos s0 mcd' m' base (D @ concat ds) \<and> same_write mcd mcd'"
  using assms
proof (induction ds arbitrary: mcd m D)
  case Nil
  then show ?case by (simp add: same_write_def)
next
  case (Cons d ds)
  from MceWrite_ok [OF Cons.prems(1), of d] Cons.prems(2-4) obtain mcd1 m1 where
    1: "MceWrite wr mcd m d (length d) = r_ret (1, mcd1, m1)" "write_pos s0 mcd1 m1 base (D @ d)" "same_write mcd mcd1" by auto
  from Cons.IH [OF 1(2)] Cons.prems(2-4) 1(3) obtain mcd' m' where
    2: "mc_writes wr ds mcd1 m1 = r_ret (1, mcd', m')" "write_pos s0 mcd' m' base ((D @ d) @ concat ds)" "same_write mcd1 mcd'"
    by (auto simp: same_write_def add.assoc)
  then show ?case using 1 same_write_trans [OF 1(3) 2(3)] by simp
qed

lemma start_write_pos:
  assumes "card_ok mcd" "bufs_ok m" "inv (drive m)"
  shows "write_pos (drive m) (MceStartWrite mcd base) m base []"
  using assms by (simp add: write_pos_def write_at_def MceStartWrite_def card_ok_def written_def)

lemma start_read_pos:
  assumes "card_ok mcd" "bufs_ok m" "inv (drive m)"
  shows "read_pos (MceStartRead mcd base) m base 0"
  using assms by (simp add: read_pos_def read_at_def MceStartRead_def card_ok_def)

text \<open>Pages are written in any pieces and read back in others: every 528 bytes read are the 512 written and their error correcting
  bytes; no other page has changed.\<close>

lemma write_read:
  assumes ok: "card_ok mcd" "bufs_ok m" "inv (drive m)" and pages: "\<forall>k < n. has_page (mcnum mcd) (base + of_nat k)" and n: "n < 2 ^ 32"
    and ds: "mc_calls 0 (map length ds)" "length (concat ds) = 528 * n"
    and ns: "mc_calls 0 ns" "sum_list ns = 528 * n"
  shows "\<exists>mcd1 m1 mcd2 m2. mc_writes wr ds (MceStartWrite mcd base) m = r_ret (1, mcd1, m1) \<and>
    mc_reads rd ns (MceStartRead mcd1 base) m1 =
      r_ret (1, mcd2, m2, concat (map (\<lambda>k. page_unit (flags mcd) (take 512 (drop (528 * k) (concat ds)))) [0..<n])) \<and>
    (\<forall>c p. has_page c p \<and> (c \<noteq> mcnum mcd \<or> n \<le> unat (p - base)) \<longrightarrow> pg (drive m2) c p = pg (drive m) c p)"
proof -
  have pages': "\<forall>k. 528 * k < 528 * n \<longrightarrow> has_page (mcnum mcd) (base + of_nat k)" using pages by simp
  from mc_writes_ok [OF start_write_pos [OF ok], of ds base] ds pages' n obtain mcd1 m1 where
    1: "mc_writes wr ds (MceStartWrite mcd base) m = r_ret (1, mcd1, m1)" "write_pos (drive m) mcd1 m1 base (concat ds)" "same_write mcd mcd1"
    by (auto simp: MceStartWrite_def same_write_def)
  have s1: "mcnum mcd1 = mcnum mcd" "flags mcd1 = flags mcd" using 1(3) by (simp_all add: same_write_def)
  have ok1: "card_ok mcd1" "bufs_ok m1" "inv (drive m1)" using 1(2) by (simp_all add: write_pos_def write_at_def)
  from mc_reads_ok [OF start_read_pos [OF ok1], of ns base] ns pages' s1 obtain mcd2 m2 where
    2: "mc_reads rd ns (MceStartRead mcd1 base) m1 = r_ret (1, mcd2, m2, map (card_byte (flags mcd) (drive m1) (mcnum mcd) base) [0..<528 * n])"
      "pg (drive m2) = pg (drive m1)" by (auto simp: MceStartRead_def same_read_def)
  have pg1: "pg (drive m1) c p = written (drive m) (mcnum mcd) base (concat ds) c p" if "has_page c p" for c p
    using 1(2) s1 that by (simp add: write_pos_def)
  have page: "pg (drive m1) (mcnum mcd) (base + of_nat k) = take 512 (drop (528 * k) (concat ds))" if "k < n" for k
    using pg1 pages that n ds(2) by (simp add: written_def unat_u32_of_nat)
  have "map (card_byte (flags mcd) (drive m1) (mcnum mcd) base) [0..<528 * k] =
      concat (map (\<lambda>k. page_unit (flags mcd) (take 512 (drop (528 * k) (concat ds)))) [0..<k])" if "k \<le> n" for k
    using that
  proof (induction k)
    case (Suc k)
    have "map (card_byte (flags mcd) (drive m1) (mcnum mcd) base) [528 * k..<528 * k + 528] = page_unit (flags mcd) (take 512 (drop (528 * k) (concat ds)))"
      using card_bytes_in_page [of "drive m1" "mcnum mcd" base "528 * k" 528 "flags mcd"] page [of k] Suc.prems ds(2) by simp
    moreover have "[0..<528 * Suc k] = [0..<528 * k] @ [528 * k..<528 * k + 528]" using upt_add_eq_append [of 0 "528 * k" 528] by (simp add: add.commute)
    ultimately show ?case using Suc by simp
  qed simp
  moreover have "pg (drive m2) c p = pg (drive m) c p" if "has_page c p" "c \<noteq> mcnum mcd \<or> n \<le> unat (p - base)" for c p
    using that pg1 2(2) ds(2) by (auto simp: written_def Let_def)
  ultimately show ?thesis using 1(1) 2(1) by auto
qed

end

section \<open>Cards on the hard disk\<close>

text \<open>The sectors of a card's file, in order.\<close>

definition block_sectors :: "apa_parts list \<Rightarrow> pfs_blocks \<Rightarrow> u32 list" where
  "block_sectors ps b =
     map (\<lambda>k. ap_start (ps ! unat (pb_subpart b)) + push_bit 4 (pb_number b) + of_nat k) [0..<16 * unat (pb_count b)]"

definition vmc_sectors :: "McImageSpec \<Rightarrow> u32 list" where
  "vmc_sectors v = concat (map (block_sectors (parts v)) (blocks v))"

definition vmc_ok :: "McImageSpec \<Rightarrow> bool" where
  "vmc_ok v \<longleftrightarrow> length (blocks v) = 10 \<and> (\<forall>b \<in> set (blocks v). unat (pb_subpart b) < length (parts v))"

lemma length_block_sectors [simp]: "length (block_sectors ps b) = 16 * unat (pb_count b)"
  by (simp add: block_sectors_def)

lemma length_blocks: "length (concat (map (block_sectors ps) bs)) = 16 * sum_list (map (\<lambda>b. unat (pb_count b)) bs)"
  by (induction bs) simp_all

lemma apa_scan_finds:
  assumes "\<forall>b \<in> set bs. unat (pb_subpart b) < length ps" "16 * (lb + sum_list (map (\<lambda>b. unat (pb_count b)) bs)) < 2 ^ 32"
  shows "apa_scan ps pn bs (of_nat lb) sec =
    Inr (if 16 * lb \<le> unat pn \<and> unat pn < 16 * (lb + sum_list (map (\<lambda>b. unat (pb_count b)) bs))
         then concat (map (block_sectors ps) bs) ! (unat pn - 16 * lb) else sec)"
  using assms
proof (induction bs arbitrary: lb sec)
  case (Cons b bs)
  let ?c = "unat (pb_count b)"
  have ub: "of_nat lb + ucast (pb_count b) = (of_nat (lb + ?c) :: u32)" by (simp flip: unsigned_ucast_eq)
  have sh: "push_bit 4 (of_nat x :: u32) = of_nat (16 * x)" for x by (simp add: push_bit_eq_mult)
  have le: "(of_nat (16 * x) \<le> pn) = (16 * x \<le> unat pn)" "(pn < of_nat (16 * x)) = (unat pn < 16 * x)" if "16 * x < 2 ^ 32" for x
    using that by (simp_all add: word_le_nat_alt word_less_nat_alt unat_u32_of_nat del: of_nat_mult)
  have pre: "16 * (lb + ?c + sum_list (map (\<lambda>b. unat (pb_count b)) bs)) < 2 ^ 32" using Cons.prems(2) by (simp add: add.assoc)
  have sub: "\<forall>b \<in> set bs. unat (pb_subpart b) < length ps" "peek ps (unat (pb_subpart b)) = Inr (ps ! unat (pb_subpart b))" using Cons.prems(1) by simp_all
  have small: "16 * lb < 2 ^ 32" "16 * (lb + ?c) < 2 ^ 32" using Cons.prems(2) by simp_all
  note step = apa_scan.simps(2) [of ps pn b bs "of_nat lb" sec, unfolded Let_def ub sh le [OF small(1)] le [OF small(2)] sub(2) c_bind_Inr Cons.IH [OF sub(1) pre]]
  show ?case
  proof (cases "16 * lb \<le> unat pn \<and> unat pn < 16 * (lb + ?c)")
    case True
    then have "of_nat (unat pn - 16 * lb) = pn - of_nat (16 * lb)" by (simp add: of_nat_diff del: of_nat_mult)
    moreover have "unat pn - 16 * lb < 16 * ?c" using True by (simp add: algebra_simps less_diff_conv2)
    ultimately have "(block_sectors ps b @ xs) ! (unat pn - 16 * lb) = ap_start (ps ! unat (pb_subpart b)) + push_bit 4 (pb_number b) + (pn - of_nat (16 * lb))" for xs
      by (simp add: nth_append block_sectors_def)
    then show ?thesis unfolding step using True by simp
  next
    case False
    then show ?thesis unfolding step by (auto simp: nth_append algebra_simps)
  qed
qed auto

lemma blocks_small:
  assumes "vmc_ok v"
  shows "16 * (0 + sum_list (map (\<lambda>b. unat (pb_count b)) (blocks v))) < 2 ^ 32"
proof -
  have "unat (c :: u16) \<le> 65535" for c using unsigned_less [of c, where 'a = nat] by simp
  then have "sum_list (map (\<lambda>b. unat (pb_count b)) (blocks v)) \<le> sum_list (map (\<lambda>_. 65535) (blocks v))" by (intro sum_list_mono) auto
  also have "\<dots> = 655350" using assms by (simp add: vmc_ok_def sum_list_triv)
  finally show ?thesis by simp
qed

lemma Mcpage_to_Apasector_eq:
  assumes "spec_of vmcSpec c = Inr v" "vmc_ok v"
  shows "Mcpage_to_Apasector vmcSpec c p = Inr (if unat p < length (vmc_sectors v) then vmc_sectors v ! unat p else 0)"
  using apa_scan_finds [OF _ blocks_small [OF assms(2)], of "parts v" p 0] assms
  by (simp add: Mcpage_to_Apasector_def vmc_sectors_def length_blocks vmc_ok_def)

text \<open>What is relied on of the disk: a sector reads as what was written there last.\<close>

definition ata_ok :: "('s \<Rightarrow> 'l \<Rightarrow> u8 list) \<Rightarrow> ('s \<Rightarrow> 'l \<Rightarrow> int \<times> u8 list \<times> 's) \<Rightarrow> ('s \<Rightarrow> 'l \<Rightarrow> u8 list \<Rightarrow> int \<times> 's) \<Rightarrow> bool" where
  "ata_ok disk ata_rd ata_wr \<longleftrightarrow>
     (\<forall>s lba. length (disk s lba) = 512 \<and> (\<exists>s'. ata_rd s lba = (0, disk s lba, s') \<and> disk s' = disk s)) \<and>
     (\<forall>s lba d. length d = 512 \<longrightarrow> (\<exists>s'. ata_wr s lba d = (0, s') \<and> disk s' = (disk s)(lba := d)))"

text \<open>The files of the two cards share no sector.\<close>

definition cards_ok :: "McImageSpec \<times> McImageSpec \<Rightarrow> bool" where
  "cards_ok vmcSpec \<longleftrightarrow> vmc_ok (fst vmcSpec) \<and> vmc_ok (snd vmcSpec) \<and> distinct (vmc_sectors (fst vmcSpec) @ vmc_sectors (snd vmcSpec))"

definition vmc_of :: "McImageSpec \<times> McImageSpec \<Rightarrow> int \<Rightarrow> McImageSpec" where
  "vmc_of vmcSpec c = (if c = 0 then fst vmcSpec else snd vmcSpec)"

definition hdd_page :: "McImageSpec \<times> McImageSpec \<Rightarrow> int \<Rightarrow> u32 \<Rightarrow> bool" where
  "hdd_page vmcSpec c p \<longleftrightarrow> c \<in> {0, 1} \<and> unat p < length (vmc_sectors (vmc_of vmcSpec c))"

definition hdd_sector_of :: "McImageSpec \<times> McImageSpec \<Rightarrow> int \<Rightarrow> u32 \<Rightarrow> u32" where
  "hdd_sector_of vmcSpec c p = vmc_sectors (vmc_of vmcSpec c) ! unat p"

lemma hdd_sector_found:
  "cards_ok v \<Longrightarrow> hdd_page v c p \<Longrightarrow> Mcpage_to_Apasector v c p = Inr (hdd_sector_of v c p)"
  using Mcpage_to_Apasector_eq [of v c "vmc_of v c" p] by (auto simp: cards_ok_def hdd_page_def hdd_sector_of_def vmc_of_def spec_of_def)

lemma hdd_sector_inj:
  assumes "cards_ok v" "hdd_page v c p" "hdd_page v c' p'" "hdd_sector_of v c p = hdd_sector_of v c' p'"
  shows "c = c' \<and> p = p'"
proof -
  have d: "distinct (vmc_sectors (vmc_of v c))" "distinct (vmc_sectors (vmc_of v c'))"
    "set (vmc_sectors (fst v)) \<inter> set (vmc_sectors (snd v)) = {}" using assms(1) by (simp_all add: cards_ok_def vmc_of_def)
  have "hdd_sector_of v c p \<in> set (vmc_sectors (vmc_of v c))" "hdd_sector_of v c' p' \<in> set (vmc_sectors (vmc_of v c'))"
    using assms(2,3) by (auto simp: hdd_page_def hdd_sector_of_def)
  then have c: "c = c'" using d(3) assms(2-4) by (auto simp: vmc_of_def hdd_page_def split: if_splits)
  then have "unat p = unat p'" using assms(2-4) d(1) nth_eq_iff_index_eq by (auto simp: hdd_page_def hdd_sector_of_def)
  then show ?thesis using c by (simp add: word_unat_eq_iff)
qed

interpretation hdd_cards: page_device "DeviceReadPage_hdd ata_rd v" "DeviceWritePage_hdd ata_wr v"
    "\<lambda>s. ata_ok disk ata_rd ata_wr \<and> cards_ok v" "\<lambda>s c p. disk s (hdd_sector_of v c p)" "hdd_page v"
  for ata_rd ata_wr disk v
proof
  fix s :: 'a and c :: int and p :: u32 and buf :: "u8 list"
  assume a: "ata_ok disk ata_rd ata_wr \<and> cards_ok v" "hdd_page v c p"
  let ?l = "hdd_sector_of v c p"
  show "length (disk s ?l) = 512" using a(1) by (simp add: ata_ok_def)
  have l: "Mcpage_to_Apasector v c p = Inr ?l" using hdd_sector_found a by blast
  assume b: "length buf = 512"
  obtain s' where "ata_rd s ?l = (0, disk s ?l, s')" "disk s' = disk s" using a(1) unfolding ata_ok_def by blast
  moreover have "length (disk s ?l) = 512" using a(1) by (simp add: ata_ok_def)
  ultimately show "\<exists>s'. DeviceReadPage_hdd ata_rd v s c buf p = Inr (1, disk s ?l, s') \<and> (ata_ok disk ata_rd ata_wr \<and> cards_ok v) \<and>
      (\<lambda>c p. disk s' (hdd_sector_of v c p)) = (\<lambda>c p. disk s (hdd_sector_of v c p))"
    using a(1) b l by (simp add: DeviceReadPage_hdd_def mem_write_def)
  obtain s' where s': "ata_wr s ?l buf = (0, s')" "disk s' = (disk s)(?l := buf)" using a(1) b unfolding ata_ok_def by blast
  have "\<forall>c' p'. hdd_page v c' p' \<longrightarrow> disk s' (hdd_sector_of v c' p') = (if c' = c \<and> p' = p then buf else disk s (hdd_sector_of v c' p'))"
    using s'(2) hdd_sector_inj [of v] a by auto
  then show "\<exists>s'. DeviceWritePage_hdd ata_wr v s c buf p = Inr (1, s') \<and> (ata_ok disk ata_rd ata_wr \<and> cards_ok v) \<and>
      (\<forall>c' p'. hdd_page v c' p' \<longrightarrow> disk s' (hdd_sector_of v c' p') = (if c' = c \<and> p' = p then buf else disk s (hdd_sector_of v c' p')))"
    using a(1) b l s'(1) by (simp add: DeviceWritePage_hdd_def)
qed

section \<open>Cards on block devices\<close>

definition bdm_page :: "McImageSpec \<times> McImageSpec \<Rightarrow> int \<Rightarrow> u32 \<Rightarrow> bool" where
  "bdm_page vmcSpec c p \<longleftrightarrow> c \<in> {0, 1} \<and> p < CardSize (vcspec (vmc_of vmcSpec c))"

definition bdm_sector_of :: "McImageSpec \<times> McImageSpec \<Rightarrow> int \<Rightarrow> u32 \<Rightarrow> u64" where
  "bdm_sector_of vmcSpec c p = stsec (vmc_of vmcSpec c) + ucast p"

text \<open>The two files are ranges of sectors that do not meet.\<close>

definition bdm_cards_ok :: "McImageSpec \<times> McImageSpec \<Rightarrow> bool" where
  "bdm_cards_ok v \<longleftrightarrow> (\<forall>p p'. bdm_page v 0 p \<and> bdm_page v 1 p' \<longrightarrow> bdm_sector_of v 0 p \<noteq> bdm_sector_of v 1 p')"

lemma bdm_sector_inj:
  assumes "bdm_cards_ok v" "bdm_page v c p" "bdm_page v c' p'" "bdm_sector_of v c p = bdm_sector_of v c' p'"
  shows "c = c' \<and> p = p'"
proof -
  have c: "c = c'" using assms unfolding bdm_cards_ok_def bdm_page_def by (metis insertE singletonD)
  then have "(ucast p :: u64) = ucast p'" using assms(4) by (simp add: bdm_sector_of_def)
  then have "unat (ucast p :: u64) = unat (ucast p' :: u64)" by simp
  moreover have "unat (ucast w :: u64) = unat w" for w :: u32
    using u32_unat_less [of w] by (simp add: unsigned_ucast_eq take_bit_nat_eq_self)
  ultimately show ?thesis using c by (simp add: word_unat_eq_iff)
qed

interpretation bdm_cards: page_device "DeviceReadPage_bdm bdm_rd v" "DeviceWritePage_bdm bdm_wr v"
    "\<lambda>s. ata_ok disk bdm_rd bdm_wr \<and> bdm_cards_ok v" "\<lambda>s c p. disk s (bdm_sector_of v c p)" "bdm_page v"
  for bdm_rd bdm_wr disk v
proof
  fix s :: 'a and c :: int and p :: u32 and buf :: "u8 list"
  assume a: "ata_ok disk bdm_rd bdm_wr \<and> bdm_cards_ok v" "bdm_page v c p"
  let ?l = "bdm_sector_of v c p"
  show "length (disk s ?l) = 512" using a(1) by (simp add: ata_ok_def)
  have l: "spec_of v c = Inr (vmc_of v c)" using a(2) by (auto simp: spec_of_def vmc_of_def bdm_page_def)
  assume b: "length buf = 512"
  obtain s' where "bdm_rd s ?l = (0, disk s ?l, s')" "disk s' = disk s" using a(1) unfolding ata_ok_def by blast
  moreover have "length (disk s ?l) = 512" using a(1) by (simp add: ata_ok_def)
  ultimately show "\<exists>s'. DeviceReadPage_bdm bdm_rd v s c buf p = Inr (1, disk s ?l, s') \<and> (ata_ok disk bdm_rd bdm_wr \<and> bdm_cards_ok v) \<and>
      (\<lambda>c p. disk s' (bdm_sector_of v c p)) = (\<lambda>c p. disk s (bdm_sector_of v c p))"
    using a(1) b l by (simp add: DeviceReadPage_bdm_def mem_write_def bdm_sector_of_def)
  obtain s' where s': "bdm_wr s ?l buf = (0, s')" "disk s' = (disk s)(?l := buf)" using a(1) b unfolding ata_ok_def by blast
  have "\<forall>c' p'. bdm_page v c' p' \<longrightarrow> disk s' (bdm_sector_of v c' p') = (if c' = c \<and> p' = p then buf else disk s (bdm_sector_of v c' p'))"
    using s'(2) bdm_sector_inj [of v] a by auto
  then show "\<exists>s'. DeviceWritePage_bdm bdm_wr v s c buf p = Inr (1, s') \<and> (ata_ok disk bdm_rd bdm_wr \<and> bdm_cards_ok v) \<and>
      (\<forall>c' p'. bdm_page v c' p' \<longrightarrow> disk s' (bdm_sector_of v c' p') = (if c' = c \<and> p' = p then buf else disk s (bdm_sector_of v c' p')))"
    using a(1) b l s'(1) by (simp add: DeviceWritePage_bdm_def bdm_sector_of_def)
qed

section \<open>Properties\<close>

text \<open>C10: What a game writes to a virtual memory card on the hard disk it reads back.  Let the files of the two cards lie on different sectors of a disk
  that keeps what is written to it.  A game that starts a write at page \<open>base\<close> and passes \<open>n\<close> pages, each followed by its 16 check bytes, in
  pieces of at most 255 bytes that do not end within the check bytes, and then reads the same pages in pieces of the same kind but
  of any other lengths, gets each page as it was written followed by the check bytes \<open>CalculateECC\<close> gives for it; no call fails,
  reads or writes outside a buffer or fails to return, and every other page of both cards is as before.\<close>

theorem memory_card_write_read:
  assumes "ata_ok disk ata_rd ata_wr" "cards_ok v" "card_ok mcd" "bufs_ok m"
    and "\<forall>k < n. hdd_page v (mcnum mcd) (base + of_nat k)" "n < 2 ^ 32"
    and "mc_calls 0 (map length ds)" "length (concat ds) = 528 * n" "mc_calls 0 ns" "sum_list ns = 528 * n"
  shows "\<exists>mcd1 m1 mcd2 m2. mc_writes (DeviceWritePage_hdd ata_wr v) ds (MceStartWrite mcd base) m = r_ret (1, mcd1, m1) \<and>
    mc_reads (DeviceReadPage_hdd ata_rd v) ns (MceStartRead mcd1 base) m1 =
      r_ret (1, mcd2, m2, concat (map (\<lambda>k. page_unit (flags mcd) (take 512 (drop (528 * k) (concat ds)))) [0..<n])) \<and>
    (\<forall>c p. hdd_page v c p \<and> (c \<noteq> mcnum mcd \<or> n \<le> unat (p - base)) \<longrightarrow> disk (drive m2) (hdd_sector_of v c p) = disk (drive m) (hdd_sector_of v c p))"
  using assms by (intro hdd_cards.write_read) simp_all

definition demo_vmc :: "McImageSpec \<times> McImageSpec" where
  "demo_vmc =
     (let z = \<lparr>pb_number = 0, pb_subpart = 0, pb_count = 0\<rparr>;
          sp = \<lparr>PageSize = 512, BlockSize = 16, CardSize = 16\<rparr>;
          c = (\<lambda>bs. \<lparr>active = 1, stsec = 0, parts = [\<lparr>ap_start = 1000, ap_length = 4096\<rparr>], blocks = bs, vflags = 0x2B, vcspec = sp\<rparr>)
      in (c (\<lparr>pb_number = 2, pb_subpart = 0, pb_count = 1\<rparr> # replicate 9 z), c (\<lparr>pb_number = 5, pb_subpart = 0, pb_count = 1\<rparr> # replicate 9 z)))"

definition demo_card :: MemoryCard where
  "demo_card = \<lparr>mcnum = 1, rpage = 0, rdoff = 0, wpage = 0, wroff = 0, rcoff = 0, wcoff = 0, tcode = 0x5A,
     cspec = \<lparr>PageSize = 512, BlockSize = 16, CardSize = 16\<rparr>, flags = 0x2B\<rparr>"

definition demo_mem :: "(u32 \<Rightarrow> u8 list) mc_mem" where
  "demo_mem = \<lparr>mcdatabuf = replicate 512 0, mceccbuf = replicate 2 (replicate 32 0), drive = (\<lambda>_. [])\<rparr>"

definition demo_disk :: "('l \<Rightarrow> u8 list) \<Rightarrow> 'l \<Rightarrow> u8 list" where
  "demo_disk s l = take 512 (s l @ replicate 512 0)"

lemma demo_disk_ok: "ata_ok demo_disk (\<lambda>s l. (0, demo_disk s l, s)) (\<lambda>s l d. (0, s(l := d)))"
  unfolding ata_ok_def
proof (intro conjI allI impI)
  fix s :: "'a \<Rightarrow> u8 list" and l d
  assume "length (d :: u8 list) = 512"
  then show "\<exists>s'. (0, s(l := d)) = (0 :: int, s') \<and> demo_disk s' = (demo_disk s)(l := d)" by (auto simp: demo_disk_def)
qed (auto simp: demo_disk_def)

lemma demo_cards_ok: "cards_ok demo_vmc"
  by code_simp

theorem memory_card_write_read_witness:
  "\<exists>mcd1 m1 mcd2 m2. mc_writes (DeviceWritePage_hdd (\<lambda>s l d. (0, s(l := d))) demo_vmc) [replicate 200 1, replicate 200 2, replicate 128 3] (MceStartWrite demo_card 3) demo_mem = r_ret (1, mcd1, m1) \<and>
    mc_reads (DeviceReadPage_hdd (\<lambda>s l. (0, demo_disk s l, s)) demo_vmc) [128, 128, 128, 144] (MceStartRead mcd1 3) m1 =
      r_ret (1, mcd2, m2, page_unit 0x2B (replicate 200 1 @ replicate 200 2 @ replicate 112 3))"
proof -
  have "hdd_page demo_vmc 1 3" by code_simp
  then show ?thesis
    using memory_card_write_read [OF demo_disk_ok demo_cards_ok, of demo_card demo_mem 1 3 "[replicate 200 1, replicate 200 2, replicate 128 3]" "[128, 128, 128, 144]"]
    by (simp add: demo_card_def demo_mem_def card_ok_def bufs_ok_def) blast
qed

end
