(* ===== verification/McSio.thy ===== *)
theory McSio
  imports McEmu
begin

text \<open>
  The command handler of the virtual memory cards (\<open>Sio2McEmu\<close>, \<open>SioResponse\<close> and \<open>hookSio2man\<close> of \<open>modules/mcemu/mcemu.c\<close>).  A packet holds up to
  sixteen commands; those for a card are answered here, everything else goes on to the console's own driver.
\<close>

section \<open>Packets\<close>

text \<open>\<open>wrmaddr\<close> and \<open>rdmaddr\<close> are the areas of memory from these addresses on, with one command and one answer every \<open>wrwords * 4\<close> and
  \<open>rdwords * 4\<close> bytes.\<close>

record Sio2Packet =
  iostatus :: u32
  ctrl :: "u32 list"
  pwr_buf :: "u8 list"
  wrmaddr :: "u8 list"
  wrwords :: u32
  wrcount :: u32
  rdmaddr :: "u8 list"
  rdwords :: u32

type_synonym cards = "MemoryCard \<times> MemoryCard"

definition get_card :: "cards \<Rightarrow> u32 \<Rightarrow> MemoryCard" where
  "get_card mc c = (if c AND 1 = 0 then fst mc else snd mc)"

definition put_card :: "cards \<Rightarrow> u32 \<Rightarrow> MemoryCard \<Rightarrow> cards" where
  "put_card mc c mcd = (if c AND 1 = 0 then (mcd, snd mc) else (fst mc, mcd))"

definition SioResponse :: "MemoryCard \<Rightarrow> u8 list \<Rightarrow> nat \<Rightarrow> int \<Rightarrow> u8 list cres" where
  "SioResponse mcd buf p len =
     (if len < 2 then Inr buf else mem_write buf p (replicate (nat (len - 2)) 0xFF @ [0x2B, tcode mcd]))"

text \<open>The eight bytes of a \<open>McSpec\<close> in memory, low bytes first.\<close>

definition McSpec_bytes :: "McSpec \<Rightarrow> u8 list" where
  "McSpec_bytes c =
     [ucast (PageSize c), ucast (drop_bit 8 (PageSize c)), ucast (BlockSize c), ucast (drop_bit 8 (BlockSize c)),
      ucast (CardSize c), ucast (drop_bit 8 (CardSize c)), ucast (drop_bit 16 (CardSize c)), ucast (drop_bit 24 (CardSize c))]"

text \<open>What the commands share: the result so far, the card, the memory and the area of the answers.\<close>

type_synonym 's sio = "int \<times> MemoryCard \<times> 's mc_mem \<times> u8 list"

definition sio_answer :: "int \<Rightarrow> MemoryCard \<Rightarrow> 's mc_mem \<Rightarrow> u8 list \<Rightarrow> nat \<Rightarrow> int \<Rightarrow> 's sio run" where
  "sio_answer result mcd m rb r len = r_bind (Some (SioResponse mcd rb r len)) (\<lambda>rb'. r_ret (result, mcd, m, rb'))"

text \<open>Commands 0x21, 0x26, 0x42 and 0x43; \<open>w\<close> is the command from its first byte on, \<open>r\<close> where its answer goes.\<close>

definition sio_erase :: "'s page_write \<Rightarrow> u8 list \<Rightarrow> nat \<Rightarrow> int \<Rightarrow> 's sio \<Rightarrow> 's sio run" where
  "sio_erase wr w r len st =
     (case st of (result, mcd, m, rb) \<Rightarrow>
        r_bind (Some (SioResponse mcd rb r len)) (\<lambda>rb'.
        r_bind (Some (GetInt (drop 2 w))) (\<lambda>page.
        r_bind (Some (MceEraseBlock wr mcd (word_of_int page) m)) (\<lambda>(res, m'). r_ret (res, mcd, m', rb')))))"

definition sio_spec :: "nat \<Rightarrow> 's sio \<Rightarrow> 's sio run" where
  "sio_spec r st =
     (case st of (result, mcd, m, rb) \<Rightarrow>
        r_bind (Some (mem_write rb r ([0xFF, 0xFF, ucast (flags mcd)] @ McSpec_bytes (cspec mcd)))) (\<lambda>rb1.
        r_bind (Some (CalculateEDC (drop (r + 3) rb1) 8)) (\<lambda>edc.
        r_bind (Some (mem_write rb1 (r + 11) [edc, tcode mcd])) (\<lambda>rb2. r_ret (1, mcd, m, rb2)))))"

definition sio_write :: "'s page_write \<Rightarrow> u8 list \<Rightarrow> nat \<Rightarrow> int \<Rightarrow> 's sio \<Rightarrow> 's sio run" where
  "sio_write wr w r len st =
     (case st of (result, mcd, m, rb) \<Rightarrow>
        r_bind (Some (SioResponse mcd rb r len)) (\<lambda>rb'.
          if result \<noteq> 0 then
            r_bind (Some (peek w 2)) (\<lambda>sz. r_bind (MceWrite wr mcd m (drop 3 w) (unat sz)) (\<lambda>(res, mcd', m'). r_ret (res, mcd', m', rb')))
          else r_ret (result, mcd, m, rb')))"

definition sio_read :: "'s page_read \<Rightarrow> u8 list \<Rightarrow> nat \<Rightarrow> 's sio \<Rightarrow> 's sio run" where
  "sio_read rd w r st =
     (case st of (result, mcd, m, rb) \<Rightarrow>
        r_bind (Some (peek w 2)) (\<lambda>len.
        r_bind (Some (SioResponse mcd rb r 5)) (\<lambda>rb1.
        r_bind (if result \<noteq> 0 then MceRead rd mcd m (unat len) else r_ret (result, mcd, m, [])) (\<lambda>(res, mcd', m', d).
        r_bind (Some (mem_write rb1 (r + 4) d)) (\<lambda>rb2.
        r_bind (Some (if res = 0 then mem_write rb2 (r + 4) (replicate (unat len) 0xFF) else Inr rb2)) (\<lambda>rb3.
        r_bind (Some (CalculateEDC (drop (r + 4) rb3) (unat len))) (\<lambda>edc.
        r_bind (Some (mem_write rb3 (r + unat len + 4) [edc, tcode mcd'])) (\<lambda>rb4. r_ret (res, mcd', m', rb4)))))))))"

text \<open>One command to a card that is there: the second byte says which; \<open>len\<close> comes from the control code.\<close>

definition sio_command :: "'s page_read \<Rightarrow> 's page_write \<Rightarrow> u8 list \<Rightarrow> nat \<Rightarrow> int \<Rightarrow> 's sio \<Rightarrow> 's sio run" where
  "sio_command rd wr w r len st =
     (case st of (result, mcd, m, rb) \<Rightarrow>
        r_bind (Some (peek w 1)) (\<lambda>c.
          if c = 0x12 then sio_answer 1 mcd m rb r len
          else if c = 0x21 then sio_erase wr w r len st
          else if c = 0x22 then
            r_bind (Some (GetInt (drop 2 w))) (\<lambda>page. sio_answer 1 (MceStartWrite mcd (word_of_int page)) m rb r len)
          else if c = 0x23 then
            r_bind (Some (GetInt (drop 2 w))) (\<lambda>page. sio_answer 1 (MceStartRead mcd (word_of_int page)) m rb r len)
          else if c = 0x26 then sio_spec r st
          else if c = 0x27 then r_bind (Some (peek w 2)) (\<lambda>t. sio_answer 1 (mcd\<lparr>tcode := t\<rparr>) m rb r len)
          else if c = 0x28 then
            r_bind (Some (SioResponse mcd rb r 4)) (\<lambda>rb1. r_bind (Some (mem_write rb1 (r + 4) [tcode mcd])) (\<lambda>rb2. r_ret (1, mcd, m, rb2)))
          else if c = 0x42 then sio_write wr w r len st
          else if c = 0x43 then sio_read rd w r st
          else if c \<in> {0x11, 0x81, 0x82, 0xBF, 0xF3} then sio_answer 1 mcd m rb r len
          else sio_answer 0 mcd m rb r len))"

definition sio_one :: "'s page_read \<Rightarrow> 's page_write \<Rightarrow> Sio2Packet \<Rightarrow> u32 \<Rightarrow> nat \<Rightarrow> nat \<Rightarrow> int \<Rightarrow> cards \<Rightarrow> 's mc_mem \<Rightarrow> u8 list \<Rightarrow> (int \<times> cards \<times> 's mc_mem \<times> u8 list) run" where
  "sio_one rd wr sd ctl wp rp result mc m rb =
     r_bind (Some (peek (wrmaddr sd) wp)) (\<lambda>c.
       if c = 0x81 then
         let mcd = get_card mc ctl; len = uint (drop_bit 18 ctl AND 0x1FF)
         in if mcnum mcd \<noteq> -1 then
              r_bind (sio_command rd wr (drop wp (wrmaddr sd)) rp len (result, mcd, m, rb)) (\<lambda>(res, mcd', m', rb'). r_ret (res, put_card mc ctl mcd', m', rb'))
            else r_bind (Some (mem_write rb rp (replicate (unat (rdwords sd * 4)) 0xFF))) (\<lambda>rb'. r_ret (0, mc, m, rb'))
       else r_ret (0, mc, m, rb))"

text \<open>\<open>n\<close> is \<open>0x10 - ddi\<close>.\<close>

fun sio_loop :: "'s page_read \<Rightarrow> 's page_write \<Rightarrow> Sio2Packet \<Rightarrow> nat \<Rightarrow> nat \<Rightarrow> nat \<Rightarrow> nat \<Rightarrow> int \<Rightarrow> cards \<Rightarrow> 's mc_mem \<Rightarrow> u8 list \<Rightarrow> (int \<times> nat \<times> cards \<times> 's mc_mem \<times> u8 list) run" where
  "sio_loop rd wr sd 0 ddi wp rp result mc m rb = r_ret (result, ddi, mc, m, rb)"
| "sio_loop rd wr sd (Suc n) ddi wp rp result mc m rb =
     (if ddi < unat (wrcount sd) then
        r_bind (Some (peek (ctrl sd) ddi)) (\<lambda>ctl.
          if ctl \<noteq> 0 then
            r_bind (sio_one rd wr sd ctl wp rp result mc m rb) (\<lambda>(result', mc', m', rb').
              sio_loop rd wr sd n (ddi + 1) (wp + unat (wrwords sd * 4)) (rp + unat (rdwords sd * 4)) result' mc' m' rb')
          else r_ret (result, ddi, mc, m, rb))
      else r_ret (result, ddi, mc, m, rb))"

definition Sio2McEmu :: "'s page_read \<Rightarrow> 's page_write \<Rightarrow> Sio2Packet \<Rightarrow> cards \<Rightarrow> 's mc_mem \<Rightarrow> (Sio2Packet \<times> cards \<times> 's mc_mem) run" where
  "Sio2McEmu rd wr sd mc m =
     r_bind (Some (peek (ctrl sd) 0)) (\<lambda>c0.
       if c0 AND 0xF0 = 0x70 then
         r_bind (sio_loop rd wr sd 0x10 0 0 0 1 mc m (rdmaddr sd)) (\<lambda>(result, ddi, mc', m', rb).
           r_ret (sd\<lparr>rdmaddr := rb, iostatus := (if result \<noteq> 0 then 0x1000 else 0x1D000) OR push_bit 8 (of_nat ddi AND 0xF)\<rparr>, mc', m'))
       else r_ret (sd\<lparr>iostatus := 0x1D100\<rparr>, mc, m))"

text \<open>\<open>hookSio2man\<close>: whether the packet is answered here or passed on to the driver of the console.\<close>

definition hookSio2man :: "cards \<Rightarrow> Sio2Packet \<Rightarrow> bool cres" where
  "hookSio2man mc sd =
     c_bind (peek (ctrl sd) 0) (\<lambda>c0.
       if mcnum (get_card mc c0) \<noteq> -1 then
         c_bind (if c0 AND 0xF0 = 0x70 then peek (wrmaddr sd) 0 else if c0 AND 0xF0 = 0x40 then peek (pwr_buf sd) 0 else Inr 0) (\<lambda>c. Inr (c = 0x81))
       else Inr False)"

section \<open>No command makes the handler leave its buffers\<close>

lemma mem_write_len: "p + length bs \<le> length m \<Longrightarrow> \<exists>m'. mem_write m p bs = Inr m' \<and> length m' = length m"
  using mem_write_Inr [of p bs m] by blast

text \<open>A card between two commands.\<close>

definition card_typed :: "MemoryCard \<Rightarrow> bool" where
  "card_typed mcd \<longleftrightarrow> card_ok mcd \<and> rdoff mcd < 512 \<and> wroff mcd < 512"

definition cards_typed :: "cards \<Rightarrow> bool" where
  "cards_typed mc \<longleftrightarrow> (\<forall>mcd \<in> {fst mc, snd mc}. mcnum mcd = -1 \<or> card_typed mcd)"

text \<open>Each command and each answer of the packet has room: 3 and 255 bytes, and the 511 a control code can ask for.\<close>

definition sio_room :: "Sio2Packet \<Rightarrow> nat \<Rightarrow> bool" where
  "sio_room sd n \<longleftrightarrow> length (ctrl sd) = 16 \<and>
     (\<forall>i < min 16 (unat (wrcount sd)). i * unat (wrwords sd * 4) + 258 \<le> length (wrmaddr sd) \<and>
        i * unat (rdwords sd * 4) + max 511 (unat (rdwords sd * 4)) \<le> n)"

text \<open>All that the storage has to do is to return and to fill the buffer, whether or not it succeeds.\<close>

locale page_io =
  fixes rd :: "'s page_read" and wr :: "'s page_write" and vol :: bool
  assumes rd_total: "vol \<Longrightarrow> length buf = 512 \<Longrightarrow> c \<in> {0, 1} \<Longrightarrow> \<exists>r buf' s'. rd s c buf p = Inr (r, buf', s') \<and> length buf' = 512"
    and wr_total: "vol \<Longrightarrow> length buf = 512 \<Longrightarrow> c \<in> {0, 1} \<Longrightarrow> \<exists>r s'. wr s c buf p = Inr (r, s')"
begin

lemma do_read_total:
  assumes c: "card_ok mcd" and b: "bufs_ok m" and k: vol
  shows "\<exists>r m'. do_read rd mcd m = Inr (r, m') \<and> bufs_ok m'"
proof -
  obtain m1 where m1: "set_cbuf mcd 0 (replicate 0x10 (ecc_fill (flags mcd))) m = Inr m1" "bufs_ok m1"
      "take 16 (cbuf mcd m1) = replicate 16 (ecc_fill (flags mcd))"
    using set_cbuf_ok [OF c b, of 0 "replicate 16 (ecc_fill (flags mcd))"] by auto
  obtain r d s' where s': "rd (drive m1) (mcnum mcd) (mcdatabuf m1) (rpage mcd) = Inr (r, d, s')" "length d = 512"
    using rd_total [OF k, of "mcdatabuf m1" "mcnum mcd" "drive m1" "rpage mcd"] c m1(2) unfolding card_ok_def bufs_ok_def by blast
  define m2 where "m2 = m1\<lparr>mcdatabuf := d, drive := s'\<rparr>"
  have ok2: "bufs_ok m2" using m1(2) s'(2) by (simp add: bufs_ok_def m2_def)
  obtain m3 where "ecc_pages mcd 0 0 m2 = Inr m3" "bufs_ok m3" using ecc_pages_ok [OF c ok2, of "flags mcd"] m1(3) by (auto simp: m2_def)
  then have "do_read rd mcd m = Inr (if r = 0 then (0, m2) else (1, m3))"
    using m1(1) s'(1) by (simp add: do_read_def ecc_fill_def m2_def)
  then show ?thesis using ok2 \<open>bufs_ok m3\<close> by auto
qed

lemma read_data_total:
  assumes c: "card_ok mcd" and b: "bufs_ok m" and k: vol and o: "rdoff mcd < 512"
  shows "\<exists>r m' d n. read_data rd mcd m sz = Inr (r, if r = 0 then mcd else mcd\<lparr>rdoff := rdoff mcd + n, rcoff := rcoff mcd + 3\<rparr>, m', d, n) \<and>
    bufs_ok m' \<and> length d \<le> sz \<and> (r \<noteq> 0 \<longrightarrow> n = min sz (512 - rdoff mcd) \<and> length d = n)"
proof -
  obtain r m' where r: "(if rdoff mcd = 0 then do_read rd mcd m else Inr (1, m)) = Inr (r, m')" "bufs_ok m'"
    using do_read_total [OF c b k] b by (cases "rdoff mcd = 0") auto
  have pb: "page_bytes mcd = 512" using c by (simp add: card_ok_def)
  have n: "(if sz + rdoff mcd > 512 then 512 - rdoff mcd else sz) = min sz (512 - rdoff mcd)" "rdoff mcd + min sz (512 - rdoff mcd) \<le> 512" using o by auto
  show ?thesis
  proof (cases "r = 0")
    case True
    then have "read_data rd mcd m sz = Inr (0, mcd, m', [], sz)" unfolding read_data_def pb using o r(1) by simp
    then show ?thesis using r(2) by (intro exI [of _ 0] exI [of _ m']) auto
  next
    case False
    let ?d = "take (min sz (512 - rdoff mcd)) (drop (rdoff mcd) (mcdatabuf m'))"
    have l: "length (mcdatabuf m') = 512" using r(2) by (simp add: bufs_ok_def)
    have "read_data rd mcd m sz = Inr (1, mcd\<lparr>rdoff := rdoff mcd + min sz (512 - rdoff mcd), rcoff := rcoff mcd + 3\<rparr>, m', ?d, min sz (512 - rdoff mcd))"
      unfolding read_data_def pb n(1) Let_def using o r(1) False l n(2) by (simp add: n(1) mem_read_def)
    moreover have "length ?d = min sz (512 - rdoff mcd)" using l by simp
    ultimately show ?thesis using r(2) by (intro exI [of _ 1] exI [of _ m']) auto
  qed
qed

text \<open>At most one page can end within a call.\<close>

lemma MceRead_short:
  assumes c: "card_typed mcd" and b: "bufs_ok m" and k: vol and sz: "rdoff mcd + sz < 512"
  shows "\<exists>r mcd' m' d. MceRead_loop rd tot sz mcd m out = r_ret (r, mcd', m', out @ d) \<and> bufs_ok m' \<and> card_typed mcd' \<and> mcnum mcd' = mcnum mcd \<and> length d \<le> sz"
proof -
  let ?c = "ecc_count (rcoff mcd) (rdoff mcd) sz" and ?mcd = "mcd\<lparr>rcoff := ecc_left (rcoff mcd) (rdoff mcd) sz\<rparr>"
  have cs: "?c \<le> sz" "?c \<le> 16" by (auto simp: ecc_count_def)
  have ok: "card_ok ?mcd" "rdoff ?mcd < 512" using c by (simp_all add: card_typed_def card_ok_def)
  have "nat (mcnum mcd) < length (mceccbuf m)" "length (cbuf mcd m) = 32" using b c nth_mem by (auto simp: bufs_ok_def card_ok_def card_typed_def)
  then have "\<exists>e. (if ?c = 0 then Inr [] else c_bind (peek (mceccbuf m) (nat (mcnum mcd))) (\<lambda>b. mem_read b 0 ?c)) = Inr e \<and> length e = ?c"
    using cs by auto
  then obtain e where e: "(if ?c = 0 then Inr [] else c_bind (peek (mceccbuf m) (nat (mcnum mcd))) (\<lambda>b. mem_read b 0 ?c)) = Inr e" "length e = ?c" by blast
  obtain r m' d n where d: "read_data rd ?mcd m (sz - ?c) = Inr (r, if r = 0 then ?mcd else ?mcd\<lparr>rdoff := rdoff mcd + n, rcoff := rcoff ?mcd + 3\<rparr>, m', d, n)"
      "bufs_ok m'" "length d \<le> sz - ?c" "r \<noteq> 0 \<longrightarrow> n = min (sz - ?c) (512 - rdoff mcd)"
    using read_data_total [OF ok(1) b k ok(2), of "sz - ?c"] by auto
  have pb: "page_bytes mcd = 512" using c by (simp add: card_typed_def card_ok_def)
  show ?thesis
  proof (cases "rcoff mcd \<noteq> 0 \<and> rdoff mcd = 0 \<and> sz - ?c = 0")
    case True
    then have "MceRead_loop rd tot sz mcd m out = r_ret (1, ?mcd, m, out @ e)"
      unfolding MceRead_loop.simps [of rd tot sz mcd m out] Let_def e(1) c_bind_Inr if_P [OF True] by simp
    then show ?thesis using b c e(2) cs by (auto simp: card_typed_def card_ok_def)
  next
    case False
    let ?mcd' = "if r = 0 then ?mcd else ?mcd\<lparr>rdoff := rdoff mcd + n, rcoff := rcoff ?mcd + 3\<rparr>"
    have "r \<noteq> 0 \<Longrightarrow> rdoff mcd + n < 512" using d(4) sz by simp
    then have "MceRead_loop rd tot sz mcd m out = r_ret (if r = 0 then 0 else 1, ?mcd', m', out @ e @ d)"
      unfolding MceRead_loop.simps [of rd tot sz mcd m out] Let_def e(1) c_bind_Inr if_not_P [OF False] d(1) using pb by auto
    moreover have "card_typed ?mcd'" "mcnum ?mcd' = mcnum mcd" using c \<open>r \<noteq> 0 \<Longrightarrow> rdoff mcd + n < 512\<close> by (auto simp: card_typed_def card_ok_def)
    moreover have "length (e @ d) \<le> sz" using d(3) e(2) cs by simp
    ultimately show ?thesis using d(2) by blast
  qed
qed

lemma MceRead_total:
  assumes c: "card_typed mcd" and b: "bufs_ok m" and k: vol and sz: "sz \<le> 255"
  shows "\<exists>r mcd' m' d. MceRead rd mcd m sz = r_ret (r, mcd', m', d) \<and> bufs_ok m' \<and> card_typed mcd' \<and> mcnum mcd' = mcnum mcd \<and> length d \<le> sz"
proof (cases "rdoff mcd + sz < 512")
  case True
  then show ?thesis using MceRead_short [OF c b k, of sz sz "[]"] by (simp add: MceRead_def)
next
  case False
  then have o: "rdoff mcd \<noteq> 0" "rdoff mcd < 512" and pb: "page_bytes mcd = 512" and ok: "card_ok mcd" using c sz by (auto simp: card_typed_def card_ok_def)
  have e: "ecc_count (rcoff mcd) (rdoff mcd) sz = 0" "ecc_left (rcoff mcd) (rdoff mcd) sz = rcoff mcd" using o(1) by (simp_all add: ecc_count_def ecc_left_def)
  have "min sz (512 - rdoff mcd) = 512 - rdoff mcd" using False by simp
  with read_data_total [OF ok b k o(2), of sz] obtain r m' d n where
    d: "read_data rd mcd m sz = Inr (r, if r = 0 then mcd else mcd\<lparr>rdoff := rdoff mcd + n, rcoff := rcoff mcd + 3\<rparr>, m', d, n)"
      "bufs_ok m'" "length d \<le> sz" "r \<noteq> 0 \<longrightarrow> n = 512 - rdoff mcd \<and> length d = n" by auto
  let ?mcd = "mcd\<lparr>rcoff := rcoff mcd + 3, rpage := rpage mcd + 1, rdoff := 0\<rparr>"
  have t: "card_typed ?mcd" using c by (simp add: card_typed_def card_ok_def)
  show ?thesis
  proof (cases "r = 0")
    case True
    then have "MceRead rd mcd m sz = r_ret (0, mcd, m', d)"
      unfolding MceRead_def by (subst MceRead_loop.simps) (use d(1) e o in simp)
    then show ?thesis using d(2,3) c by auto
  next
    case False
    then have n: "rdoff mcd + n = 512" "length d = n" "n \<le> sz" using d(3,4) o by auto
    have step: "MceRead rd mcd m sz = (if sz - n > 0 then MceRead_loop rd sz (sz - n) ?mcd m' d else r_ret (1, ?mcd, m', d))"
      unfolding MceRead_def by (subst MceRead_loop.simps) (use d(1) e o n False pb in \<open>simp add: Let_def\<close>)
    have short: "rdoff ?mcd + (sz - n) < 512" using sz by simp
    obtain r2 mcd2 m2 d2 where "MceRead_loop rd sz (sz - n) ?mcd m' d = r_ret (r2, mcd2, m2, d @ d2)" "bufs_ok m2" "card_typed mcd2" "mcnum mcd2 = mcnum mcd" "length d2 \<le> sz - n"
      using MceRead_short [OF t d(2) k short, of sz d] by auto
    then show ?thesis using step t d(2) n by auto
  qed
qed

lemma write_data_total:
  assumes c: "card_ok mcd" and b: "bufs_ok m" and o: "wroff mcd < 512" and q: "q + sz \<le> length buf"
  shows "\<exists>d. write_data mcd m buf q sz =
      Inr (mcd\<lparr>wroff := wroff mcd + min sz (512 - wroff mcd), wcoff := wcoff mcd + 3\<rparr>, m\<lparr>mcdatabuf := d\<rparr>, min sz (512 - wroff mcd)) \<and>
    bufs_ok (m\<lparr>mcdatabuf := d\<rparr>)"
proof -
  let ?n = "min sz (512 - wroff mcd)"
  have st: "length (mcdatabuf m) = 512" "page_bytes mcd = 512" using b c by (simp_all add: bufs_ok_def card_ok_def)
  have n: "(if sz + wroff mcd > 512 then 512 - wroff mcd else sz) = ?n" "wroff mcd + ?n \<le> 512" "q + ?n \<le> length buf" using o q by auto
  have l: "length (take ?n (drop q buf)) = ?n" using n(3) by simp
  then obtain d where "mem_write (mcdatabuf m) (wroff mcd) (take ?n (drop q buf)) = Inr d" "length d = 512"
    using mem_write_Inr [of "wroff mcd" "take ?n (drop q buf)" "mcdatabuf m"] n(2) st(1) unfolding l by auto
  then have "write_data mcd m buf q sz = Inr (mcd\<lparr>wroff := wroff mcd + ?n, wcoff := wcoff mcd + 3\<rparr>, m\<lparr>mcdatabuf := d\<rparr>, ?n)" "bufs_ok (m\<lparr>mcdatabuf := d\<rparr>)"
    unfolding write_data_def st(2) n(1) Let_def mem_read_Inr [OF n(3)] using o b by (simp_all add: bufs_ok_def)
  then show ?thesis by blast
qed

lemma MceWrite_short:
  assumes c: "card_typed mcd" and b: "bufs_ok m" and k: vol and sz: "wroff mcd + sz < 512" and q: "q + sz \<le> length buf"
  shows "\<exists>r mcd' m'. MceWrite_loop wr buf tot sz mcd m q = r_ret (r, mcd', m') \<and> bufs_ok m' \<and> card_typed mcd' \<and> mcnum mcd' = mcnum mcd"
proof -
  let ?c = "ecc_count (wcoff mcd) (wroff mcd) sz" and ?mcd = "mcd\<lparr>wcoff := ecc_left (wcoff mcd) (wroff mcd) sz\<rparr>"
  have cs: "?c \<le> sz" by (auto simp: ecc_count_def)
  have ok: "card_ok ?mcd" "wroff ?mcd < 512" and pb: "page_bytes mcd = 512" and mn: "min (sz - ?c) (512 - wroff mcd) = sz - ?c"
    using c sz by (simp_all add: card_typed_def card_ok_def)
  have "q + ?c + (sz - ?c) \<le> length buf" using q cs by simp
  from write_data_total [OF ok(1) b ok(2) this] mn obtain d where
    d: "write_data ?mcd m buf (q + ?c) (sz - ?c) = Inr (?mcd\<lparr>wroff := wroff mcd + (sz - ?c), wcoff := wcoff ?mcd + 3\<rparr>, m\<lparr>mcdatabuf := d\<rparr>, sz - ?c)"
      "bufs_ok (m\<lparr>mcdatabuf := d\<rparr>)" by auto
  have ne: "wroff mcd + (sz - ?c) \<noteq> 512" "wroff mcd + (sz - ?c) < 512" using sz by simp_all
  have "MceWrite_loop wr buf tot sz mcd m q =
    (if wcoff mcd \<noteq> 0 \<and> wroff mcd = 0 \<and> sz - ?c = 0 then r_ret (1, ?mcd, m)
     else r_ret (1, ?mcd\<lparr>wroff := wroff mcd + (sz - ?c), wcoff := wcoff ?mcd + 3\<rparr>, m\<lparr>mcdatabuf := d\<rparr>))"
    unfolding MceWrite_loop.simps [of wr buf tot sz mcd m q] Let_def d(1) by (intro if_cong refl) (use ne(1) pb in simp)
  then show ?thesis using b d(2) c ne(2) by (auto simp: card_typed_def card_ok_def)
qed

lemma MceWrite_total:
  assumes c: "card_typed mcd" and b: "bufs_ok m" and k: vol and sz: "sz \<le> 255" "sz \<le> length buf"
  shows "\<exists>r mcd' m'. MceWrite wr mcd m buf sz = r_ret (r, mcd', m') \<and> bufs_ok m' \<and> card_typed mcd' \<and> mcnum mcd' = mcnum mcd"
proof (cases "wroff mcd + sz < 512")
  case True
  then show ?thesis using MceWrite_short [OF c b k, of sz 0 buf sz] sz by (simp add: MceWrite_def)
next
  case False
  let ?n = "512 - wroff mcd"
  have o: "wroff mcd \<noteq> 0" "wroff mcd < 512" and pb: "page_bytes mcd = 512" and ok: "card_ok mcd" and mn: "min sz ?n = ?n" "wroff mcd + ?n = 512" "?n \<le> sz"
    using c sz False by (auto simp: card_typed_def card_ok_def)
  have e: "ecc_count (wcoff mcd) (wroff mcd) sz = 0" "ecc_left (wcoff mcd) (wroff mcd) sz = wcoff mcd" using o(1) by (simp_all add: ecc_count_def ecc_left_def)
  from write_data_total [OF ok b o(2), of 0 sz buf] sz(2) obtain d where
    d: "write_data mcd m buf 0 sz = Inr (mcd\<lparr>wroff := 512, wcoff := wcoff mcd + 3\<rparr>, m\<lparr>mcdatabuf := d\<rparr>, ?n)" "bufs_ok (m\<lparr>mcdatabuf := d\<rparr>)"
    unfolding mn by auto
  have "length d = 512" "mcnum mcd \<in> {0, 1}" using d(2) ok by (simp_all add: bufs_ok_def card_ok_def)
  then obtain r s' where w: "wr (drive m) (mcnum mcd) d (wpage mcd) = Inr (r, s')" using wr_total k by blast
  let ?m = "m\<lparr>mcdatabuf := d, drive := s'\<rparr>" and ?mcd = "mcd\<lparr>wcoff := wcoff mcd + 3, wroff := 0\<rparr>"
  let ?mcd' = "?mcd\<lparr>wpage := wpage mcd + 1\<rparr>"
  have step: "MceWrite wr mcd m buf sz = (if r = 0 then r_ret (0, ?mcd, ?m) else if sz - ?n > 0 then MceWrite_loop wr buf sz (sz - ?n) ?mcd' ?m ?n else r_ret (1, ?mcd', ?m))"
    unfolding MceWrite_def MceWrite_loop.simps [of wr buf sz sz mcd m 0] Let_def e using d(1) w pb o by simp
  have t: "card_typed ?mcd" "card_typed ?mcd'" "bufs_ok ?m" using c d(2) by (simp_all add: card_typed_def card_ok_def bufs_ok_def)
  have "\<exists>r mcd' m'. MceWrite_loop wr buf sz (sz - ?n) ?mcd' ?m ?n = r_ret (r, mcd', m') \<and> bufs_ok m' \<and> card_typed mcd' \<and> mcnum mcd' = mcnum mcd"
    using MceWrite_short [OF t(2,3) k, of "sz - ?n" ?n buf sz] sz mn(3) by simp
  then show ?thesis using step t by auto
qed

lemma erase_pages_total:
  assumes "card_ok mcd" "bufs_ok m" and k: vol
  shows "\<exists>r m'. erase_pages wr mcd page i n m = Inr (r, m') \<and> bufs_ok m'"
  using assms(2)
proof (induction n arbitrary: i m)
  case (Suc n)
  then have "length (mcdatabuf m) = 512" "mcnum mcd \<in> {0, 1}" using assms(1) by (simp_all add: bufs_ok_def card_ok_def)
  then obtain r s' where "wr (drive m) (mcnum mcd) (mcdatabuf m) (page + of_nat i) = Inr (r, s')" using wr_total k by blast
  moreover have "bufs_ok (m\<lparr>drive := s'\<rparr>)" using Suc.prems by (simp add: bufs_ok_def)
  ultimately show ?case using Suc.IH [of "m\<lparr>drive := s'\<rparr>" "i + 1"] by (auto simp: Let_def)
qed simp

lemma MceEraseBlock_total:
  assumes "card_ok mcd" "bufs_ok m" and k: vol
  shows "\<exists>r m'. MceEraseBlock wr mcd page m = Inr (r, m') \<and> bufs_ok m'"
proof -
  let ?z = "replicate 512 (if flags mcd AND 0x10 \<noteq> 0 then 0 else 0xFF) :: u8 list"
  have "bufs_ok (m\<lparr>mcdatabuf := ?z\<rparr>)" "page_bytes mcd = 512" "mem_write (mcdatabuf m) 0 ?z = Inr ?z" using assms by (simp_all add: bufs_ok_def card_ok_def mem_write_def)
  then show ?thesis using erase_pages_total [OF assms(1) _ k] by (simp add: MceEraseBlock_def)
qed

lemma SioResponse_total:
  assumes "r + 511 \<le> length rb" "len \<le> 511"
  shows "\<exists>rb'. SioResponse mcd rb r len = Inr rb' \<and> length rb' = length rb"
  using assms mem_write_len [of r "replicate (nat (len - 2)) 0xFF @ [0x2B, tcode mcd]" rb] by (auto simp: SioResponse_def)

lemma sio_answer_total:
  assumes "card_typed mcd" "bufs_ok m" "r + 511 \<le> length rb" "len \<le> 511"
  shows "\<exists>rb'. sio_answer res mcd m rb r len = r_ret (res, mcd, m, rb') \<and> length rb' = length rb"
  using SioResponse_total [OF assms(3,4), of mcd] by (auto simp: sio_answer_def)

text \<open>The state after a command.\<close>

definition sio_after :: "MemoryCard \<Rightarrow> u8 list \<Rightarrow> 's sio run \<Rightarrow> bool" where
  "sio_after mcd rb x \<longleftrightarrow> (\<exists>res mcd' m' rb'. x = r_ret (res, mcd', m', rb') \<and> card_typed mcd' \<and> mcnum mcd' = mcnum mcd \<and> bufs_ok m' \<and> length rb' = length rb)"

lemma sio_read_total:
  assumes c: "card_typed mcd" and b: "bufs_ok m" and k: vol and r: "r + 511 \<le> length rb" and w: "258 \<le> length w"
  shows "sio_after mcd rb (sio_read rd w r (result, mcd, m, rb))"
proof -
  let ?l = "unat (w ! 2)"
  have l: "?l \<le> 255" using unsigned_less [of "w ! 2", where 'a = nat] by simp
  obtain rb1 where 1: "SioResponse mcd rb r 5 = Inr rb1" "length rb1 = length rb" using SioResponse_total [OF r, of 5 mcd] by auto
  have "\<exists>res mcd' m' d. (if result \<noteq> 0 then MceRead rd mcd m ?l else r_ret (result, mcd, m, [])) = r_ret (res, mcd', m', d) \<and>
      bufs_ok m' \<and> card_typed mcd' \<and> mcnum mcd' = mcnum mcd \<and> length d \<le> ?l"
    using MceRead_total [OF c b k l] c b by (cases "result = 0") auto
  then obtain res mcd' m' d where 2: "(if result \<noteq> 0 then MceRead rd mcd m ?l else r_ret (result, mcd, m, [])) = r_ret (res, mcd', m', d)"
    "bufs_ok m'" "card_typed mcd'" "mcnum mcd' = mcnum mcd" "length d \<le> ?l" by blast
  obtain rb2 where 3: "mem_write rb1 (r + 4) d = Inr rb2" "length rb2 = length rb" using mem_write_len [of "r + 4" d rb1] 1(2) 2(5) r l by auto
  obtain rb3 where 4: "(if res = 0 then mem_write rb2 (r + 4) (replicate ?l 0xFF) else Inr rb2) = Inr rb3" "length rb3 = length rb"
    using mem_write_len [of "r + 4" "replicate ?l 0xFF" rb2] 3(2) r l by (cases "res = 0") auto
  obtain edc where 5: "CalculateEDC (drop (r + 4) rb3) ?l = Inr edc" using 4(2) r l by (simp add: CalculateEDC_def)
  obtain rb4 where 6: "mem_write rb3 (r + ?l + 4) [edc, tcode mcd'] = Inr rb4" "length rb4 = length rb"
    using mem_write_len [of "r + ?l + 4" "[edc, tcode mcd']" rb3] 4(2) r l by auto
  have "sio_read rd w r (result, mcd, m, rb) = r_ret (res, mcd', m', rb4)"
    using w unfolding sio_read_def by (simp add: 1 2(1) 3(1) 4(1) 5 6(1) del: if_split)
  then show ?thesis using 2 6(2) by (simp add: sio_after_def)
qed

lemma sio_write_total:
  assumes c: "card_typed mcd" and b: "bufs_ok m" and k: vol and r: "r + 511 \<le> length rb" and w: "258 \<le> length w" and len: "len \<le> 511"
  shows "sio_after mcd rb (sio_write wr w r len (result, mcd, m, rb))"
proof -
  let ?l = "unat (w ! 2)"
  have l: "?l \<le> 255" using unsigned_less [of "w ! 2", where 'a = nat] by simp
  then have "?l \<le> length (drop 3 w)" using w by simp
  then obtain res mcd' m' where "MceWrite wr mcd m (drop 3 w) ?l = r_ret (res, mcd', m')" "bufs_ok m'" "card_typed mcd'" "mcnum mcd' = mcnum mcd"
    using MceWrite_total [OF c b k l] by blast
  moreover obtain rb1 where "SioResponse mcd rb r len = Inr rb1" "length rb1 = length rb" using SioResponse_total [OF r len] by auto
  ultimately show ?thesis using w c b by (simp add: sio_write_def sio_after_def)
qed

lemma sio_erase_total:
  assumes c: "card_typed mcd" and b: "bufs_ok m" and k: vol and r: "r + 511 \<le> length rb" and w: "258 \<le> length w" and len: "len \<le> 511"
  shows "sio_after mcd rb (sio_erase wr w r len (result, mcd, m, rb))"
proof -
  have "card_ok mcd" using c by (simp add: card_typed_def)
  obtain page where page: "GetInt (drop 2 w) = Inr page" using w by (simp add: GetInt_def)
  obtain res m' where "MceEraseBlock wr mcd (word_of_int page) m = Inr (res, m')" "bufs_ok m'" using MceEraseBlock_total [OF \<open>card_ok mcd\<close> b k] by blast
  moreover obtain rb1 where "SioResponse mcd rb r len = Inr rb1" "length rb1 = length rb" using SioResponse_total [OF r len] by auto
  ultimately show ?thesis using page c by (simp add: sio_erase_def sio_after_def)
qed

lemma sio_spec_total:
  assumes c: "card_typed mcd" and b: "bufs_ok m" and r: "r + 511 \<le> length rb"
  shows "sio_after mcd rb (sio_spec r (result, mcd, m, rb))"
proof -
  obtain rb1 where 1: "mem_write rb r ([0xFF, 0xFF, ucast (flags mcd)] @ McSpec_bytes (cspec mcd)) = Inr rb1" "length rb1 = length rb"
    using mem_write_len [of r "[0xFF, 0xFF, ucast (flags mcd)] @ McSpec_bytes (cspec mcd)" rb] r by (auto simp: McSpec_bytes_def)
  obtain edc where 2: "CalculateEDC (drop (r + 3) rb1) 8 = Inr edc" using 1(2) r by (simp add: CalculateEDC_def)
  obtain rb2 where 3: "mem_write rb1 (r + 11) [edc, tcode mcd] = Inr rb2" "length rb2 = length rb" using mem_write_len [of "r + 11" "[edc, tcode mcd]" rb1] 1(2) r by auto
  show ?thesis using c b 3(2) by (simp add: sio_spec_def sio_after_def 1(1) [simplified] 2 3(1))
qed

lemma sio_command_total:
  assumes c: "card_typed mcd" and b: "bufs_ok m" and k: vol and r: "r + 511 \<le> length rb" and w: "258 \<le> length w" and len: "len \<le> 511"
  shows "sio_after mcd rb (sio_command rd wr w r len (result, mcd, m, rb))"
proof -
  have ans: "sio_after mcd rb (sio_answer res mcd' m rb r len)" if "card_typed mcd'" "mcnum mcd' = mcnum mcd" for res mcd'
    using sio_answer_total [OF that(1) b r len, of res] that b unfolding sio_after_def by blast
  have start: "card_typed (MceStartWrite mcd p)" "card_typed (MceStartRead mcd p)" "card_typed (mcd\<lparr>tcode := t\<rparr>)"
    "mcnum (MceStartWrite mcd p) = mcnum mcd" "mcnum (MceStartRead mcd p) = mcnum mcd" for p t
    using c by (simp_all add: card_typed_def card_ok_def MceStartWrite_def MceStartRead_def)
  have gi: "GetInt (drop 2 w) \<in> range Inr" using w by (simp add: GetInt_def)
  have probe: "sio_after mcd rb (r_bind (Some (SioResponse mcd rb r 4)) (\<lambda>rb1. r_bind (Some (mem_write rb1 (r + 4) [tcode mcd])) (\<lambda>rb2. r_ret (1, mcd, m, rb2))))"
  proof -
    obtain rb1 where 1: "SioResponse mcd rb r 4 = Inr rb1" "length rb1 = length rb" using SioResponse_total [OF r, of 4 mcd] by auto
    then obtain rb2 where "mem_write rb1 (r + 4) [tcode mcd] = Inr rb2" "length rb2 = length rb" using mem_write_len [of "r + 4" "[tcode mcd]" rb1] r by auto
    then show ?thesis using 1 c b by (simp add: sio_after_def)
  qed
  have ok: "peek w 1 = Inr (w ! 1)" "peek w 2 = Inr (w ! 2)" using w by simp_all
  show ?thesis
    unfolding sio_command_def prod.case ok r_bind_simps
    using sio_read_total [OF c b k r w] sio_write_total [OF c b k r w len] sio_erase_total [OF c b k r w len] sio_spec_total [OF c b r] probe ans c start gi
    by (auto simp del: insert_iff)
qed

lemma sio_one_total:
  assumes c: "cards_typed mc" and b: "bufs_ok m" and k: vol
    and w: "wp + 258 \<le> length (wrmaddr sd)" and r: "rp + max 511 (unat (rdwords sd * 4)) \<le> length rb"
  shows "\<exists>res mc' m' rb'. sio_one rd wr sd ctl wp rp result mc m rb = r_ret (res, mc', m', rb') \<and>
    cards_typed mc' \<and> mcnum (fst mc') = mcnum (fst mc) \<and> mcnum (snd mc') = mcnum (snd mc) \<and> bufs_ok m' \<and> length rb' = length rb"
proof -
  let ?mcd = "get_card mc ctl" and ?len = "uint (drop_bit 18 ctl AND 0x1FF)"
  have pk: "peek (wrmaddr sd) wp = Inr (wrmaddr sd ! wp)" using w by simp
  have "drop_bit 18 ctl AND 0x1FF \<le> (0x1FF :: u32)" by (rule word_and_le1)
  then have len: "?len \<le> 511" by (simp add: word_le_def)
  obtain rb0 where rb0: "mem_write rb rp (replicate (unat (rdwords sd * 4)) 0xFF) = Inr rb0" "length rb0 = length rb"
    using mem_write_len [of rp "replicate (unat (rdwords sd * 4)) 0xFF" rb] r unfolding length_replicate by (meson add_left_mono max.cobounded2 order_trans)
  show ?thesis
  proof (cases "wrmaddr sd ! wp = 0x81 \<and> mcnum ?mcd \<noteq> -1")
    case True
    then have "card_typed ?mcd" using c by (auto simp: cards_typed_def get_card_def split: if_splits)
    moreover have "rp + 511 \<le> length rb" "258 \<le> length (drop wp (wrmaddr sd))" using r w by simp_all
    ultimately obtain res mcd' m' rb' where st: "sio_command rd wr (drop wp (wrmaddr sd)) rp ?len (result, ?mcd, m, rb) = r_ret (res, mcd', m', rb')"
      "card_typed mcd'" "mcnum mcd' = mcnum ?mcd" "bufs_ok m'" "length rb' = length rb"
      using sio_command_total [OF _ b k _ _ len] unfolding sio_after_def by metis
    have "cards_typed (put_card mc ctl mcd')" "mcnum (fst (put_card mc ctl mcd')) = mcnum (fst mc)" "mcnum (snd (put_card mc ctl mcd')) = mcnum (snd mc)"
      using c st(2,3) by (auto simp: cards_typed_def put_card_def get_card_def)
    moreover have "sio_one rd wr sd ctl wp rp result mc m rb = r_ret (res, put_card mc ctl mcd', m', rb')"
      using True st(1) by (simp add: sio_one_def pk)
    ultimately show ?thesis using st(4,5) by blast
  next
    case False
    then show ?thesis using c b rb0 by (cases mc) (auto simp: sio_one_def pk Let_def)
  qed
qed

lemma sio_loop_total:
  assumes "cards_typed mc" "bufs_ok m" "n + ddi = 16" "sio_room sd (length rb)" and k: vol
  shows "\<exists>res ddi' mc' m' rb'. sio_loop rd wr sd n ddi (ddi * unat (wrwords sd * 4)) (ddi * unat (rdwords sd * 4)) result mc m rb = r_ret (res, ddi', mc', m', rb') \<and>
    cards_typed mc' \<and> mcnum (fst mc') = mcnum (fst mc) \<and> mcnum (snd mc') = mcnum (snd mc) \<and> bufs_ok m' \<and> length rb' = length rb"
  using assms(1-4)
proof (induction n arbitrary: ddi result mc m rb)
  case (Suc n)
  show ?case
  proof (cases "ddi < unat (wrcount sd) \<and> ctrl sd ! ddi \<noteq> 0")
    case True
    have len: "length (ctrl sd) = 16" "ddi < 16" using Suc.prems(3,4) by (simp_all add: sio_room_def)
    have "ddi * unat (wrwords sd * 4) + 258 \<le> length (wrmaddr sd)" "ddi * unat (rdwords sd * 4) + max 511 (unat (rdwords sd * 4)) \<le> length rb"
      using Suc.prems(4) True len(2) unfolding sio_room_def by (auto simp only: min_less_iff_conj)
    from sio_one_total [OF Suc.prems(1,2) k this, of "ctrl sd ! ddi" result] obtain res mc' m' rb' where
      1: "sio_one rd wr sd (ctrl sd ! ddi) (ddi * unat (wrwords sd * 4)) (ddi * unat (rdwords sd * 4)) result mc m rb = r_ret (res, mc', m', rb')"
        "cards_typed mc'" "mcnum (fst mc') = mcnum (fst mc)" "mcnum (snd mc') = mcnum (snd mc)" "bufs_ok m'" "length rb' = length rb" by blast
    have "n + (ddi + 1) = 16" "sio_room sd (length rb')" using Suc.prems(3,4) 1(6) by simp_all
    from Suc.IH [OF 1(2,5) this, of res] show ?thesis using 1 True len by (simp add: algebra_simps)
  next
    case False
    have "length (ctrl sd) = 16" "ddi < 16" using Suc.prems(3,4) by (simp_all add: sio_room_def)
    then show ?thesis using False Suc.prems(1,2) by (cases "ddi < unat (wrcount sd)") simp_all
  qed
qed simp

lemma Sio2McEmu_total:
  assumes "cards_typed mc" "bufs_ok m" "sio_room sd (length (rdmaddr sd))" vol
  shows "\<exists>sd' mc' m'. Sio2McEmu rd wr sd mc m = r_ret (sd', mc', m') \<and> length (rdmaddr sd') = length (rdmaddr sd) \<and>
    cards_typed mc' \<and> mcnum (fst mc') = mcnum (fst mc) \<and> mcnum (snd mc') = mcnum (snd mc) \<and> bufs_ok m'"
proof -
  have "peek (ctrl sd) 0 = Inr (ctrl sd ! 0)" using assms(3) by (simp add: sio_room_def)
  then show ?thesis using sio_loop_total [OF assms(1,2) _ assms(3,4), of 16 0 1] assms(1,2)
    by (cases mc) (auto simp: Sio2McEmu_def)
qed

end

section \<open>The storage of the program\<close>

interpretation hdd_io: page_io "DeviceReadPage_hdd ata_rd v" "DeviceWritePage_hdd ata_wr v"
    "(\<forall>s l. length (fst (snd (ata_rd s l))) = 512) \<and> vmc_ok (fst v) \<and> vmc_ok (snd v)"
  for ata_rd ata_wr v
proof
  fix buf :: "u8 list" and c :: int and s :: 'a and p :: u32
  assume a: "(\<forall>s l. length (fst (snd (ata_rd s l))) = 512) \<and> vmc_ok (fst v) \<and> vmc_ok (snd v)" "length buf = 512" "c \<in> {0, 1}"
  then obtain l where l: "Mcpage_to_Apasector v c p = Inr l"
    using Mcpage_to_Apasector_eq [of v c "vmc_of v c" p] by (auto simp: spec_of_def vmc_of_def)
  obtain r d s' where r: "ata_rd s l = (r, d, s')" by (metis prod_cases3)
  then have "length d = 512" using a(1) by (metis fst_conv snd_conv)
  then show "\<exists>r buf' s'. DeviceReadPage_hdd ata_rd v s c buf p = Inr (r, buf', s') \<and> length buf' = 512"
    using l r a(2) by (simp add: DeviceReadPage_hdd_def mem_write_def)
  show "\<exists>r s'. DeviceWritePage_hdd ata_wr v s c buf p = Inr (r, s')"
    using l a(2) by (cases "ata_wr s l buf") (simp add: DeviceWritePage_hdd_def)
qed

interpretation bdm_io: page_io "DeviceReadPage_bdm bdm_rd v" "DeviceWritePage_bdm bdm_wr v" "\<forall>s l. length (fst (snd (bdm_rd s l))) = 512"
  for bdm_rd bdm_wr v
proof
  fix buf :: "u8 list" and c :: int and s :: 'a and p :: u32
  assume a: "\<forall>s l. length (fst (snd (bdm_rd s l))) = 512" "length buf = 512" "c \<in> {0, 1}"
  then have c: "spec_of v c = Inr (vmc_of v c)" by (auto simp: spec_of_def vmc_of_def)
  let ?l = "stsec (vmc_of v c) + ucast p"
  obtain r d s' where r: "bdm_rd s ?l = (r, d, s')" by (metis prod_cases3)
  then have "length d = 512" using a(1) by (metis fst_conv snd_conv)
  then show "\<exists>r buf' s'. DeviceReadPage_bdm bdm_rd v s c buf p = Inr (r, buf', s') \<and> length buf' = 512"
    using c r a(2) by (simp add: DeviceReadPage_bdm_def mem_write_def)
  show "\<exists>r s'. DeviceWritePage_bdm bdm_wr v s c buf p = Inr (r, s')"
    using c a(2) by (cases "bdm_wr s ?l buf") (simp add: DeviceWritePage_bdm_def)
qed

section \<open>Properties\<close>

text \<open>C11: Whatever commands a packet holds, in whatever order and however often packets come, the handler returns, stays inside its buffers and keeps the cards
  well-formed.  Let each card be absent or be one with pages of 512 bytes whose two offsets are less than 512, let the two
  data buffers have their sizes, the file tables of the cards be valid, and let the commands and answers of the packet have room.
  Then \<open>Sio2McEmu\<close> returns, and cards and buffers are again of that form, with the same cards present, also when transfers of the disk fail.\<close>

theorem Sio2McEmu_keeps_typed:
  assumes "cards_typed mc" "bufs_ok m" "sio_room sd (length (rdmaddr sd))"
    and "\<forall>s l. length (fst (snd (ata_rd s l))) = 512" "vmc_ok (fst v)" "vmc_ok (snd v)"
  shows "\<exists>sd' mc' m'. Sio2McEmu (DeviceReadPage_hdd ata_rd v) (DeviceWritePage_hdd ata_wr v) sd mc m = r_ret (sd', mc', m') \<and>
    length (rdmaddr sd') = length (rdmaddr sd) \<and> cards_typed mc' \<and> mcnum (fst mc') = mcnum (fst mc) \<and> mcnum (snd mc') = mcnum (snd mc) \<and> bufs_ok m'"
  using assms by (intro hdd_io.Sio2McEmu_total) simp_all

definition demo_packet :: Sio2Packet where
  "demo_packet = \<lparr>iostatus = 0, ctrl = [0x240371, 0x240371] @ replicate 14 0, pwr_buf = [],
     wrmaddr = [0x81, 0x23, 3, 0, 0, 0, 3, 0] @ [0x81, 0x43, 128] @ replicate 255 0, wrwords = 2, wrcount = 2,
     rdmaddr = replicate 700 0, rdwords = 36\<rparr>"

theorem Sio2McEmu_keeps_typed_witness:
  "\<exists>sd' mc' m'. Sio2McEmu (DeviceReadPage_hdd (\<lambda>s l. (-1, demo_disk s l, s)) demo_vmc) (DeviceWritePage_hdd (\<lambda>s l d. (0, s(l := d))) demo_vmc)
     demo_packet (demo_card\<lparr>mcnum := -1\<rparr>, demo_card) demo_mem = r_ret (sd', mc', m') \<and> cards_typed mc' \<and> bufs_ok m'"
proof -
  have room: "sio_room demo_packet (length (rdmaddr demo_packet))" by code_simp
  have typed: "cards_typed (demo_card\<lparr>mcnum := -1\<rparr>, demo_card)" "bufs_ok demo_mem"
    by (simp_all add: cards_typed_def card_typed_def card_ok_def bufs_ok_def demo_card_def demo_mem_def)
  have vmc: "vmc_ok (fst demo_vmc)" "vmc_ok (snd demo_vmc)" using demo_cards_ok by (simp_all add: cards_ok_def)
  have full: "\<forall>s l. length (fst (snd ((\<lambda>s l. (-1 :: int, demo_disk s l, s)) s l))) = 512" by (auto simp: demo_disk_def)
  show ?thesis using Sio2McEmu_keeps_typed [OF typed room full vmc, of "\<lambda>s l d. (0, s(l := d))"] by blast
qed

text \<open>On block devices a transfer that failed is reported as done: erasing a block of which nothing is written succeeds.\<close>

lemma bdm_error_unnoticed:
  assumes "card_ok mcd" "bufs_ok m" "\<forall>s l d. bdm_wr s l d = (e, s)"
  shows "\<exists>m'. MceEraseBlock (DeviceWritePage_bdm bdm_wr v) mcd page m = Inr (1, m') \<and> drive m' = drive m"
proof -
  have er: "\<exists>m'. erase_pages (DeviceWritePage_bdm bdm_wr v) mcd page i n m = Inr (1, m') \<and> drive m' = drive m" if "bufs_ok m" for i n m
  proof (induction n arbitrary: i)
    case (Suc n)
    have "spec_of v (mcnum mcd) = Inr (vmc_of v (mcnum mcd))" using assms(1) by (auto simp: card_ok_def spec_of_def vmc_of_def)
    then have "DeviceWritePage_bdm bdm_wr v (drive m) (mcnum mcd) (mcdatabuf m) (page + of_nat i) = Inr (1, drive m)"
      using assms(3) that by (simp add: DeviceWritePage_bdm_def bufs_ok_def)
    then show ?case using Suc by simp
  qed simp
  define z where "z = (replicate 512 (if flags mcd AND 0x10 \<noteq> 0 then 0 else 0xFF) :: u8 list)"
  have z: "bufs_ok (m\<lparr>mcdatabuf := z\<rparr>)" "page_bytes mcd = 512" "mem_write (mcdatabuf m) 0 z = Inr z"
    using assms(1,2) by (simp_all add: bufs_ok_def card_ok_def mem_write_def z_def)
  then show ?thesis using er [OF z(1), of 0] unfolding MceEraseBlock_def z(2) z_def [symmetric] by simp
qed

end
