(* ===== verification/Spec2Isabelle.thy ===== *)
theory Spec2Isabelle
  imports Config IoSystem Atlas TexCache Ps2Cnf Logo GameList Cheatman Pad OSDHistory Gsm GamePrep Ps5Menu Streaming CdDrive SearchFile McSio
begin

text \<open>
  PS2 Launcher, a fork of Open PS2 Loader, shows the games of a console's storage devices in a menu and starts
  them with a set of modules that stand in for the disc drive while the game runs.  This development models the
  parts of the launcher that compute something: its stores and caches, its parsers and file formats, the
  queue of background requests, the lists of games and menus, what a launch hands over, and the in-game disc drive.

  \<^bold>\<open>How the parts interact.\<close>  The support code of a device (\<open>supportbase.c\<close>) reads the files of the device into a list
  of games, keeps a cache of it on the device, and fills the menu lists (\<open>menusys.c\<close>).  The menu asks the image
  cache (\<open>texcache.c\<close>) for covers; a miss becomes a request of the I/O manager (\<open>ioman.c\<close>), which its worker thread serves
  in order.  Settings of the launcher and of single games live in configuration sets (\<open>config.c\<close>), which are text files
  read and written through the buffers of \<open>util.c\<close>; the favourites and recently played games are kept in them.  A
  launch reads \<open>SYSTEM.CNF\<close> of the disc (\<open>ps2cnf.c\<close>), probes the image, plain or compressed (\<open>isofs/zso.c\<close>), checks the logo,
  loads cheats (\<open>cheatman.c\<close>), records the game in the console's history (\<open>OSDHistory.c\<close>), chooses the video mode
  (\<open>gsm.c\<close>) and patches the settings into the image of the in-game driver (\<open>modules/iopcore/cdvdman\<close>).  That driver
  then serves the game's reads from the hard disk or a network share, through a sector cache for compressed
  images and a ring buffer for streams.

  \<^bold>\<open>How C is modelled.\<close>  Theory \<open>CPrelude\<close>: integers keep their width (\<open>u8\<close> to \<open>u64\<close> are words; \<open>int\<close> values that do not
  wrap in the code are \<open>int\<close>), a C string is the list of its characters, an array is a list, and every access that C
  leaves undefined (outside an array, through a null or freed pointer, a string without its terminator) is a value of
  \<open>c_fault\<close>: \<open>'a cres\<close> is a fault or a result.  A theorem that gives a result therefore says that no such access happened.
  Linked cells are a map from addresses to records (\<open>Linked_List\<close>, \<open>DList\<close>).  A loop or wait that may not end is a
  \<open>partial_function (option)\<close> whose \<open>None\<close> is not returning; each theorem about such a function shows \<open>Some\<close>.  Threads
  are step functions on a system state with the program points at which the code can be interrupted; \<open>Refinement\<close>
  holds their runs and the locale \<open>trace_refinement\<close> that makes a simulation relation a statement about all runs.
  Code outside the repository (the file system, the card, pad, graphics and thread libraries, LZ4, the clock and the
  random numbers, the disk controller and the file server) is an argument of the definitions; what is relied
  on is a named predicate (\<open>srv_ok\<close>, \<open>xfer_ok\<close>, \<open>raw_reader\<close> and so on) and every property that uses one has a witness.

  \<^bold>\<open>Theories, the code they model and what they show.\<close>
  \<^item> \<open>FileBuffer\<close>, \<open>Util\<close> (\<open>src/util.c\<close>): the buffered reader delivers the lines of a file without comments whatever the size
    of the window; paths, cards, colours, folders.
  \<^item> \<open>Config\<close> (\<open>src/config.c\<close>): a set is the list of its items in the order of the linked list; it refines a map, and
    writing it to a file and reading it back gives it again.
  \<^item> \<open>Linked_List\<close>, \<open>IoMan\<close>, \<open>Refinement\<close>, \<open>IoSystem\<close> (\<open>src/ioman.c\<close>): the request list as cells in a heap, and the worker and its
    clients interleaved at their semaphores; every run refines a queue (a failing \<open>malloc\<close> and the walk of
    the counting call over a freed cell are its only faults), requests are served in order, the queue is emptied, and two ways in which the
    code goes wrong.
  \<^item> \<open>Atlas\<close> (\<open>src/atlas.c\<close>): the tree of free rectangles stays a partition, and images in it stay intact.
  \<^item> \<open>TexCache\<close> (\<open>src/texcache.c\<close>): whatever the order of loads, a texture is the image that was asked for.
  \<^item> \<open>Ps2Cnf\<close> (\<open>src/ps2cnf.c\<close>), \<open>Crc\<close> (\<open>USBA_crc32\<close> of \<open>src/system.c\<close>, equal to the polynomial division it stands for),
    \<open>Logo\<close> (\<open>CheckPS2Logo\<close> of \<open>src/util.c\<close>), \<open>Gsm\<close> (\<open>src/gsm.c\<close>), \<open>OSDHistory\<close> (\<open>src/OSDHistory.c\<close>), \<open>Pad\<close> (\<open>src/pad.c\<close>).
  \<^item> \<open>Zso\<close> (\<open>modules/isofs/zso.c\<close>, \<open>src/zso.c\<close>): the reader of compressed images over the locale \<open>raw_reader\<close>, interpreted for files
    and for the hard disk: it delivers the sectors the image encodes.
  \<^item> \<open>GameList\<close>, \<open>GamePrep\<close> (\<open>src/supportbase.c\<close>): the list of games from \<open>ul.cfg\<close> and from image files, its cache, deletion and
    renaming; probing, patching and preparing a launch.
  \<^item> \<open>Cheatman\<close> (\<open>src/cheatman.c\<close>): the parser of cheat files and the bounded list handed to the engine.
  \<^item> \<open>DList\<close>, \<open>SubMenu\<close>, \<open>GameHistory\<close>, \<open>Ps5Menu\<close> (\<open>src/menusys.c\<close>, the filters also of \<open>src/themes.c\<close>): menu lists and their sorting; favourites
    and recent games; the keys of the games screen, in the classic list and in the carousel, as moves on positions.
  \<^item> \<open>Streaming\<close> (\<open>streaming.c\<close> of \<open>modules/iopcore/cdvdman\<close>): ring buffer, reading thread, alarm and the game's calls,
    interleaved; a stream delivers the sectors of the disc in order, as long as nothing else
    reads and the device does not fail.
  \<^item> \<open>CdDevice\<close> (\<open>device-hdd.c\<close>, \<open>device-smb.c\<close>, \<open>smb.c\<close> there): sectors of a game in partitions or in whole or split files.
  \<^item> \<open>CdRead\<close>, \<open>CdDrive\<close> (\<open>cdvdman.c\<close> there): what the driver relies on of a device is the locale \<open>sector_device\<close> and, for the
    sector cache, \<open>read_ahead_device\<close>; the hard disk is an interpretation of both, a single file on a share only of the first.
    The cache is transparent, reads are exact up to the end of the medium, unaligned reads without errors equal aligned ones.
  \<^item> \<open>SearchFile\<close> (\<open>searchfile.c\<close> there): looking up a path in the directories of a disc refines a walk over the entries they hold.
  \<^item> \<open>McEcc\<close>, \<open>McEmu\<close>, \<open>McSio\<close> (\<open>modules/mcemu\<close>): virtual memory cards.  The check bytes locate one flipped bit and notice two; what is
    written to a card is read back, over the locale \<open>page_device\<close>; no packet of commands makes the handler leave its buffers, over
    the locale \<open>page_io\<close>.  The hard disk and block devices are interpretations of both.

  \<^bold>\<open>Bounds and fuel.\<close>  Recursion over a counter of the code (\<open>smb_parts\<close>, \<open>ul_loop\<close>, the scans over fixed tables) uses that
  counter.  \<open>fill_run\<close> of \<open>Streaming\<close> has four steps, the length of its longest path.  Reads are limited to less than
  \<open>2 ^ 20\<close> sectors and images to what 32-bit sector numbers can address, where the code computes byte counts in 32 bits.

  \<^bold>\<open>Not modelled.\<close>  Drawing, dialogs, themes, sound and fonts, whose result is what appears on a screen; start-up, module
  loading and the hand-over of memory in \<open>opl.c\<close> and \<open>system.c\<close>; the loader core in \<open>ee_core\<close> and the hooks of \<open>mcemu\<close>, which patch machine code;
  the drivers for controllers, USB, disk controller and network, which program hardware; third-party code (lwIP, LZ4,
  the FAT driver, lwNBD); generated tables of texts.
\<close>

end
